(* ===== verification/Prelude.thy ===== *)
theory Prelude
  imports Main "HOL-Library.Word"
begin

text \<open>
  The vocabulary shared by every component: C's fixed-width byte type, the C integer
  ranges, byte buffers with the three memory operations the server uses on them
  (\<open>memcpy\<close> out, \<open>memcpy\<close> in, \<open>memmove\<close>), and little-endian integers stored in
  buffers.  A \<open>char *\<close> with its length is a \<^typ>\<open>8 word list\<close>; a C integer whose
  wrap-around matters is kept as an \<^typ>\<open>int\<close> or \<^typ>\<open>nat\<close> with the reduction written
  out, or as a word.
\<close>

type_synonym u8 = "8 word"
type_synonym bytes = "8 word list"

named_theorems buf_simps
named_theorems int_range

section \<open>Early returns\<close>

text \<open>Sequencing of a computation that may have returned an error already.\<close>

definition sbind :: "'e + 'a \<Rightarrow> ('a \<Rightarrow> 'e + 'b) \<Rightarrow> 'e + 'b" where
  "sbind m f = (case m of Inl e \<Rightarrow> Inl e | Inr x \<Rightarrow> f x)"

lemma sbind_simps [simp]: "sbind (Inl e) f = Inl e" "sbind (Inr x) f = f x"
  by (simp_all add: sbind_def)

lemma sbind_cong [fundef_cong]:
  "m = m' \<Longrightarrow> (\<And>x. m' = Inr x \<Longrightarrow> f x = f' x) \<Longrightarrow> sbind m f = sbind m' f'"
  by (auto simp: sbind_def split: sum.splits)

lemma sbind_Inr_iff: "sbind m f = Inr y \<longleftrightarrow> (\<exists>x. m = Inr x \<and> f x = Inr y)"
  by (cases m) auto

lemma sbind_Inl_iff: "sbind m f = Inl e \<longleftrightarrow> m = Inl e \<or> (\<exists>x. m = Inr x \<and> f x = Inl e)"
  by (cases m) auto

section \<open>C integer ranges\<close>

definition int16_min :: int where [int_range]: "int16_min = - 32768"
definition int16_max :: int where [int_range]: "int16_max = 32767"
definition int32_min :: int where [int_range]: "int32_min = - 2147483648"
definition int32_max :: int where [int_range]: "int32_max = 2147483647"
definition int64_min :: int where [int_range]: "int64_min = - 9223372036854775808"
definition int64_max :: int where [int_range]: "int64_max = 9223372036854775807"
definition uint64_max :: nat where [int_range]: "uint64_max = 18446744073709551615"

definition is_int64 :: "int \<Rightarrow> bool" where
  [int_range]: "is_int64 v \<longleftrightarrow> int64_min \<le> v \<and> v \<le> int64_max"

text \<open>Two's complement reading of an unsigned \<open>n\<close>-byte value.\<close>

definition to_signed :: "nat \<Rightarrow> int \<Rightarrow> int" where
  "to_signed n u = (if u < 256 ^ n div 2 then u else u - 256 ^ n)"

definition in_signed :: "nat \<Rightarrow> int \<Rightarrow> bool" where
  "in_signed n v \<longleftrightarrow> - (256 ^ n div 2) \<le> v \<and> v < 256 ^ n div 2"

text \<open>The conversion of an unsigned value to the \<open>int\<close> of C.\<close>

definition to_int32 :: "nat \<Rightarrow> int" where
  "to_int32 n = to_signed 4 (int n mod 4294967296)"

lemma to_int32_small: "n < 2147483648 \<Longrightarrow> to_int32 n = int n"
  by (simp add: to_int32_def to_signed_def)

lemma to_int32_high: "2147483648 \<le> n \<Longrightarrow> n < 4294967296 \<Longrightarrow> to_int32 n = int n - 4294967296"
  by (simp add: to_int32_def to_signed_def)

lemma to_int32_le: "to_int32 n \<le> int n"
  using zmod_le_nonneg_dividend [of "int n" 4294967296] by (simp add: to_int32_def to_signed_def)

lemma to_signed_mod:
  assumes "0 < n" "in_signed n v"
  shows "to_signed n (v mod 256 ^ n) = v"
proof -
  obtain m where m: "n = Suc m" using assms(1) by (cases n) auto
  define h :: int where "h = 256 ^ n div 2"
  have two: "(256::int) ^ n = 2 * h" by (simp add: h_def m)
  have hpos: "0 < h" using two by (simp add: h_def m)
  have rng: "- h \<le> v" "v < h" using assms(2) by (auto simp: in_signed_def h_def)
  show ?thesis
  proof (cases "0 \<le> v")
    case True
    then have "v mod (2 * h) = v" using rng hpos by (intro mod_pos_pos_trivial) auto
    then show ?thesis using rng two by (simp add: to_signed_def)
  next
    case False
    then have "v mod (2 * h) = v + 2 * h"
      using rng hpos by (intro int_mod_pos_eq [where q = "-1", THEN trans]) auto
    then show ?thesis using rng two False by (simp add: to_signed_def)
  qed
qed

section \<open>Byte buffers\<close>

text \<open>\<open>buf_get b p n\<close>: the \<open>n\<close> bytes at offset \<open>p\<close>.  \<open>buf_put b p xs\<close>: \<open>xs\<close>
  copied over the buffer at offset \<open>p\<close>.\<close>

definition buf_get :: "'a list \<Rightarrow> nat \<Rightarrow> nat \<Rightarrow> 'a list" where
  "buf_get b p n = take n (drop p b)"

definition buf_put :: "'a list \<Rightarrow> nat \<Rightarrow> 'a list \<Rightarrow> 'a list" where
  "buf_put b p xs = take p b @ xs @ drop (p + length xs) b"

definition memmove :: "'a list \<Rightarrow> nat \<Rightarrow> nat \<Rightarrow> nat \<Rightarrow> 'a list" where
  "memmove b dst src n = buf_put b dst (buf_get b src n)"

text \<open>\<open>zrealloc\<close> of a buffer: the common prefix is kept.  The new bytes have no
  defined value in C; the model holds zeros there, and no theorem reads them.\<close>

definition buf_resize :: "bytes \<Rightarrow> nat \<Rightarrow> bytes" where
  "buf_resize b n = take n b @ replicate (n - length b) 0"

lemma length_buf_get [buf_simps]: "p + n \<le> length b \<Longrightarrow> length (buf_get b p n) = n"
  by (simp add: buf_get_def)

lemma length_buf_put [buf_simps]: "p + length xs \<le> length b \<Longrightarrow> length (buf_put b p xs) = length b"
  by (simp add: buf_put_def)

lemma length_memmove [buf_simps]:
  "src + n \<le> length b \<Longrightarrow> dst + n \<le> length b \<Longrightarrow> length (memmove b dst src n) = length b"
  by (simp add: memmove_def buf_simps)

lemma buf_put_Nil [simp]: "buf_put b p [] = b"
  by (simp add: buf_put_def)

lemma length_buf_resize [simp]: "length (buf_resize b n) = n"
  by (simp add: buf_resize_def)

lemma nth_buf_get [buf_simps]: "p + n \<le> length b \<Longrightarrow> i < n \<Longrightarrow> buf_get b p n ! i = b ! (p + i)"
  by (simp add: buf_get_def)

lemma nth_buf_put [buf_simps]:
  "p + length xs \<le> length b \<Longrightarrow> i < length b \<Longrightarrow>
   buf_put b p xs ! i = (if p \<le> i \<and> i < p + length xs then xs ! (i - p) else b ! i)"
  by (auto simp: buf_put_def nth_append min_def)

lemma nth_memmove [buf_simps]:
  "src + n \<le> length b \<Longrightarrow> dst + n \<le> length b \<Longrightarrow> i < length b \<Longrightarrow>
   memmove b dst src n ! i = (if dst \<le> i \<and> i < dst + n then b ! (src + (i - dst)) else b ! i)"
  by (auto simp: memmove_def buf_simps)

lemma nth_buf_resize [buf_simps]: "i < n \<Longrightarrow> i < length b \<Longrightarrow> buf_resize b n ! i = b ! i"
  by (simp add: buf_resize_def nth_append)

lemma buf_get_put_same [buf_simps]:
  "p + length xs \<le> length b \<Longrightarrow> n = length xs \<Longrightarrow> buf_get (buf_put b p xs) p n = xs"
  by (rule nth_equalityI) (auto simp: buf_simps)

lemma buf_get_put_other:
  assumes "p + length xs \<le> length b" "q + n \<le> length b" "q + n \<le> p \<or> p + length xs \<le> q"
  shows "buf_get (buf_put b p xs) q n = buf_get b q n"
  by (rule nth_equalityI) (use assms in \<open>auto simp: buf_simps\<close>)

lemma buf_get_memmove:
  assumes "src + n \<le> length b" "dst + n \<le> length b" "dst \<le> q" "q + k \<le> dst + n"
  shows "buf_get (memmove b dst src n) q k = buf_get b (src + (q - dst)) k"
  by (rule nth_equalityI) (use assms in \<open>auto simp: buf_simps ac_simps\<close>)

lemma buf_get_memmove_other:
  assumes "src + n \<le> length b" "dst + n \<le> length b" "q + k \<le> length b"
    and "q + k \<le> dst \<or> dst + n \<le> q"
  shows "buf_get (memmove b dst src n) q k = buf_get b q k"
  by (rule nth_equalityI) (use assms in \<open>auto simp: buf_simps\<close>)

lemma buf_get_resize:
  assumes "p + n \<le> m" "p + n \<le> length b"
  shows "buf_get (buf_resize b m) p n = buf_get b p n"
  by (rule nth_equalityI) (use assms in \<open>auto simp: buf_simps\<close>)

section \<open>Little-endian integers in buffers\<close>

primrec le_bytes :: "nat \<Rightarrow> int \<Rightarrow> bytes" where
  "le_bytes 0 v = []"
| "le_bytes (Suc n) v = word_of_int v # le_bytes n (v div 256)"

primrec le_uint :: "bytes \<Rightarrow> int" where
  "le_uint [] = 0"
| "le_uint (b # bs) = uint b + 256 * le_uint bs"

lemma length_le_bytes [simp]: "length (le_bytes n v) = n"
  by (induction n arbitrary: v) auto

lemma uint_byte_of_int: "uint (word_of_int v :: u8) = v mod 256"
  by (simp add: uint_word_of_int)

lemma le_uint_bytes: "le_uint (le_bytes n v) = v mod 256 ^ n"
proof (induction n arbitrary: v)
  case 0
  show ?case by simp
next
  case (Suc n)
  have "v mod (256 * 256 ^ n) = 256 * (v div 256 mod 256 ^ n) + v mod 256"
    by (rule zmod_zmult2_eq) simp
  then show ?case using Suc by (simp add: uint_byte_of_int)
qed

lemma le_uint_nonneg: "0 \<le> le_uint bs"
  by (induction bs) auto

lemma uint_byte_less: "uint (b :: u8) < 256"
  using uint_lt2p [of b] by simp

lemma unat_byte_less: "unat (b :: u8) < 256"
  by (rule order.strict_trans2 [OF unsigned_less]) simp

lemma le_uint_less: "le_uint bs < 256 ^ length bs"
proof (induction bs)
  case Nil
  show ?case by simp
next
  case (Cons b bs)
  then have "le_uint bs + 1 \<le> 256 ^ length bs" by simp
  then have "256 * le_uint bs + 256 \<le> 256 * 256 ^ length bs" by linarith
  then show ?case using uint_byte_less [of b] by simp
qed

lemma le_bytes_uint: "le_bytes (length bs) (le_uint bs) = bs"
proof (induction bs)
  case Nil
  show ?case by simp
next
  case (Cons b bs)
  have "uint (word_of_int (uint b + 256 * le_uint bs) :: u8) = uint b"
    using uint_byte_less [of b] by (simp only: uint_byte_of_int mod_mult_self2) simp
  then have "word_of_int (uint b + 256 * le_uint bs) = b"
    by (rule word_uint_eqI)
  moreover have "(uint b + 256 * le_uint bs) div 256 = le_uint bs"
    using uint_byte_less [of b] by simp
  ultimately show ?case using Cons by simp
qed

end
