(* ===== verification/SetAdt.thy ===== *)
theory SetAdt
  imports Prelude
begin

text \<open>
  The contract the set commands (\<open>t_set.c\<close>) rely on, whatever the encoding of the set:
  an operation that adds and reports whether the element was new, one that removes and
  reports whether it was there, and a membership test.  \<open>room\<close> is the provider's
  condition under which one more element fits its counters, \<open>key_ok\<close> the range of
  elements it can hold.
\<close>

locale set_adt =
  fixes empty :: 's
    and inv :: "'s \<Rightarrow> bool"
    and room :: "'s \<Rightarrow> bool"
    and key_ok :: "'k \<Rightarrow> bool"
    and members :: "'s \<Rightarrow> 'k set"
    and add :: "'s \<Rightarrow> 'k \<Rightarrow> 's \<times> bool"
    and remove :: "'s \<Rightarrow> 'k \<Rightarrow> 's \<times> bool"
    and find :: "'s \<Rightarrow> 'k \<Rightarrow> bool"
  assumes inv_empty: "inv empty"
    and members_empty: "members empty = {}"
    and inv_add: "inv s \<Longrightarrow> room s \<Longrightarrow> key_ok k \<Longrightarrow> inv (fst (add s k))"
    and members_add: "inv s \<Longrightarrow> room s \<Longrightarrow> key_ok k \<Longrightarrow> members (fst (add s k)) = insert k (members s)"
    and added: "inv s \<Longrightarrow> room s \<Longrightarrow> key_ok k \<Longrightarrow> snd (add s k) \<longleftrightarrow> k \<notin> members s"
    and inv_remove: "inv s \<Longrightarrow> key_ok k \<Longrightarrow> inv (fst (remove s k))"
    and members_remove: "inv s \<Longrightarrow> key_ok k \<Longrightarrow> members (fst (remove s k)) = members s - {k}"
    and removed: "inv s \<Longrightarrow> key_ok k \<Longrightarrow> snd (remove s k) \<longleftrightarrow> k \<in> members s"
    and find_iff: "inv s \<Longrightarrow> key_ok k \<Longrightarrow> find s k \<longleftrightarrow> k \<in> members s"
begin

lemmas laws = inv_empty members_empty inv_add members_add added inv_remove members_remove removed find_iff

text \<open>A multi-key \<open>SADD\<close> or \<open>SREM\<close>: the elements in order, counting the successes.\<close>

primrec add_all :: "'s \<Rightarrow> 'k list \<Rightarrow> 's \<times> nat" where
  "add_all s [] = (s, 0)"
| "add_all s (k # ks) =
    (let (s', ok) = add s k; (s'', n) = add_all s' ks in (s'', (if ok then 1 else 0) + n))"

primrec remove_all :: "'s \<Rightarrow> 'k list \<Rightarrow> 's \<times> nat" where
  "remove_all s [] = (s, 0)"
| "remove_all s (k # ks) =
    (let (s', ok) = remove s k; (s'', n) = remove_all s' ks in (s'', (if ok then 1 else 0) + n))"

primrec room_all :: "'s \<Rightarrow> 'k list \<Rightarrow> bool" where
  "room_all s [] = True"
| "room_all s (k # ks) \<longleftrightarrow> room s \<and> room_all (fst (add s k)) ks"

lemma add_all_spec:
  assumes "inv s" "room_all s ks" "list_all key_ok ks" "finite (members s)"
  shows "inv (fst (add_all s ks)) \<and> members (fst (add_all s ks)) = members s \<union> set ks
    \<and> snd (add_all s ks) = card (set ks - members s)"
  using assms
proof (induction ks arbitrary: s)
  case (Cons k ks)
  obtain s' ok where a: "add s k = (s', ok)" by (cases "add s k") auto
  have p: "inv s" "room s" "key_ok k" using Cons.prems by auto
  have s': "inv s'" "members s' = insert k (members s)" "ok \<longleftrightarrow> k \<notin> members s"
    using inv_add [OF p] members_add [OF p] added [OF p] a by auto
  have IH: "inv (fst (add_all s' ks)) \<and> members (fst (add_all s' ks)) = members s' \<union> set ks
      \<and> snd (add_all s' ks) = card (set ks - members s')"
    using Cons.IH [of s'] Cons.prems s' a by simp
  have "card (set (k # ks) - members s) =
      (if k \<in> members s then 0 else 1) + card (set ks - members s')"
  proof (cases "k \<in> members s")
    case False
    then have "set (k # ks) - members s = insert k (set ks - members s')" using s'(2) by auto
    then show ?thesis using False s'(2) by (simp add: card_insert_if)
  qed (simp add: s'(2) insert_absorb)
  then show ?case using IH s' a by (auto simp: split_beta Let_def)
qed simp

lemma remove_all_spec:
  assumes "inv s" "list_all key_ok ks" "finite (members s)"
  shows "inv (fst (remove_all s ks)) \<and> members (fst (remove_all s ks)) = members s - set ks
    \<and> snd (remove_all s ks) = card (members s \<inter> set ks)"
  using assms
proof (induction ks arbitrary: s)
  case (Cons k ks)
  obtain s' ok where a: "remove s k = (s', ok)" by (cases "remove s k") auto
  have p: "inv s" "key_ok k" using Cons.prems by auto
  have s': "inv s'" "members s' = members s - {k}" "ok \<longleftrightarrow> k \<in> members s"
    using inv_remove [OF p] members_remove [OF p] removed [OF p] a by auto
  have IH: "inv (fst (remove_all s' ks)) \<and> members (fst (remove_all s' ks)) = members s' - set ks
      \<and> snd (remove_all s' ks) = card (members s' \<inter> set ks)"
    using Cons.IH [of s'] Cons.prems s' by simp
  have "card (members s \<inter> set (k # ks)) =
      (if k \<in> members s then 1 else 0) + card (members s' \<inter> set ks)"
  proof (cases "k \<in> members s")
    case True
    then have "members s \<inter> set (k # ks) = insert k (members s' \<inter> set ks)" using s'(2) by auto
    then show ?thesis using True s'(2) Cons.prems(3) by (simp add: card_insert_if)
  next
    case False
    then have "members s \<inter> set (k # ks) = members s' \<inter> set ks" using s'(2) by auto
    then show ?thesis using False by simp
  qed
  then show ?case using IH s' a by (auto simp: split_beta Let_def)
qed simp

lemma add_idempotent:
  assumes "inv s" "room s" "key_ok k" "room (fst (add s k))"
  shows "\<not> snd (add (fst (add s k)) k)"
  using assms inv_add [OF assms(1-3)] members_add [OF assms(1-3)] by (simp add: added)

end

end
