(* ===== verification/Intset.thy ===== *)
theory Intset
  imports Prelude SetAdt
begin

text \<open>
  \<open>intset.c\<close>: a set of signed 64 bit integers kept as a sorted array of 2, 4 or 8 byte
  little-endian slots in one allocation.  The model keeps the byte array (\<open>contents\<close>)
  and performs the code's byte moves on it; \<open>elems\<close> reads it back as a list of integers,
  and the operations are shown to be insertion and removal on a strictly sorted list.
  The counters are the code's \<open>uint32_t\<close>: the wrap-arounds of \<open>length + 1\<close> and of the
  byte counts are written out.
\<close>

section \<open>The code\<close>

record intset =
  encoding :: nat
  ilength :: nat
  contents :: bytes

abbreviation u32_wrap :: "nat \<Rightarrow> nat" where
  "u32_wrap n \<equiv> n mod 4294967296"

definition intsetValueEncoding :: "int \<Rightarrow> nat" where
  "intsetValueEncoding v =
    (if v < int32_min \<or> v > int32_max then 8
     else if v < int16_min \<or> v > int16_max then 4
     else 2)"

definition intsetGetEncoded :: "intset \<Rightarrow> nat \<Rightarrow> nat \<Rightarrow> int" where
  "intsetGetEncoded is pos enc =
    (if enc = 8 then to_signed 8 (le_uint (buf_get (contents is) (pos * 8) 8))
     else if enc = 4 then to_signed 4 (le_uint (buf_get (contents is) (pos * 4) 4))
     else to_signed 2 (le_uint (buf_get (contents is) (pos * 2) 2)))"

definition intsetGetAt :: "intset \<Rightarrow> nat \<Rightarrow> int" where
  "intsetGetAt is pos = intsetGetEncoded is pos (encoding is)"

definition intsetSet :: "intset \<Rightarrow> nat \<Rightarrow> int \<Rightarrow> intset" where
  "intsetSet is pos value =
    (if encoding is = 8
     then is\<lparr>contents := buf_put (contents is) (pos * 8) (le_bytes 8 value)\<rparr>
     else if encoding is = 4
     then is\<lparr>contents := buf_put (contents is) (pos * 4) (le_bytes 4 value)\<rparr>
     else is\<lparr>contents := buf_put (contents is) (pos * 2) (le_bytes 2 value)\<rparr>)"

definition intsetNew :: intset where
  "intsetNew = \<lparr>encoding = 2, ilength = 0, contents = []\<rparr>"

definition intsetResize :: "intset \<Rightarrow> nat \<Rightarrow> intset" where
  "intsetResize is len = is\<lparr>contents := buf_resize (contents is) (u32_wrap (len * encoding is))\<rparr>"

text \<open>The binary search loop: the values of \<open>mid\<close>, \<open>cur\<close> and \<open>min\<close> when it stops.\<close>

function intsetSearch_loop :: "intset \<Rightarrow> int \<Rightarrow> int \<Rightarrow> int \<Rightarrow> int \<Rightarrow> int \<Rightarrow> int \<times> int \<times> int" where
  "intsetSearch_loop is value mn mx mid cur =
    (if mx \<ge> mn then
       (let mid = (mn + mx) div 2;
            cur = intsetGetAt is (nat mid)
        in if value > cur then intsetSearch_loop is value (mid + 1) mx mid cur
           else if value < cur then intsetSearch_loop is value mn (mid - 1) mid cur
           else (mid, cur, mn))
     else (mid, cur, mn))"
  by pat_completeness auto
termination by (relation "measure (\<lambda>(is, v, mn, mx, _, _). nat (mx - mn + 1))") auto

declare intsetSearch_loop.simps [simp del]

text \<open>\<open>intsetSearch\<close>: the return value and what \<open>*pos\<close> is set to.\<close>

definition intsetSearch :: "intset \<Rightarrow> int \<Rightarrow> bool \<times> nat" where
  "intsetSearch is value =
    (if ilength is = 0 then (False, 0)
     else if value > intsetGetAt is (ilength is - 1) then (False, ilength is)
     else if value < intsetGetAt is 0 then (False, 0)
     else
       (let (mid, cur, mn) =
          intsetSearch_loop is value 0 (int (ilength is) - 1) (- 1) (- 1)
        in if value = cur then (True, nat mid) else (False, nat mn)))"

primrec intsetUpgrade_loop :: "nat \<Rightarrow> nat \<Rightarrow> nat \<Rightarrow> intset \<Rightarrow> intset" where
  "intsetUpgrade_loop 0 prepend curenc is = is"
| "intsetUpgrade_loop (Suc len) prepend curenc is =
    intsetUpgrade_loop len prepend curenc
      (intsetSet is (len + prepend) (intsetGetEncoded is len curenc))"

definition intsetUpgradeAndAdd :: "intset \<Rightarrow> int \<Rightarrow> intset" where
  "intsetUpgradeAndAdd is value =
    (let curenc = encoding is;
         newenc = intsetValueEncoding value;
         len = ilength is;
         prepend = (if value < 0 then 1 else 0);
         is = is\<lparr>encoding := newenc\<rparr>;
         is = intsetResize is (u32_wrap (ilength is + 1));
         is = intsetUpgrade_loop len prepend curenc is;
         is = (if prepend = 1 then intsetSet is 0 value
               else intsetSet is (ilength is) value)
     in is\<lparr>ilength := u32_wrap (ilength is + 1)\<rparr>)"

definition intsetMoveTail :: "intset \<Rightarrow> nat \<Rightarrow> nat \<Rightarrow> intset" where
  "intsetMoveTail is from to =
    (let n = ilength is - from in
     if encoding is = 8
     then is\<lparr>contents := memmove (contents is) (to * 8) (from * 8) (u32_wrap (n * 8))\<rparr>
     else if encoding is = 4
     then is\<lparr>contents := memmove (contents is) (to * 4) (from * 4) (u32_wrap (n * 4))\<rparr>
     else is\<lparr>contents := memmove (contents is) (to * 2) (from * 2) (u32_wrap (n * 2))\<rparr>)"

text \<open>\<open>intsetAdd\<close> and \<open>intsetRemove\<close>: the new set and the \<open>success\<close> flag.\<close>

definition intsetAdd :: "intset \<Rightarrow> int \<Rightarrow> intset \<times> bool" where
  "intsetAdd is value =
    (let valenc = intsetValueEncoding value in
     if valenc > encoding is then (intsetUpgradeAndAdd is value, True)
     else
       (let (found, pos) = intsetSearch is value in
        if found then (is, False)
        else
          (let is = intsetResize is (u32_wrap (ilength is + 1));
               is = (if pos < ilength is then intsetMoveTail is pos (pos + 1) else is);
               is = intsetSet is pos value
           in (is\<lparr>ilength := u32_wrap (ilength is + 1)\<rparr>, True))))"

definition intsetRemove :: "intset \<Rightarrow> int \<Rightarrow> intset \<times> bool" where
  "intsetRemove is value =
    (let valenc = intsetValueEncoding value;
         (found, pos) = intsetSearch is value
     in if valenc \<le> encoding is \<and> found then
          (let len = ilength is;
               is = (if pos < len - 1 then intsetMoveTail is (pos + 1) pos else is);
               is = intsetResize is (len - 1)
           in (is\<lparr>ilength := len - 1\<rparr>, True))
        else (is, False))"

definition intsetFind :: "intset \<Rightarrow> int \<Rightarrow> bool" where
  "intsetFind is value \<longleftrightarrow>
    intsetValueEncoding value \<le> encoding is \<and> fst (intsetSearch is value)"

text \<open>\<open>intsetRandom\<close> with the value of \<open>rand()\<close> as an argument.\<close>

definition intsetRandom :: "nat \<Rightarrow> intset \<Rightarrow> int" where
  "intsetRandom rnd is = intsetGetAt is (rnd mod ilength is)"

definition intsetGet :: "intset \<Rightarrow> nat \<Rightarrow> int option" where
  "intsetGet is pos = (if pos < ilength is then Some (intsetGetAt is pos) else None)"

definition intsetLen :: "intset \<Rightarrow> nat" where
  "intsetLen is = ilength is"

text \<open>The blob is the two \<open>uint32_t\<close> of the header and the slots.\<close>

definition intsetBlobLen :: "intset \<Rightarrow> nat" where
  "intsetBlobLen is = 8 + u32_wrap (ilength is * encoding is)"

section \<open>Slots\<close>

definition slot :: "nat \<Rightarrow> bytes \<Rightarrow> nat \<Rightarrow> int" where
  "slot k c i = to_signed k (le_uint (buf_get c (i * k) k))"

lemma slot_disjoint: "(i::nat) \<noteq> j \<Longrightarrow> i * k + k \<le> j * k \<or> j * k + k \<le> i * k"
  using mult_le_mono1 [of "Suc i" j k] mult_le_mono1 [of "Suc j" i k] by (cases "i < j") auto

lemma slot_fits: "i < n \<Longrightarrow> n * k \<le> m \<Longrightarrow> i * k + k \<le> (m::nat)"
  using mult_le_mono1 [of "Suc i" n k] by simp

lemma slot_put_same:
  assumes "0 < k" "i * k + k \<le> length c" "in_signed k v"
  shows "slot k (buf_put c (i * k) (le_bytes k v)) i = v"
  using assms by (simp add: slot_def buf_simps le_uint_bytes to_signed_mod)

lemma slot_put_other:
  assumes "i \<noteq> j" "i * k + k \<le> length c" "j * k + k \<le> length c"
  shows "slot k (buf_put c (i * k) (le_bytes k v)) j = slot k c j"
  using assms slot_disjoint [OF assms(1), of k]
  by (auto simp: slot_def buf_get_put_other)

lemma slot_resize:
  "i * k + k \<le> n \<Longrightarrow> i * k + k \<le> length c \<Longrightarrow> slot k (buf_resize c n) i = slot k c i"
  by (simp add: slot_def buf_get_resize)

lemma slot_in_signed:
  assumes "i * k + k \<le> length c" "0 < k"
  shows "in_signed k (slot k c i)"
proof -
  have "le_uint (buf_get c (i * k) k) < 256 ^ k"
    using le_uint_less [of "buf_get c (i * k) k"] assms(1) by (simp add: buf_simps)
  moreover obtain m where "k = Suc m" using assms(2) by (cases k) auto
  then have "256 ^ k = 2 * (256 ^ k div 2 :: int)" by simp
  ultimately show ?thesis
    using le_uint_nonneg [of "buf_get c (i * k) k"]
    unfolding slot_def to_signed_def in_signed_def by presburger
qed

lemma slot_memmove:
  assumes "src * k + n * k \<le> length c" "dst * k + n * k \<le> length c" "dst \<le> i" "i < dst + n"
  shows "slot k (memmove c (dst * k) (src * k) (n * k)) i = slot k c (src + (i - dst))"
proof -
  have "i * k + k \<le> dst * k + n * k" using slot_fits [of i "dst + n" k] assms(4) by (simp add: add_mult_distrib)
  moreover have "dst * k \<le> i * k" using assms(3) by simp
  moreover have "src * k + (i * k - dst * k) = (src + (i - dst)) * k"
    by (simp add: add_mult_distrib diff_mult_distrib)
  ultimately show ?thesis
    using assms(1,2) by (simp add: slot_def buf_get_memmove)
qed

lemma slot_memmove_other:
  assumes "src * k + n * k \<le> length c" "dst * k + n * k \<le> length c"
    and "i < dst \<or> dst + n \<le> i" "i * k + k \<le> length c"
  shows "slot k (memmove c (dst * k) (src * k) (n * k)) i = slot k c i"
proof -
  have "i * k + k \<le> dst * k \<or> dst * k + n * k \<le> i * k"
    using assms(3) slot_fits [of i dst k] mult_le_mono1 [of "dst + n" i k]
    by (auto simp: add_mult_distrib)
  then show ?thesis using assms by (simp add: slot_def buf_get_memmove_other)
qed


section \<open>The abstraction and the invariant\<close>

definition intset_elems :: "intset \<Rightarrow> int list" where
  "intset_elems is = map (slot (encoding is) (contents is)) [0..<ilength is]"

definition intset_wf :: "intset \<Rightarrow> bool" where
  "intset_wf is \<longleftrightarrow> encoding is \<in> {2, 4, 8} \<and> length (contents is) = ilength is * encoding is
    \<and> sorted_wrt (<) (intset_elems is) \<and> ilength is * 8 < 4294967296"

lemma length_elems [simp]: "length (intset_elems is) = ilength is"
  by (simp add: intset_elems_def)

lemma nth_elems: "i < ilength is \<Longrightarrow> intset_elems is ! i = slot (encoding is) (contents is) i"
  by (simp add: intset_elems_def)

lemma intset_wf_new: "intset_wf intsetNew" "intset_elems intsetNew = []"
  by (simp_all add: intset_wf_def intsetNew_def intset_elems_def)

lemma getEncoded_slot: "enc \<in> {2, 4, 8} \<Longrightarrow> intsetGetEncoded is pos enc = slot enc (contents is) pos"
  by (auto simp: intsetGetEncoded_def slot_def)

lemma getAt_slot: "encoding is \<in> {2, 4, 8} \<Longrightarrow> intsetGetAt is pos = slot (encoding is) (contents is) pos"
  by (simp add: intsetGetAt_def getEncoded_slot)

lemma getAt_elems: "intset_wf is \<Longrightarrow> i < ilength is \<Longrightarrow> intsetGetAt is i = intset_elems is ! i"
  by (simp add: intset_wf_def getAt_slot nth_elems)

lemma set_slot: "encoding is \<in> {2, 4, 8} \<Longrightarrow> intsetSet is pos v =
    is\<lparr>contents := buf_put (contents is) (pos * encoding is) (le_bytes (encoding is) v)\<rparr>"
  unfolding intsetSet_def by (auto split: if_splits)

lemma moveTail_slot:
  assumes "encoding is \<in> {2, 4, 8}" "ilength is * 8 < 4294967296"
  shows "intsetMoveTail is from to = is\<lparr>contents := memmove (contents is) (to * encoding is)
     (from * encoding is) ((ilength is - from) * encoding is)\<rparr>"
  using assms unfolding intsetMoveTail_def by (auto simp: Let_def split: if_splits)

lemma valueEncoding_range:
  assumes "is_int64 v"
  shows "intsetValueEncoding v \<in> {2, 4, 8}"
    and "enc \<in> {2, 4, 8} \<Longrightarrow> intsetValueEncoding v \<le> enc \<longleftrightarrow> in_signed enc v"
  using assms by (auto simp: intsetValueEncoding_def int_range in_signed_def)

lemma elems_in_signed:
  assumes "intset_wf is" "x \<in> set (intset_elems is)"
  shows "in_signed (encoding is) x"
proof -
  obtain i where "i < ilength is" "x = slot (encoding is) (contents is) i"
    using assms(2) by (auto simp: intset_elems_def)
  then show ?thesis
    using assms(1) slot_fits [of i "ilength is" "encoding is"]
    by (auto simp: intset_wf_def intro!: slot_in_signed)
qed

lemma in_signed_mono: "in_signed k v \<Longrightarrow> k \<le> k' \<Longrightarrow> in_signed k' v"
proof -
  assume "in_signed k v" "k \<le> k'"
  moreover from this(2) have "(256::int) ^ k div 2 \<le> 256 ^ k' div 2"
    by (intro zdiv_mono1 power_increasing) simp_all
  ultimately show ?thesis by (auto simp: in_signed_def)
qed

section \<open>Search\<close>

lemma sorted_wrt_less_nth:
  "sorted_wrt (<) (xs :: int list) \<Longrightarrow> i < length xs \<Longrightarrow> j < length xs \<Longrightarrow> xs ! i < xs ! j \<longleftrightarrow> i < j"
  by (metis linorder_neqE_nat order_less_asym order_less_irrefl sorted_wrt_nth_less)

text \<open>The state of the search loop: everything left of \<open>min\<close> is smaller, everything right
  of \<open>max\<close> is larger, and \<open>cur\<close> differs from the value unless the loop is still to run.\<close>

lemma search_loop:
  assumes wf: "intset_wf is"
    and "0 \<le> mn" "mx < int (ilength is)" "mn \<le> mx + 1" "cur \<noteq> v \<or> mn \<le> mx"
    and "\<forall>i < nat mn. intset_elems is ! i < v"
    and "\<forall>i < ilength is. mx < int i \<longrightarrow> v < intset_elems is ! i"
    and "intsetSearch_loop is v mn mx mid cur = (mid', cur', mn')"
  shows "if v = cur' then 0 \<le> mid' \<and> nat mid' < ilength is \<and> intset_elems is ! nat mid' = v
    else 0 \<le> mn' \<and> mn' \<le> int (ilength is) \<and> (\<forall>i < nat mn'. intset_elems is ! i < v) \<and>
      (\<forall>i < ilength is. nat mn' \<le> i \<longrightarrow> v < intset_elems is ! i)"
  using assms
proof (induction "is" v mn mx mid cur rule: intsetSearch_loop.induct)
  case (1 "is" v mn mx mid cur)
  note prems = "1.prems"
  show ?case
  proof (cases "mn \<le> mx")
    case False
    then have "cur' = cur" "mn' = mn" "mx = mn - 1" using prems
      by (simp_all add: intsetSearch_loop.simps [of "is" v mn mx mid cur])
    then show ?thesis using prems False by auto
  next
    case True
    define m where "m = (mn + mx) div 2"
    have m: "mn \<le> m" "m \<le> mx" "nat m < ilength is" using True prems by (auto simp: m_def)
    define c where "c = intset_elems is ! nat m"
    have get: "intsetGetAt is (nat m) = c" using getAt_elems [OF prems(1) m(3)] by (simp add: c_def)
    have ord: "intset_elems is ! i < intset_elems is ! j \<longleftrightarrow> i < j"
      if "i < ilength is" "j < ilength is" for i j
      using sorted_wrt_less_nth [of "intset_elems is" i j] that prems(1) by (simp add: intset_wf_def)
    have step: "intsetSearch_loop is v mn mx mid cur =
        (if v > c then intsetSearch_loop is v (m + 1) mx m c
         else if v < c then intsetSearch_loop is v mn (m - 1) m c else (m, c, mn))"
      using True get by (subst intsetSearch_loop.simps) (simp add: Let_def flip: m_def)
    consider "c < v" | "v < c" | "c = v" by linarith
    then show ?thesis
    proof cases
      case 1
      have "\<forall>i < nat (m + 1). intset_elems is ! i < v"
      proof (intro allI impI)
        fix i assume "i < nat (m + 1)"
        then have "i = nat m \<or> i < nat m" by linarith
        then have "intset_elems is ! i \<le> c" using ord [of i "nat m"] m(3) by (auto simp: c_def)
        then show "intset_elems is ! i < v" using 1 by simp
      qed
      moreover have "intsetSearch_loop is v (m + 1) mx m c = (mid', cur', mn')"
        using step 1 prems(8) by simp
      ultimately show ?thesis
        by (intro "1.IH"(1) [OF True m_def get [symmetric] 1 prems(1)])
          (use 1 prems m in \<open>simp_all\<close>)
    next
      case 2
      have "\<forall>i < ilength is. m - 1 < int i \<longrightarrow> v < intset_elems is ! i"
      proof (intro allI impI)
        fix i assume i: "i < ilength is" "m - 1 < int i"
        then have "i = nat m \<or> nat m < i" by linarith
        then have "c \<le> intset_elems is ! i" using ord [of "nat m" i] m(3) i by (auto simp: c_def)
        then show "v < intset_elems is ! i" using 2 by simp
      qed
      moreover have "intsetSearch_loop is v mn (m - 1) m c = (mid', cur', mn')"
        using step 2 prems(8) by simp
      moreover have "\<not> c < v" using 2 by simp
      ultimately show ?thesis
        by (intro "1.IH"(2) [OF True m_def get [symmetric] \<open>\<not> c < v\<close> 2 prems(1)])
          (use 2 prems m in \<open>simp_all\<close>)
    next
      case 3
      then have "mid' = m" "cur' = c" using step prems(8) by simp_all
      then show ?thesis using 3 m prems(2) by (simp add: c_def)
    qed
  qed
qed

lemma intsetSearch_cases:
  assumes "intset_wf is" "intsetSearch is v = (found, pos)"
  shows "if found then pos < ilength is \<and> intset_elems is ! pos = v
    else pos \<le> ilength is \<and> (\<forall>i < pos. intset_elems is ! i < v) \<and>
      (\<forall>i < ilength is. pos \<le> i \<longrightarrow> v < intset_elems is ! i)"
proof -
  let ?n = "ilength is"
  have ord: "intset_elems is ! i < intset_elems is ! j \<longleftrightarrow> i < j" if "i < ?n" "j < ?n" for i j
    using sorted_wrt_less_nth [of "intset_elems is" i j] that assms(1) by (simp add: intset_wf_def)
  consider "?n = 0" | "0 < ?n" "intset_elems is ! (?n - 1) < v"
    | "0 < ?n" "v < intset_elems is ! 0"
    | "0 < ?n" "\<not> intset_elems is ! (?n - 1) < v" "\<not> v < intset_elems is ! 0" by linarith
  then show ?thesis
  proof cases
    case 1
    then show ?thesis using assms(2) by (auto simp: intsetSearch_def)
  next
    case 2
    then have "intset_elems is ! i < v" if "i < ?n" for i
      using ord [of i "?n - 1"] that by (cases "i = ?n - 1") auto
    then show ?thesis using 2 assms by (auto simp: intsetSearch_def getAt_elems)
  next
    case 3
    then have "v < intset_elems is ! i" if "i < ?n" for i
      using ord [of 0 i] that by (cases "i = 0") auto
    moreover have "\<not> intset_elems is ! (?n - 1) < v"
      using calculation [of "?n - 1"] 3 by simp
    ultimately show ?thesis using 3 assms by (auto simp: intsetSearch_def getAt_elems)
  next
    case 4
    obtain mid cur mn where l: "intsetSearch_loop is v 0 (int ?n - 1) (- 1) (- 1) = (mid, cur, mn)"
      by (cases "intsetSearch_loop is v 0 (int ?n - 1) (- 1) (- 1)") auto
    have res: "(found, pos) = (if v = cur then (True, nat mid) else (False, nat mn))"
      using 4 assms l by (auto simp: intsetSearch_def getAt_elems)
    have "if v = cur then 0 \<le> mid \<and> nat mid < ?n \<and> intset_elems is ! nat mid = v
      else 0 \<le> mn \<and> mn \<le> int ?n \<and> (\<forall>i < nat mn. intset_elems is ! i < v) \<and>
        (\<forall>i < ?n. nat mn \<le> i \<longrightarrow> v < intset_elems is ! i)"
      by (rule search_loop [OF assms(1) _ _ _ _ _ _ l]) (use 4 in auto)
    then show ?thesis using res by (auto split: if_splits)
  qed
qed

lemma intsetSearch_found: "intset_wf is \<Longrightarrow> fst (intsetSearch is v) \<longleftrightarrow> v \<in> set (intset_elems is)"
proof -
  assume wf: "intset_wf is"
  obtain found pos where s: "intsetSearch is v = (found, pos)" by (cases "intsetSearch is v") auto
  show ?thesis
  proof (cases found)
    case True
    then show ?thesis using intsetSearch_cases [OF wf s] s
      by (auto simp: in_set_conv_nth)
  next
    case False
    have "v \<noteq> intset_elems is ! i" if "i < ilength is" for i
      using intsetSearch_cases [OF wf s] False that by (cases "i < pos") auto
    then show ?thesis using s False by (auto simp: in_set_conv_nth)
  qed
qed


section \<open>Insertion and removal\<close>

lemma memmove_0 [simp]: "memmove b d s 0 = b"
  by (simp add: memmove_def buf_get_def)

text \<open>Insertion in the middle of a slot array: grow, move the tail up, write.\<close>

lemma slots_insert:
  assumes "0 < k" "length c = n * k" "pos \<le> n" "in_signed k v"
  defines "c3 \<equiv> buf_put (memmove (buf_resize c (Suc n * k)) (Suc pos * k) (pos * k) ((n - pos) * k))
      (pos * k) (le_bytes k v)"
  shows "length c3 = Suc n * k"
    and "map (slot k c3) [0..<Suc n] =
      take pos (map (slot k c) [0..<n]) @ v # drop pos (map (slot k c) [0..<n])"
proof -
  define c1 where "c1 = buf_resize c (Suc n * k)"
  define c2 where "c2 = memmove c1 (Suc pos * k) (pos * k) ((n - pos) * k)"
  have c3: "c3 = buf_put c2 (pos * k) (le_bytes k v)" by (simp add: c3_def c2_def c1_def)
  have l1: "length c1 = Suc n * k" by (simp add: c1_def)
  have b: "Suc pos * k + (n - pos) * k \<le> length c1" "pos * k + (n - pos) * k \<le> length c1"
    using assms(3) l1 by (simp_all add: add_mult_distrib [symmetric] del: mult_Suc)
  have l2: "length c2 = Suc n * k" using b l1 by (simp add: c2_def buf_simps)
  have f: "i * k + k \<le> Suc n * k" if "i < Suc n" for i using slot_fits [OF that] by simp
  show "length c3 = Suc n * k" using f [of pos] assms(3) l2 by (simp add: c3 buf_simps)
  have s1: "slot k c1 i = slot k c i" if "i < n" for i
    using slot_fits [of i n k "length c"] that assms(2) f [of i] by (simp add: c1_def slot_resize)
  have s2: "slot k c2 i = slot k c i" if "i < pos" for i
    using that assms(3) f [of i] b l1 s1 slot_memmove_other [of pos k "n - pos" c1 "Suc pos" i]
    by (simp add: c2_def)
  have s3: "slot k c2 (Suc i) = slot k c i" if "pos \<le> i" "i < n" for i
    using that b s1 slot_memmove [of pos k "n - pos" c1 "Suc pos" "Suc i"]
    by (simp add: c2_def)
  have s: "slot k c3 i = (if i < pos then slot k c i else if i = pos then v else slot k c (i - 1))"
    if "i < Suc n" for i
  proof -
    consider "i < pos" | "i = pos" | "pos < i" by linarith
    then show ?thesis
      using that f [of i] f [of pos] l2 s2 s3 [of "i - 1"] assms(1,3,4)
      by cases (simp_all add: c3 slot_put_same slot_put_other)
  qed
  show "map (slot k c3) [0..<Suc n] =
      take pos (map (slot k c) [0..<n]) @ v # drop pos (map (slot k c) [0..<n])"
    by (rule nth_equalityI) (use assms(3) in \<open>auto simp: s nth_append nth_Cons' simp del: upt_Suc\<close>)
qed

text \<open>Removal: move the tail down over the slot and shrink.\<close>

lemma slots_remove:
  assumes "0 < k" "length c = n * k" "pos < n"
  defines "c2 \<equiv> buf_resize (memmove c (pos * k) (Suc pos * k) ((n - Suc pos) * k)) ((n - 1) * k)"
  shows "length c2 = (n - 1) * k"
    and "map (slot k c2) [0..<n - 1] =
      take pos (map (slot k c) [0..<n]) @ drop (Suc pos) (map (slot k c) [0..<n])"
proof -
  define c1 where "c1 = memmove c (pos * k) (Suc pos * k) ((n - Suc pos) * k)"
  have c2: "c2 = buf_resize c1 ((n - 1) * k)" by (simp add: c2_def c1_def)
  show "length c2 = (n - 1) * k" by (simp add: c2)
  have b: "Suc pos * k + (n - Suc pos) * k \<le> length c" "pos * k + (n - Suc pos) * k \<le> length c"
    using assms(2,3) by (simp_all add: add_mult_distrib [symmetric] del: mult_Suc)
  have l1: "length c1 = n * k" using b assms(2) by (simp add: c1_def buf_simps)
  have s: "slot k c2 i = (if i < pos then slot k c i else slot k c (Suc i))" if "i < n - 1" for i
  proof -
    have "slot k c2 i = slot k c1 i"
      using that l1 slot_fits [of i "n - 1" k] slot_fits [of i n k] by (simp add: c2 slot_resize)
    also have "\<dots> = (if i < pos then slot k c i else slot k c (Suc i))"
    proof (cases "i < pos")
      case True
      then show ?thesis using b that slot_fits [of i n k "length c"] assms(2)
          slot_memmove_other [of "Suc pos" k "n - Suc pos" c pos i]
        by (simp add: c1_def)
    next
      case False
      then show ?thesis using b that slot_memmove [of "Suc pos" k "n - Suc pos" c pos i]
        by (simp add: c1_def)
    qed
    finally show ?thesis .
  qed
  show "map (slot k c2) [0..<n - 1] =
      take pos (map (slot k c) [0..<n]) @ drop (Suc pos) (map (slot k c) [0..<n])"
    by (rule nth_equalityI) (use assms(3) in \<open>auto simp: s nth_append\<close>)
qed

lemma upgrade_loop:
  assumes "encoding is = k'" "k' \<in> {2, 4, 8}" "k \<in> {2, 4, 8}" "k \<le> k'"
    and "(len + prepend) * k' \<le> length (contents is)"
  shows "\<exists>c. intsetUpgrade_loop len prepend k is = is\<lparr>contents := c\<rparr> \<and> length c = length (contents is) \<and>
    (\<forall>i < len. slot k' c (i + prepend) = slot k (contents is) i) \<and>
    (\<forall>j \<ge> len + prepend. j * k' + k' \<le> length c \<longrightarrow> slot k' c j = slot k' (contents is) j)"
  using assms
proof (induction len arbitrary: "is")
  case 0
  then show ?case by (intro exI [of _ "contents is"]) simp
next
  case (Suc len)
  define x where "x = slot k (contents is) len"
  define c1 where "c1 = buf_put (contents is) ((len + prepend) * k') (le_bytes k' x)"
  define is1 where "is1 = is\<lparr>contents := c1\<rparr>"
  have fit: "(len + prepend) * k' + k' \<le> length (contents is)" using Suc.prems(5) by simp
  have low: "i * k + k \<le> (len + prepend) * k'" if "i < Suc len" "len * k + k \<le> (len + prepend) * k' \<or> i < len" for i
    using slot_fits [of i len k "len * k"] that mult_le_mono [of len "len + prepend" k k'] Suc.prems(4)
    by (auto simp: less_Suc_eq)
  have l: "length c1 = length (contents is)" using fit by (simp add: c1_def buf_simps)
  have "len * k + k \<le> length (contents is)"
    using fit mult_le_mono [of "Suc len" "Suc (len + prepend)" k k'] Suc.prems(4) by simp
  then have x: "in_signed k' x" unfolding x_def
    by (intro in_signed_mono [OF slot_in_signed Suc.prems(4)]) (use Suc.prems(3) in auto)
  have step: "intsetUpgrade_loop (Suc len) prepend k is = intsetUpgrade_loop len prepend k is1"
    using Suc.prems by (simp add: getEncoded_slot set_slot is1_def c1_def x_def)
  have "(len + prepend) * k' \<le> length (contents is1)" using l fit by (simp add: is1_def)
  from Suc.IH [OF _ Suc.prems(2,3,4) this] Suc.prems(1) obtain c where
    c: "intsetUpgrade_loop len prepend k is1 = is1\<lparr>contents := c\<rparr>" "length c = length c1"
      "\<forall>i < len. slot k' c (i + prepend) = slot k c1 i"
      "\<forall>j \<ge> len + prepend. j * k' + k' \<le> length c \<longrightarrow> slot k' c j = slot k' c1 j"
    by (auto simp: is1_def)
  have old: "slot k c1 i = slot k (contents is) i" if "i < len" for i
    using low [of i] that fit by (simp add: slot_def c1_def buf_get_put_other)
  have new: "slot k' c1 (len + prepend) = x"
    unfolding c1_def using Suc.prems(2) fit x by (intro slot_put_same) auto
  have rest: "slot k' c1 j = slot k' (contents is) j" if "Suc len + prepend \<le> j" "j * k' + k' \<le> length c" for j
    using that l c(2) fit by (simp add: c1_def slot_put_other)
  show ?case
  proof (intro exI [of _ c] conjI allI impI)
    show "intsetUpgrade_loop (Suc len) prepend k is = is\<lparr>contents := c\<rparr>"
      using step c(1) by (simp add: is1_def)
    show "length c = length (contents is)" using c(2) l by simp
  next
    fix i assume i: "i < Suc len"
    show "slot k' c (i + prepend) = slot k (contents is) i"
    proof (cases "i = len")
      case True
      have "slot k' c (len + prepend) = x" using c(2,4) l fit new by simp
      then show ?thesis by (simp add: True x_def)
    next
      case False
      then show ?thesis using c(3) old [of i] i by simp
    qed
  next
    fix j assume "Suc len + prepend \<le> j" "j * k' + k' \<le> length c"
    then show "slot k' c j = slot k' (contents is) j" using c(4) rest [of j] by simp
  qed
qed

section \<open>The operations on the abstract list\<close>

lemma insort_at:
  assumes "\<forall>i < pos. xs ! i < (v::int)" "\<forall>i < length xs. pos \<le> i \<longrightarrow> v < xs ! i" "pos \<le> length xs"
    and "sorted_wrt (<) xs"
  shows "sorted_wrt (<) (take pos xs @ v # drop pos xs)"
proof -
  have l: "x < v" if "x \<in> set (take pos xs)" for x
    using that assms(1) by (auto simp: in_set_conv_nth)
  have r: "v < x" if "x \<in> set (drop pos xs)" for x
    using that assms(2,3) by (auto simp: in_set_conv_nth)
  have "sorted_wrt (<) (take pos xs @ drop pos xs)" using assms(4) by simp
  then show ?thesis using l r by (fastforce simp: sorted_wrt_append dest: order_less_trans)
qed

lemma sorted_delete_at:
  assumes "sorted_wrt (<) (xs :: int list)"
  shows "sorted_wrt (<) (take pos xs @ drop (Suc pos) xs)"
proof (cases "pos < length xs")
  case True
  then have "xs = take pos xs @ xs ! pos # drop (Suc pos) xs" by (rule id_take_nth_drop)
  with assms have "sorted_wrt (<) (take pos xs @ xs ! pos # drop (Suc pos) xs)" by simp
  then show ?thesis by (auto simp: sorted_wrt_append)
qed (use assms in simp)

lemma set_delete_at:
  assumes "sorted_wrt (<) (xs :: int list)" "pos < length xs"
  shows "set (take pos xs @ drop (Suc pos) xs) = set xs - {xs ! pos}"
proof -
  have d: "xs = take pos xs @ xs ! pos # drop (Suc pos) xs" using assms(2) by (rule id_take_nth_drop)
  with assms(1) have "sorted_wrt (<) (take pos xs @ xs ! pos # drop (Suc pos) xs)" by simp
  then have "xs ! pos \<notin> set (take pos xs)" "xs ! pos \<notin> set (drop (Suc pos) xs)"
    by (auto simp: sorted_wrt_append)
  moreover have "set xs = insert (xs ! pos) (set (take pos xs) \<union> set (drop (Suc pos) xs))"
    by (subst d) auto
  ultimately show ?thesis by auto
qed

text \<open>Room for one more element: the byte counts of \<open>intsetResize\<close> do not wrap.\<close>

definition intset_room :: "intset \<Rightarrow> bool" where
  "intset_room is \<longleftrightarrow> (ilength is + 1) * 8 < 4294967296"

lemma add_in_place:
  assumes "intset_wf is" "intset_room is" "in_signed (encoding is) v"
    and "intsetSearch is v = (False, pos)"
  defines "is1 \<equiv> intsetResize is (u32_wrap (ilength is + 1))"
  defines "is2 \<equiv> (if pos < ilength is1 then intsetMoveTail is1 pos (pos + 1) else is1)"
  defines "is3 \<equiv> (intsetSet is2 pos v)\<lparr>ilength := u32_wrap (ilength (intsetSet is2 pos v) + 1)\<rparr>"
  shows "intset_wf is3"
    and "intset_elems is3 = take pos (intset_elems is) @ v # drop pos (intset_elems is)"
proof -
  let ?k = "encoding is" and ?n = "ilength is" and ?c = "contents is"
  have k: "?k \<in> {2, 4, 8}" "0 < ?k" "?k \<le> 8" and len: "length ?c = ?n * ?k"
    using assms(1) by (auto simp: intset_wf_def)
  have s: "pos \<le> ?n" "\<forall>i < pos. intset_elems is ! i < v" "\<forall>i < ?n. pos \<le> i \<longrightarrow> v < intset_elems is ! i"
    using intsetSearch_cases [OF assms(1,4)] by auto
  have w: "u32_wrap (?n + 1) = Suc ?n" "u32_wrap (Suc ?n * ?k) = Suc ?n * ?k"
    using assms(2) mult_le_mono2 [OF k(3), of "Suc ?n"] by (auto simp: intset_room_def)
  have i1: "is1 = is\<lparr>contents := buf_resize ?c (Suc ?n * ?k)\<rparr>"
    unfolding is1_def intsetResize_def w(1) by (simp only: w(2))
  have i2: "is2 = is1\<lparr>contents := memmove (contents is1) (Suc pos * ?k) (pos * ?k) ((?n - pos) * ?k)\<rparr>"
    using k(1) assms(2) s(1) unfolding is2_def i1
    by (auto simp: moveTail_slot intset_room_def)
  have i3: "is3 = is\<lparr>ilength := Suc ?n, contents := buf_put (contents is2) (pos * ?k) (le_bytes ?k v)\<rparr>"
    using k(1) w(1) by (simp add: is3_def i2 i1 set_slot)
  note ins = slots_insert [OF k(2) len s(1) assms(3)]
  show e: "intset_elems is3 = take pos (intset_elems is) @ v # drop pos (intset_elems is)"
    using ins(2) by (simp add: intset_elems_def i3 i2 i1)
  have "sorted_wrt (<) (intset_elems is3)"
    unfolding e using assms(1) s by (intro insort_at) (auto simp: intset_wf_def)
  moreover have "encoding is3 = ?k" "ilength is3 = Suc ?n" "length (contents is3) = Suc ?n * ?k"
    using ins(1) by (simp_all add: i3 i2 i1)
  moreover have "Suc ?n * 8 < 4294967296" using assms(2) by (simp add: intset_room_def)
  ultimately show "intset_wf is3" using k(1) unfolding intset_wf_def by presburger
qed

text \<open>A value outside the current encoding lies below or above every element.\<close>

lemma outside_encoding:
  assumes "intset_wf is" "\<not> in_signed (encoding is) v" "x \<in> set (intset_elems is)"
  shows "if v < 0 then v < x else x < v"
  using elems_in_signed [OF assms(1,3)] assms(2) by (auto simp: in_signed_def)

lemma upgrade_and_add:
  assumes "intset_wf is" "intset_room is" "is_int64 v" "\<not> in_signed (encoding is) v"
  shows "intset_wf (intsetUpgradeAndAdd is v)"
    and "intset_elems (intsetUpgradeAndAdd is v) =
      (if v < 0 then v # intset_elems is else intset_elems is @ [v])"
    and "encoding (intsetUpgradeAndAdd is v) = intsetValueEncoding v"
proof -
  let ?k = "encoding is" and ?n = "ilength is" and ?c = "contents is"
  define k' where "k' = intsetValueEncoding v"
  define pre :: nat where "pre = (if v < 0 then 1 else 0)"
  have k: "?k \<in> {2, 4, 8}" and len: "length ?c = ?n * ?k" using assms(1) by (auto simp: intset_wf_def)
  have k': "k' \<in> {2, 4, 8}" "0 < k'" "k' \<le> 8"
    using valueEncoding_range(1) [OF assms(3)] by (auto simp: k'_def)
  have kk: "?k \<le> k'" using valueEncoding_range(2) [OF assms(3) k] assms(4) by (simp add: k'_def)
  have v: "in_signed k' v" using valueEncoding_range(2) [OF assms(3) k'(1)] by (simp add: k'_def)
  have w: "u32_wrap (?n + 1) = Suc ?n" "u32_wrap (Suc ?n * k') = Suc ?n * k'"
    using assms(2) mult_le_mono2 [OF k'(3), of "Suc ?n"] by (auto simp: intset_room_def)
  define is1 where "is1 = is\<lparr>encoding := k', contents := buf_resize ?c (Suc ?n * k')\<rparr>"
  have i1: "intsetResize (is\<lparr>encoding := k'\<rparr>) (u32_wrap (ilength (is\<lparr>encoding := k'\<rparr>) + 1)) = is1"
    using w unfolding is1_def intsetResize_def by simp
  have l1: "length (contents is1) = Suc ?n * k'" by (simp add: is1_def)
  have "(?n + pre) * k' \<le> length (contents is1)" unfolding l1 by (intro mult_le_mono1) (simp add: pre_def)
  from upgrade_loop [OF _ k'(1) k kk this] obtain c where
    c: "intsetUpgrade_loop ?n pre ?k is1 = is1\<lparr>contents := c\<rparr>" "length c = Suc ?n * k'"
      "\<forall>i < ?n. slot k' c (i + pre) = slot ?k (contents is1) i"
    using l1 by (auto simp: is1_def)
  have old: "slot ?k (contents is1) i = slot ?k ?c i" if "i < ?n" for i
    using slot_fits [OF that, of ?k] len mult_le_mono [of ?n "Suc ?n" ?k k'] kk
    by (auto simp: is1_def intro!: slot_resize)
  define at where "at = (if v < 0 then 0 else ?n)"
  define c' where "c' = buf_put c (at * k') (le_bytes k' v)"
  have fit: "i * k' + k' \<le> length c" if "i < Suc ?n" for i
    using slot_fits [OF that, of k' "Suc ?n * k'"] c(2) by simp
  have res: "intsetUpgradeAndAdd is v = is\<lparr>encoding := k', ilength := Suc ?n, contents := c'\<rparr>"
  proof -
    have ss: "intsetSet (is1\<lparr>contents := c\<rparr>) p v =
        is1\<lparr>contents := buf_put c (p * k') (le_bytes k' v)\<rparr>" for p
      using k'(1) set_slot [of "is1\<lparr>contents := c\<rparr>" p v] by (simp add: is1_def)
    have n: "ilength (is1\<lparr>contents := c\<rparr>) = ?n" by (simp add: is1_def)
    show ?thesis
      unfolding intsetUpgradeAndAdd_def Let_def k'_def [symmetric] i1 pre_def [symmetric] c(1) n ss
      using w(1) by (simp add: is1_def c'_def at_def pre_def)
  qed
  have at: "at < Suc ?n" by (simp add: at_def)
  have sv: "slot k' c' at = v"
    unfolding c'_def using fit [OF at] k'(2) v by (intro slot_put_same)
  have sold: "slot k' c' (i + pre) = slot ?k ?c i" if "i < ?n" for i
  proof -
    have "i + pre \<noteq> at" "i + pre < Suc ?n" using that by (auto simp: at_def pre_def)
    then have "slot k' c' (i + pre) = slot k' c (i + pre)"
      unfolding c'_def using fit [OF at] fit [of "i + pre"] by (intro slot_put_other) auto
    then show ?thesis using c(3) old that by simp
  qed
  show enc: "encoding (intsetUpgradeAndAdd is v) = intsetValueEncoding v" by (simp add: res k'_def)
  show e: "intset_elems (intsetUpgradeAndAdd is v) =
      (if v < 0 then v # intset_elems is else intset_elems is @ [v])"
  proof (rule nth_equalityI)
    fix i assume "i < length (intset_elems (intsetUpgradeAndAdd is v))"
    then have i: "i < Suc ?n" by (simp add: res)
    have "intset_elems (intsetUpgradeAndAdd is v) ! i = slot k' c' i"
      using i by (simp add: res nth_elems)
    also have "\<dots> = (if v < 0 then v # intset_elems is else intset_elems is @ [v]) ! i"
    proof (cases "i = at")
      case True
      then show ?thesis unfolding True sv by (auto simp: at_def nth_append)
    next
      case False
      then have "i - pre < ?n" "i = (i - pre) + pre" using i by (auto simp: at_def pre_def)
      moreover from this have "slot k' c' i = slot ?k ?c (i - pre)" using sold by metis
      ultimately show ?thesis using False i
        by (auto simp: at_def pre_def nth_elems nth_append nth_Cons')
    qed
    finally show "intset_elems (intsetUpgradeAndAdd is v) ! i =
        (if v < 0 then v # intset_elems is else intset_elems is @ [v]) ! i" .
  qed (simp add: res)
  have "sorted_wrt (<) (intset_elems (intsetUpgradeAndAdd is v))"
    using assms(1) outside_encoding [OF assms(1,4)]
    by (auto simp: e intset_wf_def sorted_wrt_append split: if_splits)
  moreover have "length c' = Suc ?n * k'" using fit [OF at] c(2) by (simp add: c'_def buf_simps)
  moreover have "Suc ?n * 8 < 4294967296" using assms(2) by (simp add: intset_room_def)
  ultimately show "intset_wf (intsetUpgradeAndAdd is v)"
    using k'(1) by (simp add: intset_wf_def res)
qed


lemma found_in_range:
  "intset_wf is \<Longrightarrow> is_int64 v \<Longrightarrow> v \<in> set (intset_elems is) \<Longrightarrow> intsetValueEncoding v \<le> encoding is"
  using elems_in_signed [of "is" v] valueEncoding_range(2) [of v "encoding is"] by (auto simp: intset_wf_def)

lemma set_insert_at: "set (take pos xs @ v # drop pos xs) = insert v (set xs)"
proof -
  have "set xs = set (take pos xs) \<union> set (drop pos xs)" by (simp flip: set_append)
  then show ?thesis by auto
qed

lemma intsetAdd_spec:
  assumes "intset_wf is" "intset_room is" "is_int64 v" "intsetAdd is v = (is', ok)"
  shows "intset_wf is'" and "set (intset_elems is') = insert v (set (intset_elems is))"
    and "ok \<longleftrightarrow> v \<notin> set (intset_elems is)"
proof -
  have k: "encoding is \<in> {2, 4, 8}" using assms(1) by (simp add: intset_wf_def)
  have "intset_wf is' \<and> set (intset_elems is') = insert v (set (intset_elems is)) \<and>
      (ok \<longleftrightarrow> v \<notin> set (intset_elems is))"
  proof (cases "intsetValueEncoding v > encoding is")
    case True
    then have out: "\<not> in_signed (encoding is) v" using valueEncoding_range(2) [OF assms(3) k] by simp
    have "is' = intsetUpgradeAndAdd is v" "ok" using True assms(4) by (auto simp: intsetAdd_def)
    moreover have "v \<notin> set (intset_elems is)" using elems_in_signed [OF assms(1)] out by blast
    ultimately show ?thesis using upgrade_and_add [OF assms(1-3) out] by simp
  next
    case False
    then have inr: "in_signed (encoding is) v" using valueEncoding_range(2) [OF assms(3) k] by simp
    obtain found pos where s: "intsetSearch is v = (found, pos)" by (cases "intsetSearch is v") auto
    show ?thesis
    proof (cases found)
      case True
      then show ?thesis using intsetSearch_found [OF assms(1), of v] s assms(1,4) False
        by (auto simp: intsetAdd_def)
    next
      case nf: False
      then have "intsetSearch is v = (False, pos)" using s by simp
      note add = add_in_place [OF assms(1,2) inr this]
      define is1 where "is1 = intsetResize is (u32_wrap (ilength is + 1))"
      define is2 where "is2 = (if pos < ilength is1 then intsetMoveTail is1 pos (pos + 1) else is1)"
      define is3 where "is3 = (intsetSet is2 pos v)\<lparr>ilength := u32_wrap (ilength (intsetSet is2 pos v) + 1)\<rparr>"
      have "intsetAdd is v = (is3, True)"
        using nf False
        unfolding intsetAdd_def Let_def s prod.case is1_def [symmetric] is2_def [symmetric] is3_def [symmetric]
        by simp
      then have "is' = is3" "ok" using assms(4) by simp_all
      then show ?thesis
        using add [folded is1_def, folded is2_def, folded is3_def] nf s
          intsetSearch_found [OF assms(1), of v]
        by (simp add: set_insert_at del: set_append)
    qed
  qed
  then show "intset_wf is'" "set (intset_elems is') = insert v (set (intset_elems is))"
    "ok \<longleftrightarrow> v \<notin> set (intset_elems is)" by blast+
qed

lemma intsetRemove_spec:
  assumes "intset_wf is" "is_int64 v" "intsetRemove is v = (is', ok)"
  shows "intset_wf is'" and "set (intset_elems is') = set (intset_elems is) - {v}"
    and "ok \<longleftrightarrow> v \<in> set (intset_elems is)"
proof -
  let ?k = "encoding is" and ?n = "ilength is" and ?c = "contents is"
  have k: "?k \<in> {2, 4, 8}" "0 < ?k" "?k \<le> 8" and len: "length ?c = ?n * ?k" and room: "?n * 8 < 4294967296"
    and srt: "sorted_wrt (<) (intset_elems is)"
    using assms(1) by (auto simp: intset_wf_def)
  obtain found pos where s: "intsetSearch is v = (found, pos)" by (cases "intsetSearch is v") auto
  have mem: "found \<longleftrightarrow> v \<in> set (intset_elems is)" using intsetSearch_found [OF assms(1), of v] s by simp
  have "intset_wf is' \<and> set (intset_elems is') = set (intset_elems is) - {v} \<and>
      (ok \<longleftrightarrow> v \<in> set (intset_elems is))"
  proof (cases found)
    case False
    then show ?thesis using assms(1,3) s mem by (auto simp: intsetRemove_def Let_def)
  next
    case True
    then have pos: "pos < ?n" "intset_elems is ! pos = v" using intsetSearch_cases [OF assms(1) s] by auto
    have enc: "intsetValueEncoding v \<le> ?k" using found_in_range [OF assms(1,2)] mem True by simp
    have w: "u32_wrap ((?n - 1) * ?k) = (?n - 1) * ?k"
      using room mult_le_mono [OF _ k(3), of "?n - 1" ?n] by auto
    have mv: "(if pos < ?n - 1 then intsetMoveTail is (pos + 1) pos else is) =
        is\<lparr>contents := memmove ?c (pos * ?k) (Suc pos * ?k) ((?n - Suc pos) * ?k)\<rparr>"
      using k(1) room pos(1) by (cases "pos < ?n - 1") (simp_all add: moveTail_slot)
    have "is' = is\<lparr>contents := buf_resize (memmove ?c (pos * ?k) (Suc pos * ?k) ((?n - Suc pos) * ?k))
        ((?n - 1) * ?k), ilength := ?n - 1\<rparr>" and ok: ok
      using assms(3) s True enc mv w by (auto simp: intsetRemove_def Let_def intsetResize_def)
    note is' = this(1)
    note rem = slots_remove [OF k(2) len pos(1)]
    have e: "intset_elems is' = take pos (intset_elems is) @ drop (Suc pos) (intset_elems is)"
      using rem(2) by (simp add: intset_elems_def is')
    have "sorted_wrt (<) (intset_elems is')" unfolding e by (rule sorted_delete_at [OF srt])
    then have "intset_wf is'" using k rem(1) room by (simp add: intset_wf_def is')
    then show ?thesis using set_delete_at [OF srt, of pos] pos mem True ok by (simp add: e)
  qed
  then show "intset_wf is'" "set (intset_elems is') = set (intset_elems is) - {v}"
    "ok \<longleftrightarrow> v \<in> set (intset_elems is)" by blast+
qed

lemma intsetFind_spec:
  "intset_wf is \<Longrightarrow> is_int64 v \<Longrightarrow> intsetFind is v \<longleftrightarrow> v \<in> set (intset_elems is)"
  using found_in_range intsetSearch_found by (auto simp: intsetFind_def)


section \<open>The set contract and the properties\<close>

interpretation iset: set_adt intsetNew intset_wf intset_room is_int64
  "\<lambda>is. set (intset_elems is)" intsetAdd intsetRemove intsetFind
proof (unfold_locales, goal_cases)
  case (3 s k)
  then show ?case using intsetAdd_spec(1) [of s k] by (metis prod.collapse)
next
  case (4 s k)
  then show ?case using intsetAdd_spec(2) [of s k] by (metis prod.collapse)
next
  case (5 s k)
  then show ?case using intsetAdd_spec(3) [of s k] by (metis prod.collapse)
next
  case (6 s k)
  then show ?case using intsetRemove_spec(1) [of s k] by (metis prod.collapse)
next
  case (7 s k)
  then show ?case using intsetRemove_spec(2) [of s k] by (metis prod.collapse)
next
  case (8 s k)
  then show ?case using intsetRemove_spec(3) [of s k] by (metis prod.collapse)
qed (simp_all add: intset_wf_new intsetFind_spec)

text \<open>C25: \<open>intsetAdd\<close>, upgrade path included, keeps the slot array well formed and strictly
  sorted, adds exactly the given value, reports whether it was new, and every value stored
  before is read back unchanged.\<close>

theorem intsetAdd_correct:
  assumes "intset_wf is" "intset_room is" "is_int64 v"
  shows "intset_wf (fst (intsetAdd is v)) \<and>
    set (intset_elems (fst (intsetAdd is v))) = insert v (set (intset_elems is)) \<and>
    (snd (intsetAdd is v) \<longleftrightarrow> v \<notin> set (intset_elems is))"
  using iset.inv_add iset.members_add iset.added assms by blast

theorem intsetAdd_correct_witness:
  "set (intset_elems (fst (intsetAdd (fst (intsetAdd intsetNew 5)) (- 70000)))) = {- 70000, 5} \<and>
   encoding (fst (intsetAdd intsetNew 5)) = 2 \<and>
   encoding (fst (intsetAdd (fst (intsetAdd intsetNew 5)) (- 70000))) = 4"
proof -
  note run = intsetAdd_def intsetValueEncoding_def intsetSearch_def intsetNew_def intsetResize_def
    intsetSet_def intset_room_def intsetUpgradeAndAdd_def Let_def int_range
  have r: "intset_room intsetNew" "intset_room (fst (intsetAdd intsetNew 5))" by (simp_all add: run)
  have one: "intset_wf (fst (intsetAdd intsetNew 5))" "set (intset_elems (fst (intsetAdd intsetNew 5))) = {5}"
    using intsetAdd_correct [OF intset_wf_new(1) r(1), of 5] by (simp_all add: int_range intset_wf_new)
  moreover have "encoding (fst (intsetAdd intsetNew 5)) = 2"
    "encoding (fst (intsetAdd (fst (intsetAdd intsetNew 5)) (- 70000))) = 4" by (simp_all add: run)
  ultimately show ?thesis
    using intsetAdd_correct [OF one(1) r(2), of "- 70000"] by (simp add: int_range)
qed

text \<open>\<open>intsetRemove\<close> keeps the invariant, removes exactly the given value and reports
  whether it was there; \<open>intsetFind\<close> is membership.\<close>

theorem intsetRemove_correct:
  assumes "intset_wf is" "is_int64 v"
  shows "intset_wf (fst (intsetRemove is v)) \<and>
    set (intset_elems (fst (intsetRemove is v))) = set (intset_elems is) - {v} \<and>
    (snd (intsetRemove is v) \<longleftrightarrow> intsetFind is v) \<and>
    (intsetFind is v \<longleftrightarrow> v \<in> set (intset_elems is))"
  using iset.inv_remove iset.members_remove iset.removed iset.find_iff assms by blast

theorem intsetRemove_correct_witness:
  "\<not> intsetFind intsetNew 7 \<and> intset_wf (fst (intsetRemove intsetNew 7))"
  using intsetRemove_correct [OF intset_wf_new(1), of 7] by (simp add: int_range intset_wf_new)

text \<open>Reading by position enumerates the set in increasing order and fails exactly
  beyond its size.\<close>

theorem intsetGet_sorted:
  assumes "intset_wf is"
  shows "intsetGet is pos =
    (if pos < card (set (intset_elems is)) then Some (sorted_list_of_set (set (intset_elems is)) ! pos)
     else None) \<and> intsetLen is = card (set (intset_elems is))"
proof -
  have s: "sorted_wrt (<) (intset_elems is)" using assms by (simp add: intset_wf_def)
  then have "sorted_list_of_set (set (intset_elems is)) = intset_elems is"
    by (intro sorted_list_of_set.idem_if_sorted_distinct) (auto simp: strict_sorted_iff)
  moreover have "card (set (intset_elems is)) = ilength is"
    using s by (simp add: distinct_card strict_sorted_iff)
  ultimately show ?thesis using getAt_elems [OF assms] by (simp add: intsetGet_def intsetLen_def)
qed

theorem intsetGet_sorted_witness: "intsetGet intsetNew 0 = None \<and> intsetLen intsetNew = 0"
  using intsetGet_sorted [OF intset_wf_new(1), of 0] by (simp add: intset_wf_new)

end
