(* ===== verification/Crc64.thy ===== *)
theory Crc64
  imports Prelude
begin

text \<open>
  \<open>crc64.c\<close>: the table-driven CRC-64 that protects RDB files and \<open>DUMP\<close> payloads.  The
  table is the source's, literally; the lemmas show that it is the table of the
  reflected polynomial \<open>0xad93d23594c935a9\<close>, that the function is the bit-serial
  division by it, and that every error confined to eight consecutive bytes is detected.
\<close>

unbundle bit_operations_syntax

section \<open>The function\<close>

definition crc64_tab :: "64 word list" where
  "crc64_tab =
    [0x0, 0x7ad870c830358979, 0xf5b0e190606b12f2, 0x8f689158505e9b8b,
     0xc038e5739841b68f, 0xbae095bba8743ff6, 0x358804e3f82aa47d, 0x4f50742bc81f2d04,
     0xab28ecb46814fe75, 0xd1f09c7c5821770c, 0x5e980d24087fec87, 0x24407dec384a65fe,
     0x6b1009c7f05548fa, 0x11c8790fc060c183, 0x9ea0e857903e5a08, 0xe478989fa00bd371,
     0x7d08ff3b88be6f81, 0x7d08ff3b88be6f8, 0x88b81eabe8d57d73, 0xf2606e63d8e0f40a,
     0xbd301a4810ffd90e, 0xc7e86a8020ca5077, 0x4880fbd87094cbfc, 0x32588b1040a14285,
     0xd620138fe0aa91f4, 0xacf86347d09f188d, 0x2390f21f80c18306, 0x594882d7b0f40a7f,
     0x1618f6fc78eb277b, 0x6cc0863448deae02, 0xe3a8176c18803589, 0x997067a428b5bcf0,
     0xfa11fe77117cdf02, 0x80c98ebf2149567b, 0xfa11fe77117cdf0, 0x75796f2f41224489,
     0x3a291b04893d698d, 0x40f16bccb908e0f4, 0xcf99fa94e9567b7f, 0xb5418a5cd963f206,
     0x513912c379682177, 0x2be1620b495da80e, 0xa489f35319033385, 0xde51839b2936bafc,
     0x9101f7b0e12997f8, 0xebd98778d11c1e81, 0x64b116208142850a, 0x1e6966e8b1770c73,
     0x8719014c99c2b083, 0xfdc17184a9f739fa, 0x72a9e0dcf9a9a271, 0x8719014c99c2b08,
     0x4721e43f0183060c, 0x3df994f731b68f75, 0xb29105af61e814fe, 0xc849756751dd9d87,
     0x2c31edf8f1d64ef6, 0x56e99d30c1e3c78f, 0xd9810c6891bd5c04, 0xa3597ca0a188d57d,
     0xec09088b6997f879, 0x96d1784359a27100, 0x19b9e91b09fcea8b, 0x636199d339c963f2,
     0xdf7adabd7a6e2d6f, 0xa5a2aa754a5ba416, 0x2aca3b2d1a053f9d, 0x50124be52a30b6e4,
     0x1f423fcee22f9be0, 0x659a4f06d21a1299, 0xeaf2de5e82448912, 0x902aae96b271006b,
     0x74523609127ad31a, 0xe8a46c1224f5a63, 0x81e2d7997211c1e8, 0xfb3aa75142244891,
     0xb46ad37a8a3b6595, 0xceb2a3b2ba0eecec, 0x41da32eaea507767, 0x3b024222da65fe1e,
     0xa2722586f2d042ee, 0xd8aa554ec2e5cb97, 0x57c2c41692bb501c, 0x2d1ab4dea28ed965,
     0x624ac0f56a91f461, 0x1892b03d5aa47d18, 0x97fa21650afae693, 0xed2251ad3acf6fea,
     0x95ac9329ac4bc9b, 0x7382b9faaaf135e2, 0xfcea28a2faafae69, 0x8632586aca9a2710,
     0xc9622c4102850a14, 0xb3ba5c8932b0836d, 0x3cd2cdd162ee18e6, 0x460abd1952db919f,
     0x256b24ca6b12f26d, 0x5fb354025b277b14, 0xd0dbc55a0b79e09f, 0xaa03b5923b4c69e6,
     0xe553c1b9f35344e2, 0x9f8bb171c366cd9b, 0x10e3202993385610, 0x6a3b50e1a30ddf69,
     0x8e43c87e03060c18, 0xf49bb8b633338561, 0x7bf329ee636d1eea, 0x12b592653589793,
     0x4e7b2d0d9b47ba97, 0x34a35dc5ab7233ee, 0xbbcbcc9dfb2ca865, 0xc113bc55cb19211c,
     0x5863dbf1e3ac9dec, 0x22bbab39d3991495, 0xadd33a6183c78f1e, 0xd70b4aa9b3f20667,
     0x985b3e827bed2b63, 0xe2834e4a4bd8a21a, 0x6debdf121b863991, 0x1733afda2bb3b0e8,
     0xf34b37458bb86399, 0x8993478dbb8deae0, 0x6fbd6d5ebd3716b, 0x7c23a61ddbe6f812,
     0x3373d23613f9d516, 0x49aba2fe23cc5c6f, 0xc6c333a67392c7e4, 0xbc1b436e43a74e9d,
     0x95ac9329ac4bc9b5, 0xef74e3e19c7e40cc, 0x601c72b9cc20db47, 0x1ac40271fc15523e,
     0x5594765a340a7f3a, 0x2f4c0692043ff643, 0xa02497ca54616dc8, 0xdafce7026454e4b1,
     0x3e847f9dc45f37c0, 0x445c0f55f46abeb9, 0xcb349e0da4342532, 0xb1eceec59401ac4b,
     0xfebc9aee5c1e814f, 0x8464ea266c2b0836, 0xb0c7b7e3c7593bd, 0x71d40bb60c401ac4,
     0xe8a46c1224f5a634, 0x927c1cda14c02f4d, 0x1d148d82449eb4c6, 0x67ccfd4a74ab3dbf,
     0x289c8961bcb410bb, 0x5244f9a98c8199c2, 0xdd2c68f1dcdf0249, 0xa7f41839ecea8b30,
     0x438c80a64ce15841, 0x3954f06e7cd4d138, 0xb63c61362c8a4ab3, 0xcce411fe1cbfc3ca,
     0x83b465d5d4a0eece, 0xf96c151de49567b7, 0x76048445b4cbfc3c, 0xcdcf48d84fe7545,
     0x6fbd6d5ebd3716b7, 0x15651d968d029fce, 0x9a0d8ccedd5c0445, 0xe0d5fc06ed698d3c,
     0xaf85882d2576a038, 0xd55df8e515432941, 0x5a3569bd451db2ca, 0x20ed197575283bb3,
     0xc49581ead523e8c2, 0xbe4df122e51661bb, 0x3125607ab548fa30, 0x4bfd10b2857d7349,
     0x4ad64994d625e4d, 0x7e7514517d57d734, 0xf11d85092d094cbf, 0x8bc5f5c11d3cc5c6,
     0x12b5926535897936, 0x686de2ad05bcf04f, 0xe70573f555e26bc4, 0x9ddd033d65d7e2bd,
     0xd28d7716adc8cfb9, 0xa85507de9dfd46c0, 0x273d9686cda3dd4b, 0x5de5e64efd965432,
     0xb99d7ed15d9d8743, 0xc3450e196da80e3a, 0x4c2d9f413df695b1, 0x36f5ef890dc31cc8,
     0x79a59ba2c5dc31cc, 0x37deb6af5e9b8b5, 0x8c157a32a5b7233e, 0xf6cd0afa9582aa47,
     0x4ad64994d625e4da, 0x300e395ce6106da3, 0xbf66a804b64ef628, 0xc5bed8cc867b7f51,
     0x8aeeace74e645255, 0xf036dc2f7e51db2c, 0x7f5e4d772e0f40a7, 0x5863dbf1e3ac9de,
     0xe1fea520be311aaf, 0x9b26d5e88e0493d6, 0x144e44b0de5a085d, 0x6e963478ee6f8124,
     0x21c640532670ac20, 0x5b1e309b16452559, 0xd476a1c3461bbed2, 0xaeaed10b762e37ab,
     0x37deb6af5e9b8b5b, 0x4d06c6676eae0222, 0xc26e573f3ef099a9, 0xb8b627f70ec510d0,
     0xf7e653dcc6da3dd4, 0x8d3e2314f6efb4ad, 0x256b24ca6b12f26, 0x788ec2849684a65f,
     0x9cf65a1b368f752e, 0xe62e2ad306bafc57, 0x6946bb8b56e467dc, 0x139ecb4366d1eea5,
     0x5ccebf68aecec3a1, 0x2616cfa09efb4ad8, 0xa97e5ef8cea5d153, 0xd3a62e30fe90582a,
     0xb0c7b7e3c7593bd8, 0xca1fc72bf76cb2a1, 0x45775673a732292a, 0x3faf26bb9707a053,
     0x70ff52905f188d57, 0xa2722586f2d042e, 0x854fb3003f739fa5, 0xff97c3c80f4616dc,
     0x1bef5b57af4dc5ad, 0x61372b9f9f784cd4, 0xee5fbac7cf26d75f, 0x9487ca0fff135e26,
     0xdbd7be24370c7322, 0xa10fceec0739fa5b, 0x2e675fb4576761d0, 0x54bf2f7c6752e8a9,
     0xcdcf48d84fe75459, 0xb71738107fd2dd20, 0x387fa9482f8c46ab, 0x42a7d9801fb9cfd2,
     0xdf7adabd7a6e2d6, 0x772fdd63e7936baf, 0xf8474c3bb7cdf024, 0x829f3cf387f8795d,
     0x66e7a46c27f3aa2c, 0x1c3fd4a417c62355, 0x935745fc4798b8de, 0xe98f353477ad31a7,
     0xa6df411fbfb21ca3, 0xdc0731d78f8795da, 0x536fa08fdfd90e51, 0x29b7d047efec8728]"

text \<open>\<open>(uint8_t)crc ^ byte\<close> indexes the table.\<close>

definition crc64_byte :: "64 word \<Rightarrow> u8 \<Rightarrow> 64 word" where
  "crc64_byte crc byte = crc64_tab ! unat (ucast crc XOR byte) XOR drop_bit 8 crc"

definition crc64 :: "64 word \<Rightarrow> bytes \<Rightarrow> 64 word" where
  "crc64 crc s = foldl crc64_byte crc s"

section \<open>The bit-serial reference\<close>

text \<open>One bit of the reflected division: \<open>0x95ac9329ac4bc9b5\<close> is the polynomial with its
  bits reversed.\<close>

definition crc_bit :: "64 word \<Rightarrow> 64 word" where
  "crc_bit c = (if c AND 1 \<noteq> 0 then drop_bit 1 c XOR 0x95ac9329ac4bc9b5 else drop_bit 1 c)"

definition crc_byte :: "64 word \<Rightarrow> 64 word" where
  "crc_byte c = crc_bit (crc_bit (crc_bit (crc_bit (crc_bit (crc_bit (crc_bit (crc_bit c)))))))"

lemma crc_bit_simps: "crc_bit c = (if bit c 0 then drop_bit 1 c XOR 0x95ac9329ac4bc9b5 else drop_bit 1 c)"
  by (simp add: crc_bit_def bit_0 and_one_eq even_iff_mod_2_eq_zero)

text \<open>The same on integers, where the evaluation of the 256 entries is cheap.\<close>

definition crc_bit_int :: "int \<Rightarrow> int" where
  "crc_bit_int c = (if odd c then (c div 2) XOR 0x95ac9329ac4bc9b5 else c div 2)"

definition crc_byte_int :: "int \<Rightarrow> int" where
  "crc_byte_int c = crc_bit_int (crc_bit_int (crc_bit_int (crc_bit_int
     (crc_bit_int (crc_bit_int (crc_bit_int (crc_bit_int c)))))))"

lemma odd_uint: "odd (uint (c :: 64 word)) \<longleftrightarrow> bit c 0"
  by (simp add: bit_uint_iff flip: bit_0)

lemma uint_crc_bit: "uint (crc_bit c) = crc_bit_int (uint c)"
proof -
  have "uint (drop_bit 1 c) = uint c div 2"
    by (simp add: drop_bit_eq_div uint_div_distrib)
  then show ?thesis
    by (simp add: crc_bit_simps crc_bit_int_def odd_uint unsigned_xor_eq)
qed

lemma uint_crc_byte: "uint (crc_byte c) = crc_byte_int (uint c)"
  by (simp add: crc_byte_def crc_byte_int_def uint_crc_bit)

lemma crc_byte_table_int: "map crc_byte_int [0..255] = map uint crc64_tab"
  unfolding crc64_tab_def list.map uint_numeral by code_simp

lemma length_crc64_tab [simp]: "length crc64_tab = 256"
  by (simp add: crc64_tab_def)

lemma crc64_tab_nth:
  assumes "i < 256"
  shows "crc64_tab ! i = crc_byte (of_nat i)"
proof -
  have "uint (crc64_tab ! i) = map uint crc64_tab ! i" using assms by simp
  also have "\<dots> = crc_byte_int (int i)"
    using assms by (simp flip: crc_byte_table_int)
  also have "\<dots> = uint (crc_byte (of_nat i))"
  proof -
    have "uint (of_nat i :: 64 word) = int i" using assms by (simp add: uint_nat unat_of_nat)
    then show ?thesis by (simp add: uint_crc_byte)
  qed
  finally show ?thesis by (rule word_uint_eqI)
qed

section \<open>Linearity\<close>

lemma crc_bit_xor: "crc_bit (a XOR b) = crc_bit a XOR crc_bit b"
  by (simp add: crc_bit_simps bit_xor_iff ac_simps)

lemma crc_byte_xor: "crc_byte (a XOR b) = crc_byte a XOR crc_byte b"
  by (simp add: crc_byte_def crc_bit_xor)

lemma crc_bit_inj:
  assumes "crc_bit a = 0"
  shows "a = 0"
proof (cases "bit a 0")
  case True
  then have "drop_bit 1 a XOR 0x95ac9329ac4bc9b5 = 0" using assms by (simp add: crc_bit_simps)
  then have "bit (drop_bit 1 a XOR 0x95ac9329ac4bc9b5) 63 = bit (0 :: 64 word) 63" by simp
  moreover have "\<not> bit a 64" by (simp add: bit_word.rep_eq)
  ultimately show ?thesis by (simp add: bit_xor_iff bit_drop_bit_eq)
next
  case False
  then have "drop_bit 1 a = 0" using assms by (simp add: crc_bit_simps)
  then have z: "\<not> bit a (Suc n)" for n
    using bit_drop_bit_eq [of 1 a] by (metis bit_0_eq bot_apply bot_bool_def comp_apply plus_1_eq_Suc)
  show ?thesis
  proof (rule bit_word_eqI)
    show "bit a n = bit 0 n" for n using False z by (cases n) auto
  qed
qed

lemma crc_bit_zero: "crc_bit 0 = 0"
  by (simp add: crc_bit_simps)

lemma crc_bit_zero_iff: "crc_bit a = 0 \<longleftrightarrow> a = 0"
  using crc_bit_inj crc_bit_zero by blast

lemma xor_zero_iff: "a XOR b = 0 \<longleftrightarrow> a = (b :: 'a :: len word)"
  by (auto simp: bit_eq_iff bit_xor_iff)

lemma crc_byte_inj: "crc_byte a = 0 \<Longrightarrow> a = 0"
  by (simp add: crc_byte_def crc_bit_zero_iff)

lemma crc_byte_high:
  assumes "\<forall>i < 8. \<not> bit c i"
  shows "crc_byte c = drop_bit 8 c"
proof -
  have step: "crc_bit (drop_bit k c) = drop_bit m c" if "m = Suc k" "k < 8" for k m
    using assms that by (simp add: crc_bit_simps bit_drop_bit_eq)
  have "drop_bit 0 c = c" by simp
  moreover have "crc_bit (drop_bit 0 c) = drop_bit 1 c" by (rule step) simp_all
  moreover have "crc_bit (drop_bit 1 c) = drop_bit 2 c" by (rule step) simp_all
  moreover have "crc_bit (drop_bit 2 c) = drop_bit 3 c" by (rule step) simp_all
  moreover have "crc_bit (drop_bit 3 c) = drop_bit 4 c" by (rule step) simp_all
  moreover have "crc_bit (drop_bit 4 c) = drop_bit 5 c" by (rule step) simp_all
  moreover have "crc_bit (drop_bit 5 c) = drop_bit 6 c" by (rule step) simp_all
  moreover have "crc_bit (drop_bit 6 c) = drop_bit 7 c" by (rule step) simp_all
  moreover have "crc_bit (drop_bit 7 c) = drop_bit 8 c" by (rule step) simp_all
  ultimately show ?thesis unfolding crc_byte_def by (simp only:)
qed

lemma bit_ucast_byte: "bit (ucast (b :: u8) :: 64 word) n \<longleftrightarrow> n < 8 \<and> bit b n"
  by (auto simp: bit_ucast_iff dest: bit_imp_le_length)

lemma bit_low_byte: "bit (ucast (c :: 64 word) :: u8) n \<longleftrightarrow> n < 8 \<and> bit c n"
  by (auto simp: bit_ucast_iff dest: bit_imp_le_length)

text \<open>The table step is eight steps of the division.\<close>

lemma crc64_byte_eq: "crc64_byte crc b = crc_byte (crc XOR ucast b)"
proof -
  define low where "low = ucast crc XOR b"
  have split: "crc XOR ucast b = ucast low XOR push_bit 8 (drop_bit 8 crc)"
    by (rule bit_word_eqI)
      (auto simp: low_def bit_xor_iff bit_ucast_byte bit_low_byte bit_push_bit_iff bit_drop_bit_eq)
  have high: "crc_byte (push_bit 8 (drop_bit 8 crc)) = drop_bit 8 crc"
  proof (subst crc_byte_high)
    show "\<forall>i<8. \<not> bit (push_bit 8 (drop_bit 8 crc)) i" by (auto simp: bit_push_bit_iff)
    show "drop_bit 8 (push_bit 8 (drop_bit 8 crc)) = drop_bit 8 crc"
      by (rule bit_word_eqI) (auto simp: bit_push_bit_iff bit_drop_bit_eq dest: bit_imp_le_length)
  qed
  have "unat low < 256" by (rule unat_byte_less)
  then have "crc64_tab ! unat low = crc_byte (ucast low)" by (simp add: crc64_tab_nth)
  then show ?thesis
    unfolding crc64_byte_def low_def [symmetric] split crc_byte_xor high by simp
qed

lemma crc64_byte_zero [simp]: "crc64_byte 0 0 = 0"
  by (simp add: crc64_byte_eq crc_byte_def crc_bit_simps)

lemma crc64_byte_xor: "crc64_byte (c XOR c') (b XOR b') = crc64_byte c b XOR crc64_byte c' b'"
proof -
  have "ucast (b XOR b') = (ucast b XOR ucast b' :: 64 word)"
    by (rule bit_word_eqI) (auto simp: bit_xor_iff bit_ucast_byte)
  then have "(c XOR c') XOR ucast (b XOR b') = (c XOR ucast b) XOR (c' XOR ucast b')"
    by (simp add: ac_simps)
  then show ?thesis by (simp only: crc64_byte_eq crc_byte_xor)
qed

lemma crc64_append: "crc64 c (a @ b) = crc64 (crc64 c a) b"
  by (simp add: crc64_def)

lemma crc64_xor:
  assumes "length s = length t"
  shows "crc64 (c XOR d) (map2 (XOR) s t) = crc64 c s XOR crc64 d t"
  using assms
proof (induction s t arbitrary: c d rule: list_induct2)
  case (Cons x xs y ys)
  then show ?case by (simp add: crc64_def crc64_byte_xor)
qed (simp add: crc64_def)

lemma crc64_zeros: "crc64 0 (replicate n 0) = 0"
  by (induction n) (simp_all add: crc64_def)

lemma crc64_zeros_inj: "crc64 c (replicate n 0) = 0 \<Longrightarrow> c = 0"
proof (induction n arbitrary: c)
  case (Suc n)
  then have "crc64_byte c 0 = 0" by (simp add: crc64_def)
  then have "c XOR ucast (0 :: u8) = 0" unfolding crc64_byte_eq by (rule crc_byte_inj)
  then show ?case by simp
qed (simp add: crc64_def)

section \<open>Burst errors\<close>

primrec wle :: "bytes \<Rightarrow> 64 word" where
  "wle [] = 0"
| "wle (d # ds) = ucast d XOR push_bit 8 (wle ds)"

lemma bit_wle: "bit (wle ds) n \<Longrightarrow> n < 8 * length ds"
  by (induction ds arbitrary: n) (auto simp: bit_xor_iff bit_push_bit_iff bit_ucast_byte; fastforce)+

lemma push_wle:
  assumes "length ds < 8"
  shows "drop_bit 8 (push_bit 8 (wle ds)) = wle ds"
proof (rule bit_word_eqI)
  fix n assume "n < LENGTH(64)"
  have "bit (wle ds) n \<Longrightarrow> n < 56" using bit_wle [of ds n] assms by simp
  then show "bit (drop_bit 8 (push_bit 8 (wle ds))) n = bit (wle ds) n"
    by (auto simp: bit_drop_bit_eq bit_push_bit_iff)
qed

lemma crc_byte_push:
  assumes "length ds < 8"
  shows "crc_byte (push_bit 8 (wle ds)) = wle ds"
proof -
  have "\<forall>i<8. \<not> bit (push_bit 8 (wle ds)) i" by (auto simp: bit_push_bit_iff)
  then show ?thesis using crc_byte_high push_wle [OF assms] by metis
qed

text \<open>The only state from which at most eight bytes lead to zero.\<close>

lemma crc64_burst: "length ds \<le> 8 \<Longrightarrow> crc64 c ds = 0 \<Longrightarrow> c = wle ds"
proof (induction ds arbitrary: c)
  case (Cons d ds)
  then have "crc64_byte c d = wle ds" by (simp add: crc64_def)
  then have "crc_byte (c XOR ucast d) XOR crc_byte (push_bit 8 (wle ds)) = 0"
    using crc_byte_push [of ds] Cons.prems(1) by (simp add: crc64_byte_eq)
  then have "(c XOR ucast d) XOR push_bit 8 (wle ds) = 0"
    using crc_byte_inj by (simp only: crc_byte_xor [symmetric])
  then have "c XOR (ucast d XOR push_bit 8 (wle ds)) = 0" by (simp only: ac_simps)
  then show ?case by (simp only: xor_zero_iff wle.simps)
qed (simp add: crc64_def)

lemma wle_zero: "length ds \<le> 8 \<Longrightarrow> wle ds = 0 \<Longrightarrow> ds = replicate (length ds) 0"
proof (induction ds)
  case (Cons d ds)
  have b: "bit (ucast d :: 64 word) n = bit (push_bit 8 (wle ds)) n" for n
    using Cons.prems(2) by (simp add: xor_zero_iff)
  have "d = 0"
  proof (rule bit_word_eqI)
    show "bit d n = bit 0 n" if "n < LENGTH(8)" for n
      using b [of n] that by (simp add: bit_ucast_byte bit_push_bit_iff)
  qed
  then have "push_bit 8 (wle ds) = 0" using Cons.prems(2) by simp
  then have "wle ds = 0" using push_wle [of ds] Cons.prems(1) by simp
  then show ?case using Cons \<open>d = 0\<close> by simp
qed simp

lemma map2_xor_self: "map2 (XOR) s s = replicate (length s) (0 :: u8)"
  by (induction s) auto

lemma map2_xor_eq_zero:
  assumes "length s = length t" "map2 (XOR) s t = replicate (length s) (0 :: u8)"
  shows "s = t"
  using assms by (induction s t rule: list_induct2) (auto simp: xor_zero_iff)

lemma crc64_burst_detected:
  assumes "length x = length y" "length x \<le> 8" "crc64 c (a @ x @ b) = crc64 c (a @ y @ b)"
  shows "x = y"
proof -
  let ?d = "map2 (XOR) x y"
  have "crc64 0 (replicate (length a) 0 @ ?d @ replicate (length b) 0)
      = crc64 (c XOR c) (map2 (XOR) (a @ x @ b) (a @ y @ b))"
    using assms(1) by (simp add: map2_xor_self)
  also have "\<dots> = 0" using assms crc64_xor [of "a @ x @ b" "a @ y @ b" c c] by simp
  finally have "crc64 0 ?d = 0"
    using crc64_zeros_inj by (simp add: crc64_append crc64_zeros)
  then have "wle ?d = 0" using crc64_burst [of ?d 0] assms by simp
  then have "?d = replicate (length ?d) 0" using wle_zero [of ?d] assms by simp
  then show ?thesis using map2_xor_eq_zero assms(1) by simp
qed

section \<open>Properties\<close>

text \<open>C36: \<open>crc64\<close> is the bit-serial CRC of its polynomial: each byte is added to the low
  end of the register, which is then shifted and reduced eight times.  In particular all
  256 entries of the table are right.\<close>

theorem crc64_reference:
  "crc64 c s = foldl (\<lambda>c b. crc_byte (c XOR ucast b)) c s
    \<and> crc64_tab = map (\<lambda>i. crc_byte (of_nat i)) [0..<256]"
proof
  show "crc64 c s = foldl (\<lambda>c b. crc_byte (c XOR ucast b)) c s"
    unfolding crc64_def by (rule foldl_cong [OF refl refl]) (rule crc64_byte_eq)
  show "crc64_tab = map (\<lambda>i. crc_byte (of_nat i)) [0..<256]"
    by (rule nth_equalityI) (simp_all add: crc64_tab_nth)
qed

text \<open>C35: corruption confined to any eight consecutive bytes of a payload, of whatever
  length and at whatever position, always changes its checksum.\<close>

theorem crc64_detects_bursts:
  assumes "length x = length y" "length x \<le> 8" "x \<noteq> y"
  shows "crc64 c (a @ x @ b) \<noteq> crc64 c (a @ y @ b)"
  using crc64_burst_detected [OF assms(1,2)] assms(3) by blast

theorem crc64_detects_bursts_witness:
  "crc64 0 ([82, 69] @ [68, 73, 83] @ [48]) \<noteq> crc64 0 ([82, 69] @ [68, 0, 82] @ [48])"
  by (rule crc64_detects_bursts) simp_all

text \<open>The check value documented in the source, \<open>crc64("123456789")\<close>, and the
  incremental law that lets \<open>rioGenericUpdateChecksum\<close> feed the payload in pieces.\<close>

theorem crc64_check_value:
  "crc64 0 [49, 50, 51, 52, 53, 54, 55, 56, 57] = 0xe9c6d914c4b8d9ca
    \<and> crc64 (crc64 c s) t = crc64 c (s @ t)"
proof
  have "foldl (\<lambda>c b. crc_byte_int (c XOR uint b)) 0 ([49, 50, 51, 52, 53, 54, 55, 56, 57] :: bytes)
      = uint (foldl crc64_byte 0 [49, 50, 51, 52, 53, 54, 55, 56, 57])"
    by (simp add: crc64_byte_eq uint_crc_byte unsigned_xor_eq)
  moreover have "foldl (\<lambda>c b. crc_byte_int (c XOR uint b)) 0 ([49, 50, 51, 52, 53, 54, 55, 56, 57] :: bytes)
      = 0xe9c6d914c4b8d9ca"
    by code_simp
  ultimately have "uint (foldl crc64_byte 0 [49, 50, 51, 52, 53, 54, 55, 56, 57]) = 0xe9c6d914c4b8d9ca"
    by (simp only:)
  then have "uint (foldl crc64_byte 0 [49, 50, 51, 52, 53, 54, 55, 56, 57]) = uint (0xe9c6d914c4b8d9ca :: 64 word)"
    by simp
  then show "crc64 0 [49, 50, 51, 52, 53, 54, 55, 56, 57] = 0xe9c6d914c4b8d9ca"
    unfolding crc64_def by (rule word_uint_eqI)
  show "crc64 (crc64 c s) t = crc64 c (s @ t)" by (simp add: crc64_append)
qed

end
