(* ===== verification/NumConv.thy ===== *)
theory NumConv
  imports Prelude
begin

text \<open>
  \<open>util.c\<close>: the conversions between C integers and decimal strings
  (\<open>digits10\<close>, \<open>ll2string\<close>, \<open>string2ll\<close>, \<open>string2l\<close>, \<open>memtoll\<close>).  They decide whether
  a value is stored as an integer, so everything that is printed has to be read back as
  the same integer and nothing else may be read as one.  The reference notion is
  \<open>dec\<close>, the canonical decimal digits of a number.
\<close>

section \<open>The code\<close>

text \<open>\<open>digits10\<close>: the number of decimal digits of an unsigned 64 bit value.\<close>

function digits10 :: "nat \<Rightarrow> nat" where
  "digits10 v =
    (if v < 10 then 1
     else if v < 100 then 2
     else if v < 1000 then 3
     else if v < 1000000000000 then
       (if v < 100000000 then
          (if v < 1000000 then
             (if v < 10000 then 4 else 5 + (if v \<ge> 100000 then 1 else 0))
           else 7 + (if v \<ge> 10000000 then 1 else 0))
        else if v < 10000000000 then 9 + (if v \<ge> 1000000000 then 1 else 0)
        else 11 + (if v \<ge> 100000000000 then 1 else 0))
     else 12 + digits10 (v div 1000000000000))"
  by pat_completeness auto
termination by (relation "measure id") auto

declare digits10.simps [simp del]

text \<open>The static table of the two-digit strings.\<close>

definition digits_table :: bytes where
  "digits_table = map of_char
     (''0001020304050607080910111213141516171819'' @
      ''2021222324252627282930313233343536373839'' @
      ''4041424344454647484950515253545556575859'' @
      ''6061626364656667686970717273747576777879'' @
      ''8081828384858687888990919293949596979899'')"

text \<open>The main loop of \<open>ll2string\<close>: two digits per round, written from the right.\<close>

function ll2string_loop :: "nat \<Rightarrow> nat \<Rightarrow> bytes \<Rightarrow> nat \<times> nat \<times> bytes" where
  "ll2string_loop value nxt dst =
    (if 100 \<le> value then
       (let i = (value mod 100) * 2 in
        ll2string_loop (value div 100) (nxt - 2)
          (dst[nxt := digits_table ! (i + 1), nxt - 1 := digits_table ! i]))
     else (value, nxt, dst))"
  by pat_completeness auto
termination by (relation "measure (\<lambda>(v, _). v)") auto

declare ll2string_loop.simps [simp del]

text \<open>\<open>ll2string(dst, dstlen, svalue)\<close>: the result and the buffer after the call.\<close>

definition ll2string :: "bytes \<Rightarrow> nat \<Rightarrow> int \<Rightarrow> nat \<times> bytes" where
  "ll2string dst dstlen svalue =
    (let (value, negative) =
       (if svalue < 0
        then (if svalue \<noteq> int64_min then nat (- svalue) else nat int64_max + 1, 1)
        else (nat svalue, 0));
         len = digits10 value + negative
     in if dstlen \<le> len then (0, dst)
        else
          (let dst = dst[len := 0];
               (value, nxt, dst) = ll2string_loop value (len - 1) dst;
               dst = (if value < 10 then dst[nxt := 48 + of_nat value]
                      else (let i = value * 2 in
                            dst[nxt := digits_table ! (i + 1), nxt - 1 := digits_table ! i]));
               dst = (if negative = 1 then dst[0 := 45] else dst)
           in (len, dst)))"

definition is_digit :: "u8 \<Rightarrow> bool" where
  "is_digit c \<longleftrightarrow> 48 \<le> c \<and> c \<le> 57"

text \<open>The digit loop of \<open>string2ll\<close>: \<open>None\<close> is the \<open>return 0\<close> on overflow, otherwise
  the accumulated value and the bytes not consumed.\<close>

primrec string2ll_loop :: "nat \<Rightarrow> bytes \<Rightarrow> (nat \<times> bytes) option" where
  "string2ll_loop v [] = Some (v, [])"
| "string2ll_loop v (c # cs) =
    (if is_digit c then
       (if v > uint64_max div 10 then None
        else (let v = v * 10 in
          if v > uint64_max - (unat c - 48) then None
          else string2ll_loop (v + (unat c - 48)) cs))
     else Some (v, c # cs))"

definition string2ll :: "bytes \<Rightarrow> int option" where
  "string2ll s =
    (case s of [] \<Rightarrow> None
     | p0 # ps \<Rightarrow>
        if length s = 1 \<and> p0 = 48 then Some 0
        else
          (let negative = (p0 = 45) in
           if negative \<and> ps = [] then None
           else
             (let p = (if negative then ps else s) in
              if 49 \<le> hd p \<and> hd p \<le> 57 then
                (case string2ll_loop (unat (hd p) - 48) (tl p) of
                   None \<Rightarrow> None
                 | Some (v, rest) \<Rightarrow>
                     if rest \<noteq> [] then None
                     else if negative then
                       (if v > nat (- (int64_min + 1)) + 1 then None else Some (- int v))
                     else (if v > nat int64_max then None else Some (int v)))
              else if hd p = 48 \<and> length s = 1 then Some 0
              else None)))"

text \<open>\<open>string2l\<close>, with the 64 bit \<open>long\<close> of the LP64 targets.\<close>

definition string2l :: "bytes \<Rightarrow> int option" where
  "string2l s =
    (case string2ll s of None \<Rightarrow> None
     | Some v \<Rightarrow> if v < int64_min \<or> v > int64_max then None else Some v)"

text \<open>\<open>memtoll\<close>: the argument is the content of a C string (no NUL inside).  The result
  is the value and the error flag; \<open>None\<close> stands for the signed overflow of
  \<open>val*mul\<close>, which C leaves undefined.\<close>

definition tolower :: "u8 \<Rightarrow> u8" where
  "tolower c = (if 65 \<le> c \<and> c \<le> 90 then c + 32 else c)"

definition strcaseeq :: "bytes \<Rightarrow> bytes \<Rightarrow> bool" where
  "strcaseeq a b \<longleftrightarrow> map tolower a = map tolower b"

text \<open>C library \<open>strtoll\<close> in base 10 on an optional minus sign followed by digits.\<close>

primrec digits_value :: "nat \<Rightarrow> bytes \<Rightarrow> nat" where
  "digits_value v [] = v"
| "digits_value v (c # cs) = digits_value (v * 10 + (unat c - 48)) cs"

definition strtoll10 :: "bytes \<Rightarrow> int" where
  "strtoll10 s =
    (let v = (case s of c # cs \<Rightarrow> if c = 45 then - int (digits_value 0 cs) else int (digits_value 0 s)
              | [] \<Rightarrow> 0)
     in max int64_min (min int64_max v))"

definition memtoll_unit :: "bytes \<Rightarrow> int option" where
  "memtoll_unit u =
    (if u = [] \<or> strcaseeq u [98] then Some 1
     else if strcaseeq u [107] then Some 1000
     else if strcaseeq u [107, 98] then Some 1024
     else if strcaseeq u [109] then Some (1000 * 1000)
     else if strcaseeq u [109, 98] then Some (1024 * 1024)
     else if strcaseeq u [103] then Some (1000 * 1000 * 1000)
     else if strcaseeq u [103, 98] then Some (1024 * 1024 * 1024)
     else None)"

definition memtoll :: "bytes \<Rightarrow> (int \<times> bool) option" where
  "memtoll p =
    (let sign = (case p of c # _ \<Rightarrow> if c = 45 then [c] else [] | [] \<Rightarrow> []);
         rest = drop (length sign) p;
         num = sign @ takeWhile is_digit rest;
         u = dropWhile is_digit rest;
         (mul, err) = (case memtoll_unit u of Some m \<Rightarrow> (m, False) | None \<Rightarrow> (1, True))
     in if 128 \<le> length num then Some (int64_max, True)
        else (let r = strtoll10 num * mul in
              if is_int64 r then Some (r, err) else None))"

section \<open>Canonical decimal strings\<close>

function dec :: "nat \<Rightarrow> bytes" where
  "dec n = (if n < 10 then [48 + of_nat n] else dec (n div 10) @ [48 + of_nat (n mod 10)])"
  by pat_completeness auto
termination by (relation "measure id") auto

declare dec.simps [simp del]

definition ll_repr :: "int \<Rightarrow> bytes" where
  "ll_repr v = (if v < 0 then 45 # dec (nat (- v)) else dec (nat v))"

lemma dec_snoc: "0 < v \<Longrightarrow> d < 10 \<Longrightarrow> dec (v * 10 + d) = dec v @ [48 + of_nat d]"
  by (subst dec.simps) simp

lemma length_dec_pos: "0 < length (dec n)"
  by (subst dec.simps) simp

lemma length_dec_step: "10 \<le> n \<Longrightarrow> length (dec n) = Suc (length (dec (n div 10)))"
  by (subst dec.simps) simp

lemma length_dec_bounds: "n < 10 ^ length (dec n) \<and> (0 < n \<longrightarrow> 10 ^ (length (dec n) - 1) \<le> n)"
proof (induction n rule: dec.induct)
  case (1 n)
  show ?case
  proof (cases "n < 10")
    case True
    then show ?thesis by (subst (1 2) dec.simps) simp
  next
    case False
    let ?l = "length (dec (n div 10))"
    from 1 False have IH: "n div 10 < 10 ^ ?l" "10 ^ (?l - 1) \<le> n div 10" by auto
    have "0 < ?l" by (rule length_dec_pos)
    then have "10 * 10 ^ (?l - 1) = (10::nat) ^ ?l" by (cases ?l) auto
    with IH have "n < 10 * 10 ^ ?l" "10 ^ ?l \<le> n" by linarith+
    with False show ?thesis by (simp add: length_dec_step)
  qed
qed

lemma length_dec_eqI:
  assumes "0 < n" "10 ^ k \<le> n" "n < 10 ^ Suc k"
  shows "length (dec n) = Suc k"
proof -
  let ?l = "length (dec n)"
  have lb: "n < 10 ^ ?l" "10 ^ (?l - 1) \<le> n" using length_dec_bounds [of n] assms(1) by auto
  have "(10::nat) ^ k < 10 ^ ?l" using assms(2) lb(1) by linarith
  then have "k < ?l" by simp
  moreover have "(10::nat) ^ (?l - 1) < 10 ^ Suc k" using assms(3) lb(2) by linarith
  then have "?l - 1 < Suc k" by (simp only: power_strict_increasing_iff)
  ultimately show ?thesis by simp
qed

lemmas length_dec_small =
  length_dec_eqI [of _ 0, simplified] length_dec_eqI [of _ 1, simplified]
  length_dec_eqI [of _ 2, simplified] length_dec_eqI [of _ 3, simplified]
  length_dec_eqI [of _ 4, simplified] length_dec_eqI [of _ 5, simplified]
  length_dec_eqI [of _ 6, simplified] length_dec_eqI [of _ 7, simplified]
  length_dec_eqI [of _ 8, simplified] length_dec_eqI [of _ 9, simplified]
  length_dec_eqI [of _ 10, simplified] length_dec_eqI [of _ 11, simplified]

lemma length_dec_div: "1000000000000 \<le> v \<Longrightarrow> length (dec v) = 12 + length (dec (v div 1000000000000))"
  by (simp add: length_dec_step div_mult2_eq [symmetric])

lemma digits10_length: "digits10 v = length (dec v)"
proof (induction v rule: digits10.induct)
  case (1 v)
  show ?case
  proof (cases "v < 1000000000000")
    case False
    then have "digits10 v = 12 + digits10 (v div 1000000000000)"
      by (subst digits10.simps) auto
    with 1 False show ?thesis by (simp add: length_dec_div)
  next
    case True
    show ?thesis
    proof (cases "v = 0")
      case True
      then show ?thesis by (simp add: digits10.simps dec.simps)
    next
      case False
      then show ?thesis using True
        by (subst digits10.simps) (auto simp: length_dec_small not_less)
    qed
  qed
qed

section \<open>Printing\<close>

primrec pairs_from :: "nat \<Rightarrow> nat \<Rightarrow> bytes" where
  "pairs_from i 0 = []"
| "pairs_from i (Suc n) = (48 + of_nat (i div 10)) # (48 + of_nat (i mod 10)) # pairs_from (Suc i) n"

lemma nth_pairs_from:
  "k < n \<Longrightarrow> pairs_from i n ! (k * 2) = 48 + of_nat ((i + k) div 10)
    \<and> pairs_from i n ! Suc (k * 2) = 48 + of_nat ((i + k) mod 10)"
  by (induction n arbitrary: i k) (auto simp: nth_Cons less_Suc_eq_0_disj split: nat.splits)

lemma digits_table_numerals: "digits_table =
    [48, 48, 48, 49, 48, 50, 48, 51, 48, 52, 48, 53, 48, 54, 48, 55, 48, 56, 48, 57,
     49, 48, 49, 49, 49, 50, 49, 51, 49, 52, 49, 53, 49, 54, 49, 55, 49, 56, 49, 57,
     50, 48, 50, 49, 50, 50, 50, 51, 50, 52, 50, 53, 50, 54, 50, 55, 50, 56, 50, 57,
     51, 48, 51, 49, 51, 50, 51, 51, 51, 52, 51, 53, 51, 54, 51, 55, 51, 56, 51, 57,
     52, 48, 52, 49, 52, 50, 52, 51, 52, 52, 52, 53, 52, 54, 52, 55, 52, 56, 52, 57,
     53, 48, 53, 49, 53, 50, 53, 51, 53, 52, 53, 53, 53, 54, 53, 55, 53, 56, 53, 57,
     54, 48, 54, 49, 54, 50, 54, 51, 54, 52, 54, 53, 54, 54, 54, 55, 54, 56, 54, 57,
     55, 48, 55, 49, 55, 50, 55, 51, 55, 52, 55, 53, 55, 54, 55, 55, 55, 56, 55, 57,
     56, 48, 56, 49, 56, 50, 56, 51, 56, 52, 56, 53, 56, 54, 56, 55, 56, 56, 56, 57,
     57, 48, 57, 49, 57, 50, 57, 51, 57, 52, 57, 53, 57, 54, 57, 55, 57, 56, 57, 57]"
  by (simp add: digits_table_def)

lemma pairs_from_numerals: "pairs_from 0 100 =
    [48, 48, 48, 49, 48, 50, 48, 51, 48, 52, 48, 53, 48, 54, 48, 55, 48, 56, 48, 57,
     49, 48, 49, 49, 49, 50, 49, 51, 49, 52, 49, 53, 49, 54, 49, 55, 49, 56, 49, 57,
     50, 48, 50, 49, 50, 50, 50, 51, 50, 52, 50, 53, 50, 54, 50, 55, 50, 56, 50, 57,
     51, 48, 51, 49, 51, 50, 51, 51, 51, 52, 51, 53, 51, 54, 51, 55, 51, 56, 51, 57,
     52, 48, 52, 49, 52, 50, 52, 51, 52, 52, 52, 53, 52, 54, 52, 55, 52, 56, 52, 57,
     53, 48, 53, 49, 53, 50, 53, 51, 53, 52, 53, 53, 53, 54, 53, 55, 53, 56, 53, 57,
     54, 48, 54, 49, 54, 50, 54, 51, 54, 52, 54, 53, 54, 54, 54, 55, 54, 56, 54, 57,
     55, 48, 55, 49, 55, 50, 55, 51, 55, 52, 55, 53, 55, 54, 55, 55, 55, 56, 55, 57,
     56, 48, 56, 49, 56, 50, 56, 51, 56, 52, 56, 53, 56, 54, 56, 55, 56, 56, 56, 57,
     57, 48, 57, 49, 57, 50, 57, 51, 57, 52, 57, 53, 57, 54, 57, 55, 57, 56, 57, 57]"
  by code_simp

lemma digits_table_nth:
  assumes "i < 100"
  shows "digits_table ! (i * 2) = 48 + of_nat (i div 10)"
    and "digits_table ! Suc (i * 2) = 48 + of_nat (i mod 10)"
  using nth_pairs_from [OF assms, of 0]
  by (simp_all only: digits_table_numerals pairs_from_numerals add_0)

lemma div_mod_100: "(n::nat) div 10 mod 10 = n mod 100 div 10"
  using mod_mult2_eq [of n 10 10] by simp

lemma dec_two: "100 \<le> n \<Longrightarrow> dec n = dec (n div 100) @ [48 + of_nat (n mod 100 div 10), 48 + of_nat (n mod 10)]"
proof -
  assume n: "100 \<le> n"
  then have "\<not> n < 10" "\<not> n div 10 < 10" by linarith+
  then show ?thesis using dec.simps [of n] dec.simps [of "n div 10"]
    by (simp add: div_mult2_eq [symmetric] div_mod_100)
qed

text \<open>What the loop and the last one or two digits write: the decimal digits, ending at
  index \<open>nxt\<close>.\<close>

definition ll2string_tail :: "nat \<times> nat \<times> bytes \<Rightarrow> bytes" where
  "ll2string_tail = (\<lambda>(value, nxt, dst).
     if value < 10 then dst[nxt := 48 + of_nat value]
     else (let i = value * 2 in
       dst[nxt := digits_table ! (i + 1), nxt - 1 := digits_table ! i]))"


lemma buf_put_snoc2:
  assumes "p + length xs + 2 \<le> length b" "q = p + length xs"
  shows "buf_put (b[Suc q := y, q := x]) p xs = buf_put b p (xs @ [x, y])"
proof (rule nth_equalityI)
  show "length (buf_put (b[Suc q := y, q := x]) p xs) = length (buf_put b p (xs @ [x, y]))"
    using assms by (simp add: buf_simps)
  fix i assume "i < length (buf_put (b[Suc q := y, q := x]) p xs)"
  then have "i < length b" using assms by (simp add: buf_simps)
  then consider "i < p" | "p \<le> i" "i < q" | "i = q" | "i = Suc q" | "Suc q < i" "i < length b"
    using assms by linarith
  then show "buf_put (b[Suc q := y, q := x]) p xs ! i = buf_put b p (xs @ [x, y]) ! i"
    using assms by cases (simp_all add: buf_simps nth_append nth_list_update less_diff_conv2)
qed

lemma ll2string_loop_tail:
  assumes "length (dec v) \<le> Suc nxt" "nxt < length dst"
  shows "ll2string_tail (ll2string_loop v nxt dst) = buf_put dst (Suc nxt - length (dec v)) (dec v)"
  using assms
proof (induction v nxt dst rule: ll2string_loop.induct)
  case (1 v nxt dst)
  show ?case
  proof (cases "100 \<le> v")
    case True
    let ?l = "length (dec (v div 100))"
    let ?a = "48 + of_nat (v mod 100 div 10) :: u8" and ?b = "48 + of_nat (v mod 10) :: u8"
    have d: "dec v = dec (v div 100) @ [?a, ?b]" using True by (rule dec_two)
    have l: "0 < ?l" by (rule length_dec_pos)
    have tab: "digits_table ! (v mod 100 * 2) = ?a" "digits_table ! Suc (v mod 100 * 2) = ?b"
      using digits_table_nth [of "v mod 100"] by (simp_all add: mod_mod_cancel)
    have "ll2string_tail (ll2string_loop v nxt dst) =
        ll2string_tail (ll2string_loop (v div 100) (nxt - 2) (dst[nxt := ?b, nxt - 1 := ?a]))"
      using True tab by (subst ll2string_loop.simps) (simp add: Let_def)
    also have "\<dots> = buf_put (dst[nxt := ?b, nxt - 1 := ?a]) (Suc (nxt - 2) - ?l) (dec (v div 100))"
      using "1.IH" [OF True] "1.prems" l d tab by (simp add: Let_def)
    also have "\<dots> = buf_put dst (Suc nxt - length (dec v)) (dec v)"
    proof -
      have len: "length (dec v) = ?l + 2" using d by simp
      then have "nxt - 1 = (nxt - 1 - ?l) + ?l" "nxt - 1 - ?l + ?l + 2 \<le> length dst"
        and eqs: "Suc (nxt - 1) = nxt" "Suc (nxt - 2) - ?l = nxt - 1 - ?l"
          "Suc nxt - length (dec v) = nxt - 1 - ?l"
        using "1.prems" l by linarith+
      then have "buf_put (dst[Suc (nxt - 1) := ?b, nxt - 1 := ?a]) (nxt - 1 - ?l) (dec (v div 100))
          = buf_put dst (nxt - 1 - ?l) (dec (v div 100) @ [?a, ?b])"
        by (intro buf_put_snoc2)
      then show ?thesis by (simp only: eqs d [symmetric])
    qed
    finally show ?thesis .
  next
    case False
    show ?thesis
    proof (cases "v < 10")
      case True
      then have "dec v = [48 + of_nat v]" by (simp add: dec.simps)
      with True "1.prems" show ?thesis
        by (subst ll2string_loop.simps) (simp add: ll2string_tail_def buf_put_def upd_conv_take_nth_drop)
    next
      case b: False
      then have d: "dec v = [48 + of_nat (v div 10), 48 + of_nat (v mod 10)]"
        using False by (subst dec.simps) (simp add: dec.simps)
      with False b "1.prems" digits_table_nth [of v]
        buf_put_snoc2 [of "nxt - 1" "[]" dst "nxt - 1" "48 + of_nat (v mod 10)" "48 + of_nat (v div 10)"]
      show ?thesis
        by (subst ll2string_loop.simps) (simp add: ll2string_tail_def Let_def)
    qed
  qed
qed

lemma ll2string_value:
  assumes "is_int64 v"
  shows "(if v < 0 then (if v \<noteq> int64_min then nat (- v) else nat int64_max + 1, 1)
          else (nat v, 0)) = (nat \<bar>v\<bar>, if v < 0 then 1 else (0::nat))"
  using assms by (auto simp: int_range)

lemma ll_repr_abs: "ll_repr v = (if v < 0 then [45] else []) @ dec (nat \<bar>v\<bar>)"
  by (simp add: ll_repr_def)


text \<open>\<open>ll2string\<close> on every branch: when the string and its terminator fit, the
  canonical representation followed by NUL; otherwise 0 and an untouched buffer.\<close>

lemma ll2string_eq:
  assumes "is_int64 v" "dstlen \<le> length dst"
  shows "ll2string dst dstlen v =
    (if length (ll_repr v) < dstlen
     then (length (ll_repr v), buf_put dst 0 (ll_repr v @ [0])) else (0, dst))"
proof -
  define m where "m = nat \<bar>v\<bar>"
  define neg :: nat where "neg = (if v < 0 then 1 else 0)"
  define L where "L = length (dec m)"
  have L: "0 < L" unfolding L_def by (rule length_dec_pos)
  have repr: "ll_repr v = (if v < 0 then [45] else []) @ dec m"
    by (simp add: ll_repr_abs m_def)
  have len: "length (ll_repr v) = L + neg" by (simp add: repr L_def neg_def)
  show ?thesis
  proof (cases "L + neg < dstlen")
    case False
    then show ?thesis using len
      by (simp add: ll2string_def ll2string_value [OF assms(1)] digits10_length
          flip: m_def L_def neg_def)
  next
    case True
    let ?d = "dst[L + neg := 0]"
    have run: "ll2string_tail (ll2string_loop m (L + neg - 1) ?d) = buf_put ?d neg (dec m)"
      using ll2string_loop_tail [of m "L + neg - 1" ?d] True assms(2) L by (simp add: L_def)
    have "ll2string dst dstlen v =
      (L + neg, let d = ll2string_tail (ll2string_loop m (L + neg - 1) ?d) in
        if neg = 1 then d[0 := 45] else d)"
      using True
      by (simp add: ll2string_def ll2string_value [OF assms(1)] digits10_length ll2string_tail_def
          Let_def split_beta flip: m_def L_def neg_def)
    also have "(let d = ll2string_tail (ll2string_loop m (L + neg - 1) ?d) in
        if neg = 1 then d[0 := 45] else d) = buf_put dst 0 (ll_repr v @ [0])"
      unfolding run
      using True assms(2) L
      by (intro nth_equalityI)
        (auto simp: repr neg_def buf_simps nth_append nth_list_update nth_Cons' L_def Let_def)
    finally show ?thesis using True len by simp
  qed
qed

section \<open>Parsing\<close>

lemma is_digit_unat: "is_digit c \<longleftrightarrow> 48 \<le> unat c \<and> unat c \<le> 57"
  by (simp add: is_digit_def word_le_nat_alt)

lemma digits_value_append: "digits_value v (a @ b) = digits_value (digits_value v a) b"
  by (induction a arbitrary: v) auto

lemma digits_value_ge: "v \<le> digits_value v cs"
proof (induction cs arbitrary: v)
  case (Cons c cs)
  have "v \<le> v * 10 + (unat c - 48)" by simp
  also have "\<dots> \<le> digits_value v (c # cs)" using Cons by simp
  finally show ?case .
qed simp

lemma string2ll_loop_Some:
  "string2ll_loop v cs = Some (w, []) \<longleftrightarrow>
     list_all is_digit cs \<and> w = digits_value v cs \<and> (cs = [] \<or> w \<le> uint64_max)"
proof (induction cs arbitrary: v)
  case Nil
  show ?case by auto
next
  case (Cons c cs)
  show ?case
  proof (cases "is_digit c")
    case False
    then show ?thesis by simp
  next
    case d: True
    let ?v = "v * 10 + (unat c - 48)"
    have dig: "unat c - 48 \<le> 9" using d unfolding is_digit_unat by linarith
    have ok: "v \<le> uint64_max div 10 \<and> v * 10 \<le> uint64_max - (unat c - 48) \<longleftrightarrow> ?v \<le> uint64_max"
      using dig by (auto simp: uint64_max_def)
    have "?v \<le> digits_value ?v cs" by (rule digits_value_ge)
    then show ?thesis using d ok Cons [of ?v] by (auto simp: Let_def)
  qed
qed

lemma dec_digits: "list_all is_digit (dec n)"
proof (induction n rule: dec.induct)
  case (1 n)
  have "is_digit (48 + of_nat k)" if "k < 10" for k
    using that by (simp add: is_digit_unat unat_word_ariths unat_of_nat)
  with 1 show ?case by (subst dec.simps) auto
qed

lemma unat_dec_digit: "k < 10 \<Longrightarrow> unat (48 + of_nat k :: u8) - 48 = k"
  by (simp add: unat_word_ariths unat_of_nat)

lemma digits_value_dec: "digits_value 0 (dec n) = n"
proof (induction n rule: dec.induct)
  case (1 n)
  then show ?case by (subst dec.simps) (auto simp: digits_value_append unat_dec_digit)
qed

lemma digit_eq: "is_digit c \<Longrightarrow> 48 + of_nat (unat c - 48) = c"
  by (rule word_unat_eq_iff [THEN iffD2])
    (simp add: is_digit_unat unat_word_ariths unat_of_nat)

lemma dec_digits_value: "0 < v \<Longrightarrow> list_all is_digit cs \<Longrightarrow> dec (digits_value v cs) = dec v @ cs"
proof (induction cs arbitrary: v)
  case (Cons c cs)
  from Cons.prems have c: "is_digit c" by simp
  then have "dec (v * 10 + (unat c - 48)) = dec v @ [c]"
    using Cons.prems(1) by (subst dec_snoc) (auto simp: is_digit_unat digit_eq)
  then show ?case using Cons by simp
qed simp

lemma dec_hd_zero: "hd (dec n) = 48 \<longleftrightarrow> n = 0"
proof (induction n rule: dec.induct)
  case (1 n)
  have "48 + of_nat n = (48 :: u8) \<longleftrightarrow> n = 0" if "n < 10"
    using that unat_dec_digit [of n] by fastforce
  moreover have "dec (n div 10) \<noteq> []" using length_dec_pos [of "n div 10"] by auto
  ultimately show ?case using 1 by (subst dec.simps) auto
qed


text \<open>The part of \<open>string2ll\<close> after the sign: a nonzero leading digit and the loop.\<close>

lemma string2ll_digits:
  assumes "p = d # ds" "49 \<le> d" "d \<le> 57"
  shows "string2ll_loop (unat d - 48) ds = Some (w, []) \<and> w \<le> uint64_max \<longleftrightarrow>
    0 < w \<and> w \<le> uint64_max \<and> p = dec w"
proof
  assume l: "string2ll_loop (unat d - 48) ds = Some (w, []) \<and> w \<le> uint64_max"
  then have ds: "list_all is_digit ds" and w: "w = digits_value (unat d - 48) ds"
    by (auto simp: string2ll_loop_Some)
  have d: "is_digit d" "48 < unat d" using assms(2,3)
    by (auto simp: is_digit_unat word_le_nat_alt)
  then have "dec (unat d - 48) = [d]"
    by (subst dec.simps) (auto simp: is_digit_unat digit_eq)
  with d ds w have "dec w = d # ds" by (simp add: dec_digits_value)
  moreover have "0 < w" using w d digits_value_ge [of "unat d - 48" ds] by linarith
  ultimately show "0 < w \<and> w \<le> uint64_max \<and> p = dec w" using l assms(1) by simp
next
  assume r: "0 < w \<and> w \<le> uint64_max \<and> p = dec w"
  then have "digits_value 0 (d # ds) = w" using assms(1) digits_value_dec [of w] by simp
  moreover have "list_all is_digit (d # ds)" using r assms(1) dec_digits [of w] by metis
  ultimately show "string2ll_loop (unat d - 48) ds = Some (w, []) \<and> w \<le> uint64_max"
    using r by (auto simp: string2ll_loop_Some)
qed

lemma dec_zero [simp]: "dec 0 = [48]"
  by (simp add: dec.simps)

lemma dec_first_digit:
  assumes "0 < n" "dec n = d # ds"
  shows "49 \<le> d \<and> d \<le> 57"
proof -
  have "is_digit d" using dec_digits [of n] assms(2) by simp
  moreover have "d \<noteq> 48" using dec_hd_zero [of n] assms by auto
  then have "unat d \<noteq> unat (48 :: u8)" by (simp only: word_unat_eq_iff [symmetric]) simp
  ultimately show ?thesis by (simp add: is_digit_unat word_le_nat_alt)
qed

lemma dec_not_minus: "hd (dec n) \<noteq> 45"
proof -
  obtain d ds where "dec n = d # ds" using length_dec_pos [of n] by (cases "dec n") auto
  moreover from this have "is_digit d" using dec_digits [of n] by simp
  ultimately show ?thesis by (auto simp: is_digit_def)
qed

lemma string2ll_loop_bound:
  fixes d :: u8
  assumes "string2ll_loop (unat d - 48) ds = Some (w, [])"
  shows "w \<le> uint64_max"
proof (cases ds)
  case Nil
  with assms have "w = unat d - 48" by simp
  then show ?thesis using unat_byte_less [of d] by (simp add: uint64_max_def)
next
  case (Cons c cs)
  with assms show ?thesis by (metis list.distinct(1) string2ll_loop_Some)
qed

lemma string2ll_body:
  "string2ll s = Some v \<longleftrightarrow> s \<noteq> [] \<and>
    (if s = [48] then v = 0
     else let p = (if hd s = 45 then tl s else s) in
       p \<noteq> [] \<and> 49 \<le> hd p \<and> hd p \<le> 57 \<and>
       (\<exists>w. string2ll_loop (unat (hd p) - 48) (tl p) = Some (w, []) \<and>
          (if hd s = 45 then int w \<le> - int64_min \<and> v = - int w
           else int w \<le> int64_max \<and> v = int w)))"
  by (cases s)
    (auto simp: string2ll_def Let_def int_range length_Suc_conv split: option.splits if_splits prod.splits)

lemma string2ll_iff: "string2ll s = Some v \<longleftrightarrow> is_int64 v \<and> s = ll_repr v"
proof (cases "s = [] \<or> s = [48]")
  case True
  have "ll_repr v \<noteq> []" using length_dec_pos [of "nat v"] by (auto simp: ll_repr_def)
  moreover have "ll_repr v = [48] \<longleftrightarrow> v = 0"
    using dec_hd_zero [of "nat v"] by (auto simp: ll_repr_def)
  ultimately show ?thesis using True by (auto simp: string2ll_body int_range)
next
  case False
  define p where "p = (if hd s = 45 then tl s else s)"
  have "string2ll s = Some v \<longleftrightarrow>
      (\<exists>w. 0 < w \<and> w \<le> uint64_max \<and> p = dec w \<and>
          (if hd s = 45 then int w \<le> - int64_min \<and> v = - int w
           else int w \<le> int64_max \<and> v = int w))" (is "_ \<longleftrightarrow> ?R")
  proof (cases "p \<noteq> [] \<and> 49 \<le> hd p \<and> hd p \<le> 57")
    case p: True
    have "string2ll_loop (unat (hd p) - 48) (tl p) = Some (w, []) \<longleftrightarrow>
        0 < w \<and> w \<le> uint64_max \<and> p = dec w" for w
      using string2ll_digits [of p "hd p" "tl p" w] string2ll_loop_bound [of "hd p" "tl p" w] p
      by auto
    then show ?thesis using p False by (auto simp: string2ll_body Let_def p_def [symmetric])
  next
    case np: False
    have "\<not> ?R"
    proof
      assume ?R
      then obtain w where "0 < w" "p = dec w" by auto
      then show False using np dec_first_digit [of w "hd p" "tl p"] length_dec_pos [of w]
        by (cases p) auto
    qed
    moreover have "string2ll s \<noteq> Some v"
      using np False unfolding string2ll_body Let_def p_def [symmetric] by auto
    ultimately show ?thesis by blast
  qed
  also have "\<dots> \<longleftrightarrow> is_int64 v \<and> s = ll_repr v"
  proof
    assume ?R
    then show "is_int64 v \<and> s = ll_repr v" using False
      by (cases s) (auto simp: p_def ll_repr_def int_range split: if_splits)
  next
    assume r: "is_int64 v \<and> s = ll_repr v"
    with False have "v \<noteq> 0" by (auto simp: ll_repr_def)
    with r show ?R
      by (intro exI [of _ "nat \<bar>v\<bar>"])
        (auto simp: p_def ll_repr_def int_range dec_not_minus)
  qed
  finally show ?thesis .
qed


text \<open>\<open>string2ll\<close> accepts exactly the canonical decimal representations of the
  signed 64 bit integers, and returns the integer represented: leading zeros, a plus sign,
  \<open>-0\<close>, trailing bytes and every overflow are rejected.\<close>

theorem string2ll_accepts: "string2ll s = Some v \<longleftrightarrow> is_int64 v \<and> s = ll_repr v"
  by (rule string2ll_iff)

text \<open>whatever \<open>ll2string\<close> prints is terminated, leaves the bytes behind the
  terminator alone, and is read back by \<open>string2ll\<close> as the same integer; it prints
  whenever the digits, the sign and the terminator fit.\<close>

theorem ll2string_string2ll_roundtrip:
  assumes "is_int64 v" "dstlen \<le> length dst" "ll2string dst dstlen v = (n, d)"
  shows "n = 0 \<and> d = dst \<and> dstlen \<le> length (ll_repr v) \<or>
    0 < n \<and> n < dstlen \<and> string2ll (take n d) = Some v \<and> d ! n = 0 \<and>
      drop (Suc n) d = drop (Suc n) dst"
proof (cases "length (ll_repr v) < dstlen")
  case False
  then show ?thesis using assms by (simp add: ll2string_eq)
next
  case True
  then have "n = length (ll_repr v)" and "d = buf_put dst 0 (ll_repr v @ [0])"
    using assms by (simp_all add: ll2string_eq)
  moreover have "0 < length (ll_repr v)" using length_dec_pos by (auto simp: ll_repr_def)
  ultimately show ?thesis
    using True assms(1) by (auto simp: buf_put_def string2ll_iff nth_append)
qed

theorem ll2string_string2ll_roundtrip_witness:
  "ll2string ([1, 1, 1, 1, 1]) 5 (- 42) = (3, [45, 52, 50, 0, 1]) \<and>
   string2ll [45, 52, 50] = Some (- 42)"
proof -
  have run: "ll2string ([1, 1, 1, 1, 1]) 5 (- 42) = (3, [45, 52, 50, 0, 1])"
    by (simp add: ll2string_eq int_range ll_repr_def dec.simps buf_put_def)
  show ?thesis
    using ll2string_string2ll_roundtrip [OF _ _ run] run by (simp add: int_range)
qed

text \<open>\<open>digits10\<close>'s tree of comparisons computes the number of decimal digits.\<close>

theorem digits10_correct: "digits10 v = length (dec v)"
  by (rule digits10_length)

section \<open>Byte masks\<close>

text \<open>The mask the encoders put on a byte of a length.\<close>

lemma byte_and_255: "Bit_Operations.and (x :: u8) 255 = x"
proof -
  have "(255 :: u8) = - 1" by simp
  then show ?thesis by (metis word_bw_same(1) word_and_max)
qed

end
