(* ===== verification/Sds.thy ===== *)
theory Sds
  imports NumConv "HOL-Library.List_Lexorder"
begin

text \<open>
  \<open>sds.c\<close>: the server's dynamic strings.  An \<open>sds\<close> is a header with the \<open>len\<close> and
  \<open>free\<close> counters (\<open>unsigned int\<close>, so stores into them are taken modulo \<open>2 ^ 32\<close>) and
  the allocated bytes, \<open>len + free + 1\<close> of them with a NUL behind the string.  The
  operations keep this layout and are described by the string they leave (\<open>sds_str\<close>).
  Allocation is assumed to succeed, as the server aborts when it does not.
\<close>

section \<open>The header and the buffer operations\<close>

record sds =
  slen :: nat
  sfree :: nat
  sbuf :: bytes

abbreviation uint_wrap :: "nat \<Rightarrow> nat" where
  "uint_wrap n \<equiv> n mod 4294967296"

abbreviation SDS_MAX_PREALLOC :: nat where "SDS_MAX_PREALLOC \<equiv> 1048576"

definition sdsnewlen :: "bytes option \<Rightarrow> nat \<Rightarrow> sds" where
  "sdsnewlen init initlen =
    \<lparr>slen = uint_wrap initlen, sfree = 0,
     sbuf = (case init of Some b \<Rightarrow> take initlen b | None \<Rightarrow> replicate initlen 0) @ [0]\<rparr>"

definition sdsempty :: sds where
  "sdsempty = sdsnewlen (Some []) 0"

definition sdsdup :: "sds \<Rightarrow> sds" where
  "sdsdup s = sdsnewlen (Some (sbuf s)) (slen s)"

definition sdsupdatelen :: "sds \<Rightarrow> sds" where
  "sdsupdatelen s =
    (let reallen = length (takeWhile (\<lambda>c. c \<noteq> 0) (sbuf s))
     in s\<lparr>sfree := uint_wrap (sfree s + slen s - reallen), slen := uint_wrap reallen\<rparr>)"

definition sdsclear :: "sds \<Rightarrow> sds" where
  "sdsclear s = s\<lparr>sfree := uint_wrap (sfree s + slen s), slen := 0, sbuf := (sbuf s)[0 := 0]\<rparr>"

definition sdsMakeRoomFor :: "sds \<Rightarrow> nat \<Rightarrow> sds" where
  "sdsMakeRoomFor s addlen =
    (if sfree s \<ge> addlen then s
     else
       (let len = slen s;
            newlen = len + addlen;
            newlen = (if newlen < SDS_MAX_PREALLOC then newlen * 2 else newlen + SDS_MAX_PREALLOC)
        in s\<lparr>sbuf := buf_resize (sbuf s) (newlen + 1), sfree := uint_wrap (newlen - len)\<rparr>))"

definition sdsRemoveFreeSpace :: "sds \<Rightarrow> sds" where
  "sdsRemoveFreeSpace s = s\<lparr>sbuf := buf_resize (sbuf s) (slen s + 1), sfree := 0\<rparr>"

text \<open>The 8 bytes are the two \<open>unsigned int\<close> of the header.\<close>

definition sdsAllocSize :: "sds \<Rightarrow> nat" where
  "sdsAllocSize s = 8 + slen s + sfree s + 1"

text \<open>\<open>None\<close> is the failed \<open>assert\<close>.\<close>

definition sdsIncrLen :: "sds \<Rightarrow> int \<Rightarrow> sds option" where
  "sdsIncrLen s incr =
    (if (if incr \<ge> 0 then sfree s \<ge> nat incr else slen s \<ge> nat (- incr)) then
       (let len = nat (int (slen s) + incr)
        in Some (s\<lparr>slen := uint_wrap len, sfree := uint_wrap (nat (int (sfree s) - incr)),
             sbuf := (sbuf s)[len := 0]\<rparr>))
     else None)"

definition sdsgrowzero :: "sds \<Rightarrow> nat \<Rightarrow> sds" where
  "sdsgrowzero s len =
    (let curlen = slen s in
     if len \<le> curlen then s
     else
       (let s = sdsMakeRoomFor s (len - curlen);
            s = s\<lparr>sbuf := buf_put (sbuf s) curlen (replicate (len - curlen + 1) 0)\<rparr>;
            totlen = slen s + sfree s
        in s\<lparr>slen := uint_wrap len, sfree := uint_wrap (totlen - len)\<rparr>))"

definition sdscatlen :: "sds \<Rightarrow> bytes \<Rightarrow> nat \<Rightarrow> sds" where
  "sdscatlen s t len =
    (let curlen = slen s;
         s = sdsMakeRoomFor s len;
         s = s\<lparr>sbuf := buf_put (sbuf s) curlen (take len t)\<rparr>;
         s = s\<lparr>slen := uint_wrap (curlen + len), sfree := uint_wrap (sfree s - len)\<rparr>
     in s\<lparr>sbuf := (sbuf s)[curlen + len := 0]\<rparr>)"

definition sdscatsds :: "sds \<Rightarrow> sds \<Rightarrow> sds" where
  "sdscatsds s t = sdscatlen s (sbuf t) (slen t)"

definition sdscpylen :: "sds \<Rightarrow> bytes \<Rightarrow> nat \<Rightarrow> sds" where
  "sdscpylen s t len =
    (let totlen = sfree s + slen s;
         (s, totlen) = (if totlen < len
           then (let s = sdsMakeRoomFor s (len - slen s) in (s, sfree s + slen s))
           else (s, totlen))
     in s\<lparr>sbuf := (buf_put (sbuf s) 0 (take len t))[len := 0],
          slen := uint_wrap len, sfree := uint_wrap (totlen - len)\<rparr>)"

text \<open>\<open>sdstrim\<close>: the two scans over the bytes; \<open>strchr(cset, c)\<close> also finds the NUL
  that ends \<open>cset\<close>.\<close>

definition strchr :: "bytes \<Rightarrow> u8 \<Rightarrow> bool" where
  "strchr cset c \<longleftrightarrow> c = 0 \<or> c \<in> set cset"

function sdstrim_left :: "bytes \<Rightarrow> bytes \<Rightarrow> int \<Rightarrow> int \<Rightarrow> int" where
  "sdstrim_left b cset sp end =
    (if sp \<le> end \<and> strchr cset (b ! nat sp) then sdstrim_left b cset (sp + 1) end else sp)"
  by pat_completeness auto
termination by (relation "measure (\<lambda>(_, _, sp, end). nat (end - sp + 1))") auto

function sdstrim_right :: "bytes \<Rightarrow> bytes \<Rightarrow> int \<Rightarrow> int" where
  "sdstrim_right b cset ep =
    (if ep > 0 \<and> strchr cset (b ! nat ep) then sdstrim_right b cset (ep - 1) else ep)"
  by pat_completeness auto
termination by (relation "measure (\<lambda>(_, _, ep). nat ep)") auto

declare sdstrim_left.simps [simp del] sdstrim_right.simps [simp del]

definition sdstrim :: "sds \<Rightarrow> bytes \<Rightarrow> sds" where
  "sdstrim s cset =
    (let end = int (slen s) - 1;
         sp = sdstrim_left (sbuf s) cset 0 end;
         ep = sdstrim_right (sbuf s) cset end;
         len = (if sp > ep then 0 else nat (ep - sp) + 1);
         b = (if sp \<noteq> 0 then memmove (sbuf s) 0 (nat sp) len else sbuf s)
     in s\<lparr>sbuf := b[len := 0], sfree := uint_wrap (sfree s + (slen s - len)), slen := uint_wrap len\<rparr>)"

definition sdsrange :: "sds \<Rightarrow> int \<Rightarrow> int \<Rightarrow> sds" where
  "sdsrange s start end =
    (let len = int (slen s) in
     if len = 0 then s
     else
       (let start = (if start < 0 then max 0 (len + start) else start);
            end = (if end < 0 then max 0 (len + end) else end);
            newlen = (if start > end then 0 else end - start + 1);
            (start, newlen) =
              (if newlen \<noteq> 0 then
                 (if start \<ge> len then (start, 0)
                  else if end \<ge> len then
                    (let end = len - 1 in (start, if start > end then 0 else end - start + 1))
                  else (start, newlen))
               else (0, newlen));
            b = (if start \<noteq> 0 \<and> newlen \<noteq> 0 then memmove (sbuf s) 0 (nat start) (nat newlen) else sbuf s)
        in s\<lparr>sbuf := b[nat newlen := 0], sfree := uint_wrap (sfree s + (slen s - nat newlen)),
             slen := uint_wrap (nat newlen)\<rparr>))"

definition toupper :: "u8 \<Rightarrow> u8" where
  "toupper c = (if 97 \<le> c \<and> c \<le> 122 then c - 32 else c)"

definition sdstolower :: "sds \<Rightarrow> sds" where
  "sdstolower s = s\<lparr>sbuf := map tolower (take (slen s) (sbuf s)) @ drop (slen s) (sbuf s)\<rparr>"

definition sdstoupper :: "sds \<Rightarrow> sds" where
  "sdstoupper s = s\<lparr>sbuf := map toupper (take (slen s) (sbuf s)) @ drop (slen s) (sbuf s)\<rparr>"

text \<open>\<open>memcmp\<close> and \<open>sdscmp\<close>; only the sign of the result is meaningful.\<close>

primrec memcmp :: "bytes \<Rightarrow> bytes \<Rightarrow> nat \<Rightarrow> int" where
  "memcmp a b 0 = 0"
| "memcmp a b (Suc n) =
    (if hd a \<noteq> hd b then uint (hd a) - uint (hd b) else memcmp (tl a) (tl b) n)"

definition sdscmp :: "sds \<Rightarrow> sds \<Rightarrow> int" where
  "sdscmp s1 s2 =
    (let l1 = slen s1; l2 = slen s2;
         minlen = (if l1 < l2 then l1 else l2);
         cmp = memcmp (sbuf s1) (sbuf s2) minlen
     in if cmp = 0 then int l1 - int l2 else cmp)"

primrec mapchar :: "u8 \<Rightarrow> (u8 \<times> u8) list \<Rightarrow> u8" where
  "mapchar c [] = c"
| "mapchar c (p # ps) = (if c = fst p then snd p else mapchar c ps)"

definition sdsmapchars :: "sds \<Rightarrow> bytes \<Rightarrow> bytes \<Rightarrow> nat \<Rightarrow> sds" where
  "sdsmapchars s from to setlen =
    s\<lparr>sbuf := map (\<lambda>c. mapchar c (zip (take setlen from) (take setlen to))) (take (slen s) (sbuf s))
       @ drop (slen s) (sbuf s)\<rparr>"

text \<open>\<open>sdsjoin\<close> of C strings.\<close>

primrec sdsjoin_loop :: "sds \<Rightarrow> bytes list \<Rightarrow> bytes \<Rightarrow> sds" where
  "sdsjoin_loop join [] sep = join"
| "sdsjoin_loop join (a # as) sep =
    (let join = sdscatlen join a (length a);
         join = (if as \<noteq> [] then sdscatlen join sep (length sep) else join)
     in sdsjoin_loop join as sep)"

definition sdsjoin :: "bytes list \<Rightarrow> bytes \<Rightarrow> sds" where
  "sdsjoin argv sep = sdsjoin_loop sdsempty argv sep"

section \<open>The layout and the string\<close>

definition sds_wf :: "sds \<Rightarrow> bool" where
  "sds_wf s \<longleftrightarrow> length (sbuf s) = slen s + sfree s + 1 \<and> sbuf s ! slen s = 0"

definition sds_str :: "sds \<Rightarrow> bytes" where
  "sds_str s = take (slen s) (sbuf s)"

text \<open>The strings the counters can describe: growing by \<open>n\<close> bytes, with the
  preallocation, does not wrap them.\<close>

definition sds_room :: "sds \<Rightarrow> nat \<Rightarrow> bool" where
  "sds_room s n \<longleftrightarrow> slen s + sfree s + n + 2 * SDS_MAX_PREALLOC < 4294967296"

lemma length_sds_str [simp]: "sds_wf s \<Longrightarrow> length (sds_str s) = slen s"
  by (simp add: sds_wf_def sds_str_def)

lemma sdsnewlen_spec:
  assumes "length b < 4294967296"
  shows "sds_wf (sdsnewlen (Some b) (length b)) \<and> sds_str (sdsnewlen (Some b) (length b)) = b
    \<and> sfree (sdsnewlen (Some b) (length b)) = 0"
  using assms by (simp add: sdsnewlen_def sds_wf_def sds_str_def)

lemma sdsempty_spec: "sds_wf sdsempty" "sds_str sdsempty = []" "slen sdsempty = 0" "sfree sdsempty = 0"
  by (simp_all add: sdsempty_def sdsnewlen_def sds_wf_def sds_str_def)

lemma sdsMakeRoomFor_spec:
  assumes "sds_wf s" "sds_room s n"
  defines "s' \<equiv> sdsMakeRoomFor s n"
  shows "sds_wf s'" "sds_str s' = sds_str s" "slen s' = slen s" "n \<le> sfree s'"
    "sfree s' \<le> max (sfree s) (n + slen s + SDS_MAX_PREALLOC)"
  using assms
  by (auto simp: sdsMakeRoomFor_def sds_wf_def sds_str_def sds_room_def Let_def buf_resize_def nth_append
      min_def)

lemma sdscatlen_spec:
  assumes "sds_wf s" "sds_room s (length t)"
  shows "sds_wf (sdscatlen s t (length t))" "sds_str (sdscatlen s t (length t)) = sds_str s @ t"
    "slen (sdscatlen s t (length t)) = slen s + length t"
    "sfree (sdscatlen s t (length t)) \<le> max (sfree s) (length t + slen s + SDS_MAX_PREALLOC)"
proof -
  define s1 where "s1 = sdsMakeRoomFor s (length t)"
  note room = sdsMakeRoomFor_spec [OF assms, folded s1_def]
  have len: "length (sbuf s1) = slen s + sfree s1 + 1" using room(1,3) by (simp add: sds_wf_def)
  have w: "uint_wrap (slen s + length t) = slen s + length t" "uint_wrap (sfree s1 - length t) = sfree s1 - length t"
    using assms(2) room(4,5) by (auto simp: sds_room_def)
  have cat: "sdscatlen s t (length t) =
      s1\<lparr>sbuf := (buf_put (sbuf s1) (slen s) t)[slen s + length t := 0],
         slen := slen s + length t, sfree := sfree s1 - length t\<rparr>"
    using w by (simp add: sdscatlen_def Let_def flip: s1_def)
  have put: "buf_put (sbuf s1) (slen s) t = take (slen s) (sbuf s1) @ t @ drop (slen s + length t) (sbuf s1)"
    by (simp add: buf_put_def)
  show "sds_wf (sdscatlen s t (length t))"
    using room(4) len by (simp add: sds_wf_def cat buf_simps)
  show "sds_str (sdscatlen s t (length t)) = sds_str s @ t"
    using room len assms(1) by (simp add: sds_str_def sds_wf_def cat put)
  show "slen (sdscatlen s t (length t)) = slen s + length t" by (simp add: cat)
  show "sfree (sdscatlen s t (length t)) \<le> max (sfree s) (length t + slen s + SDS_MAX_PREALLOC)"
    using room(5) by (simp add: cat)
qed

text \<open>Strings that stay below \<open>L\<close> bytes while they are built up.\<close>

definition sds_fits :: "nat \<Rightarrow> sds \<Rightarrow> bool" where
  "sds_fits L s \<longleftrightarrow> sds_wf s \<and> slen s \<le> L \<and> sfree s \<le> L + SDS_MAX_PREALLOC"

lemma sds_fits_cat:
  assumes "sds_fits L s" "slen s + length t \<le> L" "L < 1073741824"
  shows "sds_fits L (sdscatlen s t (length t))" "sds_str (sdscatlen s t (length t)) = sds_str s @ t"
    "slen (sdscatlen s t (length t)) = slen s + length t"
proof -
  have *: "sds_wf s" "sds_room s (length t)" using assms by (auto simp: sds_fits_def sds_room_def)
  note spec = sdscatlen_spec [OF *]
  show "sds_fits L (sdscatlen s t (length t))"
    using spec(1,3,4) assms by (simp add: sds_fits_def max_def split: if_splits)
  show "sds_str (sdscatlen s t (length t)) = sds_str s @ t"
    "slen (sdscatlen s t (length t)) = slen s + length t" by (fact spec)+
qed

lemma sds_fits_empty: "sds_fits L sdsempty"
  using sdsempty_spec by (simp add: sds_fits_def)


lemma sdsclear_spec:
  assumes "sds_wf s" "sds_room s 0"
  shows "sds_wf (sdsclear s)" "sds_str (sdsclear s) = []" "sfree (sdsclear s) = sfree s + slen s"
  using assms by (simp_all add: sdsclear_def sds_wf_def sds_str_def sds_room_def)

lemma sdsRemoveFreeSpace_spec:
  assumes "sds_wf s"
  shows "sds_wf (sdsRemoveFreeSpace s)" "sds_str (sdsRemoveFreeSpace s) = sds_str s"
    "sdsAllocSize (sdsRemoveFreeSpace s) = 8 + slen s + 1"
  using assms
  by (auto simp: sdsRemoveFreeSpace_def sds_wf_def sds_str_def sdsAllocSize_def buf_resize_def nth_append
      min_def)

lemma sdsgrowzero_spec:
  assumes "sds_wf s" "sds_room s len"
  shows "sds_wf (sdsgrowzero s len)" "sds_str (sdsgrowzero s len) = sds_str s @ replicate (len - slen s) 0"
proof -
  have "sds_wf (sdsgrowzero s len) \<and>
      sds_str (sdsgrowzero s len) = sds_str s @ replicate (len - slen s) 0"
  proof (cases "len \<le> slen s")
    case True
    then show ?thesis using assms(1) by (simp add: sdsgrowzero_def)
  next
    case False
    define s1 where "s1 = sdsMakeRoomFor s (len - slen s)"
    have "sds_room s (len - slen s)" using assms(2) by (simp add: sds_room_def)
    note room = sdsMakeRoomFor_spec [OF assms(1) this, folded s1_def]
    have len1: "length (sbuf s1) = slen s + sfree s1 + 1" using room(1,3) by (simp add: sds_wf_def)
    have w: "uint_wrap len = len" "uint_wrap (slen s + sfree s1 - len) = slen s + sfree s1 - len"
      using assms(2) room(4,5) False by (auto simp: sds_room_def)
    have grow: "sdsgrowzero s len = s1\<lparr>sbuf := buf_put (sbuf s1) (slen s) (replicate (len - slen s + 1) 0),
        slen := len, sfree := slen s + sfree s1 - len\<rparr>"
      using w False room(3) by (simp add: sdsgrowzero_def Let_def flip: s1_def)
    have "sds_wf (sdsgrowzero s len)"
      using room(4) len1 False by (simp add: sds_wf_def grow buf_simps del: replicate_Suc)
    moreover have "sds_str (sdsgrowzero s len) = sds_str s @ replicate (len - slen s) 0"
    proof -
      have "sds_str (sdsgrowzero s len) = take len (take (slen s) (sbuf s1) @ replicate (len - slen s + 1) 0)"
        using len1 room(4) False by (simp add: sds_str_def grow buf_put_def del: replicate_Suc)
      then show ?thesis using room(2,3) len1 False by (simp add: sds_str_def min_def del: replicate_Suc)
    qed
    ultimately show ?thesis by blast
  qed
  then show "sds_wf (sdsgrowzero s len)" "sds_str (sdsgrowzero s len) = sds_str s @ replicate (len - slen s) 0"
    by blast+
qed

lemma sdscpylen_spec:
  assumes "sds_wf s" "sds_room s (length t)"
  shows "sds_wf (sdscpylen s t (length t))" "sds_str (sdscpylen s t (length t)) = t"
proof -
  define s1 where "s1 = (if sfree s + slen s < length t then sdsMakeRoomFor s (length t - slen s) else s)"
  have "sds_room s (length t - slen s)" using assms(2) by (simp add: sds_room_def)
  note room = sdsMakeRoomFor_spec [OF assms(1) this]
  have s1: "sds_wf s1" "length t \<le> sfree s1 + slen s1" "sfree s1 + slen s1 < 4294967296"
    using assms room by (auto simp: s1_def sds_room_def)
  have "sdscpylen s t (length t) = s1\<lparr>sbuf := (buf_put (sbuf s1) 0 t)[length t := 0],
      slen := length t, sfree := sfree s1 + slen s1 - length t\<rparr>"
    using s1(2,3) by (auto simp: sdscpylen_def Let_def s1_def)
  then show "sds_wf (sdscpylen s t (length t))" "sds_str (sdscpylen s t (length t)) = t"
    using s1 by (simp_all add: sds_wf_def sds_str_def buf_simps buf_put_def)
qed

text \<open>The reference for \<open>sdsrange\<close>: both ends inclusive, negative ones counted from the
  end of the string.\<close>

definition substr :: "'a list \<Rightarrow> int \<Rightarrow> int \<Rightarrow> 'a list" where
  "substr xs start end =
    (let n = int (length xs);
         a = (if start < 0 then max 0 (n + start) else start);
         b = (if end < 0 then max 0 (n + end) else end)
     in take (nat (b - a + 1)) (drop (nat a) xs))"

lemma sds_keep_spec:
  assumes "sds_wf s" "a + n \<le> slen s" "slen s + sfree s < 4294967296"
    and "b = (if a = 0 then sbuf s else memmove (sbuf s) 0 a n) \<or> n = 0 \<and> b = sbuf s"
    and s': "s' = s\<lparr>sbuf := b[n := 0], sfree := uint_wrap (sfree s + (slen s - n)), slen := uint_wrap n\<rparr>"
  shows "sds_wf s'" "sds_str s' = take n (drop a (sds_str s))" "slen s' = n"
proof -
  have len: "length (sbuf s) = slen s + sfree s + 1" using assms(1) by (simp add: sds_wf_def)
  have b: "length b = length (sbuf s)" "take n b = take n (drop a (sbuf s))"
    using assms(2,4) len by (auto simp: buf_simps memmove_def buf_put_def buf_get_def)
  have "uint_wrap n = n" "uint_wrap (sfree s + (slen s - n)) = sfree s + (slen s - n)"
    using assms(2,3) by auto
  then have s'': "s' = s\<lparr>sbuf := b[n := 0], sfree := sfree s + (slen s - n), slen := n\<rparr>"
    unfolding s' by simp
  show "sds_wf s'" using assms(2) len b(1) by (simp add: s'' sds_wf_def)
  show "slen s' = n" by (simp add: s'')
  show "sds_str s' = take n (drop a (sds_str s))"
    using assms(2) b(2) by (simp add: s'' sds_str_def drop_take min_def)
qed

lemma sdsrange_spec:
  assumes "sds_wf s" "sds_room s 0"
  shows "sds_wf (sdsrange s start end)" "sds_str (sdsrange s start end) = substr (sds_str s) start end"
proof -
  define n where "n = int (slen s)"
  define a where "a = (if start < 0 then max 0 (n + start) else start)"
  define b where "b = (if end < 0 then max 0 (n + end) else end)"
  define k where "k = (if a > b \<or> a \<ge> n then 0 else min b (n - 1) - a + 1)"
  define a' where "a' = (if a > b then 0 else a)"
  have pos: "0 \<le> a" "0 \<le> b" by (auto simp: a_def b_def)
  have lim: "slen s + sfree s < 4294967296" using assms(2) by (simp add: sds_room_def)
  have "sds_wf (sdsrange s start end) \<and> sds_str (sdsrange s start end) = substr (sds_str s) start end"
  proof (cases "slen s = 0")
    case True
    then show ?thesis using assms(1) by (simp add: sdsrange_def substr_def sds_str_def Let_def)
  next
    case False
    let ?b = "if a' \<noteq> 0 \<and> k \<noteq> 0 then memmove (sbuf s) 0 (nat a') (nat k) else sbuf s"
    let ?s = "s\<lparr>sbuf := ?b[nat k := 0], sfree := uint_wrap (sfree s + (slen s - nat k)), slen := uint_wrap (nat k)\<rparr>"
    have "(let newlen = (if a > b then 0 else b - a + 1) in
              if newlen \<noteq> 0 then
                 (if a \<ge> n then (a, 0)
                  else if b \<ge> n then
                    (let end = n - 1 in (a, if a > end then 0 else end - a + 1))
                  else (a, newlen))
               else (0, newlen)) = (a', k)"
      using pos False by (auto simp: k_def a'_def n_def Let_def)
    then have "sdsrange s start end = ?s"
      using False unfolding sdsrange_def Let_def n_def [symmetric] a_def [symmetric] b_def [symmetric]
      by (simp add: n_def)
    moreover have k: "k = 0 \<or> a' = a \<and> nat a' + nat k \<le> slen s" "k \<ge> 0" "a' \<ge> 0"
      using pos False by (auto simp: k_def a'_def n_def)
    moreover have "take (nat k) (drop (nat a') (sds_str s)) = substr (sds_str s) start end"
    proof (cases "k = 0")
      case True
      then have "b < a \<or> n \<le> a" using pos by (auto simp: k_def split: if_splits)
      then show ?thesis using True assms(1)
        by (auto simp: substr_def Let_def n_def [symmetric] a_def [symmetric] b_def [symmetric])
          (simp_all add: n_def sds_str_def)
    next
      case nz: False
      then have "a \<le> b" "a < n" "a' = a" "k = min b (n - 1) - a + 1" by (auto simp: k_def a'_def split: if_splits)
      then show ?thesis using assms(1) pos
        by (auto simp: substr_def Let_def n_def [symmetric] a_def [symmetric] b_def [symmetric] min_def)
          (simp_all add: n_def nat_diff_distrib)
    qed
    moreover have "sds_wf ?s \<and> sds_str ?s = take (nat k) (drop (nat a') (sds_str s))"
    proof (cases "k = 0")
      case True
      have "sds_wf ?s" "sds_str ?s = take (nat k) (drop 0 (sds_str s))"
        by (rule sds_keep_spec [OF assms(1) _ lim _ refl, of 0 "nat k" ?b]; simp add: True)+
      then show ?thesis using True by simp
    next
      case False
      have "nat a' + nat k \<le> slen s" using k(1) False by auto
      moreover have "?b = (if nat a' = 0 then sbuf s else memmove (sbuf s) 0 (nat a') (nat k)) \<or> nat k = 0 \<and> ?b = sbuf s"
        using k(3) False by auto
      ultimately show ?thesis using sds_keep_spec [OF assms(1) _ lim _ refl, of "nat a'" "nat k" ?b] by blast
    qed
    ultimately show ?thesis by presburger
  qed
  then show "sds_wf (sdsrange s start end)" "sds_str (sdsrange s start end) = substr (sds_str s) start end"
    by blast+
qed


section \<open>Trimming\<close>

lemma sdstrim_left_eq:
  assumes "n \<le> length b" "i \<le> n"
  shows "sdstrim_left b cset (int i) (int n - 1)
    = int (i + length (takeWhile (strchr cset) (drop i (take n b))))"
  using assms
proof (induction "n - i" arbitrary: i)
  case 0
  then show ?case by (subst sdstrim_left.simps) simp
next
  case (Suc k)
  then have i: "i < n" "b ! i = take n b ! i" "drop i (take n b) = (take n b ! i) # drop (Suc i) (take n b)"
    using Cons_nth_drop_Suc [of i "take n b"] by simp_all
  have "sdstrim_left b cset (1 + int i) (int n - 1)
      = 1 + (int i + int (length (takeWhile (strchr cset) (drop (Suc i) (take n b)))))"
    using Suc.hyps(1) [of "Suc i"] Suc.hyps(2) Suc.prems by simp
  then show ?case using i by (subst sdstrim_left.simps) (simp add: algebra_simps)
qed

lemma sdstrim_right_eq:
  assumes "n < length b"
  shows "sdstrim_right b cset (int n)
    = int (n - length (takeWhile (strchr cset) (rev (take n (drop 1 b)))))"
  using assms
proof (induction n)
  case 0
  then show ?case by (subst sdstrim_right.simps) simp
next
  case (Suc n)
  have "take (Suc n) (drop 1 b) = take n (drop 1 b) @ [b ! Suc n]"
    using Suc.prems by (simp add: take_Suc_conv_app_nth)
  moreover have "nat (1 + int n) = Suc n" by simp
  ultimately show ?case using Suc by (subst sdstrim_right.simps) simp
qed

text \<open>The reference: no byte of the set at either end.\<close>

definition trim :: "bytes \<Rightarrow> bytes \<Rightarrow> bytes" where
  "trim cset xs = rev (dropWhile (strchr cset) (rev (dropWhile (strchr cset) xs)))"

lemma rev_dropWhile_rev: "rev (dropWhile P (rev ys)) = take (length ys - length (takeWhile P (rev ys))) ys"
proof -
  have "dropWhile P (rev ys) = drop (length (takeWhile P (rev ys))) (rev ys)" by (rule dropWhile_eq_drop)
  then show ?thesis by (simp add: rev_drop)
qed

lemma trim_all: "\<forall>x \<in> set xs. strchr cset x \<Longrightarrow> trim cset xs = []"
  by (simp add: trim_def dropWhile_eq_Nil_conv [THEN iffD2])

lemma trim_take_drop:
  assumes "x \<in> set xs" "\<not> strchr cset x"
  defines "a \<equiv> length (takeWhile (strchr cset) xs)"
    and "r \<equiv> length (takeWhile (strchr cset) (rev xs))"
  shows "trim cset xs = take (length xs - r - a) (drop a xs)" "a + r < length xs"
proof -
  have ne: "dropWhile (strchr cset) xs \<noteq> []" using assms(1,2) by auto
  define ys where "ys = dropWhile (strchr cset) xs"
  have ys: "ys = drop a xs" by (simp add: ys_def a_def dropWhile_eq_drop)
  have "\<not> strchr cset (hd ys)" using ne hd_dropWhile unfolding ys_def by blast
  then have y: "hd ys \<in> set (rev ys)" "\<not> strchr cset (hd ys)" using ne by (auto simp: ys_def)
  have "rev xs = rev ys @ rev (takeWhile (strchr cset) xs)"
    by (metis rev_append takeWhile_dropWhile_id ys_def)
  then have r: "takeWhile (strchr cset) (rev xs) = takeWhile (strchr cset) (rev ys)"
    using y by (simp add: takeWhile_append1)
  have "takeWhile (strchr cset) (rev ys) \<noteq> rev ys" using y by (metis set_takeWhileD)
  then have "r < length ys"
    using r by (metis r_def length_rev linorder_neqE_nat not_less length_takeWhile_le takeWhile_eq_take take_all_iff)
  then show "a + r < length xs" using ys by simp
  show "trim cset xs = take (length xs - r - a) (drop a xs)"
    unfolding trim_def rev_dropWhile_rev ys_def [symmetric] r [symmetric] r_def [symmetric]
    by (simp add: ys algebra_simps)
qed

lemma takeWhile_rev_tl:
  assumes "x \<in> set xs" "\<not> P x"
  shows "length (takeWhile P (rev (tl xs))) = length (takeWhile P (rev xs))"
proof (cases xs)
  case (Cons y ys)
  show ?thesis
  proof (cases "\<forall>z \<in> set ys. P z")
    case True
    then have "\<not> P y" using assms Cons by auto
    moreover have "\<forall>z \<in> set (rev ys). P z" using True by simp
    moreover have tw: "takeWhile P (rev ys) = rev ys" using True by (simp add: takeWhile_eq_all_conv)
    ultimately have "takeWhile P (rev xs) = rev ys" using Cons True by (simp add: takeWhile_append)
    then have "length (takeWhile P (rev xs)) = length ys" by simp
    moreover have "length (takeWhile P (rev (tl xs))) = length ys" unfolding Cons list.sel tw by simp
    ultimately show ?thesis by simp
  next
    case False
    then show ?thesis using Cons by (auto simp: takeWhile_append)
  qed
qed simp

lemma sdstrim_spec:
  assumes "sds_wf s" "sds_room s 0"
  shows "sds_wf (sdstrim s cset)" "sds_str (sdstrim s cset) = trim cset (sds_str s)"
proof -
  define n where "n = slen s"
  define xs where "xs = sds_str s"
  define a where "a = length (takeWhile (strchr cset) xs)"
  define ep where "ep = sdstrim_right (sbuf s) cset (int n - 1)"
  have xs: "xs = take n (sbuf s)" "length xs = n" "n < length (sbuf s)"
    using assms(1) by (auto simp: xs_def n_def sds_str_def sds_wf_def)
  have lim: "slen s + sfree s < 4294967296" using assms(2) by (simp add: sds_room_def)
  have sp: "sdstrim_left (sbuf s) cset 0 (int n - 1) = int a"
    using sdstrim_left_eq [of n "sbuf s" 0 cset] xs by (simp add: a_def)
  have ep: "ep = int (n - 1 - length (takeWhile (strchr cset) (rev (tl xs))))" if "0 < n"
  proof -
    have i: "int n - 1 = int (n - 1)" using that by simp
    have tl: "tl xs = take (n - 1) (drop 1 (sbuf s))"
      unfolding xs(1) by (cases n; cases "sbuf s") auto
    have "n - 1 < length (sbuf s)" using xs(3) by linarith
    then show ?thesis unfolding ep_def i tl by (rule sdstrim_right_eq)
  qed
  define len where "len = (if int a > ep then 0 else nat (ep - int a) + 1)"
  let ?b = "if a \<noteq> 0 then memmove (sbuf s) 0 a len else sbuf s"
  have eq: "sdstrim s cset =
      s\<lparr>sbuf := ?b[len := 0], sfree := uint_wrap (sfree s + (slen s - len)), slen := uint_wrap len\<rparr>"
    unfolding sdstrim_def Let_def n_def [symmetric] sp ep_def [symmetric] len_def [symmetric]
    by (simp only: of_nat_eq_0_iff nat_int)
  have goal: "a + len \<le> n \<and> take len (drop a xs) = trim cset xs"
  proof (cases "\<forall>x \<in> set xs. strchr cset x")
    case True
    then have "takeWhile (strchr cset) xs = xs" by (simp add: takeWhile_eq_all_conv)
    then have "a = n" unfolding a_def by (simp only: xs(2))
    moreover have "ep < int n"
    proof (cases "n = 0")
      case True
      have "sdstrim_right (sbuf s) cset (- 1) = - 1" by (subst sdstrim_right.simps) simp
      then show ?thesis using True by (simp add: ep_def)
    qed (simp add: ep)
    ultimately show ?thesis using trim_all [OF True] by (simp add: len_def)
  next
    case False
    then obtain x where x: "x \<in> set xs" "\<not> strchr cset x" by blast
    define r where "r = length (takeWhile (strchr cset) (rev xs))"
    note td = trim_take_drop [OF x, folded a_def r_def]
    have "0 < n" using x(1) xs(2) by (cases xs) auto
    then have "ep = int (n - 1 - r)" using ep takeWhile_rev_tl [of x xs "strchr cset", OF x] by (simp add: r_def)
    then have "len = n - r - a" using td(2) xs(2) by (auto simp: len_def)
    then show ?thesis using td xs(2) by simp
  qed
  have "a + len \<le> slen s" using goal by (simp add: n_def)
  note keep = sds_keep_spec [OF assms(1) this lim _ eq]
  show "sds_wf (sdstrim s cset)" by (rule keep(1)) simp
  show "sds_str (sdstrim s cset) = trim cset (sds_str s)"
    using keep(2) goal by (simp add: xs_def)
qed

section \<open>Comparison\<close>

lemma memcmp_spec:
  assumes "n \<le> length a" "n \<le> length b"
  shows "memcmp a b n = 0 \<longleftrightarrow> take n a = take n b"
    "memcmp a b n < 0 \<longleftrightarrow> take n a < take n b"
  using assms
proof (induction n arbitrary: a b)
  case (Suc n)
  {
    case 1
    with Suc show ?case by (cases a; cases b) (auto simp: word_uint_eq_iff)
  next
    case 2
    with Suc show ?case by (cases a; cases b) (auto simp: word_uint_eq_iff word_less_def)
  }
qed simp_all

lemma less_by_prefix:
  fixes xs ys :: "'a :: linorder list"
  defines "m \<equiv> min (length xs) (length ys)"
  shows "xs < ys \<longleftrightarrow> take m xs < take m ys \<or> take m xs = take m ys \<and> length xs < length ys"
  unfolding m_def by (induction xs ys rule: list_induct2') auto

lemma eq_by_prefix:
  fixes xs ys :: "'a list"
  defines "m \<equiv> min (length xs) (length ys)"
  shows "xs = ys \<longleftrightarrow> take m xs = take m ys \<and> length xs = length ys"
  unfolding m_def by auto

lemma sdscmp_spec:
  assumes "sds_wf a" "sds_wf b"
  shows "sdscmp a b = 0 \<longleftrightarrow> sds_str a = sds_str b" "sdscmp a b < 0 \<longleftrightarrow> sds_str a < sds_str b"
proof -
  define m where "m = min (slen a) (slen b)"
  have m: "(if slen a < slen b then slen a else slen b) = m" by (auto simp: m_def)
  have len: "m \<le> length (sbuf a)" "m \<le> length (sbuf b)" using assms by (auto simp: m_def sds_wf_def)
  have take: "take m (sbuf a) = take m (sds_str a)" "take m (sbuf b) = take m (sds_str b)"
    by (simp_all add: sds_str_def m_def min_def)
  have min: "m = min (length (sds_str a)) (length (sds_str b))" using assms by (simp add: m_def)
  note cmp = memcmp_spec [OF len, unfolded take]
  show "sdscmp a b = 0 \<longleftrightarrow> sds_str a = sds_str b"
    using cmp(1) eq_by_prefix [of "sds_str a" "sds_str b", folded min] assms
    unfolding sdscmp_def Let_def m by simp
  show "sdscmp a b < 0 \<longleftrightarrow> sds_str a < sds_str b"
    using cmp less_by_prefix [of "sds_str a" "sds_str b", folded min] assms
    unfolding sdscmp_def Let_def m by simp
qed

section \<open>Appending in place\<close>

lemma sdsIncrLen_spec:
  assumes "sds_wf s" "sds_room s (length t)"
  defines "s1 \<equiv> sdsMakeRoomFor s (length t)"
  shows "\<exists>s2. sdsIncrLen (s1\<lparr>sbuf := buf_put (sbuf s1) (slen s1) t\<rparr>) (int (length t)) = Some s2
    \<and> sds_wf s2 \<and> sds_str s2 = sds_str s @ t"
proof -
  note room = sdsMakeRoomFor_spec [OF assms(1,2), folded s1_def]
  have len: "length (sbuf s1) = slen s + sfree s1 + 1" using room(1,3) by (simp add: sds_wf_def)
  have "sds_wf (s1\<lparr>slen := slen s1 + length t, sfree := sfree s1 - length t,
      sbuf := (buf_put (sbuf s1) (slen s1) t)[slen s1 + length t := 0]\<rparr>)"
    using len room(3,4) by (simp add: sds_wf_def buf_simps)
  moreover have "uint_wrap (slen s1 + length t) = slen s1 + length t"
      "uint_wrap (sfree s1 - length t) = sfree s1 - length t"
    using assms(2) room(3,4,5) by (auto simp: sds_room_def)
  moreover have "nat (int (slen s1) + int (length t)) = slen s1 + length t"
    "nat (int (sfree s1) - int (length t)) = sfree s1 - length t" by auto
  ultimately show ?thesis using room len assms(1)
    by (simp add: sdsIncrLen_def Let_def sds_str_def buf_put_def sds_wf_def)
qed

section \<open>Joining\<close>

primrec join_with :: "'a list \<Rightarrow> 'a list list \<Rightarrow> 'a list" where
  "join_with sep [] = []"
| "join_with sep (x # xs) = x @ (if xs = [] then [] else sep @ join_with sep xs)"

lemma sdsjoin_loop_spec:
  assumes "sds_fits L s" "slen s + length (join_with sep xs) \<le> L" "L < 1073741824"
  shows "sds_fits L (sdsjoin_loop s xs sep) \<and> sds_str (sdsjoin_loop s xs sep) = sds_str s @ join_with sep xs"
  using assms
proof (induction xs arbitrary: s)
  case (Cons x xs)
  define s1 where "s1 = sdscatlen s x (length x)"
  define s2 where "s2 = (if xs \<noteq> [] then sdscatlen s1 sep (length sep) else s1)"
  have len: "slen s + length x \<le> L" "xs \<noteq> [] \<Longrightarrow> slen s + length x + length sep \<le> L"
    using Cons.prems(2) by (auto split: if_splits)
  note c1 = sds_fits_cat [OF Cons.prems(1) len(1) Cons.prems(3), folded s1_def]
  have c2: "sds_fits L s2 \<and> sds_str s2 = sds_str s @ x @ (if xs \<noteq> [] then sep else [])
      \<and> slen s2 = slen s + length x + (if xs \<noteq> [] then length sep else 0)"
    using sds_fits_cat [OF c1(1) _ Cons.prems(3), of sep] c1 len by (simp add: s2_def)
  moreover have "slen s2 + length (join_with sep xs) \<le> L"
    using c2 Cons.prems(2) by (auto split: if_splits)
  ultimately have "sds_fits L (sdsjoin_loop s2 xs sep)
      \<and> sds_str (sdsjoin_loop s2 xs sep) = sds_str s2 @ join_with sep xs"
    using Cons.IH Cons.prems(3) by blast
  moreover have "sdsjoin_loop s (x # xs) sep = sdsjoin_loop s2 xs sep"
    by (simp add: s2_def s1_def Let_def)
  ultimately show ?case using c2 by simp
qed simp

lemma sdsjoin_spec:
  assumes "length (join_with sep xs) < 1073741824"
  shows "sds_str (sdsjoin xs sep) = join_with sep xs" "sds_wf (sdsjoin xs sep)"
  using sdsjoin_loop_spec [OF sds_fits_empty _ assms, of sep xs] sdsempty_spec
  by (simp_all add: sdsjoin_def sds_fits_def)

section \<open>Properties\<close>

text \<open>\<open>sdsrange\<close> with any two indexes, negative ones counted from the end and both
  possibly out of range, keeps the layout of the string and leaves exactly the inclusive
  substring.\<close>

theorem sdsrange_correct:
  assumes "sds_wf s" "sds_room s 0"
  shows "sds_wf (sdsrange s start end) \<and> sds_str (sdsrange s start end) = substr (sds_str s) start end"
  using sdsrange_spec [OF assms] by blast

theorem sdsrange_correct_witness:
  "sds_wf (sdsrange (sdsnewlen (Some [72, 105, 33]) 3) 1 (- 1))
    \<and> sds_str (sdsrange (sdsnewlen (Some [72, 105, 33]) 3) 1 (- 1)) = [105, 33]"
  using sdsrange_correct [of "sdsnewlen (Some [72, 105, 33]) 3" 1 "- 1"]
  by (simp add: sds_wf_def sds_room_def sdsnewlen_def sds_str_def substr_def)

text \<open>\<open>sdstrim\<close> removes from both ends the bytes of the given set (and NULs, because
  \<open>strchr\<close> finds the terminator of the set) and nothing else.\<close>

theorem sdstrim_correct:
  assumes "sds_wf s" "sds_room s 0"
  shows "sds_wf (sdstrim s cset) \<and> sds_str (sdstrim s cset) = trim cset (sds_str s)"
  using sdstrim_spec [OF assms] by blast

theorem sdstrim_correct_witness:
  "sds_wf (sdstrim (sdsnewlen (Some [32, 0, 65, 32, 66, 32]) 6) [32])
    \<and> sds_str (sdstrim (sdsnewlen (Some [32, 0, 65, 32, 66, 32]) 6) [32]) = [65, 32, 66]"
  using sdstrim_correct [of "sdsnewlen (Some [32, 0, 65, 32, 66, 32]) 6" "[32]"]
  by (simp add: sds_wf_def sds_room_def sdsnewlen_def sds_str_def trim_def strchr_def)

text \<open>the read path of the server, \<open>sdsMakeRoomFor\<close> then a write of \<open>n\<close> bytes at
  the end of the string then \<open>sdsIncrLen\<close> by \<open>n\<close>, never fails the assertion of
  \<open>sdsIncrLen\<close>, keeps the layout and appends exactly the bytes written.\<close>

theorem sds_append_in_place:
  assumes "sds_wf s" "sds_room s (length t)"
  shows "\<exists>s2. sdsIncrLen
        ((sdsMakeRoomFor s (length t))\<lparr>sbuf :=
           buf_put (sbuf (sdsMakeRoomFor s (length t))) (slen (sdsMakeRoomFor s (length t))) t\<rparr>)
        (int (length t)) = Some s2
    \<and> sds_wf s2 \<and> sds_str s2 = sds_str s @ t"
  by (rule sdsIncrLen_spec [OF assms])

theorem sds_append_in_place_witness:
  "\<exists>s2. sdsIncrLen
        ((sdsMakeRoomFor sdsempty (length [7 :: u8, 8]))\<lparr>sbuf :=
           buf_put (sbuf (sdsMakeRoomFor sdsempty (length [7 :: u8, 8])))
             (slen (sdsMakeRoomFor sdsempty (length [7 :: u8, 8]))) [7, 8]\<rparr>)
        (int (length [7 :: u8, 8])) = Some s2
    \<and> sds_wf s2 \<and> sds_str s2 = sds_str sdsempty @ [7, 8]"
  by (rule sds_append_in_place) (simp_all add: sds_wf_def sds_room_def sdsempty_def sdsnewlen_def)

text \<open>\<open>sdscmp\<close> is the lexicographic order of the byte strings: zero exactly on equal
  strings and negative exactly when the first comes before the second, a proper prefix
  coming first.\<close>

theorem sdscmp_lexicographic:
  assumes "sds_wf a" "sds_wf b"
  shows "(sdscmp a b = 0 \<longleftrightarrow> sds_str a = sds_str b) \<and> (sdscmp a b < 0 \<longleftrightarrow> sds_str a < sds_str b)"
  using sdscmp_spec [OF assms] by blast

theorem sdscmp_lexicographic_witness:
  "sdscmp (sdsnewlen (Some [1, 200]) 2) (sdsnewlen (Some [1, 200, 0]) 3) < 0"
  using sdscmp_lexicographic [of "sdsnewlen (Some [1, 200]) 2" "sdsnewlen (Some [1, 200, 0]) 3"]
  by (simp add: sds_wf_def sdsnewlen_def sds_str_def)

end
