(* ===== verification/SdsText.thy ===== *)
theory SdsText
  imports Sds "HOL-Library.Sublist"
begin

text \<open>
  The text operations of \<open>sds.c\<close> built on the buffer operations of \<open>Sds\<close>: printing
  integers, joining and splitting, and the quoted representation with the argument
  splitter that reads it back (the configuration file and the inline protocol are parsed
  with it).
\<close>

section \<open>Integers\<close>

text \<open>The do-while loop of \<open>sdsll2str\<close> writes the digits in reverse order.\<close>

function sdsll2str_digits :: "nat \<Rightarrow> bytes \<Rightarrow> bytes" where
  "sdsll2str_digits v acc =
    (let acc = acc @ [48 + of_nat (v mod 10)]; v = v div 10
     in if v \<noteq> 0 then sdsll2str_digits v acc else acc)"
  by pat_completeness auto
termination by (relation "measure fst") auto

function sds_reverse :: "bytes \<Rightarrow> nat \<Rightarrow> nat \<Rightarrow> bytes" where
  "sds_reverse b s p = (if s < p then sds_reverse (b[s := b ! p, p := b ! s]) (s + 1) (p - 1) else b)"
  by pat_completeness auto
termination by (relation "measure (\<lambda>(b, s, p). p - s)") auto

declare sdsll2str_digits.simps [simp del] sds_reverse.simps [simp del]

text \<open>The bytes written at \<open>s\<close> and the returned length.\<close>

definition sdsll2str :: "int \<Rightarrow> bytes \<times> nat" where
  "sdsll2str value =
    (let v = nat (if value < 0 then - value else value);
         p = sdsll2str_digits v [];
         p = (if value < 0 then p @ [45] else p);
         l = length p
     in (sds_reverse (p @ [0]) 0 (l - 1), l))"

definition sdsull2str :: "nat \<Rightarrow> bytes \<times> nat" where
  "sdsull2str v =
    (let p = sdsll2str_digits v []; l = length p in (sds_reverse (p @ [0]) 0 (l - 1), l))"

definition sdsfromlonglong :: "int \<Rightarrow> sds" where
  "sdsfromlonglong value = (let (buf, len) = sdsll2str value in sdsnewlen (Some buf) len)"

section \<open>Splitting on a separator\<close>

text \<open>The loop of \<open>sdssplitlen\<close>: the tokens, the start of the current one and the number
  of allocated slots of the token array.\<close>

function sdssplit_loop :: "bytes \<Rightarrow> bytes \<Rightarrow> nat \<Rightarrow> nat \<Rightarrow> nat \<Rightarrow> sds list \<Rightarrow> sds list \<times> nat \<times> nat" where
  "sdssplit_loop s sep start j slots tokens =
    (if int j < int (length s) - (int (length sep) - 1) then
       (let slots = (if slots < length tokens + 2 then slots * 2 else slots) in
        if (length sep = 1 \<and> s ! j = sep ! 0) \<or> memcmp (drop j s) sep (length sep) = 0 then
          sdssplit_loop s sep (j + length sep) (j + (length sep - 1) + 1) slots
            (tokens @ [sdsnewlen (Some (drop start s)) (j - start)])
        else sdssplit_loop s sep start (j + 1) slots tokens)
     else (tokens, start, slots))"
  by pat_completeness auto
termination by (relation "measure (\<lambda>(s, sep, start, j, slots, tokens). length s + 1 - j)") auto

declare sdssplit_loop.simps [simp del]

definition sdssplitlen :: "bytes \<Rightarrow> bytes \<Rightarrow> sds list option" where
  "sdssplitlen s sep =
    (if length sep < 1 then None
     else if length s = 0 then Some []
     else
       (let (tokens, start, slots) = sdssplit_loop s sep 0 0 5 []
        in Some (tokens @ [sdsnewlen (Some (drop start s)) (length s - start)])))"

section \<open>Quoting\<close>

definition isprint :: "u8 \<Rightarrow> bool" where
  "isprint c \<longleftrightarrow> 32 \<le> c \<and> c \<le> 126"

definition isspace :: "u8 \<Rightarrow> bool" where
  "isspace c \<longleftrightarrow> c = 32 \<or> (9 \<le> c \<and> c \<le> 13)"

text \<open>A digit of the \<open>%02x\<close> conversion.\<close>

definition hex_lower :: "nat \<Rightarrow> u8" where
  "hex_lower n = (if n < 10 then 48 + of_nat n else 87 + of_nat n)"

definition sdscat_bytes :: "sds \<Rightarrow> bytes \<Rightarrow> sds" where
  "sdscat_bytes s t = sdscatlen s t (length t)"

definition sdscatrepr_char :: "sds \<Rightarrow> u8 \<Rightarrow> sds" where
  "sdscatrepr_char s c =
    (if c = 92 \<or> c = 34 then sdscat_bytes s [92, c]
     else if c = 10 then sdscat_bytes s [92, 110]
     else if c = 13 then sdscat_bytes s [92, 114]
     else if c = 9 then sdscat_bytes s [92, 116]
     else if c = 7 then sdscat_bytes s [92, 97]
     else if c = 8 then sdscat_bytes s [92, 98]
     else if isprint c then sdscat_bytes s [c]
     else sdscat_bytes s [92, 120, hex_lower (unat c div 16), hex_lower (unat c mod 16)])"

definition sdscatrepr :: "sds \<Rightarrow> bytes \<Rightarrow> sds" where
  "sdscatrepr s p = sdscat_bytes (foldl sdscatrepr_char (sdscat_bytes s [34]) p) [34]"

definition is_hex_digit :: "u8 \<Rightarrow> bool" where
  "is_hex_digit c \<longleftrightarrow> (c \<ge> 48 \<and> c \<le> 57) \<or> (c \<ge> 97 \<and> c \<le> 102) \<or> (c \<ge> 65 \<and> c \<le> 70)"

definition hex_digit_to_int :: "u8 \<Rightarrow> nat" where
  "hex_digit_to_int c =
    (if c = 48 then 0 else if c = 49 then 1 else if c = 50 then 2 else if c = 51 then 3
     else if c = 52 then 4 else if c = 53 then 5 else if c = 54 then 6 else if c = 55 then 7
     else if c = 56 then 8 else if c = 57 then 9
     else if c = 97 \<or> c = 65 then 10 else if c = 98 \<or> c = 66 then 11
     else if c = 99 \<or> c = 67 then 12 else if c = 100 \<or> c = 68 then 13
     else if c = 101 \<or> c = 69 then 14 else if c = 102 \<or> c = 70 then 15 else 0)"

section \<open>Splitting a command line\<close>

text \<open>The C string is the list of its bytes, without the NUL: \<open>peek p i\<close> is \<open>*(p+i)\<close>.
  \<open>step\<close> is \<open>if (*p) p++\<close>.\<close>

definition peek :: "bytes \<Rightarrow> nat \<Rightarrow> u8" where
  "peek p i = (if i < length p then p ! i else 0)"

definition step :: "bytes \<Rightarrow> bytes" where
  "step p = (if peek p 0 \<noteq> 0 then drop 1 p else p)"

lemma length_step: "peek p 0 \<noteq> 0 \<Longrightarrow> length (step p) < length p"
  by (auto simp: step_def peek_def split: if_splits)

lemma length_step_drop: "peek p i \<noteq> 0 \<Longrightarrow> length (step (drop i p)) < length p"
  by (auto simp: step_def peek_def split: if_splits)

lemma length_step_le: "length (step p) \<le> length p"
  by (simp add: step_def)

lemma is_hex_digit_zero: "\<not> is_hex_digit 0"
  by (simp add: is_hex_digit_def)

definition unescape :: "u8 \<Rightarrow> u8" where
  "unescape c = (if c = 110 then 10 else if c = 114 then 13 else if c = 116 then 9
     else if c = 98 then 8 else if c = 97 then 7 else c)"

text \<open>The \<open>while (!done)\<close> loop: \<open>None\<close> is the jump to \<open>err\<close>.\<close>

function sdssplitargs_token :: "bool \<Rightarrow> bool \<Rightarrow> sds \<Rightarrow> bytes \<Rightarrow> (sds \<times> bytes) option" where
  "sdssplitargs_token inq insq current p =
    (if inq then
       (if peek p 0 = 92 \<and> peek p 1 = 120 \<and> is_hex_digit (peek p 2) \<and> is_hex_digit (peek p 3) then
          (let byte = of_nat (hex_digit_to_int (peek p 2) * 16 + hex_digit_to_int (peek p 3))
           in sdssplitargs_token inq insq (sdscat_bytes current [byte]) (step (drop 3 p)))
        else if peek p 0 = 92 \<and> peek p 1 \<noteq> 0 then
          sdssplitargs_token inq insq (sdscat_bytes current [unescape (peek p 1)]) (step (drop 1 p))
        else if peek p 0 = 34 then
          (if peek p 1 \<noteq> 0 \<and> \<not> isspace (peek p 1) then None else Some (current, step p))
        else if peek p 0 = 0 then None
        else sdssplitargs_token inq insq (sdscat_bytes current [peek p 0]) (step p))
     else if insq then
       (if peek p 0 = 92 \<and> peek p 1 = 39 then
          sdssplitargs_token inq insq (sdscat_bytes current [39]) (step (drop 1 p))
        else if peek p 0 = 39 then
          (if peek p 1 \<noteq> 0 \<and> \<not> isspace (peek p 1) then None else Some (current, step p))
        else if peek p 0 = 0 then None
        else sdssplitargs_token inq insq (sdscat_bytes current [peek p 0]) (step p))
     else if peek p 0 = 32 \<or> peek p 0 = 10 \<or> peek p 0 = 13 \<or> peek p 0 = 9 \<or> peek p 0 = 0 then
       Some (current, step p)
     else if peek p 0 = 34 then sdssplitargs_token True insq current (step p)
     else if peek p 0 = 39 then sdssplitargs_token inq True current (step p)
     else sdssplitargs_token inq insq (sdscat_bytes current [peek p 0]) (step p))"
  by pat_completeness auto

termination
  by (relation "measure (\<lambda>(inq, insq, current, p). length p)")
    (use length_step_drop [of _ 0] length_step_drop [of _ 1] length_step_drop [of _ 3] is_hex_digit_zero
      in \<open>force simp: length_step\<close>)+

declare sdssplitargs_token.simps [simp del]

text \<open>Skipping the blanks before a token.\<close>

primrec skip_blanks :: "bytes \<Rightarrow> bytes" where
  "skip_blanks [] = []"
| "skip_blanks (c # p) = (if c \<noteq> 0 \<and> isspace c then skip_blanks p else c # p)"

lemma length_skip_blanks: "length (skip_blanks p) \<le> length p"
  by (induction p) auto

lemmas token_quoted = sdssplitargs_token.simps [of True, unfolded if_True Let_def]
lemmas token_single = sdssplitargs_token.simps [of False True, unfolded if_True if_False]
lemmas token_plain = sdssplitargs_token.simps [of False False, unfolded if_False]

lemma token_length:
  assumes "sdssplitargs_token inq insq current p = Some (t, q)"
  shows "length q \<le> length p"
  using assms
proof (induction "length p" arbitrary: inq insq current p rule: less_induct)
  case less
  have sub: "length q \<le> length p"
    if "sdssplitargs_token a b c (step (drop i p)) = Some (t, q)" "peek p i \<noteq> 0" for a b c i
    using less(1) [OF length_step_drop [OF that(2)] that(1)] length_step_drop [OF that(2)] by simp
  have sub0: "length q \<le> length p"
    if "sdssplitargs_token a b c (step p) = Some (t, q)" "peek p 0 \<noteq> 0" for a b c
    using sub [of a b c 0] that by simp
  have sub1: "length q \<le> length p"
    if "sdssplitargs_token a b c (step (drop 1 p)) = Some (t, q)" "peek p 1 \<noteq> 0" for a b c
    using sub [of a b c 1] that by blast
  have sub3: "length q \<le> length p"
    if "sdssplitargs_token a b c (step (drop 3 p)) = Some (t, q)" "is_hex_digit (peek p 3)" for a b c
    using sub [of a b c 3] that is_hex_digit_zero by metis
  note subs = sub0 sub1 sub3 length_step_le [of p]
  have eq: "sdssplitargs_token inq insq current p = Some (t, q)" by (rule less(2))
  show ?case
  proof (cases inq)
    case True
    then show ?thesis
      using eq token_quoted [of insq current p] by (auto split: if_splits intro: subs)
  next
    case False
    then show ?thesis
      using eq token_single [of current p] token_plain [of current p]
      by (cases insq) (auto split: if_splits intro: subs)
  qed
qed

lemma token_consumes:
  assumes "sdssplitargs_token False False current p = Some (t, q)" "peek p 0 \<noteq> 0" "\<not> isspace (peek p 0)"
  shows "length q < length p"
  using length_step [OF assms(2)] token_plain [of current p] assms(1) assms(2,3)
  by (auto simp: isspace_def split: if_splits dest!: sym [of "Some _"] token_length)

lemma peek_skip_blanks: "peek (skip_blanks p) 0 = 0 \<or> \<not> isspace (peek (skip_blanks p) 0)"
  by (induction p) (auto simp: peek_def)

text \<open>The outer loop: \<open>vector\<close> holds the tokens so far.\<close>

function sdssplitargs_loop :: "bytes \<Rightarrow> sds list \<Rightarrow> sds list option" where
  "sdssplitargs_loop p vector =
    (let p = skip_blanks p in
     if peek p 0 \<noteq> 0 then
       (case sdssplitargs_token False False sdsempty p of
          None \<Rightarrow> None
        | Some (current, p) \<Rightarrow> sdssplitargs_loop p (vector @ [current]))
     else Some vector)"
  by pat_completeness auto

termination
proof (relation "measure (length \<circ> fst)", goal_cases)
  case (2 p vector q x t r)
  then have "length r < length (skip_blanks p)"
    using token_consumes [of sdsempty "skip_blanks p" t r] peek_skip_blanks [of p] by auto
  then show ?case using length_skip_blanks [of p] by simp
qed simp

declare sdssplitargs_loop.simps [simp del]

definition sdssplitargs :: "bytes \<Rightarrow> sds list option" where
  "sdssplitargs line = sdssplitargs_loop line []"

section \<open>Printing integers\<close>

lemma sdsll2str_digits_eq: "sdsll2str_digits v acc = acc @ rev (dec v)"
proof (induction v acc rule: sdsll2str_digits.induct)
  case (1 v acc)
  show ?case
  proof (cases "v < 10")
    case True
    then show ?thesis by (simp add: sdsll2str_digits.simps [of v] dec.simps [of v])
  next
    case False
    then show ?thesis using 1 by (simp add: sdsll2str_digits.simps [of v] dec.simps [of v] Let_def)
  qed
qed

lemma sds_reverse_eq: "sds_reverse (x @ m @ y) (length x) (length x + length m - 1) = x @ rev m @ y"
proof (induction "length m" arbitrary: x m y rule: less_induct)
  case less
  show ?case
  proof (cases "length m \<le> 1")
    case True
    then have "rev m = m" by (cases m) auto
    then show ?thesis using True by (subst sds_reverse.simps) auto
  next
    case False
    then obtain a m' c where m: "m = a # m' @ [c]"
      by (metis append_Nil append_butlast_last_id length_Cons length_butlast list.exhaust_sel list.size(3)
          One_nat_def le_numeral_extra(3,4) not_less_eq_eq zero_le)
    let ?b = "x @ (a # m' @ [c]) @ y"
    let ?p = "length x + length m - 1"
    have "?b ! length x = a" "?b ! ?p = c" by (simp_all add: m nth_append)
    moreover have "?b[length x := c, ?p := a] = (x @ [c]) @ m' @ (a # y)"
      by (simp add: m list_update_append)
    ultimately have "sds_reverse ?b (length x) ?p
        = sds_reverse ((x @ [c]) @ m' @ (a # y)) (length x + 1) (?p - 1)"
      by (subst sds_reverse.simps) (simp add: m)
    also have "\<dots> = (x @ [c]) @ rev m' @ (a # y)"
      using less [of m' "x @ [c]" "a # y"] by (simp add: m)
    finally show ?thesis by (simp add: m)
  qed
qed

lemma sdsll2str_spec: "sdsll2str v = (ll_repr v @ [0], length (ll_repr v))"
proof -
  have "sds_reverse (p @ [0]) 0 (length p - 1) = rev p @ [0]" for p
    using sds_reverse_eq [of "[]" p "[0]"] by simp
  then show ?thesis by (simp add: sdsll2str_def sdsll2str_digits_eq Let_def ll_repr_def)
qed

lemma sdsull2str_spec: "sdsull2str v = (dec v @ [0], length (dec v))"
  using sds_reverse_eq [of "[]" "rev (dec v)" "[0]"]
  by (simp add: sdsull2str_def sdsll2str_digits_eq Let_def)

section \<open>Splitting and joining are inverse\<close>

lemma memcmp_zero: "n \<le> length a \<Longrightarrow> n \<le> length b \<Longrightarrow> memcmp a b n = 0 \<longleftrightarrow> take n a = take n b"
  by (rule memcmp_spec)

text \<open>The match test of the loop, within its bounds.\<close>

lemma split_match:
  assumes "j + length sep \<le> length s" "sep \<noteq> []"
  shows "(length sep = 1 \<and> s ! j = sep ! 0) \<or> memcmp (drop j s) sep (length sep) = 0
    \<longleftrightarrow> take (length sep) (drop j s) = sep"
proof -
  have "take 1 (drop j s) = [s ! j]" if "length sep = 1"
    using that assms by (simp add: take_Suc hd_drop_conv_nth)
  moreover have "sep = [sep ! 0]" if "length sep = 1" using that by (cases sep) auto
  ultimately show ?thesis using assms memcmp_zero [of "length sep" "drop j s" sep] by auto
qed

definition contains :: "'a list \<Rightarrow> 'a list \<Rightarrow> bool" where
  "contains sep t \<longleftrightarrow> (\<exists>i. i + length sep \<le> length t \<and> take (length sep) (drop i t) = sep)"

text \<open>What the loop keeps: the tokens with the separator behind each, then the bytes
  from \<open>start\<close>, are the string; no token contains the separator; the separator does
  not occur from \<open>start\<close> to \<open>j\<close>; the array has room for the current token.\<close>

lemma sdssplit_loop_spec:
  assumes "sep \<noteq> []" "length s < 4294967296" "start \<le> j" "start \<le> length s"
    and "concat (map (\<lambda>t. sds_str t @ sep) tokens) = take start s"
    and "\<forall>t \<in> set tokens. sds_wf t \<and> \<not> contains sep (sds_str t)"
    and "\<forall>i. start \<le> i \<and> i < j \<and> i + length sep \<le> length s \<longrightarrow> take (length sep) (drop i s) \<noteq> sep"
    and "length tokens < slots"
    and "sdssplit_loop s sep start j slots tokens = (tokens', start', slots')"
  shows "concat (map (\<lambda>t. sds_str t @ sep) tokens') = take start' s \<and> start' \<le> length s
    \<and> (\<forall>t \<in> set tokens'. sds_wf t \<and> \<not> contains sep (sds_str t))
    \<and> \<not> contains sep (drop start' s) \<and> length tokens' < slots'"
  using assms
proof (induction s sep start j slots tokens rule: sdssplit_loop.induct)
  case (1 s sep start j slots tokens)
  show ?case
  proof (cases "int j < int (length s) - (int (length sep) - 1)")
    case False
    then have "tokens' = tokens" "start' = start" "slots' = slots"
      using "1.prems"(9) by (simp_all add: sdssplit_loop.simps [of s])
    moreover have "\<not> contains sep (drop start s)"
    proof
      assume "contains sep (drop start s)"
      then obtain i where i: "i + length sep \<le> length s - start" "take (length sep) (drop (start + i) s) = sep"
        by (auto simp: contains_def add.commute)
      then have "start + i < j" using False "1.prems"(4) by linarith
      then show False using "1.prems"(4,7) i by auto
    qed
    ultimately show ?thesis using "1.prems" by simp
  next
    case True
    have bound: "j + length sep \<le> length s" using True by linarith
    define slots1 where "slots1 = (if slots < length tokens + 2 then slots * 2 else slots)"
    have slots1: "length tokens + 1 < slots1" using "1.prems"(8) by (auto simp: slots1_def)
    show ?thesis
    proof (cases "take (length sep) (drop j s) = sep")
      case match: True
      define tok where "tok = sdsnewlen (Some (drop start s)) (j - start)"
      have j: "j - start + length sep - 1 = j - start + (length sep - 1)" "0 < length sep"
        using "1.prems"(1) by (cases sep; simp)+
      have jj: "Suc (j + (length sep - Suc 0)) = j + length sep" "Suc (j + length sep - Suc 0) = j + length sep"
        using j(2) by linarith+
      have tok: "sds_wf tok" "sds_str tok = take (j - start) (drop start s)"
        using "1.prems"(2,3) bound
        by (auto simp: tok_def sdsnewlen_def sds_wf_def sds_str_def nth_append)
      have length_tok: "length (take (j - start) (drop start s)) = j - start" using bound by simp
      have "\<not> contains sep (sds_str tok)"
      proof
        assume "contains sep (sds_str tok)"
        then obtain i where i: "i + length sep \<le> j - start"
          "take (length sep) (drop i (take (j - start) (drop start s))) = sep"
          using length_tok unfolding contains_def tok(2) by auto
        then have "take (length sep) (drop (start + i) s) = sep"
          by (simp add: drop_take min_def add.commute split: if_splits)
        moreover have "start + i < j" "start + i + length sep \<le> length s"
          using i(1) bound j(2) by linarith+
        ultimately show False using "1.prems"(7) le_add1 by blast
      qed
      moreover have "concat (map (\<lambda>t. sds_str t @ sep) (tokens @ [tok])) = take (j + length sep) s"
      proof -
        have "take (j + length sep) s = take j s @ sep" by (simp only: take_add match)
        moreover have "take j s = take start s @ take (j - start) (drop start s)"
          using "1.prems"(3) by (metis le_add_diff_inverse take_add)
        ultimately show ?thesis using "1.prems"(5) tok(2) by simp
      qed
      moreover have "sdssplit_loop s sep (j + length sep) (j + length sep) slots1 (tokens @ [tok])
          = (tokens', start', slots')"
        using "1.prems"(9) True split_match [OF bound "1.prems"(1)] match jj
        by (simp add: sdssplit_loop.simps [of s sep start] slots1_def tok_def Let_def)
      ultimately show ?thesis
        using "1.IH"(1) [OF True slots1_def] split_match [OF bound "1.prems"(1)] match tok "1.prems" bound slots1 jj
        by (simp add: tok_def)
    next
      case miss: False
      have nm: "\<not> ((length sep = 1 \<and> s ! j = sep ! 0) \<or> memcmp (drop j s) sep (length sep) = 0)"
        using split_match [OF bound "1.prems"(1)] miss by blast
      have eq: "sdssplit_loop s sep start (j + 1) slots1 tokens = (tokens', start', slots')"
        using "1.prems"(9) unfolding sdssplit_loop.simps [of s sep start j] if_P [OF True] Let_def if_not_P [OF nm] slots1_def .
      have no: "\<forall>i. start \<le> i \<and> i < j + 1 \<and> i + length sep \<le> length s
          \<longrightarrow> take (length sep) (drop i s) \<noteq> sep"
        using "1.prems"(7) miss by (auto simp: less_Suc_eq)
      have "start \<le> j + 1" "length tokens < slots1" using "1.prems"(3) slots1 by simp_all
      then show ?thesis
        by (intro "1.IH"(2) [OF True slots1_def nm "1.prems"(1,2) _ "1.prems"(4-6) no _ eq])
    qed
  qed
qed

lemma join_with_snoc:
  "join_with sep (map f xs @ [y]) = concat (map (\<lambda>t. f t @ sep) xs) @ y"
  by (induction xs) auto

lemma sdssplitlen_spec:
  assumes "0 < length s" "length s < 4294967296" "sep \<noteq> []"
  obtains tokens where "sdssplitlen s sep = Some tokens" "join_with sep (map sds_str tokens) = s"
    "\<forall>t \<in> set tokens. sds_wf t \<and> \<not> contains sep (sds_str t)"
proof -
  obtain tokens start slots where loop: "sdssplit_loop s sep 0 0 5 [] = (tokens, start, slots)"
    by (metis prod_cases3)
  have spec: "concat (map (\<lambda>t. sds_str t @ sep) tokens) = take start s \<and> start \<le> length s
      \<and> (\<forall>t \<in> set tokens. sds_wf t \<and> \<not> contains sep (sds_str t))
      \<and> \<not> contains sep (drop start s) \<and> length tokens < slots"
    by (rule sdssplit_loop_spec [OF assms(3,2) _ _ _ _ _ _ loop]) simp_all
  define last where "last = sdsnewlen (Some (drop start s)) (length s - start)"
  have "sds_wf last \<and> sds_str last = drop start s"
    using sdsnewlen_spec [of "drop start s"] assms(2) by (simp add: last_def)
  moreover have "sdssplitlen s sep = Some (tokens @ [last])"
    using assms(1,3) by (simp add: sdssplitlen_def loop last_def Suc_le_eq)
  ultimately show ?thesis
    using that [of "tokens @ [last]"] spec join_with_snoc [of sep sds_str tokens "sds_str last"] by simp
qed

text \<open>Splitting a string on a non-empty separator succeeds; \<open>sdsjoin\<close> on the
  tokens with the same separator gives the string back, and the split is maximal: no
  token contains the separator any more.\<close>

theorem sdssplit_join:
  assumes "0 < length s" "length s < 1073741824" "sep \<noteq> []"
  shows "case sdssplitlen s sep of None \<Rightarrow> False
    | Some tokens \<Rightarrow> sds_str (sdsjoin (map sds_str tokens) sep) = s
        \<and> (\<forall>t \<in> set tokens. sds_wf t \<and> \<not> contains sep (sds_str t))"
proof -
  have "length s < 4294967296" using assms(2) by linarith
  then obtain tokens where tokens: "sdssplitlen s sep = Some tokens" "join_with sep (map sds_str tokens) = s"
    "\<forall>t \<in> set tokens. sds_wf t \<and> \<not> contains sep (sds_str t)"
    using sdssplitlen_spec [OF assms(1) _ assms(3)] by metis
  then show ?thesis using sdsjoin_spec(1) [of sep "map sds_str tokens"] assms(2) by simp
qed

theorem sdssplit_join_witness:
  "case sdssplitlen [97, 44, 44, 98] [44] of None \<Rightarrow> False
    | Some tokens \<Rightarrow> sds_str (sdsjoin (map sds_str tokens) [44]) = [97, 44, 44, 98]
        \<and> (\<forall>t \<in> set tokens. sds_wf t \<and> \<not> contains [44] (sds_str t))"
  by (rule sdssplit_join) simp_all

section \<open>Quoting and argument splitting are inverse\<close>

text \<open>What \<open>sdscatrepr\<close> appends for a byte and for a string.\<close>

definition esc :: "u8 \<Rightarrow> bytes" where
  "esc c =
    (if c = 92 \<or> c = 34 then [92, c] else if c = 10 then [92, 110] else if c = 13 then [92, 114]
     else if c = 9 then [92, 116] else if c = 7 then [92, 97] else if c = 8 then [92, 98]
     else if isprint c then [c]
     else [92, 120, hex_lower (unat c div 16), hex_lower (unat c mod 16)])"

definition repr :: "bytes \<Rightarrow> bytes" where
  "repr p = 34 # concat (map esc p) @ [34]"

lemma length_esc: "length (esc c) \<le> 4"
  by (simp add: esc_def)

lemma sdscatrepr_char_esc: "sdscatrepr_char s c = sdscat_bytes s (esc c)"
  by (simp add: sdscatrepr_char_def esc_def)

lemma length_concat_esc: "length (concat (map esc p)) \<le> 4 * length p"
proof (induction p)
  case (Cons c p)
  then show ?case using length_esc [of c] by simp
qed simp

lemma foldl_cat_spec:
  assumes "sds_fits L s" "slen s + length (concat (map f p)) \<le> L" "L < 1073741824"
  shows "sds_fits L (foldl (\<lambda>s c. sdscat_bytes s (f c)) s p)
    \<and> sds_str (foldl (\<lambda>s c. sdscat_bytes s (f c)) s p) = sds_str s @ concat (map f p)"
  using assms
proof (induction p arbitrary: s)
  case (Cons c p)
  have "slen s + length (f c) \<le> L" using Cons.prems(2) by simp
  note cat = sds_fits_cat [OF Cons.prems(1) this Cons.prems(3), folded sdscat_bytes_def]
  have "slen (sdscat_bytes s (f c)) + length (concat (map f p)) \<le> L" using cat(3) Cons.prems(2) by simp
  then show ?case using Cons.IH [OF cat(1) _ Cons.prems(3)] cat(2) by simp
qed simp

lemma sdscatrepr_spec:
  assumes "length p < 134217728"
  shows "sds_str (sdscatrepr sdsempty p) = repr p" "sds_wf (sdscatrepr sdsempty p)"
proof -
  define L where "L = length (repr p)"
  have L: "L < 1073741824" using assms length_concat_esc [of p] by (simp add: L_def repr_def)
  have fits: "slen sdsempty + length [34 :: u8] \<le> L" by (simp add: L_def repr_def sdsempty_spec)
  note q = sds_fits_cat [OF sds_fits_empty fits L, folded sdscat_bytes_def]
  have "slen (sdscat_bytes sdsempty [34]) + length (concat (map esc p)) \<le> L"
    using q(3) by (simp add: L_def repr_def sdsempty_spec)
  note m = foldl_cat_spec [OF q(1) this L]
  define s where "s = foldl (\<lambda>s c. sdscat_bytes s (esc c)) (sdscat_bytes sdsempty [34]) p"
  have s: "sds_fits L s" "sds_str s = 34 # concat (map esc p)"
    using m q(2) by (simp_all add: s_def sdsempty_spec)
  have "slen s = length (sds_str s)" using s(1) by (simp add: sds_fits_def)
  then have "slen s + length [34 :: u8] \<le> L" using s(2) by (simp add: L_def repr_def)
  note e = sds_fits_cat [OF s(1) this L, folded sdscat_bytes_def]
  have "sdscatrepr sdsempty p = sdscat_bytes s [34]"
    by (simp add: sdscatrepr_def s_def sdscatrepr_char_esc [abs_def])
  then show "sds_str (sdscatrepr sdsempty p) = repr p" "sds_wf (sdscatrepr sdsempty p)"
    using e s(2) by (simp_all add: repr_def sds_fits_def)
qed

lemma less_16_cases:
  "(n :: nat) < 16 \<Longrightarrow> n \<in> {0, 1, 2, 3, 4, 5, 6, 7, 8, 9, 10, 11, 12, 13, 14, 15}"
proof -
  assume "n < 16"
  then have "n \<in> set [0..<16]" by simp
  then show ?thesis by (simp add: upt_rec numeral_eq_Suc)
qed

lemma hex_lower_digit:
  assumes "n < 16"
  shows "is_hex_digit (hex_lower n)" "hex_digit_to_int (hex_lower n) = n"
  using less_16_cases [OF assms]
  unfolding insert_iff empty_iff
  by (elim disjE; simp add: hex_lower_def is_hex_digit_def hex_digit_to_int_def)+

lemma hex_lower_nonzero: "n < 16 \<Longrightarrow> hex_lower n \<noteq> 0"
  using hex_lower_digit(1) is_hex_digit_zero by metis

lemma peek_Cons [simp]: "peek (c # p) 0 = c" "peek (c # p) (Suc i) = peek p i"
  "peek (c # p) 1 = peek p 0" "peek (c # p) 2 = peek p 1" "peek (c # p) 3 = peek p 2"
  by (simp_all add: peek_def numeral_eq_Suc)

lemma step_Cons: "c \<noteq> 0 \<Longrightarrow> step (c # p) = p"
  by (simp add: step_def)

lemma token_esc: "sdssplitargs_token True False s (esc c @ rest)
    = sdssplitargs_token True False (sdscat_bytes s [c]) rest"
proof -
  have plain: "esc c = (if isprint c then [c] else [92, 120, hex_lower (unat c div 16), hex_lower (unat c mod 16)])"
    if "c \<notin> {92, 34, 10, 13, 9, 7, 8}" using that by (simp add: esc_def)
  consider "c = 92 \<or> c = 34" | "c = 10" | "c = 13" | "c = 9" | "c = 7" | "c = 8"
    | "isprint c" "c \<noteq> 92" "c \<noteq> 34" "esc c = [c]"
    | "esc c = [92, 120, hex_lower (unat c div 16), hex_lower (unat c mod 16)]"
    using plain by (cases "isprint c") auto
  then show ?thesis
  proof cases
    case 8
    have u: "unat c div 16 < 16" "unat c mod 16 < 16" using unat_byte_less [of c] by auto
    have "of_nat (unat c div 16 * 16 + unat c mod 16) = c" by simp
    then show ?thesis
      using 8 hex_lower_digit [OF u(1)] hex_lower_digit [OF u(2)] hex_lower_nonzero [OF u(2)]
      by (simp add: token_quoted [of False s "92 # _"] step_Cons)
  qed (auto simp: esc_def token_quoted [of False s "_ # _"] step_Cons unescape_def isprint_def)
qed

lemma token_esc_all:
  "sdssplitargs_token True False s (concat (map esc p) @ rest)
    = sdssplitargs_token True False (foldl (\<lambda>s c. sdscat_bytes s [c]) s p) rest"
  by (induction p arbitrary: s) (simp_all add: token_esc)

lemma token_repr:
  assumes "rest = [] \<or> isspace (hd rest)"
  shows "sdssplitargs_token False False s (repr p @ rest)
    = Some (foldl (\<lambda>s c. sdscat_bytes s [c]) s p, rest)"
proof -
  have "peek rest 0 = 0 \<or> isspace (peek rest 0)" using assms by (cases rest) (auto simp: peek_def)
  then have "sdssplitargs_token True False t (34 # rest) = Some (t, rest)" for t
    by (auto simp: token_quoted [of False t "_ # _"] step_Cons)
  then show ?thesis
    by (simp add: repr_def token_plain [of s "_ # _"] step_Cons token_esc_all)
qed

lemma loop_repr:
  "sdssplitargs_loop (join_with [32] (map repr ps)) v
    = Some (v @ map (foldl (\<lambda>s c. sdscat_bytes s [c]) sdsempty) ps)"
proof (induction ps arbitrary: v)
  case Nil
  show ?case by (subst sdssplitargs_loop.simps) (simp add: peek_def)
next
  case (Cons p ps)
  define rest where "rest = (if ps = [] then [] else 32 # join_with [32] (map repr ps))"
  have skip: "skip_blanks (repr p @ rest) = repr p @ rest" "peek (repr p @ rest) 0 = 34"
    by (simp_all add: repr_def isspace_def)
  have "rest = [] \<or> isspace (hd rest)" by (simp add: rest_def isspace_def)
  note tok = token_repr [OF this, of sdsempty p]
  have blank: "sdssplitargs_loop (32 # x) u = sdssplitargs_loop x u" for x u
    using sdssplitargs_loop.simps [of "32 # x" u] sdssplitargs_loop.simps [of x u] by (simp add: isspace_def)
  have "sdssplitargs_loop rest u = sdssplitargs_loop (join_with [32] (map repr ps)) u" for u
    using blank by (simp add: rest_def)
  then have "sdssplitargs_loop (repr p @ rest) v
      = Some (v @ map (foldl (\<lambda>s c. sdscat_bytes s [c]) sdsempty) (p # ps))"
    using tok skip Cons by (simp add: sdssplitargs_loop.simps [of "repr p @ _"])
  moreover have "join_with [32] (map repr (p # ps)) = repr p @ rest" by (simp add: rest_def)
  ultimately show ?case by (simp only:)
qed

text \<open>C31: the argument splitter reads back what \<open>sdscatrepr\<close> writes: the quoted forms
  of any binary strings, separated by blanks, are split into exactly those strings.\<close>

theorem sdssplitargs_sdscatrepr:
  assumes "\<forall>p \<in> set ps. length p < 134217728"
  shows "map_option (map sds_str)
      (sdssplitargs (join_with [32] (map (\<lambda>p. sds_str (sdscatrepr sdsempty p)) ps))) = Some ps"
proof -
  have reprs: "map (\<lambda>p. sds_str (sdscatrepr sdsempty p)) ps = map repr ps"
    using assms sdscatrepr_spec(1) by (intro map_cong) auto
  have "sds_str (foldl (\<lambda>s c. sdscat_bytes s [c]) sdsempty p) = p" if "p \<in> set ps" for p
    using foldl_cat_spec [OF sds_fits_empty, of "\<lambda>c. [c]" p "length p"] that assms
    by (force simp: sdsempty_spec)
  then show ?thesis unfolding sdssplitargs_def reprs loop_repr by (simp add: map_idI)
qed

theorem sdssplitargs_sdscatrepr_witness:
  "map_option (map sds_str)
      (sdssplitargs (join_with [32] (map (\<lambda>p. sds_str (sdscatrepr sdsempty p)) [[0, 34, 255], [], [10, 97]])))
    = Some [[0, 34, 255], [], [10, 97]]"
  by (rule sdssplitargs_sdscatrepr) simp

lemma sdsfromlonglong_spec:
  assumes "is_int64 v"
  shows "length (ll_repr v) < 21" "sds_wf (sdsfromlonglong v)" "sds_str (sdsfromlonglong v) = ll_repr v"
proof -
  define n where "n = nat \<bar>v\<bar>"
  have "length (dec (nat \<bar>v\<bar>)) \<le> 19"
  proof (rule ccontr)
    assume *: "\<not> length (dec (nat \<bar>v\<bar>)) \<le> 19"
    then have "(10 :: nat) ^ 19 \<le> 10 ^ (length (dec n) - 1)" by (intro power_increasing) (auto simp: n_def)
    moreover have "n \<le> 9223372036854775808" using assms by (auto simp: int_range n_def)
    moreover have "n \<noteq> 0" using * by (intro notI) (simp add: n_def [symmetric])
    ultimately show False using length_dec_bounds [of n] by simp
  qed
  then show len: "length (ll_repr v) < 21" unfolding ll_repr_abs length_append by (cases "v < 0") simp_all
  show "sds_wf (sdsfromlonglong v)" "sds_str (sdsfromlonglong v) = ll_repr v"
    using sdsll2str_spec [of v] len
    by (simp_all add: sdsfromlonglong_def sdsnewlen_def sds_wf_def sds_str_def)
qed

text \<open>\<open>sdsll2str\<close>, and \<open>sdsfromlonglong\<close> built on it, write the canonical decimal
  form of every 64-bit integer, the minimum included, in at most the 21 bytes of the
  caller's buffer.\<close>

theorem sdsll2str_correct:
  assumes "is_int64 v"
  shows "sdsll2str v = (ll_repr v @ [0], length (ll_repr v)) \<and> length (ll_repr v) < 21
    \<and> sds_wf (sdsfromlonglong v) \<and> sds_str (sdsfromlonglong v) = ll_repr v"
  using sdsfromlonglong_spec [OF assms] sdsll2str_spec by simp

theorem sdsll2str_correct_witness:
  "sdsll2str (- 120) = ([45, 49, 50, 48, 0], 4)"
  using sdsll2str_correct [of "- 120"]
  by (simp add: int_range ll_repr_def dec.simps)

end
