(* ===== verification/Rio.thy ===== *)
theory Rio
  imports Crc64 SdsText
begin

text \<open>
  \<open>rio.c\<close>, \<open>rio.h\<close>: the stream objects the persistence code reads and writes.  A \<open>rio\<close>
  holds the functions of its backend, the running checksum and the state \<open>'d\<close> of the
  device; a C function with an in/out \<open>rio *\<close> returns the new \<open>rio\<close>.  The three backends
  are modelled: the memory buffer, the stdio file and the set of sockets.  The locale
  \<open>stream\<close> is what the callers rely on; the buffer and the file are instances of it.
\<close>

section \<open>Stream objects\<close>

record 'd rio =
  rread :: "'d \<Rightarrow> nat \<Rightarrow> bytes option \<times> 'd"
  rwrite :: "'d \<Rightarrow> bytes \<Rightarrow> bool \<times> 'd"
  rtell :: "'d \<Rightarrow> nat"
  rflush :: "'d \<Rightarrow> bool \<times> 'd"
  update_cksum :: "(64 word \<Rightarrow> bytes \<Rightarrow> 64 word) option"
  cksum :: "64 word"
  processed_bytes :: nat
  max_processing_chunk :: nat
  rio_io :: 'd

text \<open>\<open>rioGenericUpdateChecksum\<close>, the only function ever installed as \<open>update_cksum\<close>
  that changes the stream.\<close>

definition rioGenericUpdateChecksum :: "64 word \<Rightarrow> bytes \<Rightarrow> 64 word" where
  "rioGenericUpdateChecksum c buf = crc64 c buf"

definition rio_cksum :: "'d rio \<Rightarrow> bytes \<Rightarrow> 'd rio" where
  "rio_cksum r buf = (case update_cksum r of None \<Rightarrow> r | Some f \<Rightarrow> r\<lparr>cksum := f (cksum r) buf\<rparr>)"

definition rio_chunk :: "'d rio \<Rightarrow> nat \<Rightarrow> nat" where
  "rio_chunk r len =
    (if max_processing_chunk r \<noteq> 0 \<and> max_processing_chunk r < len then max_processing_chunk r else len)"

definition rio_count :: "nat \<Rightarrow> 'd rio \<Rightarrow> 'd rio" where
  "rio_count n r = r\<lparr>processed_bytes := (processed_bytes r + n) mod 18446744073709551616\<rparr>"

function rioWrite :: "'d rio \<Rightarrow> bytes \<Rightarrow> bool \<times> 'd rio" where
  "rioWrite r buf =
    (if buf = [] then (True, r)
     else
       (let n = rio_chunk r (length buf);
            r = rio_cksum r (take n buf)
        in case rwrite r (rio_io r) (take n buf) of
             (False, d) \<Rightarrow> (False, r\<lparr>rio_io := d\<rparr>)
           | (True, d) \<Rightarrow> rioWrite (rio_count n (r\<lparr>rio_io := d\<rparr>)) (drop n buf)))"
  by pat_completeness auto
termination
  by (relation "measure (\<lambda>(_, buf). length buf)") (auto simp: rio_chunk_def split: if_splits)

function rioRead :: "'d rio \<Rightarrow> nat \<Rightarrow> bytes option \<times> 'd rio" where
  "rioRead r len =
    (if len = 0 then (Some [], r)
     else
       (let n = rio_chunk r len
        in case rread r (rio_io r) n of
             (None, d) \<Rightarrow> (None, r\<lparr>rio_io := d\<rparr>)
           | (Some b, d) \<Rightarrow>
               (case rioRead (rio_count n (rio_cksum (r\<lparr>rio_io := d\<rparr>) b)) (len - n) of
                  (None, r) \<Rightarrow> (None, r)
                | (Some bs, r) \<Rightarrow> (Some (b @ bs), r))))"
  by pat_completeness auto
termination
  by (relation "measure (\<lambda>(_, len). len)") (auto simp: rio_chunk_def split: if_splits)

declare rioWrite.simps [simp del] rioRead.simps [simp del]

definition rioTell :: "'d rio \<Rightarrow> nat" where
  "rioTell r = rtell r (rio_io r)"

definition rioFlush :: "'d rio \<Rightarrow> bool \<times> 'd rio" where
  "rioFlush r = (case rflush r (rio_io r) of (ok, d) \<Rightarrow> (ok, r\<lparr>rio_io := d\<rparr>))"

section \<open>The memory buffer\<close>

record bufio =
  bptr :: sds
  bpos :: nat

definition rioBufferWrite :: "bufio \<Rightarrow> bytes \<Rightarrow> bool \<times> bufio" where
  "rioBufferWrite d buf =
    (True, d\<lparr>bptr := sdscatlen (bptr d) buf (length buf), bpos := bpos d + length buf\<rparr>)"

text \<open>The subtraction of the code is one of \<open>size_t\<close>.\<close>

definition rioBufferRead :: "bufio \<Rightarrow> nat \<Rightarrow> bytes option \<times> bufio" where
  "rioBufferRead d len =
    (if (int (slen (bptr d)) - int (bpos d)) mod 18446744073709551616 < int len then (None, d)
     else (Some (buf_get (sbuf (bptr d)) (bpos d) len), d\<lparr>bpos := bpos d + len\<rparr>))"

definition rioBufferTell :: "bufio \<Rightarrow> nat" where
  "rioBufferTell d = bpos d"

definition rioBufferFlush :: "bufio \<Rightarrow> bool \<times> bufio" where
  "rioBufferFlush d = (True, d)"

definition rioInitWithBuffer :: "sds \<Rightarrow> bufio rio" where
  "rioInitWithBuffer s =
    \<lparr>rread = rioBufferRead, rwrite = rioBufferWrite, rtell = rioBufferTell, rflush = rioBufferFlush,
     update_cksum = None, cksum = 0, processed_bytes = 0, max_processing_chunk = 0,
     rio_io = \<lparr>bptr = s, bpos = 0\<rparr>\<rparr>"

section \<open>The stdio file\<close>

text \<open>A \<open>FILE\<close> of the C library: the bytes of the stream, its position, the number of bytes
  the medium still takes (a disk may be full), and the results of the next calls of \<open>fflush\<close>
  (whether they return 0; they succeed when the list is over).  \<open>fwrite\<close> and \<open>fread\<close>
  of one item of \<open>n\<close> bytes return 1 when all of it was transferred; what could be
  transferred of a short item has been.\<close>

record cfile =
  fdata :: bytes
  fpos :: nat
  fspace :: nat
  fflushes :: "bool list"

definition fwrite :: "cfile \<Rightarrow> bytes \<Rightarrow> bool \<times> cfile" where
  "fwrite f buf =
    (let n = min (length buf) (fspace f)
     in (n = length buf \<and> buf \<noteq> [],
         f\<lparr>fdata := take (fpos f) (fdata f) @ take n buf @ drop (fpos f + n) (fdata f),
           fpos := fpos f + n, fspace := fspace f - n\<rparr>))"

definition fread :: "cfile \<Rightarrow> nat \<Rightarrow> bytes option \<times> cfile" where
  "fread f len =
    (let n = min len (length (fdata f) - fpos f)
     in (if n = len \<and> 0 < len then Some (buf_get (fdata f) (fpos f) len) else None,
         f\<lparr>fpos := fpos f + n\<rparr>))"

definition fflush :: "cfile \<Rightarrow> bool \<times> cfile" where
  "fflush f = (case fflushes f of [] \<Rightarrow> (True, f) | b # bs \<Rightarrow> (b, f\<lparr>fflushes := bs\<rparr>))"

record fileio =
  fp :: cfile
  buffered :: nat
  autosync :: nat
  fsyncs :: nat

text \<open>\<open>fsyncs\<close> counts the calls of \<open>aof_fsync\<close>, which leave the stream as it is.\<close>

definition rioFileWrite :: "fileio \<Rightarrow> bytes \<Rightarrow> bool \<times> fileio" where
  "rioFileWrite d buf =
    (case fwrite (fp d) buf of
       (retval, f) \<Rightarrow>
         (let d = d\<lparr>fp := f, buffered := buffered d + length buf\<rparr> in
          if autosync d \<noteq> 0 \<and> buffered d \<ge> autosync d
          then (retval, d\<lparr>fp := snd (fflush f), fsyncs := fsyncs d + 1, buffered := 0\<rparr>)
          else (retval, d)))"

definition rioFileRead :: "fileio \<Rightarrow> nat \<Rightarrow> bytes option \<times> fileio" where
  "rioFileRead d len = (case fread (fp d) len of (b, f) \<Rightarrow> (b, d\<lparr>fp := f\<rparr>))"

definition rioFileTell :: "fileio \<Rightarrow> nat" where
  "rioFileTell d = fpos (fp d)"

definition rioFileFlush :: "fileio \<Rightarrow> bool \<times> fileio" where
  "rioFileFlush d = (case fflush (fp d) of (ok, f) \<Rightarrow> (ok, d\<lparr>fp := f\<rparr>))"

definition rioInitWithFile :: "cfile \<Rightarrow> fileio rio" where
  "rioInitWithFile f =
    \<lparr>rread = rioFileRead, rwrite = rioFileWrite, rtell = rioFileTell, rflush = rioFileFlush,
     update_cksum = None, cksum = 0, processed_bytes = 0, max_processing_chunk = 0,
     rio_io = \<lparr>fp = f, buffered = 0, autosync = 0, fsyncs = 0\<rparr>\<rparr>"

definition rioSetAutoSync :: "fileio rio \<Rightarrow> nat \<Rightarrow> fileio rio" where
  "rioSetAutoSync r bytes = r\<lparr>rio_io := (rio_io r)\<lparr>autosync := bytes\<rparr>\<rparr>"

section \<open>The set of sockets\<close>

text \<open>A blocking socket: the bytes it has taken, and the results of the next calls of
  \<open>write\<close>, each the return value and the \<open>errno\<close> it leaves; when the script is over every
  call takes all it is given.\<close>

record socket =
  taken :: bytes
  script :: "(int \<times> nat) list"

abbreviation EWOULDBLOCK :: nat where "EWOULDBLOCK \<equiv> 11"
abbreviation ETIMEDOUT :: nat where "ETIMEDOUT \<equiv> 110"
abbreviation EIO :: nat where "EIO \<equiv> 5"

definition sock_write :: "socket \<Rightarrow> nat \<Rightarrow> bytes \<Rightarrow> int \<times> nat \<times> socket" where
  "sock_write s errno p =
    (case script s of
       [] \<Rightarrow> (int (length p), errno, s\<lparr>taken := taken s @ p\<rparr>)
     | (ret, e) # sc \<Rightarrow>
         (let ret = min ret (int (length p))
          in (ret, if ret = -1 then e else errno, \<lparr>taken = taken s @ take (nat ret) p, script = sc\<rparr>)))"

record fdset =
  fds :: "(socket \<times> nat) list"
  fpos_set :: nat
  fbuf :: sds
  errno :: nat

text \<open>The inner loop: all of \<open>p\<close> to one socket whatever the short writes; the result is
  the number of bytes not written.\<close>

function fd_write_all :: "socket \<Rightarrow> nat \<Rightarrow> bytes \<Rightarrow> nat \<times> nat \<times> socket" where
  "fd_write_all s e p =
    (if p = [] then (0, e, s)
     else
       (case sock_write s e p of
          (ret, e, s) \<Rightarrow>
            if ret \<le> 0 then (length p, if ret = -1 \<and> e = EWOULDBLOCK then ETIMEDOUT else e, s)
            else fd_write_all s e (drop (nat ret) p)))"
  by pat_completeness auto
termination by (relation "measure (\<lambda>(_, _, p). length p)") auto

declare fd_write_all.simps [simp del]

text \<open>One chunk to every socket without an error; the result counts those that were in
  error \<^emph>\<open>before\<close> the chunk.\<close>

primrec fd_chunk :: "(socket \<times> nat) list \<Rightarrow> nat \<Rightarrow> bytes \<Rightarrow> nat \<times> nat \<times> (socket \<times> nat) list" where
  "fd_chunk [] e p = (0, e, [])"
| "fd_chunk (x # xs) e p =
    (if snd x \<noteq> 0
     then (case fd_chunk xs e p of (broken, e, ys) \<Rightarrow> (broken + 1, e, x # ys))
     else
       (case fd_write_all (fst x) e p of
          (left, e, s) \<Rightarrow>
            (let st = (if left \<noteq> 0 then (if e = 0 then EIO else e) else 0) in
             case fd_chunk xs e p of (broken, e, ys) \<Rightarrow> (broken, e, (s, st) # ys))))"

function fd_loop :: "fdset \<Rightarrow> bytes \<Rightarrow> bool \<times> fdset" where
  "fd_loop d p =
    (if p = [] then (True, d)
     else
       (let count = (if length p < 1024 then length p else 1024) in
        case fd_chunk (fds d) (errno d) (take count p) of
          (broken, e, xs) \<Rightarrow>
            (let d = d\<lparr>fds := xs, errno := e\<rparr> in
             if broken = length xs then (False, d)
             else fd_loop (d\<lparr>fpos_set := fpos_set d + count\<rparr>) (drop count p))))"
  by pat_completeness auto
termination by (relation "measure (\<lambda>(_, p). length p)") auto

declare fd_loop.simps [simp del]

text \<open>\<open>None\<close> is the call with a \<open>NULL\<close> buffer and length 0, the flush.\<close>

abbreviation REDIS_IOBUF_LEN :: nat where "REDIS_IOBUF_LEN \<equiv> 16384"

definition rioFdsetWrite :: "fdset \<Rightarrow> bytes option \<Rightarrow> bool \<times> fdset" where
  "rioFdsetWrite d buf =
    (let b = (case buf of None \<Rightarrow> [] | Some b \<Rightarrow> b);
         d = (if b \<noteq> [] then d\<lparr>fbuf := sdscatlen (fbuf d) b (length b)\<rparr> else d);
         doflush = (buf = None \<or> (b \<noteq> [] \<and> slen (fbuf d) > REDIS_IOBUF_LEN))
     in if doflush then
          (case fd_loop d (take (slen (fbuf d)) (sbuf (fbuf d))) of
             (False, d) \<Rightarrow> (False, d)
           | (True, d) \<Rightarrow> (True, d\<lparr>fbuf := sdsclear (fbuf d)\<rparr>))
        else (True, d))"

definition rioFdsetRead :: "fdset \<Rightarrow> nat \<Rightarrow> bytes option \<times> fdset" where
  "rioFdsetRead d len = (None, d)"

definition rioFdsetTell :: "fdset \<Rightarrow> nat" where
  "rioFdsetTell d = fpos_set d"

definition rioFdsetFlush :: "fdset \<Rightarrow> bool \<times> fdset" where
  "rioFdsetFlush d = rioFdsetWrite d None"

definition rioInitWithFdset :: "socket list \<Rightarrow> fdset rio" where
  "rioInitWithFdset ss =
    \<lparr>rread = rioFdsetRead, rwrite = (\<lambda>d b. rioFdsetWrite d (Some b)), rtell = rioFdsetTell,
     rflush = rioFdsetFlush, update_cksum = None, cksum = 0, processed_bytes = 0,
     max_processing_chunk = 0,
     rio_io = \<lparr>fds = map (\<lambda>s. (s, 0)) ss, fpos_set = 0, fbuf = sdsempty, errno = 0\<rparr>\<rparr>"

section \<open>The protocol helpers\<close>

text \<open>Both return the number of bytes of the protocol, 0 on an error.  \<open>count\<close> is an
  \<open>int\<close>: the \<open>size_t\<close> length of a string is reduced to 32 bits.\<close>

definition rioWriteBulkCount :: "'d rio \<Rightarrow> u8 \<Rightarrow> int \<Rightarrow> nat \<times> 'd rio" where
  "rioWriteBulkCount r pfx count =
    (let cbuf = (replicate 128 0)[0 := pfx];
         (n, digits) = ll2string (drop 1 cbuf) 127 count;
         cbuf = take 1 cbuf @ digits;
         clen = 1 + n;
         cbuf = cbuf[clen := 13, clen + 1 := 10];
         clen = clen + 2
     in case rioWrite r (take clen cbuf) of
          (False, r) \<Rightarrow> (0, r)
        | (True, r) \<Rightarrow> (clen, r))"

definition rioWriteBulkString :: "'d rio \<Rightarrow> bytes \<Rightarrow> nat \<times> 'd rio" where
  "rioWriteBulkString r buf =
    (case rioWriteBulkCount r 36 (to_signed 4 (int (length buf) mod 4294967296)) of
       (nwritten, r) \<Rightarrow>
         if nwritten = 0 then (0, r)
         else
           (case (if buf \<noteq> [] then rioWrite r buf else (True, r)) of
              (False, r) \<Rightarrow> (0, r)
            | (True, r) \<Rightarrow>
                (case rioWrite r [13, 10] of
                   (False, r) \<Rightarrow> (0, r)
                 | (True, r) \<Rightarrow> (nwritten + length buf + 2, r))))"

definition rioWriteBulkLongLong :: "'d rio \<Rightarrow> int \<Rightarrow> nat \<times> 'd rio" where
  "rioWriteBulkLongLong r l =
    (case ll2string (replicate 32 0) 32 l of (llen, lbuf) \<Rightarrow> rioWriteBulkString r (take llen lbuf))"

section \<open>The running checksum\<close>

lemma rioWrite_checksum:
  assumes "update_cksum r = Some rioGenericUpdateChecksum" "rioWrite r bs = (True, r')"
  shows "cksum r' = crc64 (cksum r) bs \<and> update_cksum r' = Some rioGenericUpdateChecksum"
  using assms
proof (induction r bs arbitrary: r' rule: rioWrite.induct)
  case (1 r bs)
  show ?case
  proof (cases "bs = []")
    case True
    then show ?thesis using "1.prems" by (auto simp: rioWrite.simps crc64_def)
  next
    case False
    define n where "n = rio_chunk r (length bs)"
    define r1 where "r1 = rio_cksum r (take n bs)"
    obtain w d where w: "rwrite r1 (rio_io r1) (take n bs) = (w, d)" by (cases "rwrite r1 (rio_io r1) (take n bs)")
    have step: "rioWrite r bs = (if w then rioWrite (rio_count n (r1\<lparr>rio_io := d\<rparr>)) (drop n bs)
        else (False, r1\<lparr>rio_io := d\<rparr>))"
      using False w by (subst rioWrite.simps) (auto simp: Let_def n_def r1_def)
    have True: w using step "1.prems"(2) by (cases w) auto
    define r2 where "r2 = rio_count n (r1\<lparr>rio_io := d\<rparr>)"
    have c2: "cksum r2 = crc64 (cksum r) (take n bs)" "update_cksum r2 = Some rioGenericUpdateChecksum"
      using "1.prems"(1) by (auto simp: r2_def r1_def rio_cksum_def rio_count_def rioGenericUpdateChecksum_def [of "cksum r"])
    have "cksum r' = crc64 (cksum r2) (drop n bs) \<and> update_cksum r' = Some rioGenericUpdateChecksum"
      using "1.IH" [OF False n_def r1_def w [symmetric]] True c2 "1.prems"(2) step by (simp add: r2_def)
    then show ?thesis using c2 crc64_append [of "cksum r" "take n bs" "drop n bs"] by simp
  qed
qed

section \<open>The contract of a stream\<close>

text \<open>\<open>sent\<close> is what the device has taken, \<open>pending\<close> what it has yet to deliver.  A
  write that fails may have transferred a part of its bytes.  \<open>room\<close> is the condition
  under which the counters of the device do not overflow.\<close>

locale stream =
  fixes dread :: "'d \<Rightarrow> nat \<Rightarrow> bytes option \<times> 'd"
    and dwrite :: "'d \<Rightarrow> bytes \<Rightarrow> bool \<times> 'd"
    and good :: "'d \<Rightarrow> bool"
    and sent :: "'d \<Rightarrow> bytes"
    and pending :: "'d \<Rightarrow> bytes"
    and room :: "'d \<Rightarrow> nat \<Rightarrow> bool"
  assumes write_law: "good d \<Longrightarrow> room d (length bs) \<Longrightarrow> bs \<noteq> [] \<Longrightarrow> dwrite d bs = (ok, d') \<Longrightarrow>
      good d' \<and> (\<exists>k. sent d' = sent d @ take k bs \<and> (ok \<longrightarrow> length bs \<le> k))"
    and room_law: "good d \<Longrightarrow> room d (length bs + m) \<Longrightarrow> bs \<noteq> [] \<Longrightarrow> dwrite d bs = (True, d') \<Longrightarrow> room d' m"
    and room_le: "room d n \<Longrightarrow> m \<le> n \<Longrightarrow> room d m"
    and read_law: "good d \<Longrightarrow> 0 < n \<Longrightarrow> n \<le> length (pending d) \<Longrightarrow>
      \<exists>d'. dread d n = (Some (take n (pending d)), d') \<and> good d' \<and> pending d' = drop n (pending d)"
    and read_short: "good d \<Longrightarrow> length (pending d) < n \<Longrightarrow> fst (dread d n) = None"
begin

definition streams :: "'d rio \<Rightarrow> bool" where
  "streams r \<longleftrightarrow> rread r = dread \<and> rwrite r = dwrite \<and> good (rio_io r)"

definition written :: "'d rio \<Rightarrow> bytes" where
  "written r = sent (rio_io r)"

definition unread :: "'d rio \<Rightarrow> bytes" where
  "unread r = pending (rio_io r)"

definition has_room :: "'d rio \<Rightarrow> nat \<Rightarrow> bool" where
  "has_room r n \<longleftrightarrow> room (rio_io r) n"

lemma has_room_le: "has_room r n \<Longrightarrow> m \<le> n \<Longrightarrow> has_room r m"
  by (auto simp: has_room_def intro: room_le)

lemma streams_simps [simp]:
  "streams (rio_count n r) = streams r" "streams (rio_cksum r b) = streams r"
  "written (rio_count n r) = written r" "written (rio_cksum r b) = written r"
  "unread (rio_count n r) = unread r" "unread (rio_cksum r b) = unread r"
  "has_room (rio_count n r) m = has_room r m" "has_room (rio_cksum r b) m = has_room r m"
  by (auto simp: streams_def written_def unread_def has_room_def rio_count_def rio_cksum_def
      split: option.splits)

lemma rioWrite_spec:
  assumes "streams r" "has_room r (length bs)" "rioWrite r bs = (ok, r')"
  shows "streams r' \<and> (\<exists>k. written r' = written r @ take k bs \<and> (ok \<longrightarrow> length bs \<le> k))
    \<and> (ok \<longrightarrow> (\<forall>m. has_room r (length bs + m) \<longrightarrow> has_room r' m))"
  using assms
proof (induction r bs arbitrary: ok r' rule: rioWrite.induct)
  case (1 r bs)
  show ?case
  proof (cases "bs = []")
    case True
    then show ?thesis using "1.prems" by (auto simp: rioWrite.simps)
  next
    case False
    define n where "n = rio_chunk r (length bs)"
    define r1 where "r1 = rio_cksum r (take n bs)"
    obtain w d where w: "rwrite r1 (rio_io r1) (take n bs) = (w, d)" by (cases "rwrite r1 (rio_io r1) (take n bs)")
    have n: "0 < n" "n \<le> length bs"
      using False by (auto simp: n_def rio_chunk_def)
    have r1: "streams r1" "has_room r1 (length bs)" "written r1 = written r"
      using "1.prems" by (simp_all add: r1_def)
    have dw: "dwrite (rio_io r1) (take n bs) = (w, d)" using w r1(1) by (simp add: streams_def)
    have good1: "good (rio_io r1)" using r1(1) by (simp add: streams_def)
    have rm: "room (rio_io r1) (length (take n bs))"
      by (rule room_le [of _ "length bs"]) (use r1(2) n in \<open>simp_all add: has_room_def\<close>)
    have ne: "take n bs \<noteq> []" using n False by simp
    have lt: "length (take n bs) = n" using n by simp
    obtain k where k: "good d" "sent d = sent (rio_io r1) @ take k (take n bs)" "w \<Longrightarrow> n \<le> k"
      using write_law [OF good1 rm ne dw] unfolding lt by blast
    have step: "rioWrite r bs = (if w then rioWrite (rio_count n (r1\<lparr>rio_io := d\<rparr>)) (drop n bs)
        else (False, r1\<lparr>rio_io := d\<rparr>))"
      using False w by (subst rioWrite.simps) (auto simp: Let_def n_def r1_def)
    have s2: "streams (r1\<lparr>rio_io := d\<rparr>)" using r1(1) k(1) by (simp add: streams_def)
    show ?thesis
    proof (cases w)
      case False
      then have "r' = r1\<lparr>rio_io := d\<rparr>" "\<not> ok" using step "1.prems"(3) by auto
      moreover have "take k (take n bs) = take (min k n) bs" by (simp add: min.commute)
      ultimately show ?thesis using s2 k(2) r1(3) by (auto simp: written_def)
    next
      case True
      define r2 where "r2 = rio_count n (r1\<lparr>rio_io := d\<rparr>)"
      have run: "rioWrite r2 (drop n bs) = (ok, r')" using step True "1.prems"(3) by (simp add: r2_def)
      have W2: "written r2 = written r @ take n bs"
        using k(2) k(3) [OF True] r1(3) by (simp add: r2_def written_def rio_count_def)
      have keep: "has_room r (length bs + m) \<Longrightarrow> has_room r2 (length bs - n + m)" for m
        using room_law [OF good1 _ ne, of "length bs - n + m" d] n True dw lt
        by (simp add: r2_def has_room_def r1_def rio_cksum_def rio_count_def split: option.splits)
      have hr: "has_room r2 (length (drop n bs))"
        using keep [of 0] "1.prems"(2) by simp
      have IH: "streams r' \<and> (\<exists>k. written r' = written r2 @ take k (drop n bs) \<and> (ok \<longrightarrow> length (drop n bs) \<le> k))
        \<and> (ok \<longrightarrow> (\<forall>m. has_room r2 (length (drop n bs) + m) \<longrightarrow> has_room r' m))"
        using "1.IH" [OF False n_def r1_def w [symmetric]] True s2 hr run by (simp add: r2_def)
      then obtain k' where k': "written r' = written r2 @ take k' (drop n bs)" "ok \<longrightarrow> length (drop n bs) \<le> k'"
        by blast
      have "take n bs @ take k' (drop n bs) = take (n + k') bs" by (simp add: take_add)
      then have "\<exists>k. written r' = written r @ take k bs \<and> (ok \<longrightarrow> length bs \<le> k)"
        using k' W2 by (intro exI [of _ "n + k'"]) auto
      moreover have "ok \<longrightarrow> (\<forall>m. has_room r (length bs + m) \<longrightarrow> has_room r' m)"
        using IH keep by simp
      ultimately show ?thesis using IH by blast
    qed
  qed
qed

lemma rioRead_step:
  assumes "n \<noteq> 0" "rread r (rio_io r) (rio_chunk r n) = (Some b, d)"
  shows "rioRead r n =
    (case rioRead (rio_count (rio_chunk r n) (rio_cksum (r\<lparr>rio_io := d\<rparr>) b)) (n - rio_chunk r n) of
       (None, r) \<Rightarrow> (None, r) | (Some bs, r) \<Rightarrow> (Some (b @ bs), r))"
  using assms by (subst rioRead.simps) (simp add: Let_def)

lemma rioRead_spec:
  assumes "streams r" "n \<le> length (unread r)"
  shows "\<exists>r'. rioRead r n = (Some (take n (unread r)), r') \<and> streams r' \<and> unread r' = drop n (unread r)"
  using assms
proof (induction r n rule: rioRead.induct)
  case (1 r n)
  show ?case
  proof (cases "n = 0")
    case True
    then show ?thesis using "1.prems" by (simp add: rioRead.simps)
  next
    case False
    define c where "c = rio_chunk r n"
    have c: "0 < c" "c \<le> n" using False by (auto simp: c_def rio_chunk_def)
    have c': "c \<le> length (pending (rio_io r))" using c "1.prems"(2) by (simp add: unread_def)
    have "good (rio_io r)" using "1.prems"(1) by (simp add: streams_def)
    from read_law [OF this c(1) c'] obtain d where
      d: "rread r (rio_io r) c = (Some (take c (unread r)), d)" "good d" "pending d = drop c (unread r)"
      using "1.prems"(1) by (auto simp: streams_def unread_def)
    define r2 where "r2 = rio_count c (rio_cksum (r\<lparr>rio_io := d\<rparr>) (take c (unread r)))"
    have r2: "streams r2" "unread r2 = drop c (unread r)"
      using "1.prems"(1) d by (simp_all add: r2_def) (simp_all add: streams_def unread_def)
    have "\<exists>r'. rioRead r2 (n - c) = (Some (take (n - c) (unread r2)), r') \<and> streams r'
        \<and> unread r' = drop (n - c) (unread r2)"
      using "1.IH" [OF False c_def d(1) [symmetric] refl] r2 "1.prems"(2) c by (simp add: r2_def)
    then obtain r' where r': "rioRead r2 (n - c) = (Some (take (n - c) (unread r2)), r')" "streams r'"
      "unread r' = drop (n - c) (unread r2)" by blast
    have "rioRead r n = (Some (take c (unread r) @ take (n - c) (unread r2)), r')"
      using rioRead_step [OF False d(1) [unfolded c_def]] r'(1) by (simp add: r2_def c_def)
    moreover have "take c (unread r) @ take (n - c) (unread r2) = take n (unread r)"
      using r2(2) c(2) take_add [of c "n - c" "unread r"] by simp
    ultimately show ?thesis using r' r2(2) c(2) by simp
  qed
qed

lemma rioRead_short:
  assumes "streams r" "length (unread r) < n"
  shows "fst (rioRead r n) = None"
  using assms
proof (induction r n rule: rioRead.induct)
  case (1 r n)
  have n: "n \<noteq> 0" using "1.prems"(2) by simp
  define c where "c = rio_chunk r n"
  have c: "0 < c" "c \<le> n" using n by (auto simp: c_def rio_chunk_def)
  have g: "good (rio_io r)" "rread r = dread" using "1.prems"(1) by (simp_all add: streams_def)
  show ?case
  proof (cases "c \<le> length (unread r)")
    case False
    then have "fst (rread r (rio_io r) c) = None"
      using read_short [OF g(1)] g(2) by (simp add: unread_def)
    then show ?thesis
      using n by (subst rioRead.simps) (auto simp: c_def Let_def split: prod.splits)
  next
    case True
    then obtain d where
      d: "rread r (rio_io r) c = (Some (take c (unread r)), d)" "good d" "pending d = drop c (unread r)"
      using read_law [OF g(1) c(1)] g(2) by (auto simp: unread_def)
    define r2 where "r2 = rio_count c (rio_cksum (r\<lparr>rio_io := d\<rparr>) (take c (unread r)))"
    have r2: "streams r2" "unread r2 = drop c (unread r)"
      using "1.prems"(1) d by (simp_all add: r2_def) (simp_all add: streams_def unread_def)
    have "fst (rioRead r2 (n - c)) = None"
      using "1.IH" [OF n c_def d(1) [symmetric] refl] r2 "1.prems"(2) True c by (simp add: r2_def)
    then show ?thesis
      using rioRead_step [OF n d(1) [unfolded c_def]]
      by (cases "rioRead r2 (n - c)") (simp add: r2_def c_def)
  qed
qed

end

text \<open>A stream whose writes do not fail.\<close>

locale reliable_stream = stream +
  assumes write_ok: "good d \<Longrightarrow> room d (length bs) \<Longrightarrow> fst (dwrite d bs)"
begin

lemma rioWrite_ok: "streams r \<Longrightarrow> has_room r (length bs) \<Longrightarrow> fst (rioWrite r bs)"
proof (induction r bs rule: rioWrite.induct)
  case (1 r bs)
  show ?case
  proof (cases "bs = []")
    case True
    then show ?thesis by (simp add: rioWrite.simps)
  next
    case False
    define n where "n = rio_chunk r (length bs)"
    define r1 where "r1 = rio_cksum r (take n bs)"
    have n: "0 < n" "n \<le> length bs" using False by (auto simp: n_def rio_chunk_def)
    then have lt: "length (take n bs) = n" by simp
    have r1: "streams r1" "has_room r1 (length bs)" using "1.prems" by (simp_all add: r1_def)
    then have g: "good (rio_io r1)" "rwrite r1 = dwrite" by (simp_all add: streams_def)
    have rm: "room (rio_io r1) n" using r1(2) n room_le by (simp add: has_room_def)
    then obtain d where w: "dwrite (rio_io r1) (take n bs) = (True, d)"
      using write_ok [OF g(1), of "take n bs"] lt by (cases "dwrite (rio_io r1) (take n bs)") auto
    have ne: "take n bs \<noteq> []" using n False by simp
    have "good d" using write_law [OF g(1) _ ne w] rm lt by simp
    moreover have "room d (length bs - n)"
      using room_law [OF g(1) _ ne w, of "length bs - n"] r1(2) n lt by (simp add: has_room_def)
    ultimately have "fst (rioWrite (rio_count n (r1\<lparr>rio_io := d\<rparr>)) (drop n bs))"
      using "1.IH" [OF False n_def r1_def w [folded g(2), symmetric] refl] r1(1) by (simp add: streams_def has_room_def rio_count_def)
    then show ?thesis
      using False w g(2) by (subst rioWrite.simps) (simp add: Let_def n_def r1_def)
  qed
qed

end

section \<open>The backends keep the contract\<close>

definition BUF_MAX :: nat where "BUF_MAX = 1073741823"

definition buf_good :: "bufio \<Rightarrow> bool" where
  "buf_good d \<longleftrightarrow> sds_fits BUF_MAX (bptr d) \<and> bpos d \<le> slen (bptr d)"

definition buf_room :: "bufio \<Rightarrow> nat \<Rightarrow> bool" where
  "buf_room d n \<longleftrightarrow> slen (bptr d) + n \<le> BUF_MAX"

interpretation buf_io: reliable_stream rioBufferRead rioBufferWrite buf_good "\<lambda>d. sds_str (bptr d)"
  "\<lambda>d. drop (bpos d) (sds_str (bptr d))" buf_room
proof
  fix d bs ok d' assume d: "buf_good d" "buf_room d (length bs)" "rioBufferWrite d bs = (ok, d')"
  then have "sds_fits BUF_MAX (bptr d)" "slen (bptr d) + length bs \<le> BUF_MAX" by (simp_all add: buf_good_def buf_room_def)
  from sds_fits_cat [OF this] d show "buf_good d' \<and>
      (\<exists>k. sds_str (bptr d') = sds_str (bptr d) @ take k bs \<and> (ok \<longrightarrow> length bs \<le> k))"
    by (auto simp: rioBufferWrite_def buf_good_def BUF_MAX_def intro: exI [of _ "length bs"])
next
  fix d bs m d' assume d: "buf_good d" "buf_room d (length bs + m)" "rioBufferWrite d bs = (True, d')"
  then have "sds_fits BUF_MAX (bptr d)" "slen (bptr d) + length bs \<le> BUF_MAX" by (simp_all add: buf_good_def buf_room_def)
  from sds_fits_cat(3) [OF this] d show "buf_room d' m"
    by (auto simp: rioBufferWrite_def buf_room_def BUF_MAX_def)
next
  fix d n m assume "buf_room d n" "m \<le> n"
  then show "buf_room d m" by (simp add: buf_room_def)
next
  fix d n assume d: "buf_good d" "n \<le> length (drop (bpos d) (sds_str (bptr d)))"
  have w: "sds_wf (bptr d)" "bpos d \<le> slen (bptr d)" "slen (bptr d) < 1073741824"
    using d(1) by (auto simp: buf_good_def sds_fits_def BUF_MAX_def)
  have "(int (slen (bptr d)) - int (bpos d)) mod 18446744073709551616 = int (slen (bptr d)) - int (bpos d)"
    using w by (intro mod_pos_pos_trivial) auto
  moreover have "n \<le> slen (bptr d) - bpos d" using d(2) w(1) by simp
  ultimately show "\<exists>d'. rioBufferRead d n = (Some (take n (drop (bpos d) (sds_str (bptr d)))), d') \<and> buf_good d' \<and>
      drop (bpos d') (sds_str (bptr d')) = drop n (drop (bpos d) (sds_str (bptr d)))"
    using d w by (auto simp: rioBufferRead_def buf_good_def buf_get_def sds_str_def drop_take min_def add.commute)
next
  fix d n assume d: "buf_good d" "length (drop (bpos d) (sds_str (bptr d))) < n"
  have w: "sds_wf (bptr d)" "bpos d \<le> slen (bptr d)" "slen (bptr d) < 1073741824"
    using d(1) by (auto simp: buf_good_def sds_fits_def BUF_MAX_def)
  have "(int (slen (bptr d)) - int (bpos d)) mod 18446744073709551616 = int (slen (bptr d)) - int (bpos d)"
    using w by (intro mod_pos_pos_trivial) auto
  then show "fst (rioBufferRead d n) = None" using d w by (auto simp: rioBufferRead_def)
next
  fix d bs show "fst (rioBufferWrite d bs)" by (simp add: rioBufferWrite_def)
qed

definition file_good :: "fileio \<Rightarrow> bool" where
  "file_good d \<longleftrightarrow> fpos (fp d) \<le> length (fdata (fp d))"

lemma fflush_fields: "fdata (snd (fflush f)) = fdata f" "fpos (snd (fflush f)) = fpos f"
  by (simp_all add: fflush_def split: list.splits)

text \<open>A flush reports the result of \<open>fflush\<close> and leaves the stream where it is.\<close>

lemma rioFileFlush_spec:
  "fst (rioFileFlush d) \<longleftrightarrow> fflushes (fp d) = [] \<or> hd (fflushes (fp d))"
  "file_good (snd (rioFileFlush d)) \<longleftrightarrow> file_good d"
  "fdata (fp (snd (rioFileFlush d))) = fdata (fp d)" "fpos (fp (snd (rioFileFlush d))) = fpos (fp d)"
  by (simp_all add: rioFileFlush_def fflush_def file_good_def split: list.splits)

interpretation file_io: stream rioFileRead rioFileWrite file_good "\<lambda>d. take (fpos (fp d)) (fdata (fp d))"
  "\<lambda>d. drop (fpos (fp d)) (fdata (fp d))" "\<lambda>d n. True"
proof
  fix d bs ok d' assume d: "file_good d" "rioFileWrite d bs = (ok, d')"
  define n where "n = min (length bs) (fspace (fp d))"
  have "fdata (fp d') = take (fpos (fp d)) (fdata (fp d)) @ take n bs @ drop (fpos (fp d) + n) (fdata (fp d))"
    "fpos (fp d') = fpos (fp d) + n" "ok \<longrightarrow> n = length bs"
    using d(2) by (auto simp: rioFileWrite_def fwrite_def fflush_fields Let_def n_def split: if_splits)
  then show "file_good d' \<and> (\<exists>k. take (fpos (fp d')) (fdata (fp d')) = take (fpos (fp d)) (fdata (fp d)) @ take k bs
      \<and> (ok \<longrightarrow> length bs \<le> k))"
    using d(1) by (auto simp: file_good_def min_def n_def intro!: exI [of _ n])
next
  fix d n assume d: "file_good d" "0 < n" "n \<le> length (drop (fpos (fp d)) (fdata (fp d)))"
  then show "\<exists>d'. rioFileRead d n = (Some (take n (drop (fpos (fp d)) (fdata (fp d)))), d') \<and> file_good d' \<and>
      drop (fpos (fp d')) (fdata (fp d')) = drop n (drop (fpos (fp d)) (fdata (fp d)))"
    by (simp add: rioFileRead_def fread_def file_good_def buf_get_def add.commute)
next
  fix d n assume "file_good d" "length (drop (fpos (fp d)) (fdata (fp d))) < n"
  then show "fst (rioFileRead d n) = None"
    by (simp add: rioFileRead_def fread_def)
qed simp_all

section \<open>What the sockets have received\<close>

lemma sock_write_taken:
  "sock_write s e p = (ret, e', s') \<Longrightarrow> ret \<le> int (length p) \<and> taken s' = taken s @ take (nat ret) p"
  by (auto simp: sock_write_def Let_def split: list.splits prod.splits)

lemma fd_write_all_taken:
  "fd_write_all s e p = (left, e', s') \<Longrightarrow> left \<le> length p \<and> taken s' = taken s @ take (length p - left) p"
proof (induction s e p arbitrary: left e' s' rule: fd_write_all.induct)
  case (1 s e p)
  show ?case
  proof (cases "p = []")
    case True
    then show ?thesis using "1.prems" by (simp add: fd_write_all.simps)
  next
    case False
    obtain ret e1 s1 where w: "sock_write s e p = (ret, e1, s1)" by (metis prod_cases3)
    note tk = sock_write_taken [OF w]
    show ?thesis
    proof (cases "ret \<le> 0")
      case True
      then have "left = length p" "s' = s1" using False w "1.prems"
        by (simp_all add: fd_write_all.simps [of s e p])
      then show ?thesis using tk True by simp
    next
      case ret: False
      then have "fd_write_all s1 e1 (drop (nat ret) p) = (left, e', s')"
        using False w "1.prems" by (simp add: fd_write_all.simps [of s e p])
      from "1.IH" [OF False w [symmetric] refl ret this]
      have l: "left \<le> length p - nat ret" and
        t: "taken s' = taken s1 @ take (length p - nat ret - left) (drop (nat ret) p)"
        by simp_all
      have "take (nat ret) p @ take (length p - nat ret - left) (drop (nat ret) p) = take (length p - left) p"
      proof -
        have "nat ret + (length p - nat ret - left) = length p - left" using l tk by linarith
        then show ?thesis by (metis take_add)
      qed
      then show ?thesis using l t tk by simp
    qed
  qed
qed

text \<open>\<open>F\<close> is what has been flushed: a healthy socket has taken all of it, a broken one a
  prefix.\<close>

definition fd_received :: "bytes \<Rightarrow> socket \<times> nat \<Rightarrow> bool" where
  "fd_received F x \<longleftrightarrow> (\<exists>k. taken (fst x) = take k F) \<and> (snd x = 0 \<longrightarrow> taken (fst x) = F)"

lemma fd_received_more: "fd_received F x \<Longrightarrow> snd x \<noteq> 0 \<Longrightarrow> fd_received (F @ p) x"
proof -
  assume "fd_received F x" "snd x \<noteq> 0"
  then obtain k where "taken (fst x) = take k F" by (auto simp: fd_received_def)
  then have "taken (fst x) = take (min k (length F)) (F @ p)" by (simp add: min_def)
  then show ?thesis using \<open>snd x \<noteq> 0\<close> unfolding fd_received_def by blast
qed

lemma fd_chunk_received:
  "fd_chunk xs e p = (broken, e', ys) \<Longrightarrow> list_all (fd_received F) xs \<Longrightarrow>
    length ys = length xs \<and> list_all (fd_received (F @ p)) ys \<and>
    (broken = length xs \<longrightarrow> ys = xs) \<and> broken \<le> length xs"
proof (induction xs arbitrary: e broken e' ys)
  case (Cons x xs)
  show ?case
  proof (cases "snd x = 0")
    case False
    then obtain b zs where "fd_chunk xs e p = (b, e', zs)" "broken = b + 1" "ys = x # zs"
      using Cons.prems(1) by (auto split: prod.splits)
    then show ?thesis using Cons.IH [of e b e' zs] Cons.prems(2) False fd_received_more by auto
  next
    case True
    obtain left e1 s1 where w: "fd_write_all (fst x) e p = (left, e1, s1)" by (metis prod_cases3)
    obtain b e2 zs where c: "fd_chunk xs e1 p = (b, e2, zs)" by (metis prod_cases3)
    have y: "broken = b" "ys = (s1, if left \<noteq> 0 then (if e1 = 0 then EIO else e1) else 0) # zs"
      using Cons.prems(1) w c True by (simp_all add: Let_def)
    note tk = fd_write_all_taken [OF w]
    have "taken (fst x) = F" using Cons.prems(2) True by (simp add: fd_received_def)
    then obtain k where "taken s1 = F @ take k p" "left = 0 \<longrightarrow> taken s1 = F @ p"
      using tk by auto
    then have "taken s1 = take (length F + k) (F @ p)" "left = 0 \<longrightarrow> taken s1 = F @ p" by simp_all
    then have "fd_received (F @ p) (s1, if left \<noteq> 0 then (if e1 = 0 then EIO else e1) else 0)"
      unfolding fd_received_def fst_conv snd_conv by (metis nat.distinct(1) numeral_eq_Suc)
    then show ?thesis using Cons.IH [OF c] Cons.prems(2) y by auto
  qed
qed auto

lemma fd_loop_received:
  "fd_loop d p = (ok, d') \<Longrightarrow> list_all (fd_received F) (fds d) \<Longrightarrow>
    length (fds d') = length (fds d) \<and> fbuf d' = fbuf d \<and>
    (\<exists>k. list_all (fd_received (F @ take k p)) (fds d') \<and> fpos_set d' = fpos_set d + length (take k p) \<and>
      (ok \<longrightarrow> length p \<le> k))"
proof (induction d p arbitrary: ok d' F rule: fd_loop.induct)
  case (1 d p)
  show ?case
  proof (cases "p = []")
    case True
    then show ?thesis using "1.prems" by (simp add: fd_loop.simps)
  next
    case False
    define n where "n = (if length p < 1024 then length p else 1024)"
    have n: "n \<le> length p" by (simp add: n_def)
    obtain b e xs where c: "fd_chunk (fds d) (errno d) (take n p) = (b, e, xs)" by (metis prod_cases3)
    note rc = fd_chunk_received [OF c "1.prems"(2)]
    define d1 where "d1 = d\<lparr>fds := xs, errno := e\<rparr>"
    show ?thesis
    proof (cases "b = length xs")
      case True
      then have "ok = False" "d' = d1"
        using "1.prems"(1) False c by (simp_all add: fd_loop.simps [of d p] n_def Let_def d1_def)
      then show ?thesis using rc True "1.prems"(2) by (auto simp: d1_def intro!: exI [of _ 0])
    next
      case b: False
      define d2 where "d2 = d1\<lparr>fpos_set := fpos_set d1 + n\<rparr>"
      have "fd_loop d2 (drop n p) = (ok, d')"
        using "1.prems"(1) False c b by (simp add: fd_loop.simps [of d p] n_def Let_def d1_def d2_def)
      moreover have "list_all (fd_received (F @ take n p)) (fds d2)" using rc by (simp add: d2_def d1_def)
      ultimately have IH: "length (fds d') = length (fds d2) \<and> fbuf d' = fbuf d2 \<and>
        (\<exists>k. list_all (fd_received ((F @ take n p) @ take k (drop n p))) (fds d') \<and>
          fpos_set d' = fpos_set d2 + length (take k (drop n p)) \<and> (ok \<longrightarrow> length (drop n p) \<le> k))"
        by (rule "1.IH" [OF False n_def c [symmetric] refl d1_def b, folded d2_def])
      then obtain k where k: "list_all (fd_received ((F @ take n p) @ take k (drop n p))) (fds d')"
          "fpos_set d' = fpos_set d2 + length (take k (drop n p))" "ok \<longrightarrow> length (drop n p) \<le> k"
        by blast
      have "take n p @ take k (drop n p) = take (n + k) p" by (simp add: take_add)
      then have "list_all (fd_received (F @ take (n + k) p)) (fds d')" using k(1) by simp
      moreover have "fpos_set d' = fpos_set d + length (take (n + k) p)"
        using k(2) n by (simp add: d2_def d1_def)
      ultimately show ?thesis using IH rc k(3) by (auto simp: d2_def d1_def intro!: exI [of _ "n + k"])
    qed
  qed
qed

text \<open>The buffer of pending bytes, and the whole state after \<open>W\<close> has been written.\<close>

definition fd_buf_ok :: "sds \<Rightarrow> bool" where
  "fd_buf_ok s \<longleftrightarrow> sds_wf s \<and> slen s + sfree s \<le> BUF_MAX + SDS_MAX_PREALLOC"

lemma fd_buf_cat:
  assumes "fd_buf_ok s" "slen s + length t \<le> BUF_MAX"
  shows "fd_buf_ok (sdscatlen s t (length t))" "sds_str (sdscatlen s t (length t)) = sds_str s @ t"
    "slen (sdscatlen s t (length t)) = slen s + length t"
proof -
  have *: "sds_wf s" "sds_room s (length t)"
    using assms by (auto simp: fd_buf_ok_def sds_room_def BUF_MAX_def)
  note spec = sdscatlen_spec [OF *]
  show "sds_str (sdscatlen s t (length t)) = sds_str s @ t"
    "slen (sdscatlen s t (length t)) = slen s + length t" by (fact spec)+
  have "slen (sdscatlen s t (length t)) + sfree (sdscatlen s t (length t)) \<le> BUF_MAX + SDS_MAX_PREALLOC"
    using assms mod_less_eq_dividend [of "sfree s - length t" 4294967296]
    by (auto simp: fd_buf_ok_def sdscatlen_def sdsMakeRoomFor_def Let_def BUF_MAX_def)
  then show "fd_buf_ok (sdscatlen s t (length t))" using spec(1) by (simp add: fd_buf_ok_def)
qed

lemma fd_buf_clear:
  assumes "fd_buf_ok s"
  shows "fd_buf_ok (sdsclear s)" "sds_str (sdsclear s) = []" "slen (sdsclear s) = 0"
  using assms by (auto simp: fd_buf_ok_def sdsclear_def sds_wf_def sds_str_def BUF_MAX_def)

definition fd_stream :: "bytes \<Rightarrow> fdset \<Rightarrow> bool" where
  "fd_stream W d \<longleftrightarrow> fd_buf_ok (fbuf d) \<and> fpos_set d \<le> length W \<and>
    sds_str (fbuf d) = drop (fpos_set d) W \<and> list_all (fd_received (take (fpos_set d) W)) (fds d)"

text \<open>C30: after any successful write or flush, every socket that is not in error has
  received exactly the first \<open>pos\<close> bytes of all that was written, the rest is in the
  buffer, and a broken socket has received a prefix; a flush leaves the buffer empty.\<close>

theorem fdset_write_delivers:
  assumes "fd_stream W d" "slen (fbuf d) + length (case buf of None \<Rightarrow> [] | Some b \<Rightarrow> b) \<le> BUF_MAX"
    and "rioFdsetWrite d buf = (True, d')"
  shows "case buf of None \<Rightarrow> fd_stream W d' \<and> fpos_set d' = length W | Some b \<Rightarrow> fd_stream (W @ b) d'"
proof -
  define b where "b = (case buf of None \<Rightarrow> [] | Some b \<Rightarrow> b)"
  define d1 where "d1 = (if b \<noteq> [] then d\<lparr>fbuf := sdscatlen (fbuf d) b (length b)\<rparr> else d)"
  define doflush where "doflush \<longleftrightarrow> buf = None \<or> (b \<noteq> [] \<and> slen (fbuf d1) > REDIS_IOBUF_LEN)"
  have d: "fd_buf_ok (fbuf d)" "fpos_set d \<le> length W" "sds_str (fbuf d) = drop (fpos_set d) W"
    "list_all (fd_received (take (fpos_set d) W)) (fds d)"
    using assms(1) by (simp_all add: fd_stream_def)
  have d1: "fd_buf_ok (fbuf d1)" "sds_str (fbuf d1) = drop (fpos_set d) (W @ b)" "fds d1 = fds d" "fpos_set d1 = fpos_set d"
    using fd_buf_cat [OF d(1), of b] d(2,3) assms(2) by (auto simp: d1_def d(1) simp flip: b_def)
  have inv1: "fd_stream (W @ b) d1" using d d1 by (simp add: fd_stream_def)
  show ?thesis
  proof (cases doflush)
    case False
    then have "d' = d1" using assms(3) by (simp add: rioFdsetWrite_def Let_def flip: b_def d1_def doflush_def)
    then show ?thesis using inv1 False by (cases buf) (auto simp: b_def doflush_def)
  next
    case True
    then obtain d2 where l: "fd_loop d1 (sds_str (fbuf d1)) = (True, d2)" and d': "d' = d2\<lparr>fbuf := sdsclear (fbuf d2)\<rparr>"
      using assms(3)
      by (auto simp: rioFdsetWrite_def Let_def sds_str_def simp flip: b_def d1_def doflush_def split: prod.splits bool.splits)
    have F: "list_all (fd_received (take (fpos_set d) W)) (fds d1)" using d(4) d1(3) by simp
    obtain k where k: "list_all (fd_received (take (fpos_set d) W @ take k (sds_str (fbuf d1)))) (fds d2)"
        "fpos_set d2 = fpos_set d1 + length (take k (sds_str (fbuf d1)))"
        "length (sds_str (fbuf d1)) \<le> k" and "fbuf d2 = fbuf d1"
      using fd_loop_received [OF l F] by blast
    have "take k (sds_str (fbuf d1)) = drop (fpos_set d) (W @ b)" using k(3) d1(2) by simp
    moreover from this have eq: "take (fpos_set d) W @ take k (sds_str (fbuf d1)) = W @ b"
      using d(2) by (simp flip: append_assoc)
    ultimately have "list_all (fd_received (W @ b)) (fds d2)" "fpos_set d2 = length (W @ b)"
      using k(1) [unfolded eq] k(2) d(2) d1(4) by simp_all
    then have "fd_stream (W @ b) d' \<and> fpos_set d' = length (W @ b)"
      using fd_buf_clear [OF d1(1)] \<open>fbuf d2 = fbuf d1\<close> by (simp add: fd_stream_def d')
    then show ?thesis by (cases buf) (simp_all add: b_def)
  qed
qed

theorem fdset_write_delivers_witness:
  "\<exists>d d'. fd_stream [] d \<and> rioFdsetWrite d (Some [1, 2]) = (True, d') \<and> fd_stream [1, 2] d'"
proof -
  define d where "d = rio_io (rioInitWithFdset [\<lparr>taken = [], script = []\<rparr>])"
  have i: "fd_stream [] d"
    by (simp add: d_def rioInitWithFdset_def fd_stream_def fd_received_def fd_buf_ok_def sdsempty_spec BUF_MAX_def)
  have w: "rioFdsetWrite d (Some [1, 2]) = (True, d\<lparr>fbuf := sdscatlen (fbuf d) [1, 2] 2\<rparr>)"
    by (simp add: rioFdsetWrite_def d_def rioInitWithFdset_def sdsempty_def sdsnewlen_def sdscatlen_def sdsMakeRoomFor_def)
  have "slen (fbuf d) + length [1, 2 :: u8] \<le> BUF_MAX" by (simp add: d_def rioInitWithFdset_def sdsempty_spec BUF_MAX_def)
  then show ?thesis using fdset_write_delivers [of "[]" d "Some [1, 2]", OF i _ w] i w by auto
qed

text \<open>The write function does not keep its promise to report success only while at
  least one socket can be written: the broken sockets are counted before the chunk is
  sent, so when the only socket breaks in the last chunk the flush is reported as a
  success although no byte was delivered.\<close>

theorem fdset_flush_hides_loss:
  "\<exists>d d1 d2. d = rio_io (rioInitWithFdset [\<lparr>taken = [], script = [(- 1, 32)]\<rparr>]) \<and>
     rioFdsetWrite d (Some [1, 2, 3]) = (True, d1) \<and> rioFdsetFlush d1 = (True, d2) \<and>
     map (\<lambda>x. (taken (fst x), snd x)) (fds d2) = [([], 32)] \<and> fpos_set d2 = 3"
  by (simp add: rioFdsetFlush_def rioFdsetWrite_def rioInitWithFdset_def sdsempty_def sdsnewlen_def
      sdscatlen_def sdsMakeRoomFor_def fd_loop.simps fd_write_all.simps sock_write_def Let_def buf_put_def buf_resize_def)

primrec write_all :: "'d rio \<Rightarrow> bytes list \<Rightarrow> bool \<times> 'd rio" where
  "write_all r [] = (True, r)"
| "write_all r (b # bs) = (case rioWrite r b of (False, r) \<Rightarrow> (False, r) | (True, r) \<Rightarrow> write_all r bs)"

lemma write_all_checksum:
  "update_cksum r = Some rioGenericUpdateChecksum \<Longrightarrow> write_all r bs = (True, r') \<Longrightarrow>
    cksum r' = crc64 (cksum r) (concat bs)"
proof (induction bs arbitrary: r)
  case Nil
  then show ?case by (simp add: crc64_def)
next
  case (Cons b bs)
  then obtain r1 where "rioWrite r b = (True, r1)" "write_all r1 bs = (True, r')"
    by (auto split: prod.splits bool.splits)
  then show ?case using rioWrite_checksum [of r b r1] Cons.IH [of r1] Cons.prems(1) by (simp add: crc64_append)
qed

text \<open>However the writes are cut into chunks, on a stream that checksums its data the
  running checksum after any sequence of successful writes is the CRC-64 of everything
  written, on every backend.\<close>

theorem rio_checksum_of_writes:
  assumes "update_cksum r = Some rioGenericUpdateChecksum" "write_all r bs = (True, r')"
  shows "cksum r' = crc64 (cksum r) (concat bs)"
  by (rule write_all_checksum [OF assms])

theorem rio_checksum_of_writes_witness:
  "\<exists>(r :: bufio rio) r'. update_cksum r = Some rioGenericUpdateChecksum \<and> write_all r [[1], [2, 3]] = (True, r') \<and>
     cksum r' = crc64 0 [1, 2, 3]"
proof -
  define r where "r = (rioInitWithBuffer sdsempty)\<lparr>update_cksum := Some rioGenericUpdateChecksum\<rparr>"
  have u: "update_cksum r = Some rioGenericUpdateChecksum" "cksum r = 0"
    by (simp_all add: r_def rioInitWithBuffer_def)
  have "fst (write_all r [[1], [2, 3]])"
    by (simp add: r_def rioInitWithBuffer_def rioWrite.simps rio_chunk_def rio_cksum_def rio_count_def
        rioBufferWrite_def Let_def)
  then obtain r' where w: "write_all r [[1], [2, 3]] = (True, r')" by (cases "write_all r [[1], [2, 3]]") simp
  have "cksum r' = crc64 0 [1, 2, 3]" using rio_checksum_of_writes [OF u(1) w] u(2) by simp
  then show ?thesis using u(1) w by blast
qed

end
