(* ===== verification/Lzf.thy ===== *)
theory Lzf
  imports Prelude
begin

text \<open>
  \<open>lzf_c.c\<close> and \<open>lzf_d.c\<close>: the LZF compressor used for strings in the RDB file, in the
  configuration of \<open>lzfP.h\<close> that the server builds (\<open>HLOG\<close> 16, \<open>VERY_FAST\<close>,
  \<open>INIT_HTAB\<close> 0, \<open>CHECK_INPUT\<close>).  The output pointer is the length of the bytes
  written so far, so \<open>op++\<close> over a byte still to be filled appends a placeholder and
  \<open>op[-lit-1] = x\<close> is an update of the list.  The hash table is uninitialised in the
  code; the model takes its contents as an argument, an arbitrary function from slots to
  pointers (as offsets from \<open>in_data\<close>), and the round trip is proved for every one.
  Writing beyond the \<open>alloc\<close> bytes the caller allocated, reading beyond the input and
  reading outside the output of the decompressor are error values.
\<close>

section \<open>The compressor\<close>

datatype lzf_error = Incompressible | WriteOverflow | InputOverread | OutputUnderread | E2BIG | EINVAL

definition FRST :: "bytes \<Rightarrow> nat \<Rightarrow> 32 word" where
  "FRST d p = or (push_bit 8 (ucast (d ! p))) (ucast (d ! (p + 1)))"

definition NEXT :: "32 word \<Rightarrow> bytes \<Rightarrow> nat \<Rightarrow> 32 word" where
  "NEXT v d p = or (push_bit 8 v) (ucast (d ! (p + 2)))"

definition IDX :: "32 word \<Rightarrow> nat" where
  "IDX h = unat (and (drop_bit 8 h - h * 5) 65535)"

abbreviation MAX_LIT :: nat where "MAX_LIT \<equiv> 32"
abbreviation MAX_OFF :: int where "MAX_OFF \<equiv> 8192"
abbreviation MAX_REF :: nat where "MAX_REF \<equiv> 264"

text \<open>\<open>*op++ = b\<close> and \<open>op[-lit-1] = lit-1\<close>.\<close>

definition lzf_put :: "nat \<Rightarrow> bytes \<Rightarrow> u8 \<Rightarrow> lzf_error + bytes" where
  "lzf_put alloc out b = (if length out < alloc then Inr (out @ [b]) else Inl WriteOverflow)"

definition lzf_stop_run :: "nat \<Rightarrow> nat \<Rightarrow> bytes \<Rightarrow> lzf_error + bytes" where
  "lzf_stop_run alloc lit out =
    (let i = length out - lit - 1 in
     if i < alloc then Inr (out[i := word_of_int (int lit - 1)]) else Inl WriteOverflow)"

text \<open>The unrolled comparisons: \<open>len++; if (ref[len] != ip[len]) break;\<close> at most \<open>k\<close>
  times; the flag says whether a comparison failed.\<close>

primrec match_unrolled :: "bytes \<Rightarrow> nat \<Rightarrow> nat \<Rightarrow> nat \<Rightarrow> nat \<Rightarrow> nat \<times> bool" where
  "match_unrolled d ref ip len 0 = (len, False)"
| "match_unrolled d ref ip len (Suc k) =
    (if d ! (ref + Suc len) \<noteq> d ! (ip + Suc len) then (Suc len, True)
     else match_unrolled d ref ip (Suc len) k)"

text \<open>\<open>do len++; while (len < maxlen && ref[len] == ip[len]);\<close>\<close>

function match_tail :: "bytes \<Rightarrow> nat \<Rightarrow> nat \<Rightarrow> nat \<Rightarrow> nat \<Rightarrow> nat" where
  "match_tail d ref ip maxlen len =
    (if Suc len < maxlen \<and> d ! (ref + Suc len) = d ! (ip + Suc len)
     then match_tail d ref ip maxlen (Suc len) else Suc len)"
  by pat_completeness auto
termination by (relation "measure (\<lambda>(d, ref, ip, maxlen, len). maxlen - len)") auto

declare match_tail.simps [simp del]

definition match_len :: "bytes \<Rightarrow> nat \<Rightarrow> nat \<Rightarrow> nat \<Rightarrow> nat" where
  "match_len d ref ip maxlen =
    (if 16 < maxlen then
       (case match_unrolled d ref ip 2 16 of
          (len, True) \<Rightarrow> len
        | (len, False) \<Rightarrow> match_tail d ref ip maxlen len)
     else match_tail d ref ip maxlen 2)"

text \<open>The condition under which the code takes a back reference.  \<open>off\<close> is an unsigned
  pointer difference, so a negative one fails the test against \<open>MAX_OFF\<close>.\<close>

definition lzf_match :: "bytes \<Rightarrow> nat \<Rightarrow> int \<Rightarrow> bool" where
  "lzf_match d ip ref \<longleftrightarrow>
    (let off = int ip - ref - 1 in
     0 \<le> off \<and> off < MAX_OFF \<and> ip + 4 < length d \<and> ref > 0 \<and>
     d ! nat ref = d ! ip \<and> d ! (nat ref + 1) = d ! (ip + 1) \<and> d ! (nat ref + 2) = d ! (ip + 2))"

text \<open>The two or three bytes of a back reference (\<open>len\<close> already decremented by 2).\<close>

definition lzf_put_ref :: "nat \<Rightarrow> bytes \<Rightarrow> nat \<Rightarrow> nat \<Rightarrow> lzf_error + bytes" where
  "lzf_put_ref alloc out off len =
    sbind (if len < 7 then lzf_put alloc out (of_nat (off div 256 + len * 32))
           else sbind (lzf_put alloc out (of_nat (off div 256 + 7 * 32)))
             (\<lambda>out. lzf_put alloc out (of_nat (len - 7))))
      (\<lambda>out. lzf_put alloc out (of_nat off))"

lemma match_tail_gt: "len < match_tail d ref ip maxlen len"
proof (induction d ref ip maxlen len rule: match_tail.induct)
  case (1 d ref ip maxlen len)
  then show ?case by (subst match_tail.simps) (auto intro: less_trans)
qed

lemma match_unrolled_ge: "len \<le> fst (match_unrolled d ref ip len k)"
  by (induction k arbitrary: len) (auto dest: Suc_leD)

lemma match_len_ge: "2 \<le> match_len d ref ip maxlen"
  using match_unrolled_ge [of 2 d ref ip 16] match_tail_gt [of 2 d ref ip maxlen]
    match_tail_gt [of "fst (match_unrolled d ref ip 2 16)" d ref ip maxlen]
  by (auto simp: match_len_def split: prod.splits bool.splits)

text \<open>One round of the main loop, from the variables \<open>ip\<close>, \<open>hval\<close>, \<open>htab\<close>, \<open>lit\<close> and
  the output: the branch that emits a back reference (with the \<open>break\<close> when fewer than
  three bytes are left) and the branch that copies a literal.\<close>

datatype lzf_next = Break nat nat bytes | Continue nat "32 word" "nat \<Rightarrow> int" nat bytes

definition lzf_after_ref :: "bytes \<Rightarrow> (nat \<Rightarrow> int) \<Rightarrow> nat \<Rightarrow> bytes \<Rightarrow> lzf_next" where
  "lzf_after_ref d htab ip out =
    (if ip + 2 \<ge> length d then Break ip 0 out
     else
       (let hval = NEXT (FRST d (ip - 2)) d (ip - 2);
            htab = htab(IDX hval := int (ip - 2));
            hval = NEXT hval d (ip - 1);
            htab = htab(IDX hval := int (ip - 1))
        in Continue ip hval htab 0 out))"

definition lzf_ref_step :: "bytes \<Rightarrow> nat \<Rightarrow> nat \<Rightarrow> nat \<Rightarrow> int \<Rightarrow> (nat \<Rightarrow> int) \<Rightarrow> nat \<Rightarrow> bytes
    \<Rightarrow> lzf_error + lzf_next" where
  "lzf_ref_step d out_len alloc ip ref htab lit out =
    (let off = nat (int ip - ref - 1);
         maxlen = min (length d - ip - 2) MAX_REF
     in sbind (lzf_stop_run alloc lit out) (\<lambda>out.
        let out = (if lit = 0 then butlast out else out) in
        if length out + 3 + 1 \<ge> out_len then Inl Incompressible
        else
          (let len = match_len d (nat ref) ip maxlen - 2;
               ip = ip + 1
           in sbind (lzf_put_ref alloc out off len) (\<lambda>out.
                Inr (lzf_after_ref d htab (ip + (len + 1)) (out @ [0]))))))"

definition lzf_lit_step :: "bytes \<Rightarrow> nat \<Rightarrow> nat \<Rightarrow> nat \<Rightarrow> 32 word \<Rightarrow> (nat \<Rightarrow> int) \<Rightarrow> nat \<Rightarrow> bytes
    \<Rightarrow> lzf_error + lzf_next" where
  "lzf_lit_step d out_len alloc ip hval htab lit out =
    (if length out \<ge> out_len then Inl Incompressible
     else
       sbind (lzf_put alloc out (d ! ip)) (\<lambda>out.
         let lit = lit + 1; ip = ip + 1 in
         if lit = MAX_LIT then
           sbind (lzf_stop_run alloc lit out) (\<lambda>out. Inr (Continue ip hval htab 0 (out @ [0])))
         else Inr (Continue ip hval htab lit out)))"

definition lzf_step :: "bytes \<Rightarrow> nat \<Rightarrow> nat \<Rightarrow> nat \<Rightarrow> 32 word \<Rightarrow> (nat \<Rightarrow> int) \<Rightarrow> nat \<Rightarrow> bytes
    \<Rightarrow> lzf_error + lzf_next" where
  "lzf_step d out_len alloc ip hval htab lit out =
    (let hval = NEXT hval d ip;
         ref = htab (IDX hval);
         htab = htab(IDX hval := int ip)
     in if lzf_match d ip ref then lzf_ref_step d out_len alloc ip ref htab lit out
        else lzf_lit_step d out_len alloc ip hval htab lit out)"

lemma lzf_ref_stepE:
  assumes "lzf_ref_step d n alloc ip ref htab lit out = Inr r"
  obtains out1 out2 out3 len where "lzf_stop_run alloc lit out = Inr out1"
    "out2 = (if lit = 0 then butlast out1 else out1)" "length out2 + 4 < n"
    "len = match_len d (nat ref) ip (min (length d - ip - 2) MAX_REF)"
    "lzf_put_ref alloc out2 (nat (int ip - ref - 1)) (len - 2) = Inr out3"
    "r = lzf_after_ref d htab (ip + len) (out3 @ [0])"
proof -
  define len where "len = match_len d (nat ref) ip (min (length d - ip - 2) MAX_REF)"
  have len: "ip + 1 + (len - 2 + 1) = ip + len" using match_len_ge [of d "nat ref" ip "min (length d - ip - 2) MAX_REF"]
    unfolding len_def by linarith
  obtain out1 where 1: "lzf_stop_run alloc lit out = Inr out1"
    using assms by (auto simp: lzf_ref_step_def Let_def sbind_Inr_iff)
  define out2 where "out2 = (if lit = 0 then butlast out1 else out1)"
  have b: "length out2 + 4 < n"
    using assms unfolding lzf_ref_step_def Let_def 1 sbind_simps out2_def [symmetric]
    by (simp split: if_split_asm)
  obtain out3 where "lzf_put_ref alloc out2 (nat (int ip - ref - 1)) (len - 2) = Inr out3"
    "r = lzf_after_ref d htab (ip + len) (out3 @ [0])"
    using assms b
    unfolding lzf_ref_step_def Let_def 1 sbind_simps out2_def [symmetric] len_def [symmetric] len
    by (auto simp: sbind_Inr_iff)
  then show ?thesis using that 1 out2_def b len_def by blast
qed

lemma lzf_lit_stepE:
  assumes "lzf_lit_step d n alloc ip hval htab lit out = Inr r"
  obtains out1 out2 where "length out < n" "lzf_put alloc out (d ! ip) = Inr out1"
    "lit + 1 = MAX_LIT" "lzf_stop_run alloc (lit + 1) out1 = Inr out2"
    "r = Continue (ip + 1) hval htab 0 (out2 @ [0])"
  | out1 where "length out < n" "lzf_put alloc out (d ! ip) = Inr out1"
    "lit + 1 \<noteq> MAX_LIT" "r = Continue (ip + 1) hval htab (lit + 1) out1"
proof -
  obtain out1 where 1: "length out < n" "lzf_put alloc out (d ! ip) = Inr out1"
    using assms by (cases "length out < n") (auto simp: lzf_lit_step_def sbind_Inr_iff)
  show ?thesis
  proof (cases "lit + 1 = MAX_LIT")
    case True
    then obtain out2 where "lzf_stop_run alloc (lit + 1) out1 = Inr out2"
      "r = Continue (ip + 1) hval htab 0 (out2 @ [0])"
      using assms 1 unfolding lzf_lit_step_def Let_def by (auto simp: sbind_Inr_iff)
    then show ?thesis using that(1) 1 True by blast
  next
    case False
    then have "r = Continue (ip + 1) hval htab (lit + 1) out1"
      using assms 1 unfolding lzf_lit_step_def Let_def by simp
    then show ?thesis using that(2) 1 False by blast
  qed
qed

lemma lzf_after_ref_cases:
  obtains "lzf_after_ref d htab ip out = Break ip 0 out"
  | hval' htab' where "ip + 2 < length d" "lzf_after_ref d htab ip out = Continue ip hval' htab' 0 out"
proof (cases "ip + 2 \<ge> length d")
  case True
  then show ?thesis using that(1) by (simp add: lzf_after_ref_def)
next
  case False
  then have "\<exists>hval' htab'. lzf_after_ref d htab ip out = Continue ip hval' htab' 0 out"
    unfolding lzf_after_ref_def Let_def by (simp only: if_False) (intro exI, rule refl)
  with False show ?thesis using that(2) by auto
qed

lemma lzf_ref_step_progress:
  assumes "lzf_ref_step d n alloc ip ref htab lit out = Inr (Continue ip' hval' htab' lit' out')"
  shows "ip < ip'"
proof -
  obtain o3 len where "2 \<le> len" "lzf_after_ref d htab (ip + len) o3 = Continue ip' hval' htab' lit' out'"
    using assms by (elim lzf_ref_stepE) (metis match_len_ge)
  then show ?thesis by (cases rule: lzf_after_ref_cases [of d htab "ip + len" o3]) auto
qed

lemma lzf_lit_step_progress:
  assumes "lzf_lit_step d n alloc ip hval htab lit out = Inr (Continue ip' hval' htab' lit' out')"
  shows "ip < ip'"
  using assms by (elim lzf_lit_stepE) simp_all

lemma lzf_step_progress:
  "lzf_step d n alloc ip hval htab lit out = Inr (Continue ip' hval' htab' lit' out') \<Longrightarrow> ip < ip'"
  unfolding lzf_step_def Let_def
  by (auto split: if_split_asm dest: lzf_ref_step_progress lzf_lit_step_progress)

text \<open>The main loop: the position, the length of the open literal run and the output.\<close>

function lzf_loop :: "bytes \<Rightarrow> nat \<Rightarrow> nat \<Rightarrow> nat \<Rightarrow> 32 word \<Rightarrow> (nat \<Rightarrow> int) \<Rightarrow> nat \<Rightarrow> bytes
    \<Rightarrow> lzf_error + (nat \<times> nat \<times> bytes)" where
  "lzf_loop d out_len alloc ip hval htab lit out =
    (if ip + 2 < length d then
       (case lzf_step d out_len alloc ip hval htab lit out of
          Inl e \<Rightarrow> Inl e
        | Inr (Break ip lit out) \<Rightarrow> Inr (ip, lit, out)
        | Inr (Continue ip hval htab lit out) \<Rightarrow> lzf_loop d out_len alloc ip hval htab lit out)
     else Inr (ip, lit, out))"
  by pat_completeness auto
termination
  by (relation "measure (\<lambda>(d, _, _, ip, _). length d - ip)") (auto dest!: lzf_step_progress)

declare lzf_loop.simps [simp del]

text \<open>The last bytes, copied as literals.\<close>

function lzf_tail :: "bytes \<Rightarrow> nat \<Rightarrow> nat \<Rightarrow> nat \<Rightarrow> bytes \<Rightarrow> lzf_error + (nat \<times> bytes)" where
  "lzf_tail d alloc ip lit out =
    (if ip < length d then
       sbind (lzf_put alloc out (d ! ip)) (\<lambda>out.
         if lit + 1 = MAX_LIT then
           sbind (lzf_stop_run alloc (lit + 1) out) (\<lambda>out. lzf_tail d alloc (ip + 1) 0 (out @ [0]))
         else lzf_tail d alloc (ip + 1) (lit + 1) out)
     else Inr (lit, out))"
  by pat_completeness auto
termination by (relation "measure (\<lambda>(d, _, ip, _). length d - ip)") auto

declare lzf_tail.simps [simp del]

text \<open>\<open>Inl Incompressible\<close> is the \<open>return 0\<close> of the code; \<open>Inr c\<close> is the output, whose
  length the code returns.  \<open>FRST(ip)\<close> reads two bytes before any test of the length.\<close>

definition lzf_compress :: "(nat \<Rightarrow> int) \<Rightarrow> bytes \<Rightarrow> nat \<Rightarrow> nat \<Rightarrow> lzf_error + bytes" where
  "lzf_compress htab d out_len alloc =
    (if length d = 0 \<or> out_len = 0 then Inl Incompressible
     else if length d < 2 then Inl InputOverread
     else
       sbind (lzf_loop d out_len alloc 0 (FRST d 0) htab 0 [0]) (\<lambda>(ip, lit, out).
         if length out + 3 > out_len then Inl Incompressible
         else
           sbind (lzf_tail d alloc ip lit out) (\<lambda>(lit, out).
             sbind (lzf_stop_run alloc lit out) (\<lambda>out.
               Inr (if lit = 0 then butlast out else out)))))"

section \<open>The decompressor\<close>

text \<open>Every access is checked: \<open>*ip\<close> against the end of the input, \<open>*op++ = b\<close> against the end
  of the output, \<open>*ref\<close> against what has been written, the bytes from \<open>out_data\<close> to \<open>op\<close>.\<close>

definition lzf_byte :: "bytes \<Rightarrow> lzf_error + (u8 \<times> bytes)" where
  "lzf_byte ip = (case ip of [] \<Rightarrow> Inl InputOverread | b # ip \<Rightarrow> Inr (b, ip))"

definition lzf_out :: "nat \<Rightarrow> bytes \<Rightarrow> u8 \<Rightarrow> lzf_error + bytes" where
  "lzf_out out_len out b = (if length out < out_len then Inr (out @ [b]) else Inl WriteOverflow)"

text \<open>\<open>*op++ = *ip++\<close>, \<open>n\<close> times.\<close>

primrec copy_lit :: "nat \<Rightarrow> nat \<Rightarrow> bytes \<Rightarrow> bytes \<Rightarrow> lzf_error + (bytes \<times> bytes)" where
  "copy_lit out_len 0 ip out = Inr (ip, out)"
| "copy_lit out_len (Suc n) ip out =
    sbind (lzf_byte ip) (\<lambda>(b, ip). sbind (lzf_out out_len out b) (\<lambda>out. copy_lit out_len n ip out))"

text \<open>\<open>*op++ = *ref++\<close>, \<open>n\<close> times; the source may overlap what is being written.\<close>

primrec copy_ref :: "nat \<Rightarrow> int \<Rightarrow> nat \<Rightarrow> bytes \<Rightarrow> lzf_error + bytes" where
  "copy_ref out_len ref 0 out = Inr out"
| "copy_ref out_len ref (Suc n) out =
    (if 0 \<le> ref \<and> ref < int (length out)
     then sbind (lzf_out out_len out (out ! nat ref)) (\<lambda>out. copy_ref out_len (ref + 1) n out)
     else Inl OutputUnderread)"

text \<open>One round of the decoding loop on the remaining input and the output so far.\<close>

definition lzf_dstep :: "nat \<Rightarrow> bytes \<Rightarrow> bytes \<Rightarrow> lzf_error + (bytes \<times> bytes)" where
  "lzf_dstep out_len inp out =
    sbind (lzf_byte inp) (\<lambda>(c, ip).
       let ctrl = unat c in
       if ctrl < 32 then
         (let ctrl = ctrl + 1 in
          if length out + ctrl > out_len then Inl E2BIG
          else if ctrl > length ip then Inl EINVAL
          else copy_lit out_len ctrl ip out)
       else
         (let len = ctrl div 32;
              ref = int (length out) - int (ctrl mod 32) * 256 - 1
          in if ip = [] then Inl EINVAL
             else
               sbind (if len = 7
                      then sbind (lzf_byte ip) (\<lambda>(b, ip). if ip = [] then Inl EINVAL else Inr (len + unat b, ip))
                      else Inr (len, ip)) (\<lambda>(len, ip).
               sbind (lzf_byte ip) (\<lambda>(b, ip).
                 let ref = ref - int (unat b) in
                 if length out + len + 2 > out_len then Inl E2BIG
                 else if ref < 0 then Inl EINVAL
                 else sbind (copy_ref out_len ref (len + 2) out) (\<lambda>out. Inr (ip, out))))))"

text \<open>Behind the tests of the code the copies are plain: the round without the checks.\<close>

primrec fill_ref :: "nat \<Rightarrow> nat \<Rightarrow> bytes \<Rightarrow> bytes" where
  "fill_ref ref 0 out = out"
| "fill_ref ref (Suc n) out = fill_ref (Suc ref) n (out @ [out ! ref])"

lemma copy_lit_ok:
  "n \<le> length ip \<Longrightarrow> length out + n \<le> out_len \<Longrightarrow> copy_lit out_len n ip out = Inr (drop n ip, out @ take n ip)"
proof (induction n arbitrary: ip out)
  case (Suc n)
  then show ?case by (cases ip) (simp_all add: lzf_byte_def lzf_out_def)
qed simp

lemma copy_ref_ok:
  "ref < length out \<Longrightarrow> length out + n \<le> out_len \<Longrightarrow> copy_ref out_len (int ref) n out = Inr (fill_ref ref n out)"
proof (induction n arbitrary: ref out)
  case (Suc n)
  then show ?case using Suc.IH [of "Suc ref" "out @ [out ! ref]"] by (simp add: lzf_out_def add.commute)
qed simp

lemma copy_ref_guarded:
  "(if length out + len + 2 > out_len then Inl E2BIG
    else if int (length out) - int a * 256 - 1 - int b < 0 then Inl EINVAL
    else sbind (copy_ref out_len (int (length out) - int a * 256 - 1 - int b) (len + 2) out) (\<lambda>out. Inr (ip, out))) =
   (if length out + len + 2 > out_len then Inl E2BIG
    else if int (length out) - int a * 256 - 1 - int b < 0 then Inl EINVAL
    else Inr (ip, fill_ref (nat (int (length out) - int a * 256 - 1 - int b)) (len + 2) out))"
proof -
  let ?r = "int (length out) - int a * 256 - 1 - int b"
  have "copy_ref out_len ?r (len + 2) out = Inr (fill_ref (nat ?r) (len + 2) out)"
    if "\<not> length out + len + 2 > out_len" "\<not> ?r < 0"
  proof -
    have "int (nat ?r) = ?r" "nat ?r < length out" using that(2) by linarith+
    then show ?thesis using copy_ref_ok [of "nat ?r" out "len + 2" out_len] that(1) by simp
  qed
  then show ?thesis
    by (cases "length out + len + 2 > out_len"; cases "?r < 0") (simp_all only: sbind_simps if_True if_False simp_thms)
qed

lemma lzf_dstep_eq:
  "lzf_dstep out_len inp out =
    (case inp of [] \<Rightarrow> Inl InputOverread
     | c # ip \<Rightarrow>
       (let ctrl = unat c in
        if ctrl < 32 then
          (let ctrl = ctrl + 1 in
           if length out + ctrl > out_len then Inl E2BIG
           else if ctrl > length ip then Inl EINVAL
           else Inr (drop ctrl ip, out @ take ctrl ip))
        else
          (let len = ctrl div 32;
               ref = int (length out) - int (ctrl mod 32) * 256 - 1
           in if ip = [] then Inl EINVAL
              else
                sbind (if len = 7
                       then (if tl ip = [] then Inl EINVAL else Inr (len + unat (hd ip), tl ip))
                       else Inr (len, ip)) (\<lambda>(len, ip).
                  let ref = ref - int (unat (hd ip)); ip = tl ip in
                  if length out + len + 2 > out_len then Inl E2BIG
                  else if ref < 0 then Inl EINVAL
                  else Inr (ip, fill_ref (nat ref) (len + 2) out)))))"
proof (cases inp)
  case (Cons c ip)
  show ?thesis
  proof (cases "unat c < 32")
    case True
    then show ?thesis using Cons copy_lit_ok [of "unat c + 1" ip out out_len]
      by (simp add: lzf_dstep_def lzf_byte_def Let_def)
  next
    case False
    then show ?thesis using Cons
      by (cases "unat c div 32 = 7"; cases ip; cases "tl ip")
        (simp_all only: lzf_dstep_def lzf_byte_def Let_def copy_ref_guarded sbind_simps
          prod.case list.case list.sel if_True if_False list.distinct simp_thms)
  qed
qed (simp add: lzf_dstep_def lzf_byte_def)

lemma lzf_dstep_shorter: "lzf_dstep n inp out = Inr (ip, out') \<Longrightarrow> length ip < length inp"
  by (cases inp) (auto simp: lzf_dstep_eq Let_def sbind_Inr_iff split: if_splits)

function lzf_dloop :: "nat \<Rightarrow> bytes \<Rightarrow> bytes \<Rightarrow> lzf_error + bytes" where
  "lzf_dloop out_len inp out =
    (if inp = [] then Inr out
     else sbind (lzf_dstep out_len inp out) (\<lambda>(ip, out). lzf_dloop out_len ip out))"
  by pat_completeness auto
termination
  by (relation "measure (\<lambda>(_, inp, _). length inp)") (auto dest: lzf_dstep_shorter)

declare lzf_dloop.simps [simp del]

text \<open>The code's \<open>do ... while\<close>: the first round is run even on an empty input.\<close>

definition lzf_decompress :: "bytes \<Rightarrow> nat \<Rightarrow> lzf_error + bytes" where
  "lzf_decompress inp out_len =
    sbind (lzf_dstep out_len inp []) (\<lambda>(ip, out). lzf_dloop out_len ip out)"


section \<open>Decoding what was encoded\<close>

lemma fill_ref_take:
  assumes "ref < p" "p + n \<le> length d" "\<forall>j < n. d ! (ref + j) = d ! (p + j)"
  shows "fill_ref ref n (take p d) = take (p + n) d"
  using assms
proof (induction n arbitrary: ref p)
  case (Suc n)
  from Suc.prems have "take p d ! ref = d ! p" by auto
  moreover from this Suc.prems(2) have "take p d @ [take p d ! ref] = take (Suc p) d"
    by (simp add: take_Suc_conv_app_nth)
  moreover have "\<forall>j < n. d ! (Suc ref + j) = d ! (Suc p + j)" using Suc.prems(3) by auto
  ultimately show ?case using Suc.IH [of "Suc ref" "Suc p"] Suc.prems by simp
qed simp

lemma match_unrolled_spec:
  assumes "match_unrolled d ref ip len k = (l, broke)" "\<forall>j \<le> len. d ! (ref + j) = d ! (ip + j)"
  shows "l \<le> len + k \<and> (\<forall>j < l. d ! (ref + j) = d ! (ip + j)) \<and> len \<le> l \<and> (broke \<longrightarrow> len < l) \<and>
    (\<not> broke \<longrightarrow> l = len + k \<and> d ! (ref + l) = d ! (ip + l))"
  using assms
proof (induction k arbitrary: len)
  case (Suc k)
  show ?case
  proof (cases "d ! (ref + Suc len) = d ! (ip + Suc len)")
    case False
    then show ?thesis using Suc.prems by auto
  next
    case True
    then have "\<forall>j \<le> Suc len. d ! (ref + j) = d ! (ip + j)" using Suc.prems(2) by (auto simp: le_Suc_eq)
    then show ?thesis using Suc.IH [of "Suc len"] Suc.prems(1) True by auto
  qed
qed auto

lemma match_tail_spec:
  assumes "\<forall>j \<le> len. d ! (ref + j) = d ! (ip + j)"
  shows "(\<forall>j < match_tail d ref ip maxlen len. d ! (ref + j) = d ! (ip + j)) \<and>
    match_tail d ref ip maxlen len \<le> max maxlen (Suc len)"
  using assms
proof (induction d ref ip maxlen len rule: match_tail.induct)
  case (1 d ref ip maxlen len)
  show ?case
  proof (cases "Suc len < maxlen \<and> d ! (ref + Suc len) = d ! (ip + Suc len)")
    case True
    then have "\<forall>j \<le> Suc len. d ! (ref + j) = d ! (ip + j)" using "1.prems" by (auto simp: le_Suc_eq)
    then show ?thesis using "1.IH" True by (subst (1 2) match_tail.simps) auto
  next
    case False
    then show ?thesis using "1.prems" by (subst (1 2) match_tail.simps) auto
  qed
qed

lemma match_len_spec:
  assumes "\<forall>j \<le> 2. d ! (ref + j) = d ! (ip + j)" "3 \<le> maxlen" "maxlen + 2 \<le> length d - ip" "maxlen \<le> MAX_REF"
  defines "l \<equiv> match_len d ref ip maxlen"
  shows "3 \<le> l \<and> l \<le> MAX_REF \<and> l \<le> length d - ip \<and> (\<forall>j < l. d ! (ref + j) = d ! (ip + j))"
proof (cases "16 < maxlen")
  case False
  then have "l = match_tail d ref ip maxlen 2" by (simp add: l_def match_len_def)
  then show ?thesis
    using match_tail_spec [OF assms(1), of maxlen] match_tail_gt [of 2 d ref ip maxlen] assms(2-4) by auto
next
  case True
  obtain m broke where m: "match_unrolled d ref ip 2 16 = (m, broke)" by (cases "match_unrolled d ref ip 2 16")
  note u = match_unrolled_spec [OF m assms(1)]
  show ?thesis
  proof (cases broke)
    case b: True
    then have "l = m" using True m by (simp add: l_def match_len_def)
    then show ?thesis using u b True assms(3,4) by auto
  next
    case b: False
    then have l: "l = match_tail d ref ip maxlen m" using True m by (simp add: l_def match_len_def)
    have "\<forall>j \<le> m. d ! (ref + j) = d ! (ip + j)" using u b by (auto simp: le_less)
    from match_tail_spec [OF this, of maxlen] show ?thesis
      using l u b True assms(2-4) match_tail_gt [of m d ref ip maxlen] by auto
  qed
qed

definition ref_bytes :: "nat \<Rightarrow> nat \<Rightarrow> bytes" where
  "ref_bytes off l =
    (if l < 7 then [of_nat (off div 256 + l * 32)] else [of_nat (off div 256 + 7 * 32), of_nat (l - 7)])
      @ [of_nat off]"

lemma lzf_put_ref_bytes:
  "lzf_put_ref alloc out off l = Inr out' \<Longrightarrow> out' = out @ ref_bytes off l"
  by (auto simp: lzf_put_ref_def ref_bytes_def lzf_put_def sbind_Inr_iff split: if_splits)

lemma unat_of_nat_byte: "n < 256 \<Longrightarrow> unat (of_nat n :: u8) = n"
  by (simp add: unat_of_nat)

lemma lzf_dstep_ref:
  assumes "off < 8192" "0 < l" "l \<le> 262" "off < length out" "length out + l + 2 \<le> n"
  shows "lzf_dstep n (ref_bytes off l @ rest) out = Inr (rest, fill_ref (length out - off - 1) (l + 2) out)"
proof -
  have h: "off div 256 < 32" using assms(1) by auto
  then have dm: "(off div 256 + k * 32) div 32 = k" "(off div 256 + k * 32) mod 32 = off div 256" for k
    by simp_all
  have "unat (of_nat off :: u8) = off mod 256" by (simp add: unat_of_nat)
  then have o: "int (unat (of_nat off :: u8)) = int (off mod 256)" by (rule arg_cong)
  have r: "nat (int (length out) - int (off div 256) * 256 - 1 - int (off mod 256)) = length out - off - 1"
    and r0: "\<not> int (length out) - int (off div 256) * 256 - 1 - int (off mod 256) < 0"
    using assms(4) div_mult_mod_eq [of off 256] by linarith+
  show ?thesis
  proof (cases "l < 7")
    case True
    then have "unat (of_nat (off div 256 + l * 32) :: u8) = off div 256 + l * 32"
      using h by (intro unat_of_nat_byte) linarith
    then show ?thesis using True h o r r0 assms(2,5)
      by (simp add: ref_bytes_def lzf_dstep_eq Let_def del: of_nat_add of_nat_mult fill_ref.simps)
  next
    case False
    then have "unat (of_nat (off div 256 + 7 * 32) :: u8) = off div 256 + 7 * 32"
      "unat (of_nat (l - 7) :: u8) = l - 7"
      using h assms(3) by (intro unat_of_nat_byte; linarith)+
    then show ?thesis using False h o r r0 assms(5) dm [of 7]
      by (simp add: ref_bytes_def lzf_dstep_eq Let_def del: of_nat_add of_nat_mult of_nat_diff fill_ref.simps)
  qed
qed

lemma lzf_dstep_lit:
  assumes "lits \<noteq> []" "length lits \<le> 32" "length out + length lits \<le> n"
  shows "lzf_dstep n (word_of_int (int (length lits) - 1) # lits @ rest) out = Inr (rest, out @ lits)"
proof -
  have "unat (word_of_int (int (length lits) - 1) :: u8) = length lits - 1"
    using assms(1,2) unat_of_nat_byte [of "length lits - 1"]
    by (cases lits) simp_all
  then show ?thesis using assms by (cases lits) (simp_all add: lzf_dstep_eq Let_def)
qed

lemma lzf_dstep_append:
  assumes "lzf_dstep n a out = Inr (ip, out')"
  shows "lzf_dstep n (a @ b) out = Inr (ip @ b, out')"
proof (cases a)
  case Nil
  then show ?thesis using assms by (simp add: lzf_dstep_eq)
next
  case (Cons c cs)
  show ?thesis
  proof (cases "unat c < 32")
    case True
    then show ?thesis using assms Cons by (auto simp: lzf_dstep_eq Let_def split: if_split_asm)
  next
    case False
    then obtain d ds where "cs = d # ds" using assms Cons
      by (cases cs) (auto simp: lzf_dstep_eq Let_def)
    then show ?thesis using assms Cons False
      by (cases ds) (auto simp: lzf_dstep_eq Let_def split: if_split_asm)
  qed
qed

lemma lzf_dloop_Nil [simp]: "lzf_dloop n [] out = Inr out"
  by (simp add: lzf_dloop.simps)

lemma lzf_dloop_append:
  "lzf_dloop n a out = Inr out' \<Longrightarrow> lzf_dloop n (a @ b) out = lzf_dloop n b out'"
proof (induction n a out rule: lzf_dloop.induct)
  case (1 n a out)
  show ?case
  proof (cases "a = []")
    case True
    then show ?thesis using "1.prems" by simp
  next
    case False
    then obtain ip o1 where s: "lzf_dstep n a out = Inr (ip, o1)" "lzf_dloop n ip o1 = Inr out'"
      using "1.prems" by (subst (asm) lzf_dloop.simps) (auto simp: sbind_Inr_iff)
    then have "lzf_dloop n (ip @ b) o1 = lzf_dloop n b out'" using "1.IH" False by blast
    then show ?thesis using lzf_dstep_append [OF s(1), of b] False
      by (subst lzf_dloop.simps) simp
  qed
qed

lemma lzf_dloop_snoc:
  assumes "lzf_dloop n a out = Inr o1" "b \<noteq> []" "lzf_dstep n (b @ []) o1 = Inr ([], o2)"
  shows "lzf_dloop n (a @ b) out = Inr o2"
  using assms by (subst lzf_dloop_append [OF assms(1)], subst lzf_dloop.simps) simp


section \<open>The round trip\<close>

text \<open>The shape of the output between rounds: complete tokens that decode to the bytes
  before the open run, the placeholder of the run's header, and the literals of the run.\<close>

definition lzf_inv :: "bytes \<Rightarrow> nat \<Rightarrow> nat \<Rightarrow> bytes \<Rightarrow> bool" where
  "lzf_inv d ip lit out \<longleftrightarrow> lit \<le> ip \<and> ip \<le> length d \<and> lit \<le> MAX_LIT \<and>
    (\<exists>toks h. out = toks @ [h] @ take lit (drop (ip - lit) d) \<and>
      lzf_dloop (length d) toks [] = Inr (take (ip - lit) d))"

lemma lzf_inv_open:
  "lzf_dloop (length d) toks [] = Inr (take ip d) \<Longrightarrow> ip \<le> length d \<Longrightarrow> lzf_inv d ip 0 (toks @ [h])"
  by (auto simp: lzf_inv_def)

lemma lzf_inv_put:
  assumes "lzf_inv d ip lit out" "lit < MAX_LIT" "ip < length d" "lzf_put alloc out (d ! ip) = Inr out'"
  shows "lzf_inv d (ip + 1) (lit + 1) out'"
proof -
  have "take (Suc lit) (drop (ip - lit) d) = take lit (drop (ip - lit) d) @ [d ! ip]"
    using assms(1,3) by (simp add: take_Suc_conv_app_nth lzf_inv_def)
  then show ?thesis using assms by (auto simp: lzf_inv_def lzf_put_def split: if_splits)
qed

text \<open>Closing a run (\<open>op[-lit-1] = lit-1; op -= !lit\<close>) leaves complete tokens only.\<close>

lemma lzf_inv_close:
  assumes "lzf_inv d ip lit out" "lzf_stop_run alloc lit out = Inr o1"
  shows "lzf_dloop (length d) (if lit = 0 then butlast o1 else o1) [] = Inr (take ip d)"
proof -
  obtain toks h where out: "out = toks @ [h] @ take lit (drop (ip - lit) d)"
    and toks: "lzf_dloop (length d) toks [] = Inr (take (ip - lit) d)"
    and le: "lit \<le> ip" "ip \<le> length d" "lit \<le> MAX_LIT"
    using assms(1) by (auto simp: lzf_inv_def)
  define lits where "lits = take lit (drop (ip - lit) d)"
  have len: "length lits = lit" using le by (simp add: lits_def)
  have o1: "o1 = toks @ word_of_int (int lit - 1) # lits"
    using assms(2) len unfolding out lits_def [symmetric]
    by (auto simp: lzf_stop_run_def Let_def list_update_append split: if_splits)
  show ?thesis
  proof (cases "lit = 0")
    case True
    then show ?thesis using o1 len toks by simp
  next
    case False
    then have "lits \<noteq> []" using len by auto
    have whole: "take (ip - lit) d @ lits = take ip d"
      using le by (metis lits_def le_add_diff_inverse2 take_add)
    have "lzf_dstep (length d) ((word_of_int (int lit - 1) # lits) @ []) (take (ip - lit) d) =
        Inr ([], take ip d)"
      using lzf_dstep_lit [OF \<open>lits \<noteq> []\<close>, of "take (ip - lit) d" "length d" "[]"] le len
      by (simp add: whole)
    from lzf_dloop_snoc [OF toks _ this] show ?thesis using o1 False by simp
  qed
qed

lemma lzf_inv_ref:
  assumes "lzf_dloop (length d) toks [] = Inr (take ip d)" "lzf_match d ip ref" "ip + 2 < length d"
    and "len = match_len d (nat ref) ip (min (length d - ip - 2) MAX_REF)"
    and "lzf_put_ref alloc toks (nat (int ip - ref - 1)) (len - 2) = Inr out3"
  shows "lzf_inv d (ip + len) 0 (out3 @ [0])"
proof -
  define off where "off = nat (int ip - ref - 1)"
  from assms(2) have m: "ref > 0" "int ip - ref - 1 \<ge> 0" "int ip - ref - 1 < MAX_OFF" "ip + 4 < length d"
    "d ! nat ref = d ! ip" "d ! (nat ref + 1) = d ! (ip + 1)" "d ! (nat ref + 2) = d ! (ip + 2)"
    by (auto simp: lzf_match_def Let_def)
  have off: "off < 8192" "off < ip" "ip - off - 1 = nat ref" using m(1-3) by (auto simp: off_def)
  have "\<forall>j \<le> 2. d ! (nat ref + j) = d ! (ip + j)"
    using m(5-7) by (auto simp: le_Suc_eq numeral_2_eq_2)
  then have l: "3 \<le> len" "len \<le> MAX_REF" "len \<le> length d - ip" "\<forall>j < len. d ! (nat ref + j) = d ! (ip + j)"
    using match_len_spec [of d "nat ref" ip "min (length d - ip - 2) MAX_REF"] assms(4) m(4) by auto
  have o3: "out3 = toks @ ref_bytes off (len - 2)"
    using lzf_put_ref_bytes [OF assms(5)] by (simp add: off_def)
  have "lzf_dstep (length d) (ref_bytes off (len - 2) @ []) (take ip d) =
      Inr ([], fill_ref (length (take ip d) - off - 1) (len - 2 + 2) (take ip d))"
    by (rule lzf_dstep_ref) (use off l assms(3) in auto)
  also have "fill_ref (length (take ip d) - off - 1) (len - 2 + 2) (take ip d) = take (ip + len) d"
  proof -
    have "length (take ip d) - off - 1 = nat ref" "len - 2 + 2 = len" "nat ref < ip"
      using off l assms(3) by auto
    then show ?thesis using fill_ref_take [of "nat ref" ip len d] l assms(3) by simp
  qed
  finally have "lzf_dloop (length d) (toks @ ref_bytes off (len - 2)) [] = Inr (take (ip + len) d)"
    by (intro lzf_dloop_snoc [OF assms(1)]) (auto simp: ref_bytes_def)
  from lzf_inv_open [OF this] show ?thesis using l assms(3) by (simp add: o3)
qed

lemma lzf_step_inv:
  assumes "lzf_inv d ip lit out" "lit < MAX_LIT" "ip + 2 < length d"
    and "lzf_step d n alloc ip hval htab lit out = Inr r"
  shows "case r of Break ip' lit' out' \<Rightarrow> lzf_inv d ip' lit' out' \<and> lit' < MAX_LIT
    | Continue ip' hval' htab' lit' out' \<Rightarrow> lzf_inv d ip' lit' out' \<and> lit' < MAX_LIT"
proof -
  let ?h = "NEXT hval d ip"
  let ?ref = "htab (IDX ?h)" and ?tab = "htab(IDX ?h := int ip)"
  show ?thesis
  proof (cases "lzf_match d ip ?ref")
    case True
    then have "lzf_ref_step d n alloc ip ?ref ?tab lit out = Inr r"
      using assms(4) by (simp add: lzf_step_def Let_def)
    then show ?thesis
    proof (cases rule: lzf_ref_stepE)
      case (1 out1 out2 out3 len)
      have "lzf_inv d (ip + len) 0 (out3 @ [0])"
        using lzf_inv_close [OF assms(1) 1(1)] 1(2,4,5) True assms(3) by (intro lzf_inv_ref) auto
      then show ?thesis unfolding 1(6)
        by (cases rule: lzf_after_ref_cases [of d ?tab "ip + len" "out3 @ [0]"]) simp_all
    qed
  next
    case False
    then have "lzf_lit_step d n alloc ip ?h ?tab lit out = Inr r"
      using assms(4) by (simp add: lzf_step_def Let_def)
    then show ?thesis
    proof (cases rule: lzf_lit_stepE)
      case (1 out1 out2)
      have put: "lzf_inv d (ip + 1) (lit + 1) out1" using lzf_inv_put [OF assms(1,2) _ 1(2)] assms(3) by simp
      have "lzf_dloop (length d) out2 [] = Inr (take (ip + 1) d)" using lzf_inv_close [OF put 1(4)] by simp
      then have "lzf_inv d (ip + 1) 0 (out2 @ [0])" using assms(3) by (intro lzf_inv_open) auto
      then show ?thesis by (simp add: 1(5))
    next
      case (2 out1)
      have "lzf_inv d (ip + 1) (lit + 1) out1" using lzf_inv_put [OF assms(1,2) _ 2(2)] assms(3) by simp
      then show ?thesis using 2(3) assms(2) by (simp add: 2(4))
    qed
  qed
qed

lemma lzf_loop_inv:
  assumes "lzf_loop d n alloc ip hval htab lit out = Inr (ip', lit', out')"
    and "lzf_inv d ip lit out" "lit < MAX_LIT"
  shows "lzf_inv d ip' lit' out' \<and> lit' < MAX_LIT"
  using assms
proof (induction d n alloc ip hval htab lit out rule: lzf_loop.induct)
  case (1 d n alloc ip hval htab lit out)
  show ?case
  proof (cases "ip + 2 < length d")
    case False
    then show ?thesis using "1.prems" by (subst (asm) lzf_loop.simps) simp
  next
    case True
    show ?thesis
    proof (cases "lzf_step d n alloc ip hval htab lit out")
      case (Inl e)
      then show ?thesis using "1.prems"(1) True by (subst (asm) lzf_loop.simps) simp
    next
      case (Inr r)
      note inv = lzf_step_inv [OF "1.prems"(2,3) True Inr]
      show ?thesis
      proof (cases r)
        case (Break i l o')
        then show ?thesis using "1.prems"(1) True Inr inv by (subst (asm) lzf_loop.simps) simp
      next
        case (Continue i h t l o')
        then have "lzf_loop d n alloc i h t l o' = Inr (ip', lit', out')"
          using "1.prems"(1) True Inr by (subst (asm) lzf_loop.simps) simp
        then show ?thesis using "1.IH" [OF True Inr Continue] inv Continue by simp
      qed
    qed
  qed
qed

lemma lzf_tail_inv:
  assumes "lzf_tail d alloc ip lit out = Inr (lit', out')" "lzf_inv d ip lit out" "lit < MAX_LIT"
  shows "lzf_inv d (length d) lit' out' \<and> lit' < MAX_LIT"
  using assms
proof (induction d alloc ip lit out rule: lzf_tail.induct)
  case (1 d alloc ip lit out)
  show ?case
  proof (cases "ip < length d")
    case False
    then have "ip = length d" using "1.prems"(2) by (simp add: lzf_inv_def)
    then show ?thesis using "1.prems" by (subst (asm) lzf_tail.simps) simp
  next
    case True
    then obtain o1 where o1: "lzf_put alloc out (d ! ip) = Inr o1"
      using "1.prems"(1) by (subst (asm) lzf_tail.simps) (auto simp: sbind_Inr_iff)
    have put: "lzf_inv d (ip + 1) (lit + 1) o1" using lzf_inv_put [OF "1.prems"(2,3) True o1] .
    show ?thesis
    proof (cases "lit + 1 = MAX_LIT")
      case l: True
      then obtain o2 where o2: "lzf_stop_run alloc (lit + 1) o1 = Inr o2"
        "lzf_tail d alloc (ip + 1) 0 (o2 @ [0]) = Inr (lit', out')"
        using "1.prems"(1) True o1 by (subst (asm) lzf_tail.simps) (auto simp: sbind_Inr_iff)
      have "lzf_inv d (ip + 1) 0 (o2 @ [0])"
        using lzf_inv_close [OF put o2(1)] True by (intro lzf_inv_open) auto
      then show ?thesis using "1.IH"(1) [OF True o1 l o2(1,2)] by simp
    next
      case l: False
      then have "lzf_tail d alloc (ip + 1) (lit + 1) o1 = Inr (lit', out')"
        using "1.prems"(1) True o1 by (subst (asm) lzf_tail.simps) simp
      then show ?thesis using "1.IH"(2) [OF True o1 l] put l "1.prems"(3) by simp
    qed
  qed
qed

lemma lzf_roundtrip:
  assumes "lzf_compress htab d out_len alloc = Inr c"
  shows "lzf_decompress c (length d) = Inr d"
proof -
  have len: "2 \<le> length d" using assms by (auto simp: lzf_compress_def split: if_splits)
  obtain ip lit out lit' o1 o2 where run:
    "lzf_loop d out_len alloc 0 (FRST d 0) htab 0 [0] = Inr (ip, lit, out)"
    "lzf_tail d alloc ip lit out = Inr (lit', o1)" "lzf_stop_run alloc lit' o1 = Inr o2"
    "c = (if lit' = 0 then butlast o2 else o2)"
    using assms by (auto simp: lzf_compress_def sbind_Inr_iff split: if_splits prod.splits)
  have "lzf_inv d 0 0 [0]" using lzf_inv_open [of d "[]" 0 0] by simp
  then have "lzf_inv d (length d) lit' o1"
    using lzf_loop_inv [OF run(1)] lzf_tail_inv [OF run(2)] by simp
  from lzf_inv_close [OF this run(3)] have "lzf_dloop (length d) c [] = Inr d" by (simp add: run(4))
  moreover from this have "c \<noteq> []" using len by auto
  ultimately show ?thesis
    by (subst (asm) lzf_dloop.simps) (simp add: lzf_decompress_def)
qed


section \<open>Memory safety\<close>

definition lzf_safe :: "nat \<Rightarrow> nat \<Rightarrow> bytes \<Rightarrow> bool" where
  "lzf_safe n lit out \<longleftrightarrow> lit + 1 \<le> length out \<and> length out \<le> n + 1"

lemma lzf_stop_run_safe:
  assumes "length out \<le> alloc" "lit + 1 \<le> length out"
  shows "\<exists>o1. lzf_stop_run alloc lit out = Inr o1 \<and> length o1 = length out"
proof -
  have "length out - lit - 1 < alloc" using assms by linarith
  then show ?thesis by (simp add: lzf_stop_run_def Let_def)
qed

lemma lzf_put_ref_safe:
  assumes "length out + 3 \<le> alloc"
  shows "\<exists>o1. lzf_put_ref alloc out off len = Inr o1 \<and> length out < length o1 \<and> length o1 \<le> length out + 3"
  using assms by (auto simp: lzf_put_ref_def lzf_put_def)

lemma lzf_step_safe:
  assumes "lzf_safe n lit out" "alloc = n + 1"
  shows "case lzf_step d n alloc ip hval htab lit out of
      Inl e \<Rightarrow> e = Incompressible
    | Inr (Break ip' lit' out') \<Rightarrow> lzf_safe n lit' out' \<and> length d \<le> ip' + 2
    | Inr (Continue ip' hval' htab' lit' out') \<Rightarrow> lzf_safe n lit' out'"
proof -
  let ?h = "NEXT hval d ip"
  let ?ref = "htab (IDX ?h)" and ?tab = "htab(IDX ?h := int ip)"
  obtain o1 where o1: "lzf_stop_run alloc lit out = Inr o1" "length o1 = length out"
  proof -
    have "length out \<le> alloc" "lit + 1 \<le> length out" using assms unfolding lzf_safe_def by linarith+
    from lzf_stop_run_safe [OF this] that show ?thesis by blast
  qed
  define o2 where "o2 = (if lit = 0 then butlast o1 else o1)"
  define len where "len = match_len d (nat ?ref) ip (min (length d - ip - 2) MAX_REF)"
  have len: "ip + 1 + (len - 2 + 1) = ip + len"
    using match_len_ge [of d "nat ?ref" ip "min (length d - ip - 2) MAX_REF"] unfolding len_def by linarith
  show ?thesis
  proof (cases "lzf_match d ip ?ref")
    case True
    show ?thesis
    proof (cases "length o2 + 3 + 1 \<ge> n")
      case full: True
      then have "lzf_step d n alloc ip hval htab lit out = Inl Incompressible"
        using True unfolding lzf_step_def lzf_ref_step_def Let_def o1(1) sbind_simps o2_def [symmetric] by simp
      then show ?thesis by simp
    next
      case fits: False
      then obtain o3 where o3: "lzf_put_ref alloc o2 (nat (int ip - ?ref - 1)) (len - 2) = Inr o3"
        "length o2 < length o3" "length o3 \<le> length o2 + 3"
        using lzf_put_ref_safe [of o2 alloc "nat (int ip - ?ref - 1)" "len - 2"] assms(2) by auto
      have "lzf_step d n alloc ip hval htab lit out = Inr (lzf_after_ref d ?tab (ip + len) (o3 @ [0]))"
        using True fits o3(1) unfolding lzf_step_def lzf_ref_step_def Let_def o1(1) sbind_simps
          o2_def [symmetric] len_def [symmetric] len by simp
      moreover have "lzf_safe n 0 (o3 @ [0])" using o3 fits by (simp add: lzf_safe_def)
      ultimately show ?thesis
        by (cases "length d \<le> ip + len + 2") (simp_all add: lzf_after_ref_def Let_def)
    qed
  next
    case False
    then have step: "lzf_step d n alloc ip hval htab lit out = lzf_lit_step d n alloc ip ?h ?tab lit out"
      by (simp add: lzf_step_def Let_def)
    show ?thesis
    proof (cases "length out \<ge> n")
      case True
      then show ?thesis by (simp add: step lzf_lit_step_def)
    next
      case fits: False
      then obtain o4 where "lzf_stop_run alloc (lit + 1) (out @ [d ! ip]) = Inr o4" "length o4 = length out + 1"
        using lzf_stop_run_safe [of "out @ [d ! ip]" alloc "lit + 1"] assms by (auto simp: lzf_safe_def)
      then show ?thesis unfolding step using fits assms
        by (auto simp: lzf_lit_step_def lzf_put_def lzf_safe_def)
    qed
  qed
qed

lemma lzf_loop_safe:
  assumes "lzf_safe n lit out" "alloc = n + 1"
  shows "case lzf_loop d n alloc ip hval htab lit out of
      Inl e \<Rightarrow> e = Incompressible
    | Inr (ip', lit', out') \<Rightarrow> lzf_safe n lit' out' \<and> length d \<le> ip' + 2"
  using assms
proof (induction d n alloc ip hval htab lit out rule: lzf_loop.induct)
  case (1 d n alloc ip hval htab lit out)
  show ?case
  proof (cases "ip + 2 < length d")
    case False
    then show ?thesis using "1.prems" by (subst lzf_loop.simps) simp
  next
    case True
    note safe = lzf_step_safe [OF "1.prems", of d ip hval htab]
    show ?thesis
    proof (cases "lzf_step d n alloc ip hval htab lit out")
      case (Inl e)
      then show ?thesis using True safe by (subst lzf_loop.simps) simp
    next
      case (Inr r)
      show ?thesis
      proof (cases r)
        case (Break i l o')
        then show ?thesis using True Inr safe by (subst lzf_loop.simps) simp
      next
        case (Continue i h t l o')
        have "case lzf_loop d n alloc i h t l o' of
            Inl e \<Rightarrow> e = Incompressible
          | Inr (ip', lit', out') \<Rightarrow> lzf_safe n lit' out' \<and> length d \<le> ip' + 2"
          using "1.IH" [OF True Inr Continue] safe Inr Continue "1.prems"(2) by simp
        then show ?thesis using True Inr Continue by (subst lzf_loop.simps) simp
      qed
    qed
  qed
qed

lemma lzf_tail_safe:
  assumes "length out + 2 * (length d - ip) \<le> n + 1" "ip \<ge> length d \<and> 0 < lit \<longrightarrow> length out \<le> n"
    and "alloc = n + 1" "lit + 1 \<le> length out"
  shows "\<exists>lit' out'. lzf_tail d alloc ip lit out = Inr (lit', out') \<and> lit' + 1 \<le> length out' \<and>
    length out' \<le> n + 1 \<and> (0 < lit' \<longrightarrow> length out' \<le> n)"
  using assms
proof (induction d alloc ip lit out rule: lzf_tail.induct)
  case (1 d alloc ip lit out)
  show ?case
  proof (cases "ip < length d")
    case False
    then show ?thesis using "1.prems" by (subst lzf_tail.simps) auto
  next
    case True
    let ?o = "out @ [d ! ip]"
    have put: "lzf_put alloc out (d ! ip) = Inr ?o" using "1.prems"(1,3) True by (simp add: lzf_put_def)
    show ?thesis
    proof (cases "lit + 1 = MAX_LIT")
      case l: True
      obtain o2 where o2: "lzf_stop_run alloc (lit + 1) ?o = Inr o2" "length o2 = length out + 1"
      proof -
        have "length ?o \<le> alloc" 
          unfolding length_append using "1.prems"(1,3) True by simp
        moreover have "lit + 1 + 1 \<le> length ?o" using "1.prems"(4) by simp
        ultimately show ?thesis using lzf_stop_run_safe [of ?o alloc "lit + 1"] that by auto
      qed
      have "lzf_tail d alloc ip lit out = lzf_tail d alloc (ip + 1) 0 (o2 @ [0])"
        using True put l o2(1) by (subst lzf_tail.simps) simp
      then show ?thesis using "1.IH"(1) [OF True put l o2(1)] o2(2) "1.prems" True by simp
    next
      case l: False
      have "lzf_tail d alloc ip lit out = lzf_tail d alloc (ip + 1) (lit + 1) ?o"
        using True put l by (subst lzf_tail.simps) simp
      moreover have "length ?o + 2 * (length d - (ip + 1)) \<le> n + 1"
        "length d \<le> ip + 1 \<and> 0 < lit + 1 \<longrightarrow> length ?o \<le> n" "lit + 1 + 1 \<le> length ?o"
        unfolding length_append using "1.prems"(1,4) True by auto
      ultimately show ?thesis using "1.IH"(2) [OF True put l _ _ "1.prems"(3)] by presburger
    qed
  qed
qed

lemma lzf_compress_bounds:
  assumes "alloc = out_len + 1"
  shows "case lzf_compress htab d out_len alloc of
      Inl e \<Rightarrow> e = Incompressible \<or> length d = 1 | Inr c \<Rightarrow> length c \<le> out_len"
proof (cases "2 \<le> length d \<and> 0 < out_len")
  case False
  then show ?thesis by (cases "length d") (auto simp: lzf_compress_def)
next
  case big: True
  have "lzf_safe out_len 0 [0]" by (simp add: lzf_safe_def)
  note loop = lzf_loop_safe [OF this assms, of d 0 "FRST d 0" htab]
  show ?thesis
  proof (cases "lzf_loop d out_len alloc 0 (FRST d 0) htab 0 [0]")
    case (Inl e)
    then show ?thesis using big loop by (auto simp: lzf_compress_def)
  next
    case (Inr r)
    obtain ip lit out where r: "r = (ip, lit, out)" by (cases r) auto
    show ?thesis
    proof (cases "length out + 3 > out_len")
      case True
      then show ?thesis using big Inr r by (auto simp: lzf_compress_def)
    next
      case False
      then obtain lit' o1 where t: "lzf_tail d alloc ip lit out = Inr (lit', o1)" "lit' + 1 \<le> length o1"
        "length o1 \<le> out_len + 1" "0 < lit' \<longrightarrow> length o1 \<le> out_len"
      proof -
        have "length out + 2 * (length d - ip) \<le> out_len + 1" "length out \<le> out_len" "lit + 1 \<le> length out"
          using loop Inr r False by (auto simp: lzf_safe_def)
        from lzf_tail_safe [OF this(1) _ assms this(3)] this(2) that show ?thesis by blast
      qed
      then obtain o2 where "lzf_stop_run alloc lit' o1 = Inr o2" "length o2 = length o1"
        using lzf_stop_run_safe [of o1 alloc lit'] assms by auto
      then show ?thesis using big Inr r False t by (auto simp: lzf_compress_def)
    qed
  qed
qed


lemma fill_ref_length [simp]: "length (fill_ref ref n out) = length out + n"
  by (induction n arbitrary: ref out) auto

lemma lzf_dstep_bounds:
  "case lzf_dstep n inp out of
     Inl e \<Rightarrow> inp \<noteq> [] \<longrightarrow> e \<noteq> InputOverread
   | Inr (ip, out') \<Rightarrow> length out' \<le> n \<and> length out < length out' \<and> take (length out) out' = out"
proof -
  have pre: "take (length o1) (fill_ref r k o1) = o1" for r k and o1 :: bytes
  proof (induction k arbitrary: r o1)
    case (Suc k)
    have "take (length o1) (take (length (o1 @ [o1 ! r])) (fill_ref (Suc r) k (o1 @ [o1 ! r]))) = o1"
      unfolding Suc by simp
    then show ?case by (simp add: min_def)
  qed simp
  show ?thesis
    by (cases inp; cases "tl inp"; cases "tl (tl inp)")
      (auto simp: lzf_dstep_eq Let_def pre simp del: fill_ref.simps)
qed

lemma lzf_dloop_bounds:
  "case lzf_dloop n inp out of
     Inl e \<Rightarrow> e \<noteq> InputOverread | Inr out' \<Rightarrow> length out \<le> n \<longrightarrow> length out' \<le> n"
proof (induction n inp out rule: lzf_dloop.induct)
  case (1 n inp out)
  show ?case
  proof (cases "inp = []")
    case False
    show ?thesis
    proof (cases "lzf_dstep n inp out")
      case (Inl e)
      then show ?thesis using False lzf_dstep_bounds [of inp n out]
        by (subst lzf_dloop.simps) auto
    next
      case (Inr r)
      obtain ip o1 where r: "r = (ip, o1)" by (cases r) auto
      have "case lzf_dloop n ip o1 of Inl e \<Rightarrow> e \<noteq> InputOverread
          | Inr out' \<Rightarrow> length o1 \<le> n \<longrightarrow> length out' \<le> n"
        using 1 False Inr r by blast
      then show ?thesis using False Inr r lzf_dstep_bounds [of inp n out]
        by (subst lzf_dloop.simps) (auto split: sum.splits)
    qed
  qed simp
qed


section \<open>The byte behind the output\<close>

text \<open>An input on which the run header is written one byte behind \<open>out_len\<close>: 32 literals
  fill the output exactly, \<open>op++\<close> steps over the end, and the next position matches, so
  \<open>op[-lit-1]\<close> is stored before the test of the remaining space.\<close>

definition overrun_input :: bytes where
  "overrun_input = [0, 1, 2, 3, 4, 5, 6, 7, 8, 9, 10, 11, 12, 13, 14, 15, 16, 17, 18, 19, 20, 21, 22, 23,
     24, 25, 26, 27, 28, 29, 30, 31, 31, 31, 31, 31, 31]"

primrec overrun_hval :: "nat \<Rightarrow> 32 word" where
  "overrun_hval 0 = FRST overrun_input 0"
| "overrun_hval (Suc k) = NEXT (overrun_hval k) overrun_input k"

primrec overrun_htab :: "nat \<Rightarrow> nat \<Rightarrow> int" where
  "overrun_htab 0 = (\<lambda>_. 0)"
| "overrun_htab (Suc k) = (overrun_htab k)(IDX (overrun_hval (Suc k)) := int k)"

lemma overrun_distinct: "distinct (take 32 overrun_input)" and overrun_length: "length overrun_input = 37"
  by (simp_all add: overrun_input_def)

lemma overrun_no_match:
  assumes "ip < 32"
  shows "\<not> lzf_match overrun_input ip ref"
proof
  assume m: "lzf_match overrun_input ip ref"
  then have "nat ref < ip" "overrun_input ! nat ref = overrun_input ! ip"
    by (auto simp: lzf_match_def Let_def)
  then have "take 32 overrun_input ! nat ref = take 32 overrun_input ! ip" using assms by simp
  with overrun_distinct assms \<open>nat ref < ip\<close> show False
    using nth_eq_iff_index_eq [of "take 32 overrun_input" "nat ref" ip] by (simp add: overrun_length)
qed

lemma overrun_step:
  assumes "k < 31"
  shows "lzf_loop overrun_input 33 33 k (overrun_hval k) (overrun_htab k) k (0 # take k overrun_input) =
    lzf_loop overrun_input 33 33 (Suc k) (overrun_hval (Suc k)) (overrun_htab (Suc k)) (Suc k)
      (0 # take (Suc k) overrun_input)"
proof -
  have "lzf_step overrun_input 33 33 k (overrun_hval k) (overrun_htab k) k (0 # take k overrun_input) =
      Inr (Continue (Suc k) (overrun_hval (Suc k)) (overrun_htab (Suc k)) (Suc k) (0 # take (Suc k) overrun_input))"
    using overrun_no_match [of k] assms
    by (simp add: lzf_step_def lzf_lit_step_def lzf_put_def Let_def overrun_length min_def take_Suc_conv_app_nth)
  then show ?thesis using assms by (subst lzf_loop.simps) (simp add: overrun_length)
qed

lemma overrun_literals:
  "k < 32 \<Longrightarrow> lzf_loop overrun_input 33 33 0 (FRST overrun_input 0) (\<lambda>_. 0) 0 [0] =
    lzf_loop overrun_input 33 33 k (overrun_hval k) (overrun_htab k) k (0 # take k overrun_input)"
  by (induction k) (simp_all add: overrun_step)

lemma next4: "or (push_bit 8 (or (push_bit 8 (or (push_bit 8 (or (push_bit 8 (v :: 32 word)) a)) b)) c)) e =
   or (push_bit 24 a) (or (push_bit 16 b) (or (push_bit 8 c) e))"
  by (rule bit_word_eqI) (auto simp: bit_simps)

lemma overrun_hash: "IDX (overrun_hval 33) = IDX (overrun_hval 32)"
proof -
  have u: "overrun_hval 33 = NEXT (overrun_hval 32) overrun_input 32"
    "overrun_hval 32 = NEXT (overrun_hval 31) overrun_input 31"
    "overrun_hval 31 = NEXT (overrun_hval 30) overrun_input 30"
    "overrun_hval 30 = NEXT (overrun_hval 29) overrun_input 29"
    "overrun_hval 29 = NEXT (overrun_hval 28) overrun_input 28"
    using overrun_hval.simps(2) [of 32] overrun_hval.simps(2) [of 31] overrun_hval.simps(2) [of 30]
      overrun_hval.simps(2) [of 29] overrun_hval.simps(2) [of 28] by simp_all
  have "overrun_hval 33 = 0x1f1f1f1f" unfolding u NEXT_def next4 by (simp add: overrun_input_def)
  moreover have "overrun_hval 32 = 0x1e1f1f1f"
    unfolding u(2-5) NEXT_def next4 by (simp add: overrun_input_def)
  ultimately show ?thesis by (simp add: IDX_def)
qed

lemma overrun_ref: "overrun_htab 32 (IDX (overrun_hval 33)) = 31"
proof -
  have "overrun_htab 32 = (overrun_htab 31)(IDX (overrun_hval 32) := 31)"
    using overrun_htab.simps(2) [of 31] by simp
  then show ?thesis by (simp add: overrun_hash)
qed

lemma overrun_loop: "lzf_loop overrun_input 33 33 0 (FRST overrun_input 0) (\<lambda>_. 0) 0 [0] = Inl WriteOverflow"
proof -
  have n: "overrun_htab 32 = (overrun_htab 31)(IDX (NEXT (overrun_hval 31) overrun_input 31) := 31)"
    "overrun_hval 32 = NEXT (overrun_hval 31) overrun_input 31"
    "overrun_hval 33 = NEXT (overrun_hval 32) overrun_input 32"
    using overrun_htab.simps(2) [of 31] overrun_hval.simps(2) [of 31] overrun_hval.simps(2) [of 32] by simp_all
  have s31: "lzf_step overrun_input 33 33 31 (overrun_hval 31) (overrun_htab 31) 31 (0 # take 31 overrun_input) =
      Inr (Continue 32 (overrun_hval 32) (overrun_htab 32) 0 (31 # take 32 overrun_input @ [0]))"
    using overrun_no_match [of 31]
    by (simp add: lzf_step_def lzf_lit_step_def lzf_put_def lzf_stop_run_def Let_def n overrun_input_def)
  have m: "lzf_match overrun_input 32 31"
    by (simp add: lzf_match_def Let_def overrun_input_def)
  have s32: "lzf_step overrun_input 33 33 32 (overrun_hval 32) (overrun_htab 32) 0 (31 # take 32 overrun_input @ [0]) =
      Inl WriteOverflow"
    using m overrun_ref
    by (simp add: lzf_step_def lzf_ref_step_def lzf_stop_run_def Let_def n(3) overrun_length)
  show ?thesis
    using overrun_literals [of 31]
    by (simp add: lzf_loop.simps [of _ _ _ 31] lzf_loop.simps [of _ _ _ 32] s31 s32 overrun_length)
qed
section \<open>The properties\<close>

text \<open>C26: for every initial contents of the uninitialised hash table, every input and
  every output limit, what the compressor returns is decompressed to the input.\<close>

theorem lzf_decompress_compress:
  assumes "lzf_compress htab d out_len alloc = Inr c"
  shows "lzf_decompress c (length d) = Inr d"
  by (rule lzf_roundtrip [OF assms])

text \<open>the compressor writes inside \<open>out_len + 1\<close> bytes (what
  \<open>rdbSaveLzfStringObject\<close> allocates), returns at most \<open>out_len\<close> of them, and reads only
  its input unless that is a single byte.\<close>

theorem lzf_compress_in_bounds:
  "case lzf_compress htab d out_len (out_len + 1) of
     Inl e \<Rightarrow> e = Incompressible \<or> length d = 1
   | Inr c \<Rightarrow> length c \<le> out_len"
  by (rule lzf_compress_bounds) simp

text \<open>C37: on any bytes at all the decompressor either fails with \<open>E2BIG\<close> or \<open>EINVAL\<close> or
  stays within the output limit.  Every read and write of the model is checked, so none of them
  is out of bounds: it never reads before the start of the output, beyond what it has written or
  writes past the limit, and it reads beyond the input only when that is empty.\<close>

theorem lzf_decompress_in_bounds:
  "case lzf_decompress inp out_len of
     Inl e \<Rightarrow> inp = [] \<or> e = E2BIG \<or> e = EINVAL
   | Inr d \<Rightarrow> length d \<le> out_len"
proof -
  have e: "lzf_dstep n i out = Inl e \<Longrightarrow> i = [] \<or> e = E2BIG \<or> e = EINVAL" for n i out e
    by (cases i) (auto simp: lzf_dstep_eq Let_def sbind_Inl_iff split: if_splits prod.splits)
  have l: "lzf_dloop n i out = Inl e \<Longrightarrow> e = E2BIG \<or> e = EINVAL" for n i out e
  proof (induction n i out rule: lzf_dloop.induct)
    case (1 n i out)
    then show ?case
      by (cases "i = []"; subst (asm) (3) lzf_dloop.simps)
        (auto simp: sbind_Inl_iff dest!: e split: prod.splits)
  qed
  show ?thesis
  proof (cases "lzf_dstep out_len inp []")
    case (Inl err)
    then show ?thesis using e by (auto simp: lzf_decompress_def)
  next
    case (Inr r)
    obtain ip out where r: "r = (ip, out)" by (cases r) auto
    have "length out \<le> out_len" using lzf_dstep_bounds [of inp out_len "[]"] Inr r by simp
    then show ?thesis using l lzf_dloop_bounds [of out out_len ip] Inr r
      by (cases "lzf_dloop out_len ip out") (auto simp: lzf_decompress_def)
  qed
qed

theorem lzf_decompress_compress_witness:
  "lzf_compress (\<lambda>_. 0) [7, 7, 7, 7, 7, 7, 7, 7, 7, 7, 7] 20 21 = Inr [1, 7, 7, 160, 0, 1, 7, 7] \<and>
   lzf_decompress [1, 7, 7, 160, 0, 1, 7, 7] 11 = Inr [7, 7, 7, 7, 7, 7, 7, 7, 7, 7, 7]"
proof -
  have c: "lzf_compress (\<lambda>_. 0) [7, 7, 7, 7, 7, 7, 7, 7, 7, 7, 7] 20 21 = Inr [1, 7, 7, 160, 0, 1, 7, 7]"
    by (simp add: lzf_step_def lzf_ref_step_def lzf_after_ref_def lzf_lit_step_def lzf_match_def
        lzf_put_def lzf_stop_run_def lzf_put_ref_def match_len_def match_tail.simps FRST_def NEXT_def
        IDX_def Let_def lzf_compress_def lzf_loop.simps lzf_tail.simps)
  have "length [7, 7, 7, 7, 7, 7, 7, 7, 7, 7, 7 :: u8] = 11" by simp
  then show ?thesis using lzf_decompress_compress [OF c] c by presburger
qed

text \<open>C38: with only the \<open>out_len\<close> bytes of the documented contract the compressor can
  write out of bounds; the extra byte of the previous bound is needed.\<close>

theorem lzf_compress_overruns: "lzf_compress (\<lambda>_. 0) overrun_input 33 33 = Inl WriteOverflow"
  by (simp add: lzf_compress_def overrun_loop overrun_length)

end
