(* ===== verification/Rdb.thy ===== *)
theory Rdb
  imports Rio Lzf "HOL-Library.Sublist"
begin

unbundle bit_operations_syntax

text \<open>
  \<open>rdb.c\<close>: the serialisation of values.  The save functions take the stream or \<open>NULL\<close>
  (\<open>None\<close>, used to compute sizes) and return a byte count or -1; the load functions
  return the value, \<open>NULL\<close> (\<open>LoadError\<close>), or run into \<open>redisPanic\<close> (\<open>LoadPanic\<close>).
\<close>

section \<open>Raw writes\<close>

definition rdbWriteRaw :: "bytes \<Rightarrow> 'd rio option \<Rightarrow> int \<times> 'd rio option" where
  "rdbWriteRaw p rdb =
    (case rdb of
       None \<Rightarrow> (to_int32 (length p), None)
     | Some r \<Rightarrow>
         (case rioWrite r p of
            (False, r) \<Rightarrow> (- 1, Some r)
          | (True, r) \<Rightarrow> (to_int32 (length p), Some r)))"

text \<open>The idiom \<open>if ((n = f(rdb)) == -1) return -1; nwritten += n;\<close> followed by the rest
  of the function.\<close>

definition save_then ::
  "('d rio option \<Rightarrow> int \<times> 'd rio option) \<Rightarrow> ('d rio option \<Rightarrow> int \<times> 'd rio option) \<Rightarrow>
   'd rio option \<Rightarrow> int \<times> 'd rio option" where
  "save_then f g rdb =
    (case f rdb of
       (n, rdb) \<Rightarrow>
         if n = - 1 then (- 1, rdb)
         else (case g rdb of (m, rdb) \<Rightarrow> if m = - 1 then (- 1, rdb) else (n + m, rdb)))"

definition rdbSaveType :: "nat \<Rightarrow> 'd rio option \<Rightarrow> int \<times> 'd rio option" where
  "rdbSaveType type = rdbWriteRaw [of_nat type]"

definition rdbSaveMillisecondTime :: "int \<Rightarrow> 'd rio option \<Rightarrow> int \<times> 'd rio option" where
  "rdbSaveMillisecondTime t = rdbWriteRaw (le_bytes 8 t)"

abbreviation REDIS_RDB_6BITLEN :: u8 where "REDIS_RDB_6BITLEN \<equiv> 0"
abbreviation REDIS_RDB_14BITLEN :: u8 where "REDIS_RDB_14BITLEN \<equiv> 1"
abbreviation REDIS_RDB_32BITLEN :: u8 where "REDIS_RDB_32BITLEN \<equiv> 2"
abbreviation REDIS_RDB_ENCVAL :: u8 where "REDIS_RDB_ENCVAL \<equiv> 3"
abbreviation REDIS_RDB_LENERR :: nat where "REDIS_RDB_LENERR \<equiv> 4294967295"
abbreviation REDIS_RDB_ENC_INT8 :: nat where "REDIS_RDB_ENC_INT8 \<equiv> 0"
abbreviation REDIS_RDB_ENC_INT16 :: nat where "REDIS_RDB_ENC_INT16 \<equiv> 1"
abbreviation REDIS_RDB_ENC_INT32 :: nat where "REDIS_RDB_ENC_INT32 \<equiv> 2"
abbreviation REDIS_RDB_ENC_LZF :: nat where "REDIS_RDB_ENC_LZF \<equiv> 3"

text \<open>\<open>htonl\<close> leaves the most significant byte first in memory.\<close>

definition htonl_bytes :: "nat \<Rightarrow> bytes" where
  "htonl_bytes len = rev (le_bytes 4 (int len))"

definition ntohl_bytes :: "bytes \<Rightarrow> nat" where
  "ntohl_bytes b = nat (le_uint (rev b))"

definition rdbSaveLen :: "nat \<Rightarrow> 'd rio option \<Rightarrow> int \<times> 'd rio option" where
  "rdbSaveLen len =
    (let len = uint_wrap len in
     if len < 64 then rdbWriteRaw [(of_nat len AND 0xFF) OR push_bit 6 REDIS_RDB_6BITLEN]
     else if len < 16384 then
       rdbWriteRaw [(of_nat (len div 256) AND 0xFF) OR push_bit 6 REDIS_RDB_14BITLEN, of_nat len AND 0xFF]
     else
       save_then (rdbWriteRaw [push_bit 6 REDIS_RDB_32BITLEN]) (rdbWriteRaw (htonl_bytes len)))"

section \<open>Raw reads\<close>

datatype 'a load = Loaded 'a | LoadError | LoadPanic | BadAccess

definition load_bind :: "('s \<Rightarrow> 'a load \<times> 's) \<Rightarrow> ('a \<Rightarrow> 's \<Rightarrow> 'b load \<times> 's) \<Rightarrow> 's \<Rightarrow> 'b load \<times> 's" where
  "load_bind f g s =
    (case f s of
       (Loaded x, s) \<Rightarrow> g x s
     | (LoadError, s) \<Rightarrow> (LoadError, s)
     | (LoadPanic, s) \<Rightarrow> (LoadPanic, s)
     | (BadAccess, s) \<Rightarrow> (BadAccess, s))"

definition rdb_read :: "nat \<Rightarrow> 'd rio \<Rightarrow> bytes load \<times> 'd rio" where
  "rdb_read n r = (case rioRead r n of (None, r) \<Rightarrow> (LoadError, r) | (Some b, r) \<Rightarrow> (Loaded b, r))"

definition rdbLoadType :: "'d rio \<Rightarrow> nat load \<times> 'd rio" where
  "rdbLoadType = load_bind (rdb_read 1) (\<lambda>b r. (Loaded (unat (b ! 0)), r))"

definition rdbLoadTime :: "'d rio \<Rightarrow> int load \<times> 'd rio" where
  "rdbLoadTime = load_bind (rdb_read 4) (\<lambda>b r. (Loaded (to_signed 4 (le_uint b)), r))"

definition rdbLoadMillisecondTime :: "'d rio \<Rightarrow> int load \<times> 'd rio" where
  "rdbLoadMillisecondTime = load_bind (rdb_read 8) (\<lambda>b r. (Loaded (to_signed 8 (le_uint b)), r))"

text \<open>The two fields of the first byte of a length.\<close>

definition len_type :: "u8 \<Rightarrow> u8" where
  "len_type b = drop_bit 6 (b AND 0xC0)"

definition len_low :: "u8 \<Rightarrow> nat" where
  "len_low b = unat (b AND 0x3F)"

text \<open>The result is the length and \<open>*isencoded\<close>; \<open>REDIS_RDB_LENERR\<close> is also what a length
  of 32 set bits reads as.\<close>

definition rdbLoadLen :: "'d rio \<Rightarrow> (nat \<times> bool) \<times> 'd rio" where
  "rdbLoadLen r =
    (case rioRead r 1 of
       (None, r) \<Rightarrow> ((REDIS_RDB_LENERR, False), r)
     | (Some b, r) \<Rightarrow>
         (let b0 = b ! 0; type = len_type b0 in
          if type = REDIS_RDB_ENCVAL then ((len_low b0, True), r)
          else if type = REDIS_RDB_6BITLEN then ((len_low b0, False), r)
          else if type = REDIS_RDB_14BITLEN then
            (case rioRead r 1 of
               (None, r) \<Rightarrow> ((REDIS_RDB_LENERR, False), r)
             | (Some b1, r) \<Rightarrow> ((len_low b0 * 256 + unat (b1 ! 0), False), r))
          else
            (case rioRead r 4 of
               (None, r) \<Rightarrow> ((REDIS_RDB_LENERR, False), r)
             | (Some b, r) \<Rightarrow> ((ntohl_bytes b, False), r))))"

text \<open>\<open>if ((len = rdbLoadLen(rdb,NULL)) == REDIS_RDB_LENERR) return NULL;\<close>\<close>

definition load_len :: "'d rio \<Rightarrow> nat load \<times> 'd rio" where
  "load_len r =
    (case rdbLoadLen r of ((len, _), r) \<Rightarrow> if len = REDIS_RDB_LENERR then (LoadError, r) else (Loaded len, r))"

section \<open>Integers in strings\<close>

definition rdbEncodeInteger :: "int \<Rightarrow> bytes" where
  "rdbEncodeInteger value =
    (if value \<ge> - 128 \<and> value \<le> 127 then
       [push_bit 6 REDIS_RDB_ENCVAL OR of_nat REDIS_RDB_ENC_INT8, word_of_int value]
     else if value \<ge> - 32768 \<and> value \<le> 32767 then
       [push_bit 6 REDIS_RDB_ENCVAL OR of_nat REDIS_RDB_ENC_INT16,
        word_of_int value, word_of_int (drop_bit 8 value)]
     else if value \<ge> - 2147483648 \<and> value \<le> 2147483647 then
       [push_bit 6 REDIS_RDB_ENCVAL OR of_nat REDIS_RDB_ENC_INT32,
        word_of_int value, word_of_int (drop_bit 8 value), word_of_int (drop_bit 16 value),
        word_of_int (drop_bit 24 value)]
     else [])"

text \<open>A string object: the bytes, or the \<open>long\<close> of the integer encoding.\<close>

datatype strobj = RawString bytes | IntString int

definition rdbLoadIntegerObject :: "nat \<Rightarrow> bool \<Rightarrow> 'd rio \<Rightarrow> strobj load \<times> 'd rio" where
  "rdbLoadIntegerObject enctype encode =
    (let mk = (\<lambda>val r. (Loaded (if encode then IntString val else RawString (sds_str (sdsfromlonglong val))), r))
     in if enctype = REDIS_RDB_ENC_INT8 then
          load_bind (rdb_read 1) (\<lambda>enc. mk (sint (enc ! 0)))
        else if enctype = REDIS_RDB_ENC_INT16 then
          load_bind (rdb_read 2) (\<lambda>enc. mk (sint (ucast (enc ! 0) OR push_bit 8 (ucast (enc ! 1)) :: 16 word)))
        else if enctype = REDIS_RDB_ENC_INT32 then
          load_bind (rdb_read 4) (\<lambda>enc. mk (sint (ucast (enc ! 0) OR push_bit 8 (ucast (enc ! 1)) OR
            push_bit 16 (ucast (enc ! 2)) OR push_bit 24 (ucast (enc ! 3)) :: 32 word)))
        else (\<lambda>r. (LoadPanic, r)))"

text \<open>C library \<open>strtoll(s, &endptr, 10)\<close> on a NUL-terminated string: the value and what
  \<open>endptr\<close> points at.\<close>

definition isspace :: "u8 \<Rightarrow> bool" where
  "isspace c \<longleftrightarrow> c = 32 \<or> 9 \<le> c \<and> c \<le> 13"

definition strtoll :: "bytes \<Rightarrow> int \<times> bytes" where
  "strtoll s =
    (let t = dropWhile isspace s;
         neg = (t \<noteq> [] \<and> hd t = 45);
         t = (if t \<noteq> [] \<and> (hd t = 45 \<or> hd t = 43) then tl t else t);
         ds = takeWhile is_digit t;
         v = (if neg then - int (digits_value 0 ds) else int (digits_value 0 ds))
     in if ds = [] then (0, s) else (max int64_min (min int64_max v), dropWhile is_digit t))"

definition rdbTryIntegerEncoding :: "bytes \<Rightarrow> bytes" where
  "rdbTryIntegerEncoding s =
    (case strtoll (s @ [0]) of
       (value, endptr) \<Rightarrow>
         if hd endptr \<noteq> 0 then []
         else
           (let buf = snd (ll2string (replicate 32 0) 32 value);
                len = length (takeWhile (\<lambda>c. c \<noteq> 0) buf)
            in if len \<noteq> length s \<or> take len buf \<noteq> s then [] else rdbEncodeInteger value))"

section \<open>Strings\<close>

text \<open>The configuration the save functions read.  \<open>htab\<close> is the contents of the
  compressor's hash table before the call, which \<open>lzf_compress\<close> does not initialise; it
  may be different for every string.  \<open>print17\<close> is the C library's
  \<open>snprintf("%.17g")\<close>.  A finite double is its sign, mantissa and binary exponent.\<close>

datatype double = NaN | Infinity bool | Finite bool nat int

record rdbconf =
  rdb_compression :: bool
  rdb_checksum :: bool
  htab :: "bytes \<Rightarrow> nat \<Rightarrow> int"
  print17 :: "double \<Rightarrow> bytes"

definition rdbSaveLzfStringObject :: "rdbconf \<Rightarrow> bytes \<Rightarrow> 'd rio option \<Rightarrow> int \<times> 'd rio option" where
  "rdbSaveLzfStringObject conf s rdb =
    (if length s \<le> 4 then (0, rdb)
     else
       (let outlen = length s - 4 in
        case lzf_compress (htab conf s) s outlen (outlen + 1) of
          Inl e \<Rightarrow> (0, rdb)
        | Inr out \<Rightarrow>
            (let comprlen = length out in
             if comprlen = 0 then (0, rdb)
             else
               save_then (rdbWriteRaw [push_bit 6 REDIS_RDB_ENCVAL OR of_nat REDIS_RDB_ENC_LZF])
                (save_then (rdbSaveLen comprlen)
                 (save_then (rdbSaveLen (length s)) (rdbWriteRaw out))) rdb)))"

definition rdbLoadLzfStringObject :: "'d rio \<Rightarrow> strobj load \<times> 'd rio" where
  "rdbLoadLzfStringObject =
    load_bind load_len (\<lambda>clen. load_bind load_len (\<lambda>len. load_bind (rdb_read clen) (\<lambda>c r.
      case lzf_decompress c len of
        Inl E2BIG \<Rightarrow> (LoadError, r)
      | Inl EINVAL \<Rightarrow> (LoadError, r)
      | Inl e \<Rightarrow> (BadAccess, r)
      | Inr d \<Rightarrow> if d = [] then (LoadError, r)
               else (Loaded (RawString (d @ replicate (len - length d) 0)), r))))"

definition rdbSaveRawString :: "rdbconf \<Rightarrow> bytes \<Rightarrow> 'd rio option \<Rightarrow> int \<times> 'd rio option" where
  "rdbSaveRawString conf s rdb =
    (let enc = (if length s \<le> 11 then rdbTryIntegerEncoding s else []) in
     if enc \<noteq> [] then rdbWriteRaw enc rdb
     else
       (let (n, rdb) = (if rdb_compression conf \<and> length s > 20
                        then rdbSaveLzfStringObject conf s rdb else (0, rdb))
        in if n = - 1 then (- 1, rdb)
           else if n > 0 then (n, rdb)
           else
             save_then (rdbSaveLen (length s))
               (if length s > 0 then rdbWriteRaw s else (\<lambda>rdb. (0, rdb))) rdb))"

definition rdbSaveLongLongAsStringObject :: "int \<Rightarrow> 'd rio option \<Rightarrow> int \<times> 'd rio option" where
  "rdbSaveLongLongAsStringObject value =
    (let enc = rdbEncodeInteger value in
     if enc \<noteq> [] then rdbWriteRaw enc
     else
       (let (enclen, buf) = ll2string (replicate 32 0) 32 value
        in save_then (rdbSaveLen enclen) (rdbWriteRaw (take enclen buf))))"

definition rdbSaveStringObject :: "rdbconf \<Rightarrow> strobj \<Rightarrow> 'd rio option \<Rightarrow> int \<times> 'd rio option" where
  "rdbSaveStringObject conf obj =
    (case obj of IntString v \<Rightarrow> rdbSaveLongLongAsStringObject v | RawString s \<Rightarrow> rdbSaveRawString conf s)"

definition rdbGenericLoadStringObject :: "bool \<Rightarrow> 'd rio \<Rightarrow> strobj load \<times> 'd rio" where
  "rdbGenericLoadStringObject encode r =
    (case rdbLoadLen r of
       ((len, isencoded), r) \<Rightarrow>
         if isencoded then
           (if len = REDIS_RDB_ENC_INT8 \<or> len = REDIS_RDB_ENC_INT16 \<or> len = REDIS_RDB_ENC_INT32
            then rdbLoadIntegerObject len encode r
            else if len = REDIS_RDB_ENC_LZF then rdbLoadLzfStringObject r
            else (LoadPanic, r))
         else if len = REDIS_RDB_LENERR then (LoadError, r)
         else load_bind (rdb_read len) (\<lambda>val r. (Loaded (RawString val), r)) r)"

definition rdbLoadStringObject :: "'d rio \<Rightarrow> strobj load \<times> 'd rio" where
  "rdbLoadStringObject = rdbGenericLoadStringObject False"

definition rdbLoadEncodedStringObject :: "'d rio \<Rightarrow> strobj load \<times> 'd rio" where
  "rdbLoadEncodedStringObject = rdbGenericLoadStringObject True"

section \<open>Doubles\<close>

text \<open>The value of a double without a fractional part.\<close>

definition double_int :: "double \<Rightarrow> int option" where
  "double_int d =
    (case d of
       Finite neg m e \<Rightarrow>
         (let sgn = (if neg then - 1 else 1) in
          if e \<ge> 0 then Some (sgn * int m * 2 ^ nat e)
          else if m mod 2 ^ nat (- e) = 0 then Some (sgn * int (m div 2 ^ nat (- e)))
          else None)
     | _ \<Rightarrow> None)"

definition double_text :: "rdbconf \<Rightarrow> double \<Rightarrow> bytes" where
  "double_text conf d =
    (case double_int d of
       Some i \<Rightarrow>
         if - 4503599627370495 < i \<and> i < 4503599627370496
         then (case ll2string (replicate 127 0) 127 i of (n, buf) \<Rightarrow> take n buf)
         else print17 conf d
     | None \<Rightarrow> print17 conf d)"

definition rdbSaveDoubleValue :: "rdbconf \<Rightarrow> double \<Rightarrow> 'd rio option \<Rightarrow> int \<times> 'd rio option" where
  "rdbSaveDoubleValue conf d =
    rdbWriteRaw
      (case d of
         NaN \<Rightarrow> [253]
       | Infinity neg \<Rightarrow> [if neg then 255 else 254]
       | Finite _ _ _ \<Rightarrow> (let t = double_text conf d in of_nat (length t) # t))"

text \<open>\<open>scan\<close> is \<open>sscanf("%lg")\<close>.\<close>

definition rdbLoadDoubleValue :: "(bytes \<Rightarrow> double) \<Rightarrow> 'd rio \<Rightarrow> double load \<times> 'd rio" where
  "rdbLoadDoubleValue scan =
    load_bind (rdb_read 1) (\<lambda>b.
      let len = unat (b ! 0) in
      if len = 255 then (\<lambda>r. (Loaded (Infinity True), r))
      else if len = 254 then (\<lambda>r. (Loaded (Infinity False), r))
      else if len = 253 then (\<lambda>r. (Loaded NaN, r))
      else load_bind (rdb_read len) (\<lambda>buf r. (Loaded (scan buf), r)))"

section \<open>Objects\<close>

text \<open>An object by type and encoding; a table is given by the entries its iterator
  returns, in that order, and a ziplist or an intset by its bytes.\<close>

datatype robj =
    StringObj strobj
  | ListZiplist bytes
  | ListLinked "strobj list"
  | SetIntset bytes
  | SetHt "strobj list"
  | ZsetZiplist bytes
  | ZsetSkiplist "(strobj \<times> double) list"
  | HashZiplist bytes
  | HashHt "(strobj \<times> strobj) list"

definition rdbObjectType :: "robj \<Rightarrow> nat" where
  "rdbObjectType obj =
    (case obj of
       StringObj _ \<Rightarrow> 0
     | ListZiplist _ \<Rightarrow> 10 | ListLinked _ \<Rightarrow> 1
     | SetIntset _ \<Rightarrow> 11 | SetHt _ \<Rightarrow> 2
     | ZsetZiplist _ \<Rightarrow> 12 | ZsetSkiplist _ \<Rightarrow> 3
     | HashZiplist _ \<Rightarrow> 13 | HashHt _ \<Rightarrow> 4)"

definition rdbSaveObjectType :: "robj \<Rightarrow> 'd rio option \<Rightarrow> int \<times> 'd rio option" where
  "rdbSaveObjectType obj = rdbSaveType (rdbObjectType obj)"

definition rdbLoadObjectType :: "'d rio \<Rightarrow> nat load \<times> 'd rio" where
  "rdbLoadObjectType =
    load_bind rdbLoadType (\<lambda>type r.
      if type \<le> 4 \<or> (9 \<le> type \<and> type \<le> 13) then (Loaded type, r) else (LoadError, r))"

primrec save_each ::
  "('a \<Rightarrow> 'd rio option \<Rightarrow> int \<times> 'd rio option) \<Rightarrow> 'a list \<Rightarrow> 'd rio option \<Rightarrow> int \<times> 'd rio option" where
  "save_each f [] = (\<lambda>rdb. (0, rdb))"
| "save_each f (x # xs) = save_then (f x) (save_each f xs)"

definition rdbSaveObject :: "rdbconf \<Rightarrow> robj \<Rightarrow> 'd rio option \<Rightarrow> int \<times> 'd rio option" where
  "rdbSaveObject conf obj =
    (case obj of
       StringObj s \<Rightarrow> rdbSaveStringObject conf s
     | ListZiplist zl \<Rightarrow> rdbSaveRawString conf zl
     | ListLinked xs \<Rightarrow> save_then (rdbSaveLen (length xs)) (save_each (rdbSaveStringObject conf) xs)
     | SetHt xs \<Rightarrow> save_then (rdbSaveLen (length xs)) (save_each (rdbSaveStringObject conf) xs)
     | SetIntset is \<Rightarrow> rdbSaveRawString conf is
     | ZsetZiplist zl \<Rightarrow> rdbSaveRawString conf zl
     | ZsetSkiplist xs \<Rightarrow>
         save_then (rdbSaveLen (length xs))
          (save_each (\<lambda>(ele, score). save_then (rdbSaveStringObject conf ele) (rdbSaveDoubleValue conf score)) xs)
     | HashZiplist zl \<Rightarrow> rdbSaveRawString conf zl
     | HashHt xs \<Rightarrow>
         save_then (rdbSaveLen (length xs))
          (save_each (\<lambda>(key, val). save_then (rdbSaveStringObject conf key) (rdbSaveStringObject conf val)) xs))"

text \<open>\<open>None\<close> is the failed assertion.\<close>

definition rdbSavedObjectLen :: "rdbconf \<Rightarrow> robj \<Rightarrow> int option" where
  "rdbSavedObjectLen conf obj =
    (let len = fst (rdbSaveObject conf obj (None :: unit rio option)) in if len \<noteq> - 1 then Some len else None)"

section \<open>The dump of the keyspace\<close>

text \<open>\<open>if (f(rdb) == -1) return -1;\<close> in a function whose result on success is \<open>n\<close>.\<close>

definition save_result_is :: "int \<Rightarrow> ('d rio option \<Rightarrow> int \<times> 'd rio option) \<Rightarrow> 'd rio option \<Rightarrow> int \<times> 'd rio option" where
  "save_result_is n f rdb = (case f rdb of (m, rdb) \<Rightarrow> (if m = - 1 then - 1 else n, rdb))"

definition rdbSaveKeyValuePair ::
  "rdbconf \<Rightarrow> strobj \<Rightarrow> robj \<Rightarrow> int \<Rightarrow> int \<Rightarrow> 'd rio option \<Rightarrow> int \<times> 'd rio option" where
  "rdbSaveKeyValuePair conf key val expiretime now =
    (if expiretime \<noteq> - 1 \<and> expiretime < now then (\<lambda>rdb. (0, rdb))
     else
       save_result_is 1
         (save_then
           (if expiretime \<noteq> - 1 then save_then (rdbSaveType 252) (rdbSaveMillisecondTime expiretime)
            else (\<lambda>rdb. (0, rdb)))
           (save_then (rdbSaveObjectType val)
             (save_then (rdbSaveStringObject conf key) (rdbSaveObject conf val)))))"

text \<open>A database: its keys with their values and expire times, in iteration order.\<close>

type_synonym rdb_db = "(bytes \<times> robj \<times> int) list"

definition rdbSaveDb :: "rdbconf \<Rightarrow> int \<Rightarrow> nat \<Rightarrow> rdb_db \<Rightarrow> 'd rio option \<Rightarrow> int \<times> 'd rio option" where
  "rdbSaveDb conf now j db =
    (if db = [] then (\<lambda>rdb. (0, rdb))
     else
       save_then (rdbSaveType 254)
        (save_then (rdbSaveLen j)
          (save_each (\<lambda>(key, val, expire). rdbSaveKeyValuePair conf (RawString key) val expire now) db)))"

primrec rdbSaveDbs :: "rdbconf \<Rightarrow> int \<Rightarrow> nat \<Rightarrow> rdb_db list \<Rightarrow> 'd rio option \<Rightarrow> int \<times> 'd rio option" where
  "rdbSaveDbs conf now j [] = (\<lambda>rdb. (0, rdb))"
| "rdbSaveDbs conf now j (db # dbs) = save_then (rdbSaveDb conf now j db) (rdbSaveDbs conf now (Suc j) dbs)"

text \<open>The magic string is \<open>REDIS0006\<close>; the result is \<open>REDIS_OK\<close> or \<open>REDIS_ERR\<close>.\<close>

definition rdb_magic :: bytes where
  "rdb_magic = [82, 69, 68, 73, 83, 48, 48, 48, 54]"

definition rdbSaveRio :: "rdbconf \<Rightarrow> int \<Rightarrow> rdb_db list \<Rightarrow> 'd rio \<Rightarrow> bool \<times> 'd rio" where
  "rdbSaveRio conf now dbs r =
    (let r = (if rdb_checksum conf then r\<lparr>update_cksum := Some rioGenericUpdateChecksum\<rparr> else r) in
     case save_then (rdbWriteRaw rdb_magic)
       (save_then (rdbSaveDbs conf now 0 dbs) (rdbSaveType 255)) (Some r) of
       (n, rdb) \<Rightarrow>
         if n = - 1 then (False, the rdb)
         else rioWrite (the rdb) (le_bytes 8 (uint (cksum (the rdb)))))"

section \<open>What a save function writes\<close>

text \<open>\<open>saves f ws\<close>: \<open>f\<close> writes the blocks \<open>ws\<close> one after the other and returns their total
  length, or -1 as soon as a write fails.\<close>

definition save_result :: "bytes list \<Rightarrow> 'd rio option \<Rightarrow> int \<times> 'd rio option" where
  "save_result ws rdb =
    (case rdb of
       None \<Rightarrow> (int (length (concat ws)), None)
     | Some r \<Rightarrow>
         (case write_all r ws of
            (ok, r) \<Rightarrow> (if ok then int (length (concat ws)) else - 1, Some r)))"

definition saves :: "('d rio option \<Rightarrow> int \<times> 'd rio option) \<Rightarrow> bytes list \<Rightarrow> bool" where
  "saves f ws \<longleftrightarrow> length (concat ws) < 2147483648 \<longrightarrow> (\<forall>rdb. f rdb = save_result ws rdb)"

lemma write_all_append:
  "write_all r (ws @ vs) = (case write_all r ws of (False, r) \<Rightarrow> (False, r) | (True, r) \<Rightarrow> write_all r vs)"
  by (induction ws arbitrary: r) (auto split: prod.splits bool.splits)

lemma saves_raw: "saves (rdbWriteRaw p) [p]"
  by (auto simp: saves_def save_result_def rdbWriteRaw_def to_int32_small split: option.splits prod.splits bool.splits)

lemma save_result_append:
  "save_result (ws @ vs) rdb =
    (case save_result ws rdb of
       (n, rdb) \<Rightarrow> if n = - 1 then (- 1, rdb)
         else (case save_result vs rdb of (m, rdb) \<Rightarrow> if m = - 1 then (- 1, rdb) else (n + m, rdb)))"
  by (cases rdb) (auto simp: save_result_def write_all_append split: prod.splits bool.splits)

lemma saves_then: "saves f ws \<Longrightarrow> saves g vs \<Longrightarrow> saves (save_then f g) (ws @ vs)"
  unfolding saves_def save_then_def save_result_append by (auto split: prod.splits)

lemma saves_nothing: "saves (\<lambda>rdb. (0, rdb)) []"
  by (auto simp: saves_def save_result_def split: option.splits)

text \<open>The bytes of an encoded length.\<close>

definition len_chunks :: "nat \<Rightarrow> bytes list" where
  "len_chunks n =
    (if n < 64 then [[of_nat n]]
     else if n < 16384 then [[of_nat (n div 256) OR 64, of_nat n]]
     else [[128], htonl_bytes n])"

lemma saves_len: "n < 4294967296 \<Longrightarrow> saves (rdbSaveLen n) (len_chunks n)"
  using saves_then [OF saves_raw saves_raw, of "[128]" "htonl_bytes n"]
  by (auto simp: rdbSaveLen_def len_chunks_def byte_and_255 Let_def intro: saves_raw)

section \<open>What a load function reads\<close>

context stream
begin

text \<open>\<open>reads f bs v err\<close>: when \<open>bs\<close> is next on the stream \<open>f\<close> consumes it and returns \<open>v\<close>;
  when the stream ends inside \<open>bs\<close> it returns \<open>err\<close>.\<close>

definition reads :: "('d rio \<Rightarrow> 'a \<times> 'd rio) \<Rightarrow> bytes \<Rightarrow> 'a \<Rightarrow> 'a \<Rightarrow> bool" where
  "reads f bs v err \<longleftrightarrow>
    (\<forall>r. streams r \<longrightarrow>
      (\<forall>rest. unread r = bs @ rest \<longrightarrow> (\<exists>r'. f r = (v, r') \<and> streams r' \<and> unread r' = rest)) \<and>
      (strict_prefix (unread r) bs \<longrightarrow> fst (f r) = err))"

lemma readsI:
  assumes "\<And>r rest. streams r \<Longrightarrow> unread r = bs @ rest \<Longrightarrow> \<exists>r'. f r = (v, r') \<and> streams r' \<and> unread r' = rest"
    and "\<And>r. streams r \<Longrightarrow> strict_prefix (unread r) bs \<Longrightarrow> fst (f r) = err"
  shows "reads f bs v err"
  using assms by (simp add: reads_def)

lemma readsD:
  assumes "reads f bs v err" "streams r"
  shows "unread r = bs @ rest \<Longrightarrow> \<exists>r'. f r = (v, r') \<and> streams r' \<and> unread r' = rest"
    and "strict_prefix (unread r) bs \<Longrightarrow> fst (f r) = err"
  using assms by (simp_all add: reads_def)

lemma strict_prefix_append_cases:
  "strict_prefix p (a @ b) \<Longrightarrow> strict_prefix p a \<or> (\<exists>q. p = a @ q \<and> strict_prefix q b)"
  by (auto simp: strict_prefix_def prefix_append)

lemma reads_rioRead:
  assumes "length bs = n"
  shows "reads (\<lambda>r. rioRead r n) bs (Some bs) None"
proof (rule readsI)
  fix r rest assume "streams r" "unread r = bs @ rest"
  then show "\<exists>r'. rioRead r n = (Some bs, r') \<and> streams r' \<and> unread r' = rest"
    using rioRead_spec [of r n] assms by auto
next
  fix r assume "streams r" "strict_prefix (unread r) bs"
  then show "fst (rioRead r n) = None"
    using rioRead_short [of r n] assms prefix_length_less by blast
qed

lemma reads_read: "length bs = n \<Longrightarrow> reads (rdb_read n) bs (Loaded bs) LoadError"
proof (rule readsI)
  fix r rest assume a: "length bs = n" "streams r" "unread r = bs @ rest"
  from readsD(1) [OF reads_rioRead [OF a(1)] a(2,3)]
  show "\<exists>r'. rdb_read n r = (Loaded bs, r') \<and> streams r' \<and> unread r' = rest"
    by (auto simp: rdb_read_def)
next
  fix r assume a: "length bs = n" "streams r" "strict_prefix (unread r) bs"
  from readsD(2) [OF reads_rioRead [OF a(1)] a(2,3)]
  show "fst (rdb_read n r) = LoadError"
    by (auto simp: rdb_read_def split: prod.splits option.splits)
qed

text \<open>Reading one part and then, depending on it, the rest.\<close>

lemma reads_compose:
  assumes f: "reads f bs x e" and g: "reads g cs v err"
    and h1: "\<And>r r'. f r = (x, r') \<Longrightarrow> h r = g r'"
    and h2: "\<And>r. fst (f r) = e \<Longrightarrow> fst (h r) = err"
  shows "reads h (bs @ cs) v err"
proof (rule readsI)
  fix r rest assume "streams r" "unread r = (bs @ cs) @ rest"
  with readsD(1) [OF f, of r "cs @ rest"] obtain r' where
    r': "f r = (x, r')" "streams r'" "unread r' = cs @ rest" by auto
  from readsD(1) [OF g r'(2,3)] show "\<exists>r'. h r = (v, r') \<and> streams r' \<and> unread r' = rest"
    using h1 [OF r'(1)] by simp
next
  fix r assume r: "streams r" "strict_prefix (unread r) (bs @ cs)"
  from strict_prefix_append_cases [OF r(2)] show "fst (h r) = err"
  proof
    assume "strict_prefix (unread r) bs"
    then show ?thesis using readsD(2) [OF f r(1)] h2 by blast
  next
    assume "\<exists>q. unread r = bs @ q \<and> strict_prefix q cs"
    then obtain q where q: "unread r = bs @ q" "strict_prefix q cs" by blast
    with readsD(1) [OF f r(1)] obtain r' where r': "f r = (x, r')" "streams r'" "unread r' = q" by blast
    then show ?thesis using readsD(2) [OF g r'(2)] q(2) h1 [OF r'(1)] by simp
  qed
qed

lemma reads_bind:
  assumes "reads f bs (Loaded x) LoadError" "reads (g x) cs v LoadError"
  shows "reads (load_bind f g) (bs @ cs) v LoadError"
  by (rule reads_compose [OF assms])
    (auto simp: load_bind_def split: prod.splits load.splits)

lemma reads_return: "reads (\<lambda>r. (v, r)) [] v err"
  by (rule readsI) auto

lemma reads_map:
  assumes "reads f bs (Loaded x) LoadError"
  shows "reads (load_bind f (\<lambda>x r. (h x, r))) bs (h x) LoadError"
  using reads_bind [OF assms reads_return, of h] by simp

end

section \<open>Lengths\<close>

lemma len_byte_bits:
  "\<forall>n \<in> set [0..<64].
    len_type (of_nat n :: u8) = 0 \<and> len_low (of_nat n :: u8) = n \<and>
    len_type ((of_nat n :: u8) OR 64) = 1 \<and> len_low ((of_nat n :: u8) OR 64) = n \<and>
    len_type ((of_nat n :: u8) OR 192) = 3 \<and> len_low ((of_nat n :: u8) OR 192) = n"
  by code_simp

lemma len_byte:
  assumes "n < 64"
  shows "len_type (of_nat n :: u8) = 0" "len_low (of_nat n :: u8) = n"
    "len_type ((of_nat n :: u8) OR 64) = 1" "len_low ((of_nat n :: u8) OR 64) = n"
    "len_type ((of_nat n :: u8) OR 192) = 3" "len_low ((of_nat n :: u8) OR 192) = n"
  using len_byte_bits [THEN bspec, of n] assms by simp_all

lemma ntohl_htonl: "n < 4294967296 \<Longrightarrow> ntohl_bytes (htonl_bytes n) = n"
  by (simp add: ntohl_bytes_def htonl_bytes_def le_uint_bytes)

lemma length_htonl [simp]: "length (htonl_bytes n) = 4"
  by (simp add: htonl_bytes_def)

context stream
begin

lemma len_type_128: "len_type 128 = 2"
  by (simp add: len_type_def)

lemma reads_LoadLen_first:
  assumes "reads g cs v (REDIS_RDB_LENERR, False)"
    and "\<And>r r'. rioRead r 1 = (Some [b0], r') \<Longrightarrow> rdbLoadLen r = g r'"
  shows "reads rdbLoadLen (b0 # cs) v (REDIS_RDB_LENERR, False)"
proof -
  have "reads rdbLoadLen ([b0] @ cs) v (REDIS_RDB_LENERR, False)"
    by (rule reads_compose [OF reads_rioRead [of "[b0]" 1] assms(1)])
      (use assms(2) in \<open>auto simp: rdbLoadLen_def split: prod.splits option.splits\<close>)
  then show ?thesis by simp
qed

lemma reads_LoadLen_enc:
  assumes "n < 64"
  shows "reads rdbLoadLen [of_nat n OR 192] (n, True) (REDIS_RDB_LENERR, False)"
  by (rule reads_LoadLen_first [OF reads_return]) (simp add: rdbLoadLen_def Let_def len_byte [OF assms])

lemma reads_LoadLen:
  assumes "n < 4294967296"
  shows "reads rdbLoadLen (concat (len_chunks n)) (n, False) (REDIS_RDB_LENERR, False)"
proof (cases "n < 64")
  case True
  have "reads rdbLoadLen [of_nat n] (n, False) (REDIS_RDB_LENERR, False)"
    by (rule reads_LoadLen_first [OF reads_return]) (simp add: rdbLoadLen_def Let_def len_byte [OF True])
  then show ?thesis using True by (simp add: len_chunks_def)
next
  case n64: False
  show ?thesis
  proof (cases "n < 16384")
    case True
    define h where "h = n div 256"
    have h: "h < 64" "h * 256 + n mod 256 = n" using True by (simp_all add: h_def)
    define g where "g = (\<lambda>r :: 'd rio. case rioRead r 1 of
        (None, r) \<Rightarrow> ((REDIS_RDB_LENERR, False), r)
      | (Some b1, r) \<Rightarrow> ((h * 256 + unat (b1 ! 0), False), r))"
    have "reads g ([of_nat n] @ []) (n, False) (REDIS_RDB_LENERR, False)"
      by (rule reads_compose [OF reads_rioRead [of "[of_nat n]" 1] reads_return])
        (auto simp: g_def unat_of_nat h(2) split: prod.splits)
    then have "reads g [of_nat n] (n, False) (REDIS_RDB_LENERR, False)" by simp
    then have "reads rdbLoadLen [of_nat h OR 64, of_nat n] (n, False) (REDIS_RDB_LENERR, False)"
      by (rule reads_LoadLen_first) (simp add: rdbLoadLen_def Let_def len_byte [OF h(1)] g_def split: prod.splits option.splits)
    then show ?thesis using n64 True by (simp add: len_chunks_def h_def)
  next
    case False
    define g where "g = (\<lambda>r :: 'd rio. case rioRead r 4 of
        (None, r) \<Rightarrow> ((REDIS_RDB_LENERR, False), r)
      | (Some b, r) \<Rightarrow> ((ntohl_bytes b, False), r))"
    have "reads g (htonl_bytes n @ []) (n, False) (REDIS_RDB_LENERR, False)"
      by (rule reads_compose [OF reads_rioRead [of "htonl_bytes n" 4] reads_return])
        (auto simp: g_def ntohl_htonl [OF assms] split: prod.splits)
    then have "reads g (htonl_bytes n) (n, False) (REDIS_RDB_LENERR, False)" by simp
    then have "reads rdbLoadLen (128 # htonl_bytes n) (n, False) (REDIS_RDB_LENERR, False)"
      by (rule reads_LoadLen_first) (simp add: rdbLoadLen_def Let_def g_def len_type_128)
    then show ?thesis using n64 False by (simp add: len_chunks_def)
  qed
qed

lemma reads_load_len:
  assumes "n < REDIS_RDB_LENERR"
  shows "reads load_len (concat (len_chunks n)) (Loaded n) LoadError"
proof -
  have "n < 4294967296" using assms by simp
  have "reads load_len (concat (len_chunks n) @ []) (Loaded n) LoadError"
    by (rule reads_compose [OF reads_LoadLen [OF \<open>n < 4294967296\<close>] reads_return])
      (use assms in \<open>auto simp: load_len_def split: prod.splits\<close>)
  then show ?thesis by simp
qed

end

section \<open>Integers\<close>

lemma word16_bytes:
  "(ucast (word_of_int v :: u8) OR push_bit 8 (ucast (word_of_int (drop_bit 8 v) :: u8)) :: 16 word) = word_of_int v"
  by (rule bit_word_eqI) (auto simp: bit_simps)

lemma word32_bytes:
  "(ucast (word_of_int v :: u8) OR push_bit 8 (ucast (word_of_int (drop_bit 8 v) :: u8)) OR
    push_bit 16 (ucast (word_of_int (drop_bit 16 v) :: u8)) OR
    push_bit 24 (ucast (word_of_int (drop_bit 24 v) :: u8)) :: 32 word) = word_of_int v"
proof (rule bit_word_eqI)
  fix n assume n: "n < LENGTH(32)"
  consider "n < 8" | "8 \<le> n" "n < 16" | "16 \<le> n" "n < 24" | "24 \<le> n" by linarith
  then show "bit (ucast (word_of_int v :: u8) OR push_bit 8 (ucast (word_of_int (drop_bit 8 v) :: u8)) OR
      push_bit 16 (ucast (word_of_int (drop_bit 16 v) :: u8)) OR
      push_bit 24 (ucast (word_of_int (drop_bit 24 v) :: u8)) :: 32 word) n = bit (word_of_int v :: 32 word) n"
    using n by cases (auto simp: bit_simps)
qed

text \<open>The first byte of an encoded integer names its width.\<close>

definition int_kind :: "int \<Rightarrow> nat" where
  "int_kind v = (if v \<ge> - 128 \<and> v \<le> 127 then 0 else if v \<ge> - 32768 \<and> v \<le> 32767 then 1 else 2)"

lemma encode_integer_head:
  "rdbEncodeInteger v \<noteq> [] \<Longrightarrow> rdbEncodeInteger v = (of_nat (int_kind v) OR 192) # tl (rdbEncodeInteger v)"
  by (auto simp: rdbEncodeInteger_def int_kind_def)

lemma encode_integer_int64: "rdbEncodeInteger v \<noteq> [] \<Longrightarrow> is_int64 v"
  by (auto simp: rdbEncodeInteger_def int_range split: if_splits)

lemma length_encode_integer: "length (rdbEncodeInteger v) \<le> 5"
  by (simp add: rdbEncodeInteger_def)

definition int_obj :: "bool \<Rightarrow> int \<Rightarrow> strobj" where
  "int_obj encode v = (if encode then IntString v else RawString (ll_repr v))"

context stream
begin

lemma reads_integer:
  assumes "rdbEncodeInteger v \<noteq> []"
  shows "reads (rdbLoadIntegerObject (int_kind v) encode) (tl (rdbEncodeInteger v))
    (Loaded (int_obj encode v)) LoadError"
proof -
  define mk where "mk val = Loaded (if encode then IntString val else RawString (sds_str (sdsfromlonglong val)))" for val
  have obj: "mk v = Loaded (int_obj encode v)"
    using sdsfromlonglong_spec(3) [OF encode_integer_int64 [OF assms]] by (simp add: int_obj_def mk_def)
  consider (k8) "v \<ge> - 128 \<and> v \<le> 127" | (k16) "\<not> (v \<ge> - 128 \<and> v \<le> 127)" "v \<ge> - 32768 \<and> v \<le> 32767"
    | (k32) "\<not> (v \<ge> - 128 \<and> v \<le> 127)" "\<not> (v \<ge> - 32768 \<and> v \<le> 32767)" "v \<ge> - 2147483648 \<and> v \<le> 2147483647"
    using assms by (auto simp: rdbEncodeInteger_def split: if_splits)
  then show ?thesis
  proof cases
    case k8
    have "sint (word_of_int v :: u8) = v" using k8 by (simp add: signed_of_int signed_take_bit_int_eq_self)
    then show ?thesis
      using reads_map [OF reads_read, of "[word_of_int v]" 1 "\<lambda>enc. mk (sint (enc ! 0))"] k8
      by (auto simp: rdbLoadIntegerObject_def int_kind_def rdbEncodeInteger_def obj simp flip: mk_def)
  next
    case k16
    have "sint (word_of_int v :: 16 word) = v" using k16 by (simp add: signed_of_int signed_take_bit_int_eq_self)
    then show ?thesis
      using reads_map [OF reads_read, of "[word_of_int v, word_of_int (drop_bit 8 v)]" 2 "\<lambda>enc. mk (sint (ucast (enc ! 0) OR push_bit 8 (ucast (enc ! 1)) :: 16 word))"] k16
      by (auto simp: rdbLoadIntegerObject_def int_kind_def rdbEncodeInteger_def obj word16_bytes simp flip: mk_def)
  next
    case k32
    have "sint (word_of_int v :: 32 word) = v" using k32 by (simp add: signed_of_int signed_take_bit_int_eq_self)
    then show ?thesis
      using reads_map [OF reads_read, of "[word_of_int v, word_of_int (drop_bit 8 v), word_of_int (drop_bit 16 v),
        word_of_int (drop_bit 24 v)]" 4 "\<lambda>enc. mk (sint (ucast (enc ! 0) OR push_bit 8 (ucast (enc ! 1)) OR
          push_bit 16 (ucast (enc ! 2)) OR push_bit 24 (ucast (enc ! 3)) :: 32 word))"] k32
      by (auto simp: rdbLoadIntegerObject_def int_kind_def rdbEncodeInteger_def obj word32_bytes simp flip: mk_def)
  qed
qed

end

section \<open>Strings round trip\<close>

primrec strobj_bytes :: "strobj \<Rightarrow> bytes" where
  "strobj_bytes (RawString s) = s"
| "strobj_bytes (IntString v) = ll_repr v"

text \<open>The compressed form of a string, when the save functions choose it, and the blocks
  written for a string.\<close>

definition lzf_form :: "rdbconf \<Rightarrow> bytes \<Rightarrow> bytes" where
  "lzf_form conf s =
    (if rdb_compression conf \<and> length s > 20 then
       (case lzf_compress (htab conf s) s (length s - 4) (length s - 4 + 1) of Inl _ \<Rightarrow> [] | Inr c \<Rightarrow> c)
     else [])"

definition raw_chunks :: "rdbconf \<Rightarrow> bytes \<Rightarrow> bytes list" where
  "raw_chunks conf s =
    (let enc = (if length s \<le> 11 then rdbTryIntegerEncoding s else []); c = lzf_form conf s in
     if enc \<noteq> [] then [enc]
     else if c \<noteq> [] then [195] # len_chunks (length c) @ len_chunks (length s) @ [c]
     else len_chunks (length s) @ (if s = [] then [] else [s]))"

definition long_chunks :: "int \<Rightarrow> bytes list" where
  "long_chunks v =
    (let enc = rdbEncodeInteger v in
     if enc \<noteq> [] then [enc] else len_chunks (length (ll_repr v)) @ [ll_repr v])"

definition string_chunks :: "rdbconf \<Rightarrow> strobj \<Rightarrow> bytes list" where
  "string_chunks conf obj = (case obj of IntString v \<Rightarrow> long_chunks v | RawString s \<Rightarrow> raw_chunks conf s)"

lemma lzf_form_spec:
  assumes "lzf_form conf s \<noteq> []"
  shows "length (lzf_form conf s) \<le> length s - 4" "lzf_decompress (lzf_form conf s) (length s) = Inr s" "length s > 20"
proof -
  show l: "length s > 20" using assms by (simp add: lzf_form_def split: if_splits)
  obtain c where c: "lzf_compress (htab conf s) s (length s - 4) (length s - 4 + 1) = Inr c" "lzf_form conf s = c"
    using assms by (simp add: lzf_form_def split: if_splits sum.splits)
  show "length (lzf_form conf s) \<le> length s - 4"
    using lzf_compress_bounds [where htab = "htab conf s" and d = s, OF refl, of "length s - 4"] c by simp
  show "lzf_decompress (lzf_form conf s) (length s) = Inr s"
    using lzf_roundtrip [OF c(1)] c(2) by simp
qed

lemma saves_lzf:
  assumes "lzf_form conf s \<noteq> []" "length s < 4294967296"
  shows "saves (rdbSaveLzfStringObject conf s :: 'd rio option \<Rightarrow> int \<times> 'd rio option)
    ([195] # len_chunks (length (lzf_form conf s)) @ len_chunks (length s) @ [lzf_form conf s])"
proof -
  define c where "c = lzf_form conf s"
  have l: "length s > 20" "length c < 4294967296" using lzf_form_spec [OF assms(1)] assms(2) by (simp_all add: c_def)
  have c: "lzf_compress (htab conf s) s (length s - 4) (length s - 4 + 1) = Inr c" "c \<noteq> []"
    using assms(1) by (auto simp: lzf_form_def c_def split: if_splits sum.splits)
  have "(rdbSaveLzfStringObject conf s :: 'd rio option \<Rightarrow> int \<times> 'd rio option) =
      save_then (rdbWriteRaw [195]) (save_then (rdbSaveLen (length c)) (save_then (rdbSaveLen (length s)) (rdbWriteRaw c)))"
    using c l by (auto simp: rdbSaveLzfStringObject_def)
  moreover have "saves (save_then (rdbWriteRaw [195] :: 'd rio option \<Rightarrow> int \<times> 'd rio option) (save_then (rdbSaveLen (length c)) (save_then (rdbSaveLen (length s)) (rdbWriteRaw c))))
      ([[195]] @ len_chunks (length c) @ len_chunks (length s) @ [c])"
    using l assms(2) by (intro saves_then saves_raw saves_len)
  ultimately show ?thesis by (simp add: c_def)
qed

lemma lzf_no_form:
  assumes "lzf_form conf s = []" "rdb_compression conf" "length s > 20"
  shows "rdbSaveLzfStringObject conf s rdb = (0, rdb)"
  using assms by (auto simp: lzf_form_def rdbSaveLzfStringObject_def split: sum.splits)

lemma saves_RawString:
  assumes "length s < 4294967296"
  shows "saves (rdbSaveRawString conf s :: 'd rio option \<Rightarrow> int \<times> 'd rio option) (raw_chunks conf s)"
proof -
  define enc where "enc = (if length s \<le> 11 then rdbTryIntegerEncoding s else [])"
  have plain: "saves (save_then (rdbSaveLen (length s) :: 'd rio option \<Rightarrow> int \<times> 'd rio option) (if length s > 0 then rdbWriteRaw s else (\<lambda>rdb. (0, rdb))))
      (len_chunks (length s) @ (if s = [] then [] else [s]))"
    using assms by (intro saves_then saves_len) (auto intro: saves_raw saves_nothing)
  show ?thesis
  proof (cases "enc = []")
    case False
    then have "(rdbSaveRawString conf s :: 'd rio option \<Rightarrow> int \<times> 'd rio option) = rdbWriteRaw enc" "raw_chunks conf s = [enc]"
      by (auto simp: rdbSaveRawString_def raw_chunks_def Let_def simp flip: enc_def)
    then show ?thesis using saves_raw by simp
  next
    case enc: True
    show ?thesis
    proof (cases "lzf_form conf s = []")
      case True
      then have "(rdbSaveRawString conf s :: 'd rio option \<Rightarrow> int \<times> 'd rio option) = save_then (rdbSaveLen (length s)) (if length s > 0 then rdbWriteRaw s else (\<lambda>rdb. (0, rdb)))"
        using enc by (intro ext) (auto simp: rdbSaveRawString_def Let_def lzf_no_form [OF True] simp flip: enc_def)
      moreover have "raw_chunks conf s = len_chunks (length s) @ (if s = [] then [] else [s])"
        using enc True by (simp add: raw_chunks_def Let_def flip: enc_def)
      ultimately show ?thesis using plain by simp
    next
      case False
      define ws where "ws = [195] # len_chunks (length (lzf_form conf s)) @ len_chunks (length s) @ [lzf_form conf s]"
      have ws: "raw_chunks conf s = ws" using enc False by (simp add: raw_chunks_def Let_def ws_def flip: enc_def)
      have lz: "saves (rdbSaveLzfStringObject conf s :: 'd rio option \<Rightarrow> int \<times> 'd rio option) ws" unfolding ws_def by (rule saves_lzf [OF False assms])
      have cond: "rdb_compression conf" "length s > 20" using False by (auto simp: lzf_form_def split: if_splits)
      show ?thesis
        unfolding ws saves_def
      proof (intro impI allI)
        fix rdb :: "'d rio option"
        assume "length (concat ws) < 2147483648"
        then have "rdbSaveLzfStringObject conf s rdb = save_result ws rdb" using lz by (simp add: saves_def)
        moreover have "fst (save_result ws rdb) = - 1 \<or> fst (save_result ws rdb) > 0"
          by (auto simp: save_result_def ws_def split: option.splits prod.splits)
        moreover have "fst (save_result ws rdb) = - 1 \<Longrightarrow> (- 1, snd (save_result ws rdb)) = save_result ws rdb"
          by (metis prod.collapse)
        ultimately show "rdbSaveRawString conf s rdb = save_result ws rdb"
          using enc cond by (auto simp: rdbSaveRawString_def Let_def simp flip: enc_def split: prod.splits)
      qed
    qed
  qed
qed

lemma length_ll_repr: "is_int64 v \<Longrightarrow> length (ll_repr v) < 21"
  by (rule sdsfromlonglong_spec(1))

lemma ll2string_32: "is_int64 v \<Longrightarrow>
    ll2string (replicate 32 0) 32 v = (length (ll_repr v), buf_put (replicate 32 0) 0 (ll_repr v @ [0]))"
  using length_ll_repr [of v] ll2string_eq [of v 32 "replicate 32 0"] by simp

lemma saves_LongLong:
  assumes "is_int64 v"
  shows "saves (rdbSaveLongLongAsStringObject v) (long_chunks v)"
proof (cases "rdbEncodeInteger v = []")
  case False
  then show ?thesis by (auto simp: rdbSaveLongLongAsStringObject_def long_chunks_def Let_def intro: saves_raw)
next
  case True
  have "take (length (ll_repr v)) (buf_put (replicate 32 0) 0 (ll_repr v @ [0])) = ll_repr v"
    by (simp add: buf_put_def)
  moreover have "saves (save_then (rdbSaveLen (length (ll_repr v))) (rdbWriteRaw (ll_repr v)))
      (len_chunks (length (ll_repr v)) @ [ll_repr v])"
    using length_ll_repr [OF assms] by (intro saves_then saves_len saves_raw) simp
  ultimately show ?thesis
    using True ll2string_32 [OF assms] by (simp add: rdbSaveLongLongAsStringObject_def long_chunks_def)
qed

text \<open>The objects the server holds: strings below the limit of a length, 64-bit integers.\<close>

definition strobj_ok :: "strobj \<Rightarrow> bool" where
  "strobj_ok obj = (case obj of RawString s \<Rightarrow> length s < REDIS_RDB_LENERR | IntString v \<Rightarrow> is_int64 v)"

lemma saves_string: "strobj_ok obj \<Longrightarrow> saves (rdbSaveStringObject conf obj) (string_chunks conf obj)"
  by (cases obj) (auto simp: strobj_ok_def rdbSaveStringObject_def string_chunks_def
      intro: saves_RawString saves_LongLong)

lemma ll_repr_no_nul: "takeWhile (\<lambda>c. c \<noteq> 0) (ll_repr v @ 0 # rest) = ll_repr v"
proof -
  have "list_all (\<lambda>c. c \<noteq> 0) (dec n)" for n
    using dec_digits [of n] by (rule list.pred_mono_strong) (auto simp: is_digit_def)
  then have "\<forall>c \<in> set (ll_repr v). c \<noteq> 0" by (auto simp: ll_repr_abs list_all_iff)
  then show ?thesis by (simp add: takeWhile_append2)
qed

text \<open>Only canonical decimals are turned into integers.\<close>

lemma try_encoding:
  assumes "rdbTryIntegerEncoding s \<noteq> []"
  obtains v where "s = ll_repr v" "rdbTryIntegerEncoding s = rdbEncodeInteger v"
proof -
  obtain v endptr where st: "strtoll (s @ [0]) = (v, endptr)" by fastforce
  have v: "is_int64 v"
    using st by (auto simp: strtoll_def Let_def int_range split: if_splits)
  define buf where "buf = snd (ll2string (replicate 32 0) 32 v)"
  have "buf = ll_repr v @ 0 # drop (Suc (length (ll_repr v))) (replicate 32 0)"
    using ll2string_32 [OF v] by (simp add: buf_def buf_put_def)
  then have "takeWhile (\<lambda>c. c \<noteq> 0) buf = ll_repr v" "take (length (ll_repr v)) buf = ll_repr v"
    using ll_repr_no_nul by simp_all
  then have "rdbTryIntegerEncoding s = (if hd endptr \<noteq> 0 then [] else if ll_repr v \<noteq> s then [] else rdbEncodeInteger v)"
    using st by (auto simp: rdbTryIntegerEncoding_def Let_def simp flip: buf_def)
  with assms that [of v] show thesis by (auto split: if_splits)
qed

context stream
begin

lemma reads_generic_int:
  assumes "rdbEncodeInteger v \<noteq> []"
  shows "reads (rdbGenericLoadStringObject encode) (rdbEncodeInteger v) (Loaded (int_obj encode v)) LoadError"
proof -
  have k: "int_kind v < 64" "int_kind v = 0 \<or> int_kind v = 1 \<or> int_kind v = 2" by (auto simp: int_kind_def)
  have "reads (rdbGenericLoadStringObject encode) ([of_nat (int_kind v) OR 192] @ tl (rdbEncodeInteger v))
      (Loaded (int_obj encode v)) LoadError"
    by (rule reads_compose [OF reads_LoadLen_enc [OF k(1)] reads_integer [OF assms]])
      (use k(2) in \<open>auto simp: rdbGenericLoadStringObject_def split: prod.splits\<close>)
  then show ?thesis using encode_integer_head [OF assms] by simp
qed

lemma reads_generic_plain:
  assumes "length s < REDIS_RDB_LENERR"
  shows "reads (rdbGenericLoadStringObject encode) (concat (len_chunks (length s)) @ s) (Loaded (RawString s)) LoadError"
proof -
  have l: "length s < 4294967296" using assms by simp
  have "reads (load_bind (rdb_read (length s)) (\<lambda>val r. (Loaded (RawString val), r))) s (Loaded (RawString s)) LoadError"
    by (rule reads_map [OF reads_read [OF refl], where h = "\<lambda>val. Loaded (RawString val)"])
  then show ?thesis
    by (rule reads_compose [OF reads_LoadLen [OF l]])
      (use assms in \<open>auto simp: rdbGenericLoadStringObject_def split: prod.splits\<close>)
qed

lemma reads_generic_lzf:
  assumes "lzf_form conf s \<noteq> []" "length s < REDIS_RDB_LENERR"
  shows "reads (rdbGenericLoadStringObject encode)
    (195 # concat (len_chunks (length (lzf_form conf s))) @ concat (len_chunks (length s)) @ lzf_form conf s)
    (Loaded (RawString s)) LoadError"
proof -
  define c where "c = lzf_form conf s"
  note f = lzf_form_spec [OF assms(1), folded c_def]
  have c: "length c < REDIS_RDB_LENERR" using f(1) assms(2) by simp
  have "reads rdbLoadLzfStringObject (concat (len_chunks (length c)) @ concat (len_chunks (length s)) @ c)
      (Loaded (RawString s)) LoadError"
    unfolding rdbLoadLzfStringObject_def
  proof (rule reads_bind [OF reads_load_len [OF c]], rule reads_bind [OF reads_load_len [OF assms(2)]])
    have "s \<noteq> []" using f(3) by auto
    then have v: "(case lzf_decompress c (length s) of
        Inl E2BIG \<Rightarrow> LoadError | Inl EINVAL \<Rightarrow> LoadError | Inl e \<Rightarrow> BadAccess
      | Inr d \<Rightarrow> if d = [] then LoadError else Loaded (RawString (d @ replicate (length s - length d) 0))) = Loaded (RawString s)"
      using f(2) by simp
    have "(\<lambda>ca r. case lzf_decompress ca (length s) of
        Inl E2BIG \<Rightarrow> (LoadError, r) | Inl EINVAL \<Rightarrow> (LoadError, r) | Inl e \<Rightarrow> (BadAccess, r)
      | Inr d \<Rightarrow> if d = [] then (LoadError, r) else (Loaded (RawString (d @ replicate (length s - length d) 0)), r)) =
      (\<lambda>ca r :: 'd rio. (case lzf_decompress ca (length s) of
        Inl E2BIG \<Rightarrow> LoadError | Inl EINVAL \<Rightarrow> LoadError | Inl e \<Rightarrow> BadAccess
      | Inr d \<Rightarrow> if d = [] then LoadError else Loaded (RawString (d @ replicate (length s - length d) 0)), r))"
      by (intro ext) (auto split: sum.splits lzf_error.splits)
    then show "reads (load_bind (rdb_read (length c)) (\<lambda>ca r. case lzf_decompress ca (length s) of
        Inl E2BIG \<Rightarrow> (LoadError, r) | Inl EINVAL \<Rightarrow> (LoadError, r) | Inl e \<Rightarrow> (BadAccess, r)
      | Inr d \<Rightarrow> if d = [] then (LoadError, r) else (Loaded (RawString (d @ replicate (length s - length d) 0)), r)))
      c (Loaded (RawString s)) LoadError"
      using reads_map [OF reads_read [OF refl, of c], where h = "\<lambda>ca. case lzf_decompress ca (length s) of
        Inl E2BIG \<Rightarrow> LoadError | Inl EINVAL \<Rightarrow> LoadError | Inl e \<Rightarrow> BadAccess
      | Inr d \<Rightarrow> if d = [] then LoadError else Loaded (RawString (d @ replicate (length s - length d) 0))"] v by simp
  qed
  then have "reads (rdbGenericLoadStringObject encode)
      ([of_nat 3 OR 192] @ concat (len_chunks (length c)) @ concat (len_chunks (length s)) @ c)
      (Loaded (RawString s)) LoadError"
    by (intro reads_compose [OF reads_LoadLen_enc])
      (auto simp: rdbGenericLoadStringObject_def split: prod.splits)
  then show ?thesis by (simp add: c_def)
qed

text \<open>Whatever form the save functions choose, the load functions give the string back.\<close>

lemma reads_string:
  assumes "strobj_ok obj"
  shows "\<exists>v. reads (rdbGenericLoadStringObject encode) (concat (string_chunks conf obj)) (Loaded v) LoadError \<and>
    strobj_bytes v = strobj_bytes obj \<and> (\<not> encode \<longrightarrow> v = RawString (strobj_bytes obj))"
proof (cases obj)
  case (IntString v)
  then have v: "is_int64 v" using assms by (simp add: strobj_ok_def)
  have "length (ll_repr v) < REDIS_RDB_LENERR" using length_ll_repr [OF v] by simp
  then show ?thesis
    using IntString reads_generic_int [of v encode] reads_generic_plain [of "ll_repr v" encode]
    by (cases "rdbEncodeInteger v = []")
      (auto simp: string_chunks_def long_chunks_def Let_def int_obj_def intro!: exI)
next
  case (RawString s)
  define enc where "enc = (if length s \<le> 11 then rdbTryIntegerEncoding s else [])"
  have l: "length s < REDIS_RDB_LENERR" using assms RawString by (simp add: strobj_ok_def)
  show ?thesis
  proof (cases "enc = []")
    case False
    then have t: "rdbTryIntegerEncoding s \<noteq> []" and e: "enc = rdbTryIntegerEncoding s"
      by (auto simp: enc_def split: if_splits)
    obtain v where v: "s = ll_repr v" "enc = rdbEncodeInteger v" using try_encoding [OF t] e by metis
    have "concat (string_chunks conf obj) = enc"
      using False RawString by (simp add: string_chunks_def raw_chunks_def Let_def flip: enc_def)
    then show ?thesis
      using reads_generic_int [of v encode] False v RawString by (auto simp: int_obj_def intro!: exI)
  next
    case True
    then show ?thesis
      using RawString reads_generic_plain [OF l, of encode] reads_generic_lzf [of conf s, OF _ l, of encode]
      by (cases "lzf_form conf s = []")
        (auto simp: string_chunks_def raw_chunks_def Let_def simp flip: enc_def intro!: exI)
  qed
qed

end

section \<open>What the object functions write\<close>

definition double_chunk :: "rdbconf \<Rightarrow> double \<Rightarrow> bytes" where
  "double_chunk conf d =
    (case d of
       NaN \<Rightarrow> [253]
     | Infinity neg \<Rightarrow> [if neg then 255 else 254]
     | Finite _ _ _ \<Rightarrow> of_nat (length (double_text conf d)) # double_text conf d)"

definition robj_chunks :: "rdbconf \<Rightarrow> robj \<Rightarrow> bytes list" where
  "robj_chunks conf obj =
    (case obj of
       StringObj s \<Rightarrow> string_chunks conf s
     | ListZiplist zl \<Rightarrow> raw_chunks conf zl
     | ListLinked xs \<Rightarrow> len_chunks (length xs) @ concat (map (string_chunks conf) xs)
     | SetHt xs \<Rightarrow> len_chunks (length xs) @ concat (map (string_chunks conf) xs)
     | SetIntset is \<Rightarrow> raw_chunks conf is
     | ZsetZiplist zl \<Rightarrow> raw_chunks conf zl
     | ZsetSkiplist xs \<Rightarrow> len_chunks (length xs) @
         concat (map (\<lambda>(ele, score). string_chunks conf ele @ [double_chunk conf score]) xs)
     | HashZiplist zl \<Rightarrow> raw_chunks conf zl
     | HashHt xs \<Rightarrow> len_chunks (length xs) @
         concat (map (\<lambda>(key, val). string_chunks conf key @ string_chunks conf val) xs))"

definition robj_ok :: "robj \<Rightarrow> bool" where
  "robj_ok obj =
    (case obj of
       StringObj s \<Rightarrow> strobj_ok s
     | ListLinked xs \<Rightarrow> length xs < REDIS_RDB_LENERR \<and> list_all strobj_ok xs
     | SetHt xs \<Rightarrow> length xs < REDIS_RDB_LENERR \<and> list_all strobj_ok xs
     | ZsetSkiplist xs \<Rightarrow> length xs < REDIS_RDB_LENERR \<and> list_all (\<lambda>x. strobj_ok (fst x)) xs
     | HashHt xs \<Rightarrow> length xs < REDIS_RDB_LENERR \<and> list_all (\<lambda>x. strobj_ok (fst x) \<and> strobj_ok (snd x)) xs
     | ListZiplist b \<Rightarrow> length b < REDIS_RDB_LENERR
     | SetIntset b \<Rightarrow> length b < REDIS_RDB_LENERR
     | ZsetZiplist b \<Rightarrow> length b < REDIS_RDB_LENERR
     | HashZiplist b \<Rightarrow> length b < REDIS_RDB_LENERR)"

lemma saves_double: "saves (rdbSaveDoubleValue conf d) [double_chunk conf d]"
  by (cases d) (auto simp: rdbSaveDoubleValue_def double_chunk_def Let_def intro: saves_raw)

lemma saves_each:
  "(\<And>x. x \<in> set xs \<Longrightarrow> saves (f x) (g x)) \<Longrightarrow> saves (save_each f xs) (concat (map g xs))"
  by (induction xs) (auto intro: saves_nothing saves_then)

lemma saves_object:
  assumes "robj_ok obj"
  shows "saves (rdbSaveObject conf obj) (robj_chunks conf obj)"
proof (cases obj)
  case (ZsetSkiplist xs)
  have "saves (save_then (rdbSaveLen (length xs))
      (save_each (\<lambda>(ele, score). save_then (rdbSaveStringObject conf ele) (rdbSaveDoubleValue conf score)) xs))
    (len_chunks (length xs) @ concat (map (\<lambda>(ele, score). string_chunks conf ele @ [double_chunk conf score]) xs))"
    using assms ZsetSkiplist
    by (intro saves_then saves_len saves_each) (auto simp: robj_ok_def list_all_iff intro!: saves_then saves_string saves_double)
  then show ?thesis using ZsetSkiplist by (simp add: rdbSaveObject_def robj_chunks_def)
next
  case (HashHt xs)
  have "saves (save_then (rdbSaveLen (length xs))
      (save_each (\<lambda>(key, val). save_then (rdbSaveStringObject conf key) (rdbSaveStringObject conf val)) xs))
    (len_chunks (length xs) @ concat (map (\<lambda>(key, val). string_chunks conf key @ string_chunks conf val) xs))"
    using assms HashHt
    by (intro saves_then saves_len saves_each) (auto simp: robj_ok_def list_all_iff intro!: saves_then saves_string)
  then show ?thesis using HashHt by (simp add: rdbSaveObject_def robj_chunks_def)
qed (use assms in \<open>auto simp: rdbSaveObject_def robj_chunks_def robj_ok_def list_all_iff
    intro!: saves_string saves_RawString saves_then saves_len saves_each\<close>)

context stream
begin

lemma write_all_spec:
  assumes "streams r" "has_room r (length (concat ws))" "write_all r ws = (ok, r')"
  shows "streams r' \<and> (\<exists>k. written r' = written r @ take k (concat ws)) \<and>
    (ok \<longrightarrow> written r' = written r @ concat ws)"
  using assms
proof (induction ws arbitrary: r)
  case Nil
  then show ?case by auto
next
  case (Cons b ws)
  obtain w r1 where w: "rioWrite r b = (w, r1)" by (cases "rioWrite r b")
  have "has_room r (length b)" using Cons.prems(2) has_room_le by simp
  from rioWrite_spec [OF Cons.prems(1) this w] obtain k where
    k: "streams r1" "written r1 = written r @ take k b" "w \<Longrightarrow> length b \<le> k"
    "w \<Longrightarrow> has_room r (length b + m) \<Longrightarrow> has_room r1 m" for m by blast
  show ?case
  proof (cases w)
    case False
    have "take k b = take (min k (length b)) (concat (b # ws))" by (simp add: min_def)
    then show ?thesis
      using k(1,2) False w Cons.prems(3) by (auto intro!: exI [of _ "min k (length b)"])
  next
    case True
    have "has_room r1 (length (concat ws))" using k(4) [OF True] Cons.prems(2) by simp
    moreover have "write_all r1 ws = (ok, r')" using w True Cons.prems(3) by simp
    ultimately have IH: "streams r'" "\<exists>k. written r' = written r1 @ take k (concat ws)"
      "ok \<longrightarrow> written r' = written r1 @ concat ws" using Cons.IH [OF k(1)] by simp_all
    then obtain k' where "written r' = written r1 @ take k' (concat ws)" by blast
    then have "written r' = written r @ take (length b + k') (concat (b # ws))" using k(2,3) True by simp
    then have "\<exists>k. written r' = written r @ take k (concat (b # ws))" by blast
    then show ?thesis using IH(1,3) k(2,3) True by simp
  qed
qed

lemma saves_written:
  assumes "saves f ws" "length (concat ws) < 2147483648" "streams r" "has_room r (length (concat ws))"
    and "f (Some r) = (n, rdb)" "n \<noteq> - 1"
  shows "\<exists>r'. rdb = Some r' \<and> n = int (length (concat ws)) \<and> streams r' \<and> written r' = written r @ concat ws"
proof -
  obtain ok r' where w: "write_all r ws = (ok, r')" by (cases "write_all r ws")
  then have "f (Some r) = (if ok then int (length (concat ws)) else - 1, Some r')"
    using assms(1,2) by (simp add: saves_def save_result_def)
  then have "ok" "rdb = Some r'" "n = int (length (concat ws))" using assms(5,6) by (auto split: if_splits)
  then show ?thesis using write_all_spec [OF assms(3,4) w] by simp
qed

end

context reliable_stream
begin

lemma write_all_ok: "streams r \<Longrightarrow> has_room r (length (concat ws)) \<Longrightarrow> fst (write_all r ws)"
proof (induction ws arbitrary: r)
  case (Cons b ws)
  have room: "has_room r (length b)" using Cons.prems(2) has_room_le by simp
  obtain w r1 where w: "rioWrite r b = (w, r1)" by (cases "rioWrite r b")
  have w: "rioWrite r b = (True, r1)" using rioWrite_ok [OF Cons.prems(1) room] w by simp
  have "streams r1" "has_room r1 (length (concat ws))"
    using rioWrite_spec [OF Cons.prems(1) room w] Cons.prems(2) by simp_all
  then show ?case using w Cons.IH by simp
qed simp

end

lemma saves_null: "saves f ws \<Longrightarrow> length (concat ws) < 2147483648 \<Longrightarrow> fst (f None) = int (length (concat ws))"
  by (simp add: saves_def save_result_def)

lemma length_len_chunks: "length (concat (len_chunks n)) \<le> 5"
  by (simp add: len_chunks_def)

lemma length_string_chunks:
  assumes "length (strobj_bytes obj) \<le> 536870912" "strobj_ok obj"
  shows "length (concat (string_chunks conf obj)) < 2147483648"
proof -
  have r: "length (concat (raw_chunks conf s)) < 2147483648" if "length s \<le> 536870912" for s
  proof -
    have "length (lzf_form conf s) \<le> length s" if "lzf_form conf s \<noteq> []"
      using lzf_form_spec(1) [OF that] by linarith
    moreover have "length (rdbTryIntegerEncoding s) \<le> 5"
      by (metis length_encode_integer list.size(3) try_encoding zero_le)
    ultimately show ?thesis
      using \<open>length s \<le> 536870912\<close> length_len_chunks [of "length s"] length_len_chunks [of "length (lzf_form conf s)"]
      by (auto simp: raw_chunks_def Let_def)
  qed
  show ?thesis
  proof (cases obj)
    case (RawString s)
    then show ?thesis using r assms(1) by (simp add: string_chunks_def)
  next
    case (IntString v)
    then have "length (ll_repr v) < 21" using assms(2) length_ll_repr by (simp add: strobj_ok_def)
    then show ?thesis
      using IntString length_len_chunks [of "length (ll_repr v)"] length_encode_integer [of v]
      by (auto simp: string_chunks_def long_chunks_def Let_def)
  qed
qed

section \<open>What the dump writes\<close>

text \<open>\<open>emits f ws\<close>: \<open>f\<close> writes the blocks \<open>ws\<close> and returns -1 exactly when that fails;
  no other result is negative, so the sums of \<open>save_then\<close> stay away from -1.\<close>

definition emits :: "('d rio option \<Rightarrow> int \<times> 'd rio option) \<Rightarrow> bytes list \<Rightarrow> bool" where
  "emits f ws \<longleftrightarrow>
    (\<forall>r. \<exists>n r'. f (Some r) = (n, Some r') \<and> write_all r ws = (n \<noteq> - 1, r') \<and> - 1 \<le> n)"

lemma emitsE:
  assumes "emits f ws"
  obtains n r' where "f (Some r) = (n, Some r')" "write_all r ws = (n \<noteq> - 1, r')" "- 1 \<le> n"
  using assms unfolding emits_def by blast

lemma saves_emits: "saves f ws \<Longrightarrow> length (concat ws) < 2147483648 \<Longrightarrow> emits f ws"
  unfolding emits_def saves_def save_result_def by (auto split: prod.splits)

lemma emits_nothing: "emits (\<lambda>rdb. (0, rdb)) []"
  by (simp add: emits_def)

lemma emits_result_is:
  assumes "emits f ws" "0 \<le> n"
  shows "emits (save_result_is n f) ws"
  unfolding emits_def
proof
  fix r
  show "\<exists>m r'. save_result_is n f (Some r) = (m, Some r') \<and> write_all r ws = (m \<noteq> - 1, r') \<and> - 1 \<le> m"
    by (rule emitsE [OF assms(1), of r]) (use assms(2) in \<open>auto simp: save_result_is_def\<close>)
qed

lemma emits_then:
  assumes "emits f ws" "emits g vs"
  shows "emits (save_then f g) (ws @ vs)"
  unfolding emits_def
proof
  fix r
  obtain n r1 where f: "f (Some r) = (n, Some r1)" "write_all r ws = (n \<noteq> - 1, r1)" "- 1 \<le> n"
    by (rule emitsE [OF assms(1)])
  obtain m r2 where g: "g (Some r1) = (m, Some r2)" "write_all r1 vs = (m \<noteq> - 1, r2)" "- 1 \<le> m"
    by (rule emitsE [OF assms(2)])
  show "\<exists>n r'. save_then f g (Some r) = (n, Some r') \<and> write_all r (ws @ vs) = (n \<noteq> - 1, r') \<and> - 1 \<le> n"
    using f g by (auto simp: save_then_def write_all_append)
qed

lemma emits_each:
  "(\<And>x. x \<in> set xs \<Longrightarrow> emits (f x) (g x)) \<Longrightarrow> emits (save_each f xs) (concat (map g xs))"
  by (induction xs) (auto intro: emits_nothing emits_then)

text \<open>The blocks of a key, of a database and of the whole dump, and the bounds under which
  no length overflows an \<open>int\<close>.\<close>

definition kv_chunks :: "rdbconf \<Rightarrow> int \<Rightarrow> bytes \<times> robj \<times> int \<Rightarrow> bytes list" where
  "kv_chunks conf now x =
    (case x of (key, val, expire) \<Rightarrow>
       if expire \<noteq> - 1 \<and> expire < now then []
       else (if expire \<noteq> - 1 then [[252], le_bytes 8 expire] else []) @
         [[of_nat (rdbObjectType val)]] @ string_chunks conf (RawString key) @ robj_chunks conf val)"

definition db_chunks :: "rdbconf \<Rightarrow> int \<Rightarrow> nat \<Rightarrow> rdb_db \<Rightarrow> bytes list" where
  "db_chunks conf now j db =
    (if db = [] then [] else [254] # len_chunks j @ concat (map (kv_chunks conf now) db))"

primrec dbs_chunks :: "rdbconf \<Rightarrow> int \<Rightarrow> nat \<Rightarrow> rdb_db list \<Rightarrow> bytes list" where
  "dbs_chunks conf now j [] = []"
| "dbs_chunks conf now j (db # dbs) = db_chunks conf now j db @ dbs_chunks conf now (Suc j) dbs"

definition dump_chunks :: "rdbconf \<Rightarrow> int \<Rightarrow> rdb_db list \<Rightarrow> bytes list" where
  "dump_chunks conf now dbs = [rdb_magic] @ dbs_chunks conf now 0 dbs @ [[255]]"

definition kv_ok :: "rdbconf \<Rightarrow> bytes \<times> robj \<times> int \<Rightarrow> bool" where
  "kv_ok conf x = (case x of (key, val, expire) \<Rightarrow>
     length key \<le> 536870912 \<and> robj_ok val \<and> length (concat (robj_chunks conf val)) < 2147483648)"

lemma emits_kv:
  assumes "kv_ok conf (key, val, expire)"
  shows "emits (rdbSaveKeyValuePair conf (RawString key) val expire now :: 'd rio option \<Rightarrow> int \<times> 'd rio option) (kv_chunks conf now (key, val, expire))"
proof (cases "expire \<noteq> - 1 \<and> expire < now")
  case True
  then show ?thesis by (simp add: rdbSaveKeyValuePair_def kv_chunks_def emits_nothing)
next
  case False
  have raw: "emits (rdbWriteRaw b :: 'd rio option \<Rightarrow> int \<times> 'd rio option) [b]" if "length b < 100" for b
    using that by (intro saves_emits saves_raw) simp
  have k: "strobj_ok (RawString key)" "length (strobj_bytes (RawString key)) \<le> 536870912"
    using assms by (simp_all add: kv_ok_def strobj_ok_def)
  have v: "robj_ok val" "length (concat (robj_chunks conf val)) < 2147483648"
    using assms by (simp_all add: kv_ok_def)
  have body: "emits (save_then (rdbSaveObjectType val :: 'd rio option \<Rightarrow> int \<times> 'd rio option)
      (save_then (rdbSaveStringObject conf (RawString key)) (rdbSaveObject conf val)))
      ([[of_nat (rdbObjectType val)]] @ string_chunks conf (RawString key) @ robj_chunks conf val)"
    unfolding rdbSaveObjectType_def rdbSaveType_def
    by (intro emits_then raw saves_emits [OF saves_string [OF k(1)] length_string_chunks [OF k(2,1)]]
        saves_emits [OF saves_object [OF v(1)] v(2)]) simp
  have exp: "emits (if expire \<noteq> - 1 then save_then (rdbSaveType 252) (rdbSaveMillisecondTime expire)
        else (\<lambda>rdb :: 'd rio option. (0, rdb))) (if expire \<noteq> - 1 then [[252], le_bytes 8 expire] else [])"
    using emits_then [OF raw raw, of "[252]" "le_bytes 8 expire"]
    by (simp add: rdbSaveType_def rdbSaveMillisecondTime_def emits_nothing)
  have "emits (save_result_is 1 (save_then
      (if expire \<noteq> - 1 then save_then (rdbSaveType 252) (rdbSaveMillisecondTime expire) else (\<lambda>rdb :: 'd rio option. (0, rdb)))
      (save_then (rdbSaveObjectType val) (save_then (rdbSaveStringObject conf (RawString key)) (rdbSaveObject conf val)))))
    ((if expire \<noteq> - 1 then [[252], le_bytes 8 expire] else []) @
      [[of_nat (rdbObjectType val)]] @ string_chunks conf (RawString key) @ robj_chunks conf val)"
    by (rule emits_result_is [OF emits_then [OF exp body]]) simp
  then show ?thesis unfolding rdbSaveKeyValuePair_def kv_chunks_def using False by (simp only: if_False prod.case)
qed

lemma emits_raw: "length b < 2147483648 \<Longrightarrow> emits (rdbWriteRaw b) [b]"
  by (intro saves_emits saves_raw) simp

lemma emits_db:
  assumes "list_all (kv_ok conf) db" "j < 4294967296"
  shows "emits (rdbSaveDb conf now j db) (db_chunks conf now j db)"
proof (cases "db = []")
  case True
  then show ?thesis by (simp add: rdbSaveDb_def db_chunks_def emits_nothing)
next
  case False
  have kv: "emits (case x of (key, val, expire) \<Rightarrow> rdbSaveKeyValuePair conf (RawString key) val expire now)
      (kv_chunks conf now x)" if "x \<in> set db" for x
    using assms(1) that by (cases x) (auto simp: list_all_iff intro!: emits_kv)
  have len: "emits (rdbSaveLen j) (len_chunks j)"
    using length_len_chunks [of j] by (intro saves_emits saves_len assms(2)) linarith
  have "emits (save_then (rdbSaveType 254) (save_then (rdbSaveLen j)
      (save_each (\<lambda>(key, val, expire). rdbSaveKeyValuePair conf (RawString key) val expire now) db)))
    ([[254]] @ len_chunks j @ concat (map (kv_chunks conf now) db))"
    unfolding rdbSaveType_def
    by (intro emits_then len emits_each kv) (auto intro: emits_raw)
  then show ?thesis using False by (simp add: rdbSaveDb_def db_chunks_def)
qed

lemma emits_dbs:
  "list_all (list_all (kv_ok conf)) dbs \<Longrightarrow> j + length dbs < 4294967296 \<Longrightarrow>
    emits (rdbSaveDbs conf now j dbs) (dbs_chunks conf now j dbs)"
  by (induction dbs arbitrary: j) (auto intro: emits_nothing intro!: emits_then emits_db)

lemma emits_dump:
  assumes "list_all (list_all (kv_ok conf)) dbs" "length dbs < 4294967296"
  shows "emits (save_then (rdbWriteRaw rdb_magic) (save_then (rdbSaveDbs conf now 0 dbs) (rdbSaveType 255)))
    (dump_chunks conf now dbs)"
  unfolding dump_chunks_def rdbSaveType_def
  by (intro emits_then emits_dbs emits_raw) (use assms in \<open>auto simp: rdb_magic_def intro: emits_raw\<close>)

section \<open>The properties\<close>

text \<open>What a file stream has taken, and what it has yet to deliver.\<close>

definition file_sent :: "fileio rio \<Rightarrow> bytes" where
  "file_sent r = take (fpos (fp (rio_io r))) (fdata (fp (rio_io r)))"

definition file_left :: "fileio rio \<Rightarrow> bytes" where
  "file_left r = drop (fpos (fp (rio_io r))) (fdata (fp (rio_io r)))"

definition file_stream :: "fileio rio \<Rightarrow> bool" where
  "file_stream r \<longleftrightarrow> rread r = rioFileRead \<and> rwrite r = rioFileWrite \<and> file_good (rio_io r)"

lemma file_stream_eqs: "file_stream r \<longleftrightarrow> file_io.streams r" "file_sent r = file_io.written r"
  "file_left r = file_io.unread r" "file_io.has_room r n"
  by (simp_all add: file_stream_def file_io.streams_def file_sent_def file_io.written_def file_left_def
      file_io.unread_def file_io.has_room_def)

text \<open>C27: a string object, in any of the four forms the save functions choose between
  (an encoded integer, LZF, verbatim, or a decimal), is read back as the same bytes, at
  whatever place of whatever file it was written, whatever the chunk sizes, and the reader is
  left behind it.\<close>

theorem rdb_string_roundtrip:
  assumes "strobj_ok obj" "length (strobj_bytes obj) \<le> 536870912"
    and "file_stream w" "rdbSaveStringObject conf obj (Some w) = (n, Some w')" "n \<noteq> - 1"
    and "file_stream r" "file_sent w @ file_left r = file_sent w' @ rest"
  shows "\<exists>v r'. rdbGenericLoadStringObject encode r = (Loaded v, r') \<and> strobj_bytes v = strobj_bytes obj \<and>
    (\<not> encode \<longrightarrow> v = RawString (strobj_bytes obj)) \<and> file_left r' = rest"
proof -
  define bs where "bs = concat (string_chunks conf obj)"
  have "file_io.streams w" "file_io.streams r" using assms(3,6) by (simp_all add: file_stream_eqs)
  from file_io.saves_written [OF saves_string [OF assms(1)] length_string_chunks [OF assms(2,1)] this(1)
      file_stream_eqs(4) assms(4,5)]
  have "file_sent w' = file_sent w @ bs" by (simp add: bs_def file_stream_eqs)
  then have u: "file_io.unread r = bs @ rest" using assms(7) by (simp add: file_stream_eqs)
  obtain v where v: "file_io.reads (rdbGenericLoadStringObject encode) bs (Loaded v) LoadError"
    "strobj_bytes v = strobj_bytes obj" "\<not> encode \<longrightarrow> v = RawString (strobj_bytes obj)"
    using file_io.reads_string [OF assms(1), of encode conf] by (auto simp: bs_def)
  from file_io.readsD(1) [OF v(1) \<open>file_io.streams r\<close> u] show ?thesis
    using v(2,3) by (auto simp: file_stream_eqs)
qed

text \<open>C28: a file that ends inside a saved string is reported as an error by the load
  function: no proper prefix of what was written is taken for another string, makes it panic
  or makes the decompressor read out of bounds.\<close>

theorem rdb_string_truncated:
  assumes "strobj_ok obj" "length (strobj_bytes obj) \<le> 536870912"
    and "file_stream w" "rdbSaveStringObject conf obj (Some w) = (n, Some w')" "n \<noteq> - 1"
    and "file_stream r" "strict_prefix (file_sent w @ file_left r) (file_sent w')"
  shows "fst (rdbGenericLoadStringObject encode r) = LoadError"
proof -
  define bs where "bs = concat (string_chunks conf obj)"
  have "file_io.streams w" "file_io.streams r" using assms(3,6) by (simp_all add: file_stream_eqs)
  from file_io.saves_written [OF saves_string [OF assms(1)] length_string_chunks [OF assms(2,1)] this(1)
      file_stream_eqs(4) assms(4,5)]
  have "file_sent w' = file_sent w @ bs" by (simp add: bs_def file_stream_eqs)
  then have p: "strict_prefix (file_io.unread r) bs"
    using assms(7) by (auto simp: file_stream_eqs strict_prefix_def)
  obtain v where "file_io.reads (rdbGenericLoadStringObject encode) bs (Loaded v) LoadError"
    using file_io.reads_string [OF assms(1), of encode conf] by (auto simp: bs_def)
  from file_io.readsD(2) [OF this \<open>file_io.streams r\<close> p] show ?thesis .
qed

definition demo_conf :: rdbconf where
  "demo_conf = \<lparr>rdb_compression = False, rdb_checksum = True, htab = (\<lambda>_ _. 0), print17 = (\<lambda>_. [51, 46, 53])\<rparr>"

definition demo_file :: "bytes \<Rightarrow> fileio rio" where
  "demo_file b = rioInitWithFile \<lparr>fdata = b, fpos = 0, fspace = 1000, fflushes = []\<rparr>"

lemma demo_file_stream: "file_stream (demo_file b)" "file_sent (demo_file b) = []" "file_left (demo_file b) = b"
  by (simp_all add: demo_file_def rioInitWithFile_def file_stream_def file_good_def file_sent_def file_left_def)

lemma demo_save:
  "\<exists>w. rdbSaveStringObject demo_conf (RawString [104, 105]) (Some (demo_file [])) = (3, Some w) \<and>
    file_sent w = [2, 104, 105]"
  by (simp add: rdbSaveStringObject_def rdbSaveRawString_def rdbTryIntegerEncoding_def strtoll_def isspace_def
      is_digit_def demo_conf_def save_then_def rdbSaveLen_def rdbWriteRaw_def rioWrite.simps rio_chunk_def
      rio_cksum_def rio_count_def demo_file_def rioInitWithFile_def rioFileWrite_def fwrite_def Let_def to_int32_small
      file_sent_def)

theorem rdb_string_roundtrip_witness:
  "\<exists>v r. rdbGenericLoadStringObject True (demo_file [2, 104, 105, 9]) = (Loaded v, r) \<and>
    strobj_bytes v = [104, 105] \<and> file_left r = [9]"
proof -
  obtain w where w: "rdbSaveStringObject demo_conf (RawString [104, 105]) (Some (demo_file [])) = (3, Some w)"
    "file_sent w = [2, 104, 105]" using demo_save by blast
  show ?thesis
    using rdb_string_roundtrip [OF _ _ demo_file_stream(1) w(1) _ demo_file_stream(1), of "[2, 104, 105, 9]" "[9]" True]
      w(2) by (auto simp: strobj_ok_def demo_file_stream)
qed

theorem rdb_string_truncated_witness:
  "fst (rdbGenericLoadStringObject True (demo_file [2, 104])) = LoadError"
proof -
  obtain w where w: "rdbSaveStringObject demo_conf (RawString [104, 105]) (Some (demo_file [])) = (3, Some w)"
    "file_sent w = [2, 104, 105]" using demo_save by blast
  show ?thesis
    using rdb_string_truncated [OF _ _ demo_file_stream(1) w(1) _ demo_file_stream(1), of "[2, 104]" True]
      w(2) by (simp add: strobj_ok_def demo_file_stream strict_prefix_def)
qed

text \<open>The size computed without a stream (\<open>rdbSavedObjectLen\<close>, what \<open>DEBUG OBJECT\<close>
  reports) is the number of bytes a successful save of the object appends to a memory
  buffer, for every type and encoding, and such a save always succeeds.\<close>

theorem rdbSavedObjectLen_exact:
  assumes "robj_ok obj" "length (concat (robj_chunks conf obj)) \<le> BUF_MAX - slen s" "slen s \<le> BUF_MAX"
    and "sds_fits BUF_MAX s"
  shows "\<exists>r'. rdbSaveObject conf obj (Some (rioInitWithBuffer s)) = (the (rdbSavedObjectLen conf obj), Some r') \<and>
    rdbSavedObjectLen conf obj \<noteq> None \<and>
    int (length (sds_str (bptr (rio_io r')))) = int (length (sds_str s)) + the (rdbSavedObjectLen conf obj)"
proof -
  define bs where "bs = concat (robj_chunks conf obj)"
  define r where "r = rioInitWithBuffer s"
  have r: "buf_io.streams r" "buf_io.has_room r (length bs)" "buf_io.written r = sds_str s"
    using assms(2-4) by (simp_all add: r_def rioInitWithBuffer_def buf_io.streams_def buf_io.has_room_def buf_good_def
        buf_room_def buf_io.written_def bs_def)
  have l: "length bs < 2147483648" using assms(2) by (simp add: bs_def BUF_MAX_def)
  have len: "rdbSavedObjectLen conf obj = Some (int (length bs))"
    using l by (simp add: rdbSavedObjectLen_def bs_def Let_def saves_null [OF saves_object [OF assms(1)]])
  obtain ok r' where w: "write_all r (robj_chunks conf obj) = (ok, r')" by (cases "write_all r (robj_chunks conf obj)")
  have ok: ok
    using buf_io.write_all_ok [OF r(1) r(2) [unfolded bs_def]] w by simp
  have "saves (rdbSaveObject conf obj :: bufio rio option \<Rightarrow> int \<times> bufio rio option) (robj_chunks conf obj)"
    by (rule saves_object [OF assms(1)])
  then have "rdbSaveObject conf obj (Some r) = (int (length bs), Some r')"
    using l w ok by (simp add: saves_def save_result_def bs_def)
  moreover have "sds_str (bptr (rio_io r')) = sds_str s @ bs"
    using buf_io.write_all_spec [OF r(1) r(2) [unfolded bs_def] w] ok r(3) by (simp add: buf_io.written_def bs_def)
  ultimately show ?thesis using len by (simp add: r_def)
qed

text \<open>C29: a dump that was written without an error consists of the magic string, the
  databases and the EOF opcode, followed by the CRC-64 of all of these bytes in
  little-endian order, which is what the loader compares.\<close>

theorem rdbSaveRio_checksum:
  assumes "rdb_checksum conf" "list_all (list_all (kv_ok conf)) dbs" "length dbs < 4294967296"
    and "fpos f \<le> length (fdata f)" "rdbSaveRio conf now dbs (rioInitWithFile f) = (True, r')"
  shows "file_sent r' = take (fpos f) (fdata f) @ concat (dump_chunks conf now dbs) @
    le_bytes 8 (uint (crc64 0 (concat (dump_chunks conf now dbs))))"
proof -
  define r where "r = (rioInitWithFile f)\<lparr>update_cksum := Some rioGenericUpdateChecksum\<rparr>"
  have r: "file_io.streams r" "update_cksum r = Some rioGenericUpdateChecksum" "cksum r = 0"
    "file_io.written r = take (fpos f) (fdata f)"
    using assms(4) by (simp_all add: r_def rioInitWithFile_def file_io.streams_def file_good_def file_io.written_def)
  obtain n r1 where d: "save_then (rdbWriteRaw rdb_magic) (save_then (rdbSaveDbs conf now 0 dbs) (rdbSaveType 255)) (Some r) =
      (n, Some r1)" "write_all r (dump_chunks conf now dbs) = (n \<noteq> - 1, r1)"
    by (rule emitsE [OF emits_dump [OF assms(2,3)]])
  have run: "rdbSaveRio conf now dbs (rioInitWithFile f) =
      (if n = - 1 then (False, r1) else rioWrite r1 (le_bytes 8 (uint (cksum r1))))"
    using d(1) assms(1) by (simp add: rdbSaveRio_def flip: r_def)
  then have n: "n \<noteq> - 1" and w: "rioWrite r1 (le_bytes 8 (uint (cksum r1))) = (True, r')"
    using assms(5) by (auto split: if_splits)
  have d2: "write_all r (dump_chunks conf now dbs) = (True, r1)" using d(2) n by simp
  have r1: "file_io.streams r1" "file_io.written r1 = file_io.written r @ concat (dump_chunks conf now dbs)"
    using file_io.write_all_spec [OF r(1) file_stream_eqs(4) d2] by auto
  have "cksum r1 = crc64 0 (concat (dump_chunks conf now dbs))"
    using write_all_checksum [OF r(2) d2] r(3) by simp
  moreover have "file_io.written r' = file_io.written r1 @ le_bytes 8 (uint (cksum r1))"
    using file_io.rioWrite_spec [OF r1(1) file_stream_eqs(4) w] by auto
  ultimately show ?thesis using r1(2) r(4) by (simp add: file_stream_eqs)
qed

text \<open>the scores of sorted sets survive, given the documented behaviour of the C
  library for this number (\<open>%.17g\<close> or the integer form is read back by \<open>%lg\<close> as the same
  double, and is short), whichever of the forms the code chooses.\<close>

theorem rdb_double_roundtrip:
  assumes "\<And>s m e. d = Finite s m e \<Longrightarrow> scan (double_text conf d) = d \<and> length (double_text conf d) < 253"
    and "file_stream w" "rdbSaveDoubleValue conf d (Some w) = (n, Some w')" "n \<noteq> - 1"
    and "file_stream r" "file_sent w @ file_left r = file_sent w' @ rest"
  shows "\<exists>r'. rdbLoadDoubleValue scan r = (Loaded d, r') \<and> file_left r' = rest"
proof -
  have st: "file_io.streams w" "file_io.streams r" using assms(2,5) by (simp_all add: file_stream_eqs)
  have "length (concat [double_chunk conf d]) < 2147483648"
    using assms(1) by (cases d) (auto simp: double_chunk_def)
  from file_io.saves_written [OF saves_double this st(1) file_stream_eqs(4) assms(3,4)]
  have "file_sent w' = file_sent w @ double_chunk conf d" by (simp add: file_stream_eqs)
  then have u: "file_io.unread r = double_chunk conf d @ rest" using assms(6) by (simp add: file_stream_eqs)
  have one: "file_io.reads (rdb_read 1) [b] (Loaded [b]) LoadError" for b
    by (rule file_io.reads_read) simp
  define g where "g = (\<lambda>b :: bytes. let len = unat (b ! 0) in
      if len = 255 then (\<lambda>r :: fileio rio. (Loaded (Infinity True), r))
      else if len = 254 then (\<lambda>r. (Loaded (Infinity False), r))
      else if len = 253 then (\<lambda>r. (Loaded NaN, r))
      else load_bind (rdb_read len) (\<lambda>buf r. (Loaded (scan buf), r)))"
  have def: "rdbLoadDoubleValue scan = load_bind (rdb_read 1) g"
    by (simp add: rdbLoadDoubleValue_def g_def)
  have "file_io.reads (rdbLoadDoubleValue scan) (double_chunk conf d) (Loaded d) LoadError"
  proof (cases d)
    case NaN
    have "file_io.reads (g [253]) [] (Loaded NaN) LoadError" by (simp add: g_def file_io.reads_return)
    from file_io.reads_bind [where g = g, OF one this] show ?thesis using NaN by (simp add: def double_chunk_def)
  next
    case (Infinity neg)
    have "file_io.reads (g [if neg then 255 else 254]) [] (Loaded (Infinity neg)) LoadError"
      by (simp add: g_def file_io.reads_return)
    from file_io.reads_bind [where g = g, OF one this] show ?thesis using Infinity by (simp add: def double_chunk_def)
  next
    case (Finite s m e)
    define t where "t = double_text conf d"
    have t: "scan t = d" "length t < 253" using assms(1) [OF Finite] by (simp_all add: t_def)
    have "unat (of_nat (length t) :: u8) = length t" using t(2) by (simp add: unat_of_nat)
    then have "g [of_nat (length t)] = load_bind (rdb_read (length t)) (\<lambda>buf r. (Loaded (scan buf), r))"
      using t(2) by (simp add: g_def)
    moreover have "file_io.reads (load_bind (rdb_read (length t)) (\<lambda>buf r. (Loaded (scan buf), r))) t (Loaded (scan t)) LoadError"
      by (rule file_io.reads_map [OF file_io.reads_read [OF refl], where h = "\<lambda>buf. Loaded (scan buf)"])
    ultimately have "file_io.reads (g [of_nat (length t)]) t (Loaded d) LoadError" using t(1) by simp
    from file_io.reads_bind [where g = g, OF one this] show ?thesis using Finite by (simp add: def double_chunk_def t_def)
  qed
  from file_io.readsD(1) [OF this st(2) u] show ?thesis by (auto simp: file_stream_eqs)
qed

text \<open>The integer shortcut drops the sign of a negative zero: the score \<open>-0.0\<close> is
  saved as the same bytes as \<open>0.0\<close>, so no load function can restore it.\<close>

theorem rdb_double_negative_zero:
  "rdbSaveDoubleValue conf (Finite True 0 0) = rdbSaveDoubleValue conf (Finite False 0 0)"
  by (simp add: rdbSaveDoubleValue_def double_text_def double_int_def)

theorem rdbSavedObjectLen_exact_witness:
  "\<exists>r'. rdbSaveObject demo_conf (ListLinked [RawString [97], IntString 5]) (Some (rioInitWithBuffer sdsempty)) =
      (the (rdbSavedObjectLen demo_conf (ListLinked [RawString [97], IntString 5])), Some r')"
proof -
  have "length (concat (robj_chunks demo_conf (ListLinked [RawString [97], IntString 5]))) = 5"
    by (simp add: robj_chunks_def string_chunks_def raw_chunks_def long_chunks_def len_chunks_def
        rdbTryIntegerEncoding_def strtoll_def isspace_def is_digit_def lzf_form_def demo_conf_def rdbEncodeInteger_def)
  then show ?thesis
    using rdbSavedObjectLen_exact [of "ListLinked [RawString [97], IntString 5]" demo_conf sdsempty]
    by (auto simp: robj_ok_def strobj_ok_def int_range sds_fits_empty sdsempty_spec BUF_MAX_def)
qed

theorem rdbSaveRio_checksum_witness:
  "\<exists>r. rdbSaveRio demo_conf 0 [[([107], StringObj (IntString 1), - 1)], []] (demo_file []) = (True, r) \<and>
    file_sent r = concat (dump_chunks demo_conf 0 [[([107], StringObj (IntString 1), - 1)], []]) @
      le_bytes 8 (uint (crc64 0 (concat (dump_chunks demo_conf 0 [[([107], StringObj (IntString 1), - 1)], []]))))"
proof -
  define dbs :: "rdb_db list" where "dbs = [[([107], StringObj (IntString 1), - 1)], []]"
  have ok: "list_all (list_all (kv_ok demo_conf)) dbs"
    by (simp add: dbs_def kv_ok_def robj_ok_def strobj_ok_def int_range robj_chunks_def string_chunks_def
        long_chunks_def rdbEncodeInteger_def)
  have "fst (rdbSaveRio demo_conf 0 dbs (demo_file []))"
    by (simp add: dbs_def rdbSaveRio_def rdbSaveDb_def rdbSaveKeyValuePair_def save_result_is_def rdbSaveObjectType_def
        rdbObjectType_def rdbSaveType_def rdbSaveObject_def
        rdbSaveStringObject_def rdbSaveRawString_def rdbTryIntegerEncoding_def strtoll_def isspace_def
        rdbSaveLongLongAsStringObject_def rdbEncodeInteger_def rdb_magic_def
        is_digit_def demo_conf_def save_then_def rdbSaveLen_def rdbWriteRaw_def rioWrite.simps rio_chunk_def
        rio_cksum_def rio_count_def demo_file_def rioInitWithFile_def rioFileWrite_def fwrite_def Let_def to_int32_small)
  then obtain r where r: "rdbSaveRio demo_conf 0 dbs (demo_file []) = (True, r)"
    by (cases "rdbSaveRio demo_conf 0 dbs (demo_file [])") auto
  from rdbSaveRio_checksum [OF _ ok _ _ r [unfolded demo_file_def]] show ?thesis
    using r by (auto simp: dbs_def demo_conf_def)
qed

theorem rdb_double_roundtrip_witness:
  "\<exists>r. rdbLoadDoubleValue (\<lambda>t. if t = [51, 46, 53] then Finite False 7 (- 1) else NaN)
      (demo_file [3, 51, 46, 53, 1]) = (Loaded (Finite False 7 (- 1)), r) \<and> file_left r = [1]"
proof -
  define scan where "scan = (\<lambda>t. if t = [51, 46, 53 :: u8] then Finite False 7 (- 1) else NaN)"
  have t: "double_text demo_conf (Finite False 7 (- 1)) = [51, 46, 53]"
    by (simp add: double_text_def double_int_def demo_conf_def)
  have "\<exists>w. rdbSaveDoubleValue demo_conf (Finite False 7 (- 1)) (Some (demo_file [])) = (4, Some w) \<and>
      file_sent w = [3, 51, 46, 53]"
    by (simp add: rdbSaveDoubleValue_def t rdbWriteRaw_def rioWrite.simps rio_chunk_def
      rio_cksum_def rio_count_def demo_file_def rioInitWithFile_def rioFileWrite_def fwrite_def Let_def to_int32_small
      file_sent_def)
  then obtain w where w: "rdbSaveDoubleValue demo_conf (Finite False 7 (- 1)) (Some (demo_file [])) = (4, Some w)"
    "file_sent w = [3, 51, 46, 53]" by blast
  show ?thesis
    using rdb_double_roundtrip [of "Finite False 7 (- 1)" scan demo_conf, OF _ demo_file_stream(1) w(1) _ demo_file_stream(1),
        of "[3, 51, 46, 53, 1]" "[1]"] t w(2)
    by (auto simp: scan_def demo_file_stream)
qed

end
