(* ===== verification/MapAdt.thy ===== *)
theory MapAdt
  imports Prelude
begin

text \<open>
  The contract of a dictionary, as the keyspace (\<open>db.c\<close>) relies on it: each operation may
  reorganise the representation, so it returns the new state; \<open>None\<close> is a failed
  assertion or an access out of bounds, which no operation may produce on a state that
  satisfies the invariant.  \<open>room\<close> is the provider's condition under which one more entry
  fits its counters.
\<close>

locale map_adt =
  fixes empty :: 's
    and inv :: "'s \<Rightarrow> bool"
    and room :: "'s \<Rightarrow> bool"
    and abs :: "'s \<Rightarrow> 'k \<Rightarrow> 'v option"
    and add :: "'s \<Rightarrow> 'k \<Rightarrow> 'v \<Rightarrow> ('s \<times> bool) option"
    and replace :: "'s \<Rightarrow> 'k \<Rightarrow> 'v \<Rightarrow> ('s \<times> bool) option"
    and remove :: "'s \<Rightarrow> 'k \<Rightarrow> ('s \<times> bool) option"
    and find :: "'s \<Rightarrow> 'k \<Rightarrow> ('s \<times> 'v option) option"
  assumes inv_empty: "inv empty"
    and abs_empty: "abs empty = Map.empty"
    and add_spec: "inv s \<Longrightarrow> room s \<Longrightarrow> \<exists>s'. add s k v = Some (s', abs s k = None) \<and> inv s'
      \<and> abs s' = (if abs s k = None then (abs s)(k \<mapsto> v) else abs s)"
    and replace_spec: "inv s \<Longrightarrow> room s \<Longrightarrow> \<exists>s'. replace s k v = Some (s', abs s k = None) \<and> inv s'
      \<and> abs s' = (abs s)(k \<mapsto> v)"
    and remove_spec: "inv s \<Longrightarrow> \<exists>s'. remove s k = Some (s', abs s k \<noteq> None) \<and> inv s'
      \<and> abs s' = (abs s)(k := None)"
    and find_spec: "inv s \<Longrightarrow> \<exists>s'. find s k = Some (s', abs s k) \<and> inv s' \<and> abs s' = abs s"
begin

lemma addE:
  assumes "inv s" "room s" "add s k v = Some (s', ok)"
  shows "inv s'" "ok \<longleftrightarrow> abs s k = None" "abs s' = (if abs s k = None then (abs s)(k \<mapsto> v) else abs s)"
  using add_spec [OF assms(1,2), of k v] assms(3) by auto

lemma replaceE:
  assumes "inv s" "room s" "replace s k v = Some (s', ok)"
  shows "inv s'" "ok \<longleftrightarrow> abs s k = None" "abs s' = (abs s)(k \<mapsto> v)"
  using replace_spec [OF assms(1,2), of k v] assms(3) by auto

lemma removeE:
  assumes "inv s" "remove s k = Some (s', ok)"
  shows "inv s'" "ok \<longleftrightarrow> abs s k \<noteq> None" "abs s' = (abs s)(k := None)"
  using remove_spec [OF assms(1), of k] assms(2) by auto

lemma findE:
  assumes "inv s" "find s k = Some (s', r)"
  shows "inv s'" "r = abs s k" "abs s' = abs s"
  using find_spec [OF assms(1), of k] assms(2) by auto

end

end
