(* ===== verification/Dict.thy ===== *)
theory Dict
  imports MapAdt "HOL-Library.Multiset"
begin

text \<open>
  \<open>dict.c\<close>: the hash table behind every keyspace, set, hash and sorted set of the server.
  A dictionary has two tables; while it is being resized the entries move from the first
  to the second one bucket at a time, on the lookups and updates themselves.  The hash
  function of the \<open>dictType\<close> is the parameter \<open>hf\<close>; keys are compared by equality.  A
  chain of \<open>dictEntry\<close> is the list of its key/value pairs.  The result \<open>None\<close> of an
  operation is a failed assertion or an access outside a table; the invariant shows that
  it never happens.  Indexes and sizes are converted where the code converts them: the index
  of the bucket of a new entry passes through an \<open>int\<close>, and the bytes of a new table are
  computed modulo \<open>2 ^ 64\<close>.
\<close>

unbundle bit_operations_syntax

section \<open>The tables\<close>

record ('k, 'v) dictht =
  table :: "('k \<times> 'v) list list"
  tsize :: nat
  sizemask :: "64 word"
  used :: nat

record ('k, 'v) dict =
  ht0 :: "('k, 'v) dictht"
  ht1 :: "('k, 'v) dictht"
  rehashidx :: int
  iterators :: int

text \<open>\<open>NULL\<close> is the table without buckets, of size 0.\<close>

definition dictReset :: "('k, 'v) dictht" where
  "dictReset = \<lparr>table = [], tsize = 0, sizemask = 0, used = 0\<rparr>"

definition dictCreate :: "('k, 'v) dict" where
  "dictCreate = \<lparr>ht0 = dictReset, ht1 = dictReset, rehashidx = -1, iterators = 0\<rparr>"

definition dictIsRehashing :: "('k, 'v) dict \<Rightarrow> bool" where
  "dictIsRehashing d \<longleftrightarrow> rehashidx d \<noteq> -1"

definition dictSize :: "('k, 'v) dict \<Rightarrow> nat" where
  "dictSize d = used (ht0 d) + used (ht1 d)"

definition dictSlots :: "('k, 'v) dict \<Rightarrow> nat" where
  "dictSlots d = tsize (ht0 d) + tsize (ht1 d)"

text \<open>\<open>d->ht[t]\<close>, read and written.\<close>

definition ht :: "('k, 'v) dict \<Rightarrow> nat \<Rightarrow> ('k, 'v) dictht" where
  "ht d t = (if t = 0 then ht0 d else ht1 d)"

definition set_ht :: "('k, 'v) dict \<Rightarrow> nat \<Rightarrow> ('k, 'v) dictht \<Rightarrow> ('k, 'v) dict" where
  "set_ht d t h = (if t = 0 then d\<lparr>ht0 := h\<rparr> else d\<lparr>ht1 := h\<rparr>)"

definition ht_idx :: "32 word \<Rightarrow> 64 word \<Rightarrow> nat" where
  "ht_idx h m = unat (ucast h AND m)"

lemma table_dictReset [simp]: "table dictReset = []" "tsize dictReset = 0" "used dictReset = 0"
  by (simp_all add: dictReset_def)

section \<open>Sizes\<close>

abbreviation DICT_HT_INITIAL_SIZE :: nat where "DICT_HT_INITIAL_SIZE \<equiv> 4"
abbreviation LONG_MAX :: nat where "LONG_MAX \<equiv> 9223372036854775807"

text \<open>The second conjunct, true for the positive \<open>i\<close> of the loop, makes the function total.\<close>

function dictNextPower_loop :: "nat \<Rightarrow> nat \<Rightarrow> nat" where
  "dictNextPower_loop i sz = (if i < sz \<and> 0 < i then dictNextPower_loop (i * 2) sz else i)"
  by pat_completeness auto
termination by (relation "measure (\<lambda>(i, sz). sz - i)") auto

declare dictNextPower_loop.simps [simp del]

definition dictNextPower :: "nat \<Rightarrow> nat" where
  "dictNextPower sz = (if sz \<ge> LONG_MAX then LONG_MAX else dictNextPower_loop DICT_HT_INITIAL_SIZE sz)"

text \<open>The new hash table with all its chains empty: \<open>zcalloc(realsize*sizeof(dictEntry*))\<close>, whose
  argument is a 64-bit product, gives the buckets that fit in the bytes allocated.\<close>

definition new_table :: "nat \<Rightarrow> ('k, 'v) dictht" where
  "new_table realsize =
    \<lparr>table = replicate (realsize * 8 mod 2 ^ 64 div 8) [], tsize = realsize, sizemask = of_nat (realsize - 1), used = 0\<rparr>"

definition null_table :: "('k, 'v) dictht \<Rightarrow> bool" where
  "null_table h \<longleftrightarrow> table h = [] \<and> tsize h = 0"

definition dictExpand :: "('k, 'v) dict \<Rightarrow> nat \<Rightarrow> ('k, 'v) dict \<times> bool" where
  "dictExpand d sz =
    (let realsize = dictNextPower sz in
     if dictIsRehashing d \<or> used (ht0 d) > sz then (d, False)
     else
       (let n = new_table realsize
        in if null_table (ht0 d) then (d\<lparr>ht0 := n\<rparr>, True)
           else (d\<lparr>ht1 := n, rehashidx := 0\<rparr>, True)))"

text \<open>\<open>dict_can_resize\<close> is the argument \<open>cr\<close>; \<open>minimal\<close> is an \<open>int\<close>.\<close>

definition dictResize :: "bool \<Rightarrow> ('k, 'v) dict \<Rightarrow> ('k, 'v) dict \<times> bool" where
  "dictResize cr d =
    (if \<not> cr \<or> dictIsRehashing d then (d, False)
     else
       (let minimal = to_int32 (used (ht0 d));
            minimal = (if minimal < int DICT_HT_INITIAL_SIZE then int DICT_HT_INITIAL_SIZE else minimal)
        in dictExpand d (nat minimal)))"

abbreviation dict_force_resize_ratio :: nat where "dict_force_resize_ratio \<equiv> 5"

definition dictExpandIfNeeded :: "bool \<Rightarrow> ('k, 'v) dict \<Rightarrow> ('k, 'v) dict \<times> bool" where
  "dictExpandIfNeeded cr d =
    (if dictIsRehashing d then (d, True)
     else if tsize (ht0 d) = 0 then dictExpand d DICT_HT_INITIAL_SIZE
     else if used (ht0 d) \<ge> tsize (ht0 d)
             \<and> (cr \<or> used (ht0 d) div tsize (ht0 d) > dict_force_resize_ratio)
       then dictExpand d (used (ht0 d) * 2 mod 2 ^ 64)
     else (d, True))"

section \<open>Incremental rehashing\<close>

text \<open>\<open>while (table[rehashidx] == NULL) rehashidx++\<close>; \<open>None\<close>: past the end of the table.\<close>

function rehash_skip :: "'a list list \<Rightarrow> nat \<Rightarrow> nat option" where
  "rehash_skip tab i =
    (if length tab \<le> i then None else if tab ! i = [] then rehash_skip tab (i + 1) else Some i)"
  by pat_completeness auto
termination by (relation "measure (\<lambda>(tab, i). length tab - i)") auto

declare rehash_skip.simps [simp del]

text \<open>One iteration of \<open>while (de)\<close>: the entry moves to the front of its new chain, which lies
  inside the new table under the test \<open>chain_fits\<close> of the loop below.\<close>

definition rehash_entry :: "('k \<Rightarrow> 32 word) \<Rightarrow> 'k \<times> 'v \<Rightarrow> ('k, 'v) dict \<Rightarrow> ('k, 'v) dict" where
  "rehash_entry hf de d =
    (let h = ht_idx (hf (fst de)) (sizemask (ht1 d))
     in d\<lparr>ht1 := (ht1 d)\<lparr>table := (table (ht1 d))[h := de # table (ht1 d) ! h], used := used (ht1 d) + 1\<rparr>,
          ht0 := (ht0 d)\<lparr>used := used (ht0 d) - 1\<rparr>\<rparr>)"

definition chain_fits :: "('k \<Rightarrow> 32 word) \<Rightarrow> ('k \<times> 'v) list \<Rightarrow> ('k, 'v) dictht \<Rightarrow> bool" where
  "chain_fits hf es h \<longleftrightarrow> list_all (\<lambda>e. ht_idx (hf (fst e)) (sizemask h) < length (table h)) es"

primrec dictRehash_loop :: "('k \<Rightarrow> 32 word) \<Rightarrow> nat \<Rightarrow> ('k, 'v) dict \<Rightarrow> (('k, 'v) dict \<times> bool) option" where
  "dictRehash_loop hf 0 d = Some (d, True)"
| "dictRehash_loop hf (Suc n) d =
    (if used (ht0 d) = 0 then
       Some (d\<lparr>ht0 := ht1 d, ht1 := dictReset, rehashidx := -1\<rparr>, False)
     else if \<not> tsize (ht0 d) > nat (rehashidx d) then None
     else
       (case rehash_skip (table (ht0 d)) (nat (rehashidx d)) of
          None \<Rightarrow> None
        | Some i \<Rightarrow>
            if \<not> chain_fits hf (table (ht0 d) ! i) (ht1 d) then None
            else
            (let d = fold (rehash_entry hf) (table (ht0 d) ! i) d;
                 d = d\<lparr>ht0 := (ht0 d)\<lparr>table := (table (ht0 d))[i := []]\<rparr>, rehashidx := int i + 1\<rparr>
             in dictRehash_loop hf n d)))"

definition dictRehash :: "('k \<Rightarrow> 32 word) \<Rightarrow> nat \<Rightarrow> ('k, 'v) dict \<Rightarrow> (('k, 'v) dict \<times> bool) option" where
  "dictRehash hf n d = (if \<not> dictIsRehashing d then Some (d, False) else dictRehash_loop hf n d)"

definition dictRehashStep :: "('k \<Rightarrow> 32 word) \<Rightarrow> ('k, 'v) dict \<Rightarrow> ('k, 'v) dict option" where
  "dictRehashStep hf d = (if iterators d = 0 then map_option fst (dictRehash hf 1 d) else Some d)"

text \<open>\<open>if (dictIsRehashing(d)) _dictRehashStep(d);\<close>\<close>

definition rehash_if :: "('k \<Rightarrow> 32 word) \<Rightarrow> ('k, 'v) dict \<Rightarrow> ('k, 'v) dict option" where
  "rehash_if hf d = (if dictIsRehashing d then dictRehashStep hf d else Some d)"

section \<open>Lookup and update\<close>

text \<open>The search loop over the tables shared by lookup, insertion and deletion: the table
  and the bucket of the entry with the key.\<close>

definition find_in :: "('k \<Rightarrow> 32 word) \<Rightarrow> ('k, 'v) dict \<Rightarrow> 'k \<Rightarrow> nat \<Rightarrow> (nat \<times> nat) option" where
  "find_in hf d key t =
    (let idx = ht_idx (hf key) (sizemask (ht d t))
     in if key \<in> fst ` set (table (ht d t) ! idx) then Some (t, idx) else None)"

definition find_loc :: "('k \<Rightarrow> 32 word) \<Rightarrow> ('k, 'v) dict \<Rightarrow> 'k \<Rightarrow> (nat \<times> nat) option" where
  "find_loc hf d key =
    (case find_in hf d key 0 of
       Some l \<Rightarrow> Some l
     | None \<Rightarrow> if \<not> dictIsRehashing d then None else find_in hf d key 1)"

text \<open>The buckets the search reads are inside their tables.\<close>

definition search_fits :: "('k \<Rightarrow> 32 word) \<Rightarrow> ('k, 'v) dict \<Rightarrow> 'k \<Rightarrow> bool" where
  "search_fits hf d key \<longleftrightarrow>
    ht_idx (hf key) (sizemask (ht0 d)) < length (table (ht0 d))
    \<and> (find_in hf d key 0 = None \<and> dictIsRehashing d
        \<longrightarrow> ht_idx (hf key) (sizemask (ht1 d)) < length (table (ht1 d)))"

definition dictFind :: "('k \<Rightarrow> 32 word) \<Rightarrow> ('k, 'v) dict \<Rightarrow> 'k \<Rightarrow> (('k, 'v) dict \<times> (nat \<times> nat) option) option" where
  "dictFind hf d key =
    (if tsize (ht0 d) = 0 then Some (d, None)
     else
       (case rehash_if hf d of
          None \<Rightarrow> None
        | Some d \<Rightarrow> if \<not> search_fits hf d key then None else Some (d, find_loc hf d key)))"

text \<open>The value of the entry a lookup returned.\<close>

definition dictGetVal :: "('k, 'v) dict \<Rightarrow> nat \<times> nat \<Rightarrow> 'k \<Rightarrow> 'v option" where
  "dictGetVal d l key = map_of (table (ht d (fst l)) ! snd l) key"

definition dictFetchValue :: "('k \<Rightarrow> 32 word) \<Rightarrow> ('k, 'v) dict \<Rightarrow> 'k \<Rightarrow> (('k, 'v) dict \<times> 'v option) option" where
  "dictFetchValue hf d key =
    map_option (\<lambda>(d, he). (d, case he of None \<Rightarrow> None | Some l \<Rightarrow> dictGetVal d l key)) (dictFind hf d key)"

text \<open>\<open>_dictKeyIndex\<close>: the index, computed as an \<open>unsigned int\<close>, is returned as an \<open>int\<close>.\<close>

definition dictKeyIndex :: "('k \<Rightarrow> 32 word) \<Rightarrow> bool \<Rightarrow> ('k, 'v) dict \<Rightarrow> 'k \<Rightarrow> (('k, 'v) dict \<times> int) option" where
  "dictKeyIndex hf cr d key =
    (case dictExpandIfNeeded cr d of
       (d, False) \<Rightarrow> Some (d, - 1)
     | (d, True) \<Rightarrow>
         if \<not> search_fits hf d key then None
         else
           (case find_loc hf d key of
              Some l \<Rightarrow> Some (d, - 1)
            | None \<Rightarrow>
                Some (d, to_int32 (ht_idx (hf key) (sizemask (ht d (if dictIsRehashing d then 1 else 0)))))))"

text \<open>\<open>dictAdd\<close>: \<open>dictAddRaw\<close>, whose \<open>index\<close> is an \<open>int\<close>, followed by \<open>dictSetVal\<close> on the
  new entry.\<close>

definition dictAdd :: "('k \<Rightarrow> 32 word) \<Rightarrow> bool \<Rightarrow> ('k, 'v) dict \<Rightarrow> 'k \<Rightarrow> 'v \<Rightarrow> (('k, 'v) dict \<times> bool) option" where
  "dictAdd hf cr d key val =
    (case rehash_if hf d of
       None \<Rightarrow> None
     | Some d \<Rightarrow>
         (case dictKeyIndex hf cr d key of
            None \<Rightarrow> None
          | Some (d, index) \<Rightarrow>
              (let t = (if dictIsRehashing d then 1 else 0);
                   h = ht d t;
                   i = nat index
               in if index = - 1 then Some (d, False)
                  else if index < 0 \<or> length (table h) \<le> i then None
                  else Some (set_ht d t
                     (h\<lparr>table := (table h)[i := (key, val) # table h ! i], used := used h + 1\<rparr>), True))))"

primrec entry_set :: "'k \<Rightarrow> 'v \<Rightarrow> ('k \<times> 'v) list \<Rightarrow> ('k \<times> 'v) list" where
  "entry_set key val [] = []"
| "entry_set key val (e # es) = (if fst e = key then (key, val) # es else e # entry_set key val es)"

definition dictSetVal :: "('k, 'v) dict \<Rightarrow> nat \<times> nat \<Rightarrow> 'k \<Rightarrow> 'v \<Rightarrow> ('k, 'v) dict" where
  "dictSetVal d l key val =
    (let h = ht d (fst l)
     in set_ht d (fst l) (h\<lparr>table := (table h)[snd l := entry_set key val (table h ! snd l)]\<rparr>))"

text \<open>\<open>None\<close> in the innermost case: the entry is dereferenced without being found.\<close>

definition dictReplace :: "('k \<Rightarrow> 32 word) \<Rightarrow> bool \<Rightarrow> ('k, 'v) dict \<Rightarrow> 'k \<Rightarrow> 'v \<Rightarrow> (('k, 'v) dict \<times> bool) option" where
  "dictReplace hf cr d key val =
    (case dictAdd hf cr d key val of
       None \<Rightarrow> None
     | Some (d, True) \<Rightarrow> Some (d, True)
     | Some (d, False) \<Rightarrow>
         (case dictFind hf d key of
            None \<Rightarrow> None
          | Some (d, None) \<Rightarrow> None
          | Some (d, Some l) \<Rightarrow> Some (dictSetVal d l key val, False)))"

primrec entry_unlink :: "'k \<Rightarrow> ('k \<times> 'v) list \<Rightarrow> ('k \<times> 'v) list" where
  "entry_unlink key [] = []"
| "entry_unlink key (e # es) = (if fst e = key then es else e # entry_unlink key es)"

definition dictGenericDelete :: "('k \<Rightarrow> 32 word) \<Rightarrow> ('k, 'v) dict \<Rightarrow> 'k \<Rightarrow> (('k, 'v) dict \<times> bool) option" where
  "dictGenericDelete hf d key =
    (if tsize (ht0 d) = 0 then Some (d, False)
     else
       (case rehash_if hf d of
          None \<Rightarrow> None
        | Some d \<Rightarrow>
            if \<not> search_fits hf d key then None
            else
            (case find_loc hf d key of
               None \<Rightarrow> Some (d, False)
             | Some (t, idx) \<Rightarrow>
                 (let h = ht d t
                  in Some (set_ht d t
                       (h\<lparr>table := (table h)[idx := entry_unlink key (table h ! idx)], used := used h - 1\<rparr>), True)))))"

text \<open>\<open>_dictClear\<close> frees every entry of a table; \<open>dictEmpty\<close> does it for both.\<close>

definition dictEmpty :: "('k, 'v) dict \<Rightarrow> ('k, 'v) dict" where
  "dictEmpty d = \<lparr>ht0 = dictReset, ht1 = dictReset, rehashidx = -1, iterators = 0\<rparr>"

section \<open>The invariant and the abstraction\<close>

definition size_ok :: "nat \<Rightarrow> 64 word \<Rightarrow> bool" where
  "size_ok n m \<longleftrightarrow> (\<exists>k \<le> 63. n = 2 ^ k) \<and> m = of_nat (n - 1)"

definition ht_ok :: "('k \<Rightarrow> 32 word) \<Rightarrow> ('k, 'v) dictht \<Rightarrow> bool" where
  "ht_ok hf h \<longleftrightarrow>
    size_ok (tsize h) (sizemask h) \<and> length (table h) = tsize h
    \<and> used h = length (concat (table h))
    \<and> (\<forall>i < tsize h. \<forall>e \<in> set (table h ! i). ht_idx (hf (fst e)) (sizemask h) = i)"

definition entries :: "('k, 'v) dict \<Rightarrow> ('k \<times> 'v) list" where
  "entries d = concat (table (ht0 d)) @ concat (table (ht1 d))"

definition dict_wf :: "('k \<Rightarrow> 32 word) \<Rightarrow> ('k, 'v) dict \<Rightarrow> bool" where
  "dict_wf hf d \<longleftrightarrow> distinct (map fst (entries d)) \<and>
    (if dictIsRehashing d then
       ht_ok hf (ht0 d) \<and> ht_ok hf (ht1 d) \<and> 0 \<le> rehashidx d
       \<and> (\<forall>i < length (table (ht0 d)). int i < rehashidx d \<longrightarrow> table (ht0 d) ! i = [])
     else (ht_ok hf (ht0 d) \<or> ht0 d = dictReset) \<and> ht1 d = dictReset)"

definition dict_abs :: "('k, 'v) dict \<Rightarrow> 'k \<Rightarrow> 'v option" where
  "dict_abs d = map_of (entries d)"

text \<open>The index of a new entry is an \<open>int\<close>, so it is right for tables of up to \<open>2 ^ 31\<close> buckets;
  with at most \<open>2 ^ 30\<close> entries no table grows beyond that.\<close>

abbreviation DICT_MAX_SIZE :: nat where "DICT_MAX_SIZE \<equiv> 2147483648"

definition dict_small :: "('k, 'v) dict \<Rightarrow> bool" where
  "dict_small d \<longleftrightarrow> tsize (ht0 d) \<le> DICT_MAX_SIZE \<and> tsize (ht1 d) \<le> DICT_MAX_SIZE"

definition dict_inv :: "('k \<Rightarrow> 32 word) \<Rightarrow> ('k, 'v) dict \<Rightarrow> bool" where
  "dict_inv hf d \<longleftrightarrow> dict_wf hf d \<and> dict_small d"

definition dict_room :: "('k, 'v) dict \<Rightarrow> bool" where
  "dict_room d \<longleftrightarrow> 2 * length (entries d) \<le> DICT_MAX_SIZE"

lemma ht_idx_less:
  assumes "ht_ok hf h"
  shows "ht_idx x (sizemask h) < tsize h"
proof -
  obtain k where k: "k \<le> 63" "tsize h = 2 ^ k" using assms by (auto simp: ht_ok_def size_ok_def)
  have "ucast x AND sizemask h \<le> sizemask h" by (rule word_and_le1)
  then have "ht_idx x (sizemask h) \<le> unat (sizemask h)" by (simp add: ht_idx_def word_le_nat_alt)
  also have "unat (sizemask h) = tsize h - 1"
  proof -
    have "(2 :: nat) ^ k \<le> 2 ^ 63" using k(1) by (intro power_increasing) auto
    then have "tsize h - 1 < 2 ^ LENGTH(64)" using k(2) by simp
    moreover have "sizemask h = of_nat (tsize h - 1)" using assms by (simp add: ht_ok_def size_ok_def)
    ultimately show ?thesis by (simp only: unat_of_nat take_bit_nat_eq_self_iff) (simp add: take_bit_nat_eq_self)
  qed
  finally show ?thesis using k(2) zero_less_power [of "2 :: nat" k] by linarith
qed

lemma ht_ok_pos: "ht_ok hf h \<Longrightarrow> 0 < tsize h"
  by (auto simp: ht_ok_def size_ok_def)

lemma ht_ok_lengths: "ht_ok hf h \<Longrightarrow> length (table h) = tsize h" "ht_ok hf h \<Longrightarrow> used h = length (concat (table h))"
  by (simp_all add: ht_ok_def)

lemma mset_concat_update:
  assumes "i < length t"
  shows "mset (concat (t[i := b])) + mset (t ! i) = mset (concat t) + mset b"
proof -
  have t: "t = take i t @ t ! i # drop (Suc i) t" using assms by (rule id_take_nth_drop)
  have "concat t = concat (take i t) @ t ! i @ concat (drop (Suc i) t)"
    by (subst t) simp
  moreover have "concat (t[i := b]) = concat (take i t) @ b @ concat (drop (Suc i) t)"
    using assms by (simp add: upd_conv_take_nth_drop)
  ultimately show ?thesis by simp
qed

lemma ht_ok_update:
  assumes "ht_ok hf h" "i < tsize h" "\<forall>e \<in> set b. ht_idx (hf (fst e)) (sizemask h) = i"
    and "n + length (table h ! i) = used h + length b"
  shows "ht_ok hf (h\<lparr>table := (table h)[i := b], used := n\<rparr>)"
proof -
  have i: "i < length (table h)" using assms(1,2) by (simp add: ht_ok_def)
  have "length (concat ((table h)[i := b])) + length (table h ! i) = length (concat (table h)) + length b"
    using arg_cong [OF mset_concat_update [OF i, of b], of size] by (simp only: size_mset size_union)
  then have "n = length (concat ((table h)[i := b]))" using assms(1,4) by (simp add: ht_ok_def)
  then show ?thesis using assms(1-3) by (auto simp: ht_ok_def nth_list_update)
qed

lemma ht_insert:
  assumes "ht_ok hf h" "i = ht_idx (hf (fst e)) (sizemask h)"
  defines "h' \<equiv> h\<lparr>table := (table h)[i := e # table h ! i], used := used h + 1\<rparr>"
  shows "ht_ok hf h'" "mset (concat (table h')) = add_mset e (mset (concat (table h)))"
proof -
  have i: "i < tsize h" using ht_idx_less [OF assms(1)] assms(2) by simp
  have old: "\<forall>e \<in> set (table h ! i). ht_idx (hf (fst e)) (sizemask h) = i"
    using assms(1) i by (auto simp: ht_ok_def)
  show "ht_ok hf h'"
    unfolding h'_def by (rule ht_ok_update [OF assms(1) i]) (use old assms(2) in auto)
  show "mset (concat (table h')) = add_mset e (mset (concat (table h)))"
    using mset_concat_update [of i "table h" "e # table h ! i"] i ht_ok_lengths [OF assms(1)]
    by (simp add: h'_def)
qed

lemma map_of_mset:
  assumes "mset xs = mset ys" "distinct (map fst xs)"
  shows "map_of xs = map_of ys" "distinct (map fst ys)"
proof -
  have "mset (map fst xs) = mset (map fst ys)" using assms(1) by (simp add: mset_map)
  then show d: "distinct (map fst ys)" using assms(2) mset_eq_imp_distinct_iff by blast
  show "map_of xs = map_of ys"
    using map_of_inject_set [OF assms(2) d] assms(1) mset_eq_setD by blast
qed

section \<open>Rehashing keeps the contents\<close>

lemma rehash_entries:
  assumes "ht_ok hf (ht1 d)" and d': "d' = fold (rehash_entry hf) es d"
  shows "ht_ok hf (ht1 d') \<and> mset (concat (table (ht1 d'))) = mset (concat (table (ht1 d))) + mset es
    \<and> ht0 d' = (ht0 d)\<lparr>used := used (ht0 d) - length es\<rparr> \<and> rehashidx d' = rehashidx d \<and> iterators d' = iterators d
    \<and> tsize (ht1 d') = tsize (ht1 d)"
  using assms(1) unfolding d'
proof (induction es arbitrary: d)
  case (Cons e es)
  define i where "i = ht_idx (hf (fst e)) (sizemask (ht1 d))"
  note ins = ht_insert [OF Cons.prems i_def]
  have ht1: "ht1 (rehash_entry hf e d) = (ht1 d)\<lparr>table := (table (ht1 d))[i := e # table (ht1 d) ! i], used := used (ht1 d) + 1\<rparr>"
    by (simp add: rehash_entry_def i_def Let_def)
  have rest: "ht0 (rehash_entry hf e d) = (ht0 d)\<lparr>used := used (ht0 d) - 1\<rparr>"
    "rehashidx (rehash_entry hf e d) = rehashidx d" "iterators (rehash_entry hf e d) = iterators d"
    by (simp_all add: rehash_entry_def Let_def)
  show ?case using Cons.IH [of "rehash_entry hf e d"] ins rest by (simp add: ht1)
qed simp

lemma rehash_skip_Some:
  assumes "i \<le> j" "j < length tab" "tab ! j \<noteq> []"
  shows "\<exists>k. rehash_skip tab i = Some k \<and> i \<le> k \<and> k < length tab \<and> tab ! k \<noteq> []
    \<and> (\<forall>m. i \<le> m \<and> m < k \<longrightarrow> tab ! m = [])"
  using assms
proof (induction tab i rule: rehash_skip.induct)
  case (1 tab i)
  show ?case
  proof (cases "tab ! i = []")
    case True
    then have "i + 1 \<le> j" using "1.prems" by (cases "i = j") auto
    then obtain k where "rehash_skip tab (i + 1) = Some k" "i + 1 \<le> k" "k < length tab"
      "\<forall>m. i + 1 \<le> m \<and> m < k \<longrightarrow> tab ! m = []" "tab ! k \<noteq> []"
      using "1.IH" "1.prems" True by auto
    moreover have "tab ! m = []" if "i \<le> m" "m < k" for m
      using calculation(4) True that by (cases "m = i") auto
    ultimately show ?thesis using True "1.prems"
      by (subst rehash_skip.simps) auto
  next
    case False
    then show ?thesis using "1.prems" by (subst rehash_skip.simps) auto
  qed
qed

lemma concat_nonempty_bucket:
  assumes "concat t \<noteq> []"
  shows "\<exists>j < length t. t ! j \<noteq> []"
  using assms by (auto simp: in_set_conv_nth)

lemma chain_fits: "ht_ok hf h \<Longrightarrow> chain_fits hf es h"
  by (simp add: chain_fits_def list_all_iff ht_idx_less ht_ok_lengths(1))

text \<open>One step of \<open>dictRehash\<close> on a table with entries left: no assertion fails, the
  entries of one bucket move, the index advances.\<close>

lemma rehash_step:
  assumes "dict_wf hf d" "dictIsRehashing d" "used (ht0 d) \<noteq> 0"
  obtains i d1 where
    "nat (rehashidx d) < tsize (ht0 d)"
    "rehash_skip (table (ht0 d)) (nat (rehashidx d)) = Some i"
    "d1 = (fold (rehash_entry hf) (table (ht0 d) ! i) d)"
    "dict_wf hf (d1\<lparr>ht0 := (ht0 d1)\<lparr>table := (table (ht0 d1))[i := []]\<rparr>, rehashidx := int i + 1\<rparr>)"
    "mset (entries (d1\<lparr>ht0 := (ht0 d1)\<lparr>table := (table (ht0 d1))[i := []]\<rparr>, rehashidx := int i + 1\<rparr>)) = mset (entries d)"
    "iterators d1 = iterators d" "rehashidx d \<le> int i" "tsize (ht0 d1) = tsize (ht0 d)"
    "i < tsize (ht0 d)" "chain_fits hf (table (ht0 d) ! i) (ht1 d)"
proof -
  have wf: "ht_ok hf (ht0 d)" "ht_ok hf (ht1 d)" "0 \<le> rehashidx d" "distinct (map fst (entries d))"
    "\<And>i. i < length (table (ht0 d)) \<Longrightarrow> int i < rehashidx d \<Longrightarrow> table (ht0 d) ! i = []"
    using assms(1,2) by (auto simp: dict_wf_def)
  note lens = ht_ok_lengths [OF wf(1)]
  obtain j where j: "j < length (table (ht0 d))" "table (ht0 d) ! j \<noteq> []"
    using concat_nonempty_bucket [of "table (ht0 d)"] assms(3) lens(2) by auto
  have "nat (rehashidx d) \<le> j" using wf(3,5) j by (metis nat_le_iff not_le)
  then obtain i where i: "rehash_skip (table (ht0 d)) (nat (rehashidx d)) = Some i"
      "nat (rehashidx d) \<le> i" "i < length (table (ht0 d))"
      "\<And>m. nat (rehashidx d) \<le> m \<Longrightarrow> m < i \<Longrightarrow> table (ht0 d) ! m = []"
    using rehash_skip_Some [OF _ j] by blast
  define es where "es = table (ht0 d) ! i"
  define d1 where "d1 = fold (rehash_entry hf) es d"
  note re = rehash_entries [OF wf(2) d1_def]
  define d2 where "d2 = d1\<lparr>ht0 := (ht0 d1)\<lparr>table := (table (ht0 d1))[i := []]\<rparr>, rehashidx := int i + 1\<rparr>"
  have mset0: "mset (concat ((table (ht0 d))[i := []])) + mset es = mset (concat (table (ht0 d)))"
    using mset_concat_update [OF i(3), of "[]"] by (simp add: es_def)
  have ht02: "ht0 d2 = (ht0 d)\<lparr>table := (table (ht0 d))[i := []], used := used (ht0 d) - length es\<rparr>"
    using re by (simp add: d2_def)
  have "length es \<le> used (ht0 d)"
    using arg_cong [OF mset0, of size] lens(2) by (simp only: size_mset size_union)
  then have ok0: "ht_ok hf (ht0 d2)"
    unfolding ht02 using i(3) lens(1) by (intro ht_ok_update [OF wf(1)]) (auto simp: es_def)
  have mset2: "mset (entries d2) = mset (entries d)"
    using re mset0 by (simp add: entries_def ht02) (simp add: d2_def)
  have "dict_wf hf d2"
  proof -
    have "distinct (map fst (entries d2))" using map_of_mset(2) [OF mset2 [symmetric] wf(4)] .
    moreover have "ht_ok hf (ht1 d2)" using re by (simp add: d2_def)
    moreover have "dictIsRehashing d2" "rehashidx d2 = int i + 1" by (simp_all add: d2_def dictIsRehashing_def)
    moreover have "table (ht0 d2) ! m = []" if m: "m < length (table (ht0 d2))" "int m < int i + 1" for m
    proof -
      consider "m = i" | "m < i" "nat (rehashidx d) \<le> m" | "m < i" "int m < rehashidx d" using m wf(3) by linarith
      then show ?thesis using i wf(5) m by cases (auto simp: ht02)
    qed
    ultimately show ?thesis using ok0 by (simp add: dict_wf_def)
  qed
  then show ?thesis
    using that [of i d1] i re mset2 wf(3) lens(1) chain_fits [OF wf(2)] unfolding d1_def es_def d2_def by auto
qed

lemma dictRehash_loop_spec:
  assumes "dict_wf hf d" "dictIsRehashing d"
  shows "\<exists>d' b. dictRehash_loop hf n d = Some (d', b) \<and> dict_wf hf d' \<and> mset (entries d') = mset (entries d)
    \<and> iterators d' = iterators d \<and> dictIsRehashing d' = b
    \<and> (int n > int (tsize (ht0 d)) - rehashidx d \<and> rehashidx d \<le> int (tsize (ht0 d)) \<longrightarrow> \<not> b)"
  using assms
proof (induction n arbitrary: d)
  case 0
  then show ?case by (auto simp: dict_wf_def)
next
  case (Suc n)
  show ?case
  proof (cases "used (ht0 d) = 0")
    case True
    have wf: "ht_ok hf (ht0 d)" "ht_ok hf (ht1 d)" using Suc.prems by (auto simp: dict_wf_def)
    then have "concat (table (ht0 d)) = []" using True ht_ok_lengths(2) by force
    then show ?thesis using True Suc.prems wf
      by (simp add: dict_wf_def entries_def dictIsRehashing_def dictReset_def)
  next
    case False
    from rehash_step [OF Suc.prems False] obtain i d1 where s:
      "nat (rehashidx d) < tsize (ht0 d)"
      "rehash_skip (table (ht0 d)) (nat (rehashidx d)) = Some i"
      "d1 = (fold (rehash_entry hf) (table (ht0 d) ! i) d)"
      "dict_wf hf (d1\<lparr>ht0 := (ht0 d1)\<lparr>table := (table (ht0 d1))[i := []]\<rparr>, rehashidx := int i + 1\<rparr>)"
      "mset (entries (d1\<lparr>ht0 := (ht0 d1)\<lparr>table := (table (ht0 d1))[i := []]\<rparr>, rehashidx := int i + 1\<rparr>)) = mset (entries d)"
      "iterators d1 = iterators d" "rehashidx d \<le> int i" "tsize (ht0 d1) = tsize (ht0 d)" "i < tsize (ht0 d)"
      "chain_fits hf (table (ht0 d) ! i) (ht1 d)" .
    define d2 where "d2 = d1\<lparr>ht0 := (ht0 d1)\<lparr>table := (table (ht0 d1))[i := []]\<rparr>, rehashidx := int i + 1\<rparr>"
    have loop: "dictRehash_loop hf (Suc n) d = dictRehash_loop hf n d2"
      using False s(1,2,10) by (simp add: d2_def s(3) Let_def)
    have re: "dictIsRehashing d2" "rehashidx d2 = int i + 1" "tsize (ht0 d2) = tsize (ht0 d)"
      "iterators d2 = iterators d"
      using s by (simp_all add: d2_def dictIsRehashing_def)
    from Suc.IH [OF s(4) [folded d2_def] re(1)] show ?thesis
      using re s(5,7,9) unfolding loop d2_def [symmetric] by (auto simp: algebra_simps)
  qed
qed

lemma dictRehash_spec:
  assumes "dict_wf hf d"
  shows "\<exists>d' b. dictRehash hf n d = Some (d', b) \<and> dict_wf hf d' \<and> mset (entries d') = mset (entries d)
    \<and> iterators d' = iterators d \<and> dictIsRehashing d' = b"
  using dictRehash_loop_spec [OF assms, of n] assms by (cases "dictIsRehashing d") (auto simp: dictRehash_def)

lemma dict_abs_mset:
  assumes "mset (entries d') = mset (entries d)" "dict_wf hf d"
  shows "dict_abs d' = dict_abs d"
  using map_of_mset [OF assms(1) [symmetric]] assms(2) by (simp add: dict_abs_def dict_wf_def)

section \<open>Lookup\<close>

definition ready :: "('k \<Rightarrow> 32 word) \<Rightarrow> ('k, 'v) dict \<Rightarrow> bool" where
  "ready hf d \<longleftrightarrow> dict_wf hf d \<and> ht_ok hf (ht0 d)"

lemma ready_rehash_if:
  assumes "dict_wf hf d" "tsize (ht0 d) \<noteq> 0"
  obtains d' where "rehash_if hf d = Some d'" "ready hf d'" "mset (entries d') = mset (entries d)"
proof (cases "dictIsRehashing d")
  case False
  then show ?thesis using that assms by (auto simp: rehash_if_def ready_def dict_wf_def dictReset_def)
next
  case True
  obtain d' b where d': "dictRehash_loop hf 1 d = Some (d', b)" "dict_wf hf d'" "mset (entries d') = mset (entries d)"
      "dictIsRehashing d' = b"
    using dictRehash_loop_spec [OF assms(1) True, of 1] by blast
  have "ht_ok hf (ht0 d')"
  proof (cases b)
    case True
    then show ?thesis using d'(2,4) by (simp add: dict_wf_def)
  next
    case False
    then have "ht0 d' = ht1 d"
      using d'(1) by (auto simp: Let_def split: if_splits option.splits)
    then show ?thesis using True assms(1) by (simp add: dict_wf_def)
  qed
  then have d'': "ready hf d'" using d'(2) by (simp add: ready_def)
  have rd: "ready hf d" using True assms(1) by (simp add: ready_def dict_wf_def)
  have "rehash_if hf d = Some (if iterators d = 0 then d' else d)"
    using True d'(1) by (simp del: dictRehash_loop.simps add: rehash_if_def dictRehashStep_def dictRehash_def)
  then show ?thesis using that [OF _ d'' d'(3)] that [OF _ rd refl] by (cases "iterators d = 0") simp_all
qed

lemma used_le_entries: "dict_wf hf d \<Longrightarrow> used (ht0 d) \<le> length (entries d)"
  by (auto simp: dict_wf_def entries_def ht_ok_def split: if_splits)

text \<open>The tables a lookup visits.\<close>

definition live :: "('k, 'v) dict \<Rightarrow> nat \<Rightarrow> bool" where
  "live d t \<longleftrightarrow> t = 0 \<or> t = 1 \<and> dictIsRehashing d"

lemma live_ok: "ready hf d \<Longrightarrow> live d t \<Longrightarrow> ht_ok hf (ht d t)"
  by (auto simp: ready_def live_def ht_def dict_wf_def)

lemma entries_live: "ready hf d \<Longrightarrow> set (entries d) = (\<Union>t \<in> {t. live d t}. set (concat (table (ht d t))))"
proof -
  have "{t. live d t} = (if dictIsRehashing d then {0, 1} else {0})" by (auto simp: live_def)
  moreover assume "ready hf d"
  ultimately show ?thesis
    by (cases "dictIsRehashing d") (simp_all add: entries_def ready_def ht_def dict_wf_def dictReset_def)
qed

lemma bucket_of_key:
  assumes "ht_ok hf h" "e \<in> set (concat (table h))"
  shows "e \<in> set (table h ! ht_idx (hf (fst e)) (sizemask h))"
proof -
  obtain b where "b \<in> set (table h)" "e \<in> set b" using assms(2) by auto
  then obtain i where "i < length (table h)" "table h ! i = b" by (auto simp: in_set_conv_nth)
  then show ?thesis using assms(1) \<open>e \<in> set b\<close> by (auto simp: ht_ok_def)
qed

lemma bucket_subset:
  assumes "ht_ok hf h" "i < tsize h"
  shows "set (table h ! i) \<subseteq> set (concat (table h))"
proof -
  have "table h ! i \<in> set (table h)" using assms by (simp add: ht_ok_def)
  then show ?thesis by auto
qed

lemma find_in_spec:
  assumes "ready hf d" "live d t"
  shows "find_in hf d key t = (if key \<in> fst ` set (concat (table (ht d t)))
    then Some (t, ht_idx (hf key) (sizemask (ht d t))) else None)"
proof -
  note ok = live_ok [OF assms]
  have "key \<in> fst ` set (table (ht d t) ! ht_idx (hf key) (sizemask (ht d t)))
      \<longleftrightarrow> key \<in> fst ` set (concat (table (ht d t)))"
  proof
    assume "key \<in> fst ` set (table (ht d t) ! ht_idx (hf key) (sizemask (ht d t)))"
    then show "key \<in> fst ` set (concat (table (ht d t)))"
      using bucket_subset [OF ok ht_idx_less [OF ok]] by blast
  next
    assume "key \<in> fst ` set (concat (table (ht d t)))"
    then obtain e where "e \<in> set (concat (table (ht d t)))" "fst e = key" by blast
    then show "key \<in> fst ` set (table (ht d t) ! ht_idx (hf key) (sizemask (ht d t)))"
      using bucket_of_key [OF ok, of e] by blast
  qed
  then show ?thesis by (simp add: find_in_def Let_def)
qed

lemma find_loc_Some:
  assumes "ready hf d" "find_loc hf d key = Some (t, i)"
  shows "live d t" "i < tsize (ht d t)" "i = ht_idx (hf key) (sizemask (ht d t))"
    "key \<in> fst ` set (table (ht d t) ! i)"
    "dictGetVal d (t, i) key = dict_abs d key" "dict_abs d key \<noteq> None"
proof -
  have in_t: "live d t \<and> find_in hf d key t = Some (t, i)"
    using assms(2) by (auto simp: find_loc_def find_in_def live_def Let_def split: option.splits if_splits)
  then show live: "live d t" by blast
  note ok = live_ok [OF assms(1) live]
  show i: "i = ht_idx (hf key) (sizemask (ht d t))" "i < tsize (ht d t)"
    using in_t ht_idx_less [OF ok] by (auto simp: find_in_def Let_def split: if_splits)
  show key: "key \<in> fst ` set (table (ht d t) ! i)"
    using in_t by (auto simp: find_in_def Let_def split: if_splits)
  have sub: "set (table (ht d t) ! i) \<subseteq> set (entries d)"
    using bucket_subset [OF ok i(2)] entries_live [OF assms(1)] live by blast
  have dist: "distinct (map fst (entries d))" using assms(1) by (simp add: ready_def dict_wf_def)
  obtain v where v: "map_of (table (ht d t) ! i) key = Some v"
    using key by (metis map_of_eq_None_iff not_Some_eq)
  then have "(key, v) \<in> set (entries d)" using map_of_SomeD sub by fastforce
  then have "dict_abs d key = Some v" using dist by (simp add: dict_abs_def)
  then show "dictGetVal d (t, i) key = dict_abs d key" "dict_abs d key \<noteq> None"
    using v by (simp_all add: dictGetVal_def)
qed

lemma find_loc_None:
  assumes "ready hf d"
  shows "find_loc hf d key = None \<longleftrightarrow> dict_abs d key = None"
proof -
  have "find_loc hf d key = None \<longleftrightarrow> (\<forall>t. live d t \<longrightarrow> key \<notin> fst ` set (concat (table (ht d t))))"
    using find_in_spec [OF assms, of 0 key] find_in_spec [OF assms, of 1 key]
    by (auto simp: find_loc_def live_def split: option.splits)
  also have "\<dots> \<longleftrightarrow> key \<notin> fst ` set (entries d)"
    unfolding entries_live [OF assms] by auto
  finally show ?thesis by (simp add: dict_abs_def map_of_eq_None_iff)
qed

lemma ready_search_fits: "ready hf d \<Longrightarrow> search_fits hf d key"
  by (auto simp: search_fits_def ready_def dict_wf_def ht_idx_less ht_ok_lengths(1))

lemma dict_abs_reset: "ht0 d = dictReset \<Longrightarrow> ht1 d = dictReset \<Longrightarrow> dict_abs d = Map.empty"
  by (simp add: dict_abs_def entries_def dictReset_def)

lemma dict_wf_no_table:
  assumes "dict_wf hf d" "tsize (ht0 d) = 0"
  shows "ht0 d = dictReset" "ht1 d = dictReset" "\<not> dictIsRehashing d" "dict_abs d = Map.empty"
  using assms ht_ok_pos [of hf "ht0 d"] by (auto simp: dict_wf_def dict_abs_reset split: if_splits)

lemma dictFind_spec:
  assumes "dict_wf hf d"
  shows "\<exists>d' l. dictFind hf d key = Some (d', l) \<and> dict_wf hf d' \<and> mset (entries d') = mset (entries d)
    \<and> (l = None \<longleftrightarrow> dict_abs d key = None) \<and> (\<forall>p. l = Some p \<longrightarrow> ready hf d' \<and> find_loc hf d' key = Some p)"
proof (cases "tsize (ht0 d) = 0")
  case True
  then show ?thesis using dict_wf_no_table [OF assms True] assms by (simp add: dictFind_def)
next
  case False
  from ready_rehash_if [OF assms False] obtain d' where d': "rehash_if hf d = Some d'" "ready hf d'"
    "mset (entries d') = mset (entries d)" .
  have "dict_abs d' = dict_abs d" using dict_abs_mset [OF d'(3) assms] .
  then show ?thesis using d' False find_loc_None [OF d'(2), of key] ready_search_fits [OF d'(2), of key]
    by (simp add: dictFind_def ready_def)
qed

lemma dictFetchValue_spec:
  assumes "dict_wf hf d"
  shows "\<exists>d'. dictFetchValue hf d key = Some (d', dict_abs d key) \<and> dict_wf hf d' \<and> dict_abs d' = dict_abs d"
proof -
  obtain d' l where f: "dictFind hf d key = Some (d', l)" "dict_wf hf d'" "mset (entries d') = mset (entries d)"
      "l = None \<longleftrightarrow> dict_abs d key = None" "\<forall>p. l = Some p \<longrightarrow> ready hf d' \<and> find_loc hf d' key = Some p"
    using dictFind_spec [OF assms] by blast
  have "dict_abs d' = dict_abs d" using dict_abs_mset [OF f(3) assms] .
  moreover have "(case l of None \<Rightarrow> None | Some l \<Rightarrow> dictGetVal d' l key) = dict_abs d key"
    using f(4,5) find_loc_Some(5) [of hf d' key] calculation by (cases l) auto
  ultimately show ?thesis using f by (simp add: dictFetchValue_def)
qed

section \<open>Updates of a bucket\<close>

lemma set_bucket:
  assumes "ready hf d" "live d t" "i < tsize (ht d t)"
    and "\<forall>e \<in> set b. ht_idx (hf (fst e)) (sizemask (ht d t)) = i"
    and "n + length (table (ht d t) ! i) = used (ht d t) + length b"
    and "t = 0 \<and> dictIsRehashing d \<longrightarrow> table (ht d t) ! i \<noteq> []"
    and d': "d' = set_ht d t ((ht d t)\<lparr>table := (table (ht d t))[i := b], used := n\<rparr>)"
  shows "mset (entries d') + mset (table (ht d t) ! i) = mset (entries d) + mset b"
    "distinct (map fst (entries d')) \<Longrightarrow> ready hf d'"
proof -
  note ok = live_ok [OF assms(1,2)]
  have len: "i < length (table (ht d t))" using assms(3) ht_ok_lengths [OF ok] by simp
  note ms = mset_concat_update [OF len, of b]
  show "mset (entries d') + mset (table (ht d t) ! i) = mset (entries d) + mset b"
    using ms by (simp add: d' entries_def set_ht_def ht_def split: if_splits)
  have ok': "ht_ok hf ((ht d t)\<lparr>table := (table (ht d t))[i := b], used := n\<rparr>)"
    by (rule ht_ok_update [OF ok assms(3-5)])
  assume dist: "distinct (map fst (entries d'))"
  show "ready hf d'"
  proof (cases "dictIsRehashing d")
    case True
    then have re: "dictIsRehashing d'" "rehashidx d' = rehashidx d"
      by (simp_all add: d' set_ht_def dictIsRehashing_def)
    have wf: "ht_ok hf (ht0 d)" "ht_ok hf (ht1 d)" "0 \<le> rehashidx d"
      "\<forall>i < length (table (ht0 d)). int i < rehashidx d \<longrightarrow> table (ht0 d) ! i = []"
      using assms(1) True by (auto simp: ready_def dict_wf_def)
    have "\<forall>j < length (table (ht0 d')). int j < rehashidx d' \<longrightarrow> table (ht0 d') ! j = []"
    proof (intro allI impI)
      fix j assume j: "j < length (table (ht0 d'))" "int j < rehashidx d'"
      have "table (ht0 d') ! j = (if t = 0 then (table (ht0 d))[i := b] ! j else table (ht0 d) ! j)"
        "length (table (ht0 d')) = length (table (ht0 d))"
        by (simp_all add: d' set_ht_def ht_def)
      moreover have "table (ht0 d) ! j = []" using wf(4) j re(2) calculation(2) by simp
      moreover have "t = 0 \<Longrightarrow> j \<noteq> i" using calculation(3) assms(6) True by (auto simp: ht_def)
      ultimately show "table (ht0 d') ! j = []" by (cases "t = 0") simp_all
    qed
    moreover have "ht_ok hf (ht0 d')" "ht_ok hf (ht1 d')"
      using ok' wf by (auto simp: d' set_ht_def ht_def)
    ultimately show ?thesis using re wf(3) dist by (simp add: ready_def dict_wf_def)
  next
    case False
    then have t0: "t = 0" using assms(2) by (simp add: live_def)
    have "\<not> dictIsRehashing d'" using False by (simp add: d' set_ht_def dictIsRehashing_def)
    moreover have "ht_ok hf (ht0 d')" using ok' t0 by (simp add: d' set_ht_def ht_def)
    moreover have "ht1 d' = dictReset"
      using assms(1) False t0 by (simp add: d' set_ht_def ready_def dict_wf_def)
    ultimately show ?thesis using dist by (simp add: ready_def dict_wf_def)
  qed
qed

lemma old_bucket_ok:
  assumes "ready hf d" "live d t" "i < tsize (ht d t)"
  shows "\<forall>e \<in> set (table (ht d t) ! i). ht_idx (hf (fst e)) (sizemask (ht d t)) = i"
  using live_ok [OF assms(1,2)] assms(3) by (auto simp: ht_ok_def)

lemma bucket_distinct:
  assumes "ready hf d" "live d t" "i < tsize (ht d t)"
  shows "distinct (map fst (table (ht d t) ! i))"
proof -
  note ok = live_ok [OF assms(1,2)]
  have "table (ht d t) ! i \<in> set (table (ht d t))" using ok assms(3) by (simp add: ht_ok_def)
  then obtain a b where ab: "table (ht d t) = a @ (table (ht d t) ! i) # b" by (meson split_list)
  have "distinct (map fst (concat (table (ht d t))))"
    using assms(1) by (auto simp: ready_def dict_wf_def entries_def ht_def)
  then show ?thesis by (subst (asm) ab) auto
qed

text \<open>Each kind of change, on the whole contents.\<close>

lemma insert_entry:
  assumes "ready hf d" "dict_abs d key = None"
    and t: "t = (if dictIsRehashing d then 1 else 0)" and i: "i = ht_idx (hf key) (sizemask (ht d t))"
    and d': "d' = set_ht d t ((ht d t)\<lparr>table := (table (ht d t))[i := (key, val) # table (ht d t) ! i],
      used := used (ht d t) + 1\<rparr>)"
  shows "ready hf d'" "dict_abs d' = (dict_abs d)(key \<mapsto> val)"
proof -
  have live: "live d t" by (simp add: live_def t)
  have il: "i < tsize (ht d t)" using ht_idx_less [OF live_ok [OF assms(1) live]] by (simp add: i)
  have "mset (entries d') + mset (table (ht d t) ! i)
      = mset (entries d) + mset ((key, val) # table (ht d t) ! i)"
    and rdy: "distinct (map fst (entries d')) \<Longrightarrow> ready hf d'"
    using set_bucket [OF assms(1) live il _ _ _ d'] old_bucket_ok [OF assms(1) live il] i t by auto
  then have ms: "mset ((key, val) # entries d) = mset (entries d')" by simp
  have "distinct (map fst ((key, val) # entries d))"
    using assms(1,2) by (auto simp: ready_def dict_wf_def dict_abs_def map_of_eq_None_iff)
  note m = map_of_mset [OF ms this]
  show "ready hf d'" by (rule rdy [OF m(2)])
  show "dict_abs d' = (dict_abs d)(key \<mapsto> val)" using m(1) by (simp add: dict_abs_def)
qed

lemma entry_set_map: "key \<in> fst ` set es \<Longrightarrow> map fst (entry_set key val es) = map fst es"
  by (induction es) auto

lemma entry_set_split:
  assumes "key \<in> fst ` set es"
  obtains a v b where "es = a @ (key, v) # b" "entry_set key val es = a @ (key, val) # b"
    "entry_unlink key es = a @ b"
  using assms
proof (induction es arbitrary: thesis)
  case (Cons e es)
  show ?case
  proof (cases "fst e = key")
    case True
    then show ?thesis using Cons.prems(1) [of "[]" "snd e" es] by (cases e) auto
  next
    case False
    then obtain a v b where "es = a @ (key, v) # b" "entry_set key val es = a @ (key, val) # b"
      "entry_unlink key es = a @ b" using Cons.IH Cons.prems(2) by auto
    then show ?thesis using Cons.prems(1) [of "e # a" v b] False by auto
  qed
qed simp

lemma found_entry:
  assumes "ready hf d" "find_loc hf d key = Some (t, i)"
  obtains a v b rest where "table (ht d t) ! i = a @ (key, v) # b"
    "entry_set key val (table (ht d t) ! i) = a @ (key, val) # b"
    "entry_unlink key (table (ht d t) ! i) = a @ b"
    "mset (entries d) = mset ((key, v) # rest)" "distinct (map fst ((key, v) # rest))"
    "mset (table (ht d t) ! i) \<subseteq># mset (entries d)"
proof -
  note f = find_loc_Some [OF assms]
  obtain a v b where ab: "table (ht d t) ! i = a @ (key, v) # b"
    "entry_set key val (table (ht d t) ! i) = a @ (key, val) # b"
    "entry_unlink key (table (ht d t) ! i) = a @ b"
    using entry_set_split [OF f(4)] by metis
  note ok = live_ok [OF assms(1) f(1)]
  have il: "i < length (table (ht d t))" using f(2) ht_ok_lengths [OF ok] by simp
  have "mset (table (ht d t) ! i) \<subseteq># mset (concat (table (ht d t)))"
    using mset_concat_update [OF il, of "[]"] by (metis mset.simps(1) add_0_right mset_subset_eq_add_right)
  also have "\<dots> \<subseteq># mset (entries d)" by (simp add: entries_def ht_def)
  finally have sub: "mset (table (ht d t) ! i) \<subseteq># mset (entries d)" .
  then have "(key, v) \<in> set (entries d)" using ab(1) by (auto dest: set_mset_mono)
  then obtain xs ys where e: "entries d = xs @ (key, v) # ys" by (meson split_list)
  have "distinct (map fst (entries d))" using assms(1) by (simp add: ready_def dict_wf_def)
  then have "distinct (map fst ((key, v) # xs @ ys))" by (auto simp: e)
  then show ?thesis using that [OF ab, of "xs @ ys"] sub by (simp add: e)
qed

lemma set_entry:
  assumes "ready hf d" "find_loc hf d key = Some (t, i)"
  shows "ready hf (dictSetVal d (t, i) key val)" "dict_abs (dictSetVal d (t, i) key val) = (dict_abs d)(key \<mapsto> val)"
proof -
  note f = find_loc_Some [OF assms]
  from found_entry [OF assms, of val] obtain a v b rest where s: "table (ht d t) ! i = a @ (key, v) # b"
    "entry_set key val (table (ht d t) ! i) = a @ (key, val) # b"
    "mset (entries d) = mset ((key, v) # rest)" "distinct (map fst ((key, v) # rest))" .
  have ne: "t = 0 \<and> dictIsRehashing d \<longrightarrow> table (ht d t) ! i \<noteq> []"
    using s(1) by (intro impI) simp
  define d' where "d' = dictSetVal d (t, i) key val"
  have d'': "d' = set_ht d t ((ht d t)\<lparr>table := (table (ht d t))[i := a @ (key, val) # b], used := used (ht d t)\<rparr>)"
    by (simp add: d'_def dictSetVal_def Let_def s(2))
  have old: "\<forall>e \<in> set (a @ (key, val) # b). ht_idx (hf (fst e)) (sizemask (ht d t)) = i"
    using old_bucket_ok [OF assms(1) f(1,2)] s(1) by auto
  have "mset (entries d') + mset (table (ht d t) ! i) = mset (entries d) + mset (a @ (key, val) # b)"
    and rdy: "distinct (map fst (entries d')) \<Longrightarrow> ready hf d'"
    using set_bucket [OF assms(1) f(1,2) old _ ne d''] s(1) by auto
  then have ms: "mset ((key, val) # rest) = mset (entries d')" using s(1,3) by simp
  have "distinct (map fst ((key, val) # rest))" using s(4) by simp
  note m = map_of_mset [OF ms this]
  show "ready hf (dictSetVal d (t, i) key val)" using rdy [OF m(2)] by (simp add: d'_def)
  have "dict_abs d = (map_of rest)(key \<mapsto> v)"
    using map_of_mset(1) [OF s(3) [symmetric] s(4)] by (simp add: dict_abs_def)
  then show "dict_abs (dictSetVal d (t, i) key val) = (dict_abs d)(key \<mapsto> val)"
    using m(1) by (simp add: dict_abs_def d'_def)
qed

lemma unlink_entry:
  assumes "ready hf d" "find_loc hf d key = Some (t, i)"
    and d': "d' = set_ht d t ((ht d t)\<lparr>table := (table (ht d t))[i := entry_unlink key (table (ht d t) ! i)],
      used := used (ht d t) - 1\<rparr>)"
  shows "ready hf d'" "dict_abs d' = (dict_abs d)(key := None)"
proof -
  note f = find_loc_Some [OF assms(1,2)]
  from found_entry [OF assms(1,2)] obtain a v b rest where s: "table (ht d t) ! i = a @ (key, v) # b"
    "entry_unlink key (table (ht d t) ! i) = a @ b"
    "mset (entries d) = mset ((key, v) # rest)" "distinct (map fst ((key, v) # rest))" by metis
  have ne: "t = 0 \<and> dictIsRehashing d \<longrightarrow> table (ht d t) ! i \<noteq> []"
    using s(1) by (intro impI) simp
  have d'': "d' = set_ht d t ((ht d t)\<lparr>table := (table (ht d t))[i := a @ b], used := used (ht d t) - 1\<rparr>)"
    by (simp add: d' s(2))
  have old: "\<forall>e \<in> set (a @ b). ht_idx (hf (fst e)) (sizemask (ht d t)) = i"
    using old_bucket_ok [OF assms(1) f(1,2)] s(1) by auto
  note ok = live_ok [OF assms(1) f(1)]
  have "table (ht d t) ! i \<in> set (table (ht d t))" using ok f(2) by (simp add: ht_ok_def)
  then have "0 < used (ht d t)" using ok s(1) by (auto simp: ht_ok_def)
  then have "mset (entries d') + mset (table (ht d t) ! i) = mset (entries d) + mset (a @ b)"
    and rdy: "distinct (map fst (entries d')) \<Longrightarrow> ready hf d'"
    using set_bucket [OF assms(1) f(1,2) old _ ne d''] s(1) by auto
  then have ms: "mset rest = mset (entries d')" using s(1,3) by simp
  have "distinct (map fst rest)" using s(4) by simp
  note m = map_of_mset [OF ms this]
  show "ready hf d'" by (rule rdy [OF m(2)])
  have "dict_abs d = (map_of rest)(key \<mapsto> v)" "map_of rest key = None"
    using map_of_mset(1) [OF s(3) [symmetric] s(4)] s(4) by (auto simp: dict_abs_def map_of_eq_None_iff)
  then show "dict_abs d' = (dict_abs d)(key := None)" using m(1) by (auto simp: dict_abs_def)
qed

section \<open>The operations implement a map\<close>

lemma dictNextPower_loop_power:
  assumes "k \<le> b" "n \<le> 2 ^ b"
  shows "\<exists>m \<le> b. dictNextPower_loop (2 ^ k) n = 2 ^ m \<and> k \<le> m \<and> n \<le> 2 ^ m"
  using assms
proof (induction "b - k" arbitrary: k)
  case 0
  then have "k = b" by simp
  then show ?case using 0 by (subst dictNextPower_loop.simps) auto
next
  case (Suc x)
  show ?case
  proof (cases "2 ^ k < n")
    case True
    have "\<exists>m \<le> b. dictNextPower_loop (2 ^ Suc k) n = 2 ^ m \<and> Suc k \<le> m \<and> n \<le> 2 ^ m"
      using Suc by (intro Suc.hyps) auto
    then show ?thesis using True by (subst dictNextPower_loop.simps) (auto simp: mult.commute)
  next
    case False
    then show ?thesis using Suc by (subst dictNextPower_loop.simps) auto
  qed
qed

lemma dictNextPower_power:
  assumes "n \<le> DICT_MAX_SIZE"
  shows "\<exists>m \<le> 31. dictNextPower n = 2 ^ m \<and> 2 \<le> m \<and> n \<le> 2 ^ m"
  using dictNextPower_loop_power [of 2 31 n] assms by (simp add: dictNextPower_def)

lemma new_table_small: "m \<le> 60 \<Longrightarrow> table (new_table (2 ^ m)) = replicate (2 ^ m) []"
proof -
  assume "m \<le> 60"
  then have "(2 :: nat) ^ m \<le> 2 ^ 60" by (intro power_increasing) auto
  then have "2 ^ m * 8 < (2 :: nat) ^ 64" by simp
  then have "2 ^ m * 8 mod 2 ^ 64 div 8 = (2 :: nat) ^ m" by (subst mod_less) simp_all
  then show ?thesis unfolding new_table_def by (simp only: dictht.simps)
qed

lemma new_table_fields: "tsize (new_table n) = n" "sizemask (new_table n) = of_nat (n - 1)" "used (new_table n) = 0"
  by (simp_all only: new_table_def dictht.simps)

lemma new_table_ok:
  assumes "m \<le> 60"
  shows "ht_ok hf (new_table (2 ^ m))"
proof -
  have "size_ok (2 ^ m) (of_nat (2 ^ m - 1))"
    using assms unfolding size_ok_def by (intro conjI exI [of _ m] refl) simp
  then show ?thesis
    by (simp del: of_nat_diff One_nat_def add: new_table_fields ht_ok_def new_table_small [OF assms] concat_replicate_trivial)
qed

lemma concat_new_table [simp]: "concat (table (new_table n)) = []"
  by (simp add: new_table_def concat_replicate_trivial)

lemma dictExpand_spec:
  fixes d :: "('k, 'v) dict"
  assumes "dict_wf hf d" "n \<le> DICT_MAX_SIZE"
  shows "dict_wf hf (fst (dictExpand d n))" "entries (fst (dictExpand d n)) = entries d"
    "snd (dictExpand d n) \<longleftrightarrow> \<not> dictIsRehashing d \<and> used (ht0 d) \<le> n"
    "snd (dictExpand d n) \<Longrightarrow> ready hf (fst (dictExpand d n))"
    "iterators (fst (dictExpand d n)) = iterators d"
    "dict_small d \<Longrightarrow> dict_small (fst (dictExpand d n))"
proof -
  obtain m where m: "m \<le> 31" "dictNextPower n = 2 ^ m" using dictNextPower_power [OF assms(2)] by blast
  have new: "ht_ok hf (new_table (2 ^ m) :: ('k, 'v) dictht)" by (rule new_table_ok) (use m(1) in simp)
  have "(2 :: nat) ^ m \<le> 2 ^ 31" using m(1) by (intro power_increasing) auto
  then have small: "tsize (new_table (2 ^ m) :: ('k, 'v) dictht) \<le> DICT_MAX_SIZE" by (simp add: new_table_def)
  have e: "null_table (ht0 d) \<Longrightarrow> \<not> dictIsRehashing d \<Longrightarrow> entries d = []"
    using assms(1) by (simp add: entries_def dict_wf_def dictReset_def null_table_def)
  have ne: "\<not> null_table (ht0 d) \<Longrightarrow> \<not> dictIsRehashing d \<Longrightarrow> ht_ok hf (ht0 d)"
    using assms(1) by (auto simp: dict_wf_def dictReset_def null_table_def)
  consider "dictIsRehashing d \<or> used (ht0 d) > n" "dictExpand d n = (d, False)"
    | "\<not> dictIsRehashing d" "used (ht0 d) \<le> n" "null_table (ht0 d)"
      "dictExpand d n = (d\<lparr>ht0 := new_table (2 ^ m)\<rparr>, True)"
    | "\<not> dictIsRehashing d" "used (ht0 d) \<le> n" "\<not> null_table (ht0 d)"
      "dictExpand d n = (d\<lparr>ht1 := new_table (2 ^ m),
         rehashidx := 0\<rparr>, True)"
    unfolding dictExpand_def Let_def m(2) by (metis not_le)
  then have "dict_wf hf (fst (dictExpand d n)) \<and> entries (fst (dictExpand d n)) = entries d
    \<and> (snd (dictExpand d n) \<longleftrightarrow> \<not> dictIsRehashing d \<and> used (ht0 d) \<le> n)
    \<and> (snd (dictExpand d n) \<longrightarrow> ready hf (fst (dictExpand d n)))
    \<and> iterators (fst (dictExpand d n)) = iterators d
    \<and> (dict_small d \<longrightarrow> dict_small (fst (dictExpand d n)))"
  proof cases
    case 1
    then show ?thesis using assms(1) by auto
  next
    case 2
    then show ?thesis using e assms(1) small
      by (simp add: new dict_wf_def entries_def ready_def dictIsRehashing_def dict_small_def)
  next
    case 3
    then show ?thesis using ne assms(1) small
      by (simp add: new dict_wf_def entries_def ready_def dictIsRehashing_def dictReset_def dict_small_def)
  qed
  then show "dict_wf hf (fst (dictExpand d n))" "entries (fst (dictExpand d n)) = entries d"
    "snd (dictExpand d n) \<longleftrightarrow> \<not> dictIsRehashing d \<and> used (ht0 d) \<le> n"
    "snd (dictExpand d n) \<Longrightarrow> ready hf (fst (dictExpand d n))"
    "iterators (fst (dictExpand d n)) = iterators d"
    "dict_small d \<Longrightarrow> dict_small (fst (dictExpand d n))" by blast+
qed

text \<open>No operation but an expansion makes a table larger.\<close>

lemma rehash_fold_tsize:
  "tsize (ht0 (fold (rehash_entry hf) es d)) = tsize (ht0 d)"
  "tsize (ht1 (fold (rehash_entry hf) es d)) = tsize (ht1 d)"
  by (induction es arbitrary: d) (simp_all add: rehash_entry_def Let_def)

lemma dictRehash_loop_small: "dictRehash_loop hf n d = Some (d', b) \<Longrightarrow> dict_small d \<Longrightarrow> dict_small d'"
proof (induction n arbitrary: d)
  case (Suc n)
  show ?case
    using Suc.prems(1)
    by (auto simp: Let_def split: if_splits option.splits
        dest!: Suc.IH) (use Suc.prems(2) in \<open>simp_all add: dict_small_def rehash_fold_tsize\<close>)
qed simp

lemma dictRehash_small: "dictRehash hf n d = Some (d', b) \<Longrightarrow> dict_small d \<Longrightarrow> dict_small d'"
  by (auto simp: dictRehash_def dest: dictRehash_loop_small split: if_splits)

lemma rehash_if_small: "rehash_if hf d = Some d' \<Longrightarrow> dict_small d \<Longrightarrow> dict_small d'"
  by (auto simp: rehash_if_def dictRehashStep_def dest: dictRehash_small split: if_splits)

lemma dictFind_small: "dictFind hf d key = Some (d', l) \<Longrightarrow> dict_small d \<Longrightarrow> dict_small d'"
  by (auto simp: dictFind_def dest: rehash_if_small split: if_splits option.splits)

lemma dictFetchValue_small: "dictFetchValue hf d key = Some (d', v) \<Longrightarrow> dict_small d \<Longrightarrow> dict_small d'"
  by (auto simp: dictFetchValue_def dest: dictFind_small)

lemma set_ht_small: "dict_small (set_ht d t ((ht d t)\<lparr>table := tb, used := n\<rparr>)) \<longleftrightarrow> dict_small d"
  "dict_small (set_ht d t ((ht d t)\<lparr>table := tb\<rparr>)) \<longleftrightarrow> dict_small d"
  by (simp_all add: dict_small_def set_ht_def ht_def)

lemma dictGenericDelete_small: "dictGenericDelete hf d key = Some (d', b) \<Longrightarrow> dict_small d \<Longrightarrow> dict_small d'"
  by (auto simp: dictGenericDelete_def Let_def set_ht_small dest: rehash_if_small split: if_splits option.splits)

lemma rehash_if_room:
  assumes "dict_wf hf d" "dict_room d"
  obtains d' where "rehash_if hf d = Some d'" "dict_wf hf d'" "mset (entries d') = mset (entries d)" "dict_room d'"
proof (cases "tsize (ht0 d) = 0")
  case True
  then show ?thesis using that [of d] assms dict_wf_no_table(3) [OF assms(1) True] by (simp add: rehash_if_def)
next
  case False
  obtain d' where d': "rehash_if hf d = Some d'" "ready hf d'" "mset (entries d') = mset (entries d)"
    using ready_rehash_if [OF assms(1) False] .
  have "length (entries d') = length (entries d)" using d'(3) by (metis size_mset)
  then show ?thesis using that [OF d'(1) _ d'(3)] d'(2) assms(2) by (simp add: ready_def dict_room_def)
qed

lemma dictExpandIfNeeded_spec:
  assumes "dict_wf hf d" "dict_room d"
  obtains d' where "dictExpandIfNeeded cr d = (d', True)" "ready hf d'" "entries d' = entries d"
    "dict_small d \<Longrightarrow> dict_small d'"
proof -
  have room: "used (ht0 d) * 2 \<le> DICT_MAX_SIZE" using assms(2) used_le_entries [OF assms(1)] by (simp add: dict_room_def)
  then have "used (ht0 d) * 2 < 2 ^ 64" by simp
  note wrap = mod_less [OF this]
  note e4 = dictExpand_spec [OF assms(1), of DICT_HT_INITIAL_SIZE]
  note e2 = dictExpand_spec [OF assms(1) room]
  have "snd (dictExpandIfNeeded cr d) \<and> ready hf (fst (dictExpandIfNeeded cr d))
      \<and> entries (fst (dictExpandIfNeeded cr d)) = entries d
      \<and> (dict_small d \<longrightarrow> dict_small (fst (dictExpandIfNeeded cr d)))"
  proof (cases "dictIsRehashing d")
    case True
    then show ?thesis using assms(1) by (simp add: dictExpandIfNeeded_def ready_def dict_wf_def)
  next
    case False
    show ?thesis
    proof (cases "tsize (ht0 d) = 0")
      case True
      then have "used (ht0 d) = 0" using dict_wf_no_table(1) [OF assms(1)] by simp
      then have "snd (dictExpand d DICT_HT_INITIAL_SIZE)" using e4(3) False by simp
      then show ?thesis using e4(2,4,6) True False by (simp add: dictExpandIfNeeded_def)
    next
      case ne: False
      have rdy: "ready hf d" using assms(1) False ne by (auto simp: ready_def dict_wf_def)
      have "snd (dictExpand d (used (ht0 d) * 2))" using e2(3) False by simp
      then show ?thesis using e2(2,4,6) ne False rdy
        by (cases "tsize (ht0 d) \<le> used (ht0 d)
            \<and> (cr \<or> dict_force_resize_ratio < used (ht0 d) div tsize (ht0 d))")
          (simp_all add: dictExpandIfNeeded_def wrap del: power_numeral)
    qed
  qed
  then show ?thesis using that [of "fst (dictExpandIfNeeded cr d)"] by (simp add: prod_eq_iff)
qed

lemma ht_idx_int:
  assumes "ht_ok hf h" "tsize h \<le> DICT_MAX_SIZE"
  shows "to_int32 (ht_idx x (sizemask h)) = int (ht_idx x (sizemask h))"
proof -
  have "ht_idx x (sizemask h) < DICT_MAX_SIZE" using ht_idx_less [OF assms(1), of x] assms(2) by (rule less_le_trans)
  then show ?thesis by (rule to_int32_small)
qed

lemma dictAdd_spec:
  assumes "dict_inv hf d" "dict_room d"
  shows "\<exists>d'. dictAdd hf cr d key val = Some (d', dict_abs d key = None) \<and> ready hf d' \<and> dict_small d'
    \<and> dict_abs d' = (if dict_abs d key = None then (dict_abs d)(key \<mapsto> val) else dict_abs d)"
proof -
  have wf: "dict_wf hf d" "dict_small d" using assms(1) by (simp_all add: dict_inv_def)
  obtain d1 where d1: "rehash_if hf d = Some d1" "dict_wf hf d1" "mset (entries d1) = mset (entries d)" "dict_room d1"
    using rehash_if_room [OF wf(1) assms(2)] .
  obtain d2 where d2: "dictExpandIfNeeded cr d1 = (d2, True)" "ready hf d2" "entries d2 = entries d1" "dict_small d2"
    using dictExpandIfNeeded_spec [OF d1(2,4)] rehash_if_small [OF d1(1) wf(2)] by metis
  have abs: "dict_abs d2 = dict_abs d" using dict_abs_mset [OF d1(3) wf(1)] d2(3) by (simp add: dict_abs_def)
  note fits = ready_search_fits [OF d2(2), of key]
  show ?thesis
  proof (cases "find_loc hf d2 key")
    case None
    then have new: "dict_abs d2 key = None" using find_loc_None [OF d2(2)] by simp
    define t :: nat where "t = (if dictIsRehashing d2 then 1 else 0)"
    define i where "i = ht_idx (hf key) (sizemask (ht d2 t))"
    have ok: "ht_ok hf (ht d2 t)" "tsize (ht d2 t) \<le> DICT_MAX_SIZE"
      using live_ok [OF d2(2), of t] d2(4) by (auto simp: t_def live_def ht_def dict_small_def)
    have "i < length (table (ht d2 t))" using ht_idx_less [OF ok(1)] ht_ok_lengths(1) [OF ok(1)] by (simp add: i_def)
    moreover have "dictKeyIndex hf cr d1 key = Some (d2, int i)"
      using None d2(1) fits ht_idx_int [OF ok] by (simp add: dictKeyIndex_def i_def t_def)
    ultimately have "dictAdd hf cr d key val = Some (set_ht d2 t ((ht d2 t)\<lparr>table :=
        (table (ht d2 t))[i := (key, val) # table (ht d2 t) ! i], used := used (ht d2 t) + 1\<rparr>), True)"
      using d1(1) by (simp add: dictAdd_def Let_def t_def [symmetric])
    then show ?thesis using insert_entry [OF d2(2) new t_def i_def refl] new abs d2(4) by (simp add: set_ht_small)
  next
    case (Some l)
    then obtain v where "dict_abs d key = Some v" using find_loc_None [OF d2(2), of key] abs by auto
    then show ?thesis using Some d1(1) d2(1,2,4) abs fits by (simp add: dictAdd_def dictKeyIndex_def)
  qed
qed

lemma dictReplace_spec:
  assumes "dict_inv hf d" "dict_room d"
  shows "\<exists>d'. dictReplace hf cr d key val = Some (d', dict_abs d key = None) \<and> dict_inv hf d'
    \<and> dict_abs d' = (dict_abs d)(key \<mapsto> val)"
proof -
  obtain d1 where a: "dictAdd hf cr d key val = Some (d1, dict_abs d key = None)" "ready hf d1" "dict_small d1"
      "dict_abs d1 = (if dict_abs d key = None then (dict_abs d)(key \<mapsto> val) else dict_abs d)"
    using dictAdd_spec [OF assms] by blast
  show ?thesis
  proof (cases "dict_abs d key = None")
    case True
    then show ?thesis using a by (simp add: dictReplace_def ready_def dict_inv_def)
  next
    case False
    have "dict_wf hf d1" using a(2) by (simp add: ready_def)
    from dictFind_spec [OF this, of key] obtain d2 l where f: "dictFind hf d1 key = Some (d2, l)"
        "mset (entries d2) = mset (entries d1)" "l = None \<longleftrightarrow> dict_abs d1 key = None"
        "\<forall>p. l = Some p \<longrightarrow> ready hf d2 \<and> find_loc hf d2 key = Some p"
      by (elim exE conjE) (rule that)
    obtain t i where l: "l = Some (t, i)" using f(3) a(4) False by auto
    have abs: "dict_abs d2 = dict_abs d" using dict_abs_mset [OF f(2) \<open>dict_wf hf d1\<close>] a(4) False by auto
    note s = set_entry [of hf d2 key t i val]
    have "dict_small (dictSetVal d2 (t, i) key val)"
      using dictFind_small [OF f(1) a(3)] by (simp add: dictSetVal_def Let_def set_ht_small)
    moreover have "ready hf (dictSetVal d2 (t, i) key val)" "dict_abs (dictSetVal d2 (t, i) key val) = (dict_abs d2)(key \<mapsto> val)"
      using s f(4) l by blast+
    ultimately show ?thesis using a f(1) l False abs by (simp add: dictReplace_def ready_def dict_inv_def)
  qed
qed

lemma dictGenericDelete_spec:
  assumes "dict_wf hf d"
  shows "\<exists>d'. dictGenericDelete hf d key = Some (d', dict_abs d key \<noteq> None) \<and> dict_wf hf d'
    \<and> dict_abs d' = (dict_abs d)(key := None)"
proof (cases "tsize (ht0 d) = 0")
  case True
  then show ?thesis using dict_wf_no_table(4) [OF assms True] assms by (simp add: dictGenericDelete_def fun_upd_idem)
next
  case False
  obtain d1 where d1: "rehash_if hf d = Some d1" "ready hf d1" "mset (entries d1) = mset (entries d)"
    using ready_rehash_if [OF assms False] .
  have abs: "dict_abs d1 = dict_abs d" using dict_abs_mset [OF d1(3) assms] .
  show ?thesis
  proof (cases "find_loc hf d1 key")
    case None
    then have "dict_abs d key = None" using find_loc_None [OF d1(2), of key] abs by simp
    then show ?thesis using None d1 False abs ready_search_fits [OF d1(2), of key]
      by (simp add: dictGenericDelete_def ready_def fun_upd_idem)
  next
    case (Some l)
    obtain t i where l: "l = (t, i)" by (cases l)
    note u = unlink_entry [OF d1(2) Some [unfolded l] refl]
    have "dict_abs d key \<noteq> None" using find_loc_Some(6) [OF d1(2) Some [unfolded l]] abs by simp
    then show ?thesis using Some l d1(1) u False abs ready_search_fits [OF d1(2), of key]
      by (simp add: dictGenericDelete_def Let_def ready_def)
  qed
qed

interpretation dict: map_adt dictCreate "dict_inv hf" dict_room dict_abs "dictAdd hf cr" "dictReplace hf cr"
  "dictGenericDelete hf" "dictFetchValue hf" for hf cr
proof (unfold_locales, goal_cases)
  case 1
  show ?case by (simp add: dict_inv_def dict_wf_def dictCreate_def dictIsRehashing_def entries_def dict_small_def)
next
  case 2
  show ?case by (rule dict_abs_reset) (simp_all add: dictCreate_def)
next
  case (3 s k v)
  then show ?case using dictAdd_spec [of hf s cr k v] by (auto simp: ready_def dict_inv_def)
next
  case (4 s k v)
  then show ?case by (rule dictReplace_spec)
next
  case (5 s k)
  then show ?case using dictGenericDelete_spec [of hf s k] dictGenericDelete_small [of hf s k]
    by (auto simp: dict_inv_def)
next
  case (6 s k)
  then show ?case using dictFetchValue_spec [of hf s k] dictFetchValue_small [of hf s k] by (auto simp: dict_inv_def)
qed

text \<open>Beyond: in a table of \<open>2 ^ 32\<close> buckets the \<open>int\<close> index of a new key whose hash has its
  highest bit set is negative; the hash \<open>2 ^ 32 - 1\<close> gives \<open>-1\<close>, which stands for a key that
  is already there, and the others an access before the table.\<close>

lemma dictAdd_wide:
  assumes "ready hf d" "\<not> dictIsRehashing d" "sizemask (ht0 d) = 4294967295" "used (ht0 d) < tsize (ht0 d)"
    and "dict_abs d key = None" "2147483648 \<le> unat (hf key)"
  shows "dictAdd hf cr d key val = (if unat (hf key) = 4294967295 then Some (d, False) else None)"
proof -
  have "(4294967295 :: 64 word) = mask 32" by (simp add: mask_eq_exp_minus_1)
  then have "ht_idx (hf key) (sizemask (ht0 d)) = unat (hf key)"
    using unsigned_less [of "hf key", where 'a=nat] unfolding ht_idx_def assms(3)
    by (simp only: take_bit_eq_mask [symmetric]) (simp add: unsigned_take_bit_eq unsigned_ucast_eq take_bit_nat_eq_self)
  moreover have "unat (hf key) < 4294967296" using unsigned_less [of "hf key", where 'a=nat] by simp
  note to_int32_high [OF assms(6) this]
  ultimately have "dictKeyIndex hf cr d key = Some (d, int (unat (hf key)) - 4294967296)"
    using assms ready_search_fits [OF assms(1)] find_loc_None [OF assms(1), of key]
    by (simp add: dictKeyIndex_def dictExpandIfNeeded_def ht_def)
  moreover have "int (unat (hf key)) - 4294967296 < 0"
    "(int (unat (hf key)) - 4294967296 = - 1) \<longleftrightarrow> unat (hf key) = 4294967295"
    using \<open>unat (hf key) < 4294967296\<close> by linarith+
  ultimately show ?thesis using assms(2)
    by (simp only: dictAdd_def rehash_if_def Let_def option.case prod.case if_False simp_thms if_True)
qed

lemma dictAdd_wide_witness:
  "\<exists>d. dictExpand dictCreate 4294967296 = (d, True) \<and> dict_wf (\<lambda>_. 2147483648) d
    \<and> dictAdd (\<lambda>_. 2147483648) True d key val = None"
proof -
  let ?hf = "\<lambda>_. 2147483648 :: 32 word"
  define d where "d = (dictCreate\<lparr>ht0 := new_table (2 ^ 32)\<rparr> :: ('a, 'b) dict)"
  obtain m where m: "dictNextPower_loop (2 ^ 2) (2 ^ 32) = 2 ^ m" "m \<le> 32" "(2 :: nat) ^ 32 \<le> 2 ^ m"
    using dictNextPower_loop_power [of 2 32 "2 ^ 32"] by auto
  have "32 \<le> m" using m(3) by (simp only: power_increasing_iff)
  then have "dictNextPower 4294967296 = 4294967296" using m(1,2) by (simp add: dictNextPower_def)
  then have x: "dictExpand dictCreate 4294967296 = (d, True)"
    by (simp add: dictExpand_def dictCreate_def dictIsRehashing_def null_table_def d_def)
  have "ht_ok ?hf (ht0 d)" using new_table_ok [of 32 ?hf] by (simp add: d_def)
  then have r: "ready ?hf d" "\<not> dictIsRehashing d"
    by (simp_all add: ready_def dict_wf_def d_def dictCreate_def dictIsRehashing_def entries_def)
  have s: "sizemask (ht0 d) = 4294967295" "used (ht0 d) < tsize (ht0 d)" by (simp_all add: d_def new_table_fields)
  have "dict_abs d key = None" by (simp add: dict_abs_def entries_def d_def dictCreate_def)
  then have "dictAdd ?hf True d key val = None" using dictAdd_wide [OF r s] by simp
  then show ?thesis using x r(1) by (auto simp: ready_def)
qed

section \<open>Runs of operations\<close>

datatype ('k, 'v) dict_op =
    Add 'k 'v
  | Replace 'k 'v
  | Delete 'k
  | Fetch 'k
  | Rehash nat
  | Resize
  | Expand nat

datatype 'v dict_reply = Done bool | Value "'v option"

text \<open>What the server does to a dictionary; \<open>Rehash\<close> and \<open>Resize\<close> come from its timer.
  The replies of \<open>dictRehash\<close>, \<open>dictResize\<close> and \<open>dictExpand\<close> depend on the
  representation and are not observed.\<close>

primrec dict_step :: "('k \<Rightarrow> 32 word) \<Rightarrow> bool \<Rightarrow> ('k, 'v) dict_op \<Rightarrow> ('k, 'v) dict
    \<Rightarrow> (('k, 'v) dict \<times> 'v dict_reply) option" where
  "dict_step hf cr (Add k v) d = map_option (map_prod id Done) (dictAdd hf cr d k v)"
| "dict_step hf cr (Replace k v) d = map_option (map_prod id Done) (dictReplace hf cr d k v)"
| "dict_step hf cr (Delete k) d = map_option (map_prod id Done) (dictGenericDelete hf d k)"
| "dict_step hf cr (Fetch k) d = map_option (map_prod id Value) (dictFetchValue hf d k)"
| "dict_step hf cr (Rehash n) d = map_option (\<lambda>(d, _). (d, Done True)) (dictRehash hf n d)"
| "dict_step hf cr Resize d = Some (fst (dictResize cr d), Done True)"
| "dict_step hf cr (Expand n) d = Some (fst (dictExpand d n), Done True)"

primrec dict_run :: "('k \<Rightarrow> 32 word) \<Rightarrow> bool \<Rightarrow> ('k, 'v) dict_op list \<Rightarrow> ('k, 'v) dict
    \<Rightarrow> (('k, 'v) dict \<times> 'v dict_reply list) option" where
  "dict_run hf cr [] d = Some (d, [])"
| "dict_run hf cr (op # ops) d =
    (case dict_step hf cr op d of
       None \<Rightarrow> None
     | Some (d, r) \<Rightarrow> map_option (map_prod id ((#) r)) (dict_run hf cr ops d))"

primrec map_step :: "('k, 'v) dict_op \<Rightarrow> ('k \<Rightarrow> 'v option) \<Rightarrow> ('k \<Rightarrow> 'v option) \<times> 'v dict_reply" where
  "map_step (Add k v) m = (if m k = None then (m(k \<mapsto> v), Done True) else (m, Done False))"
| "map_step (Replace k v) m = (m(k \<mapsto> v), Done (m k = None))"
| "map_step (Delete k) m = (m(k := None), Done (m k \<noteq> None))"
| "map_step (Fetch k) m = (m, Value (m k))"
| "map_step (Rehash n) m = (m, Done True)"
| "map_step Resize m = (m, Done True)"
| "map_step (Expand n) m = (m, Done True)"

primrec map_run :: "('k, 'v) dict_op list \<Rightarrow> ('k \<Rightarrow> 'v option) \<Rightarrow> ('k \<Rightarrow> 'v option) \<times> 'v dict_reply list" where
  "map_run [] m = (m, [])"
| "map_run (op # ops) m =
    (let (m, r) = map_step op m; (m, rs) = map_run ops m in (m, r # rs))"

primrec op_ok :: "('k, 'v) dict_op \<Rightarrow> bool" where
  "op_ok (Expand n) \<longleftrightarrow> n \<le> DICT_MAX_SIZE"
| "op_ok (Add k v) = True"
| "op_ok (Replace k v) = True"
| "op_ok (Delete k) = True"
| "op_ok (Fetch k) = True"
| "op_ok (Rehash n) \<longleftrightarrow> n < 2 ^ 31"
| "op_ok Resize = True"

lemma length_entries: "dict_wf hf d \<Longrightarrow> length (entries d) = card (dom (dict_abs d))"
proof -
  assume "dict_wf hf d"
  then have "distinct (map fst (entries d))" by (simp add: dict_wf_def)
  then have "length (entries d) = card (fst ` set (entries d))"
    by (metis distinct_card length_map list.set_map)
  then show ?thesis by (simp add: dict_abs_def dom_map_of_conv_image_fst)
qed

lemma finite_dict_abs [simp]: "finite (dom (dict_abs d))"
  by (simp add: dict_abs_def finite_dom_map_of)

lemma card_dom_map_step: "finite (dom m) \<Longrightarrow> card (dom (fst (map_step op m))) \<le> Suc (card (dom m))"
  by (cases op) (auto simp: card_insert_if card_Diff_singleton_if)

lemma dictResize_spec:
  assumes "dict_inv hf d" "dict_room d"
  shows "dict_inv hf (fst (dictResize cr d))" "dict_abs (fst (dictResize cr d)) = dict_abs d"
proof -
  define n where "n = (if to_int32 (used (ht0 d)) < 4 then 4 else to_int32 (used (ht0 d)))"
  have wf: "dict_wf hf d" "dict_small d" using assms(1) by (simp_all add: dict_inv_def)
  have "used (ht0 d) \<le> DICT_MAX_SIZE" using used_le_entries [OF wf(1)] assms(2) by (simp add: dict_room_def)
  then have "nat n \<le> DICT_MAX_SIZE" using to_int32_le [of "used (ht0 d)"] by (auto simp: n_def)
  note e = dictExpand_spec [OF wf(1) this]
  have "dictResize cr d = (if \<not> cr \<or> dictIsRehashing d then (d, False) else dictExpand d (nat n))"
    by (simp add: dictResize_def n_def Let_def)
  then show "dict_inv hf (fst (dictResize cr d))" "dict_abs (fst (dictResize cr d)) = dict_abs d"
    using e(1,2,6) wf by (simp_all add: dict_abs_def dict_inv_def)
qed

lemma dict_step_spec:
  assumes "dict_inv hf d" "dict_room d" "op_ok op"
  shows "\<exists>d'. dict_step hf cr op d = Some (d', snd (map_step op (dict_abs d))) \<and> dict_inv hf d'
    \<and> dict_abs d' = fst (map_step op (dict_abs d))"
proof (cases op)
  case (Add k v)
  then show ?thesis using dict.add_spec [OF assms(1,2), of cr k v] by auto
next
  case (Replace k v)
  then show ?thesis using dict.replace_spec [OF assms(1,2), of cr k v] by auto
next
  case (Delete k)
  then show ?thesis using dict.remove_spec [OF assms(1), of k] by auto
next
  case (Fetch k)
  then show ?thesis using dict.find_spec [OF assms(1), of k] by auto
next
  case (Rehash n)
  have wf: "dict_wf hf d" "dict_small d" using assms(1) by (simp_all add: dict_inv_def)
  obtain d' b where "dictRehash hf n d = Some (d', b)" "dict_wf hf d'" "mset (entries d') = mset (entries d)"
    using dictRehash_spec [OF wf(1), of n] by blast
  then show ?thesis using Rehash dict_abs_mset [of d' d hf] wf dictRehash_small [of hf n d d' b]
    by (auto simp: dict_inv_def)
next
  case Resize
  then show ?thesis using dictResize_spec [OF assms(1,2)] by simp
next
  case (Expand n)
  then show ?thesis using dictExpand_spec [of hf d n] assms(1,3) by (simp add: dict_abs_def dict_inv_def)
qed

lemma dict_run_spec:
  assumes "dict_inv hf d" "2 * (card (dom (dict_abs d)) + length ops) \<le> DICT_MAX_SIZE" "list_all op_ok ops"
  shows "\<exists>d'. dict_run hf cr ops d = Some (d', snd (map_run ops (dict_abs d))) \<and> dict_inv hf d'
    \<and> dict_abs d' = fst (map_run ops (dict_abs d))"
  using assms
proof (induction ops arbitrary: d)
  case (Cons op ops)
  have "dict_room d" using Cons.prems(2) length_entries [of hf d] Cons.prems(1) by (simp add: dict_room_def dict_inv_def)
  then obtain d1 where d1: "dict_step hf cr op d = Some (d1, snd (map_step op (dict_abs d)))" "dict_inv hf d1"
      "dict_abs d1 = fst (map_step op (dict_abs d))"
    using dict_step_spec [OF Cons.prems(1)] Cons.prems(3) by auto
  have "card (dom (dict_abs d1)) \<le> Suc (card (dom (dict_abs d)))"
    unfolding d1(3) by (rule card_dom_map_step) simp
  then have "2 * (card (dom (dict_abs d1)) + length ops) \<le> DICT_MAX_SIZE" using Cons.prems(2) by simp
  then obtain d' where "dict_run hf cr ops d1 = Some (d', snd (map_run ops (dict_abs d1)))" "dict_inv hf d'"
      "dict_abs d' = fst (map_run ops (dict_abs d1))"
    using Cons.IH [OF d1(2)] Cons.prems(3) by auto
  then show ?case using d1 by (auto simp: case_prod_beta Let_def)
qed simp

section \<open>Properties\<close>

text \<open>C2: on any sequence of up to \<open>2 ^ 30\<close> insertions, replacements, deletions, lookups,
  rehashing steps, resizes and expansions to up to \<open>2 ^ 31\<close> buckets, for every hash function
  and resize policy, a dictionary behaves as a finite map: no assertion fails, no access is
  out of bounds, each reply is the map's and the contents at the end are the map's.  The
  bounds are those of the \<open>int\<close> index of \<open>dictAddRaw\<close>: \<open>dictAdd_wide\<close> above shows that it
  fails in a table of \<open>2 ^ 32\<close> buckets.\<close>

theorem dict_refines_map:
  assumes "length ops \<le> 2 ^ 30" "list_all op_ok ops"
  shows "\<exists>d. dict_run hf cr ops dictCreate = Some (d, snd (map_run ops Map.empty)) \<and> dict_wf hf d
    \<and> dict_abs d = fst (map_run ops Map.empty)"
  using dict_run_spec [OF dict.inv_empty, of ops hf cr] assms by (auto simp: dict.abs_empty dict_inv_def)

theorem dict_refines_map_witness:
  "\<exists>d. dict_run (\<lambda>k. of_nat k) True [Add 1 ''a'', Add 5 ''b'', Replace (1::nat) ''c'', Resize, Rehash 3, Delete 5, Fetch 1]
      dictCreate = Some (d, [Done True, Done True, Done False, Done True, Done True, Done True, Value (Some ''c'')])
    \<and> dict_wf (\<lambda>k. of_nat k) d \<and> dict_abs d = [1 \<mapsto> ''c'']"
  using dict_refines_map [of "[Add 1 ''a'', Add 5 ''b'', Replace (1::nat) ''c'', Resize, Rehash 3, Delete 5, Fetch 1]"
    "\<lambda>k. of_nat k" True]
  by (simp add: fun_upd_twist)

text \<open>C32: incremental rehashing ends: with more steps than the old table has buckets,
  \<open>dictRehash\<close> reports that nothing is left to move, only one table remains, and the
  contents are unchanged.\<close>

theorem dictRehash_completes:
  assumes "dict_wf hf d" "dictIsRehashing d" "rehashidx d \<le> int (tsize (ht0 d))" "tsize (ht0 d) < n"
  shows "\<exists>d'. dictRehash hf n d = Some (d', False) \<and> \<not> dictIsRehashing d' \<and> dict_wf hf d'
    \<and> dict_abs d' = dict_abs d"
proof -
  have "0 \<le> rehashidx d" using assms(1,2) by (auto simp: dict_wf_def)
  then obtain d' where "dictRehash_loop hf n d = Some (d', False)" "dict_wf hf d'"
      "mset (entries d') = mset (entries d)" "\<not> dictIsRehashing d'"
    using dictRehash_loop_spec [OF assms(1,2), of n] assms(3,4) by auto
  then show ?thesis using assms(1,2) dict_abs_mset by (auto simp: dictRehash_def)
qed

text \<open>A dictionary with one entry, in the middle of a resize from four to eight buckets.\<close>

definition example_dict :: "(nat, bool) dict" where
  "example_dict =
    \<lparr>ht0 = \<lparr>table = [[], [(1, True)], [], []], tsize = 4, sizemask = 3, used = 1\<rparr>,
     ht1 = \<lparr>table = [[], [], [], [], [], [], [], []], tsize = 8, sizemask = 7, used = 0\<rparr>,
     rehashidx = 0, iterators = 0\<rparr>"

lemma example_size_ok: "size_ok 4 3" "size_ok 8 7"
proof -
  show "size_ok 4 3" unfolding size_ok_def by (intro conjI exI [of _ 2]) simp_all
  show "size_ok 8 7" unfolding size_ok_def by (intro conjI exI [of _ 3]) simp_all
qed

lemma example_size_ok_Suc: "size_ok (Suc (Suc (Suc (Suc 0)))) 3"
  "size_ok (Suc (Suc (Suc (Suc (Suc (Suc (Suc (Suc 0)))))))) 7"
  using example_size_ok by (simp_all add: eval_nat_numeral)

lemma example_dict_wf: "dict_wf (\<lambda>k. of_nat k) example_dict"
  by (auto simp: example_size_ok_Suc dict_wf_def entries_def example_dict_def dictIsRehashing_def ht_ok_def
      less_Suc_eq numeral_eq_Suc ht_idx_def)

theorem dictRehash_completes_witness:
  "\<exists>d'. dictRehash (\<lambda>k. of_nat k) 5 example_dict = Some (d', False) \<and> \<not> dictIsRehashing d'
    \<and> dict_wf (\<lambda>k. of_nat k) d' \<and> dict_abs d' = dict_abs example_dict"
  by (rule dictRehash_completes [OF example_dict_wf]) (simp_all add: example_dict_def dictIsRehashing_def)

end
