(* ===== verification/DictScan.thy ===== *)
theory DictScan
  imports Dict
begin

text \<open>
  \<open>dictScan\<close> of \<open>dict.c\<close>: the stateless iteration behind \<open>SCAN\<close>.  The cursor is
  incremented from its highest bit, so that a table may be resized between two calls.  The
  callback is modelled by the list of the entries it is called with.  The lemmas read a
  cursor as the number that its reversed bits denote (\<open>rank\<close>): a call with cursor \<open>v\<close>
  emits every entry whose hash has a rank from \<open>rank v\<close> to below that of the returned
  cursor, whatever the sizes of the tables.
\<close>

section \<open>The reversed cursor\<close>

text \<open>\<open>rev\<close>: parallel bit reversal, \<open>s\<close> and \<open>mk\<close> being the loop's shift and mask.\<close>

function rev_loop :: "nat \<Rightarrow> 64 word \<Rightarrow> 64 word \<Rightarrow> 64 word" where
  "rev_loop s mk v =
    (let s = s div 2 in
     if s > 0 then
       (let mk = mk XOR push_bit s mk;
            v = (drop_bit s v AND mk) OR (push_bit s v AND NOT mk)
        in rev_loop s mk v)
     else v)"
  by pat_completeness auto
termination by (relation "measure fst") auto

declare rev_loop.simps [simp del]

definition rev_bits :: "64 word \<Rightarrow> 64 word" where
  "rev_bits v = rev_loop 64 (NOT 0) v"

text \<open>The cursor after a call on a table with mask \<open>m0\<close>.\<close>

definition next_cursor :: "64 word \<Rightarrow> 64 word \<Rightarrow> 64 word" where
  "next_cursor m0 v = (let v = v OR NOT m0; v = rev_bits v; v = v + 1 in rev_bits v)"

section \<open>The scan\<close>

text \<open>The do-while loop over the buckets of the larger table that expand the cursor, with
  the number of iterations allowed; \<open>None\<close> is a loop that has not ended by then.\<close>

primrec scan_expansions :: "nat \<Rightarrow> 'a list list \<Rightarrow> 64 word \<Rightarrow> 64 word \<Rightarrow> 64 word \<Rightarrow> ('a list \<times> 64 word) option" where
  "scan_expansions 0 tab m0 m1 v = None"
| "scan_expansions (Suc n) tab m0 m1 v =
    (let es = tab ! unat (v AND m1);
         v = (((v OR m0) + 1) AND NOT m0) OR (v AND m0)
     in if v AND (m0 XOR m1) \<noteq> 0 then
          map_option (\<lambda>(r, v). (es @ r, v)) (scan_expansions n tab m0 m1 v)
        else Some (es, v))"

definition dictScan :: "('k, 'v) dict \<Rightarrow> 64 word \<Rightarrow> (('k \<times> 'v) list \<times> 64 word) option" where
  "dictScan d v =
    (if dictSize d = 0 then Some ([], 0)
     else if \<not> dictIsRehashing d then
       (let m0 = sizemask (ht0 d)
        in Some (table (ht0 d) ! unat (v AND m0), next_cursor m0 v))
     else
       (let (t0, t1) = (if tsize (ht0 d) > tsize (ht1 d) then (ht1 d, ht0 d) else (ht0 d, ht1 d));
            m0 = sizemask t0;
            m1 = sizemask t1
        in map_option (\<lambda>(r, v'). (table t0 ! unat (v AND m0) @ r, next_cursor m0 v'))
             (scan_expansions (tsize t1) (table t1) m0 m1 v)))"

text \<open>A whole iteration: the dictionary as it is at each call, until the cursor is zero
  again; the flag says that it got there.\<close>

primrec scan_run :: "('k, 'v) dict list \<Rightarrow> 64 word \<Rightarrow> (('k \<times> 'v) list \<times> bool) option" where
  "scan_run [] v = Some ([], False)"
| "scan_run (d # ds) v =
    (case dictScan d v of
       None \<Rightarrow> None
     | Some (es, v) \<Rightarrow>
         if v = 0 then Some (es, True)
         else map_option (\<lambda>(r, b). (es @ r, b)) (scan_run ds v))"

section \<open>Bit reversal\<close>

definition swap_bits :: "nat \<Rightarrow> 64 word \<Rightarrow> 64 word \<Rightarrow> 64 word" where
  "swap_bits s mk v = (drop_bit s v AND mk) OR (push_bit s v AND NOT mk)"

lemma mask_steps:
  "(NOT 0 :: 64 word) XOR push_bit 32 (NOT 0) = 0xFFFFFFFF"
  "(0xFFFFFFFF :: 64 word) XOR push_bit 16 0xFFFFFFFF = 0x0000FFFF0000FFFF"
  "(0x0000FFFF0000FFFF :: 64 word) XOR push_bit 8 0x0000FFFF0000FFFF = 0x00FF00FF00FF00FF"
  "(0x00FF00FF00FF00FF :: 64 word) XOR push_bit 4 0x00FF00FF00FF00FF = 0x0F0F0F0F0F0F0F0F"
  "(0x0F0F0F0F0F0F0F0F :: 64 word) XOR push_bit 2 0x0F0F0F0F0F0F0F0F = 0x3333333333333333"
  "(0x3333333333333333 :: 64 word) XOR push_bit 1 0x3333333333333333 = 0x5555555555555555"
  by code_simp+

lemma rev_loop_step:
  "s' = s div 2 \<Longrightarrow> 0 < s' \<Longrightarrow> m = mk XOR push_bit s' mk \<Longrightarrow> rev_loop s mk v = rev_loop s' m (swap_bits s' m v)"
  by (subst rev_loop.simps) (simp add: Let_def swap_bits_def)

lemma rev_bits_swaps: "rev_bits v =
  swap_bits 1 0x5555555555555555 (swap_bits 2 0x3333333333333333 (swap_bits 4 0x0F0F0F0F0F0F0F0F
    (swap_bits 8 0x00FF00FF00FF00FF (swap_bits 16 0x0000FFFF0000FFFF (swap_bits 32 0xFFFFFFFF v)))))"
proof -
  have "rev_loop 64 (NOT 0) v = rev_loop 32 0xFFFFFFFF (swap_bits 32 0xFFFFFFFF v)" for v
    by (rule rev_loop_step) (simp, simp, simp only: mask_steps)
  moreover have "rev_loop 32 0xFFFFFFFF v = rev_loop 16 0x0000FFFF0000FFFF (swap_bits 16 0x0000FFFF0000FFFF v)" for v
    by (rule rev_loop_step) (simp, simp, simp only: mask_steps)
  moreover have "rev_loop 16 0x0000FFFF0000FFFF v = rev_loop 8 0x00FF00FF00FF00FF (swap_bits 8 0x00FF00FF00FF00FF v)" for v
    by (rule rev_loop_step) (simp, simp, simp only: mask_steps)
  moreover have "rev_loop 8 0x00FF00FF00FF00FF v = rev_loop 4 0x0F0F0F0F0F0F0F0F (swap_bits 4 0x0F0F0F0F0F0F0F0F v)" for v
    by (rule rev_loop_step) (simp, simp, simp only: mask_steps)
  moreover have "rev_loop 4 0x0F0F0F0F0F0F0F0F v = rev_loop 2 0x3333333333333333 (swap_bits 2 0x3333333333333333 v)" for v
    by (rule rev_loop_step) (simp, simp, simp only: mask_steps)
  moreover have "rev_loop 2 0x3333333333333333 v = rev_loop 1 0x5555555555555555 (swap_bits 1 0x5555555555555555 v)" for v
    by (rule rev_loop_step) (simp, simp, simp only: mask_steps)
  moreover have "rev_loop 1 m v = v" for m v by (subst rev_loop.simps) simp
  ultimately show ?thesis by (simp only: rev_bits_def)
qed

lemma bit_swap: "n < 64 \<Longrightarrow> bit (swap_bits s m v) n = (if bit m n then bit v (n + s) else n \<ge> s \<and> bit v (n - s))"
  by (auto simp: swap_bits_def bit_simps ac_simps)

lemma less_64: "n < 64 \<Longrightarrow> n \<in> set [0, 1, 2, 3, 4, 5, 6, 7, 8, 9, 10, 11, 12, 13, 14, 15, 16, 17, 18, 19,
    20, 21, 22, 23, 24, 25, 26, 27, 28, 29, 30, 31, 32, 33, 34, 35, 36, 37, 38, 39, 40, 41, 42, 43, 44, 45, 46,
    47, 48, 49, 50, 51, 52, 53, 54, 55, 56, 57, 58, 59, 60, 61, 62, 63 :: nat]"
proof -
  assume "n < 64"
  then have "n \<in> set [0..<64]" by simp
  then show ?thesis by (simp add: upt_rec numeral_eq_Suc)
qed

lemma bit_rev_bits: "n < 64 \<Longrightarrow> bit (rev_bits v) n = bit v (63 - n)"
proof -
  assume "n < 64"
  from less_64 [OF this] show ?thesis
    unfolding list.set insert_iff empty_iff
    by (elim disjE; simp add: rev_bits_swaps bit_swap)
qed

lemma rev_rev_bits [simp]: "rev_bits (rev_bits v) = v"
  by (rule bit_word_eqI) (simp add: bit_rev_bits)

lemma rev_bits_eq_zero: "rev_bits v = 0 \<longleftrightarrow> v = 0"
proof
  assume "rev_bits v = 0"
  show "v = 0"
  proof (rule bit_word_eqI)
    fix n assume "n < LENGTH(64)"
    then show "bit v n = bit 0 n" using bit_rev_bits [of "63 - n" v] \<open>rev_bits v = 0\<close> by simp
  qed
next
  assume "v = 0"
  then show "rev_bits v = 0" by (intro bit_word_eqI) (simp add: bit_rev_bits)
qed

lemma rev_or_not_mask:
  assumes "k \<le> 64"
  shows "rev_bits (v OR NOT (mask k)) = rev_bits v OR mask (64 - k)"
proof (rule bit_word_eqI)
  fix n assume "n < LENGTH(64)"
  then show "bit (rev_bits (v OR NOT (mask k))) n = bit (rev_bits v OR mask (64 - k)) n"
    using assms by (auto simp: bit_rev_bits bit_or_iff bit_not_iff bit_mask_iff)
qed

definition rank :: "64 word \<Rightarrow> nat" where
  "rank v = unat (rev_bits v)"

lemma unat_drop: "unat (drop_bit j (x :: 64 word)) = unat x div 2 ^ j"
  unfolding unat_drop_bit_eq by (rule drop_bit_eq_div)

lemma unat_take: "unat (take_bit j (x :: 64 word)) = unat x mod 2 ^ j"
  unfolding unsigned_take_bit_eq by (rule take_bit_eq_mod)

lemma unat_mask_less: "j \<le> 64 \<Longrightarrow> unat (mask j :: 64 word) = 2 ^ j - 1"
proof -
  assume "j \<le> 64"
  then have "unat (mask j :: 64 word) = mask j"
    by (intro bit_eqI) (auto simp: bit_unsigned_iff bit_mask_iff)
  then show ?thesis by (simp add: mask_eq_exp_minus_1)
qed

lemma unat_split: "unat (x :: 64 word) = unat (drop_bit j x) * 2 ^ j + unat (take_bit j x)"
proof -
  have "unat (drop_bit j x) = unat x div 2 ^ j" by (rule unat_drop)
  moreover have "unat (take_bit j x) = unat x mod 2 ^ j" by (rule unat_take)
  ultimately show ?thesis by (simp only: div_mult_mod_eq)
qed

lemma unat_or_mask:
  assumes "j \<le> 64"
  shows "unat (x OR mask j :: 64 word) = unat x div 2 ^ j * 2 ^ j + (2 ^ j - 1)"
proof -
  have "drop_bit j (x OR mask j) = drop_bit j x"
    by (rule bit_word_eqI) (auto simp: bit_simps)
  moreover have "take_bit j (x OR mask j) = mask j"
    by (rule bit_word_eqI) (auto simp: bit_simps)
  moreover have "unat (mask j :: 64 word) = 2 ^ j - 1"
    using assms by (rule unat_mask_less)
  ultimately show ?thesis
    using unat_split [of "x OR mask j" j] by (simp only: unat_drop)
qed

lemma rank_next_cursor:
  assumes "k \<le> 64"
  shows "rank (next_cursor (mask k) v) = (rank v div 2 ^ (64 - k) + 1) * 2 ^ (64 - k) mod 2 ^ 64"
proof -
  define j where "j = 64 - k"
  have "rank (next_cursor (mask k) v) = unat ((rev_bits v OR mask j) + 1)"
    using rev_or_not_mask [OF assms] by (simp add: rank_def next_cursor_def Let_def j_def)
  also have "\<dots> = (unat (rev_bits v OR mask j) + 1) mod 2 ^ 64"
    by (simp add: unat_word_ariths)
  also have "unat (rev_bits v OR mask j) + 1 = (rank v div 2 ^ j + 1) * 2 ^ j"
    using unat_or_mask [of j "rev_bits v"] by (simp add: j_def rank_def)
  finally show ?thesis by (simp add: j_def)
qed

lemma rank_less: "rank v < 2 ^ 64"
  using unsigned_less [of "rev_bits v"] by (simp add: rank_def)

lemma rank_eq_zero: "rank v = 0 \<longleftrightarrow> v = 0"
  by (simp add: rank_def unat_eq_0 rev_bits_eq_zero)

text \<open>The hashes in the range of one call agree with the cursor on the bits of the mask.\<close>

lemma rank_range_mask:
  assumes "k \<le> 64" "rank v \<le> rank h" "rank h < rank (next_cursor (mask k) v) \<or> next_cursor (mask k) v = 0"
  shows "h AND mask k = v AND mask k"
proof -
  define j where "j = 64 - k"
  define b where "b = (rank v div 2 ^ j + 1) * 2 ^ j"
  have "rank v div 2 ^ j < 2 ^ k"
  proof -
    have "rank v < 2 ^ (j + k)" using rank_less assms(1) by (simp add: j_def)
    then show ?thesis by (simp add: less_mult_imp_div_less power_add mult.commute)
  qed
  then have "rank v div 2 ^ j + 1 \<le> 2 ^ k" by simp
  then have "b \<le> 2 ^ k * 2 ^ j" unfolding b_def by (rule mult_le_mono1)
  also have "(2 :: nat) ^ k * 2 ^ j = 2 ^ 64" using assms(1) by (simp add: j_def flip: power_add)
  finally have ble: "b \<le> 2 ^ 64" .
  have nxt: "rank (next_cursor (mask k) v) = b mod 2 ^ 64" unfolding b_def j_def by (rule rank_next_cursor [OF assms(1)])
  have "rank h < b"
  proof (cases "b = 2 ^ 64")
    case True
    then show ?thesis using rank_less by simp
  next
    case False
    then have "b mod 2 ^ 64 = b" using ble by simp
    moreover have "0 < b" by (simp add: b_def)
    ultimately show ?thesis using assms(3) nxt rank_eq_zero [of "next_cursor (mask k) v"] by linarith
  qed
  then have "rank h div 2 ^ j \<le> rank v div 2 ^ j"
    unfolding b_def by (metis add.commute less_Suc_eq_le less_mult_imp_div_less plus_1_eq_Suc)
  then have "rank h div 2 ^ j = rank v div 2 ^ j" using assms(2) div_le_mono by (metis le_antisym)
  then have "unat (drop_bit j (rev_bits h)) = unat (drop_bit j (rev_bits v))"
    by (simp only: rank_def unat_drop)
  then have drop: "drop_bit j (rev_bits h) = drop_bit j (rev_bits v)" by (rule word_unat_eq_iff [THEN iffD2])
  show ?thesis
  proof (rule bit_word_eqI)
    fix n assume n: "n < LENGTH(64)"
    show "bit (h AND mask k) n = bit (v AND mask k) n"
    proof (cases "n < k")
      case True
      have "bit (drop_bit j (rev_bits h)) (63 - n - j) = bit (drop_bit j (rev_bits v)) (63 - n - j)"
        using drop by simp
      then show ?thesis using True n assms(1)
        by (simp add: bit_simps bit_rev_bits j_def)
    qed (simp add: bit_simps)
  qed
qed

section \<open>The buckets of the larger table\<close>

lemma unat_and_mask: "unat (v AND mask k :: 64 word) = unat v mod 2 ^ k"
  using unat_take [of k v] by (simp only: take_bit_eq_mask)

lemma unat_add_exp:
  assumes "k < 64" "j \<le> 64"
  shows "unat (v + 2 ^ k :: 64 word) mod 2 ^ j = (unat v + 2 ^ k) mod 2 ^ j"
proof -
  have "unat (of_nat (2 ^ k) :: 64 word) = 2 ^ k"
  proof -
    have "(2 :: nat) ^ k < 2 ^ 64" using assms(1) by (intro power_strict_increasing) auto
    then show ?thesis by (simp only: unat_of_nat) (simp add: take_bit_nat_eq_self)
  qed
  then have "unat (2 ^ k :: 64 word) = 2 ^ k" by simp
  then have "unat (v + 2 ^ k) = (unat v + 2 ^ k) mod 2 ^ 64" by (simp add: unat_word_ariths)
  moreover have "(2 :: nat) ^ j dvd 2 ^ 64" using assms(2) by (rule le_imp_power_dvd)
  ultimately show ?thesis by (simp only: mod_mod_cancel)
qed

lemma expansion_step:
  assumes "k < 64"
  shows "(((v OR mask k) + 1) AND NOT (mask k)) OR (v AND mask k) = v + (2 ^ k :: 64 word)"
proof -
  define a where "a = v AND NOT (mask k)"
  have am: "a AND mask k = 0" by (simp add: a_def ac_simps)
  have vm: "v OR mask k = a OR mask k" by (rule bit_word_eqI) (auto simp: a_def bit_simps)
  have "a OR mask k = a + mask k" using am by (simp add: disjunctive_add_eq_or)
  moreover have "mask k + 1 = (2 ^ k :: 64 word)" by (simp add: mask_eq_exp_minus_1)
  ultimately have sum: "(v OR mask k) + 1 = a + 2 ^ k" unfolding vm by (simp only: add.assoc)
  have "take_bit k (a + 2 ^ k) = 0"
  proof -
    have "unat a mod 2 ^ k = 0" using am unat_and_mask [of a k] by simp
    then have "unat (a + 2 ^ k) mod 2 ^ k = 0" using unat_add_exp [OF assms, of k a] assms by simp
    then have "unat (take_bit k (a + 2 ^ k)) = 0" by (simp only: unat_take)
    then show ?thesis by (simp only: unat_eq_0)
  qed
  then have "\<not> bit (take_bit k (a + 2 ^ k)) n" for n by simp
  then have "\<not> bit (a + 2 ^ k) n" if "n < k" for n using that by (simp only: bit_take_bit_iff) simp
  then have high: "(a + 2 ^ k) AND NOT (mask k) = a + 2 ^ k"
    by (intro bit_word_eqI) (auto simp: bit_and_iff bit_not_iff bit_mask_iff)
  have "(a + 2 ^ k) AND (v AND mask k) = 0"
    by (subst high [symmetric]) (rule bit_word_eqI, auto simp: bit_and_iff bit_not_iff bit_mask_iff)
  then have "(a + 2 ^ k) OR (v AND mask k) = a + 2 ^ k + (v AND mask k)"
    by (simp add: disjunctive_add_eq_or)
  moreover have "a + (v AND mask k) = v"
  proof -
    have "a AND (v AND mask k) = 0" by (rule bit_word_eqI) (auto simp: a_def bit_simps)
    then have "a + (v AND mask k) = a OR (v AND mask k)" by (simp add: disjunctive_add_eq_or)
    also have "\<dots> = v" by (rule bit_word_eqI) (auto simp: a_def bit_simps)
    finally show ?thesis .
  qed
  ultimately show ?thesis unfolding sum high by (simp add: ac_simps)
qed

lemma expansion_index:
  assumes "k0 \<le> k1" "k1 < 64" "unat (v AND mask k1) = l + 2 ^ k0 * q" "l < 2 ^ k0" "q < 2 ^ (k1 - k0)"
  shows "unat ((v + 2 ^ k0) AND mask k1 :: 64 word) = l + 2 ^ k0 * ((q + 1) mod 2 ^ (k1 - k0))"
proof -
  have pow: "(2 :: nat) ^ k1 = 2 ^ k0 * 2 ^ (k1 - k0)" using assms(1) by (simp flip: power_add)
  have "unat ((v + 2 ^ k0) AND mask k1) = (unat v + 2 ^ k0) mod 2 ^ k1"
    unfolding unat_and_mask using assms(1,2) by (intro unat_add_exp) simp_all
  also have "\<dots> = ((l + 2 ^ k0 * q) + 2 ^ k0) mod 2 ^ k1"
    using assms(3) unfolding unat_and_mask by (metis mod_add_left_eq)
  also have "\<dots> = (l + 2 ^ k0 * (q + 1)) mod 2 ^ k1" by (simp add: algebra_simps)
  also have "\<dots> = l + 2 ^ k0 * ((q + 1) mod 2 ^ (k1 - k0))"
  proof -
    have "(l + 2 ^ k0 * m) div 2 ^ k0 = m" for m using assms(4) by (simp add: div_mult_self2)
    then have "(l + 2 ^ k0 * (q + 1)) div 2 ^ k0 = q + 1" .
    moreover have "(l + 2 ^ k0 * m) mod 2 ^ k0 = l" for m using assms(4) by simp
    then have "(l + 2 ^ k0 * (q + 1)) mod 2 ^ k0 = l" .
    ultimately show ?thesis unfolding pow mod_mult2_eq by simp
  qed
  finally show ?thesis .
qed

lemma expansion_done:
  assumes "k0 \<le> k1" "unat (v AND mask k1) = l + 2 ^ k0 * q" "l < 2 ^ k0"
  shows "v AND (mask k0 XOR mask k1) = (0 :: 64 word) \<longleftrightarrow> q = 0"
proof -
  have "v AND (mask k0 XOR mask k1) = 0 \<longleftrightarrow> drop_bit k0 (v AND mask k1) = 0"
  proof -
    have "v AND (mask k0 XOR mask k1) = push_bit k0 (drop_bit k0 (v AND mask k1))"
      by (rule bit_word_eqI) (use assms(1) in \<open>auto simp: bit_simps\<close>)
    moreover have "drop_bit k0 (push_bit k0 (drop_bit k0 (v AND mask k1))) = drop_bit k0 (v AND mask k1)"
      by (rule bit_word_eqI) (auto simp: bit_simps dest: bit_imp_le_length)
    ultimately show ?thesis by (metis drop_bit_of_0 push_bit_of_0)
  qed
  also have "\<dots> \<longleftrightarrow> unat (drop_bit k0 (v AND mask k1)) = 0" by (simp add: unat_eq_0)
  also have "\<dots> \<longleftrightarrow> q = 0"
    using assms(2,3) unfolding unat_drop by simp
  finally show ?thesis .
qed

text \<open>From expansion \<open>q\<close> of the cursor the loop goes through the expansions that follow
  in numeric order, and ends.\<close>

lemma scan_expansions_spec:
  assumes "k0 \<le> k1" "k1 < 64" "unat (v AND mask k1) = l + 2 ^ k0 * q" "l < 2 ^ k0" "q < 2 ^ (k1 - k0)"
    and "2 ^ (k1 - k0) \<le> n + q"
  shows "\<exists>v'. scan_expansions n tab (mask k0) (mask k1) v
    = Some (concat (map (\<lambda>i. tab ! (l + 2 ^ k0 * i)) [q..<2 ^ (k1 - k0)]), v')
    \<and> unat v' mod 2 ^ k0 = unat v mod 2 ^ k0"
  using assms(3,5,6)
proof (induction n arbitrary: v q)
  case 0
  then show ?case by simp
next
  case (Suc n)
  define v1 where "v1 = v + (2 ^ k0 :: 64 word)"
  have step: "(((v OR mask k0) + 1) AND NOT (mask k0)) OR (v AND mask k0) = v1"
    using expansion_step [of k0 v] assms(1,2) by (simp add: v1_def)
  have idx: "unat (v1 AND mask k1) = l + 2 ^ k0 * ((q + 1) mod 2 ^ (k1 - k0))"
    unfolding v1_def by (rule expansion_index [OF assms(1,2) Suc.prems(1) assms(4) Suc.prems(2)])
  note fin = expansion_done [OF assms(1) idx assms(4)]
  have low: "unat v1 mod 2 ^ k0 = unat v mod 2 ^ k0"
    using unat_add_exp [of k0 k0 v] assms(1,2) by (simp add: v1_def)
  show ?case
  proof (cases "q + 1 < 2 ^ (k1 - k0)")
    case True
    then have md: "(q + 1) mod 2 ^ (k1 - k0) = q + 1" by (rule mod_less)
    obtain v' where "scan_expansions n tab (mask k0) (mask k1) v1
        = Some (concat (map (\<lambda>i. tab ! (l + 2 ^ k0 * i)) [q + 1..<2 ^ (k1 - k0)]), v')"
      "unat v' mod 2 ^ k0 = unat v1 mod 2 ^ k0"
      using Suc.IH [of v1 "q + 1"] idx True Suc.prems(3) unfolding md by auto
    moreover have "v1 AND (mask k0 XOR mask k1) \<noteq> 0" using fin md by simp
    moreover have "[q..<2 ^ (k1 - k0)] = q # [q + 1..<2 ^ (k1 - k0)]" using Suc.prems(2) by (simp add: upt_conv_Cons)
    ultimately show ?thesis using low by (simp add: step Suc.prems(1) Let_def)
  next
    case False
    then have "q + 1 = 2 ^ (k1 - k0)" using Suc.prems(2) by simp
    then have "v1 AND (mask k0 XOR mask k1) = 0" "[q..<2 ^ (k1 - k0)] = [q]"
      using fin by (simp_all add: upt_conv_Cons)
    then show ?thesis using low by (simp add: step Suc.prems(1) Let_def)
  qed
qed

lemma next_cursor_low:
  assumes "unat v mod 2 ^ k = unat w mod 2 ^ k"
  shows "next_cursor (mask k) v = next_cursor (mask k) w"
proof -
  have "v AND mask k = w AND mask k"
    using assms by (simp only: unat_and_mask [symmetric] word_unat_eq_iff [symmetric])
  moreover have "x OR NOT (mask k) = (x AND mask k) OR NOT (mask k)" for x :: "64 word"
    by (rule bit_word_eqI) (auto simp: bit_simps)
  ultimately have "v OR NOT (mask k) = w OR NOT (mask k)" by metis
  then show ?thesis by (simp add: next_cursor_def)
qed

section \<open>What one call emits\<close>

lemma sizemask_mask:
  assumes "ht_ok hf h"
  obtains k where "k \<le> 63" "tsize h = 2 ^ k" "sizemask h = mask k"
proof -
  obtain k where "k \<le> 63" "tsize h = 2 ^ k" "sizemask h = of_nat (tsize h - 1)"
    using assms by (auto simp: ht_ok_def size_ok_def)
  moreover have "(of_nat (2 ^ k - 1) :: 64 word) = mask k"
    by (simp add: mask_eq_exp_minus_1 of_nat_diff)
  ultimately show ?thesis using that by simp
qed

text \<open>The smaller table and its size.\<close>

definition small_ht :: "('k, 'v) dict \<Rightarrow> ('k, 'v) dictht" where
  "small_ht d = (if dictIsRehashing d \<and> tsize (ht0 d) > tsize (ht1 d) then ht1 d else ht0 d)"

definition large_ht :: "('k, 'v) dict \<Rightarrow> ('k, 'v) dictht" where
  "large_ht d = (if tsize (ht0 d) > tsize (ht1 d) then ht0 d else ht1 d)"

text \<open>The cursor has no bits between the two masks: it was produced on a table no larger
  than the smaller one.\<close>

definition scan_clean :: "('k, 'v) dict \<Rightarrow> 64 word \<Rightarrow> bool" where
  "scan_clean d v \<longleftrightarrow> \<not> dictIsRehashing d \<or> v AND (sizemask (small_ht d) XOR sizemask (large_ht d)) = 0"

lemma in_bucket:
  assumes "ht_ok hf h" "e \<in> set (concat (table h))" "ucast (hf (fst e)) AND sizemask h = w AND sizemask h"
  shows "e \<in> set (table h ! unat (w AND sizemask h))"
  using bucket_of_key [OF assms(1,2)] assms(3) by (simp add: ht_idx_def)

lemma bucket_index_less:
  assumes "ht_ok hf h"
  shows "unat (w AND sizemask h) < tsize h"
proof -
  obtain k where k: "k \<le> 63" "tsize h = 2 ^ k" "sizemask h = mask k" using sizemask_mask [OF assms] .
  then show ?thesis by (simp add: unat_and_mask)
qed

lemma dictScan_spec:
  assumes "dict_wf hf d" "dictSize d \<noteq> 0"
  obtains es where "dictScan d v = Some (es, next_cursor (sizemask (small_ht d)) v)"
    "set es \<subseteq> set (entries d)"
    "\<And>e. scan_clean d v \<Longrightarrow> e \<in> set (entries d)
      \<Longrightarrow> ucast (hf (fst e)) AND sizemask (small_ht d) = v AND sizemask (small_ht d) \<Longrightarrow> e \<in> set es"
proof (cases "dictIsRehashing d")
  case False
  then have ok: "ht_ok hf (ht0 d)" and r: "ht1 d = dictReset" "small_ht d = ht0 d"
    using assms by (auto simp: dict_wf_def dictSize_def small_ht_def)
  have e: "entries d = concat (table (ht0 d))" by (simp add: entries_def r)
  define es where "es = table (ht0 d) ! unat (v AND sizemask (ht0 d))"
  have "dictScan d v = Some (es, next_cursor (sizemask (small_ht d)) v)"
    using False assms(2) by (simp add: dictScan_def es_def r Let_def)
  moreover have "set es \<subseteq> set (entries d)"
    unfolding es_def e by (rule bucket_subset [OF ok bucket_index_less [OF ok]])
  moreover have "e \<in> set es" if "e \<in> set (entries d)"
      "ucast (hf (fst e)) AND sizemask (small_ht d) = v AND sizemask (small_ht d)" for e
    using in_bucket [where hf = hf, OF ok] that unfolding es_def e r by blast
  ultimately show ?thesis using that by blast
next
  case True
  define t0 where "t0 = small_ht d"
  define t1 where "t1 = large_ht d"
  have ok: "ht_ok hf t0" "ht_ok hf t1" using assms(1) True
    by (auto simp: dict_wf_def t0_def t1_def small_ht_def large_ht_def)
  have le: "tsize t0 \<le> tsize t1" using True by (auto simp: t0_def t1_def small_ht_def large_ht_def)
  have ent: "set (entries d) = set (concat (table t0)) \<union> set (concat (table t1))"
    by (auto simp: entries_def t0_def t1_def small_ht_def large_ht_def True)
  obtain k0 where k0: "k0 \<le> 63" "tsize t0 = 2 ^ k0" "sizemask t0 = mask k0" using sizemask_mask [OF ok(1)] .
  obtain k1 where k1: "k1 \<le> 63" "tsize t1 = 2 ^ k1" "sizemask t1 = mask k1" using sizemask_mask [OF ok(2)] .
  have k01: "k0 \<le> k1" using le k0(2) k1(2) by simp
  define l where "l = unat v mod 2 ^ k0"
  define q where "q = unat (v AND mask k1) div 2 ^ k0"
  have pow: "(2 :: nat) ^ k1 = 2 ^ k0 * 2 ^ (k1 - k0)" using k01 by (simp flip: power_add)
  have idx: "unat (v AND mask k1) = l + 2 ^ k0 * q"
  proof -
    have "unat (v AND mask k1) mod 2 ^ k0 = l"
      using k01 unfolding unat_and_mask l_def by (simp add: mod_mod_cancel le_imp_power_dvd)
    then show ?thesis
      using mult_div_mod_eq [of "2 ^ k0" "unat (v AND mask k1)"] unfolding q_def by linarith
  qed
  have "unat (v AND mask k1) < 2 ^ k1" unfolding unat_and_mask by simp
  then have q: "q < 2 ^ (k1 - k0)" unfolding q_def pow by (simp add: less_mult_imp_div_less mult.commute)
  have l: "l < 2 ^ k0" by (simp add: l_def)
  have fuel: "2 ^ (k1 - k0) \<le> tsize t1 + q" unfolding k1(2) by (simp add: trans_le_add1)
  have k1': "k1 < 64" using k1(1) by simp
  obtain v' where loop: "scan_expansions (tsize t1) (table t1) (mask k0) (mask k1) v
      = Some (concat (map (\<lambda>i. table t1 ! (l + 2 ^ k0 * i)) [q..<2 ^ (k1 - k0)]), v')"
      "unat v' mod 2 ^ k0 = unat v mod 2 ^ k0"
    using scan_expansions_spec [OF k01 k1' idx l q fuel] by blast
  define es where "es = table t0 ! unat (v AND sizemask t0)
    @ concat (map (\<lambda>i. table t1 ! (l + 2 ^ k0 * i)) [q..<2 ^ (k1 - k0)])"
  have "(if tsize (ht0 d) > tsize (ht1 d) then (ht1 d, ht0 d) else (ht0 d, ht1 d)) = (t0, t1)"
    by (simp add: t0_def t1_def small_ht_def large_ht_def True)
  then have "dictScan d v = Some (es, next_cursor (sizemask t0) v')"
    using True assms(2) loop(1) by (simp add: dictScan_def es_def k0(3) k1(3) Let_def)
  then have scan: "dictScan d v = Some (es, next_cursor (sizemask (small_ht d)) v)"
    using next_cursor_low [OF loop(2)] by (simp add: k0(3) flip: t0_def)
  have idx_less: "l + 2 ^ k0 * i < tsize t1" if "i < 2 ^ (k1 - k0)" for i
  proof -
    have "l + 2 ^ k0 * i < 2 ^ k0 * (i + 1)" using l by simp
    also have "\<dots> \<le> 2 ^ k0 * 2 ^ (k1 - k0)" using that by (intro mult_le_mono2) simp
    finally show ?thesis by (simp add: k1(2) pow)
  qed
  have "set es \<subseteq> set (entries d)"
  proof -
    have "x \<in> set (concat (table t1))"
      if "x \<in> set (concat (map (\<lambda>i. table t1 ! (l + 2 ^ k0 * i)) [q..<2 ^ (k1 - k0)]))" for x
    proof -
      obtain i where "i < 2 ^ (k1 - k0)" "x \<in> set (table t1 ! (l + 2 ^ k0 * i))" using \<open>x \<in> _\<close> by auto
      then show ?thesis using bucket_subset [OF ok(2) idx_less] by blast
    qed
    then show ?thesis
      using bucket_subset [OF ok(1) bucket_index_less [OF ok(1)], of v] unfolding es_def ent set_append by blast
  qed
  moreover have "e \<in> set es" if clean: "scan_clean d v" and e: "e \<in> set (entries d)"
      and m: "ucast (hf (fst e)) AND sizemask (small_ht d) = v AND sizemask (small_ht d)" for e
  proof (cases "e \<in> set (concat (table t0))")
    case True
    then show ?thesis using in_bucket [where hf = hf, OF ok(1) True] m unfolding es_def t0_def by simp
  next
    case False
    then have e1: "e \<in> set (concat (table t1))" using e ent by blast
    have "q = 0"
      using clean expansion_done [OF k01 idx l] True
      by (simp add: scan_clean_def k0(3) k1(3) flip: t0_def t1_def)
    define w where "w = (ucast (hf (fst e)) :: 64 word)"
    define i where "i = unat (w AND mask k1) div 2 ^ k0"
    have lw: "unat (w AND mask k1) mod 2 ^ k0 = l"
    proof -
      have "unat (w AND mask k0) = unat (v AND mask k0)"
        using m by (simp add: w_def k0(3) flip: t0_def)
      then show ?thesis
        using k01 unfolding unat_and_mask l_def by (simp add: mod_mod_cancel le_imp_power_dvd)
    qed
    then have wi: "unat (w AND mask k1) = l + 2 ^ k0 * i"
      using mult_div_mod_eq [of "2 ^ k0" "unat (w AND mask k1)"] unfolding i_def by linarith
    have "unat (w AND mask k1) < 2 ^ k1" unfolding unat_and_mask by simp
    then have "i < 2 ^ (k1 - k0)" unfolding i_def pow by (simp add: less_mult_imp_div_less mult.commute)
    moreover have "e \<in> set (table t1 ! (l + 2 ^ k0 * i))"
      using in_bucket [where hf = hf and w = w, OF ok(2) e1] by (simp add: k1(3) wi w_def [symmetric])
    ultimately show ?thesis unfolding es_def \<open>q = 0\<close> by auto
  qed
  ultimately show ?thesis using that [OF scan] by blast
qed

section \<open>Whole iterations\<close>

lemma dictSize_entries: "dict_wf hf d \<Longrightarrow> dictSize d = length (entries d)"
  by (auto simp: dict_wf_def dictSize_def entries_def ht_ok_def split: if_splits)

lemma small_ht_ok:
  assumes "dict_wf hf d" "dictSize d \<noteq> 0"
  shows "ht_ok hf (small_ht d)"
  using assms by (auto simp: small_ht_def dict_wf_def dictSize_def split: if_splits)

text \<open>The cursor of a table with \<open>2 ^ k\<close> buckets has no bits from \<open>k\<close> on.\<close>

lemma next_cursor_high:
  assumes "k \<le> 64" "k \<le> n"
  shows "\<not> bit (next_cursor (mask k) v) n"
proof (cases "n < 64")
  case False
  then show ?thesis using bit_imp_le_length [of "next_cursor (mask k) v" n] by auto
next
  case True
  define j where "j = 64 - k"
  have "(2 :: nat) ^ j dvd 2 ^ 64" by (rule le_imp_power_dvd) (simp add: j_def)
  then have "rank (next_cursor (mask k) v) mod 2 ^ j = 0"
    unfolding rank_next_cursor [OF assms(1)] j_def by (simp add: mod_mod_cancel)
  then have "unat (take_bit j (rev_bits (next_cursor (mask k) v))) = 0" by (simp only: unat_take rank_def)
  then have "take_bit j (rev_bits (next_cursor (mask k) v)) = 0" by (simp only: unat_eq_0)
  then have "\<not> bit (take_bit j (rev_bits (next_cursor (mask k) v))) (63 - n)" by simp
  then show ?thesis using True assms by (simp add: bit_take_bit_iff bit_rev_bits j_def)
qed

text \<open>While a resize is in progress, the smaller table is no smaller than it was (or than
  the table was) at the previous call: tables may grow in any way during the iteration, and
  a shrinking must have completed between two calls.\<close>

primrec scan_grow :: "nat \<Rightarrow> ('k, 'v) dict list \<Rightarrow> bool" where
  "scan_grow n [] = True"
| "scan_grow n (d # ds) \<longleftrightarrow>
    (dictIsRehashing d \<longrightarrow> n \<le> tsize (small_ht d)) \<and> scan_grow (tsize (small_ht d)) ds"

lemma clean_cursor:
  assumes "dict_wf hf d" "dictIsRehashing d \<longrightarrow> 2 ^ k \<le> tsize (small_ht d)"
    and "\<And>n. k \<le> n \<Longrightarrow> \<not> bit v n"
  shows "scan_clean d v"
proof (cases "dictIsRehashing d")
  case True
  have ok: "ht_ok hf (small_ht d)" "ht_ok hf (large_ht d)"
    using assms(1) True by (auto simp: dict_wf_def small_ht_def large_ht_def)
  obtain k0 where k0: "tsize (small_ht d) = 2 ^ k0" "sizemask (small_ht d) = mask k0" using sizemask_mask [OF ok(1)] .
  obtain k1 where k1: "tsize (large_ht d) = 2 ^ k1" "sizemask (large_ht d) = mask k1" using sizemask_mask [OF ok(2)] .
  have "tsize (small_ht d) \<le> tsize (large_ht d)" by (auto simp: small_ht_def large_ht_def True)
  then have "k0 \<le> k1" "k \<le> k0" using assms(2) True by (simp_all add: k0(1) k1(1))
  have "n < k" if "bit v n" for n using assms(3) that not_le by blast
  then have low: "n < k0" if "bit v n" for n using that \<open>k \<le> k0\<close> by fastforce
  have low1: "n < k1" if "bit v n" for n using low [OF that] \<open>k0 \<le> k1\<close> by simp
  have "v AND (mask k0 XOR mask k1) = 0"
    by (rule bit_word_eqI) (auto simp: bit_simps dest: low low1)
  then show ?thesis by (simp add: scan_clean_def k0(2) k1(2))
qed (simp add: scan_clean_def)

lemma scan_run_covers:
  assumes "\<forall>d \<in> set ds. dict_wf hf d \<and> dict_abs d key \<noteq> None"
    and "scan_grow (2 ^ k) ds" "\<And>n. k \<le> n \<Longrightarrow> \<not> bit v n"
    and "rank v \<le> rank (ucast (hf key))" "scan_run ds v = Some (es, True)"
  shows "key \<in> fst ` set es"
  using assms
proof (induction ds arbitrary: v k es)
  case (Cons d ds)
  have wf: "dict_wf hf d" and "dict_abs d key \<noteq> None" using Cons.prems(1) by auto
  then obtain val where val: "(key, val) \<in> set (entries d)"
    unfolding dict_abs_def by (metis map_of_SomeD not_None_eq)
  then have ne: "dictSize d \<noteq> 0" using dictSize_entries [OF wf] by auto
  obtain k0 where k0: "k0 \<le> 63" "tsize (small_ht d) = 2 ^ k0" "sizemask (small_ht d) = mask k0"
    using sizemask_mask [OF small_ht_ok [OF wf ne]] .
  define v1 where "v1 = next_cursor (mask k0) v"
  obtain es1 where s: "dictScan d v = Some (es1, v1)"
    "\<And>e. scan_clean d v \<Longrightarrow> e \<in> set (entries d)
      \<Longrightarrow> ucast (hf (fst e)) AND sizemask (small_ht d) = v AND sizemask (small_ht d) \<Longrightarrow> e \<in> set es1"
    using dictScan_spec [OF wf ne, of v] unfolding k0(3) v1_def by blast
  have clean: "scan_clean d v"
    by (rule clean_cursor [OF wf _ Cons.prems(3)]) (use Cons.prems(2) in auto)
  have hit: "key \<in> fst ` set es1" if "rank (ucast (hf key)) < rank v1 \<or> v1 = 0"
  proof -
    have "ucast (hf key) AND mask k0 = v AND mask k0"
      using rank_range_mask [of k0 v "ucast (hf key)"] k0(1) Cons.prems(4) that by (simp add: v1_def)
    then have "(key, val) \<in> set es1" using s(2) [OF clean val] by (simp add: k0(3))
    then show ?thesis by force
  qed
  show ?case
  proof (cases "v1 = 0")
    case True
    then show ?thesis using Cons.prems(5) s(1) hit by simp
  next
    case False
    then obtain r where r: "scan_run ds v1 = Some (r, True)" "es = es1 @ r"
      using Cons.prems(5) s(1) by (auto split: prod.splits)
    show ?thesis
    proof (cases "rank (ucast (hf key)) < rank v1")
      case True
      then show ?thesis using hit r(2) by auto
    next
      case False
      have "key \<in> fst ` set r"
      proof (rule Cons.IH [OF _ _ _ _ r(1)])
        show "\<forall>d \<in> set ds. dict_wf hf d \<and> dict_abs d key \<noteq> None" using Cons.prems(1) by simp
        show "scan_grow (2 ^ k0) ds" using Cons.prems(2) by (simp add: k0(2))
        show "\<not> bit v1 n" if "k0 \<le> n" for n
          unfolding v1_def by (rule next_cursor_high) (use k0(1) that in auto)
        show "rank v1 \<le> rank (ucast (hf key))" using False by simp
      qed
      then show ?thesis using r(2) by auto
    qed
  qed
qed simp

lemma scan_run_sound:
  assumes "\<forall>d \<in> set ds. dict_wf hf d" "scan_run ds v = Some (es, b)"
  shows "set es \<subseteq> (\<Union>d \<in> set ds. set (entries d))"
  using assms
proof (induction ds arbitrary: v es)
  case (Cons d ds)
  have wf: "dict_wf hf d" using Cons.prems(1) by simp
  obtain es1 v1 where s: "dictScan d v = Some (es1, v1)" "set es1 \<subseteq> set (entries d)"
  proof (cases "dictSize d = 0")
    case True
    then show ?thesis using that [of "[]" 0] by (simp add: dictScan_def)
  next
    case False
    then show ?thesis using dictScan_spec [OF wf False, of v] that by metis
  qed
  show ?case
  proof (cases "v1 = 0")
    case True
    then show ?thesis using Cons.prems(2) s by auto
  next
    case False
    then obtain r where r: "scan_run ds v1 = Some (r, b)" "es = es1 @ r"
      using Cons.prems(2) s(1) by (auto split: prod.splits)
    then have "set r \<subseteq> (\<Union>d \<in> set ds. set (entries d))" using Cons.IH Cons.prems(1) by auto
    then show ?thesis using r(2) s(2) by auto
  qed
qed simp

text \<open>On an unchanged dictionary the cursor takes each of its \<open>2 ^ k\<close> values once.\<close>

lemma scan_run_completes:
  assumes "dict_wf hf d" "dictSize d \<noteq> 0" "tsize (small_ht d) = 2 ^ k" "k \<le> 63"
    and "rank v = i * 2 ^ (64 - k)" "i < 2 ^ k" "2 ^ k \<le> n + i"
  shows "\<exists>es. scan_run (replicate n d) v = Some (es, True)"
  using assms(5-7)
proof (induction n arbitrary: v i)
  case (Suc n)
  obtain k' where k': "k' \<le> 63" "tsize (small_ht d) = 2 ^ k'" "sizemask (small_ht d) = mask k'"
    using sizemask_mask [OF small_ht_ok [OF assms(1,2)]] .
  then have kk: "k' = k" using assms(3) by simp
  define v1 where "v1 = next_cursor (mask k) v"
  obtain es where s: "dictScan d v = Some (es, v1)"
    using dictScan_spec [OF assms(1,2), of v] unfolding k'(3) kk v1_def by metis
  have pow: "(2 :: nat) ^ 64 = 2 ^ k * 2 ^ (64 - k)" using assms(4) by (simp flip: power_add)
  have r1: "rank v1 = (i + 1) * 2 ^ (64 - k) mod 2 ^ 64"
    using rank_next_cursor [of k v] assms(4) Suc.prems(1) by (simp add: v1_def)
  show ?case
  proof (cases "i + 1 < 2 ^ k")
    case True
    then have "(i + 1) * 2 ^ (64 - k) < (2 :: nat) ^ 64" unfolding pow by (intro mult_strict_right_mono) auto
    then have r: "rank v1 = (i + 1) * 2 ^ (64 - k)" using r1 by simp
    then have "v1 \<noteq> 0" using rank_eq_zero [of v1] by simp
    moreover obtain es' where "scan_run (replicate n d) v1 = Some (es', True)"
      using Suc.IH [OF r True] Suc.prems(3) by auto
    ultimately show ?thesis using s by simp
  next
    case False
    then have "i + 1 = 2 ^ k" using Suc.prems(2) by simp
    then have "rank v1 = 0" using r1 pow by simp
    then have "v1 = 0" by (simp add: rank_eq_zero)
    then show ?thesis using s by simp
  qed
qed simp

section \<open>Properties\<close>

text \<open>C1: the guarantee of \<open>SCAN\<close>: whatever happens to the dictionary between the calls
  (insertions, deletions, growth of the table in any number of steps), an element that is
  there at every call is returned by a complete iteration, and nothing is returned that was
  not in the dictionary at some call.  A resize that is in progress at a call must not go to
  a table smaller than that of the call before.\<close>

theorem dictScan_complete:
  assumes "\<forall>d \<in> set ds. dict_wf hf d \<and> dict_abs d key \<noteq> None" "scan_grow 1 ds"
    and "scan_run ds 0 = Some (es, True)"
  shows "key \<in> fst ` set es \<and> set es \<subseteq> (\<Union>d \<in> set ds. set (entries d))"
proof
  show "key \<in> fst ` set es"
    by (rule scan_run_covers [OF assms(1) _ _ _ assms(3), of 0])
      (use assms(2) in \<open>simp_all add: rank_eq_zero [THEN iffD2]\<close>)
  show "set es \<subseteq> (\<Union>d \<in> set ds. set (entries d))"
    using scan_run_sound [OF _ assms(3)] assms(1) by blast
qed

text \<open>C33: a complete iteration over an unchanged dictionary, resizing or not, needs no more
  calls than the smaller table has buckets, and returns exactly the entries, each
  at least once.\<close>

theorem dictScan_terminates:
  assumes "dict_wf hf d" "dictSize d \<noteq> 0"
  shows "\<exists>es. scan_run (replicate (tsize (small_ht d)) d) 0 = Some (es, True) \<and> set es = set (entries d)"
proof -
  obtain k where k: "k \<le> 63" "tsize (small_ht d) = 2 ^ k"
    using sizemask_mask [OF small_ht_ok [OF assms]] .
  obtain es where es: "scan_run (replicate (2 ^ k) d) 0 = Some (es, True)"
    using scan_run_completes [OF assms k(2,1), of 0 0 "2 ^ k"] by (auto simp: rank_eq_zero)
  have sub: "set es \<subseteq> set (entries d)"
    using scan_run_sound [OF _ es, of hf] assms(1) by auto
  have grow: "scan_grow m (replicate n d)" if "m \<le> tsize (small_ht d)" for m n
    using that by (induction n arbitrary: m) auto
  have "set (entries d) \<subseteq> set es"
  proof
    fix e assume e: "e \<in> set (entries d)"
    have dist: "distinct (map fst (entries d))" using assms(1) by (simp add: dict_wf_def)
    have "\<forall>d' \<in> set (replicate (2 ^ k) d). dict_wf hf d' \<and> dict_abs d' (fst e) \<noteq> None"
      using assms(1) e by (auto simp: dict_abs_def map_of_eq_None_iff)
    moreover have "scan_grow 1 (replicate (2 ^ k) d)" by (rule grow) (simp add: k(2))
    ultimately have "fst e \<in> fst ` set es"
      using scan_run_covers [where hf = hf and k = 0 and v = 0 and es = es and key = "fst e", OF _ _ _ _ es]
      by (simp add: rank_eq_zero [THEN iffD2])
    then obtain e' where e': "e' \<in> set es" "fst e' = fst e" by auto
    then have "e' = e" using sub e dist by (metis eq_key_imp_eq_value in_mono prod.collapse)
    then show "e \<in> set es" using e'(1) by simp
  qed
  then show ?thesis using es sub k(2) by auto
qed

theorem dictScan_terminates_witness:
  "\<exists>es. scan_run (replicate (tsize (small_ht example_dict)) example_dict) 0 = Some (es, True)
    \<and> set es = set (entries example_dict)"
  by (rule dictScan_terminates [OF example_dict_wf]) (simp add: dictSize_def example_dict_def)

text \<open>The evaluation of concrete cursors, on integers.\<close>

definition swap_int :: "nat \<Rightarrow> int \<Rightarrow> int \<Rightarrow> int" where
  "swap_int s m x =
    ((x div 2 ^ s) AND m) OR ((x * 2 ^ s mod 0x10000000000000000) AND (m XOR 0xFFFFFFFFFFFFFFFF))"

definition rev_int :: "int \<Rightarrow> int" where
  "rev_int v = swap_int 1 0x5555555555555555 (swap_int 2 0x3333333333333333 (swap_int 4 0x0F0F0F0F0F0F0F0F
    (swap_int 8 0x00FF00FF00FF00FF (swap_int 16 0x0000FFFF0000FFFF (swap_int 32 0xFFFFFFFF v)))))"

definition next_int :: "int \<Rightarrow> int \<Rightarrow> int" where
  "next_int m v = rev_int ((rev_int (v OR (m XOR 0xFFFFFFFFFFFFFFFF)) + 1) mod 0x10000000000000000)"

lemma uint_not: "uint (NOT m :: 64 word) = uint m XOR 0xFFFFFFFFFFFFFFFF"
proof -
  have "NOT m = m XOR 0xFFFFFFFFFFFFFFFF"
  proof -
    have "(0xFFFFFFFFFFFFFFFF :: 64 word) = - 1" by simp
    moreover have "NOT m = m XOR (- 1)" by (rule bit_word_eqI) (simp add: bit_simps)
    ultimately show ?thesis by (simp only:)
  qed
  then show ?thesis by (simp add: unsigned_xor_eq)
qed

lemma uint_swap: "uint (swap_bits s m v) = swap_int s (uint m) (uint v)"
proof -
  have "uint (drop_bit s v) = uint v div 2 ^ s"
    by (simp only: uint_nat unat_drop zdiv_int) simp
  moreover have "uint (push_bit s v) = uint v * 2 ^ s mod 0x10000000000000000"
  proof -
    have "uint (word_of_int (2 ^ s) :: 64 word) = 2 ^ s mod 0x10000000000000000"
      by (simp only: uint_word_of_int) simp
    then have two: "uint (2 ^ s :: 64 word) = 2 ^ s mod 0x10000000000000000" by simp
    have "uint (push_bit s v) = uint v * uint (2 ^ s :: 64 word) mod 0x10000000000000000"
      by (simp add: push_bit_eq_mult uint_word_ariths)
    then show ?thesis unfolding two by (simp only: mod_mult_right_eq)
  qed
  ultimately show ?thesis
    unfolding swap_bits_def swap_int_def by (simp add: unsigned_or_eq unsigned_and_eq uint_not)
qed

lemma uint_rev: "uint (rev_bits v) = rev_int (uint v)"
  unfolding rev_bits_swaps rev_int_def uint_swap by simp

lemma uint_next: "uint (next_cursor m v) = next_int (uint m) (uint v)"
  by (simp add: next_cursor_def next_int_def uint_rev uint_word_ariths unsigned_or_eq uint_not Let_def)

lemma next_cursorI: "uint w = next_int (uint m) (uint v) \<Longrightarrow> next_cursor m v = w"
  by (rule word_uint_eqI) (simp only: uint_next)

lemma example_cursors:
  "next_cursor 3 8 = 2" "next_cursor 3 10 = 1" "next_cursor 3 9 = 3" "next_cursor 3 11 = 0"
  "next_cursor 3 16 = 2" "next_cursor 3 18 = 1" "next_cursor 3 17 = 3" "next_cursor 3 19 = 0"
  "next_cursor 15 0 = 8"
  by (rule next_cursorI; unfold uint_numeral unsigned_0 unsigned_1; code_simp)+

lemma expansion_3: "(((v OR 3) + 1) AND NOT 3) OR (v AND 3) = v + (4 :: 64 word)"
proof -
  have "mask 2 = (3 :: 64 word)" by (simp add: mask_eq_exp_minus_1)
  then show ?thesis using expansion_step [of 2 v] by simp
qed

lemma scan_expansions_3:
  "scan_expansions (Suc n) tab 3 m1 v =
    (if (v + 4) AND (3 XOR m1) \<noteq> 0 then
       map_option (\<lambda>(r, w). (tab ! unat (v AND m1) @ r, w)) (scan_expansions n tab 3 m1 (v + 4))
     else Some (tab ! unat (v AND m1), v + 4))"
  unfolding scan_expansions.simps(2) Let_def expansion_3 by (rule refl)

lemmas scan_expansions_numeral = scan_expansions_3 [of "pred_numeral n" for n, folded numeral_eq_Suc]

lemma example_step:
  "dictScan example_dict 0 = Some ([], 2)" "dictScan example_dict 2 = Some ([], 1)"
  "dictScan example_dict 1 = Some ([(1, True)], 3)" "dictScan example_dict 3 = Some ([], 0)"
  by (simp_all add: dictScan_def example_dict_def dictSize_def dictIsRehashing_def
      scan_expansions_numeral scan_expansions_3 example_cursors del: scan_expansions.simps(2))

lemma example_scan: "scan_run [example_dict, example_dict, example_dict, example_dict] 0 = Some ([(1, True)], True)"
  by (simp add: example_step)

lemma example_abs: "dict_abs example_dict 1 = Some True"
  by (simp add: dict_abs_def entries_def example_dict_def)

theorem dictScan_complete_witness:
  "1 \<in> fst ` set [(1 :: nat, True)]
    \<and> set [(1, True)] \<subseteq> (\<Union>d \<in> set [example_dict, example_dict, example_dict, example_dict]. set (entries d))"
proof (rule dictScan_complete [OF _ _ example_scan])
  show "\<forall>d \<in> set [example_dict, example_dict, example_dict, example_dict].
      dict_wf (\<lambda>k. of_nat k) d \<and> dict_abs d 1 \<noteq> None"
    using example_dict_wf example_abs by simp
  show "scan_grow 1 [example_dict, example_dict, example_dict, example_dict]"
    by (simp add: small_ht_def) (simp add: example_dict_def)
qed

text \<open>A dictionary of sixteen buckets with one key, and the same while it shrinks to four.\<close>

definition wide_dict :: "(nat, bool) dict" where
  "wide_dict =
    \<lparr>ht0 = \<lparr>table = [[], [], [], [], [(4, True)], [], [], [], [], [], [], [], [], [], [], []],
             tsize = 16, sizemask = 15, used = 1\<rparr>,
     ht1 = dictReset, rehashidx = -1, iterators = 0\<rparr>"

definition shrinking_dict :: "(nat, bool) dict" where
  "shrinking_dict = wide_dict\<lparr>ht1 := \<lparr>table = [[], [], [], []], tsize = 4, sizemask = 3, used = 0\<rparr>, rehashidx := 0\<rparr>"

lemma power_16: "dictNextPower 16 = 16" "dictNextPower 4 = 4"
  by (simp_all add: dictNextPower_def dictNextPower_loop.simps [of 4] dictNextPower_loop.simps [of 8]
      dictNextPower_loop.simps [of 16])

lemma example_lists:
  "replicate 16 x = [x, x, x, x, x, x, x, x, x, x, x, x, x, x, x, x]"
  "replicate 4 x = [x, x, x, x]"
  "(a # b # c # d # e # xs)[4 := y] = a # b # c # d # y # xs"
  by (simp_all add: numeral_eq_Suc)

lemma wide_run: "dict_run (\<lambda>k. of_nat k) True [Expand 16, Add 4 True] dictCreate = Some (wide_dict, [Done True, Done True])"
  by (simp add: dictExpand_def power_16 dictCreate_def dictIsRehashing_def new_table_def dictAdd_def rehash_if_def
      dictKeyIndex_def dictExpandIfNeeded_def find_loc_def find_in_def ht_def set_ht_def ht_idx_def Let_def
      wide_dict_def dictReset_def example_lists null_table_def search_fits_def to_int32_small)

lemma shrinking_run: "dict_run (\<lambda>k. of_nat k) True [Resize] wide_dict = Some (shrinking_dict, [Done True])"
  by (simp add: dictResize_def dictExpand_def power_16 dictIsRehashing_def new_table_def shrinking_dict_def wide_dict_def
      Let_def example_lists null_table_def to_int32_small)

lemma shrinking_step:
  "dictScan wide_dict 0 = Some ([], 8)"
  "dictScan shrinking_dict 8 = Some ([], 2)" "dictScan shrinking_dict 2 = Some ([], 1)"
  "dictScan shrinking_dict 1 = Some ([], 3)" "dictScan shrinking_dict 3 = Some ([], 0)"
  by (simp_all add: dictScan_def shrinking_dict_def wide_dict_def dictSize_def dictIsRehashing_def
      scan_expansions_numeral scan_expansions_3 example_cursors del: scan_expansions.simps(2))

lemma shrinking_scan:
  "scan_run [wide_dict, shrinking_dict, shrinking_dict, shrinking_dict, shrinking_dict] 0 = Some ([], True)"
  by (simp add: shrinking_step)

text \<open>C34: when the table shrinks, \<open>dictScan\<close> can miss elements: a cursor from the larger
  table is expanded only upwards in the loop over the larger table.  Here the
  dictionary, built by \<open>dictExpand\<close>, \<open>dictAdd\<close> and \<open>dictResize\<close>, holds the key at
  every call of a complete iteration, and the iteration returns nothing.\<close>

theorem dictScan_misses_on_shrink:
  "dict_run (\<lambda>k. of_nat k) True [Expand 16, Add 4 True] dictCreate = Some (wide_dict, [Done True, Done True])
    \<and> dict_run (\<lambda>k. of_nat k) True [Resize] wide_dict = Some (shrinking_dict, [Done True])
    \<and> dict_abs wide_dict 4 = Some True \<and> dict_abs shrinking_dict 4 = Some True
    \<and> scan_run [wide_dict, shrinking_dict, shrinking_dict, shrinking_dict, shrinking_dict] 0 = Some ([], True)"
  using wide_run shrinking_run shrinking_scan
  by (simp add: dict_abs_def entries_def shrinking_dict_def wide_dict_def)

end
