(* ===== verification/DictHash.thy ===== *)
theory DictHash
  imports Dict NumConv
begin

text \<open>
  The hash functions of \<open>dict.c\<close>, on 32-bit words: the integer mixer, MurmurHash2 over
  the bytes of a key (read four at a time, little-endian) and the case-insensitive hash of
  the command table.  The global seed is an argument.
\<close>

definition dictIntHashFunction :: "32 word \<Rightarrow> 32 word" where
  "dictIntHashFunction key =
    (let key = key + NOT (push_bit 15 key);
         key = key XOR drop_bit 10 key;
         key = key + push_bit 3 key;
         key = key XOR drop_bit 6 key;
         key = key + NOT (push_bit 11 key);
         key = key XOR drop_bit 16 key
     in key)"

abbreviation murmur_m :: "32 word" where "murmur_m \<equiv> 0x5bd1e995"

text \<open>\<open>while (len >= 4)\<close>; the last case holds the bytes that are left.\<close>

fun gen_hash_loop :: "32 word \<Rightarrow> bytes \<Rightarrow> 32 word \<times> bytes" where
  "gen_hash_loop h (a # b # c # d # data) =
    (let k = word_of_int (le_uint [a, b, c, d]);
         k = k * murmur_m;
         k = k XOR drop_bit 24 k;
         k = k * murmur_m;
         h = h * murmur_m;
         h = h XOR k
     in gen_hash_loop h data)"
| "gen_hash_loop h data = (h, data)"

text \<open>The switch on the remaining length, with its fall-through.\<close>

definition gen_hash_tail :: "32 word \<Rightarrow> bytes \<Rightarrow> 32 word" where
  "gen_hash_tail h data =
    (let h = (if length data = 3 then h XOR push_bit 16 (ucast (data ! 2)) else h);
         h = (if length data \<in> {2, 3} then h XOR push_bit 8 (ucast (data ! 1)) else h)
     in if length data \<in> {1, 2, 3} then (h XOR ucast (data ! 0)) * murmur_m else h)"

definition dictGenHashFunction :: "32 word \<Rightarrow> bytes \<Rightarrow> 32 word" where
  "dictGenHashFunction seed key =
    (let h = seed XOR of_nat (length key);
         (h, data) = gen_hash_loop h key;
         h = gen_hash_tail h data;
         h = h XOR drop_bit 13 h;
         h = h * murmur_m;
         h = h XOR drop_bit 15 h
     in h)"

definition dictGenCaseHashFunction :: "32 word \<Rightarrow> bytes \<Rightarrow> 32 word" where
  "dictGenCaseHashFunction seed buf =
    foldl (\<lambda>hash c. (push_bit 5 hash + hash) + ucast (tolower c)) seed buf"

section \<open>The integer mixer loses nothing\<close>

lemma xor_shift_inj:
  assumes "0 < s" "x XOR drop_bit s x = y XOR drop_bit s (y :: 32 word)"
  shows "x = y"
proof (rule bit_word_eqI)
  have "bit x n = bit y n" if "32 - n \<le> m" for m n
    using that
  proof (induction m arbitrary: n)
    case 0
    then show ?case by (auto dest: bit_imp_le_length)
  next
    case (Suc m)
    have "bit x (n + s) = bit y (n + s)"
    proof (cases "n < 32")
      case True
      then show ?thesis using Suc assms(1) by (intro Suc.IH) linarith
    next
      case False
      then show ?thesis by (auto dest: bit_imp_le_length)
    qed
    moreover have "bit (x XOR drop_bit s x) n = bit (y XOR drop_bit s y) n" using assms(2) by simp
    ultimately show ?case by (auto simp: bit_xor_iff bit_drop_bit_eq add.commute)
  qed
  then show "bit x n = bit y n" if "n < LENGTH(32)" for n by blast
qed

lemma odd_mult_inj:
  assumes "c * c' = (1 :: 32 word)" "x * c = y * c"
  shows "x = y"
proof -
  have "x = x * c * c'" using assms(1) by (simp add: mult.assoc)
  also have "\<dots> = y * c * c'" using assms(2) by simp
  also have "\<dots> = y" using assms(1) by (simp add: mult.assoc)
  finally show ?thesis .
qed

lemma shift_not_mult: "x + NOT (push_bit s x) = x * (1 - 2 ^ s) - (1 :: 32 word)"
  by (simp add: not_eq_complement push_bit_eq_mult algebra_simps)

lemma shift_add_mult: "x + push_bit s x = x * (1 + 2 ^ s :: 32 word)"
  by (simp add: push_bit_eq_mult algebra_simps)

text \<open>The integer hash is a permutation of the 32-bit values: two different keys never
  collide before the table's mask is applied.\<close>

theorem dictIntHash_injective: "inj dictIntHashFunction"
proof -
  have x: "inj (\<lambda>k :: 32 word. k XOR drop_bit s k)" if "0 < s" for s
    using xor_shift_inj [OF that] by (blast intro: injI)
  have a15: "inj (\<lambda>k :: 32 word. k + NOT (push_bit 15 k))"
    unfolding shift_not_mult by (rule injI, rule odd_mult_inj [of "1 - 2 ^ 15" "0x40008001"]) simp_all
  have a11: "inj (\<lambda>k :: 32 word. k + NOT (push_bit 11 k))"
    unfolding shift_not_mult by (rule injI, rule odd_mult_inj [of "1 - 2 ^ 11" "0x00400801"]) simp_all
  have a3: "inj (\<lambda>k :: 32 word. k + push_bit 3 k)"
    unfolding shift_add_mult by (rule injI, rule odd_mult_inj [of "1 + 2 ^ 3" "0x38E38E39"]) simp_all
  have "dictIntHashFunction = (\<lambda>k. k XOR drop_bit 16 k) \<circ> (\<lambda>k. k + NOT (push_bit 11 k))
      \<circ> (\<lambda>k. k XOR drop_bit 6 k) \<circ> (\<lambda>k. k + push_bit 3 k) \<circ> (\<lambda>k. k XOR drop_bit 10 k)
      \<circ> (\<lambda>k. k + NOT (push_bit 15 k))"
    by (rule ext) (simp only: dictIntHashFunction_def Let_def o_def)
  then show ?thesis
    using inj_compose [OF x [of 16] inj_compose [OF a11 inj_compose [OF x [of 6] inj_compose [OF a3
      inj_compose [OF x [of 10] a15]]]]] by (simp only: o_assoc zero_less_numeral simp_thms)
qed

text \<open>The case-insensitive hash is compatible with the case-insensitive comparison of
  the command table: two names that compare equal have the same hash, whatever the seed.\<close>

theorem dictGenCaseHash_respects_case:
  assumes "strcaseeq a b"
  shows "dictGenCaseHashFunction seed a = dictGenCaseHashFunction seed b"
proof -
  have "dictGenCaseHashFunction seed s
      = foldl (\<lambda>hash c. (push_bit 5 hash + hash) + ucast c) seed (map tolower s)" for s
    unfolding dictGenCaseHashFunction_def foldl_map ..
  then show ?thesis using assms by (simp add: strcaseeq_def)
qed

theorem dictGenCaseHash_respects_case_witness:
  "dictGenCaseHashFunction 5381 [71, 69, 84] = dictGenCaseHashFunction 5381 [103, 101, 116]"
  by (rule dictGenCaseHash_respects_case) (simp add: strcaseeq_def tolower_def)

end
