(* ===== verification/Ziplist.thy ===== *)
theory Ziplist
  imports NumConv "HOL-Library.Monad_Syntax"
begin

unbundle bit_operations_syntax

text \<open>
  \<open>ziplist.c\<close>: lists of strings and integers packed in one block of memory.  A ziplist is
  the bytes of the block, header and end byte included, and a pointer into it is an offset.
  Every access is checked: \<open>None\<close> is an access outside the block or a failed assertion.
\<close>

section \<open>Checked accesses\<close>

definition rd :: "bytes \<Rightarrow> nat \<Rightarrow> nat \<Rightarrow> bytes option" where
  "rd b p n = (if p + n \<le> length b then Some (buf_get b p n) else None)"

definition rd1 :: "bytes \<Rightarrow> nat \<Rightarrow> u8 option" where
  "rd1 b p = (if p < length b then Some (b ! p) else None)"

definition wr :: "bytes \<Rightarrow> nat \<Rightarrow> bytes \<Rightarrow> bytes option" where
  "wr b p xs = (if p + length xs \<le> length b then Some (buf_put b p xs) else None)"

definition mv :: "bytes \<Rightarrow> nat \<Rightarrow> nat \<Rightarrow> nat \<Rightarrow> bytes option" where
  "mv b dst src n = (if dst + n \<le> length b \<and> src + n \<le> length b then Some (memmove b dst src n) else None)"

definition uint_of :: "bytes \<Rightarrow> nat" where
  "uint_of b = nat (le_uint b)"

section \<open>The header\<close>

abbreviation ZIP_END :: u8 where "ZIP_END \<equiv> 255"
abbreviation ZIP_BIGLEN :: nat where "ZIP_BIGLEN \<equiv> 254"
abbreviation ZIPLIST_HEADER_SIZE :: nat where "ZIPLIST_HEADER_SIZE \<equiv> 10"

definition ZIPLIST_BYTES :: "bytes \<Rightarrow> nat" where
  "ZIPLIST_BYTES zl = uint_of (buf_get zl 0 4)"

definition ZIPLIST_TAIL_OFFSET :: "bytes \<Rightarrow> nat" where
  "ZIPLIST_TAIL_OFFSET zl = uint_of (buf_get zl 4 4)"

definition ZIPLIST_LENGTH :: "bytes \<Rightarrow> nat" where
  "ZIPLIST_LENGTH zl = uint_of (buf_get zl 8 2)"

text \<open>The assignments store the value modulo the width of the field.\<close>

definition set_BYTES :: "bytes \<Rightarrow> int \<Rightarrow> bytes" where
  "set_BYTES zl v = buf_put zl 0 (le_bytes 4 v)"

definition set_TAIL_OFFSET :: "bytes \<Rightarrow> int \<Rightarrow> bytes" where
  "set_TAIL_OFFSET zl v = buf_put zl 4 (le_bytes 4 v)"

definition set_LENGTH :: "bytes \<Rightarrow> int \<Rightarrow> bytes" where
  "set_LENGTH zl v = buf_put zl 8 (le_bytes 2 v)"

definition ZIPLIST_INCR_LENGTH :: "bytes \<Rightarrow> int \<Rightarrow> bytes" where
  "ZIPLIST_INCR_LENGTH zl incr =
    (if ZIPLIST_LENGTH zl < 65535 then set_LENGTH zl (int (ZIPLIST_LENGTH zl) + incr) else zl)"

definition ZIPLIST_ENTRY_END :: "bytes \<Rightarrow> nat" where
  "ZIPLIST_ENTRY_END zl = ZIPLIST_BYTES zl - 1"

section \<open>Entries\<close>

definition ZIP_IS_STR :: "u8 \<Rightarrow> bool" where
  "ZIP_IS_STR enc \<longleftrightarrow> enc AND 0xC0 < 0xC0"

definition zipIntSize :: "u8 \<Rightarrow> nat" where
  "zipIntSize encoding =
    (if encoding = 0xFE then 1 else if encoding = 0xC0 then 2 else if encoding = 0xF0 then 3
     else if encoding = 0xD0 then 4 else if encoding = 0xE0 then 8 else 0)"

text \<open>The bytes of the length; the value the code returns is their number.\<close>

definition zipEncodeLength :: "u8 \<Rightarrow> nat \<Rightarrow> bytes" where
  "zipEncodeLength encoding rawlen =
    (if ZIP_IS_STR encoding then
       (if rawlen \<le> 0x3F then [of_nat rawlen]
        else if rawlen \<le> 0x3FFF then [0x40 OR (of_nat (rawlen div 256) AND 0x3F), of_nat rawlen AND 0xFF]
        else [0x80, of_nat (rawlen div 16777216) AND 0xFF, of_nat (rawlen div 65536) AND 0xFF,
              of_nat (rawlen div 256) AND 0xFF, of_nat rawlen AND 0xFF])
     else [encoding])"

text \<open>\<open>ZIP_DECODE_LENGTH\<close>: encoding, \<open>lensize\<close> and \<open>len\<close>.\<close>

definition ZIP_DECODE_LENGTH :: "bytes \<Rightarrow> nat \<Rightarrow> (u8 \<times> nat \<times> nat) option" where
  "ZIP_DECODE_LENGTH b p =
    do {
      c \<leftarrow> rd1 b p;
      if c < 0xC0 then
        (let encoding = c AND 0xC0 in
         if encoding = 0 then Some (encoding, 1, unat (c AND 0x3F))
         else if encoding = 0x40 then
           do { c1 \<leftarrow> rd1 b (p + 1); Some (encoding, 2, unat (c AND 0x3F) * 256 + unat c1) }
         else if encoding = 0x80 then
           do { l \<leftarrow> rd b (p + 1) 4; Some (encoding, 5, uint_of (rev l)) }
         else None)
      else Some (c, 1, zipIntSize c)
    }"

definition zipPrevEncodeLength :: "nat \<Rightarrow> bytes" where
  "zipPrevEncodeLength len =
    (if len < ZIP_BIGLEN then [of_nat len] else of_nat ZIP_BIGLEN # le_bytes 4 (int len))"

definition zipPrevEncodeLengthForceLarge :: "nat \<Rightarrow> bytes" where
  "zipPrevEncodeLengthForceLarge len = of_nat ZIP_BIGLEN # le_bytes 4 (int len)"

definition ZIP_DECODE_PREVLENSIZE :: "bytes \<Rightarrow> nat \<Rightarrow> nat option" where
  "ZIP_DECODE_PREVLENSIZE b p = do { c \<leftarrow> rd1 b p; Some (if unat c < ZIP_BIGLEN then 1 else 5) }"

text \<open>\<open>prevlensize\<close> and \<open>prevlen\<close>.\<close>

definition ZIP_DECODE_PREVLEN :: "bytes \<Rightarrow> nat \<Rightarrow> (nat \<times> nat) option" where
  "ZIP_DECODE_PREVLEN b p =
    do {
      prevlensize \<leftarrow> ZIP_DECODE_PREVLENSIZE b p;
      if prevlensize = 1 then Some (1, unat (b ! p))
      else do { l \<leftarrow> rd b (p + 1) 4; Some (5, uint_of l) }
    }"

definition zipPrevLenByteDiff :: "bytes \<Rightarrow> nat \<Rightarrow> nat \<Rightarrow> int option" where
  "zipPrevLenByteDiff b p len =
    do {
      prevlensize \<leftarrow> ZIP_DECODE_PREVLENSIZE b p;
      Some (int (length (zipPrevEncodeLength len)) - int prevlensize)
    }"

definition zipRawEntryLength :: "bytes \<Rightarrow> nat \<Rightarrow> nat option" where
  "zipRawEntryLength b p =
    do {
      prevlensize \<leftarrow> ZIP_DECODE_PREVLENSIZE b p;
      (encoding, lensize, len) \<leftarrow> ZIP_DECODE_LENGTH b (p + prevlensize);
      Some (prevlensize + lensize + len)
    }"

definition zipTryEncoding :: "bytes \<Rightarrow> (int \<times> u8) option" where
  "zipTryEncoding entry =
    (if length entry \<ge> 32 \<or> length entry = 0 then None
     else
       (case string2ll entry of
          None \<Rightarrow> None
        | Some value \<Rightarrow>
            Some (value,
              if value \<ge> 0 \<and> value \<le> 12 then 0xF1 + word_of_int value
              else if value \<ge> - 128 \<and> value \<le> 127 then 0xFE
              else if value \<ge> - 32768 \<and> value \<le> 32767 then 0xC0
              else if value \<ge> - 8388608 \<and> value \<le> 8388607 then 0xF0
              else if value \<ge> - 2147483648 \<and> value \<le> 2147483647 then 0xD0
              else 0xE0)))"

text \<open>The bytes stored for an integer.\<close>

definition zipSaveInteger :: "int \<Rightarrow> u8 \<Rightarrow> bytes option" where
  "zipSaveInteger value encoding =
    (if encoding = 0xFE then Some (le_bytes 1 value)
     else if encoding = 0xC0 then Some (le_bytes 2 value)
     else if encoding = 0xF0 then Some (drop 1 (le_bytes 4 (value * 256)))
     else if encoding = 0xD0 then Some (le_bytes 4 value)
     else if encoding = 0xE0 then Some (le_bytes 8 value)
     else if 0xF1 \<le> encoding \<and> encoding \<le> 0xFD then Some []
     else None)"

definition zipLoadInteger :: "bytes \<Rightarrow> nat \<Rightarrow> u8 \<Rightarrow> int option" where
  "zipLoadInteger b p encoding =
    (if encoding = 0xFE then do { x \<leftarrow> rd b p 1; Some (to_signed 1 (le_uint x)) }
     else if encoding = 0xC0 then do { x \<leftarrow> rd b p 2; Some (to_signed 2 (le_uint x)) }
     else if encoding = 0xD0 then do { x \<leftarrow> rd b p 4; Some (to_signed 4 (le_uint x)) }
     else if encoding = 0xF0 then do { x \<leftarrow> rd b p 3; Some (to_signed 4 (le_uint (0 # x)) div 256) }
     else if encoding = 0xE0 then do { x \<leftarrow> rd b p 8; Some (to_signed 8 (le_uint x)) }
     else if 0xF1 \<le> encoding \<and> encoding \<le> 0xFD then Some (uint (encoding AND 0x0F) - 1)
     else None)"

record zlentry =
  prevrawlensize :: nat
  prevrawlen :: nat
  lensize :: nat
  ze_len :: nat
  headersize :: nat
  ze_encoding :: u8

definition zipEntry :: "bytes \<Rightarrow> nat \<Rightarrow> zlentry option" where
  "zipEntry b p =
    do {
      (ps, pl) \<leftarrow> ZIP_DECODE_PREVLEN b p;
      (enc, ls, l) \<leftarrow> ZIP_DECODE_LENGTH b (p + ps);
      Some \<lparr>prevrawlensize = ps, prevrawlen = pl, lensize = ls, ze_len = l, headersize = ps + ls, ze_encoding = enc\<rparr>
    }"

section \<open>Creation and resizing\<close>

definition ziplistNew :: bytes where
  "ziplistNew = le_bytes 4 11 @ le_bytes 4 10 @ le_bytes 2 0 @ [ZIP_END]"

definition ziplistResize :: "bytes \<Rightarrow> nat \<Rightarrow> bytes option" where
  "ziplistResize zl len = wr (set_BYTES (buf_resize zl len) (int len)) (len - 1) [ZIP_END]"

section \<open>The cascade of length updates\<close>

lemma rd1_Some: "rd1 b p = Some c \<Longrightarrow> p < length b \<and> c = b ! p"
  by (simp add: rd1_def split: if_splits)

lemma DECODE_PREVLENSIZE_Some: "ZIP_DECODE_PREVLENSIZE b p = Some ps \<Longrightarrow> p < length b \<and> (ps = 1 \<or> ps = 5)"
  by (auto simp: ZIP_DECODE_PREVLENSIZE_def bind_eq_Some_conv rd1_def split: if_splits)

lemma DECODE_PREVLEN_Some: "ZIP_DECODE_PREVLEN b p = Some (ps, pl) \<Longrightarrow> p < length b \<and> (ps = 1 \<or> ps = 5)"
  by (auto simp: ZIP_DECODE_PREVLEN_def bind_eq_Some_conv dest!: DECODE_PREVLENSIZE_Some split: if_splits)

lemma DECODE_LENGTH_Some: "ZIP_DECODE_LENGTH b p = Some (e, ls, l) \<Longrightarrow> 1 \<le> ls"
  by (auto simp: ZIP_DECODE_LENGTH_def Let_def bind_eq_Some_conv split: if_splits)

lemma zipEntry_Some:
  assumes "zipEntry b p = Some e"
  shows "p < length b \<and> 2 \<le> headersize e \<and> (prevrawlensize e = 1 \<or> prevrawlensize e = 5)"
proof -
  obtain ps pl enc ls l where "ZIP_DECODE_PREVLEN b p = Some (ps, pl)" "ZIP_DECODE_LENGTH b (p + ps) = Some (enc, ls, l)"
    "headersize e = ps + ls" "prevrawlensize e = ps"
    using assms by (auto simp: zipEntry_def bind_eq_Some_conv)
  then show ?thesis using DECODE_PREVLEN_Some DECODE_LENGTH_Some by fastforce
qed

text \<open>The \<open>prevlen\<close> field of the entry at \<open>np\<close> grows to \<open>rawlensize\<close> bytes.\<close>

definition cascade_grow :: "bytes \<Rightarrow> nat \<Rightarrow> nat \<Rightarrow> nat \<Rightarrow> nat \<Rightarrow> bytes option" where
  "cascade_grow zl curlen np rawlen prevsize =
    do {
      let rawlensize = length (zipPrevEncodeLength rawlen);
      let extra = rawlensize - prevsize;
      zl \<leftarrow> ziplistResize zl (curlen + extra);
      let zl = (if ZIPLIST_TAIL_OFFSET zl \<noteq> np
                then set_TAIL_OFFSET zl (int (ZIPLIST_TAIL_OFFSET zl) + int extra) else zl);
      zl \<leftarrow> mv zl (np + rawlensize) (np + prevsize) (curlen - np - prevsize - 1);
      wr zl np (zipPrevEncodeLength rawlen)
    }"

text \<open>One round of the loop: \<open>Inl zl\<close> when it is left, \<open>Inr (zl, p, curlen)\<close> to go on.\<close>

definition cascade_round :: "bytes \<Rightarrow> nat \<Rightarrow> nat \<Rightarrow> (bytes + bytes \<times> nat \<times> nat) option" where
  "cascade_round zl p curlen =
    do {
      cur \<leftarrow> zipEntry zl p;
      let rawlen = headersize cur + ze_len cur;
      let rawlensize = length (zipPrevEncodeLength rawlen);
      c \<leftarrow> rd1 zl (p + rawlen);
      if c = ZIP_END then Some (Inl zl)
      else do {
        next \<leftarrow> zipEntry zl (p + rawlen);
        if prevrawlen next = rawlen then Some (Inl zl)
        else if prevrawlensize next < rawlensize then do {
          zl \<leftarrow> cascade_grow zl curlen (p + rawlen) rawlen (prevrawlensize next);
          Some (Inr (zl, p + rawlen, curlen + (rawlensize - prevrawlensize next)))
        }
        else if prevrawlensize next > rawlensize then
          do { zl \<leftarrow> wr zl (p + rawlen) (zipPrevEncodeLengthForceLarge rawlen); Some (Inl zl) }
        else do { zl \<leftarrow> wr zl (p + rawlen) (zipPrevEncodeLength rawlen); Some (Inl zl) }
      }
    }"

lemma wr_Some: "wr b p xs = Some b' \<Longrightarrow> p + length xs \<le> length b \<and> length b' = length b"
  by (auto simp: wr_def buf_simps split: if_splits)

lemma mv_Some: "mv b d s n = Some b' \<Longrightarrow> length b' = length b"
  by (auto simp: mv_def buf_simps split: if_splits)

lemma length_set_fields [simp]:
  "4 \<le> length zl \<Longrightarrow> length (set_BYTES zl v) = length zl"
  "8 \<le> length zl \<Longrightarrow> length (set_TAIL_OFFSET zl v) = length zl"
  "10 \<le> length zl \<Longrightarrow> length (set_LENGTH zl v) = length zl"
  by (simp_all add: set_BYTES_def set_TAIL_OFFSET_def set_LENGTH_def buf_simps)

lemma length_zipPrevEncodeLength:
  "length (zipPrevEncodeLength l) = (if l < 254 then 1 else 5)"
  by (simp add: zipPrevEncodeLength_def)

lemma ziplistResize_Some: "ziplistResize zl n = Some zl' \<Longrightarrow> length zl' = length (set_BYTES (buf_resize zl n) (int n))"
  by (auto simp: ziplistResize_def dest: wr_Some)

lemma cascade_grow_Some:
  assumes "cascade_grow zl curlen np rawlen prevsize = Some zl'" "10 \<le> curlen"
  shows "np + prevsize \<le> curlen \<or> length (zipPrevEncodeLength rawlen) \<le> prevsize"
proof -
  define extra where "extra = length (zipPrevEncodeLength rawlen) - prevsize"
  obtain z1 z2 z3 where z1: "ziplistResize zl (curlen + extra) = Some z1"
    and z2: "z2 = (if ZIPLIST_TAIL_OFFSET z1 \<noteq> np
                then set_TAIL_OFFSET z1 (int (ZIPLIST_TAIL_OFFSET z1) + int extra) else z1)"
    and z3: "mv z2 (np + length (zipPrevEncodeLength rawlen)) (np + prevsize) (curlen - np - prevsize - 1) = Some z3"
    and w: "wr z3 np (zipPrevEncodeLength rawlen) = Some zl'"
    using assms(1) unfolding cascade_grow_def Let_def bind_eq_Some_conv extra_def [symmetric] by blast
  have "length z1 = curlen + extra" using ziplistResize_Some [OF z1] assms(2) by simp
  then have "length z2 = curlen + extra" using assms(2) by (simp add: z2)
  then have "np + length (zipPrevEncodeLength rawlen) \<le> curlen + extra"
    using mv_Some [OF z3] wr_Some [OF w] by simp
  then show ?thesis by (auto simp: extra_def)
qed

lemma cascade_round_Inr:
  assumes "cascade_round zl p curlen = Some (Inr (zl', p', curlen'))"
  shows "\<exists>cur nx rawlen. zipEntry zl p = Some cur \<and> rawlen = headersize cur + ze_len cur \<and>
    zipEntry zl (p + rawlen) = Some nx \<and> prevrawlensize nx < length (zipPrevEncodeLength rawlen) \<and>
    cascade_grow zl curlen (p + rawlen) rawlen (prevrawlensize nx) = Some zl' \<and>
    p' = p + rawlen \<and> curlen' = curlen + (length (zipPrevEncodeLength rawlen) - prevrawlensize nx)"
  using assms by (auto simp: cascade_round_def Let_def bind_eq_Some_conv split: if_splits)

lemma cascade_round_less:
  assumes "cascade_round zl p curlen = Some (Inr (zl', p', curlen'))" "10 \<le> curlen"
  shows "curlen' - p' < curlen - p \<and> 10 \<le> curlen'"
proof -
  obtain cur nx rawlen where c: "zipEntry zl p = Some cur" "rawlen = headersize cur + ze_len cur"
    "zipEntry zl (p + rawlen) = Some nx" "prevrawlensize nx < length (zipPrevEncodeLength rawlen)"
    "cascade_grow zl curlen (p + rawlen) rawlen (prevrawlensize nx) = Some zl'"
    "p' = p + rawlen" "curlen' = curlen + (length (zipPrevEncodeLength rawlen) - prevrawlensize nx)"
    using cascade_round_Inr [OF assms(1)] by blast
  have "prevrawlensize nx \<ge> 1" using zipEntry_Some [OF c(3)] by auto
  moreover from this c(4) have "rawlen \<ge> 254" by (simp add: length_zipPrevEncodeLength split: if_splits)
  ultimately show ?thesis
    using cascade_grow_Some [OF c(5) assms(2)] c(4,6,7) assms(2) by (auto simp: length_zipPrevEncodeLength split: if_splits)
qed

function cascade_loop :: "bytes \<Rightarrow> nat \<Rightarrow> nat \<Rightarrow> bytes option" where
  "cascade_loop zl p curlen =
    (if curlen < 10 then None
     else do {
       c \<leftarrow> rd1 zl p;
       if c = ZIP_END then Some zl
       else do {
         r \<leftarrow> cascade_round zl p curlen;
         case r of Inl zl \<Rightarrow> Some zl | Inr (zl, p, curlen) \<Rightarrow> cascade_loop zl p curlen
       }
     })"
  by pat_completeness auto
termination by (relation "measure (\<lambda>(_, p, curlen). curlen - p)") (auto dest: cascade_round_less)

declare cascade_loop.simps [simp del]

definition ziplistCascadeUpdate :: "bytes \<Rightarrow> nat \<Rightarrow> bytes option" where
  "ziplistCascadeUpdate zl p = cascade_loop zl p (ZIPLIST_BYTES zl)"

section \<open>Insertion\<close>

text \<open>The length of the entry in front of the insert position.\<close>

definition insert_prevlen :: "bytes \<Rightarrow> nat \<Rightarrow> nat option" where
  "insert_prevlen zl p =
    do {
      c \<leftarrow> rd1 zl p;
      if c \<noteq> ZIP_END then map_option snd (ZIP_DECODE_PREVLEN zl p)
      else do {
        t \<leftarrow> rd1 zl (ZIPLIST_TAIL_OFFSET zl);
        if t \<noteq> ZIP_END then zipRawEntryLength zl (ZIPLIST_TAIL_OFFSET zl) else Some 0
      }
    }"

text \<open>The move that makes room in the resized block, the new \<open>prevlen\<close> of the next entry
  and the tail offset.\<close>

definition insert_move :: "bytes \<Rightarrow> nat \<Rightarrow> nat \<Rightarrow> nat \<Rightarrow> int \<Rightarrow> bytes option" where
  "insert_move zl p curlen reqlen nextdiff =
    do {
      c \<leftarrow> rd1 zl p;
      if c \<noteq> ZIP_END then do {
        zl \<leftarrow> mv zl (p + reqlen) (nat (int p - nextdiff)) (nat (int curlen - int p - 1 + nextdiff));
        zl \<leftarrow> wr zl (p + reqlen) (zipPrevEncodeLength reqlen);
        let zl = set_TAIL_OFFSET zl (int (ZIPLIST_TAIL_OFFSET zl) + int reqlen);
        tail \<leftarrow> zipEntry zl (p + reqlen);
        e \<leftarrow> rd1 zl (p + reqlen + (headersize tail + ze_len tail));
        Some (if e \<noteq> ZIP_END then set_TAIL_OFFSET zl (int (ZIPLIST_TAIL_OFFSET zl) + nextdiff) else zl)
      }
      else Some (set_TAIL_OFFSET zl (int p))
    }"

text \<open>The bytes of the new entry.\<close>

definition insert_write :: "bytes \<Rightarrow> nat \<Rightarrow> nat \<Rightarrow> bytes \<Rightarrow> bytes option" where
  "insert_write zl p prevlen s =
    do {
      let encoding = (case zipTryEncoding s of Some (value, encoding) \<Rightarrow> encoding | None \<Rightarrow> 0);
      let header = zipPrevEncodeLength prevlen @ zipEncodeLength encoding (length s);
      zl \<leftarrow> wr zl p header;
      case zipTryEncoding s of
        None \<Rightarrow> wr zl (p + length header) s
      | Some (value, encoding) \<Rightarrow>
          do { i \<leftarrow> zipSaveInteger value encoding; wr zl (p + length header) i }
    }"

definition ziplistInsert :: "bytes \<Rightarrow> nat \<Rightarrow> bytes \<Rightarrow> bytes option" where
  "ziplistInsert zl p s =
    do {
      let curlen = ZIPLIST_BYTES zl;
      prevlen \<leftarrow> insert_prevlen zl p;
      let encoding = (case zipTryEncoding s of Some (value, encoding) \<Rightarrow> encoding | None \<Rightarrow> 0);
      let reqlen = (if zipTryEncoding s \<noteq> None then zipIntSize encoding else length s)
        + length (zipPrevEncodeLength prevlen) + length (zipEncodeLength encoding (length s));
      c \<leftarrow> rd1 zl p;
      nextdiff \<leftarrow> (if c \<noteq> ZIP_END then zipPrevLenByteDiff zl p reqlen else Some 0);
      zl \<leftarrow> ziplistResize zl (nat (int (curlen + reqlen) + nextdiff));
      zl \<leftarrow> insert_move zl p curlen reqlen nextdiff;
      zl \<leftarrow> (if nextdiff \<noteq> 0 then ziplistCascadeUpdate zl (p + reqlen) else Some zl);
      zl \<leftarrow> insert_write zl p prevlen s;
      Some (ZIPLIST_INCR_LENGTH zl 1)
    }"

abbreviation ZIPLIST_HEAD :: int where "ZIPLIST_HEAD \<equiv> 0"

definition ziplistPush :: "bytes \<Rightarrow> bytes \<Rightarrow> int \<Rightarrow> bytes option" where
  "ziplistPush zl s whr =
    ziplistInsert zl (if whr = ZIPLIST_HEAD then ZIPLIST_HEADER_SIZE else ZIPLIST_ENTRY_END zl) s"

section \<open>Deletion\<close>

lemma zipRawEntryLength_Some: "zipRawEntryLength zl p = Some n \<Longrightarrow> p < length zl \<and> 2 \<le> n"
  by (auto simp: zipRawEntryLength_def bind_eq_Some_conv dest!: DECODE_PREVLENSIZE_Some DECODE_LENGTH_Some)

text \<open>The loop that skips up to \<open>num\<close> entries: the pointer and the number of entries.\<close>

primrec skip_entries :: "bytes \<Rightarrow> nat \<Rightarrow> nat \<Rightarrow> (nat \<times> nat) option" where
  "skip_entries zl 0 p = do { c \<leftarrow> rd1 zl p; Some (p, 0) }"
| "skip_entries zl (Suc num) p =
    do {
      c \<leftarrow> rd1 zl p;
      if c = ZIP_END then Some (p, 0)
      else do {
        l \<leftarrow> zipRawEntryLength zl p;
        (p, deleted) \<leftarrow> skip_entries zl num (p + l);
        Some (p, deleted + 1)
      }
    }"

text \<open>An entry is left behind the deleted ones: its new \<open>prevlen\<close>, the tail offset and the
  move to the front; the result is the block and \<open>nextdiff\<close>.\<close>

definition delete_move :: "bytes \<Rightarrow> nat \<Rightarrow> nat \<Rightarrow> nat \<Rightarrow> nat \<Rightarrow> (bytes \<times> int) option" where
  "delete_move zl p0 p totlen prevlen =
    do {
      nextdiff \<leftarrow> zipPrevLenByteDiff zl p prevlen;
      let p = nat (int p - nextdiff);
      zl \<leftarrow> wr zl p (zipPrevEncodeLength prevlen);
      let zl = set_TAIL_OFFSET zl (int (ZIPLIST_TAIL_OFFSET zl) - int totlen);
      tail \<leftarrow> zipEntry zl p;
      e \<leftarrow> rd1 zl (p + (headersize tail + ze_len tail));
      let zl = (if e \<noteq> ZIP_END then set_TAIL_OFFSET zl (int (ZIPLIST_TAIL_OFFSET zl) + nextdiff) else zl);
      zl \<leftarrow> mv zl p0 p (ZIPLIST_BYTES zl - p - 1);
      Some (zl, nextdiff)
    }"

definition ziplistDelete_num :: "bytes \<Rightarrow> nat \<Rightarrow> nat \<Rightarrow> bytes option" where
  "ziplistDelete_num zl p0 num =
    do {
      first \<leftarrow> zipEntry zl p0;
      (p, deleted) \<leftarrow> skip_entries zl num p0;
      let totlen = p - p0;
      if totlen > 0 then do {
        c \<leftarrow> rd1 zl p;
        (zl, nextdiff) \<leftarrow>
          (if c \<noteq> ZIP_END then delete_move zl p0 p totlen (prevrawlen first)
           else Some (set_TAIL_OFFSET zl (int p0 - int (prevrawlen first)), 0));
        zl \<leftarrow> ziplistResize zl (nat (int (ZIPLIST_BYTES zl) - int totlen + nextdiff));
        let zl = ZIPLIST_INCR_LENGTH zl (- int deleted);
        if nextdiff \<noteq> 0 then ziplistCascadeUpdate zl p0 else Some zl
      }
      else Some zl
    }"

text \<open>The offset of the caller's pointer does not change.\<close>

definition ziplistDelete :: "bytes \<Rightarrow> nat \<Rightarrow> (bytes \<times> nat) option" where
  "ziplistDelete zl p = do { zl \<leftarrow> ziplistDelete_num zl p 1; Some (zl, p) }"

section \<open>Traversal\<close>

text \<open>\<open>while (prevlen > 0 && index--)\<close>, from the tail: the pointer and the index left.\<close>

function index_back :: "bytes \<Rightarrow> nat \<Rightarrow> nat \<Rightarrow> int \<Rightarrow> (nat \<times> int) option" where
  "index_back zl p prevlen index =
    (if prevlen > 0 then
       (if index \<noteq> 0 then
          (if prevlen \<le> p then
             do { (ps, pl) \<leftarrow> ZIP_DECODE_PREVLEN zl (p - prevlen);
                  index_back zl (p - prevlen) pl (index - 1) }
           else None)
        else Some (p, index - 1))
     else Some (p, index))"
  by pat_completeness auto
termination by (relation "measure (\<lambda>(zl, p, prevlen, index). p)") auto

text \<open>\<open>while (p[0] != ZIP_END && index--)\<close>, from the head.\<close>

function index_forward :: "bytes \<Rightarrow> nat \<Rightarrow> int \<Rightarrow> (nat \<times> int) option" where
  "index_forward zl p index =
    do {
      c \<leftarrow> rd1 zl p;
      if c \<noteq> ZIP_END then
        (if index \<noteq> 0 then
           do { l \<leftarrow> zipRawEntryLength zl p; index_forward zl (p + l) (index - 1) }
         else Some (p, index - 1))
      else Some (p, index)
    }"
  by pat_completeness auto
termination
  by (relation "measure (\<lambda>(zl, p, index). length zl - p)") (auto dest!: zipRawEntryLength_Some)

declare index_back.simps [simp del] index_forward.simps [simp del]

text \<open>The inner option is the returned pointer or \<open>NULL\<close>.\<close>

definition ziplistIndex :: "bytes \<Rightarrow> int \<Rightarrow> nat option option" where
  "ziplistIndex zl index =
    do {
      (p, index) \<leftarrow>
        (if index < 0 then do {
           let index = - index - 1;
           let p = ZIPLIST_TAIL_OFFSET zl;
           c \<leftarrow> rd1 zl p;
           if c \<noteq> ZIP_END then
             do { (ps, pl) \<leftarrow> ZIP_DECODE_PREVLEN zl p; index_back zl p pl index }
           else Some (p, index)
         }
         else index_forward zl ZIPLIST_HEADER_SIZE index);
      c \<leftarrow> rd1 zl p;
      Some (if c = ZIP_END \<or> index > 0 then None else Some p)
    }"

definition ziplistNext :: "bytes \<Rightarrow> nat \<Rightarrow> nat option option" where
  "ziplistNext zl p =
    do {
      c \<leftarrow> rd1 zl p;
      if c = ZIP_END then Some None
      else do {
        l \<leftarrow> zipRawEntryLength zl p;
        c \<leftarrow> rd1 zl (p + l);
        Some (if c = ZIP_END then None else Some (p + l))
      }
    }"

definition ziplistPrev :: "bytes \<Rightarrow> nat \<Rightarrow> nat option option" where
  "ziplistPrev zl p =
    do {
      c \<leftarrow> rd1 zl p;
      if c = ZIP_END then do {
        let p = ZIPLIST_TAIL_OFFSET zl;
        t \<leftarrow> rd1 zl p;
        Some (if t = ZIP_END then None else Some p)
      }
      else if p = ZIPLIST_HEADER_SIZE then Some None
      else do {
        (ps, prevlen) \<leftarrow> ZIP_DECODE_PREVLEN zl p;
        if prevlen > 0 \<and> prevlen \<le> p then Some (Some (p - prevlen)) else None
      }
    }"

text \<open>The value of an entry: a string or an integer; \<open>Some None\<close> is the result 0.\<close>

datatype zvalue = ZStr bytes | ZInt int

definition ziplistGet :: "bytes \<Rightarrow> nat \<Rightarrow> zvalue option option" where
  "ziplistGet zl p =
    do {
      c \<leftarrow> rd1 zl p;
      if c = ZIP_END then Some None
      else do {
        entry \<leftarrow> zipEntry zl p;
        if ZIP_IS_STR (ze_encoding entry)
        then do { x \<leftarrow> rd zl (p + headersize entry) (ze_len entry); Some (Some (ZStr x)) }
        else do { v \<leftarrow> zipLoadInteger zl (p + headersize entry) (ze_encoding entry); Some (Some (ZInt v)) }
      }
    }"

text \<open>The \<open>unsigned int\<close> index is handed to the \<open>int\<close> parameter of \<open>ziplistIndex\<close>, so that
  \<open>-1\<close> reaches it as the index of the last entry.\<close>

definition ziplistDeleteRange :: "bytes \<Rightarrow> nat \<Rightarrow> nat \<Rightarrow> bytes option" where
  "ziplistDeleteRange zl index num =
    do { p \<leftarrow> ziplistIndex zl (to_int32 index);
         case p of None \<Rightarrow> Some zl | Some p \<Rightarrow> ziplistDelete_num zl p num }"

definition ziplistCompare :: "bytes \<Rightarrow> nat \<Rightarrow> bytes \<Rightarrow> bool option" where
  "ziplistCompare zl p sstr =
    do {
      c \<leftarrow> rd1 zl p;
      if c = ZIP_END then Some False
      else do {
        entry \<leftarrow> zipEntry zl p;
        if ZIP_IS_STR (ze_encoding entry) then
          (if ze_len entry = length sstr
           then do { x \<leftarrow> rd zl (p + headersize entry) (ze_len entry); Some (x = sstr) }
           else Some False)
        else
          (case zipTryEncoding sstr of
             None \<Rightarrow> Some False
           | Some (sval, _) \<Rightarrow>
               do { zval \<leftarrow> zipLoadInteger zl (p + headersize entry) (ze_encoding entry); Some (zval = sval) })
      }
    }"

text \<open>\<open>ziplistFind\<close>: the code computes the encoding of \<open>vstr\<close> the first time it meets an
  integer entry and keeps it; it depends on \<open>vstr\<close> only.\<close>

function ziplistFind_loop :: "bytes \<Rightarrow> nat \<Rightarrow> bytes \<Rightarrow> nat \<Rightarrow> nat \<Rightarrow> nat option option" where
  "ziplistFind_loop zl p vstr skip skipcnt =
    do {
      c \<leftarrow> rd1 zl p;
      if c = ZIP_END then Some None
      else do {
        prevlensize \<leftarrow> ZIP_DECODE_PREVLENSIZE zl p;
        (encoding, lensize, l) \<leftarrow> ZIP_DECODE_LENGTH zl (p + prevlensize);
        let q = p + prevlensize + lensize;
        found \<leftarrow>
          (if skipcnt = 0 then
             (if ZIP_IS_STR encoding then
                (if l = length vstr then do { x \<leftarrow> rd zl q l; Some (x = vstr) } else Some False)
              else
                (case zipTryEncoding vstr of
                   None \<Rightarrow> Some False
                 | Some (vll, _) \<Rightarrow> do { ll \<leftarrow> zipLoadInteger zl q encoding; Some (ll = vll) }))
           else Some False);
        if found then Some (Some p)
        else ziplistFind_loop zl (q + l) vstr skip (if skipcnt = 0 then skip else skipcnt - 1)
      }
    }"
  by pat_completeness auto
termination
  by (relation "measure (\<lambda>(zl, p, vstr, skip, skipcnt). length zl - p)")
    (auto dest!: DECODE_PREVLENSIZE_Some DECODE_LENGTH_Some)

declare ziplistFind_loop.simps [simp del]

definition ziplistFind :: "bytes \<Rightarrow> nat \<Rightarrow> bytes \<Rightarrow> nat \<Rightarrow> nat option option" where
  "ziplistFind zl p vstr skip = ziplistFind_loop zl p vstr skip 0"

function count_entries :: "bytes \<Rightarrow> nat \<Rightarrow> nat option" where
  "count_entries zl p =
    do {
      c \<leftarrow> rd1 zl p;
      if c = ZIP_END then Some 0
      else do { l \<leftarrow> zipRawEntryLength zl p; n \<leftarrow> count_entries zl (p + l); Some (n + 1) }
    }"
  by pat_completeness auto
termination
  by (relation "measure (\<lambda>(zl, p). length zl - p)") (auto dest!: zipRawEntryLength_Some)

declare count_entries.simps [simp del]

text \<open>The length, and the ziplist in which it may have been stored again.\<close>

definition ziplistLen :: "bytes \<Rightarrow> (nat \<times> bytes) option" where
  "ziplistLen zl =
    (if ZIPLIST_LENGTH zl < 65535 then Some (ZIPLIST_LENGTH zl, zl)
     else do {
       n \<leftarrow> count_entries zl ZIPLIST_HEADER_SIZE;
       Some (n, if n < 65535 then set_LENGTH zl (int n) else zl)
     })"

definition ziplistBlobLen :: "bytes \<Rightarrow> nat" where
  "ziplistBlobLen zl = ZIPLIST_BYTES zl"

end
