(* ===== verification/ZiplistSpec.thy ===== *)
theory ZiplistSpec
  imports Ziplist
begin

text \<open>
  What a ziplist represents.  \<open>entry_bytes\<close> is the layout of one entry, given the width of its
  \<open>prevlen\<close> field, the value in it and the string it holds; \<open>zl_rep zl es\<close> says that the block
  \<open>zl\<close> is the layout of the entries \<open>es\<close> with a correct header.  The operations are shown to
  keep this and to act on the list of strings as on a list.
\<close>

section \<open>Accesses to concatenated blocks\<close>

lemma rd1_at: "rd1 (P @ x # R) (length P) = Some x"
  by (simp add: rd1_def)

lemma rd1_at': "p = length P \<Longrightarrow> rd1 (P @ x # R) p = Some x"
  by (simp add: rd1_at)

lemma rd_at: "p = length P \<Longrightarrow> n = length xs \<Longrightarrow> rd (P @ xs @ R) p n = Some xs"
  by (simp add: rd_def buf_get_def)

lemma wr_at: "p = length P \<Longrightarrow> length xs = length ys \<Longrightarrow> wr (P @ xs @ R) p ys = Some (P @ ys @ R)"
  by (simp add: wr_def buf_put_def)

lemma mv_at:
  assumes "b = X @ Y" "d = length X" "b = U @ Z @ V" "s = length U" "n = length Z" "n \<le> length Y"
  shows "mv b d s n = Some (X @ Z @ drop n Y)"
proof -
  have "buf_get b s n = Z" unfolding assms(3) using assms(4,5) by (simp add: buf_get_def)
  moreover have "d + n \<le> length b" using assms(1,2,6) by simp
  moreover have "s + n \<le> length b" unfolding assms(3) using assms(4,5) by simp
  ultimately have "mv b d s n = Some (buf_put b d Z)" by (simp add: mv_def memmove_def)
  then show ?thesis using assms(1,2,5) by (simp add: buf_put_def)
qed

section \<open>The layout of an entry\<close>

definition prev_bytes :: "bool \<Rightarrow> nat \<Rightarrow> bytes" where
  "prev_bytes big n = (if big then 254 # le_bytes 4 (int n) else [of_nat n])"

definition enc_of :: "bytes \<Rightarrow> u8" where
  "enc_of s = (case zipTryEncoding s of Some (v, e) \<Rightarrow> e | None \<Rightarrow> 0)"

definition payload :: "bytes \<Rightarrow> bytes" where
  "payload s = (case zipTryEncoding s of Some (v, e) \<Rightarrow> the (zipSaveInteger v e) | None \<Rightarrow> s)"

definition enc_str :: "bytes \<Rightarrow> bytes" where
  "enc_str s = zipEncodeLength (enc_of s) (length s) @ payload s"

type_synonym zraw = "bool \<times> nat \<times> bytes"

definition entry_bytes :: "zraw \<Rightarrow> bytes" where
  "entry_bytes e = prev_bytes (fst e) (fst (snd e)) @ enc_str (snd (snd e))"

definition raw_ok :: "zraw \<Rightarrow> bool" where
  "raw_ok e \<longleftrightarrow> (fst e \<or> fst (snd e) < 254) \<and> fst (snd e) < 4294967296 \<and> length (snd (snd e)) < 4294967296"

text \<open>\<open>ent_len\<close> is the number of bytes of an entry.\<close>

definition ent_len :: "zraw \<Rightarrow> nat" where
  "ent_len e = length (entry_bytes e)"

lemma length_prev_bytes: "length (prev_bytes big n) = (if big then 5 else 1)"
  by (simp add: prev_bytes_def)

lemma int_encodings:
  assumes "zipTryEncoding s = Some (v, e)"
  shows "\<not> ZIP_IS_STR e" "\<not> e < 0xC0" "zipSaveInteger v e \<noteq> None" "zipIntSize e = length (the (zipSaveInteger v e))"
    "is_int64 v" "s = ll_repr v"
proof -
  have v: "string2ll s = Some v" using assms by (auto simp: zipTryEncoding_def split: if_splits option.splits)
  then show "is_int64 v" "s = ll_repr v" by (simp_all add: string2ll_iff)
  have immbits: "\<forall>n \<in> set [0..12]. \<not> ZIP_IS_STR (0xF1 + word_of_int n) \<and> \<not> 0xF1 + word_of_int n < (0xC0 :: u8) \<and>
      0xF1 \<le> (0xF1 + word_of_int n :: u8) \<and> 0xF1 + word_of_int n \<le> (0xFD :: u8)"
    by code_simp
  consider (imm) "0 \<le> v" "v \<le> 12" "e = 0xF1 + word_of_int v" | (std) "e \<in> {0xFE, 0xC0, 0xF0, 0xD0, 0xE0}"
    using assms v by (auto simp: zipTryEncoding_def split: if_splits)
  then have "\<not> ZIP_IS_STR e \<and> \<not> e < 0xC0 \<and> zipSaveInteger v e \<noteq> None \<and> zipIntSize e = length (the (zipSaveInteger v e))"
  proof cases
    case imm
    have "v \<in> set [0..12]" using imm(1,2) by simp
    with immbits have e: "\<not> ZIP_IS_STR e" "\<not> e < 0xC0" "0xF1 \<le> e" "e \<le> 0xFD" using imm(3) by simp_all
    then have "e \<noteq> 0xFE" "e \<noteq> 0xC0" "e \<noteq> 0xF0" "e \<noteq> 0xD0" "e \<noteq> 0xE0" by auto
    then show ?thesis using e by (simp add: zipSaveInteger_def zipIntSize_def)
  next
    case std
    then show ?thesis by (auto simp: zipSaveInteger_def zipIntSize_def ZIP_IS_STR_def)
  qed
  then show "\<not> ZIP_IS_STR e" "\<not> e < 0xC0" "zipSaveInteger v e \<noteq> None" "zipIntSize e = length (the (zipSaveInteger v e))"
    by simp_all
qed

lemma str_len_bits:
  "\<forall>n \<in> set [0..<64].
    (of_nat n :: u8) < 0xC0 \<and> (of_nat n :: u8) AND 0xC0 = 0 \<and> unat ((of_nat n :: u8) AND 0x3F) = n \<and>
    (0x40 OR (of_nat n AND 0x3F) :: u8) < 0xC0 \<and> (0x40 OR (of_nat n AND 0x3F) :: u8) AND 0xC0 = 0x40 \<and>
    unat ((0x40 OR (of_nat n AND 0x3F) :: u8) AND 0x3F) = n"
  by code_simp

text \<open>The number of header bytes in front of the payload.\<close>

definition ls_of :: "bytes \<Rightarrow> nat" where
  "ls_of s = length (zipEncodeLength (enc_of s) (length s))"

text \<open>The encoding \<open>ZIP_DECODE_LENGTH\<close> returns: for a string its two width bits.\<close>

definition dec_enc :: "bytes \<Rightarrow> u8" where
  "dec_enc s =
    (if zipTryEncoding s \<noteq> None then enc_of s
     else if length s \<le> 0x3F then 0 else if length s \<le> 0x3FFF then 0x40 else 0x80)"

lemma le_bytes_4: "le_bytes 4 v =
    [word_of_int v, word_of_int (v div 256), word_of_int (v div 256 div 256), word_of_int (v div 256 div 256 div 256)]"
proof -
  have "(4 :: nat) = Suc (Suc (Suc (Suc 0)))" by simp
  then show ?thesis by (simp only: le_bytes.simps)
qed

lemma uint_of_be: "n < 4294967296 \<Longrightarrow>
    uint_of (rev [of_nat (n div 16777216), of_nat (n div 65536), of_nat (n div 256), of_nat n :: u8]) = n"
proof -
  assume n: "n < 4294967296"
  have e: "n div 65536 = n div 256 div 256" "n div 16777216 = n div 256 div 256 div 256"
    by (simp_all flip: div_mult2_eq)
  have d: "int m div 256 = int (m div 256)" and w: "word_of_int (int m) = (of_nat m :: u8)" for m
    by (simp_all add: zdiv_int)
  have "[of_nat n :: u8, of_nat (n div 256), of_nat (n div 65536), of_nat (n div 16777216)] = le_bytes 4 (int n)"
    by (simp only: le_bytes_4 d w e)
  then show ?thesis using n by (simp add: uint_of_def le_uint_bytes)
qed

lemma decode_length:
  assumes "length s < 4294967296" "p = length P"
  shows "ZIP_DECODE_LENGTH (P @ enc_str s @ R) p = Some (dec_enc s, ls_of s, length (payload s))"
proof (cases "zipTryEncoding s")
  case (Some ve)
  obtain v e where ve: "ve = (v, e)" by (cases ve)
  note i = int_encodings [OF Some [unfolded ve]]
  have "enc_str s = [e] @ payload s" using Some ve i(1) by (simp add: enc_str_def enc_of_def zipEncodeLength_def)
  then show ?thesis
    using Some ve i assms(2)
    by (simp add: ZIP_DECODE_LENGTH_def rd1_at' dec_enc_def enc_of_def ls_of_def payload_def zipEncodeLength_def)
next
  case None
  define n where "n = length s"
  have e: "enc_of s = 0" "payload s = s" "ZIP_IS_STR 0" using None by (simp_all add: enc_of_def payload_def ZIP_IS_STR_def)
  consider (a) "n \<le> 0x3F" | (b) "\<not> n \<le> 0x3F" "n \<le> 0x3FFF" | (c) "\<not> n \<le> 0x3F" "\<not> n \<le> 0x3FFF" by blast
  then show ?thesis
  proof cases
    case a
    then have "n \<in> set [0..<64]" by simp
    note b = str_len_bits [THEN bspec, OF this]
    have "enc_str s = of_nat n # s" using a e by (simp add: enc_str_def zipEncodeLength_def n_def)
    then show ?thesis
      using b a None e assms(2) by (simp add: ZIP_DECODE_LENGTH_def rd1_at' dec_enc_def ls_of_def zipEncodeLength_def Let_def flip: n_def)
  next
    case b
    define h where "h = n div 256"
    have "h \<in> set [0..<64]" using b by (simp add: h_def)
    note bits = str_len_bits [THEN bspec, OF this]
    define c where "c = (0x40 OR (of_nat h AND 0x3F) :: u8)"
    have "enc_str s = c # of_nat n # s"
      using b e by (simp add: enc_str_def zipEncodeLength_def byte_and_255 c_def h_def flip: n_def)
    moreover have "h * 256 + n mod 256 = n" by (simp add: h_def)
    moreover have "rd1 (P @ c # of_nat n # s @ R) (Suc (length P)) = Some (of_nat n)"
      using rd1_at' [of "Suc (length P)" "P @ [c]" "of_nat n" "s @ R"] by simp
    ultimately show ?thesis
      using bits b None e assms(2)
      by (simp add: ZIP_DECODE_LENGTH_def rd1_at' dec_enc_def ls_of_def zipEncodeLength_def Let_def unat_of_nat
          flip: n_def c_def)
  next
    case c
    define l where "l = [of_nat (n div 16777216), of_nat (n div 65536), of_nat (n div 256), of_nat n :: u8]"
    have "enc_str s = 0x80 # l @ s"
      using c e by (simp add: enc_str_def zipEncodeLength_def byte_and_255 l_def flip: n_def)
    moreover have "rd (P @ 0x80 # l @ s @ R) (Suc (length P)) 4 = Some l"
      using rd_at [of "Suc (length P)" "P @ [0x80]" 4 l "s @ R"] by (simp add: l_def)
    moreover have "uint_of (rev l) = n" using uint_of_be [of n] assms(1) by (simp add: l_def n_def)
    ultimately show ?thesis
      using c None e assms(2)
      by (simp add: ZIP_DECODE_LENGTH_def rd1_at' dec_enc_def ls_of_def zipEncodeLength_def Let_def flip: n_def)
  qed
qed

lemma prev_size: "p = length P \<Longrightarrow> raw_ok e \<Longrightarrow>
    ZIP_DECODE_PREVLENSIZE (P @ entry_bytes e @ R) p = Some (if fst e then 5 else 1)"
  by (cases e) (auto simp: ZIP_DECODE_PREVLENSIZE_def entry_bytes_def prev_bytes_def rd1_at' raw_ok_def unat_of_nat)

lemma decode_prevlen:
  assumes "p = length P" "raw_ok e"
  shows "ZIP_DECODE_PREVLEN (P @ entry_bytes e @ R) p = Some (if fst e then 5 else 1, fst (snd e))"
proof (cases "fst e")
  case True
  define l where "l = le_bytes 4 (int (fst (snd e)))"
  have "rd (P @ entry_bytes e @ R) (p + 1) 4 = Some l"
    using rd_at [of "p + 1" "P @ [254]" 4 l "enc_str (snd (snd e)) @ R"] assms(1) True
    by (simp add: entry_bytes_def prev_bytes_def l_def)
  moreover have "uint_of l = fst (snd e)" using assms(2) by (simp add: l_def uint_of_def le_uint_bytes raw_ok_def)
  ultimately show ?thesis using True prev_size [OF assms, of R] by (simp add: ZIP_DECODE_PREVLEN_def)
next
  case False
  have "(P @ entry_bytes e @ R) ! p = of_nat (fst (snd e))"
    using False assms(1) by (simp add: entry_bytes_def prev_bytes_def)
  then show ?thesis
    using False prev_size [OF assms, of R] assms(2) by (simp add: ZIP_DECODE_PREVLEN_def unat_of_nat raw_ok_def)
qed

lemma length_enc_str: "length (enc_str s) = ls_of s + length (payload s)"
  by (simp add: enc_str_def ls_of_def)

lemma ent_len_eq: "ent_len e = (if fst e then 5 else 1) + ls_of (snd (snd e)) + length (payload (snd (snd e)))"
  by (simp add: ent_len_def entry_bytes_def length_prev_bytes length_enc_str)

lemma decode_entry_length:
  assumes "p = length P" "raw_ok e"
  shows "ZIP_DECODE_LENGTH (P @ entry_bytes e @ R) (p + (if fst e then 5 else 1)) =
    Some (dec_enc (snd (snd e)), ls_of (snd (snd e)), length (payload (snd (snd e))))"
  using decode_length [of "snd (snd e)" "p + (if fst e then 5 else 1)" "P @ prev_bytes (fst e) (fst (snd e))" R] assms
  by (simp add: entry_bytes_def length_prev_bytes raw_ok_def)

lemma zipEntry_at:
  assumes "p = length P" "raw_ok e"
  shows "zipEntry (P @ entry_bytes e @ R) p = Some
    \<lparr>prevrawlensize = (if fst e then 5 else 1), prevrawlen = fst (snd e), lensize = ls_of (snd (snd e)),
     ze_len = length (payload (snd (snd e))), headersize = (if fst e then 5 else 1) + ls_of (snd (snd e)),
     ze_encoding = dec_enc (snd (snd e))\<rparr>"
  using decode_prevlen [OF assms, of R] decode_entry_length [OF assms, of R] by (simp add: zipEntry_def)

lemma zipRawEntryLength_at:
  assumes "p = length P" "raw_ok e"
  shows "zipRawEntryLength (P @ entry_bytes e @ R) p = Some (ent_len e)"
  using prev_size [OF assms, of R] decode_entry_length [OF assms, of R]
  by (simp add: zipRawEntryLength_def ent_len_eq)

lemma entry_first:
  assumes "raw_ok e"
  obtains c cs where "entry_bytes e = c # cs" "c \<noteq> ZIP_END"
proof -
  have "(of_nat n :: u8) \<noteq> 255" if "n < 254" for n
  proof
    assume "(of_nat n :: u8) = 255"
    then have "unat (of_nat n :: u8) = 255" by simp
    then show False using that by (simp add: unat_of_nat)
  qed
  with assms that show thesis
    by (cases "fst e") (auto simp: entry_bytes_def prev_bytes_def raw_ok_def)
qed

text \<open>What follows an entry: another one or the end byte.\<close>

definition entries :: "zraw list \<Rightarrow> bytes" where
  "entries es = concat (map entry_bytes es)"

lemma entries_simps [simp]:
  "entries [] = []" "entries (e # es) = entry_bytes e @ entries es" "entries (as @ bs) = entries as @ entries bs"
  by (simp_all add: entries_def)

lemma length_entry_bytes [simp]: "length (entry_bytes e) = ent_len e"
  by (simp add: ent_len_def)

lemma at_end: "p = length P \<Longrightarrow> rd1 (P @ [ZIP_END]) p = Some ZIP_END"
  using rd1_at' [of p P ZIP_END "[]"] by simp

lemma at_entry:
  assumes "p = length P" "raw_ok e"
  shows "\<exists>c. rd1 (P @ entry_bytes e @ R) p = Some c \<and> c \<noteq> ZIP_END"
  using assms entry_first [OF assms(2)] by (metis append_Cons rd1_at')

section \<open>The header\<close>

definition mk_zl :: "int \<Rightarrow> int \<Rightarrow> int \<Rightarrow> bytes \<Rightarrow> bytes" where
  "mk_zl tot tail n body = le_bytes 4 tot @ le_bytes 4 tail @ le_bytes 2 n @ body"

lemma mk_zl_append: "mk_zl t a n (x @ y) = mk_zl t a n x @ y"
  by (simp add: mk_zl_def)

lemma length_mk_zl [simp]: "length (mk_zl t a n b) = 10 + length b"
  by (simp add: mk_zl_def)

lemma header_get [simp]:
  "ZIPLIST_BYTES (mk_zl t a n b) = nat (t mod 4294967296)"
  "ZIPLIST_TAIL_OFFSET (mk_zl t a n b) = nat (a mod 4294967296)"
  "ZIPLIST_LENGTH (mk_zl t a n b) = nat (n mod 65536)"
  by (simp_all add: ZIPLIST_BYTES_def ZIPLIST_TAIL_OFFSET_def ZIPLIST_LENGTH_def mk_zl_def buf_get_def uint_of_def
      le_uint_bytes)

lemma header_set [simp]:
  "set_BYTES (mk_zl t a n b) v = mk_zl v a n b"
  "set_TAIL_OFFSET (mk_zl t a n b) v = mk_zl t v n b"
  "set_LENGTH (mk_zl t a n b) v = mk_zl t a v b"
  by (simp_all add: set_BYTES_def set_TAIL_OFFSET_def set_LENGTH_def mk_zl_def buf_put_def)

lemma resize_mk_zl:
  assumes "11 \<le> m"
  shows "ziplistResize (mk_zl t a n b) m = Some (mk_zl (int m) a n (take (m - 11) b @ replicate (m - 11 - length b) 0 @ [255]))"
proof -
  define b' where "b' = take (m - 10) b @ replicate (m - 10 - length b) 0"
  have r: "buf_resize (mk_zl t a n b) m = mk_zl t a n b'"
    using assms by (simp add: buf_resize_def mk_zl_def b'_def)
  have l: "length b' = m - 10" using assms by (simp add: b'_def)
  have "b' = take (m - 11) b' @ drop (m - 11) b'" by simp
  moreover have "take (m - 11) b' = take (m - 11) b @ replicate (m - 11 - length b) 0"
    by (simp add: b'_def min_def)
  moreover obtain y where "drop (m - 11) b' = [y]"
  proof -
    have "length (drop (m - 11) b') = Suc 0" using l assms by simp
    then have "\<exists>y. drop (m - 11) b' = [y]" by (simp only: length_Suc_conv length_0_conv) blast
    then show thesis using that by blast
  qed
  ultimately have b': "b' = (take (m - 11) b @ replicate (m - 11 - length b) 0) @ [y] @ []" by simp
  have "wr (mk_zl (int m) a n b') (m - 1) [255] = Some (mk_zl (int m) a n (take (m - 11) b @ replicate (m - 11 - length b) 0 @ [255]))"
    unfolding b' mk_zl_append
    by (subst wr_at) (use assms in \<open>auto simp flip: mk_zl_append\<close>)
  then show ?thesis by (simp add: ziplistResize_def r)
qed

section \<open>The cascade\<close>

lemma zipPrev_bytes: "zipPrevEncodeLength n = prev_bytes (254 \<le> n) n"
  by (simp add: zipPrevEncodeLength_def prev_bytes_def)

lemma zipPrev_large: "zipPrevEncodeLengthForceLarge n = prev_bytes True n"
  by (simp add: zipPrevEncodeLengthForceLarge_def prev_bytes_def)

lemma cascade_grow_at:
  assumes "np = 10 + length Q" "cl = length (mk_zl T A N (Q @ [m] @ R @ [255]))" "cl + 4 < 4294967296"
    and "254 \<le> L" "A < 4294967296" "0 \<le> A"
  shows "cascade_grow (mk_zl T A N (Q @ [m] @ R @ [255])) cl np L 1 =
    Some (mk_zl (int cl + 4) (if nat A \<noteq> np then A + 4 else A) N (Q @ prev_bytes True L @ R @ [255]))"
proof -
  define A' where "A' = (if nat A \<noteq> np then A + 4 else A)"
  have sz: "length (zipPrevEncodeLength L) = 5" using assms(4) by (simp add: zipPrev_bytes length_prev_bytes)
  have cl: "cl = length Q + length R + 12" using assms(2) by simp
  have body: "take (cl + 4 - 11) (Q @ [m] @ R @ [255]) @ replicate (cl + 4 - 11 - length (Q @ [m] @ R @ [255])) 0 @ [255] =
      Q @ [m] @ R @ [255] @ [0, 0, 0, 255 :: u8]"
    by (simp add: cl numeral_3_eq_3)
  have r: "ziplistResize (mk_zl T A N (Q @ [m] @ R @ [255])) (cl + 4) =
      Some (mk_zl (int cl + 4) A N (Q @ [m] @ R @ [255] @ [0, 0, 0, 255]))"
    using resize_mk_zl [of "cl + 4" T A N "Q @ [m] @ R @ [255]"] cl unfolding body by simp
  define z where "z = mk_zl (int cl + 4) A' N (Q @ [m] @ R @ [255, 0, 0, 0, 255])"
  define five where "five = take 5 ([m] @ R @ [255, 0, 0, 0, 255])"
  define rest where "rest = drop 5 ([m] @ R @ [255, 0, 0, 0, 255])"
  have five: "length five = 5" by (simp add: five_def)
  have rest: "length rest = length R + 1" by (simp add: rest_def)
  have split: "[m] @ R @ [255, 0, 0, 0, 255] = five @ rest" unfolding five_def rest_def by (rule append_take_drop_id [symmetric])
  define Y where "Y = [m] @ R @ [255, 0, 0, 0 :: u8]"
  have Y: "length Y = length R + 5" "[m] @ R @ [255, 0, 0, 0, 255] = Y @ [255]" by (simp_all add: Y_def)
  have "drop (length R) rest = drop (length R + 5) (Y @ [255])" unfolding rest_def drop_drop Y(2) ..
  then have last: "drop (length R) rest = [255]" using Y(1) by simp
  have "mv z (np + 5) (np + 1) (length R) = Some (mk_zl (int cl + 4) A' N (Q @ five) @ R @ drop (length R) rest)"
  proof (rule mv_at)
    show "z = mk_zl (int cl + 4) A' N (Q @ five) @ rest" unfolding z_def split by (simp add: mk_zl_append)
    show "z = mk_zl (int cl + 4) A' N (Q @ [m]) @ R @ [255, 0, 0, 0, 255]" unfolding z_def by (simp flip: mk_zl_append)
  qed (use assms(1) five rest in simp_all)
  then have m: "mv z (np + 5) (np + 1) (length R) = Some (mk_zl (int cl + 4) A' N Q @ five @ R @ [255])"
    by (simp add: last mk_zl_append)
  have w: "wr (mk_zl (int cl + 4) A' N Q @ five @ R @ [255]) np (zipPrevEncodeLength L) =
      Some (mk_zl (int cl + 4) A' N Q @ zipPrevEncodeLength L @ R @ [255])"
    by (rule wr_at) (simp_all add: assms(1) five sz)
  have n: "cl - np - 1 - 1 = length R" using assms(1) cl by simp
  define z1 where "z1 = mk_zl (int cl + 4) A N (Q @ [m] @ R @ [255] @ [0, 0, 0, 255])"
  have "nat (A mod 4294967296) = nat A" using assms(5,6) by simp
  then have t: "(if ZIPLIST_TAIL_OFFSET z1 \<noteq> np then set_TAIL_OFFSET z1 (int (ZIPLIST_TAIL_OFFSET z1) + int (5 - 1)) else z1) = z"
    using assms(6) by (simp add: z1_def z_def A'_def)
  have r': "ziplistResize (mk_zl T A N (Q @ [m] @ R @ [255])) (cl + (5 - 1)) = Some z1"
    using r by (simp add: z1_def)
  have "cascade_grow (mk_zl T A N (Q @ [m] @ R @ [255])) cl np L 1 =
      Some (mk_zl (int cl + 4) A' N Q @ zipPrevEncodeLength L @ R @ [255])"
    unfolding cascade_grow_def sz Let_def by (simp only: r' bind.bind_lunit t n m w)
  then show ?thesis using assms(4) by (simp add: zipPrev_bytes mk_zl_append A'_def)
qed

text \<open>The effect of the cascade on the entries behind \<open>c\<close>.\<close>

primrec casc :: "zraw \<Rightarrow> zraw list \<Rightarrow> zraw list" where
  "casc c [] = []"
| "casc c (n # ns) =
    (let L = ent_len c in
     if fst (snd n) = L then n # ns
     else if \<not> fst n \<and> 254 \<le> L then (True, L, snd (snd n)) # casc (True, L, snd (snd n)) ns
     else (fst n, L, snd (snd n)) # ns)"

lemma ent_len_ge: "2 \<le> ent_len e"
  by (simp add: ent_len_eq ls_of_def zipEncodeLength_def)

lemma ent_len_prev: "ent_len (b, m, t) = (if b then 5 else 1) + length (enc_str t)"
  by (simp add: ent_len_def entry_bytes_def length_prev_bytes del: length_entry_bytes)

lemma casc_length [simp]: "length (casc c ns) = length ns"
  by (induction ns arbitrary: c) (simp_all add: Let_def)

lemma casc_strs: "map (\<lambda>e. snd (snd e)) (casc c ns) = map (\<lambda>e. snd (snd e)) ns"
  by (induction ns arbitrary: c) (simp_all add: Let_def)

lemma casc_size: "length (entries (casc c ns)) \<le> length (entries ns) + 4 * length ns"
proof (induction ns arbitrary: c)
  case (Cons n ns)
  then show ?case using Cons [of "(True, ent_len c, snd (snd n))"]
    by (cases n) (auto simp: Let_def ent_len_prev)
qed simp

text \<open>Where the last of the entries behind a prefix of \<open>q\<close> bytes starts.\<close>

definition last_off :: "nat \<Rightarrow> zraw list \<Rightarrow> nat" where
  "last_off q es = q + length (entries (butlast es))"

lemma last_off_simps:
  "last_off q [] = q" "last_off q [e] = q" "es \<noteq> [] \<Longrightarrow> last_off q (e # es) = last_off (q + ent_len e) es"
  by (simp_all add: last_off_def)

lemma cascade_loop_at:
  assumes "raw_ok c" "list_all raw_ok ns" "p = 10 + length Q"
    and "cl = 11 + length Q + ent_len c + length (entries ns)" "T = int cl"
    and "cl + 4 * length ns < 4294967296" "A = int (10 + last_off (length Q) (c # ns))"
  shows "cascade_loop (mk_zl T A N (Q @ entry_bytes c @ entries ns @ [255])) p cl =
    Some (mk_zl (int (11 + length Q + ent_len c + length (entries (casc c ns))))
      (int (10 + last_off (length Q) (c # casc c ns))) N (Q @ entry_bytes c @ entries (casc c ns) @ [255]))"
  using assms
proof (induction ns arbitrary: c Q T A p cl)
  case Nil
  define H where "H = mk_zl T A N Q"
  have pH: "p = length H" using Nil.prems(3) by (simp add: H_def)
  have z: "mk_zl T A N (Q @ entry_bytes c @ entries [] @ [255]) = H @ entry_bytes c @ [255]"
    by (simp add: H_def mk_zl_append)
  obtain a where a: "rd1 (H @ entry_bytes c @ [255]) p = Some a" "a \<noteq> ZIP_END" using at_entry [OF pH Nil.prems(1)] by blast
  have e: "rd1 (H @ entry_bytes c @ [255]) (p + ent_len c) = Some ZIP_END"
    using at_end [of "p + ent_len c" "H @ entry_bytes c"] pH by simp
  have r: "cascade_round (H @ entry_bytes c @ [255]) p cl = Some (Inl (H @ entry_bytes c @ [255]))"
    using zipEntry_at [OF pH Nil.prems(1), of "[255]"] e by (simp add: cascade_round_def ent_len_eq Let_def add.assoc)
  have "10 \<le> cl" using Nil.prems(4) by simp
  then have "cascade_loop (H @ entry_bytes c @ [255]) p cl = Some (H @ entry_bytes c @ [255])"
    using a r by (simp add: cascade_loop.simps)
  then show ?case unfolding z
    using Nil.prems(4,5,7) by (simp add: H_def mk_zl_append last_off_simps)
next
  case (Cons n ns)
  define H where "H = mk_zl T A N Q"
  define L where "L = ent_len c"
  define R where "R = entries ns @ [255]"
  have pH: "p = length H" using Cons.prems(3) by (simp add: H_def)
  have n: "raw_ok n" "list_all raw_ok ns" using Cons.prems(2) by simp_all
  have z: "mk_zl T A N (Q @ entry_bytes c @ entries (n # ns) @ [255]) = H @ entry_bytes c @ entry_bytes n @ R"
    by (simp add: H_def mk_zl_append R_def)
  obtain a where a: "rd1 (H @ entry_bytes c @ entry_bytes n @ R) p = Some a" "a \<noteq> ZIP_END"
    using at_entry [OF pH Cons.prems(1)] by blast
  have pn: "p + L = length (H @ entry_bytes c)" using pH by (simp add: L_def)
  obtain d where d: "rd1 (H @ entry_bytes c @ entry_bytes n @ R) (p + L) = Some d" "d \<noteq> ZIP_END"
    using at_entry [OF pn n(1), of R] by auto
  note ec = zipEntry_at [OF pH Cons.prems(1), of "entry_bytes n @ R"]
  note en = zipEntry_at [OF pn n(1), of R, unfolded append_assoc]
  have cl10: "10 \<le> cl" using Cons.prems(4) by simp
  have step: "cascade_loop (H @ entry_bytes c @ entry_bytes n @ R) p cl =
      (case cascade_round (H @ entry_bytes c @ entry_bytes n @ R) p cl of
         None \<Rightarrow> None | Some (Inl zl) \<Rightarrow> Some zl | Some (Inr (zl, p, cl)) \<Rightarrow> cascade_loop zl p cl)"
    using a cl10 by (subst cascade_loop.simps) (simp add: bind_def split: option.split)
  define ps where "ps = (if fst n then 5 else 1 :: nat)"
  have round: "cascade_round (H @ entry_bytes c @ entry_bytes n @ R) p cl =
      (if fst (snd n) = L then Some (Inl (H @ entry_bytes c @ entry_bytes n @ R))
       else if \<not> fst n \<and> 254 \<le> L then
         do { zl \<leftarrow> cascade_grow (H @ entry_bytes c @ entry_bytes n @ R) cl (p + L) L 1; Some (Inr (zl, p + L, cl + 4)) }
       else do { zl \<leftarrow> wr (H @ entry_bytes c @ entry_bytes n @ R) (p + L) (prev_bytes (fst n) L); Some (Inl zl) })"
    using ec en d
    by (auto simp: cascade_round_def Let_def zipPrev_bytes zipPrev_large length_prev_bytes L_def ent_len_eq add.assoc)
  consider (same) "fst (snd n) = L" | (grow) "fst (snd n) \<noteq> L" "\<not> fst n" "254 \<le> L"
    | (fit) "fst (snd n) \<noteq> L" "\<not> (\<not> fst n \<and> 254 \<le> L)" by blast
  then show ?case
  proof cases
    case same
    then have "casc c (n # ns) = n # ns" by (simp add: L_def)
    moreover have "cascade_loop (H @ entry_bytes c @ entry_bytes n @ R) p cl = Some (H @ entry_bytes c @ entry_bytes n @ R)"
      using step round same by simp
    ultimately show ?thesis unfolding z
      using Cons.prems(4,5,7) by (simp add: H_def R_def mk_zl_append add.assoc)
  next
    case fit
    define n' where "n' = (fst n, L, snd (snd n))"
    have c': "casc c (n # ns) = n' # ns" using fit by (simp add: L_def n'_def Let_def)
    have "wr (H @ entry_bytes c @ entry_bytes n @ R) (p + L) (prev_bytes (fst n) L) = Some (H @ entry_bytes c @ entry_bytes n' @ R)"
      using wr_at [of "p + L" "H @ entry_bytes c" "prev_bytes (fst n) (fst (snd n))" "prev_bytes (fst n) L" "enc_str (snd (snd n)) @ R"]
        pn by (simp add: entry_bytes_def n'_def length_prev_bytes)
    then have "cascade_loop (H @ entry_bytes c @ entry_bytes n @ R) p cl = Some (H @ entry_bytes c @ entry_bytes n' @ R)"
      using step round fit by auto
    moreover have "ent_len n' = ent_len n" by (cases n) (simp add: n'_def ent_len_prev)
    ultimately show ?thesis unfolding z c'
      using Cons.prems(4,5,7) by (cases ns) (simp_all add: H_def R_def mk_zl_append add.assoc last_off_simps)
  next
    case grow
    define n' where "n' = (True, L, snd (snd n))"
    define Q' where "Q' = Q @ entry_bytes c"
    define A' where "A' = (if nat A \<noteq> p + L then A + 4 else A)"
    have c': "casc c (n # ns) = n' # casc n' ns" using grow by (simp add: L_def n'_def Let_def)
    have len: "ent_len n' = ent_len n + 4" using grow(2) by (cases n) (simp add: n'_def ent_len_prev)
    have nb: "entry_bytes n = of_nat (fst (snd n)) # enc_str (snd (snd n))" using grow(2) by (simp add: entry_bytes_def prev_bytes_def)
    have n'b: "entry_bytes n' = prev_bytes True L @ enc_str (snd (snd n))" by (simp add: n'_def entry_bytes_def)
    have ln: "ent_len n = 1 + length (enc_str (snd (snd n)))" using grow(2) by (cases n) (simp add: ent_len_prev)
    have Lb: "L < 4294967296" using Cons.prems(4,6) by (simp add: L_def)
    have ok': "raw_ok n'" using n(1) Lb by (simp add: raw_ok_def n'_def)
    have zz: "H @ entry_bytes c @ entry_bytes n @ R =
        mk_zl T A N (Q' @ [of_nat (fst (snd n))] @ (enc_str (snd (snd n)) @ entries ns) @ [255])"
      by (simp add: H_def Q'_def R_def mk_zl_append nb)
    have last_le: "last_off (length Q) (c # n # ns) \<le> length Q + length (entry_bytes c) + length (entries (n # ns))"
      by (cases ns rule: rev_cases) (simp_all add: last_off_def butlast_append)
    have Ab: "A < 4294967296" "0 \<le> A" using Cons.prems(4,6,7) last_le by simp_all
    have g: "cascade_grow (H @ entry_bytes c @ entry_bytes n @ R) cl (p + L) L 1 =
        Some (mk_zl (int cl + 4) A' N (Q' @ entry_bytes n' @ entries ns @ [255]))"
      unfolding zz A'_def
      by (subst cascade_grow_at) (use Cons.prems(3,4,6) Ab grow(3) ln in \<open>auto simp: Q'_def L_def n'b\<close>)
    have cl4: "cl + 4 = 11 + length Q' + ent_len n' + length (entries ns)"
      using Cons.prems(4) len by (simp add: Q'_def)
    have A': "A' = int (10 + last_off (length Q') (n' # ns))"
    proof (cases "ns = []")
      case True
      then show ?thesis using Cons.prems(3,7) by (simp add: A'_def Q'_def L_def last_off_simps)
    next
      case False
      then have "A = int (10 + last_off (length Q + ent_len c + ent_len n) ns)"
        using Cons.prems(7) by (simp add: last_off_simps)
      moreover have "last_off (length Q + ent_len c + ent_len n) ns \<ge> length Q + ent_len c + ent_len n"
        by (simp add: last_off_def)
      ultimately have "nat A \<noteq> p + L" using Cons.prems(3) ent_len_ge [of n] by (simp add: L_def)
      then show ?thesis using Cons.prems(7) False len by (simp add: A'_def Q'_def last_off_simps last_off_def)
    qed
    have IH: "cascade_loop (mk_zl (int cl + 4) A' N (Q' @ entry_bytes n' @ entries ns @ [255])) (p + L) (cl + 4) =
        Some (mk_zl (int (11 + length Q' + ent_len n' + length (entries (casc n' ns))))
          (int (10 + last_off (length Q') (n' # casc n' ns))) N (Q' @ entry_bytes n' @ entries (casc n' ns) @ [255]))"
      by (rule Cons.IH [OF ok' n(2) _ cl4 _ _ A']) (use Cons.prems(3,6) in \<open>simp_all add: Q'_def L_def\<close>)
    have "cascade_loop (H @ entry_bytes c @ entry_bytes n @ R) p cl =
        cascade_loop (mk_zl (int cl + 4) A' N (Q' @ entry_bytes n' @ entries ns @ [255])) (p + L) (cl + 4)"
      using step round grow g by simp
    then show ?thesis unfolding z IH c' by (simp add: Q'_def last_off_simps add.assoc)
  qed
qed

section \<open>What a block represents\<close>

abbreviation zstr :: "zraw \<Rightarrow> bytes" where "zstr e \<equiv> snd (snd e)"

primrec chain :: "nat \<Rightarrow> zraw list \<Rightarrow> bool" where
  "chain m [] = True"
| "chain m (e # es) = (fst (snd e) = m \<and> raw_ok e \<and> chain (ent_len e) es)"

text \<open>The length of the entry in front, and the entry stored for \<open>s\<close> behind it.\<close>

definition prev_len :: "zraw list \<Rightarrow> nat" where
  "prev_len as = (if as = [] then 0 else ent_len (last as))"

definition new_entry :: "nat \<Rightarrow> bytes \<Rightarrow> zraw" where
  "new_entry m s = (254 \<le> m, m, s)"

definition zl_rep :: "bytes \<Rightarrow> zraw list \<Rightarrow> bool" where
  "zl_rep zl es \<longleftrightarrow> chain 0 es \<and> (es \<noteq> [] \<longrightarrow> \<not> fst (hd es)) \<and>
    (\<exists>n. zl = mk_zl (int (11 + length (entries es))) (int (10 + last_off 0 es)) (int n) (entries es @ [255]) \<and>
      (n = length es \<and> n < 65535 \<or> n = 65535))"

lemma chain_ok: "chain m es \<Longrightarrow> list_all raw_ok es"
  by (induction es arbitrary: m) auto

lemma chain_append: "chain m (as @ bs) \<longleftrightarrow> chain m as \<and> chain (if as = [] then m else ent_len (last as)) bs"
  by (induction as arbitrary: m) auto

lemma chain_append0: "chain 0 (as @ bs) \<longleftrightarrow> chain 0 as \<and> chain (prev_len as) bs"
  by (simp add: chain_append prev_len_def)

lemma casc_id: "chain (ent_len c) ns \<Longrightarrow> casc c ns = ns"
  by (cases ns) auto

lemma casc_chain:
  "chain m ns \<Longrightarrow> ent_len c + length (entries ns) + 4 * length ns < 4294967296 \<Longrightarrow> chain (ent_len c) (casc c ns)"
proof (induction ns arbitrary: c m)
  case (Cons n ns)
  define L where "L = ent_len c"
  define n' where "n' = (True, L, zstr n)"
  have L: "L < 4294967296" using Cons.prems(2) by (simp add: L_def)
  show ?case
  proof (cases "fst (snd n) = L")
    case True
    then show ?thesis using Cons.prems(1) by (simp add: L_def)
  next
    case ne: False
    show ?thesis
    proof (cases "\<not> fst n \<and> 254 \<le> L")
      case True
      have len: "ent_len n' = ent_len n + 4" using True by (cases n) (simp add: n'_def ent_len_prev)
      have "chain (ent_len n') (casc n' ns)"
        using Cons.IH [of "ent_len n" n'] Cons.prems len by simp
      then show ?thesis using True ne L Cons.prems(1) by (simp add: raw_ok_def n'_def flip: L_def)
    next
      case False
      have "ent_len (fst n, L, zstr n) = ent_len n" by (cases n) (simp add: ent_len_prev)
      then show ?thesis using False ne L Cons.prems(1) by (auto simp: raw_ok_def Let_def simp flip: L_def)
    qed
  qed
qed simp

lemma new_entry_ok: "m < 4294967296 \<Longrightarrow> length s < 4294967296 \<Longrightarrow> raw_ok (new_entry m s)"
  by (auto simp: raw_ok_def new_entry_def)

lemma new_entry_bytes: "entry_bytes (new_entry m s) = zipPrevEncodeLength m @ zipEncodeLength (enc_of s) (length s) @ payload s"
  by (simp add: entry_bytes_def new_entry_def zipPrev_bytes enc_str_def)

text \<open>The two writes that put an entry into the room made for it.\<close>

lemma write_entry:
  assumes "p = 10 + length Q" "length G = ent_len (new_entry m s)"
    and hd_def: "h = zipPrevEncodeLength m @ zipEncodeLength (enc_of s) (length s)"
  shows "\<exists>z. wr (mk_zl T A N (Q @ G @ R)) p h = Some z \<and>
    wr z (p + length h) (payload s) = Some (mk_zl T A N (Q @ entry_bytes (new_entry m s) @ R))"
proof -
  have l: "length G = length h + length (payload s)"
    using assms(2) by (simp add: hd_def new_entry_bytes ent_len_def del: length_entry_bytes)
  define G1 where "G1 = take (length h) G"
  define G2 where "G2 = drop (length h) G"
  have G: "G = G1 @ G2" "length G1 = length h" "length G2 = length (payload s)"
    using l by (simp_all add: G1_def G2_def)
  have "wr (mk_zl T A N Q @ G1 @ (G2 @ R)) p h = Some (mk_zl T A N Q @ h @ (G2 @ R))"
    by (rule wr_at) (simp_all add: assms(1) G(2))
  moreover have "wr ((mk_zl T A N Q @ h) @ G2 @ R) (p + length h) (payload s) = Some ((mk_zl T A N Q @ h) @ payload s @ R)"
    by (rule wr_at) (simp_all add: assms(1) G(3))
  ultimately show ?thesis
    by (intro exI [of _ "mk_zl T A N (Q @ h @ G2 @ R)"]) (simp add: mk_zl_append G(1) new_entry_bytes hd_def)
qed

text \<open>Growing the block by \<open>k\<close> bytes.\<close>

lemma resize_more:
  "\<exists>W. length W = k \<and> hd (W @ [255]) = 255 \<and> ziplistResize (mk_zl T A N (X @ [255])) (11 + length X + k) =
    Some (mk_zl (int (11 + length X + k)) A N (X @ W @ [255]))"
proof (cases k)
  case 0
  then show ?thesis using resize_mk_zl [of "11 + length X" T A N "X @ [255]"] by simp
next
  case (Suc j)
  have "take (11 + length X + k - 11) (X @ [255]) @ replicate (11 + length X + k - 11 - length (X @ [255])) 0 @ [255] =
      X @ (255 # replicate j 0) @ [255]"
    using Suc by simp
  then show ?thesis
    using resize_mk_zl [of "11 + length X + k" T A N "X @ [255]"] Suc
    by (intro exI [of _ "255 # replicate j 0"]) simp
qed

text \<open>The size the code computes for a new entry.\<close>

lemma reqlen_eq:
  "(if zipTryEncoding s \<noteq> None then zipIntSize (case zipTryEncoding s of Some (v, e) \<Rightarrow> e | None \<Rightarrow> 0) else length s) +
    length (zipPrevEncodeLength m) + length (zipEncodeLength (case zipTryEncoding s of Some (v, e) \<Rightarrow> e | None \<Rightarrow> 0) (length s)) =
    ent_len (new_entry m s)"
  using int_encodings [of s]
  by (cases "zipTryEncoding s") (auto simp: ent_len_def new_entry_bytes enc_of_def payload_def simp del: length_entry_bytes)

section \<open>Insertion\<close>

lemma insert_write_at:
  assumes "p = 10 + length Q" "length G = ent_len (new_entry m s)"
  shows "insert_write (mk_zl T A N (Q @ G @ R)) p m s = Some (mk_zl T A N (Q @ entry_bytes (new_entry m s) @ R))"
proof -
  obtain z where "wr (mk_zl T A N (Q @ G @ R)) p (zipPrevEncodeLength m @ zipEncodeLength (enc_of s) (length s)) = Some z"
    "wr z (p + length (zipPrevEncodeLength m @ zipEncodeLength (enc_of s) (length s))) (payload s) =
      Some (mk_zl T A N (Q @ entry_bytes (new_entry m s) @ R))"
    using write_entry [OF assms refl] by blast
  then show ?thesis
    using int_encodings(3) [of s]
    by (cases "zipTryEncoding s") (auto simp: insert_write_def enc_of_def payload_def)
qed

text \<open>In front of an entry \<open>b\<close>: the move.  \<open>F\<close> is the body after the resize.\<close>

lemma insert_move_at:
  fixes nd :: int
  assumes "p = 10 + length Q" "raw_ok b" "raw_ok b'" "b' = new_entry r (zstr b)"
    and nd: "nd = (if 254 \<le> r then 5 else 1) - (if fst b then 5 else 1)" "0 \<le> int r + nd"
    and W: "length W = nat (int r + nd)" and cl: "cl = 11 + length Q + ent_len b + length (entries bs)"
    and A: "0 \<le> A" "A + int r < 4294967296" and bs: "list_all raw_ok bs" and r: "2 \<le> r"
  shows "\<exists>G. length G = r \<and> insert_move (mk_zl T A N (Q @ entry_bytes b @ entries bs @ W @ [255])) p cl r nd =
    Some (mk_zl T (A + int r + (if bs = [] then 0 else nd)) N (Q @ G @ entry_bytes b' @ entries bs @ [255]))"
proof -
  define H where "H = mk_zl T A N Q"
  define E where "E = enc_str (zstr b) @ entries bs"
  define Pb where "Pb = prev_bytes (fst b) (fst (snd b))"
  define F where "F = H @ Pb @ E @ W @ [255]"
  have z: "mk_zl T A N (Q @ entry_bytes b @ entries bs @ W @ [255]) = F"
    by (simp add: F_def H_def E_def Pb_def mk_zl_append entry_bytes_def)
  have pH: "p = length H" using assms(1) by (simp add: H_def)
  have lPb: "length Pb = (if fst b then 5 else 1)" by (simp add: Pb_def length_prev_bytes)
  have lE: "ent_len b + length (entries bs) = length Pb + length E"
    by (cases b) (simp add: E_def lPb ent_len_prev)
  obtain c where c: "rd1 F p = Some c" "c \<noteq> ZIP_END"
    using at_entry [OF pH assms(2), of "entries bs @ W @ [255]"] by (auto simp: F_def E_def Pb_def entry_bytes_def)
  define k where "k = nat (int (length Pb) + nd)"
  have k: "k = (if 254 \<le> r then 5 else 1)" "int k = int (length Pb) + nd" using nd(1) lPb by (auto simp: k_def)
  define n where "n = nat (int cl - int p - 1 + nd)"
  have n: "n = k + length E" using cl lE k(2) pH by (simp add: n_def H_def)
  \<comment> \<open>the block seen from the destination and from the source of the move\<close>
  define X where "X = take (p + r) F"
  define Y where "Y = drop (p + r) F"
  have lF: "length F = p + r + n + 1" using pH W nd(2) n k(2) by (simp add: F_def)
  have XY: "F = X @ Y" "length X = p + r" "length Y = n + 1" using lF by (simp_all add: X_def Y_def)
  have lastY: "drop n Y = [255]"
  proof -
    have "F = (H @ Pb @ E @ W) @ [255]" by (simp add: F_def)
    moreover have "length (H @ Pb @ E @ W) = p + r + n" using lF by (simp add: F_def)
    ultimately have "drop (p + r + n) F = [255]" by simp
    then show ?thesis by (simp add: Y_def add.commute add.left_commute)
  qed
  define src where "src = nat (int p - nd)"
  have src: "\<exists>U Z1 V. F = U @ (Z1 @ E) @ V \<and> length U = src \<and> length Z1 = k"
  proof (cases "nd \<le> 0")
    case True
    define d where "d = nat (- nd)"
    have d: "d \<le> length Pb" "src = p + d" "k + d = length Pb"
      using True k lPb nd(1) by (auto simp: d_def src_def split: if_splits)
    have "F = (H @ take d Pb) @ (drop d Pb @ E) @ (W @ [255])" by (simp add: F_def)
    then show ?thesis using d pH by (intro exI [of _ "H @ take d Pb"] exI [of _ "drop d Pb"] exI [of _ "W @ [255]"]) simp
  next
    case False
    then have d: "nd = 4" using nd(1) by (auto split: if_splits)
    have H: "H = take (p - 4) H @ drop (p - 4) H" by simp
    have "p - 4 \<le> length H" "src = p - 4" "k = 4 + length Pb" using d pH k(2) assms(1) by (auto simp: src_def)
    moreover have "F = take (p - 4) H @ ((drop (p - 4) H @ Pb) @ E) @ (W @ [255])" by (simp add: F_def)
    ultimately show ?thesis using pH assms(1)
      by (intro exI [of _ "take (p - 4) H"] exI [of _ "drop (p - 4) H @ Pb"] exI [of _ "W @ [255]"]) simp
  qed
  then obtain U Z1 V where UZ: "F = U @ (Z1 @ E) @ V" "length U = src" "length Z1 = k" by blast
  have "mv F (p + r) src n = Some (X @ (Z1 @ E) @ drop n Y)"
    by (rule mv_at [OF XY(1) _ UZ(1)]) (use XY UZ n in simp_all)
  then have m: "mv F (p + r) src n = Some (X @ Z1 @ E @ [255])" by (simp add: lastY)
  have w: "wr (X @ Z1 @ E @ [255]) (p + r) (zipPrevEncodeLength r) = Some (X @ zipPrevEncodeLength r @ E @ [255])"
    by (rule wr_at) (simp_all add: XY UZ(3) k(1) length_zipPrevEncodeLength)
  \<comment> \<open>what is in front of the next entry\<close>
  define G where "G = take r (Pb @ E @ W @ [255])"
  have lG: "length G = r" using lF pH by (simp add: G_def F_def)
  have "X = H @ G" using pH by (simp add: X_def F_def G_def)
  then have res: "X @ zipPrevEncodeLength r @ E @ [255] = mk_zl T A N (Q @ G @ entry_bytes b' @ entries bs @ [255])"
    by (simp add: H_def E_def mk_zl_append assms(4) new_entry_def entry_bytes_def zipPrev_bytes)
  define z1 where "z1 = mk_zl T (A + int r) N (Q @ G @ entry_bytes b' @ entries bs @ [255])"
  have t1: "set_TAIL_OFFSET (mk_zl T A N (Q @ G @ entry_bytes b' @ entries bs @ [255])) (int (nat (A mod 4294967296)) + int r) = z1"
    using A by (simp add: z1_def)
  have pz: "p + r = length (mk_zl T (A + int r) N (Q @ G))" using assms(1) lG by simp
  have z1: "z1 = mk_zl T (A + int r) N (Q @ G) @ entry_bytes b' @ entries bs @ [255]" by (simp add: z1_def mk_zl_append)
  note ze = zipEntry_at [OF pz assms(3), of "entries bs @ [255]", folded z1]
  define tl where "tl = (if fst b' then 5 else 1) + ls_of (zstr b') + length (payload (zstr b'))"
  have tl: "tl = ent_len b'" by (simp add: tl_def ent_len_eq)
  have pe: "p + r + tl = length (mk_zl T (A + int r) N (Q @ G) @ entry_bytes b')" using pz by (simp add: tl)
  have e: "rd1 z1 (p + r + tl) = Some ZIP_END" if "bs = []"
    using at_end [OF pe] that by (simp add: z1)
  have e': "\<exists>x. rd1 z1 (p + r + tl) = Some x \<and> x \<noteq> ZIP_END" if "bs = x # xs" for x xs
    using at_entry [OF pe, of x "entries xs @ [255]"] that bs by (simp add: z1)
  have "insert_move F p cl r nd = Some (mk_zl T (A + int r + (if bs = [] then 0 else nd)) N (Q @ G @ entry_bytes b' @ entries bs @ [255]))"
  proof (cases bs)
    case Nil
    then show ?thesis
      using c m w res t1 ze e by (simp add: insert_move_def src_def n_def tl_def add.assoc) (simp add: z1_def)
  next
    case (Cons x xs)
    then obtain y where y: "rd1 z1 (p + r + tl) = Some y" "y \<noteq> ZIP_END" using e' by blast
    have "nat ((A + int r) mod 4294967296) = nat (A + int r)" using A by simp
    then have "set_TAIL_OFFSET z1 (int (ZIPLIST_TAIL_OFFSET z1) + nd) =
        mk_zl T (A + int r + nd) N (Q @ G @ entry_bytes b' @ entries bs @ [255])"
      using A by (simp add: z1_def)
    then show ?thesis
      using c m w res t1 ze y Cons by (simp add: insert_move_def src_def n_def tl_def add.assoc)
  qed
  then show ?thesis using lG unfolding z by blast
qed

lemma entries_ge: "2 * length es \<le> length (entries es)"
proof (induction es)
  case (Cons e es)
  then show ?case using ent_len_ge [of e] by simp
qed simp

lemma last_off_le: "last_off 0 es \<le> length (entries es)"
  by (cases es rule: rev_cases) (simp_all add: last_off_def)

lemma zl_repE:
  assumes "zl_rep zl es"
  obtains n where "zl = mk_zl (int (11 + length (entries es))) (int (10 + last_off 0 es)) (int n) (entries es @ [255])"
    "n = length es \<and> n < 65535 \<or> n = 65535" "chain 0 es" "length zl = 11 + length (entries es)"
    "es \<noteq> [] \<longrightarrow> \<not> fst (hd es)"
proof -
  obtain n where n: "zl = mk_zl (int (11 + length (entries es))) (int (10 + last_off 0 es)) (int n) (entries es @ [255])"
    "n = length es \<and> n < 65535 \<or> n = 65535" "chain 0 es" "es \<noteq> [] \<longrightarrow> \<not> fst (hd es)"
    using assms unfolding zl_rep_def by blast
  then have "length zl = 11 + length (entries es)" by simp
  with n that show thesis by blast
qed

lemma zl_repI:
  assumes "chain 0 es" "es \<noteq> [] \<Longrightarrow> \<not> fst (hd es)" "n = length es \<and> n < 65535 \<or> n = 65535"
  shows "zl_rep (mk_zl (int (11 + length (entries es))) (int (10 + last_off 0 es)) (int n) (entries es @ [255])) es"
  using assms unfolding zl_rep_def by blast

lemma ziplistNew_rep: "zl_rep ziplistNew []"
  using zl_repI [of "[]" 0] by (simp add: ziplistNew_def mk_zl_def last_off_def)

lemma prev_len_le: "prev_len as \<le> length (entries as)"
  by (cases as rule: rev_cases) (simp_all add: prev_len_def)

lemma zlen_incr:
  assumes "n = m \<and> n < 65535 \<or> n = (65535 :: nat)"
  shows "\<exists>k. ZIPLIST_INCR_LENGTH (mk_zl T A (int n) B) 1 = mk_zl T A (int k) B \<and> (k = m + 1 \<and> k < 65535 \<or> k = 65535)"
  using assms by (intro exI [of _ "if n < 65535 then n + 1 else n"]) (auto simp: ZIPLIST_INCR_LENGTH_def add.commute)

lemma insert_prevlen_at:
  assumes "zl_rep zl (as @ bs)" "p = 10 + length (entries as)" "length zl < 4294967296"
  shows "insert_prevlen zl p = Some (prev_len as)"
proof -
  obtain n where z: "zl = mk_zl (int (11 + length (entries (as @ bs)))) (int (10 + last_off 0 (as @ bs))) (int n) (entries (as @ bs) @ [255])"
    and ch: "chain 0 (as @ bs)" by (rule zl_repE [OF assms(1)])
  define H where "H = mk_zl (int (11 + length (entries (as @ bs)))) (int (10 + last_off 0 (as @ bs))) (int n) (entries as)"
  have zH: "zl = H @ entries bs @ [255]" by (simp add: z H_def mk_zl_append)
  have pH: "p = length H" using assms(2) by (simp add: H_def)
  show ?thesis
  proof (cases bs)
    case (Cons b bs')
    have b: "raw_ok b" "fst (snd b) = prev_len as" using ch Cons by (simp_all add: chain_append0)
    obtain c where "rd1 zl p = Some c" "c \<noteq> ZIP_END" using at_entry [OF pH b(1), of "entries bs' @ [255]"] zH Cons by auto
    then show ?thesis using decode_prevlen [OF pH b(1), of "entries bs' @ [255]"] zH Cons b(2) by (simp add: insert_prevlen_def)
  next
    case Nil
    have e: "rd1 zl p = Some ZIP_END" using at_end [OF pH] zH Nil by simp
    have "nat (int (10 + last_off 0 as) mod 4294967296) = 10 + last_off 0 as"
      using last_off_le [of as] assms(3) z Nil by simp
    then have t: "ZIPLIST_TAIL_OFFSET zl = 10 + last_off 0 as" using z Nil by simp
    show ?thesis
    proof (cases as rule: rev_cases)
      case Nil
      then show ?thesis using e t pH assms(2) by (simp add: insert_prevlen_def prev_len_def last_off_simps)
    next
      case (snoc as' a)
      define H' where "H' = mk_zl (int (11 + length (entries (as @ bs)))) (int (10 + last_off 0 (as @ bs))) (int n) (entries as')"
      have a: "raw_ok a" using ch Nil snoc by (simp add: chain_append)
      have tH: "ZIPLIST_TAIL_OFFSET zl = length H'" using t snoc by (simp add: H'_def last_off_def)
      have zH': "zl = H' @ entry_bytes a @ [255]" using zH Nil snoc by (simp add: H_def H'_def mk_zl_append)
      obtain c where "rd1 zl (ZIPLIST_TAIL_OFFSET zl) = Some c" "c \<noteq> ZIP_END"
        using at_entry [OF tH a, of "[255]"] zH' by auto
      then show ?thesis using e zipRawEntryLength_at [OF tH a, of "[255]"] zH' snoc
        by (simp add: insert_prevlen_def prev_len_def)
    qed
  qed
qed

lemma new_entry_size: "ent_len (new_entry m s) \<le> 18 + length s"
proof -
  have "length x \<le> 8" if "zipSaveInteger v e = Some x" for v e x
    using that by (auto simp: zipSaveInteger_def split: if_splits)
  then have "length (payload s) \<le> 8 + length s"
    using int_encodings(3) [of s] by (cases "zipTryEncoding s") (fastforce simp: payload_def)+
  moreover have "ls_of s \<le> 5" by (simp add: ls_of_def zipEncodeLength_def)
  ultimately show ?thesis by (simp add: ent_len_eq new_entry_def)
qed

text \<open>The entries after \<open>s\<close> has been put between \<open>as\<close> and \<open>bs\<close>.\<close>

primrec casc_head :: "zraw \<Rightarrow> zraw list \<Rightarrow> zraw list" where
  "casc_head e [] = []"
| "casc_head e (b # bs) = new_entry (ent_len e) (zstr b) # casc (new_entry (ent_len e) (zstr b)) bs"

definition ins_entries :: "zraw list \<Rightarrow> bytes \<Rightarrow> zraw list \<Rightarrow> zraw list" where
  "ins_entries as s bs = as @ new_entry (prev_len as) s # casc_head (new_entry (prev_len as) s) bs"

lemma ins_entries_strs: "map zstr (ins_entries as s bs) = map zstr as @ s # map zstr bs"
  by (cases bs) (simp_all add: ins_entries_def new_entry_def casc_strs)

lemma insert_at_end:
  assumes "zl_rep zl as" "p = 10 + length (entries as)" "length zl + length s < 1073741824"
  shows "\<exists>zl'. ziplistInsert zl p s = Some zl' \<and> zl_rep zl' (ins_entries as s [])"
proof -
  obtain n where z: "zl = mk_zl (int (11 + length (entries as))) (int (10 + last_off 0 as)) (int n) (entries as @ [255])"
    and n: "n = length as \<and> n < 65535 \<or> n = 65535" and ch: "chain 0 as" and lz: "length zl = 11 + length (entries as)"
    and hd: "as \<noteq> [] \<longrightarrow> \<not> fst (hd as)" by (rule zl_repE [OF assms(1)])
  define m where "m = prev_len as"
  define r where "r = ent_len (new_entry m s)"
  define cl where "cl = 11 + length (entries as)"
  have pm: "insert_prevlen zl p = Some m" using insert_prevlen_at [of zl as "[]" p] assms by (simp add: m_def)
  have c: "rd1 zl p = Some ZIP_END"
    using at_end [of p "mk_zl (int (11 + length (entries as))) (int (10 + last_off 0 as)) (int n) (entries as)"] assms(2)
    by (simp add: z mk_zl_append)
  have B: "ZIPLIST_BYTES zl = cl" using lz assms(3) by (simp add: z cl_def)
  obtain W where W: "length W = r" "hd (W @ [255]) = 255"
    "ziplistResize zl (11 + length (entries as) + r) =
      Some (mk_zl (int (11 + length (entries as) + r)) (int (10 + last_off 0 as)) (int n) (entries as @ W @ [255]))"
    using resize_more [of r "int (11 + length (entries as))" "int (10 + last_off 0 as)" "int n" "entries as"] z by auto
  have sz: "nat (int (cl + r) + 0) = 11 + length (entries as) + r" by (simp add: cl_def)
  have c2: "rd1 (mk_zl (int (11 + length (entries as) + r)) (int (10 + last_off 0 as)) (int n) (entries as @ W @ [255])) p = Some ZIP_END"
    using assms(2) W(2) by (cases W) (simp_all add: mk_zl_append rd1_at')
  have mvd: "insert_move (mk_zl (int (11 + length (entries as) + r)) (int (10 + last_off 0 as)) (int n) (entries as @ W @ [255])) p cl r 0 =
      Some (mk_zl (int (11 + length (entries as) + r)) (int p) (int n) (entries as @ W @ [255]))"
    using c2 by (simp add: insert_move_def)
  have w: "insert_write (mk_zl (int (11 + length (entries as) + r)) (int p) (int n) (entries as @ W @ [255])) p m s =
      Some (mk_zl (int (11 + length (entries as) + r)) (int p) (int n) (entries as @ entry_bytes (new_entry m s) @ [255]))"
    by (rule insert_write_at) (simp_all add: assms(2) W(1) r_def)
  obtain k where k: "ZIPLIST_INCR_LENGTH (mk_zl (int (11 + length (entries as) + r)) (int p) (int n)
        (entries as @ entry_bytes (new_entry m s) @ [255])) 1 =
      mk_zl (int (11 + length (entries as) + r)) (int p) (int k) (entries as @ entry_bytes (new_entry m s) @ [255])"
    "k = length as + 1 \<and> k < 65535 \<or> k = 65535"
    using zlen_incr [OF n] by blast
  define es where "es = ins_entries as s []"
  have es: "es = as @ [new_entry m s]" by (simp add: es_def ins_entries_def m_def)
  have run: "ziplistInsert zl p s = Some (mk_zl (int (11 + length (entries as) + r)) (int p) (int k) (entries as @ entry_bytes (new_entry m s) @ [255]))"
    unfolding ziplistInsert_def Let_def B pm bind.bind_lunit reqlen_eq [of s m] c using W(3) mvd w k(1)
    by (simp add: sz [simplified] flip: r_def)
  have "mk_zl (int (11 + length (entries as) + r)) (int p) (int k) (entries as @ entry_bytes (new_entry m s) @ [255]) =
      mk_zl (int (11 + length (entries es))) (int (10 + last_off 0 es)) (int k) (entries es @ [255])"
    by (simp add: es r_def assms(2) last_off_def add.assoc)
  moreover have "zl_rep (mk_zl (int (11 + length (entries es))) (int (10 + last_off 0 es)) (int k) (entries es @ [255])) es"
  proof (rule zl_repI)
    have "m < 4294967296" using prev_len_le [of as] assms(3) lz by (simp add: m_def)
    then show "chain 0 es" using ch assms(3) unfolding es
      by (simp add: chain_append0 m_def) (auto simp: new_entry_def raw_ok_def)
    show "\<not> fst (hd es)" using hd by (cases as) (simp_all add: es new_entry_def m_def prev_len_def)
    show "k = length es \<and> k < 65535 \<or> k = 65535" using k(2) by (simp add: es)
  qed
  ultimately show ?thesis using run by (simp add: es_def)
qed

text \<open>Insertion in front of \<open>b\<close>.  The condition excludes the case in which the block would
  shrink: the next entry gives back 4 bytes and the new one needs fewer.\<close>

lemma insert_before:
  assumes "zl_rep zl (as @ b # bs)" "p = 10 + length (entries as)" "length zl + length s < 1073741824"
    and "fst b \<Longrightarrow> 4 \<le> ent_len (new_entry (prev_len as) s)"
  shows "\<exists>zl'. ziplistInsert zl p s = Some zl' \<and> zl_rep zl' (ins_entries as s (b # bs))"
proof -
  define es where "es = as @ b # bs"
  obtain n where z: "zl = mk_zl (int (11 + length (entries es))) (int (10 + last_off 0 es)) (int n) (entries es @ [255])"
    and n: "n = length es \<and> n < 65535 \<or> n = 65535" and ch: "chain 0 es" and lz: "length zl = 11 + length (entries es)"
    and hd: "es \<noteq> [] \<longrightarrow> \<not> fst (hd es)" by (rule zl_repE [OF assms(1), folded es_def])
  define m where "m = prev_len as"
  define e where "e = new_entry m s"
  define r where "r = ent_len e"
  define cl where "cl = 11 + length (entries es)"
  define b' where "b' = new_entry r (zstr b)"
  define nd where "nd = ((if 254 \<le> r then 5 else 1) - (if fst b then 5 else 1) :: int)"
  define Q where "Q = entries as"
  have cl: "cl = 11 + length Q + ent_len b + length (entries bs)" by (simp add: cl_def es_def Q_def)
  have b: "raw_ok b" "list_all raw_ok bs" "fst (snd b) = m" "chain (ent_len b) bs" "chain 0 as"
    using ch chain_ok by (auto simp: es_def chain_append0 m_def)
  have r2: "2 \<le> r" "r \<le> 18 + length s" using ent_len_ge new_entry_size by (simp_all add: r_def e_def)
  have nd0: "0 \<le> int r + nd" using assms(4) r2 by (auto simp: nd_def r_def e_def m_def)
  have szb: "2 * length bs \<le> length (entries bs)" "cl + length s < 1073741824"
    using entries_ge assms(3) lz by (simp_all add: cl_def)
  have ok': "raw_ok b'" using b(1) r2 szb(2) by (auto simp: b'_def raw_ok_def new_entry_def)
  have pm: "insert_prevlen zl p = Some m" using insert_prevlen_at [OF assms(1,2)] assms(3) by (simp add: m_def)
  have pQ: "p = 10 + length Q" using assms(2) by (simp add: Q_def)
  define H where "H = mk_zl (int (11 + length (entries es))) (int (10 + last_off 0 es)) (int n) Q"
  have zH: "zl = H @ entry_bytes b @ (entries bs @ [255])" by (simp add: z H_def mk_zl_append es_def Q_def)
  have pH: "p = length H" using pQ by (simp add: H_def)
  obtain c where c: "rd1 zl p = Some c" "c \<noteq> ZIP_END" using at_entry [OF pH b(1)] zH by metis
  have ndc: "zipPrevLenByteDiff zl p r = Some nd"
    using prev_size [OF pH b(1)] zH by (simp add: zipPrevLenByteDiff_def length_zipPrevEncodeLength nd_def)
  have B: "ZIPLIST_BYTES zl = cl" using szb(2) by (simp add: z cl_def)
  define X where "X = Q @ entry_bytes b @ entries bs"
  define k where "k = nat (int r + nd)"
  define T' where "T' = int (cl + k)"
  define A where "A = int (10 + last_off 0 es)"
  have lX: "11 + length X = cl" by (simp add: X_def cl)
  have zX: "zl = mk_zl (int (11 + length (entries es))) A (int n) (X @ [255])"
    by (simp add: z A_def X_def es_def Q_def)
  obtain W where W: "length W = k" "ziplistResize zl (cl + k) = Some (mk_zl T' A (int n) (X @ W @ [255]))"
    using resize_more [of k "int (11 + length (entries es))" A "int n" X] unfolding lX zX T'_def by blast
  have sz: "nat (int (cl + r) + nd) = cl + k" using nd0 by (simp add: k_def nat_add_distrib)
  have Ab: "0 \<le> A" "A + int r < 4294967296" using last_off_le [of es] szb(2) r2 by (simp_all add: A_def cl_def)
  obtain G where G: "length G = r" "insert_move (mk_zl T' A (int n) (X @ W @ [255])) p cl r nd =
      Some (mk_zl T' (A + int r + (if bs = [] then 0 else nd)) (int n) (Q @ G @ entry_bytes b' @ entries bs @ [255]))"
    using insert_move_at [OF pQ b(1) ok' b'_def nd_def nd0 W(1) [unfolded k_def] cl Ab b(2) r2(1), of T' "int n"]
    by (auto simp: X_def)
  define A' where "A' = A + int r + (if bs = [] then 0 else nd)"
  have lb': "int (ent_len b') = int (ent_len b) + nd"
    by (cases b) (simp add: b'_def new_entry_def ent_len_prev nd_def)
  have A': "A' = int (10 + last_off (length (Q @ G)) (b' # bs))"
    using lb' G(1) by (cases bs) (simp_all add: A'_def A_def es_def Q_def last_off_def butlast_append)
  have T': "T' = int (11 + length (Q @ G) + ent_len b' + length (entries bs))"
    using lb' G(1) nd0 by (simp add: T'_def cl k_def)
  define cl' where "cl' = 11 + length (Q @ G) + ent_len b' + length (entries bs)"
  define bs' where "bs' = casc b' bs"
  have lb'': "ent_len b' \<le> ent_len b + 4" using lb' by (auto simp: nd_def split: if_splits)
  have big: "cl' + 4 * length bs < 4294967296"
    using szb r2 lb'' G(1) by (simp add: cl'_def cl)
  define z2 where "z2 = mk_zl (int (11 + length (Q @ G) + ent_len b' + length (entries bs')))
      (int (10 + last_off (length (Q @ G)) (b' # bs'))) (int n) ((Q @ G) @ entry_bytes b' @ entries bs' @ [255])"
  have cas: "(if nd \<noteq> 0 then ziplistCascadeUpdate (mk_zl T' A' (int n) (Q @ G @ entry_bytes b' @ entries bs @ [255])) (p + r)
      else Some (mk_zl T' A' (int n) (Q @ G @ entry_bytes b' @ entries bs @ [255]))) = Some z2"
  proof (cases "nd = 0")
    case True
    then have "ent_len b' = ent_len b" using lb' by simp
    then have "bs' = bs" using casc_id [of b' bs] b(4) by (simp add: bs'_def)
    then show ?thesis using True T' A' by (simp add: z2_def)
  next
    case False
    have "nat (T' mod 4294967296) = cl'" using T' big by (simp add: cl'_def)
    moreover have "cascade_loop (mk_zl T' A' (int n) ((Q @ G) @ entry_bytes b' @ entries bs @ [255])) (p + r) cl' = Some z2"
      unfolding z2_def bs'_def
      by (rule cascade_loop_at [OF ok' b(2) _ cl'_def _ big A']) (simp_all add: pQ G(1) T' cl'_def)
    ultimately show ?thesis using False by (simp add: ziplistCascadeUpdate_def)
  qed
  define T2 where "T2 = int (11 + length (Q @ G) + ent_len b' + length (entries bs'))"
  define A2 where "A2 = int (10 + last_off (length (Q @ G)) (b' # bs'))"
  have w: "insert_write z2 p m s = Some (mk_zl T2 A2 (int n) (Q @ entry_bytes e @ entry_bytes b' @ entries bs' @ [255]))"
    using insert_write_at [OF pQ, of G m s T2 A2 "int n" "entry_bytes b' @ entries bs' @ [255]"] G(1)
    by (simp add: z2_def T2_def A2_def e_def r_def)
  obtain j where j: "ZIPLIST_INCR_LENGTH (mk_zl T2 A2 (int n) (Q @ entry_bytes e @ entry_bytes b' @ entries bs' @ [255])) 1 =
      mk_zl T2 A2 (int j) (Q @ entry_bytes e @ entry_bytes b' @ entries bs' @ [255])"
    "j = length es + 1 \<and> j < 65535 \<or> j = 65535"
    using zlen_incr [OF n] by blast
  have run: "ziplistInsert zl p s = Some (mk_zl T2 A2 (int j) (Q @ entry_bytes e @ entry_bytes b' @ entries bs' @ [255]))"
    unfolding ziplistInsert_def Let_def B pm bind.bind_lunit reqlen_eq [of s m] c(1) e_def [symmetric] r_def [symmetric]
    using c(2) ndc W(2) G(2) cas w j(1) sz by (simp flip: A'_def)
  define es' where "es' = ins_entries as s (b # bs)"
  have es': "es' = as @ e # b' # bs'" by (simp add: es'_def ins_entries_def bs'_def b'_def r_def e_def m_def)
  have last: "last_off (length (Q @ G)) (b' # bs') = last_off 0 es'"
    using G(1) by (cases bs') (simp_all add: es' last_off_def butlast_append Q_def r_def)
  have "mk_zl T2 A2 (int j) (Q @ entry_bytes e @ entry_bytes b' @ entries bs' @ [255]) =
      mk_zl (int (11 + length (entries es'))) (int (10 + last_off 0 es')) (int j) (entries es' @ [255])"
    unfolding T2_def A2_def last using G(1) by (simp add: es' Q_def r_def add.assoc)
  moreover have "zl_rep (mk_zl (int (11 + length (entries es'))) (int (10 + last_off 0 es')) (int j) (entries es' @ [255])) es'"
  proof (rule zl_repI)
    have "m \<le> length (entries as)" using prev_len_le by (simp add: m_def)
    then have "m < 4294967296" "length s < 4294967296" using szb(2) by (simp_all add: cl Q_def)
    then have "raw_ok e" by (simp add: e_def new_entry_ok)
    moreover have "chain (ent_len b') bs'"
      unfolding bs'_def by (rule casc_chain [OF b(4)]) (use big in \<open>simp add: cl'_def\<close>)
    ultimately show "chain 0 es'" using b(5) ok' unfolding es'
      by (simp add: chain_append0) (simp add: e_def b'_def new_entry_def m_def r_def)
    show "\<not> fst (hd es')" using hd by (cases as) (simp_all add: es' es_def e_def new_entry_def m_def prev_len_def)
    show "j = length es' \<and> j < 65535 \<or> j = 65535" using j(2) by (auto simp: es' es_def bs'_def)
  qed
  ultimately show ?thesis using run by (simp add: es'_def)
qed

section \<open>Deletion\<close>

lemma skip_entries_at:
  assumes "list_all raw_ok (ds @ bs)" "p = length P" "length ds = n \<or> length ds < n \<and> bs = []"
  shows "skip_entries (P @ entries ds @ entries bs @ [255]) n p = Some (p + length (entries ds), length ds)"
  using assms
proof (induction ds arbitrary: P p n)
  case Nil
  have "\<exists>c. rd1 (P @ entries bs @ [255]) p = Some c \<and> (c = ZIP_END \<longleftrightarrow> bs = [])"
  proof (cases bs)
    case Nil
    then show ?thesis using at_end [OF Nil.prems(2)] by simp
  next
    case (Cons b bs')
    then show ?thesis using at_entry [OF Nil.prems(2), of b "entries bs' @ [255]"] Nil.prems(1) by auto
  qed
  then show ?case using Nil.prems(3) by (cases n) auto
next
  case (Cons d ds)
  obtain k where k: "n = Suc k" using Cons.prems(3) by (cases n) auto
  have d: "raw_ok d" using Cons.prems(1) by simp
  obtain c where c: "rd1 (P @ entry_bytes d @ entries ds @ entries bs @ [255]) p = Some c" "c \<noteq> ZIP_END"
    using at_entry [OF Cons.prems(2) d] by blast
  have l: "zipRawEntryLength (P @ entry_bytes d @ entries ds @ entries bs @ [255]) p = Some (ent_len d)"
    by (rule zipRawEntryLength_at [OF Cons.prems(2) d])
  have "skip_entries ((P @ entry_bytes d) @ entries ds @ entries bs @ [255]) k (p + ent_len d) =
      Some (p + ent_len d + length (entries ds), length ds)"
    by (rule Cons.IH) (use Cons.prems k in auto)
  then show ?case using c l k by simp
qed

lemma delete_move_at:
  fixes nd :: int
  assumes "p0 = 10 + length Q" "p = p0 + length D" "raw_ok b" "raw_ok b'" "b' = new_entry m (zstr b)"
    and nd: "nd = (if 254 \<le> m then 5 else 1) - (if fst b then 5 else 1)" "nd \<le> int (length D)"
    and T: "T = int (p + ent_len b + length (entries bs) + 1)" "T < 4294967296"
    and A: "int (length D) \<le> A" "A < 4294967296" and bs: "list_all raw_ok bs"
  shows "\<exists>Y. delete_move (mk_zl T A N (Q @ D @ entry_bytes b @ entries bs @ [255])) p0 p (length D) m =
    Some (mk_zl T (A - int (length D) + (if bs = [] then 0 else nd)) N (Q @ entry_bytes b' @ entries bs @ Y), nd) \<and>
    int (length Y) = int (length D) + 1 - nd"
proof -
  define H where "H = mk_zl T A N Q"
  define E where "E = enc_str (zstr b) @ entries bs @ [255]"
  define Pb where "Pb = prev_bytes (fst b) (fst (snd b))"
  define Pn where "Pn = zipPrevEncodeLength m"
  define F where "F = mk_zl T A N (Q @ D @ entry_bytes b @ entries bs @ [255])"
  have F: "F = H @ D @ Pb @ E" by (simp add: F_def H_def E_def Pb_def mk_zl_append entry_bytes_def)
  have lens: "length Pb = (if fst b then 5 else 1)" "length Pn = (if 254 \<le> m then 5 else 1)"
    by (simp_all add: Pb_def Pn_def length_prev_bytes length_zipPrevEncodeLength)
  have ndl: "nd = int (length Pn) - int (length Pb)" using nd(1) lens by simp
  have pH: "p0 = length H" "p = length (H @ D)" using assms(1,2) by (simp_all add: H_def)
  have ndc: "zipPrevLenByteDiff F p m = Some nd"
    using prev_size [OF pH(2) assms(3), of "entries bs @ [255]"]
    by (simp add: zipPrevLenByteDiff_def nd(1) length_zipPrevEncodeLength F E_def Pb_def entry_bytes_def)
  define q where "q = nat (int p - nd)"
  have q: "int q = int p0 + (int (length D) - nd)" using nd(2) pH by (simp add: q_def)
  \<comment> \<open>the new length of the previous entry ends where the old one ended\<close>
  define X where "X = take (q - p0) (D @ Pb)"
  define O1 where "O1 = drop (q - p0) (D @ Pb)"
  have qp: "int (q - p0) = int (length D) - nd" using q nd(2) by simp
  then have le: "q - p0 \<le> length (D @ Pb)" using ndl by simp
  have XO: "D @ Pb = X @ O1" unfolding X_def O1_def by (rule append_take_drop_id [symmetric])
  have lX: "length X = q - p0" using le by (simp add: X_def)
  have lO1: "length O1 = length Pn" using qp ndl le by (simp add: O1_def)
  note XO = XO lX lO1
  have qX: "q = length (H @ X)" using XO(2) q pH nd(2) by simp
  have "wr ((H @ X) @ O1 @ E) q Pn = Some ((H @ X) @ Pn @ E)"
    by (rule wr_at [OF qX XO(3)])
  then have w: "wr F q Pn = Some (mk_zl T A N (Q @ X @ entry_bytes b' @ entries bs @ [255]))"
    using XO(1) by (simp add: F H_def E_def mk_zl_append Pn_def assms(5) new_entry_def entry_bytes_def zipPrev_bytes)
      (metis append_assoc)
  define A1 where "A1 = A - int (length D)"
  have Ad: "nat (A mod 4294967296) = nat A" "0 \<le> A" using A by auto
  define z1 where "z1 = mk_zl T A1 N (Q @ X @ entry_bytes b' @ entries bs @ [255])"
  have z1: "z1 = mk_zl T A1 N (Q @ X) @ entry_bytes b' @ (entries bs @ [255])" by (simp add: z1_def mk_zl_append)
  have qz: "q = length (mk_zl T A1 N (Q @ X))" using qX by (simp add: H_def)
  note ze = zipEntry_at [OF qz assms(4), of "entries bs @ [255]", folded z1]
  define tl where "tl = (if fst b' then 5 else 1) + ls_of (zstr b') + length (payload (zstr b'))"
  have tl: "tl = ent_len b'" by (simp add: tl_def ent_len_eq)
  have pe: "q + tl = length (mk_zl T A1 N (Q @ X) @ entry_bytes b')" using qz by (simp add: tl)
  define A2 where "A2 = A1 + (if bs = [] then 0 else nd)"
  define z2 where "z2 = mk_zl T A2 N (Q @ X @ entry_bytes b' @ entries bs @ [255])"
  obtain e where e: "rd1 z1 (q + tl) = Some e" "(if e \<noteq> ZIP_END then set_TAIL_OFFSET z1 (int (ZIPLIST_TAIL_OFFSET z1) + nd) else z1) = z2"
  proof (cases bs)
    case Nil
    then show thesis using that [of ZIP_END] at_end [OF pe] by (simp add: z1 z2_def A2_def mk_zl_append)
  next
    case (Cons x xs)
    obtain y where "rd1 z1 (q + tl) = Some y" "y \<noteq> ZIP_END"
      using at_entry [OF pe, of x "entries xs @ [255]"] bs Cons by (auto simp: z1)
    moreover have "nat (A1 mod 4294967296) = nat A1" "0 \<le> A1" using A by (auto simp: A1_def)
    ultimately show thesis using that [of y] Cons by (simp add: z1_def z2_def A2_def)
  qed
  define n where "n = ent_len b' + length (entries bs)"
  have "int (ent_len b') = int (ent_len b) + nd"
    by (cases b) (simp add: assms(5) new_entry_def ent_len_prev nd(1))
  moreover have "nat (T mod 4294967296) = p + ent_len b + length (entries bs) + 1" using T by simp
  ultimately have B: "ZIPLIST_BYTES z2 - q - 1 = n" using q pH by (simp add: z2_def n_def)
  define Y where "Y = drop n (X @ entry_bytes b' @ entries bs @ [255])"
  have lY: "length Y = length X + 1" by (simp add: Y_def n_def)
  have "mv z2 p0 q n = Some (mk_zl T A2 N Q @ (entry_bytes b' @ entries bs) @ Y)"
    unfolding Y_def
  proof (rule mv_at)
    show "z2 = mk_zl T A2 N Q @ X @ entry_bytes b' @ entries bs @ [255]" by (simp add: z2_def mk_zl_append)
    show "z2 = mk_zl T A2 N (Q @ X) @ (entry_bytes b' @ entries bs) @ [255]" by (simp add: z2_def mk_zl_append)
  qed (use assms(1) qz in \<open>simp_all add: n_def\<close>)
  then have m: "mv z2 p0 q n = Some (mk_zl T A2 N (Q @ entry_bytes b' @ entries bs @ Y))" by (simp add: mk_zl_append)
  have t1: "set_TAIL_OFFSET (mk_zl T A N (Q @ X @ entry_bytes b' @ entries bs @ [255])) (int (nat (A mod 4294967296)) - int (length D)) = z1"
    using Ad A by (simp add: z1_def A1_def)
  have "delete_move F p0 p (length D) m = Some (mk_zl T A2 N (Q @ entry_bytes b' @ entries bs @ Y), nd)"
    unfolding delete_move_def ndc bind.bind_lunit Let_def q_def [symmetric] Pn_def [symmetric] w header_get t1 ze
    using e m B by (simp add: tl_def add.assoc)
  moreover have "int (length Y) = int (length D) + 1 - nd" using lY XO(2) qp by simp
  ultimately show ?thesis unfolding F_def A2_def A1_def by blast
qed

lemma resize_less:
  assumes "length Y = k + 1"
  shows "ziplistResize (mk_zl T A N (X @ Y)) (11 + length X) = Some (mk_zl (int (11 + length X)) A N (X @ [255]))"
  using resize_mk_zl [of "11 + length X" T A N "X @ Y"] by simp

definition del_entries :: "zraw list \<Rightarrow> zraw list \<Rightarrow> zraw list" where
  "del_entries as bs =
    (case bs of [] \<Rightarrow> as
     | b # bs' \<Rightarrow> as @ new_entry (prev_len as) (zstr b) # casc (new_entry (prev_len as) (zstr b)) bs')"

lemma del_entries_strs: "map zstr (del_entries as bs) = map zstr as @ map zstr bs"
  by (cases bs) (simp_all add: del_entries_def new_entry_def casc_strs)

lemma zlen_decr:
  assumes "n = m \<and> n < 65535 \<or> n = (65535 :: nat)" "d \<le> m"
  shows "\<exists>k. ZIPLIST_INCR_LENGTH (mk_zl T A (int n) B) (- int d) = mk_zl T A (int k) B \<and> (k = m - d \<and> k < 65535 \<or> k = 65535)"
  using assms by (intro exI [of _ "if n < 65535 then n - d else n"]) (auto simp: ZIPLIST_INCR_LENGTH_def of_nat_diff)

lemma delete_at:
  assumes "zl_rep zl (as @ ds @ bs)" "p0 = 10 + length (entries as)" "length zl < 1073741824"
    and "ds \<noteq> []" "length ds = num \<or> length ds < num \<and> bs = []"
  shows "\<exists>zl'. ziplistDelete_num zl p0 num = Some zl' \<and> zl_rep zl' (del_entries as bs)"
proof -
  define es where "es = as @ ds @ bs"
  obtain n where z: "zl = mk_zl (int (11 + length (entries es))) (int (10 + last_off 0 es)) (int n) (entries es @ [255])"
    and n: "n = length es \<and> n < 65535 \<or> n = 65535" and ch: "chain 0 es" and lz: "length zl = 11 + length (entries es)"
    and hd: "es \<noteq> [] \<longrightarrow> \<not> fst (hd es)" by (rule zl_repE [OF assms(1), folded es_def])
  define Q where "Q = entries as"
  define D where "D = entries ds"
  define m where "m = prev_len as"
  define p where "p = p0 + length D"
  define T where "T = int (11 + length (entries es))"
  define A where "A = int (10 + last_off 0 es)"
  have ok: "list_all raw_ok ds" "list_all raw_ok bs" "chain 0 as" "chain (prev_len (as @ ds)) bs"
    using ch chain_ok [OF ch] by (auto simp: es_def chain_append0 simp flip: append_assoc)
  obtain d ds' where ds: "ds = d # ds'" using assms(4) by (cases ds) auto
  have d: "raw_ok d" "fst (snd d) = m" "chain (ent_len d) ds'"
    using ch ds by (auto simp: es_def m_def chain_append prev_len_def split: if_splits)
  have lD: "ent_len d \<le> length D" "2 \<le> length D" using ds ent_len_ge [of d] by (simp_all add: D_def)
  define H where "H = mk_zl T A (int n) Q"
  have pH: "p0 = length H" using assms(2) by (simp add: H_def Q_def)
  have zH: "zl = H @ entries ds @ entries bs @ [255]"
    by (simp add: z H_def T_def A_def es_def Q_def mk_zl_append)
  have first: "\<exists>f. zipEntry zl p0 = Some f \<and> prevrawlen f = m"
    using zipEntry_at [OF pH d(1), of "entries ds' @ entries bs @ [255]"] d(2) by (simp add: zH ds)
  have skip: "skip_entries zl num p0 = Some (p, length ds)"
    using skip_entries_at [OF _ pH assms(5)] ok(1,2) by (simp add: zH p_def D_def)
  have tot: "p - p0 = length D" by (simp add: p_def)
  have tot0: "0 < length D" using lD(2) by linarith
  have dle: "length ds \<le> length es" by (simp add: es_def)
  have T: "T = int (p + length (entries bs) + 1)" "T < 4294967296"
    using assms(3) lz assms(2) by (simp_all add: T_def es_def p_def D_def)
  obtain f where f: "zipEntry zl p0 = Some f" "prevrawlen f = m" using first by blast
  define es' where "es' = del_entries as bs"
  show ?thesis
  proof (cases bs)
    case Nil
    have c: "rd1 zl p = Some ZIP_END"
      using at_end [of p "H @ entries ds"] pH Nil by (simp add: zH p_def D_def)
    have st: "set_TAIL_OFFSET zl (int p0 - int m) = mk_zl T (int p0 - int m) (int n) (Q @ D @ [255])"
      by (simp add: z T_def es_def Nil Q_def D_def)
    have B: "nat (T mod 4294967296) = p + 1" using T Nil by simp
    have rs: "ziplistResize (mk_zl T (int p0 - int m) (int n) (Q @ D @ [255])) (11 + length Q) =
        Some (mk_zl (int (11 + length Q)) (int p0 - int m) (int n) (Q @ [255]))"
      by (rule resize_less [of _ "length D"]) simp
    have sz: "nat (int (p + 1) - int (length D) + 0) = 11 + length Q"
      using assms(2) by (simp add: p_def Q_def)
    obtain k where k: "ZIPLIST_INCR_LENGTH (mk_zl (int (11 + length Q)) (int p0 - int m) (int n) (Q @ [255])) (- int (length ds)) =
        mk_zl (int (11 + length Q)) (int p0 - int m) (int k) (Q @ [255])" "k = length es - length ds \<and> k < 65535 \<or> k = 65535"
      using zlen_decr [OF n dle] by blast
    have run: "ziplistDelete_num zl p0 num = Some (mk_zl (int (11 + length Q)) (int p0 - int m) (int k) (Q @ [255]))"
      unfolding ziplistDelete_num_def f(1) skip bind.bind_lunit Let_def prod.case tot f(2)
      using tot0 c st B rs k(1) sz by simp
    have "int p0 - int m = int (10 + last_off 0 as)"
      using assms(2) by (cases as rule: rev_cases) (simp_all add: m_def prev_len_def last_off_def)
    moreover have "zl_rep (mk_zl (int (11 + length (entries as))) (int (10 + last_off 0 as)) (int k) (entries as @ [255])) as"
      by (rule zl_repI) (use ok(3) hd k(2) Nil in \<open>auto simp: es_def\<close>)
    ultimately show ?thesis using run Nil by (simp add: Q_def del_entries_def)
  next
    case (Cons b bs')
    define b' where "b' = new_entry m (zstr b)"
    define nd where "nd = ((if 254 \<le> m then 5 else 1) - (if fst b then 5 else 1) :: int)"
    have b: "raw_ok b" "list_all raw_ok bs'" "chain (ent_len b) bs'" using ok(2,4) Cons by simp_all
    have "m \<le> length (entries as)" using prev_len_le by (simp add: m_def)
    then have mb: "m < 4294967296" using lz assms(3) by (simp add: es_def)
    have ok': "raw_ok b'" using b(1) mb by (auto simp: b'_def raw_ok_def new_entry_def)
    have ndD: "nd \<le> int (length D)"
    proof (cases "254 \<le> m")
      case True
      then have "fst d" using d(1,2) by (auto simp: raw_ok_def)
      then have "5 \<le> ent_len d" by (cases d) (simp add: ent_len_prev)
      then show ?thesis using lD(1) by (simp add: nd_def)
    next
      case False
      then show ?thesis using lD(2) by (simp add: nd_def)
    qed
    have pD: "p = length (H @ entries ds)" using pH by (simp add: p_def D_def)
    obtain c where c: "rd1 zl p = Some c" "c \<noteq> ZIP_END"
      using at_entry [OF pD b(1), of "entries bs' @ [255]"] by (auto simp: zH Cons)
    have zl2: "zl = mk_zl T A (int n) (Q @ D @ entry_bytes b @ entries bs' @ [255])"
      by (simp add: z T_def A_def es_def Cons Q_def D_def)
    have lo: "last_off 0 es = length Q + length D + last_off 0 (b # bs')"
      by (cases bs') (simp_all add: es_def Cons last_off_def butlast_append Q_def D_def)
    have Ab: "int (length D) \<le> A" "A < 4294967296"
      using lo last_off_le [of es] assms(3) lz by (simp_all add: A_def)
    have T': "T = int (p + ent_len b + length (entries bs') + 1)" using T(1) Cons by simp
    obtain Y where Y: "delete_move zl p0 p (length D) m =
        Some (mk_zl T (A - int (length D) + (if bs' = [] then 0 else nd)) (int n) (Q @ entry_bytes b' @ entries bs' @ Y), nd)"
      "int (length Y) = int (length D) + 1 - nd"
      using delete_move_at [OF _ p_def b(1) ok' b'_def nd_def ndD T' T(2) Ab b(2), of Q "int n"] assms(2) zl2
      by (auto simp: Q_def)
    define A' where "A' = A - int (length D) + (if bs' = [] then 0 else nd)"
    have lb': "int (ent_len b') = int (ent_len b) + nd"
      by (cases b) (simp add: b'_def new_entry_def ent_len_prev nd_def)
    have A': "A' = int (10 + last_off (length Q) (b' # bs'))"
      using lb' lo by (cases bs') (simp_all add: A'_def A_def last_off_def)
    define X where "X = Q @ entry_bytes b' @ entries bs'"
    have rs: "ziplistResize (mk_zl T A' (int n) (X @ Y)) (11 + length X) = Some (mk_zl (int (11 + length X)) A' (int n) (X @ [255]))"
      by (rule resize_less [of _ "length Y - 1"]) (use Y(2) ndD in simp)
    have B: "nat (T mod 4294967296) = p + ent_len b + length (entries bs') + 1" using T' T(2) by simp
    have sz: "nat (int (p + ent_len b + length (entries bs') + 1) - int (length D) + nd) = 11 + length X"
      using lb' assms(2) by (simp add: X_def p_def Q_def)
    obtain k where k: "ZIPLIST_INCR_LENGTH (mk_zl (int (11 + length X)) A' (int n) (X @ [255])) (- int (length ds)) =
        mk_zl (int (11 + length X)) A' (int k) (X @ [255])" "k = length es - length ds \<and> k < 65535 \<or> k = 65535"
      using zlen_decr [OF n dle] by blast
    define cl where "cl = 11 + length Q + ent_len b' + length (entries bs')"
    have clX: "cl = 11 + length X" by (simp add: cl_def X_def)
    have lb'': "ent_len b' \<le> ent_len b + 4" using lb' by (auto simp: nd_def split: if_splits)
    have big: "cl + 4 * length bs' < 4294967296"
      using entries_ge [of bs'] assms(3) lz lb'' by (simp add: cl_def es_def Cons Q_def)
    define bs'' where "bs'' = casc b' bs'"
    have es': "es' = as @ b' # bs''" by (simp add: es'_def del_entries_def Cons b'_def m_def bs''_def)
    define z3 where "z3 = mk_zl (int (11 + length Q + ent_len b' + length (entries bs'')))
        (int (10 + last_off (length Q) (b' # bs''))) (int k) (Q @ entry_bytes b' @ entries bs'' @ [255])"
    have cas: "(if nd \<noteq> 0 then ziplistCascadeUpdate (mk_zl (int cl) A' (int k) (X @ [255])) p0
        else Some (mk_zl (int cl) A' (int k) (X @ [255]))) = Some z3"
    proof (cases "nd = 0")
      case True
      then have "ent_len b' = ent_len b" using lb' by simp
      then have "bs'' = bs'" using casc_id [of b' bs'] b(3) by (simp add: bs''_def)
      then show ?thesis using True by (simp add: z3_def cl_def X_def A')
    next
      case False
      have "nat (int cl mod 4294967296) = cl" using big by simp
      moreover have "cascade_loop (mk_zl (int cl) A' (int k) (Q @ entry_bytes b' @ entries bs' @ [255])) p0 cl = Some z3"
        unfolding z3_def bs''_def
        by (rule cascade_loop_at [OF ok' b(2) _ cl_def refl big A']) (simp add: assms(2) Q_def)
      ultimately show ?thesis using False by (simp add: ziplistCascadeUpdate_def X_def)
    qed
    have cas': "nd \<noteq> 0 \<Longrightarrow> ziplistCascadeUpdate (mk_zl (int (11 + length X)) A' (int k) (X @ [255])) p0 = Some z3"
      "nd = 0 \<Longrightarrow> mk_zl (int (11 + length X)) A' (int k) (X @ [255]) = z3"
      using cas by (simp_all add: clX)
    have run: "ziplistDelete_num zl p0 num = Some z3"
      unfolding ziplistDelete_num_def f(1) skip bind.bind_lunit Let_def prod.case tot f(2)
      using tot0 c Y(1) rs sz k(1) cas' B by (cases "nd = 0") (simp_all add: X_def flip: A'_def)
    have "z3 = mk_zl (int (11 + length (entries es'))) (int (10 + last_off 0 es')) (int k) (entries es' @ [255])"
      by (cases bs'') (simp_all add: z3_def es' last_off_def butlast_append Q_def add.assoc)
    moreover have "zl_rep (mk_zl (int (11 + length (entries es'))) (int (10 + last_off 0 es')) (int k) (entries es' @ [255])) es'"
    proof (rule zl_repI)
      have "chain (ent_len b') bs''"
        unfolding bs''_def by (rule casc_chain [OF b(3)]) (use big in \<open>simp add: cl_def\<close>)
      then show "chain 0 es'" using ok(3) ok' unfolding es'
        by (simp add: chain_append0) (simp add: b'_def new_entry_def m_def)
      show "\<not> fst (hd es')" using hd ds by (cases as) (simp_all add: es' es_def b'_def new_entry_def m_def prev_len_def)
      show "k = length es' \<and> k < 65535 \<or> k = 65535" using k(2) by (auto simp: es' es_def bs''_def Cons)
    qed
    ultimately show ?thesis using run by (simp add: es'_def)
  qed
qed

end
