(* ===== verification/ZiplistOps.thy ===== *)
theory ZiplistOps
  imports ZiplistSpec
begin

text \<open>
  What the operations on ziplists compute, over the list of strings a block holds: traversal,
  reading, searching, pushing and deleting.
\<close>

section \<open>Positions\<close>

definition pos_of :: "zraw list \<Rightarrow> nat \<Rightarrow> nat" where
  "pos_of es i = 10 + length (entries (take i es))"

lemma zl_at:
  assumes "zl_rep zl es" "i < length es"
  obtains P where "zl = P @ entry_bytes (es ! i) @ entries (drop (Suc i) es) @ [255]"
    "length P = pos_of es i" "raw_ok (es ! i)" "fst (snd (es ! i)) = prev_len (take i es)"
proof -
  obtain n where z: "zl = mk_zl (int (11 + length (entries es))) (int (10 + last_off 0 es)) (int n) (entries es @ [255])"
    and ch: "chain 0 es" by (rule zl_repE [OF assms(1)])
  have es: "es = take i es @ es ! i # drop (Suc i) es" by (rule id_take_nth_drop [OF assms(2)])
  then have e: "entries es = entries (take i es) @ entry_bytes (es ! i) @ entries (drop (Suc i) es)"
    by (metis entries_simps(2,3))
  have c: "raw_ok (es ! i)" "fst (snd (es ! i)) = prev_len (take i es)"
    using ch es by (metis chain.simps(2) chain_append0)+
  show thesis
    by (rule that [of "mk_zl (int (11 + length (entries es))) (int (10 + last_off 0 es)) (int n) (entries (take i es))"])
      (use z c in \<open>simp_all add: e pos_of_def flip: mk_zl_append\<close>)
qed

lemma zl_at_end:
  assumes "zl_rep zl es"
  obtains P where "zl = P @ [255]" "length P = pos_of es (length es)"
proof -
  obtain n where "zl = mk_zl (int (11 + length (entries es))) (int (10 + last_off 0 es)) (int n) (entries es @ [255])"
    by (rule zl_repE [OF assms])
  then show thesis
    by (intro that [of "mk_zl (int (11 + length (entries es))) (int (10 + last_off 0 es)) (int n) (entries es)"])
      (simp_all add: pos_of_def mk_zl_append)
qed

lemma pos_Suc: "i < length es \<Longrightarrow> pos_of es (Suc i) = pos_of es i + ent_len (es ! i)"
  by (simp add: pos_of_def take_Suc_conv_app_nth)

text \<open>The first byte at a position says whether an entry starts there.\<close>

lemma first_byte:
  assumes "zl_rep zl es" "i \<le> length es"
  shows "\<exists>c. rd1 zl (pos_of es i) = Some c \<and> (c = ZIP_END \<longleftrightarrow> i = length es)"
proof (cases "i = length es")
  case True
  obtain P where "zl = P @ [255]" "length P = pos_of es (length es)" by (rule zl_at_end [OF assms(1)])
  then show ?thesis using True at_end [of "pos_of es i" P] by simp
next
  case False
  then have "i < length es" using assms(2) by simp
  then obtain P where "zl = P @ entry_bytes (es ! i) @ entries (drop (Suc i) es) @ [255]"
    "length P = pos_of es i" "raw_ok (es ! i)" by (rule zl_at [OF assms(1)])
  then show ?thesis using False at_entry [of "pos_of es i" P "es ! i" "entries (drop (Suc i) es) @ [255]"] by auto
qed

lemma raw_length:
  assumes "zl_rep zl es" "i < length es"
  shows "zipRawEntryLength zl (pos_of es i) = Some (ent_len (es ! i))"
proof -
  obtain P where "zl = P @ entry_bytes (es ! i) @ entries (drop (Suc i) es) @ [255]"
    "length P = pos_of es i" "raw_ok (es ! i)" by (rule zl_at [OF assms])
  then show ?thesis using zipRawEntryLength_at [of "pos_of es i" P "es ! i"] by simp
qed

lemma prevlen_at:
  assumes "zl_rep zl es" "i < length es"
  shows "\<exists>ps. ZIP_DECODE_PREVLEN zl (pos_of es i) = Some (ps, prev_len (take i es)) \<and>
    ZIP_DECODE_PREVLENSIZE zl (pos_of es i) = Some ps \<and> ps = (if fst (es ! i) then 5 else 1)"
proof -
  obtain P where "zl = P @ entry_bytes (es ! i) @ entries (drop (Suc i) es) @ [255]"
    "length P = pos_of es i" "raw_ok (es ! i)" "fst (snd (es ! i)) = prev_len (take i es)" by (rule zl_at [OF assms])
  then show ?thesis using decode_prevlen [of "pos_of es i" P "es ! i"] prev_size [of "pos_of es i" P "es ! i"] by simp
qed

lemma prev_len_take:
  "i < length es \<Longrightarrow> prev_len (take (Suc i) es) = ent_len (es ! i)"
  "prev_len (take 0 es) = 0"
  by (simp_all add: prev_len_def take_Suc_conv_app_nth)

section \<open>Traversal by index\<close>

lemma index_forward_at:
  assumes "zl_rep zl es" "i \<le> length es"
  shows "index_forward zl (pos_of es i) (int k) = Some (if i + k < length es then (pos_of es (i + k), -1)
    else (pos_of es (length es), int (i + k - length es)))"
  using assms(2)
proof (induction "length es - i" arbitrary: i k)
  case 0
  then have i: "i = length es" by simp
  obtain c where "rd1 zl (pos_of es (length es)) = Some c" "c = ZIP_END"
    using first_byte [OF assms(1), of "length es"] by auto
  then show ?case by (subst index_forward.simps) (simp add: i)
next
  case (Suc n)
  have i: "i < length es" "n = length es - Suc i" using Suc.hyps(2) by simp_all
  obtain c where c: "rd1 zl (pos_of es i) = Some c" "c \<noteq> ZIP_END" using first_byte [OF assms(1), of i] i by auto
  show ?case
  proof (cases k)
    case 0
    then show ?thesis using c i by (subst index_forward.simps) simp
  next
    case k: (Suc k')
    have "index_forward zl (pos_of es (Suc i)) (int k') = Some (if Suc i + k' < length es then (pos_of es (Suc i + k'), -1)
      else (pos_of es (length es), int (Suc i + k' - length es)))"
      using Suc.hyps(1) [OF i(2), of k'] i(1) by simp
    moreover have "index_forward zl (pos_of es i) (int k) = index_forward zl (pos_of es (Suc i)) (int k')"
      using c k raw_length [OF assms(1) i(1)] by (subst index_forward.simps) (simp add: pos_Suc [OF i(1)])
    ultimately show ?thesis using k by simp
  qed
qed

lemma index_back_at:
  assumes "zl_rep zl es" "i < length es"
  shows "index_back zl (pos_of es i) (prev_len (take i es)) (int k) =
    Some (pos_of es (i - k), if k < i then -1 else int (k - i))"
  using assms(2)
proof (induction i arbitrary: k)
  case 0
  then show ?case by (subst index_back.simps) (simp add: prev_len_def)
next
  case (Suc i)
  then have i: "i < length es" by simp
  obtain ps where ps: "ZIP_DECODE_PREVLEN zl (pos_of es i) = Some (ps, prev_len (take i es))"
    using prevlen_at [OF assms(1) i] by blast
  show ?case
  proof (cases k)
    case 0
    then show ?thesis using ent_len_ge [of "es ! i"] by (subst index_back.simps) (simp add: prev_len_take i)
  next
    case (Suc k')
    then show ?thesis
      using ent_len_ge [of "es ! i"] Suc.IH [OF i, of k'] ps
      by (subst index_back.simps) (simp add: prev_len_take i pos_Suc [OF i])
  qed
qed

lemma tail_offset:
  assumes "zl_rep zl es" "length zl < 4294967296"
  shows "ZIPLIST_TAIL_OFFSET zl = pos_of es (length es - 1)"
proof -
  obtain n where z: "zl = mk_zl (int (11 + length (entries es))) (int (10 + last_off 0 es)) (int n) (entries es @ [255])"
    "length zl = 11 + length (entries es)" by (rule zl_repE [OF assms(1)])
  have "nat (int (10 + last_off 0 es) mod 4294967296) = 10 + last_off 0 es"
    using last_off_le [of es] assms(2) z(2) by simp
  then show ?thesis by (simp add: z(1) pos_of_def last_off_def butlast_conv_take)
qed

lemma ziplistIndex_forward:
  assumes "zl_rep zl es"
  shows "ziplistIndex zl (int k) = Some (if k < length es then Some (pos_of es k) else None)"
proof -
  have f: "index_forward zl ZIPLIST_HEADER_SIZE (int k) = Some (if k < length es then (pos_of es k, -1)
    else (pos_of es (length es), int (k - length es)))"
    using index_forward_at [OF assms, of 0 k] by (simp add: pos_of_def)
  show ?thesis
  proof (cases "k < length es")
    case True
    then obtain c where "rd1 zl (pos_of es k) = Some c" "c \<noteq> ZIP_END" using first_byte [OF assms, of k] by auto
    then show ?thesis using f True by (simp add: ziplistIndex_def)
  next
    case False
    obtain c where "rd1 zl (pos_of es (length es)) = Some c" "c = ZIP_END" using first_byte [OF assms, of "length es"] by auto
    then show ?thesis using f False by (simp add: ziplistIndex_def)
  qed
qed

lemma ziplistIndex_backward:
  assumes "zl_rep zl es" "length zl < 4294967296"
  shows "ziplistIndex zl (- int k - 1) = Some (if k < length es then Some (pos_of es (length es - 1 - k)) else None)"
proof (cases "es = []")
  case True
  then obtain c where "rd1 zl (pos_of es 0) = Some c" "c = ZIP_END" using first_byte [OF assms(1), of 0] by auto
  then show ?thesis using tail_offset [OF assms] True by (simp add: ziplistIndex_def Let_def)
next
  case False
  define l where "l = length es - 1"
  have l: "l < length es" using False by (simp add: l_def)
  obtain c where c: "rd1 zl (pos_of es l) = Some c" "c \<noteq> ZIP_END" using first_byte [OF assms(1), of l] l by auto
  obtain ps where ps: "ZIP_DECODE_PREVLEN zl (pos_of es l) = Some (ps, prev_len (take l es))"
    using prevlen_at [OF assms(1) l] by blast
  have lk: "l - k < length es" using l by simp
  then obtain d where d: "rd1 zl (pos_of es (l - k)) = Some d" "d \<noteq> ZIP_END"
    using first_byte [OF assms(1), of "l - k"] by auto
  have "k < length es \<longleftrightarrow> k \<le> l" using l by (auto simp: l_def)
  then show ?thesis
    using c ps d index_back_at [OF assms(1) l, of k] tail_offset [OF assms, folded l_def] l
    by (auto simp: ziplistIndex_def Let_def l_def)
qed

section \<open>Reading an entry\<close>

text \<open>The value an entry yields and the string it stands for.\<close>

definition zval :: "bytes \<Rightarrow> zvalue" where
  "zval s = (case zipTryEncoding s of Some (v, e) \<Rightarrow> ZInt v | None \<Rightarrow> ZStr s)"

fun zvalue_bytes :: "zvalue \<Rightarrow> bytes" where
  "zvalue_bytes (ZStr x) = x"
| "zvalue_bytes (ZInt v) = ll_repr v"

lemma zvalue_bytes_zval: "zvalue_bytes (zval s) = s"
  using int_encodings(6) [of s] by (auto simp: zval_def split: option.splits)

lemma load_bytes:
  assumes "in_signed n v" "0 < n"
  shows "to_signed n (le_uint (le_bytes n v)) = v"
  using assms by (simp add: le_uint_bytes to_signed_mod)

lemma load_24:
  assumes "- 8388608 \<le> v" "v \<le> 8388607"
  shows "to_signed 4 (le_uint (0 # drop 1 (le_bytes 4 (v * 256)))) div 256 = v"
proof -
  have "(4 :: nat) = Suc 3" by simp
  then have "le_bytes 4 (v * 256) = word_of_int (v * 256) # le_bytes 3 (v * 256 div 256)" by (simp only: le_bytes.simps)
  moreover have "(256 :: u8) = 0" by simp
  then have "(word_of_int (v * 256) :: u8) = 0" by (metis mult_zero_right wi_hom_mult word_of_int_numeral)
  ultimately have "0 # drop 1 (le_bytes 4 (v * 256)) = le_bytes 4 (v * 256)" by simp
  moreover have "in_signed 4 (v * 256)" using assms by (simp add: in_signed_def)
  ultimately show ?thesis using load_bytes [of 4 "v * 256"] by simp
qed

lemma load_imm:
  "\<forall>n \<in> set [0..12]. uint ((0xF1 + word_of_int n :: u8) AND 0x0F) - 1 = n \<and>
    (0xF1 :: u8) \<le> 0xF1 + word_of_int n \<and> 0xF1 + word_of_int n \<le> (0xFD :: u8)"
  by code_simp

lemma zipLoadInteger_at:
  assumes "zipTryEncoding s = Some (v, e)" "p = length P"
  shows "zipLoadInteger (P @ payload s @ R) p e = Some v"
proof -
  have pay: "payload s = the (zipSaveInteger v e)" using assms(1) by (simp add: payload_def)
  have i64: "is_int64 v" by (rule int_encodings(5) [OF assms(1)])
  have v: "string2ll s = Some v" using assms(1) by (auto simp: zipTryEncoding_def split: if_splits option.splits)
  consider (imm) "0 \<le> v" "v \<le> 12" "e = 0xF1 + word_of_int v" | (w8) "- 128 \<le> v" "v \<le> 127" "e = 0xFE"
    | (w16) "- 32768 \<le> v" "v \<le> 32767" "e = 0xC0" | (w24) "- 8388608 \<le> v" "v \<le> 8388607" "e = 0xF0"
    | (w32) "- 2147483648 \<le> v" "v \<le> 2147483647" "e = 0xD0" | (w64) "e = 0xE0"
    using assms(1) v by (auto simp: zipTryEncoding_def split: if_splits)
  then show ?thesis
  proof cases
    case imm
    have "v \<in> set [0..12]" using imm(1,2) by simp
    note b = load_imm [THEN bspec, OF this, folded imm(3)]
    then have "e \<noteq> 0xFE" "e \<noteq> 0xC0" "e \<noteq> 0xF0" "e \<noteq> 0xD0" "e \<noteq> 0xE0" by auto
    then show ?thesis using b by (simp add: zipLoadInteger_def)
  next
    case w8
    then show ?thesis using load_bytes [of 1 v] rd_at [OF assms(2), of 1 "le_bytes 1 v" R]
      by (simp add: zipLoadInteger_def pay zipSaveInteger_def in_signed_def)
  next
    case w16
    then show ?thesis using load_bytes [of 2 v] rd_at [OF assms(2), of 2 "le_bytes 2 v" R]
      by (simp add: zipLoadInteger_def pay zipSaveInteger_def in_signed_def)
  next
    case w24
    then show ?thesis using load_24 [of v] rd_at [OF assms(2), of 3 "drop 1 (le_bytes 4 (v * 256))" R]
      by (simp add: zipLoadInteger_def pay zipSaveInteger_def)
  next
    case w32
    then show ?thesis using load_bytes [of 4 v] rd_at [OF assms(2), of 4 "le_bytes 4 v" R]
      by (simp add: zipLoadInteger_def pay zipSaveInteger_def in_signed_def)
  next
    case w64
    then show ?thesis using load_bytes [of 8 v] rd_at [OF assms(2), of 8 "le_bytes 8 v" R] i64
      by (simp add: zipLoadInteger_def pay zipSaveInteger_def in_signed_def int_range)
  qed
qed

lemma dec_enc_str: "ZIP_IS_STR (dec_enc s) \<longleftrightarrow> zipTryEncoding s = None"
proof (cases "zipTryEncoding s")
  case (Some ve)
  then show ?thesis using int_encodings(1) [of s "fst ve" "snd ve"] by (cases ve) (simp add: dec_enc_def enc_of_def)
qed (simp add: dec_enc_def ZIP_IS_STR_def)

lemma dec_enc_int: "zipTryEncoding s = Some (v, e) \<Longrightarrow> dec_enc s = e"
  by (simp add: dec_enc_def enc_of_def)

lemma payload_str: "zipTryEncoding s = None \<Longrightarrow> payload s = s"
  by (simp add: payload_def)

text \<open>The header fields and the payload of the entry at index \<open>i\<close>.\<close>

definition prev_width :: "zraw \<Rightarrow> nat" where
  "prev_width e = (if fst e then 5 else 1)"

definition data_off :: "zraw list \<Rightarrow> nat \<Rightarrow> nat" where
  "data_off es i = pos_of es i + (prev_width (es ! i) + ls_of (zstr (es ! i)))"

lemma entry_at:
  assumes "zl_rep zl es" "i < length es"
  shows "\<exists>f. zipEntry zl (pos_of es i) = Some f \<and> ze_encoding f = dec_enc (zstr (es ! i)) \<and>
      ze_len f = length (payload (zstr (es ! i))) \<and> pos_of es i + headersize f = data_off es i"
    "ZIP_DECODE_LENGTH zl (pos_of es i + prev_width (es ! i)) =
      Some (dec_enc (zstr (es ! i)), ls_of (zstr (es ! i)), length (payload (zstr (es ! i))))"
    "rd zl (data_off es i) (length (payload (zstr (es ! i)))) = Some (payload (zstr (es ! i)))"
    "zipTryEncoding (zstr (es ! i)) = Some (v, e) \<Longrightarrow> zipLoadInteger zl (data_off es i) e = Some v"
    "data_off es i + length (payload (zstr (es ! i))) = pos_of es (Suc i)"
proof -
  define s where "s = zstr (es ! i)"
  define x where "x = es ! i"
  define R where "R = entries (drop (Suc i) es) @ [255]"
  obtain P where P: "zl = P @ entry_bytes x @ R" "pos_of es i = length P" "raw_ok x"
    using zl_at [OF assms] by (metis x_def R_def)
  define P' where "P' = P @ prev_bytes (fst x) (fst (snd x)) @ zipEncodeLength (enc_of s) (length s)"
  have zl: "zl = P' @ payload s @ R" by (simp add: P P'_def entry_bytes_def enc_str_def s_def x_def)
  have lP': "data_off es i = length P'"
    by (simp add: data_off_def P'_def ls_of_def length_prev_bytes P(2) prev_width_def s_def x_def)
  show "\<exists>f. zipEntry zl (pos_of es i) = Some f \<and> ze_encoding f = dec_enc (zstr (es ! i)) \<and>
      ze_len f = length (payload (zstr (es ! i))) \<and> pos_of es i + headersize f = data_off es i"
    using zipEntry_at [OF P(2,3), of R] by (simp add: P(1) data_off_def prev_width_def x_def)
  show "ZIP_DECODE_LENGTH zl (pos_of es i + prev_width (es ! i)) =
      Some (dec_enc (zstr (es ! i)), ls_of (zstr (es ! i)), length (payload (zstr (es ! i))))"
    using decode_entry_length [OF P(2,3), of R] by (simp add: P(1) prev_width_def x_def)
  show "rd zl (data_off es i) (length (payload (zstr (es ! i)))) = Some (payload (zstr (es ! i)))"
    using rd_at [OF lP' refl] by (simp add: zl s_def)
  show "zipLoadInteger zl (data_off es i) e = Some v" if "zipTryEncoding (zstr (es ! i)) = Some (v, e)"
    using zipLoadInteger_at [OF that lP'] by (simp add: zl s_def)
  show "data_off es i + length (payload (zstr (es ! i))) = pos_of es (Suc i)"
    by (simp add: data_off_def pos_Suc [OF assms(2)] ent_len_eq prev_width_def)
qed

lemma ziplistGet_at:
  assumes "zl_rep zl es" "i < length es"
  shows "ziplistGet zl (pos_of es i) = Some (Some (zval (zstr (es ! i))))"
proof -
  obtain c where c: "rd1 zl (pos_of es i) = Some c" "c \<noteq> ZIP_END" using first_byte [OF assms(1), of i] assms(2) by auto
  obtain f where f: "zipEntry zl (pos_of es i) = Some f" "ze_encoding f = dec_enc (zstr (es ! i))"
    "ze_len f = length (payload (zstr (es ! i)))" "pos_of es i + headersize f = data_off es i"
    using entry_at(1) [OF assms] by blast
  show ?thesis
  proof (cases "zipTryEncoding (zstr (es ! i))")
    case None
    then show ?thesis using c f entry_at(3) [OF assms] by (simp add: ziplistGet_def dec_enc_str zval_def payload_str)
  next
    case (Some ve)
    obtain v e where "ve = (v, e)" by (cases ve)
    then show ?thesis using c f entry_at(4) [OF assms] Some dec_enc_str [of "zstr (es ! i)"] dec_enc_int [of "zstr (es ! i)"]
      by (simp add: ziplistGet_def zval_def)
  qed
qed

section \<open>Comparing and searching\<close>

text \<open>The test the code makes for an entry holding \<open>s\<close>: by value for integers, by bytes
  otherwise.\<close>

lemma int_equal:
  assumes "zipTryEncoding s = Some (v, e)" "zipTryEncoding t = Some (w, d)"
  shows "v = w \<longleftrightarrow> s = t"
proof
  assume "v = w"
  then show "s = t" using int_encodings(6) [OF assms(1)] int_encodings(6) [OF assms(2)] by (simp only:)
next
  assume "s = t"
  then show "v = w" using assms by simp
qed

lemma ziplistCompare_at:
  assumes "zl_rep zl es" "i < length es"
  shows "ziplistCompare zl (pos_of es i) t = Some (zstr (es ! i) = t)"
proof -
  obtain c where c: "rd1 zl (pos_of es i) = Some c" "c \<noteq> ZIP_END" using first_byte [OF assms(1), of i] assms(2) by auto
  obtain f where f: "zipEntry zl (pos_of es i) = Some f" "ze_encoding f = dec_enc (zstr (es ! i))"
    "ze_len f = length (payload (zstr (es ! i)))" "pos_of es i + headersize f = data_off es i"
    using entry_at(1) [OF assms] by blast
  show ?thesis
  proof (cases "zipTryEncoding (zstr (es ! i))")
    case None
    then show ?thesis using c f entry_at(3) [OF assms] by (auto simp: ziplistCompare_def dec_enc_str payload_str)
  next
    case (Some ve)
    obtain v e where ve: "ve = (v, e)" by (cases ve)
    then have d: "\<not> ZIP_IS_STR (ze_encoding f)" "zipLoadInteger zl (data_off es i) (ze_encoding f) = Some v"
      using f(2) entry_at(4) [OF assms] Some dec_enc_str [of "zstr (es ! i)"] dec_enc_int [of "zstr (es ! i)"] by auto
    show ?thesis
    proof (cases "zipTryEncoding t")
      case None
      then show ?thesis using c f d Some by (auto simp: ziplistCompare_def)
    next
      case (Some wd)
      obtain w d where "wd = (w, d)" by (cases wd)
      then show ?thesis using c f d Some \<open>zipTryEncoding (zstr (es ! i)) = Some ve\<close> ve int_equal
        by (auto simp: ziplistCompare_def)
    qed
  qed
qed

text \<open>The step of the search at an entry.\<close>

lemma ziplistFind_step:
  assumes "zl_rep zl es" "i < length es"
  shows "ziplistFind_loop zl (pos_of es i) t skip k =
    (if k = 0 \<and> zstr (es ! i) = t then Some (Some (pos_of es i))
     else ziplistFind_loop zl (pos_of es (Suc i)) t skip (if k = 0 then skip else k - 1))"
proof -
  define s where "s = zstr (es ! i)"
  obtain c where c: "rd1 zl (pos_of es i) = Some c" "c \<noteq> ZIP_END" using first_byte [OF assms(1), of i] assms(2) by auto
  have ps: "ZIP_DECODE_PREVLENSIZE zl (pos_of es i) = Some (prev_width (es ! i))"
    using prevlen_at [OF assms] by (auto simp: prev_width_def)
  note d = entry_at(2,3,5) [OF assms, folded s_def]
  define found where "found = (if k = 0 then
             (if ZIP_IS_STR (dec_enc s) then
                (if length (payload s) = length t
                 then do { x \<leftarrow> rd zl (data_off es i) (length (payload s)); Some (x = t) } else Some False)
              else
                (case zipTryEncoding t of
                   None \<Rightarrow> Some False
                 | Some (vll, _) \<Rightarrow> do { ll \<leftarrow> zipLoadInteger zl (data_off es i) (dec_enc s); Some (ll = vll) }))
           else Some False)"
  have off: "pos_of es i + prev_width (es ! i) + ls_of s = data_off es i" by (simp add: data_off_def s_def)
  have "found = Some (k = 0 \<and> s = t)"
  proof (cases "zipTryEncoding s")
    case None
    then show ?thesis using d(2) by (auto simp: found_def dec_enc_str payload_str)
  next
    case (Some ve)
    obtain v e where ve: "zipTryEncoding s = Some (v, e)" using Some by (cases ve) auto
    then have l: "\<not> ZIP_IS_STR (dec_enc s)" "zipLoadInteger zl (data_off es i) (dec_enc s) = Some v"
      using entry_at(4) [OF assms] dec_enc_str [of s] dec_enc_int [of s] by (auto simp: s_def)
    show ?thesis
    proof (cases "zipTryEncoding t")
      case None
      then have "s \<noteq> t" using ve by auto
      then show ?thesis using l None by (simp add: found_def)
    next
      case (Some wd)
      obtain w d where "zipTryEncoding t = Some (w, d)" using Some by (cases wd) auto
      then show ?thesis using l int_equal [OF ve] by (simp add: found_def)
    qed
  qed
  moreover have "ziplistFind_loop zl (pos_of es i) t skip k =
      do { b \<leftarrow> found; if b then Some (Some (pos_of es i))
           else ziplistFind_loop zl (pos_of es (Suc i)) t skip (if k = 0 then skip else k - 1) }"
    unfolding found_def by (subst ziplistFind_loop.simps)
      (simp only: c ps d(1,3) off bind.bind_lunit Let_def prod.case if_False)
  ultimately show ?thesis by (simp add: s_def)
qed

lemma ziplistFind_at:
  assumes "zl_rep zl es" "i \<le> length es"
  shows "\<exists>r. ziplistFind_loop zl (pos_of es i) t skip k = Some r \<and>
    (case r of
       None \<Rightarrow> \<forall>m. i + k + m * (skip + 1) < length es \<longrightarrow> zstr (es ! (i + k + m * (skip + 1))) \<noteq> t
     | Some p \<Rightarrow> \<exists>m. i + k + m * (skip + 1) < length es \<and> p = pos_of es (i + k + m * (skip + 1)) \<and>
         zstr (es ! (i + k + m * (skip + 1))) = t \<and> (\<forall>n<m. zstr (es ! (i + k + n * (skip + 1))) \<noteq> t))"
  using assms(2)
proof (induction "length es - i" arbitrary: i k)
  case 0
  then have i: "i = length es" by simp
  obtain c where "rd1 zl (pos_of es (length es)) = Some c" "c = ZIP_END"
    using first_byte [OF assms(1), of "length es"] by auto
  then show ?case by (subst ziplistFind_loop.simps) (simp add: i)
next
  case (Suc n)
  have i: "i < length es" "n = length es - Suc i" "Suc i \<le> length es" using Suc.hyps(2) by simp_all
  note step = ziplistFind_step [OF assms(1) i(1), of t skip k]
  consider (found) "k = 0" "zstr (es ! i) = t" | (miss) "k = 0" "zstr (es ! i) \<noteq> t" | (skip) "k > 0" by blast
  then show ?case
  proof cases
    case found
    then show ?thesis using step i(1) by (intro exI [of _ "Some (pos_of es i)"]) (auto intro!: exI [of _ 0])
  next
    case skip
    have eq: "Suc i + (k - 1) = i + k" using skip by simp
    have "ziplistFind_loop zl (pos_of es i) t skip k = ziplistFind_loop zl (pos_of es (Suc i)) t skip (k - 1)"
      using step skip by simp
    then show ?thesis using Suc.hyps(1) [OF i(2,3), of "k - 1"] unfolding eq by (simp only:)
  next
    case miss
    have idx: "i + Suc m * (skip + 1) = Suc i + skip + m * (skip + 1)" for m by simp
    obtain r where r: "ziplistFind_loop zl (pos_of es (Suc i)) t skip skip = Some r"
      "case r of
       None \<Rightarrow> \<forall>m. Suc i + skip + m * (skip + 1) < length es \<longrightarrow> zstr (es ! (Suc i + skip + m * (skip + 1))) \<noteq> t
     | Some p \<Rightarrow> \<exists>m. Suc i + skip + m * (skip + 1) < length es \<and> p = pos_of es (Suc i + skip + m * (skip + 1)) \<and>
         zstr (es ! (Suc i + skip + m * (skip + 1))) = t \<and> (\<forall>n<m. zstr (es ! (Suc i + skip + n * (skip + 1))) \<noteq> t)"
      using Suc.hyps(1) [OF i(2,3), of skip] by blast
    have run: "ziplistFind_loop zl (pos_of es i) t skip k = Some r" using step miss r(1) by simp
    show ?thesis
    proof (cases r)
      case None
      have "zstr (es ! (i + m * (skip + 1))) \<noteq> t" if "i + m * (skip + 1) < length es" for m
      proof (cases m)
        case 0
        then show ?thesis using miss by simp
      next
        case (Suc m')
        then show ?thesis using r(2) None that unfolding Suc idx by simp
      qed
      then show ?thesis using run None miss(1) by auto
    next
      case (Some p)
      then obtain m where m: "i + Suc m * (skip + 1) < length es" "p = pos_of es (i + Suc m * (skip + 1))"
        "zstr (es ! (i + Suc m * (skip + 1))) = t" "\<forall>n<m. zstr (es ! (i + Suc n * (skip + 1))) \<noteq> t"
        using r(2) unfolding idx by auto
      have "zstr (es ! (i + j * (skip + 1))) \<noteq> t" if "j < Suc m" for j
        using that m(4) miss(2) by (cases j) auto
      then show ?thesis using run Some m(1-3) miss(1) by (auto intro!: exI [of _ "Suc m"])
    qed
  qed
qed

section \<open>The number of entries\<close>

lemma count_entries_at:
  assumes "zl_rep zl es" "i \<le> length es"
  shows "count_entries zl (pos_of es i) = Some (length es - i)"
  using assms(2)
proof (induction "length es - i" arbitrary: i)
  case 0
  then have i: "i = length es" by simp
  obtain c where "rd1 zl (pos_of es (length es)) = Some c" "c = ZIP_END"
    using first_byte [OF assms(1), of "length es"] by auto
  then show ?case by (subst count_entries.simps) (simp add: i)
next
  case (Suc n)
  have i: "i < length es" "n = length es - Suc i" "Suc i \<le> length es" using Suc.hyps(2) by simp_all
  obtain c where c: "rd1 zl (pos_of es i) = Some c" "c \<noteq> ZIP_END" using first_byte [OF assms(1), of i] i by auto
  then show ?case
    using raw_length [OF assms(1) i(1)] Suc.hyps(1) [OF i(2,3)] i(1)
    by (subst count_entries.simps) (simp add: pos_Suc [OF i(1)])
qed

section \<open>A block as a list of strings\<close>

definition ziplist_of :: "bytes \<Rightarrow> bytes list \<Rightarrow> bool" where
  "ziplist_of zl xs \<longleftrightarrow> (\<exists>es. zl_rep zl es \<and> map zstr es = xs)"

lemma ziplist_ofE:
  assumes "ziplist_of zl xs"
  obtains es where "zl_rep zl es" "xs = map zstr es"
  using assms unfolding ziplist_of_def by blast

lemma ziplist_ofI: "zl_rep zl es \<Longrightarrow> xs = map zstr es \<Longrightarrow> ziplist_of zl xs"
  unfolding ziplist_of_def by blast

lemma ziplistNew_of: "ziplist_of ziplistNew []"
  using ziplistNew_rep by (rule ziplist_ofI) simp

lemma blob_length:
  assumes "zl_rep zl es" "length zl < 4294967296"
  shows "ZIPLIST_BYTES zl = length zl" "length zl = 11 + length (entries es)"
proof -
  obtain n where z: "zl = mk_zl (int (11 + length (entries es))) (int (10 + last_off 0 es)) (int n) (entries es @ [255])"
    "length zl = 11 + length (entries es)" by (rule zl_repE [OF assms(1)])
  then show "length zl = 11 + length (entries es)" by simp
  then have "nat (int (11 + length (entries es)) mod 4294967296) = length zl" using assms(2) by simp
  then show "ZIPLIST_BYTES zl = length zl" by (subst z(1)) (simp del: of_nat_add)
qed

lemma push_at:
  assumes "zl_rep zl es" "length zl + length s < 1073741824"
  shows "\<exists>zl'. ziplistPush zl s whr = Some zl' \<and>
    zl_rep zl' (if whr = 0 then ins_entries [] s es else ins_entries es s [])"
proof (cases "whr = 0")
  case True
  show ?thesis
  proof (cases es)
    case Nil
    then show ?thesis using insert_at_end [of zl "[]" 10 s] assms True by (simp add: ziplistPush_def)
  next
    case (Cons b bs)
    have "\<not> fst b" by (rule zl_repE [OF assms(1)]) (simp add: Cons)
    then show ?thesis using insert_before [of zl "[]" b bs 10 s] assms True Cons by (simp add: ziplistPush_def)
  qed
next
  case False
  have "ZIPLIST_ENTRY_END zl = 10 + length (entries es)"
    using blob_length [OF assms(1)] assms(2) by (simp add: ZIPLIST_ENTRY_END_def)
  then show ?thesis using insert_at_end [OF assms(1) _ assms(2)] False by (simp add: ziplistPush_def)
qed

lemma delete_at_index:
  assumes "zl_rep zl es" "length zl < 1073741824" "i < length es" "0 < num"
  shows "\<exists>zl'. ziplistDelete_num zl (pos_of es i) num = Some zl' \<and> zl_rep zl' (del_entries (take i es) (drop (i + num) es))"
proof (rule delete_at [where ds = "take num (drop i es)"])
  show "zl_rep zl (take i es @ take num (drop i es) @ drop (i + num) es)"
    using assms(1) by (metis append_take_drop_id drop_drop add.commute)
  show "length (take num (drop i es)) = num \<or> length (take num (drop i es)) < num \<and> drop (i + num) es = []" by auto
qed (use assms in \<open>auto simp: pos_of_def\<close>)

section \<open>Correctness\<close>

lemma push_of:
  assumes "ziplist_of zl xs" "length zl + length s < 1073741824"
  shows "\<exists>zl'. ziplistPush zl s whr = Some zl' \<and> ziplist_of zl' (if whr = 0 then s # xs else xs @ [s])"
proof -
  obtain es where es: "zl_rep zl es" "xs = map zstr es" by (rule ziplist_ofE [OF assms(1)])
  obtain zl' where "ziplistPush zl s whr = Some zl'" "zl_rep zl' (if whr = 0 then ins_entries [] s es else ins_entries es s [])"
    using push_at [OF es(1) assms(2), of whr] by blast
  then show ?thesis using es(2) by (auto simp: ins_entries_strs intro!: ziplist_ofI)
qed

text \<open>C5: A push at the head or at the tail always succeeds (no access outside the block) as long
  as the sizes fit, and the block then holds the strings with the new one in front or behind,
  whatever re-encodings and cascading updates the push causes.\<close>

theorem ziplistPush_correct:
  assumes "ziplist_of zl xs" "length zl + length s < 1073741824"
  shows "\<exists>zl'. ziplistPush zl s whr = Some zl' \<and> ziplist_of zl' (if whr = 0 then s # xs else xs @ [s])"
  by (rule push_of [OF assms])

theorem ziplistPush_correct_witness:
  "\<exists>zl'. ziplistPush ziplistNew [49, 50] 0 = Some zl' \<and> ziplist_of zl' [[49, 50]]"
  using ziplistPush_correct [OF ziplistNew_of, of "[49, 50]" 0] by (simp add: ziplistNew_def)

lemma ziplistIndex_pos:
  assumes "zl_rep zl es" "length zl < 1073741824" and k: "k = (if i < 0 then int (length es) + i else i)"
  shows "ziplistIndex zl i = Some (if 0 \<le> k \<and> k < int (length es) then Some (pos_of es (nat k)) else None)"
proof (cases "i < 0")
  case False
  then show ?thesis using ziplistIndex_forward [OF assms(1), of "nat i"] k by (auto simp: nat_less_iff)
next
  case True
  define j where "j = nat (- i - 1)"
  have j: "i = - int j - 1" using True by (simp add: j_def)
  have "nat k = length es - 1 - j" "0 \<le> k \<and> k < int (length es) \<longleftrightarrow> j < length es"
    using True k j by auto
  then show ?thesis using ziplistIndex_backward [OF assms(1), of j] assms(2) by (simp add: j)
qed

lemma delete_of:
  assumes "ziplist_of zl xs" "length zl < 1073741824"
    and k: "k = (if to_int32 i < 0 then int (length xs) + to_int32 i else to_int32 i)"
  shows "\<exists>zl'. ziplistDeleteRange zl i num = Some zl' \<and>
    ziplist_of zl' (if k < 0 then xs else take (nat k) xs @ drop (nat k + num) xs)"
proof -
  obtain es where es: "zl_rep zl es" "xs = map zstr es" by (rule ziplist_ofE [OF assms(1)])
  have "k = (if to_int32 i < 0 then int (length es) + to_int32 i else to_int32 i)" using k es(2) by simp
  note idx = ziplistIndex_pos [OF es(1) assms(2) this]
  show ?thesis
  proof (cases "0 \<le> k \<and> k < int (length es)")
    case False
    then show ?thesis using es(2) assms(1) idx by (auto simp: ziplistDeleteRange_def)
  next
    case k: True
    then have i: "nat k < length es" by linarith
    have idx: "ziplistIndex zl (to_int32 i) = Some (Some (pos_of es (nat k)))" using idx k by simp
    show ?thesis
    proof (cases num)
      case 0
      obtain f c where "zipEntry zl (pos_of es (nat k)) = Some f" "rd1 zl (pos_of es (nat k)) = Some c"
        using entry_at(1) [OF es(1) i] first_byte [OF es(1), of "nat k"] i by auto
      then show ?thesis using 0 idx assms(1) k by (simp add: ziplistDeleteRange_def ziplistDelete_num_def)
    next
      case (Suc n)
      then obtain zl' where "ziplistDelete_num zl (pos_of es (nat k)) num = Some zl'"
        "zl_rep zl' (del_entries (take (nat k) es) (drop (nat k + num) es))"
        using delete_at_index [OF es(1) assms(2) i, of num] by auto
      then show ?thesis using idx es(2) k
        by (auto simp: ziplistDeleteRange_def del_entries_strs take_map drop_map intro!: ziplist_ofI)
    qed
  qed
qed

text \<open>C6: Deleting \<open>num\<close> entries from index \<open>i\<close> on removes exactly these, for every \<open>i\<close> and
  \<open>num\<close>, past the end included; an index from \<open>2 ^ 31\<close> on is a negative one, \<open>2 ^ 32 - j\<close> the
  \<open>j\<close>-th entry from the end, and removes nothing when there are fewer entries.  The entry
  behind the deleted ones is linked to the one in front and the change of its size is
  carried on.\<close>

theorem ziplistDeleteRange_correct:
  assumes "ziplist_of zl xs" "length zl < 1073741824" "i < 2 ^ 32" "num < 2 ^ 32"
    and k: "k = (if i < 2 ^ 31 then int i else int (length xs) - (2 ^ 32 - int i))"
  shows "\<exists>zl'. ziplistDeleteRange zl i num = Some zl' \<and>
    ziplist_of zl' (if k < 0 then xs else take (nat k) xs @ drop (nat k + num) xs)"
proof -
  have "k = (if to_int32 i < 0 then int (length xs) + to_int32 i else to_int32 i)"
    using k to_int32_small [of i] to_int32_high [of i] assms(3) by (cases "i < 2 ^ 31") auto
  then show ?thesis by (rule delete_of [OF assms(1,2)])
qed

text \<open>Every list of strings that is small enough is represented by some block.\<close>

lemma ziplist_exists:
  "11 + sum_list (map (\<lambda>s. 18 + length s) xs) < 1073741824 \<Longrightarrow>
    \<exists>zl. ziplist_of zl xs \<and> length zl \<le> 11 + sum_list (map (\<lambda>s. 18 + length s) xs)"
proof (induction xs rule: rev_induct)
  case Nil
  have "length ziplistNew = 11" by (simp add: ziplistNew_def)
  then show ?case using ziplistNew_of by (intro exI [of _ ziplistNew]) simp
next
  case (snoc s xs)
  then obtain zl where zl: "ziplist_of zl xs" "length zl \<le> 11 + sum_list (map (\<lambda>s. 18 + length s) xs)" by auto
  obtain es where es: "zl_rep zl es" "xs = map zstr es" by (rule ziplist_ofE [OF zl(1)])
  obtain zl' where z': "zl_rep zl' (ins_entries es s [])"
    using push_at [OF es(1), of s 1] zl(2) snoc.prems by auto
  have "length zl = 11 + length (entries es)" using blob_length [OF es(1)] zl(2) snoc.prems by simp
  moreover have "length zl' = 11 + length (entries (ins_entries es s []))" by (rule zl_repE [OF z'])
  ultimately have "length zl' \<le> 11 + sum_list (map (\<lambda>s. 18 + length s) (xs @ [s]))"
    using zl(2) new_entry_size [of "prev_len es" s] by (simp add: ins_entries_def)
  moreover have "ziplist_of zl' (xs @ [s])" using ziplist_ofI [OF z'] es(2) ins_entries_strs [of es s "[]"] by simp
  ultimately show ?case by blast
qed

lemma ziplist_ab: "\<exists>zl. ziplist_of zl [[97], [49]] \<and> length zl < 1073741824"
proof -
  obtain zl where "ziplist_of zl [[97], [49]]" "length zl \<le> 11 + sum_list (map (\<lambda>s. 18 + length s) [[97], [49 :: u8]])"
    using ziplist_exists [of "[[97], [49]]"] by auto
  then show ?thesis by auto
qed

theorem ziplistDeleteRange_correct_witness:
  "\<exists>zl zl' zl''. ziplist_of zl [[97], [49]] \<and>
    ziplistDeleteRange zl 0 1 = Some zl' \<and> ziplist_of zl' [[49]] \<and>
    ziplistDeleteRange zl 4294967295 1 = Some zl'' \<and> ziplist_of zl'' [[97]]"
proof -
  obtain zl where zl: "ziplist_of zl [[97], [49]]" "length zl < 1073741824" using ziplist_ab by blast
  obtain zl' where "ziplistDeleteRange zl 0 1 = Some zl'" "ziplist_of zl' [[49]]"
    using ziplistDeleteRange_correct [OF zl, of 0 1 0] by auto
  moreover obtain zl'' where "ziplistDeleteRange zl 4294967295 1 = Some zl''" "ziplist_of zl'' [[97]]"
    using ziplistDeleteRange_correct [OF zl, of 4294967295 1 1] by auto
  ultimately show ?thesis using zl(1) by blast
qed

text \<open>C7: An index, counted from the head or, when negative, from the tail, finds the entry with
  that position and reading it yields the stored string, be it kept as a string or as one of the
  integer encodings; an index out of range finds nothing.\<close>

theorem ziplistIndex_Get_correct:
  assumes "ziplist_of zl xs" "length zl < 1073741824"
    and k: "k = (if i < 0 then int (length xs) + i else i)"
  shows "if 0 \<le> k \<and> k < int (length xs)
    then \<exists>p v. ziplistIndex zl i = Some (Some p) \<and> ziplistGet zl p = Some (Some v) \<and> zvalue_bytes v = xs ! nat k
    else ziplistIndex zl i = Some None"
proof -
  obtain es where es: "zl_rep zl es" "xs = map zstr es" by (rule ziplist_ofE [OF assms(1)])
  have idx: "ziplistIndex zl i = Some (if 0 \<le> k \<and> k < int (length xs) then Some (pos_of es (nat k)) else None)"
    using ziplistIndex_pos [OF es(1) assms(2), of k i] k es(2) by simp
  have get: "ziplistGet zl (pos_of es (nat k)) = Some (Some (zval (xs ! nat k)))" if "0 \<le> k" "k < int (length xs)"
    using ziplistGet_at [OF es(1), of "nat k"] that es(2) by (simp add: nat_less_iff)
  show ?thesis using idx get zvalue_bytes_zval by auto
qed

theorem ziplistIndex_Get_correct_witness:
  "\<exists>zl p v. ziplist_of zl [[97], [49]] \<and> ziplistIndex zl (-1) = Some (Some p) \<and>
    ziplistGet zl p = Some (Some v) \<and> zvalue_bytes v = [49]"
proof -
  obtain zl where zl: "ziplist_of zl [[97], [49]]" "length zl < 1073741824" using ziplist_ab by blast
  from ziplistIndex_Get_correct [OF zl refl, of "-1"]
  obtain p v where "ziplistIndex zl (-1) = Some (Some p)" "ziplistGet zl p = Some (Some v)" "zvalue_bytes v = [49]"
    by simp blast
  with zl(1) show ?thesis by blast
qed

text \<open>A search that looks at every \<open>(skip + 1)\<close>-th entry returns the first of these that
  equals the string, by value for entries kept as integers, and \<open>NULL\<close> if there is none; hash
  and sorted set lookups in ziplists rest on this.\<close>

theorem ziplistFind_correct:
  assumes "ziplist_of zl xs"
  shows "\<exists>r. ziplistFind zl ZIPLIST_HEADER_SIZE t skip = Some r \<and>
    (case r of
       None \<Rightarrow> \<forall>m. m * (skip + 1) < length xs \<longrightarrow> xs ! (m * (skip + 1)) \<noteq> t
     | Some p \<Rightarrow> \<exists>m. m * (skip + 1) < length xs \<and> ziplistIndex zl (int (m * (skip + 1))) = Some (Some p) \<and>
         xs ! (m * (skip + 1)) = t \<and> (\<forall>n<m. xs ! (n * (skip + 1)) \<noteq> t))"
proof -
  obtain es where es: "zl_rep zl es" "xs = map zstr es" by (rule ziplist_ofE [OF assms(1)])
  have pos0: "pos_of es 0 = ZIPLIST_HEADER_SIZE" by (simp add: pos_of_def)
  obtain r where r: "ziplistFind zl ZIPLIST_HEADER_SIZE t skip = Some r"
    "case r of
       None \<Rightarrow> \<forall>m. m * (skip + 1) < length es \<longrightarrow> zstr (es ! (m * (skip + 1))) \<noteq> t
     | Some p \<Rightarrow> \<exists>m. m * (skip + 1) < length es \<and> p = pos_of es (m * (skip + 1)) \<and>
         zstr (es ! (m * (skip + 1))) = t \<and> (\<forall>n<m. zstr (es ! (n * (skip + 1))) \<noteq> t)"
    using ziplistFind_at [OF es(1) le0, of t skip 0] unfolding ziplistFind_def pos0 add_0 by blast
  have nth: "xs ! i = zstr (es ! i)" if "i < length es" for i using that es(2) by simp
  have len: "length xs = length es" using es(2) by simp
  show ?thesis
  proof (cases r)
    case None
    then show ?thesis using r nth by (auto simp: len)
  next
    case (Some p)
    then obtain m where m: "m * (skip + 1) < length es" "p = pos_of es (m * (skip + 1))"
      "zstr (es ! (m * (skip + 1))) = t" "\<forall>n<m. zstr (es ! (n * (skip + 1))) \<noteq> t"
      using r(2) by auto
    have "n * (skip + 1) < length es" if "n < m" for n
    proof -
      have "n * (skip + 1) \<le> m * (skip + 1)" using that by (intro mult_le_mono1) simp
      then show ?thesis using m(1) by (rule le_less_trans)
    qed
    then have "\<forall>n<m. xs ! (n * (skip + 1)) \<noteq> t" using m(4) nth by simp
    moreover have "ziplistIndex zl (int (m * (skip + 1))) = Some (Some p)"
      unfolding ziplistIndex_forward [OF es(1)] using m(1,2) by simp
    moreover have "xs ! (m * (skip + 1)) = t" using nth [OF m(1)] m(3) by (rule trans)
    moreover have "m * (skip + 1) < length xs" using m(1) len by (simp only:)
    ultimately show ?thesis using r(1) unfolding Some by (intro exI [of _ "Some p"]) (simp only: option.case, blast)
  qed
qed

theorem ziplistFind_correct_witness:
  "\<exists>zl r. ziplist_of zl [[97], [49]] \<and> ziplistFind zl ZIPLIST_HEADER_SIZE [49] 1 = Some r \<and> r = None"
proof -
  obtain zl where zl: "ziplist_of zl [[97], [49]]" using ziplist_ab by blast
  from ziplistFind_correct [OF this, of "[49]" 1]
  obtain r where r: "ziplistFind zl ZIPLIST_HEADER_SIZE [49] 1 = Some r"
    and some: "\<And>p. r = Some p \<Longrightarrow> \<exists>m. m * (1 + 1) < length [[97], [49 :: u8]] \<and> [[97], [49 :: u8]] ! (m * (1 + 1)) = [49]"
    by (elim exE conjE) (auto split: option.splits)
  have "r = None"
  proof (rule ccontr)
    assume "r \<noteq> None"
    then obtain p where "r = Some p" by blast
    from some [OF this] show False by (elim exE conjE) (case_tac m, simp_all)
  qed
  with r(1) zl show ?thesis by blast
qed

lemma ziplistLen_at:
  assumes "zl_rep zl es"
  shows "\<exists>zl'. ziplistLen zl = Some (length es, zl') \<and> zl_rep zl' es"
proof -
  obtain n where z: "zl = mk_zl (int (11 + length (entries es))) (int (10 + last_off 0 es)) (int n) (entries es @ [255])"
    and n: "n = length es \<and> n < 65535 \<or> n = 65535" and ch: "chain 0 es" and hd: "es \<noteq> [] \<longrightarrow> \<not> fst (hd es)"
    by (rule zl_repE [OF assms])
  have L: "ZIPLIST_LENGTH zl = n" using n by (auto simp: z)
  show ?thesis
  proof (cases "n < 65535")
    case True
    then show ?thesis using L n assms by (simp add: ziplistLen_def)
  next
    case False
    define k where "k = (if length es < 65535 then length es else n)"
    have c: "count_entries zl ZIPLIST_HEADER_SIZE = Some (length es)"
      using count_entries_at [OF assms, of 0] by (simp add: pos_of_def)
    have "ziplistLen zl = Some (length es, mk_zl (int (11 + length (entries es))) (int (10 + last_off 0 es)) (int k) (entries es @ [255]))"
      using False L c by (simp add: ziplistLen_def k_def) (simp add: z)
    moreover have "zl_rep (mk_zl (int (11 + length (entries es))) (int (10 + last_off 0 es)) (int k) (entries es @ [255])) es"
      by (rule zl_repI) (use ch hd n False in \<open>auto simp: k_def\<close>)
    ultimately show ?thesis by blast
  qed
qed

text \<open>The length is right also when the 16-bit counter of the header is saturated: then the
  entries are counted, and the counter is repaired when it fits again.\<close>

theorem ziplistLen_correct:
  assumes "ziplist_of zl xs"
  shows "\<exists>zl'. ziplistLen zl = Some (length xs, zl') \<and> ziplist_of zl' xs"
proof -
  obtain es where es: "zl_rep zl es" "xs = map zstr es" by (rule ziplist_ofE [OF assms])
  then show ?thesis using ziplistLen_at [OF es(1)] by (auto intro: ziplist_ofI)
qed

theorem ziplistLen_correct_witness:
  "\<exists>zl. ziplist_of zl [[97], [49]] \<and> (\<exists>zl'. ziplistLen zl = Some (2, zl') \<and> ziplist_of zl' [[97], [49]])"
proof -
  obtain zl where zl: "ziplist_of zl [[97], [49]]" using ziplist_ab by blast
  show ?thesis using zl ziplistLen_correct [OF zl] by auto
qed

text \<open>Deleting the entry under a pointer while iterating leaves the pointer on the entry that
  followed, or on the end.\<close>

theorem ziplistDelete_correct:
  assumes "ziplist_of zl xs" "length zl < 1073741824" "ziplistIndex zl (int i) = Some (Some p)"
  shows "\<exists>zl'. ziplistDelete zl p = Some (zl', p) \<and> ziplist_of zl' (take i xs @ drop (Suc i) xs) \<and>
    ziplistIndex zl' (int i) = Some (if Suc i < length xs then Some p else None)"
proof -
  obtain es where es: "zl_rep zl es" "xs = map zstr es" by (rule ziplist_ofE [OF assms(1)])
  have i: "i < length es" "p = pos_of es i"
    using assms(3) ziplistIndex_forward [OF es(1), of i] by (auto split: if_splits)
  define es' where "es' = del_entries (take i es) (drop (i + 1) es)"
  obtain zl' where z: "ziplistDelete_num zl p 1 = Some zl'" "zl_rep zl' es'"
    using delete_at_index [OF es(1) assms(2) i(1), of 1] i(2) by (auto simp: es'_def)
  have "take i es' = take i es" using i(1)
    by (cases "drop (i + 1) es") (auto simp: es'_def del_entries_def)
  then have "pos_of es' i = p" by (simp add: pos_of_def i(2))
  moreover have strs: "map zstr es' = take i xs @ drop (Suc i) xs"
    by (simp add: es'_def del_entries_strs es(2) take_map drop_map)
  moreover have "length es' = length xs - 1" using arg_cong [OF strs, of length] i(1) es(2) by simp
  ultimately show ?thesis
    using z ziplistIndex_forward [OF z(2), of i] by (auto simp: ziplistDelete_def intro!: ziplist_ofI)
qed

theorem ziplistDelete_correct_witness:
  "\<exists>zl zl' p. ziplist_of zl [[97], [49]] \<and> ziplistDelete zl p = Some (zl', p) \<and> ziplist_of zl' [[49]]"
proof -
  obtain zl where zl: "ziplist_of zl [[97], [49]]" "length zl < 1073741824" using ziplist_ab by blast
  obtain es where es: "zl_rep zl es" "[[97], [49]] = map zstr es" by (rule ziplist_ofE [OF zl(1)])
  have "length es = 2" using arg_cong [OF es(2), of length] by simp
  then have "ziplistIndex zl (int 0) = Some (Some (pos_of es 0))" using ziplistIndex_forward [OF es(1), of 0] by simp
  from ziplistDelete_correct [OF zl this] zl(1) show ?thesis by auto
qed

section \<open>Insertion at a position\<close>

lemma first_is_254:
  assumes "zl_rep zl es" "i < length es" "fst (es ! i)"
  shows "zl ! pos_of es i = 254"
proof -
  obtain P where "zl = P @ entry_bytes (es ! i) @ entries (drop (Suc i) es) @ [255]" "length P = pos_of es i"
    by (rule zl_at [OF assms(1,2)])
  moreover have "entry_bytes (es ! i) = 254 # le_bytes 4 (int (fst (snd (es ! i)))) @ enc_str (zstr (es ! i))"
    using assms(3) by (simp add: entry_bytes_def prev_bytes_def)
  ultimately show ?thesis by (metis append_Cons nth_append_length)
qed

text \<open>An insertion in front of any entry succeeds and puts the string there, if the length
  field in that entry has one byte, or if the new entry is not smaller than the 4 bytes this
  field may give back.\<close>

theorem ziplistInsert_correct:
  assumes "ziplist_of zl xs" "length zl + length s < 1073741824" "ziplistIndex zl (int i) = Some (Some p)"
    and "zl ! p = 254 \<longrightarrow> zipTryEncoding s = None \<and> 2 \<le> length s"
  shows "\<exists>zl'. ziplistInsert zl p s = Some zl' \<and> ziplist_of zl' (take i xs @ s # drop i xs)"
proof -
  obtain es where es: "zl_rep zl es" "xs = map zstr es" by (rule ziplist_ofE [OF assms(1)])
  have i: "i < length es" "p = pos_of es i"
    using assms(3) ziplistIndex_forward [OF es(1), of i] by (auto split: if_splits)
  have split: "es = take i es @ es ! i # drop (Suc i) es" by (rule id_take_nth_drop [OF i(1)])
  have room: "4 \<le> ent_len (new_entry (prev_len (take i es)) s)" if "fst (es ! i)"
    using first_is_254 [OF es(1) i(1) that] assms(4) i(2)
    by (simp add: ent_len_eq payload_str ls_of_def zipEncodeLength_def new_entry_def)
  obtain zl' where "ziplistInsert zl p s = Some zl'" "zl_rep zl' (ins_entries (take i es) s (es ! i # drop (Suc i) es))"
    using insert_before [of zl "take i es" "es ! i" "drop (Suc i) es" p s] es(1) split i(2) assms(2) room
    by (auto simp: pos_of_def)
  moreover have "map zstr (es ! i # drop (Suc i) es) = drop i xs"
    using i(1) by (simp add: es(2) Cons_nth_drop_Suc drop_map)
  ultimately show ?thesis using es(2) by (auto simp: ins_entries_strs take_map intro!: ziplist_ofI)
qed

theorem ziplistInsert_correct_witness:
  "\<exists>zl p zl'. ziplist_of zl [[97], [49]] \<and> ziplistIndex zl (int 1) = Some (Some p) \<and>
    ziplistInsert zl p [98, 99] = Some zl' \<and> ziplist_of zl' [[97], [98, 99], [49]]"
proof -
  obtain zl where zl: "ziplist_of zl [[97], [49]]" "length zl \<le> 11 + sum_list (map (\<lambda>s. 18 + length s) [[97], [49 :: u8]])"
    using ziplist_exists [of "[[97], [49]]"] by auto
  obtain es where es: "zl_rep zl es" "[[97], [49]] = map zstr es" by (rule ziplist_ofE [OF zl(1)])
  have "length es = 2" using arg_cong [OF es(2), of length] by simp
  then have idx: "ziplistIndex zl (int 1) = Some (Some (pos_of es 1))" using ziplistIndex_forward [OF es(1), of 1] by simp
  have size: "length zl + length [98, 99 :: u8] < 1073741824" using zl(2) by simp
  have "zipTryEncoding [98, 99] = None" by code_simp
  from ziplistInsert_correct [OF zl(1) size idx] this idx zl(1) show ?thesis by auto
qed

lemma imm_entry_size:
  assumes "zipTryEncoding s = Some (v, e)" "0 \<le> v" "v \<le> 12" "m < 254"
  shows "ent_len (new_entry m s) = 2"
proof -
  have "v \<in> set [0..12]" using assms(2,3) by simp
  moreover have e: "e = 0xF1 + word_of_int v" using assms(1-3) by (auto simp: zipTryEncoding_def split: if_splits option.splits)
  ultimately have b: "0xF1 \<le> e" "e \<le> 0xFD" using load_imm by auto
  then have "e \<noteq> 0xFE" "e \<noteq> 0xC0" "e \<noteq> 0xF0" "e \<noteq> 0xD0" "e \<noteq> 0xE0" by auto
  then have "payload s = []" using assms(1) b by (simp add: payload_def zipSaveInteger_def)
  moreover have "ls_of s = 1"
    using assms(1) int_encodings(1) [OF assms(1)] by (simp add: ls_of_def enc_of_def zipEncodeLength_def)
  ultimately show ?thesis using assms(4) by (simp add: ent_len_eq new_entry_def)
qed

lemma insert_overrun:
  assumes "zl_rep zl (as @ b # bs)" "p = 10 + length (entries as)" "length zl < 1073741824"
    and "fst b" "ent_len (new_entry (prev_len as) s) = 2"
  shows "ziplistInsert zl p s = None"
proof -
  define es where "es = as @ b # bs"
  define Q where "Q = entries as"
  define cl where "cl = 11 + length (entries es)"
  define A where "A = int (10 + last_off 0 es)"
  obtain n where z: "zl = mk_zl (int cl) A (int n) (entries es @ [255])"
    and ch: "chain 0 es" and lz: "length zl = cl"
    unfolding cl_def A_def by (rule zl_repE [OF assms(1), folded es_def])
  define B where "B = entry_bytes b @ entries bs"
  have b: "raw_ok b" "6 \<le> ent_len b"
    using ch assms(4) by (auto simp: es_def chain_append0 ent_len_eq ls_of_def zipEncodeLength_def)
  have cl: "cl = 11 + length Q + length B" "6 \<le> length B" using b(2) by (simp_all add: cl_def es_def Q_def B_def)
  have zB: "zl = mk_zl (int cl) A (int n) (Q @ B @ [255])" by (simp add: z es_def Q_def B_def)
  have pH: "p = length (mk_zl (int cl) A (int n) Q)" using assms(2) by (simp add: Q_def)
  have zH: "zl = mk_zl (int cl) A (int n) Q @ entry_bytes b @ (entries bs @ [255])" by (simp add: zB B_def mk_zl_append)
  have pm: "insert_prevlen zl p = Some (prev_len as)" using insert_prevlen_at [OF assms(1,2)] assms(3) by simp
  obtain c where c: "rd1 zl p = Some c" "c \<noteq> ZIP_END" using at_entry [OF pH b(1)] zH by metis
  have ndc: "zipPrevLenByteDiff zl p 2 = Some (- 4)"
    using prev_size [OF pH b(1)] zH assms(4) by (simp add: zipPrevLenByteDiff_def length_zipPrevEncodeLength)
  have Bt: "ZIPLIST_BYTES zl = cl" using assms(3) lz by (simp add: z)
  define z' where "z' = mk_zl (int (cl - 2)) A (int n) (Q @ take (length B - 2) B @ [255])"
  have rs: "ziplistResize zl (cl - 2) = Some z'"
    using resize_mk_zl [of "cl - 2" "int cl" A "int n" "Q @ B @ [255]"] cl by (simp add: zB z'_def)
  have lz': "length z' = cl - 2" using cl by (simp add: z'_def)
  have c': "rd1 z' p = Some 254"
  proof -
    obtain B' where "B = 254 # B'" using assms(4) by (simp add: B_def entry_bytes_def prev_bytes_def)
    moreover then obtain k where "length B - 2 = Suc k" using cl(2) by (cases "length B - 2") auto
    ultimately have "z' = mk_zl (int (cl - 2)) A (int n) Q @ 254 # take k B' @ [255]" by (simp add: z'_def mk_zl_append)
    then show ?thesis using assms(2) by (simp add: rd1_at' Q_def)
  qed
  have "nat (int p + 4) + nat (int cl - int p - 5) > length z'" using lz' cl assms(2) by (simp add: Q_def)
  then have "insert_move z' p cl 2 (- 4) = None" using c' by (simp add: insert_move_def mv_def)
  moreover have "nat (int (cl + 2) + - 4) = cl - 2" using cl by simp
  ultimately show ?thesis
    unfolding ziplistInsert_def Let_def Bt pm bind.bind_lunit reqlen_eq [of s "prev_len as"] c(1) assms(5)
    using c(2) ndc rs by simp
qed

text \<open>C40: Otherwise it may not: when the next entry has a 5-byte length field, the previous entry
  is small and the new string is an integer from 0 to 12, the block is shrunk by 2 bytes before
  its old tail is moved, and the move reads past its end.\<close>

theorem ziplistInsert_overruns:
  assumes "ziplist_of zl xs" "length zl < 1073741824" "ziplistIndex zl (int i) = Some (Some p)"
    and "ZIP_DECODE_PREVLEN zl p = Some (5, m)" "m < 254"
    and "zipTryEncoding s = Some (v, e)" "0 \<le> v" "v \<le> 12"
  shows "ziplistInsert zl p s = None"
proof -
  obtain es where es: "zl_rep zl es" "xs = map zstr es" by (rule ziplist_ofE [OF assms(1)])
  have i: "i < length es" "p = pos_of es i"
    using assms(3) ziplistIndex_forward [OF es(1), of i] by (auto split: if_splits)
  have split: "es = take i es @ es ! i # drop (Suc i) es" by (rule id_take_nth_drop [OF i(1)])
  have "m = prev_len (take i es)" "fst (es ! i)"
    using prevlen_at [OF es(1) i(1)] assms(4) i(2) by (auto split: if_splits)
  then show ?thesis
    using insert_overrun [of zl "take i es" "es ! i" "drop (Suc i) es" p s] es(1) split i(2) assms(2)
      imm_entry_size [OF assms(6-8)] assms(5) by (auto simp: pos_of_def)
qed

text \<open>Such a block is built by three pushes and one deletion.\<close>

lemma raw_entry:
  assumes "32 \<le> length s" "length s \<le> 0x3FFF"
  shows "ent_len (new_entry m s) = (if 254 \<le> m then 5 else 1) + (if length s \<le> 0x3F then 1 else 2) + length s"
proof -
  have "zipTryEncoding s = None" using assms(1) by (simp add: zipTryEncoding_def)
  then show ?thesis using assms(2)
    by (simp add: ent_len_eq payload_str ls_of_def zipEncodeLength_def new_entry_def enc_of_def ZIP_IS_STR_def)
qed

lemma push_end:
  assumes "zl_rep zl es" "length zl + length s < 1073741824"
  shows "\<exists>zl'. ziplistPush zl s 1 = Some zl' \<and> zl_rep zl' (es @ [new_entry (prev_len es) s]) \<and>
    length zl' \<le> length zl + 18 + length s"
proof -
  obtain zl' where z: "ziplistPush zl s 1 = Some zl'" "zl_rep zl' (es @ [new_entry (prev_len es) s])"
    using push_at [OF assms, of 1] by (auto simp: ins_entries_def)
  have "length zl = 11 + length (entries es)" by (rule zl_repE [OF assms(1)])
  moreover have "length zl' = 11 + length (entries (es @ [new_entry (prev_len es) s]))" by (rule zl_repE [OF z(2)])
  ultimately have "length zl' \<le> length zl + 18 + length s" using new_entry_size [of "prev_len es" s] by simp
  with z show ?thesis by blast
qed

theorem ziplistInsert_overruns_witness:
  "\<exists>zl1 zl2 zl3 zl4 p. ziplistPush ziplistNew (replicate 254 120) 1 = Some zl1 \<and>
    ziplistPush zl1 (replicate 248 97) 1 = Some zl2 \<and> ziplistPush zl2 [98] 1 = Some zl3 \<and>
    ziplistDeleteRange zl3 0 1 = Some zl4 \<and> ziplistIndex zl4 1 = Some (Some p) \<and> ziplistInsert zl4 p [49] = None"
proof -
  define X A :: bytes where "X = replicate 254 120" and "A = replicate 248 97"
  have lens: "length X = 254" "length A = 248" by (simp_all add: X_def A_def)
  define x where "x = new_entry 0 X"
  define a where "a = new_entry (ent_len x) A"
  define b where "b = new_entry (ent_len a) [98]"
  have lx: "ent_len x = 257" and la: "ent_len a = 255" using lens by (simp_all add: x_def a_def raw_entry)
  define a' where "a' = new_entry 0 A"
  have la': "ent_len a' = 251" using lens by (simp add: a'_def raw_entry)
  define b' where "b' = (True, 251 :: nat, [98 :: u8])"
  have l0: "length ziplistNew = 11" by (simp add: ziplistNew_def)
  obtain zl1 where z1: "ziplistPush ziplistNew X 1 = Some zl1" "zl_rep zl1 [x]" "length zl1 \<le> 1000"
    using push_end [OF ziplistNew_rep, of X] lens l0 by (auto simp: x_def prev_len_def)
  obtain zl2 where z2: "ziplistPush zl1 A 1 = Some zl2" "zl_rep zl2 [x, a]" "length zl2 \<le> 2000"
    using push_end [OF z1(2), of A] lens z1(3) by (auto simp: a_def prev_len_def)
  obtain zl3 where z3: "ziplistPush zl2 [98] 1 = Some zl3" "zl_rep zl3 [x, a, b]" "length zl3 \<le> 3000"
    using push_end [OF z2(2), of "[98]"] z2(3) by (auto simp: b_def prev_len_def)
  have del: "del_entries (take 0 [x, a, b]) (drop (0 + 1) [x, a, b]) = [a', b']"
    using la la' by (simp add: del_entries_def prev_len_def a_def a'_def b_def b'_def new_entry_def)
  obtain zl4 where z4: "ziplistDelete_num zl3 (pos_of [x, a, b] 0) 1 = Some zl4" "zl_rep zl4 [a', b']"
    using delete_at_index [OF z3(2), of 0 1] z3(3) unfolding del by auto
  have "ziplistIndex zl3 (int 0) = Some (Some (pos_of [x, a, b] 0))" using ziplistIndex_forward [OF z3(2), of 0] by simp
  then have d: "ziplistDeleteRange zl3 0 1 = Some zl4" using z4(1) by (simp add: ziplistDeleteRange_def to_int32_small)
  have idx: "ziplistIndex zl4 (int 1) = Some (Some (pos_of [a', b'] 1))" using ziplistIndex_forward [OF z4(2), of 1] by simp
  have pv: "ZIP_DECODE_PREVLEN zl4 (pos_of [a', b'] 1) = Some (5, 251)"
    using prevlen_at [OF z4(2), of 1] la' by (simp add: b'_def prev_len_def)
  have "ent_len b' \<le> 100" using new_entry_size [of 300 "[98]"] by (simp add: b'_def ent_len_prev new_entry_def)
  moreover have "length zl4 = 11 + length (entries [a', b'])" by (rule zl_repE [OF z4(2)])
  ultimately have size: "length zl4 < 1073741824" using la' by simp
  have "ll_repr 1 = [49]" by (simp add: ll_repr_def dec.simps [of "Suc 0"])
  then have "string2ll [49] = Some 1" by (simp add: string2ll_iff int_range)
  then have "zipTryEncoding [49] = Some (1, 0xF2)" by (simp add: zipTryEncoding_def)
  from ziplistInsert_overruns [OF ziplist_ofI [OF z4(2) refl] size idx pv _ this] have "ziplistInsert zl4 (pos_of [a', b'] 1) [49] = None"
    by simp
  with z1 z2 z3 d idx show ?thesis unfolding X_def A_def by (metis of_nat_1)
qed

end
