(* ===== verification/Keyspace.thy ===== *)
theory Keyspace
  imports Prelude "HOL-Library.Mapping" "HOL-Library.Monad_Syntax" "HOL-Library.Signed_Division"
begin

text \<open>
  \<open>db.c\<close>, the key space: databases of keys with expire times, and the type-agnostic commands
  on them, with \<open>SET\<close> and \<open>GET\<close> of \<open>t_string.c\<close>.  A dictionary is a mapping (\<open>Dict\<close> shows
  that the hash tables implement one); a value is a pointer into the table of objects, of
  which the type and the access time are kept, an index into \<open>clients\<close> is a client.  The
  functions return the new server; \<open>None\<close> is a failed \<open>redisAssert\<close>.  Replies, key space
  notifications and what is fed to the AOF and the slaves are logged in \<open>out\<close>, in order.
  The clock does not advance within a command.
\<close>

section \<open>The server\<close>

datatype otype = REDIS_STRING | REDIS_LIST | REDIS_SET | REDIS_ZSET | REDIS_HASH

record robj =
  otype :: otype
  lru :: nat

text \<open>The key space commands, their arguments parsed; \<open>None\<close> is a number that does not parse.\<close>

datatype time_unit = UNIT_SECONDS | UNIT_MILLISECONDS

datatype kcmd =
    GET bytes
  | SET bool bool bytes nat "(int option \<times> time_unit) option"
  | SETNX bytes nat
  | DEL "bytes list"
  | EXISTS bytes
  | SELECT int
  | TYPEOF bytes
  | RENAME bytes bytes
  | RENAMENX bytes bytes
  | MOVE bytes "int option"
  | EXPIRE bytes "int option"
  | EXPIREAT bytes "int option"
  | PEXPIRE bytes "int option"
  | PEXPIREAT bytes "int option"
  | TTL bytes
  | PTTL bytes
  | PERSIST bytes
  | FLUSHDB
  | FLUSHALL
  | UNWATCH

datatype cmd = Key kcmd | MULTI | EXEC | DISCARD | WATCH "bytes list"

datatype reply =
    ROk | RQueued | RNullBulk | RNullMultiBulk | RExecAbort
  | RInt int | RBulk nat | RStatus string | RError string | RMultiBulkLen nat

datatype event =
    Reply nat reply
  | Notify string bytes nat
  | FeedAof nat cmd
  | FeedSlaves nat cmd
  | RdbSave
  | KillChild

record redisDb =
  db_dict :: "(bytes, nat) mapping"
  db_expires :: "(bytes, int) mapping"
  blocking_keys :: "(bytes, nat list) mapping"
  ready_keys :: "(bytes, unit) mapping"
  watched_keys :: "(bytes, nat list) mapping"

record client =
  c_db :: nat
  c_multi :: bool
  c_dirty_cas :: bool
  c_dirty_exec :: bool
  c_watched :: "(bytes \<times> nat) list"
  c_mstate :: "kcmd list"

record server =
  dbs :: "redisDb list"
  clients :: "client list"
  objs :: "nat \<Rightarrow> robj"
  srv_ready :: "(nat \<times> bytes) list"
  now :: int
  lruclock :: nat
  loading :: bool
  masterhost :: bool
  lua_time_start :: "int option"
  rdb_child :: bool
  aof_child :: bool
  saveparams :: bool
  aof_on :: bool
  dirty :: int
  stat_hits :: nat
  stat_misses :: nat
  stat_expired :: nat
  stat_evicted :: nat
  out :: "event list"

definition emptyDb_rec :: redisDb where
  "emptyDb_rec = \<lparr>db_dict = Mapping.empty, db_expires = Mapping.empty, blocking_keys = Mapping.empty,
    ready_keys = Mapping.empty, watched_keys = Mapping.empty\<rparr>"

text \<open>Access to a database and a client, and their update.\<close>

definition db_of :: "server \<Rightarrow> nat \<Rightarrow> redisDb" where
  "db_of s i = dbs s ! i"

definition set_db :: "nat \<Rightarrow> (redisDb \<Rightarrow> redisDb) \<Rightarrow> server \<Rightarrow> server" where
  "set_db i f s = s\<lparr>dbs := (dbs s)[i := f (dbs s ! i)]\<rparr>"

definition client_of :: "server \<Rightarrow> nat \<Rightarrow> client" where
  "client_of s c = clients s ! c"

definition set_client :: "nat \<Rightarrow> (client \<Rightarrow> client) \<Rightarrow> server \<Rightarrow> server" where
  "set_client c f s = s\<lparr>clients := (clients s)[c := f (clients s ! c)]\<rparr>"

definition emit :: "event \<Rightarrow> server \<Rightarrow> server" where
  "emit e s = s\<lparr>out := out s @ [e]\<rparr>"

definition addReply :: "nat \<Rightarrow> reply \<Rightarrow> server \<Rightarrow> server" where
  "addReply c r = emit (Reply c r)"

definition notifyKeyspaceEvent :: "string \<Rightarrow> bytes \<Rightarrow> nat \<Rightarrow> server \<Rightarrow> server" where
  "notifyKeyspaceEvent ev k i = emit (Notify ev k i)"

definition add_dirty :: "int \<Rightarrow> server \<Rightarrow> server" where
  "add_dirty n s = s\<lparr>dirty := dirty s + n\<rparr>"

text \<open>A \<open>long long\<close> sum or product (the overflow wraps around on the build's targets).\<close>

definition wrap64 :: "int \<Rightarrow> int" where
  "wrap64 v = to_signed 8 (v mod 2 ^ 64)"

text \<open>The conversion of a \<open>long long\<close> to \<open>int\<close>.\<close>

definition wrap32 :: "int \<Rightarrow> int" where
  "wrap32 v = to_signed 4 (v mod 2 ^ 32)"

section \<open>Watched keys\<close>

definition touchWatchedKey :: "nat \<Rightarrow> bytes \<Rightarrow> server \<Rightarrow> server" where
  "touchWatchedKey i k s =
    (if Mapping.is_empty (watched_keys (db_of s i)) then s
     else
       (case Mapping.lookup (watched_keys (db_of s i)) k of
          None \<Rightarrow> s
        | Some cs \<Rightarrow> fold (\<lambda>c. set_client c (\<lambda>cl. cl\<lparr>c_dirty_cas := True\<rparr>)) cs s))"

text \<open>\<open>dbid\<close> is \<open>None\<close> for \<open>-1\<close>.\<close>

definition flush_touches :: "server \<Rightarrow> nat option \<Rightarrow> client \<Rightarrow> bool" where
  "flush_touches s dbid cl =
    list_ex (\<lambda>(k, i). (dbid = None \<or> dbid = Some i) \<and> Mapping.lookup (db_dict (db_of s i)) k \<noteq> None) (c_watched cl)"

definition touchWatchedKeysOnFlush :: "nat option \<Rightarrow> server \<Rightarrow> server" where
  "touchWatchedKeysOnFlush dbid s =
    s\<lparr>clients := map (\<lambda>cl. if flush_touches s dbid cl then cl\<lparr>c_dirty_cas := True\<rparr> else cl) (clients s)\<rparr>"

definition signalModifiedKey :: "nat \<Rightarrow> bytes \<Rightarrow> server \<Rightarrow> server" where
  "signalModifiedKey i k = touchWatchedKey i k"

definition signalFlushedDb :: "nat option \<Rightarrow> server \<Rightarrow> server" where
  "signalFlushedDb dbid = touchWatchedKeysOnFlush dbid"

section \<open>Expires\<close>

definition removeExpire :: "nat \<Rightarrow> bytes \<Rightarrow> server \<Rightarrow> (bool \<times> server) option" where
  "removeExpire i k s =
    (if Mapping.lookup (db_dict (db_of s i)) k = None then None
     else Some (Mapping.lookup (db_expires (db_of s i)) k \<noteq> None,
       set_db i (\<lambda>db. db\<lparr>db_expires := Mapping.delete k (db_expires db)\<rparr>) s))"

definition setExpire :: "nat \<Rightarrow> bytes \<Rightarrow> int \<Rightarrow> server \<Rightarrow> server option" where
  "setExpire i k w s =
    (if Mapping.lookup (db_dict (db_of s i)) k = None then None
     else Some (set_db i (\<lambda>db. db\<lparr>db_expires := Mapping.update k w (db_expires db)\<rparr>) s))"

definition getExpire :: "server \<Rightarrow> nat \<Rightarrow> bytes \<Rightarrow> int option" where
  "getExpire s i k =
    (if Mapping.is_empty (db_expires (db_of s i)) then Some (- 1)
     else
       (case Mapping.lookup (db_expires (db_of s i)) k of
          None \<Rightarrow> Some (- 1)
        | Some w \<Rightarrow> if Mapping.lookup (db_dict (db_of s i)) k = None then None else Some w))"

definition dbDelete :: "nat \<Rightarrow> bytes \<Rightarrow> server \<Rightarrow> bool \<times> server" where
  "dbDelete i k s =
    (let s1 = (if Mapping.is_empty (db_expires (db_of s i)) then s
               else set_db i (\<lambda>db. db\<lparr>db_expires := Mapping.delete k (db_expires db)\<rparr>) s)
     in (Mapping.lookup (db_dict (db_of s1 i)) k \<noteq> None,
         set_db i (\<lambda>db. db\<lparr>db_dict := Mapping.delete k (db_dict db)\<rparr>) s1))"

definition propagateExpire :: "nat \<Rightarrow> bytes \<Rightarrow> server \<Rightarrow> server" where
  "propagateExpire i k s =
    emit (FeedSlaves i (Key (DEL [k]))) (if aof_on s then emit (FeedAof i (Key (DEL [k]))) s else s)"

definition expireIfNeeded :: "nat \<Rightarrow> bytes \<Rightarrow> server \<Rightarrow> (bool \<times> server) option" where
  "expireIfNeeded i k s =
    do {
      w \<leftarrow> getExpire s i k;
      let t = (case lua_time_start s of Some t \<Rightarrow> t | None \<Rightarrow> now s);
      if w < 0 then Some (False, s)
      else if loading s then Some (False, s)
      else if masterhost s then Some (w < t, s)
      else if t \<le> w then Some (False, s)
      else
        let s = s\<lparr>stat_expired := stat_expired s + 1\<rparr>;
            s = propagateExpire i k s;
            s = notifyKeyspaceEvent ''expired'' k i s
        in Some (dbDelete i k s)
    }"

text \<open>\<open>redis.c\<close>: the active expire cycle tries an entry \<open>(k, t)\<close> of the expire times of a master.\<close>

definition activeExpireCycleTryExpire :: "nat \<Rightarrow> bytes \<Rightarrow> int \<Rightarrow> int \<Rightarrow> server \<Rightarrow> bool \<times> server" where
  "activeExpireCycleTryExpire i k t nw s =
    (if nw > t then
       (let s = propagateExpire i k s;
            s = snd (dbDelete i k s);
            s = notifyKeyspaceEvent ''expired'' k i s
        in (True, s\<lparr>stat_expired := stat_expired s + 1\<rparr>))
     else (False, s))"

section \<open>Lookups and updates\<close>

definition lookupKey :: "nat \<Rightarrow> bytes \<Rightarrow> server \<Rightarrow> nat option \<times> server" where
  "lookupKey i k s =
    (case Mapping.lookup (db_dict (db_of s i)) k of
       None \<Rightarrow> (None, s)
     | Some o' \<Rightarrow>
         (Some o', if rdb_child s \<or> aof_child s then s else s\<lparr>objs := (objs s)(o' := (objs s o')\<lparr>lru := lruclock s\<rparr>)\<rparr>))"

definition lookupKeyRead :: "nat \<Rightarrow> bytes \<Rightarrow> server \<Rightarrow> (nat option \<times> server) option" where
  "lookupKeyRead i k s =
    do {
      (x, s) \<leftarrow> expireIfNeeded i k s;
      let (val, s) = lookupKey i k s;
      Some (val, if val = None then s\<lparr>stat_misses := stat_misses s + 1\<rparr> else s\<lparr>stat_hits := stat_hits s + 1\<rparr>)
    }"

definition lookupKeyWrite :: "nat \<Rightarrow> bytes \<Rightarrow> server \<Rightarrow> (nat option \<times> server) option" where
  "lookupKeyWrite i k s = do { (x, s) \<leftarrow> expireIfNeeded i k s; Some (lookupKey i k s) }"

text \<open>\<open>t_list.c\<close>: a key on which clients block is queued once.\<close>

definition signalListAsReady :: "nat \<Rightarrow> bytes \<Rightarrow> server \<Rightarrow> server" where
  "signalListAsReady i k s =
    (if Mapping.lookup (blocking_keys (db_of s i)) k = None then s
     else if Mapping.lookup (ready_keys (db_of s i)) k \<noteq> None then s
     else set_db i (\<lambda>db. db\<lparr>ready_keys := Mapping.update k () (ready_keys db)\<rparr>)
       (s\<lparr>srv_ready := srv_ready s @ [(i, k)]\<rparr>))"

definition dbAdd :: "nat \<Rightarrow> bytes \<Rightarrow> nat \<Rightarrow> server \<Rightarrow> server option" where
  "dbAdd i k v s =
    (if Mapping.lookup (db_dict (db_of s i)) k \<noteq> None then None
     else
       let s = set_db i (\<lambda>db. db\<lparr>db_dict := Mapping.update k v (db_dict db)\<rparr>) s
       in Some (if otype (objs s v) = REDIS_LIST then signalListAsReady i k s else s))"

definition dbOverwrite :: "nat \<Rightarrow> bytes \<Rightarrow> nat \<Rightarrow> server \<Rightarrow> server option" where
  "dbOverwrite i k v s =
    (if Mapping.lookup (db_dict (db_of s i)) k = None then None
     else Some (set_db i (\<lambda>db. db\<lparr>db_dict := Mapping.update k v (db_dict db)\<rparr>) s))"

definition setKey :: "nat \<Rightarrow> bytes \<Rightarrow> nat \<Rightarrow> server \<Rightarrow> server option" where
  "setKey i k v s =
    do {
      (r, s) \<leftarrow> lookupKeyWrite i k s;
      s \<leftarrow> (if r = None then dbAdd i k v s else dbOverwrite i k v s);
      (x, s) \<leftarrow> removeExpire i k s;
      Some (signalModifiedKey i k s)
    }"

definition dbExists :: "server \<Rightarrow> nat \<Rightarrow> bytes \<Rightarrow> bool" where
  "dbExists s i k \<longleftrightarrow> Mapping.lookup (db_dict (db_of s i)) k \<noteq> None"

definition empty_one :: "redisDb \<Rightarrow> redisDb" where
  "empty_one db = db\<lparr>db_dict := Mapping.empty, db_expires := Mapping.empty\<rparr>"

definition emptyDb :: "server \<Rightarrow> int \<times> server" where
  "emptyDb s = (sum_list (map (\<lambda>db. int (Mapping.size (db_dict db))) (dbs s)), s\<lparr>dbs := map empty_one (dbs s)\<rparr>)"

definition selectDb :: "nat \<Rightarrow> int \<Rightarrow> server \<Rightarrow> bool \<times> server" where
  "selectDb c n s =
    (if n < 0 \<or> n \<ge> int (length (dbs s)) then (False, s)
     else (True, set_client c (\<lambda>cl. cl\<lparr>c_db := nat n\<rparr>) s))"

section \<open>String commands\<close>

text \<open>Whether the \<open>NX\<close> or \<open>XX\<close> flag stops the command; \<open>ms\<close> is the parsed expire time.\<close>

definition set_stops :: "nat \<Rightarrow> bool \<Rightarrow> bool \<Rightarrow> bytes \<Rightarrow> server \<Rightarrow> (bool \<times> server) option" where
  "set_stops i nx xx k s =
    do {
      (stop, s) \<leftarrow> (if nx then do { (r, s) \<leftarrow> lookupKeyWrite i k s; Some (r \<noteq> None, s) } else Some (False, s));
      if stop then Some (True, s)
      else if xx then do { (r, s) \<leftarrow> lookupKeyWrite i k s; Some (r = None, s) }
      else Some (False, s)
    }"

definition set_apply :: "nat \<Rightarrow> bytes \<Rightarrow> nat \<Rightarrow> int option \<Rightarrow> server \<Rightarrow> server option" where
  "set_apply i k v ms s =
    do {
      s \<leftarrow> setKey i k v s;
      let s = add_dirty 1 s;
      s \<leftarrow> (case ms of None \<Rightarrow> Some s | Some m \<Rightarrow> setExpire i k (wrap64 (now s + m)) s);
      let s = notifyKeyspaceEvent ''set'' k i s;
      Some (if ms = None then s else notifyKeyspaceEvent ''expire'' k i s)
    }"

definition set_command :: "nat \<Rightarrow> bool \<Rightarrow> bool \<Rightarrow> bytes \<Rightarrow> nat \<Rightarrow> int option \<Rightarrow> reply \<Rightarrow> reply \<Rightarrow> server \<Rightarrow> server option" where
  "set_command c nx xx k v ms ok_reply abort_reply s =
    do {
      (stop, s) \<leftarrow> set_stops (c_db (client_of s c)) nx xx k s;
      if stop then Some (addReply c abort_reply s)
      else do { s \<leftarrow> set_apply (c_db (client_of s c)) k v ms s; Some (addReply c ok_reply s) }
    }"

definition setGenericCommand ::
    "nat \<Rightarrow> bool \<Rightarrow> bool \<Rightarrow> bytes \<Rightarrow> nat \<Rightarrow> (int option \<times> time_unit) option \<Rightarrow> reply \<Rightarrow> reply \<Rightarrow> server \<Rightarrow> server option" where
  "setGenericCommand c nx xx k v expire ok_reply abort_reply s =
    (case expire of
       None \<Rightarrow> set_command c nx xx k v None ok_reply abort_reply s
     | Some (None, u) \<Rightarrow> Some (addReply c (RError ''value is not an integer or out of range'') s)
     | Some (Some ms, u) \<Rightarrow>
         if ms \<le> 0 then Some (addReply c (RError ''invalid expire time'') s)
         else set_command c nx xx k v (Some (if u = UNIT_SECONDS then wrap64 (ms * 1000) else ms)) ok_reply abort_reply s)"

definition getGenericCommand :: "nat \<Rightarrow> bytes \<Rightarrow> server \<Rightarrow> server option" where
  "getGenericCommand c k s =
    do {
      (r, s) \<leftarrow> lookupKeyRead (c_db (client_of s c)) k s;
      case r of
        None \<Rightarrow> Some (addReply c RNullBulk s)
      | Some v \<Rightarrow>
          if otype (objs s v) \<noteq> REDIS_STRING
          then Some (addReply c (RError ''WRONGTYPE'') s)
          else Some (addReply c (RBulk v) s)
    }"

section \<open>Key space commands\<close>

text \<open>The loop over the arguments: the number of deleted keys.\<close>

primrec del_loop :: "nat \<Rightarrow> bytes list \<Rightarrow> int \<Rightarrow> server \<Rightarrow> (int \<times> server) option" where
  "del_loop i [] deleted s = Some (deleted, s)"
| "del_loop i (k # ks) deleted s =
    do {
      (x, s) \<leftarrow> expireIfNeeded i k s;
      let (d, s) = dbDelete i k s;
      if d then del_loop i ks (deleted + 1) (add_dirty 1 (notifyKeyspaceEvent ''del'' k i (signalModifiedKey i k s)))
      else del_loop i ks deleted s
    }"

definition delCommand :: "nat \<Rightarrow> bytes list \<Rightarrow> server \<Rightarrow> server option" where
  "delCommand c ks s =
    do { (n, s) \<leftarrow> del_loop (c_db (client_of s c)) ks 0 s; Some (addReply c (RInt n) s) }"

definition existsCommand :: "nat \<Rightarrow> bytes \<Rightarrow> server \<Rightarrow> server option" where
  "existsCommand c k s =
    do {
      let i = c_db (client_of s c);
      (x, s) \<leftarrow> expireIfNeeded i k s;
      Some (addReply c (RInt (if dbExists s i k then 1 else 0)) s)
    }"

definition selectCommand :: "nat \<Rightarrow> int \<Rightarrow> server \<Rightarrow> server" where
  "selectCommand c n s =
    (case selectDb c n s of
       (False, s) \<Rightarrow> addReply c (RError ''invalid DB index'') s
     | (True, s) \<Rightarrow> addReply c ROk s)"

fun type_name :: "otype \<Rightarrow> string" where
  "type_name REDIS_STRING = ''string''"
| "type_name REDIS_LIST = ''list''"
| "type_name REDIS_SET = ''set''"
| "type_name REDIS_ZSET = ''zset''"
| "type_name REDIS_HASH = ''hash''"

definition typeCommand :: "nat \<Rightarrow> bytes \<Rightarrow> server \<Rightarrow> server option" where
  "typeCommand c k s =
    do {
      (r, s) \<leftarrow> lookupKeyRead (c_db (client_of s c)) k s;
      Some (addReply c (RStatus (case r of None \<Rightarrow> ''none'' | Some v \<Rightarrow> type_name (otype (objs s v)))) s)
    }"

text \<open>The part of \<open>RENAME\<close> behind the lookups: \<open>d\<close> tells that the target exists.\<close>

definition rename_apply :: "nat \<Rightarrow> bytes \<Rightarrow> bytes \<Rightarrow> nat \<Rightarrow> int \<Rightarrow> bool \<Rightarrow> server \<Rightarrow> server option" where
  "rename_apply i src dst v expire d s =
    do {
      let s = (if d then snd (dbDelete i dst s) else s);
      s \<leftarrow> dbAdd i dst v s;
      s \<leftarrow> (if expire \<noteq> - 1 then setExpire i dst expire s else Some s);
      let s = snd (dbDelete i src s);
      let s = signalModifiedKey i src s;
      let s = signalModifiedKey i dst s;
      let s = notifyKeyspaceEvent ''rename_from'' src i s;
      let s = notifyKeyspaceEvent ''rename_to'' dst i s;
      Some (add_dirty 1 s)
    }"

definition renameGenericCommand :: "nat \<Rightarrow> bytes \<Rightarrow> bytes \<Rightarrow> bool \<Rightarrow> server \<Rightarrow> server option" where
  "renameGenericCommand c src dst nx s =
    (if src = dst then Some (addReply c (RError ''source and destination objects are the same'') s)
     else do {
       let i = c_db (client_of s c);
       (r, s) \<leftarrow> lookupKeyWrite i src s;
       case r of
         None \<Rightarrow> Some (addReply c (RError ''no such key'') s)
       | Some v \<Rightarrow> do {
           expire \<leftarrow> getExpire s i src;
           (d, s) \<leftarrow> lookupKeyWrite i dst s;
           if d \<noteq> None \<and> nx then Some (addReply c (RInt 0) s)
           else do {
             s \<leftarrow> rename_apply i src dst v expire (d \<noteq> None) s;
             Some (addReply c (if nx then RInt 1 else ROk) s)
           }
         }
     })"

definition move_apply :: "nat \<Rightarrow> nat \<Rightarrow> nat \<Rightarrow> bytes \<Rightarrow> server \<Rightarrow> server option" where
  "move_apply c src dst k s =
    do {
      (r, s) \<leftarrow> lookupKeyWrite src k s;
      case r of
        None \<Rightarrow> Some (addReply c (RInt 0) s)
      | Some v \<Rightarrow> do {
          (d, s) \<leftarrow> lookupKeyWrite dst k s;
          if d \<noteq> None then Some (addReply c (RInt 0) s)
          else do {
            s \<leftarrow> dbAdd dst k v s;
            let s = snd (dbDelete src k s);
            Some (addReply c (RInt 1) (add_dirty 1 s))
          }
        }
    }"

definition moveCommand :: "nat \<Rightarrow> bytes \<Rightarrow> int option \<Rightarrow> server \<Rightarrow> server option" where
  "moveCommand c k dbid s =
    (let src = c_db (client_of s c) in
     case dbid of
       None \<Rightarrow> Some (addReply c (RError ''index out of range'') s)
     | Some n \<Rightarrow>
         if n < - 2147483648 \<or> n > 2147483647 \<or> \<not> fst (selectDb c n s)
         then Some (addReply c (RError ''index out of range'') s)
         else
           (let s = snd (selectDb c n s);
                dst = c_db (client_of s c);
                s = snd (selectDb c (int src) s)
            in if src = dst then Some (addReply c (RError ''source and destination objects are the same'') s)
               else move_apply c src dst k s))"

text \<open>\<open>EXPIRE\<close> and its variants: the command vector may be rewritten to a \<open>DEL\<close>, so the
  command to propagate is returned.\<close>

definition expireGenericCommand ::
    "nat \<Rightarrow> kcmd \<Rightarrow> bytes \<Rightarrow> int option \<Rightarrow> int \<Rightarrow> time_unit \<Rightarrow> server \<Rightarrow> (kcmd \<times> server) option" where
  "expireGenericCommand c self k param basetime u s =
    (case param of
       None \<Rightarrow> Some (self, addReply c (RError ''value is not an integer or out of range'') s)
     | Some w0 \<Rightarrow> do {
         let i = c_db (client_of s c);
         let w = wrap64 ((if u = UNIT_SECONDS then wrap64 (w0 * 1000) else w0) + basetime);
         (r, s) \<leftarrow> lookupKeyRead i k s;
         if r = None then Some (self, addReply c (RInt 0) s)
         else if w \<le> now s \<and> \<not> loading s \<and> \<not> masterhost s then
           (let (d, s) = dbDelete i k s in
            if \<not> d then None
            else Some (DEL [k],
              addReply c (RInt 1) (notifyKeyspaceEvent ''del'' k i (signalModifiedKey i k (add_dirty 1 s)))))
         else do {
           s \<leftarrow> setExpire i k w s;
           let s = addReply c (RInt 1) s;
           let s = notifyKeyspaceEvent ''expire'' k i (signalModifiedKey i k s);
           Some (self, add_dirty 1 s)
         }
       })"

definition ttlGenericCommand :: "nat \<Rightarrow> bytes \<Rightarrow> bool \<Rightarrow> server \<Rightarrow> server option" where
  "ttlGenericCommand c k output_ms s =
    do {
      let i = c_db (client_of s c);
      (r, s) \<leftarrow> lookupKeyRead i k s;
      if r = None then Some (addReply c (RInt (- 2)) s)
      else do {
        expire \<leftarrow> getExpire s i k;
        let ttl = (if expire \<noteq> - 1 then max 0 (wrap64 (expire - now s)) else - 1);
        Some (addReply c (RInt (if ttl = - 1 then - 1 else if output_ms then ttl else wrap64 (ttl + 500) sdiv 1000)) s)
      }
    }"

definition persistCommand :: "nat \<Rightarrow> bytes \<Rightarrow> server \<Rightarrow> server option" where
  "persistCommand c k s =
    do {
      let i = c_db (client_of s c);
      if \<not> dbExists s i k then Some (addReply c (RInt 0) s)
      else do {
        (removed, s) \<leftarrow> removeExpire i k s;
        Some (if removed then add_dirty 1 (addReply c (RInt 1) s) else addReply c (RInt 0) s)
      }
    }"

definition flushdbCommand :: "nat \<Rightarrow> server \<Rightarrow> server" where
  "flushdbCommand c s =
    (let i = c_db (client_of s c);
         s = add_dirty (int (Mapping.size (db_dict (db_of s i)))) s;
         s = signalFlushedDb (Some i) s;
         s = set_db i empty_one s
     in addReply c ROk s)"

text \<open>\<open>rdbSave\<close> resets \<open>dirty\<close>; the code restores it from an \<open>int\<close>.\<close>

definition flushallCommand :: "nat \<Rightarrow> server \<Rightarrow> server" where
  "flushallCommand c s =
    (let s = signalFlushedDb None s;
         (removed, s) = emptyDb s;
         s = addReply c ROk (add_dirty removed s);
         s = (if rdb_child s then emit KillChild s else s);
         s = (if saveparams s then (emit RdbSave s)\<lparr>dirty := wrap32 (dirty s)\<rparr> else s)
     in add_dirty 1 s)"

end
