(* ===== verification/Multi.thy ===== *)
theory Multi
  imports Keyspace
begin

text \<open>
  \<open>multi.c\<close> with \<open>call\<close> and \<open>processCommand\<close> of \<open>redis.c\<close>: transactions.  \<open>MULTI\<close> makes a
  client queue its commands, \<open>EXEC\<close> runs them, unless a key the client watches was touched
  (\<open>c_dirty_cas\<close>) or a command was refused while queueing (\<open>c_dirty_exec\<close>).  A database
  maps each watched key to its watchers, and a client has the list of the keys it watches.
  Before a command the keys that \<open>freeMemoryIfNeeded\<close> evicts are deleted; the serving of
  clients blocked on lists behind the \<open>call\<close> is not modelled.
\<close>

section \<open>Watching\<close>

text \<open>An entry of the dictionary is a list that is changed in place.\<close>

definition watchForKey :: "nat \<Rightarrow> bytes \<Rightarrow> server \<Rightarrow> server" where
  "watchForKey c k s =
    (let i = c_db (client_of s c) in
     if (k, i) \<in> set (c_watched (client_of s c)) then s
     else
       let cs = (case Mapping.lookup (watched_keys (db_of s i)) k of None \<Rightarrow> [] | Some cs \<Rightarrow> cs);
           s = set_db i (\<lambda>db. db\<lparr>watched_keys := Mapping.update k (cs @ [c]) (watched_keys db)\<rparr>) s
       in set_client c (\<lambda>cl. cl\<lparr>c_watched := c_watched cl @ [(k, i)]\<rparr>) s)"

text \<open>One watched key of the client; \<open>None\<close> is the failed assertion or a \<open>NULL\<close> node.\<close>

definition unwatch_one :: "nat \<Rightarrow> bytes \<times> nat \<Rightarrow> server \<Rightarrow> server option" where
  "unwatch_one c wk s =
    (case wk of (k, i) \<Rightarrow>
       (case Mapping.lookup (watched_keys (db_of s i)) k of
          None \<Rightarrow> None
        | Some cs \<Rightarrow>
            if c \<notin> set cs then None
            else
              let cs = remove1 c cs;
                  s = set_db i (\<lambda>db. db\<lparr>watched_keys :=
                    (if cs = [] then Mapping.delete k (watched_keys db) else Mapping.update k cs (watched_keys db))\<rparr>) s
              in Some (set_client c (\<lambda>cl. cl\<lparr>c_watched := remove1 wk (c_watched cl)\<rparr>) s)))"

primrec unwatch_loop :: "nat \<Rightarrow> (bytes \<times> nat) list \<Rightarrow> server \<Rightarrow> server option" where
  "unwatch_loop c [] s = Some s"
| "unwatch_loop c (wk # wks) s = do { s \<leftarrow> unwatch_one c wk s; unwatch_loop c wks s }"

definition unwatchAllKeys :: "nat \<Rightarrow> server \<Rightarrow> server option" where
  "unwatchAllKeys c s = unwatch_loop c (c_watched (client_of s c)) s"

definition watchCommand :: "nat \<Rightarrow> bytes list \<Rightarrow> server \<Rightarrow> server" where
  "watchCommand c ks s =
    (if c_multi (client_of s c) then addReply c (RError ''WATCH inside MULTI is not allowed'') s
     else addReply c ROk (fold (watchForKey c) ks s))"

definition unwatchCommand :: "nat \<Rightarrow> server \<Rightarrow> server option" where
  "unwatchCommand c s =
    do {
      s \<leftarrow> unwatchAllKeys c s;
      Some (addReply c ROk (set_client c (\<lambda>cl. cl\<lparr>c_dirty_cas := False\<rparr>) s))
    }"

section \<open>Transactions\<close>

definition queueMultiCommand :: "nat \<Rightarrow> kcmd \<Rightarrow> server \<Rightarrow> server" where
  "queueMultiCommand c kc = set_client c (\<lambda>cl. cl\<lparr>c_mstate := c_mstate cl @ [kc]\<rparr>)"

definition discardTransaction :: "nat \<Rightarrow> server \<Rightarrow> server option" where
  "discardTransaction c s =
    unwatchAllKeys c
      (set_client c (\<lambda>cl. cl\<lparr>c_mstate := [], c_multi := False, c_dirty_cas := False, c_dirty_exec := False\<rparr>) s)"

definition flagTransaction :: "nat \<Rightarrow> server \<Rightarrow> server" where
  "flagTransaction c s =
    (if c_multi (client_of s c) then set_client c (\<lambda>cl. cl\<lparr>c_dirty_exec := True\<rparr>) s else s)"

definition multiCommand :: "nat \<Rightarrow> server \<Rightarrow> server" where
  "multiCommand c s =
    (if c_multi (client_of s c) then addReply c (RError ''MULTI calls can not be nested'') s
     else addReply c ROk (set_client c (\<lambda>cl. cl\<lparr>c_multi := True\<rparr>) s))"

definition discardCommand :: "nat \<Rightarrow> server \<Rightarrow> server option" where
  "discardCommand c s =
    (if \<not> c_multi (client_of s c) then Some (addReply c (RError ''DISCARD without MULTI'') s)
     else do { s \<leftarrow> discardTransaction c s; Some (addReply c ROk s) })"

text \<open>The flags of the command table: \<open>r\<close>, \<open>w\<close>, \<open>l\<close>.\<close>

fun cmd_readonly :: "kcmd \<Rightarrow> bool" where
  "cmd_readonly (GET k) = True"
| "cmd_readonly (EXISTS k) = True"
| "cmd_readonly (SELECT n) = True"
| "cmd_readonly (TYPEOF k) = True"
| "cmd_readonly (TTL k) = True"
| "cmd_readonly (PTTL k) = True"
| "cmd_readonly UNWATCH = True"
| "cmd_readonly _ = False"

definition cmd_write :: "cmd \<Rightarrow> bool" where
  "cmd_write x = (case x of Key kc \<Rightarrow> \<not> cmd_readonly kc | _ \<Rightarrow> False)"

definition cmd_loading :: "cmd \<Rightarrow> bool" where
  "cmd_loading x = (case x of Key (SELECT n) \<Rightarrow> True | _ \<Rightarrow> False)"

definition propagate :: "cmd \<Rightarrow> nat \<Rightarrow> server \<Rightarrow> server" where
  "propagate x i s = emit (FeedSlaves i x) (if aof_on s then emit (FeedAof i x) s else s)"

text \<open>\<open>cmd->proc(c)\<close>; the command comes back, as \<open>EXPIRE\<close> may have rewritten it.\<close>

fun proc :: "nat \<Rightarrow> kcmd \<Rightarrow> server \<Rightarrow> (kcmd \<times> server) option" where
  "proc c (GET k) s = map_option (Pair (GET k)) (getGenericCommand c k s)"
| "proc c (SET nx xx k v x) s = map_option (Pair (SET nx xx k v x)) (setGenericCommand c nx xx k v x ROk RNullBulk s)"
| "proc c (SETNX k v) s = map_option (Pair (SETNX k v)) (setGenericCommand c True False k v None (RInt 1) (RInt 0) s)"
| "proc c (DEL ks) s = map_option (Pair (DEL ks)) (delCommand c ks s)"
| "proc c (EXISTS k) s = map_option (Pair (EXISTS k)) (existsCommand c k s)"
| "proc c (SELECT n) s = Some (SELECT n, selectCommand c n s)"
| "proc c (TYPEOF k) s = map_option (Pair (TYPEOF k)) (typeCommand c k s)"
| "proc c (RENAME k d) s = map_option (Pair (RENAME k d)) (renameGenericCommand c k d False s)"
| "proc c (RENAMENX k d) s = map_option (Pair (RENAMENX k d)) (renameGenericCommand c k d True s)"
| "proc c (MOVE k n) s = map_option (Pair (MOVE k n)) (moveCommand c k n s)"
| "proc c (EXPIRE k n) s = expireGenericCommand c (EXPIRE k n) k n (now s) UNIT_SECONDS s"
| "proc c (EXPIREAT k n) s = expireGenericCommand c (EXPIREAT k n) k n 0 UNIT_SECONDS s"
| "proc c (PEXPIRE k n) s = expireGenericCommand c (PEXPIRE k n) k n (now s) UNIT_MILLISECONDS s"
| "proc c (PEXPIREAT k n) s = expireGenericCommand c (PEXPIREAT k n) k n 0 UNIT_MILLISECONDS s"
| "proc c (TTL k) s = map_option (Pair (TTL k)) (ttlGenericCommand c k False s)"
| "proc c (PTTL k) s = map_option (Pair (PTTL k)) (ttlGenericCommand c k True s)"
| "proc c (PERSIST k) s = map_option (Pair (PERSIST k)) (persistCommand c k s)"
| "proc c FLUSHDB s = Some (FLUSHDB, flushdbCommand c s)"
| "proc c FLUSHALL s = Some (FLUSHALL, flushallCommand c s)"
| "proc c UNWATCH s = map_option (Pair UNWATCH) (unwatchCommand c s)"

text \<open>The propagation at the end of \<open>call\<close>.\<close>

definition call_propagate :: "nat \<Rightarrow> cmd \<Rightarrow> int \<Rightarrow> server \<Rightarrow> server" where
  "call_propagate c x d0 s = (if dirty s - d0 > 0 then propagate x (c_db (client_of s c)) s else s)"

definition call_key :: "nat \<Rightarrow> kcmd \<Rightarrow> server \<Rightarrow> server option" where
  "call_key c kc s = do { (kc', s') \<leftarrow> proc c kc s; Some (call_propagate c (Key kc') (dirty s) s') }"

text \<open>The loop over the queue: \<open>mp\<close> is \<open>must_propagate\<close>.\<close>

primrec exec_loop :: "nat \<Rightarrow> kcmd list \<Rightarrow> bool \<Rightarrow> server \<Rightarrow> (bool \<times> server) option" where
  "exec_loop c [] mp s = Some (mp, s)"
| "exec_loop c (kc # kcs) mp s =
    do {
      let first = (\<not> mp \<and> \<not> cmd_readonly kc);
      let s = (if first then propagate MULTI (c_db (client_of s c)) s else s);
      s \<leftarrow> call_key c kc s;
      exec_loop c kcs (mp \<or> first) s
    }"

definition execCommand :: "nat \<Rightarrow> server \<Rightarrow> server option" where
  "execCommand c s =
    (let cl = client_of s c in
     if \<not> c_multi cl then Some (addReply c (RError ''EXEC without MULTI'') s)
     else if c_dirty_cas cl \<or> c_dirty_exec cl
     then discardTransaction c (addReply c (if c_dirty_exec cl then RExecAbort else RNullMultiBulk) s)
     else do {
       s \<leftarrow> unwatchAllKeys c s;
       let s = addReply c (RMultiBulkLen (length (c_mstate cl))) s;
       (mp, s) \<leftarrow> exec_loop c (c_mstate cl) False s;
       s \<leftarrow> discardTransaction c s;
       Some (if mp then add_dirty 1 s else s)
     })"

fun call :: "nat \<Rightarrow> cmd \<Rightarrow> server \<Rightarrow> server option" where
  "call c (Key kc) s = call_key c kc s"
| "call c MULTI s = Some (call_propagate c MULTI (dirty s) (multiCommand c s))"
| "call c EXEC s = do { s' \<leftarrow> execCommand c s; Some (call_propagate c EXEC (dirty s) s') }"
| "call c DISCARD s = do { s' \<leftarrow> discardCommand c s; Some (call_propagate c DISCARD (dirty s) s') }"
| "call c (WATCH ks) s = Some (call_propagate c (WATCH ks) (dirty s) (watchCommand c ks s))"

section \<open>Eviction\<close>

text \<open>\<open>freeMemoryIfNeeded\<close>, called when there is a memory limit.  What the allocator reports and
  what the random choices come to are its argument: whether the memory is over the limit, after
  how many rounds enough of it has been freed, and the key picked in a round from a database,
  which with every policy can be any key of the dictionary looked at.\<close>

datatype maxmemory_policy =
    MAXMEMORY_VOLATILE_LRU | MAXMEMORY_VOLATILE_TTL | MAXMEMORY_VOLATILE_RANDOM
  | MAXMEMORY_ALLKEYS_LRU | MAXMEMORY_ALLKEYS_RANDOM | MAXMEMORY_NO_EVICTION

record eviction =
  ev_policy :: maxmemory_policy
  ev_over :: bool
  ev_rounds :: nat
  ev_pick :: "nat \<Rightarrow> nat \<Rightarrow> bytes"

text \<open>The selected key is removed; nobody is told but the log of events.\<close>

definition evict_key :: "nat \<Rightarrow> bytes \<Rightarrow> server \<Rightarrow> server" where
  "evict_key i k s =
    (let s = propagateExpire i k s;
         s = snd (dbDelete i k s);
         s = s\<lparr>stat_evicted := stat_evicted s + 1\<rparr>
     in notifyKeyspaceEvent ''evicted'' k i s)"

text \<open>One database of a round; an empty dictionary has no key to pick.\<close>

definition evict_db :: "eviction \<Rightarrow> nat \<Rightarrow> nat \<Rightarrow> server \<Rightarrow> bool \<times> server" where
  "evict_db ev r j s =
    (let k = ev_pick ev r j;
         there = (if ev_policy ev = MAXMEMORY_ALLKEYS_LRU \<or> ev_policy ev = MAXMEMORY_ALLKEYS_RANDOM
                  then Mapping.lookup (db_dict (db_of s j)) k \<noteq> None
                  else Mapping.lookup (db_expires (db_of s j)) k \<noteq> None)
     in if there then (True, evict_key j k s) else (False, s))"

primrec evict_dbs :: "eviction \<Rightarrow> nat \<Rightarrow> nat list \<Rightarrow> bool \<Rightarrow> server \<Rightarrow> bool \<times> server" where
  "evict_dbs ev r [] freed s = (freed, s)"
| "evict_dbs ev r (j # js) freed s =
    (let (f, s) = evict_db ev r j s in evict_dbs ev r js (freed \<or> f) s)"

text \<open>The rounds that are left; a round that frees no key ends with \<open>REDIS_ERR\<close>.\<close>

primrec evict_rounds :: "eviction \<Rightarrow> nat \<Rightarrow> server \<Rightarrow> bool \<times> server" where
  "evict_rounds ev 0 s = (True, s)"
| "evict_rounds ev (Suc n) s =
    (let (freed, s) = evict_dbs ev n [0..<length (dbs s)] False s
     in if freed then evict_rounds ev n s else (False, s))"

definition freeMemoryIfNeeded :: "eviction \<Rightarrow> server \<Rightarrow> bool \<times> server" where
  "freeMemoryIfNeeded ev s =
    (if \<not> ev_over ev then (True, s)
     else if ev_policy ev = MAXMEMORY_NO_EVICTION then (False, s)
     else evict_rounds ev (ev_rounds ev) s)"

section \<open>The dispatcher\<close>

text \<open>The part of the configuration and of the connection that decides on refusals.\<close>

record limits =
  noauth :: bool
  maxmemory :: "eviction option"
  disk_error :: bool
  few_slaves :: bool
  slave_ro :: bool
  from_master :: bool
  in_pubsub :: bool
  link_down :: bool
  serve_stale :: bool
  lua_timedout :: bool

text \<open>\<open>if (server.maxmemory) retval = freeMemoryIfNeeded()\<close>, of an authenticated client.\<close>

definition make_room :: "limits \<Rightarrow> server \<Rightarrow> bool \<times> server" where
  "make_room l s =
    (if noauth l then (True, s)
     else (case maxmemory l of None \<Rightarrow> (True, s) | Some ev \<Rightarrow> freeMemoryIfNeeded ev s))"

text \<open>The reason to refuse a command and whether the transaction is flagged, in the order of
  the checks; \<open>oom\<close> is that no memory could be freed.  No command of the model is \<open>PING\<close>, \<open>AUTH\<close> or one of the subscribe family.\<close>

definition refusal :: "limits \<Rightarrow> bool \<Rightarrow> server \<Rightarrow> cmd \<Rightarrow> (string \<times> bool) option" where
  "refusal l oom s x =
    (if noauth l then Some (''NOAUTH'', True)
     else if oom \<and> (case x of Key (SET _ _ _ _ _) \<Rightarrow> True | Key (SETNX _ _) \<Rightarrow> True | _ \<Rightarrow> False)
       then Some (''OOM'', True)
     else if disk_error l \<and> \<not> masterhost s \<and> cmd_write x then Some (''MISCONF'', True)
     else if \<not> masterhost s \<and> few_slaves l \<and> cmd_write x then Some (''NOREPLICAS'', True)
     else if masterhost s \<and> slave_ro l \<and> \<not> from_master l \<and> cmd_write x then Some (''READONLY'', False)
     else if in_pubsub l then Some (''only (P)SUBSCRIBE / (P)UNSUBSCRIBE / QUIT allowed in this context'', False)
     else if masterhost s \<and> link_down l \<and> \<not> serve_stale l then Some (''MASTERDOWN'', True)
     else if loading s \<and> \<not> cmd_loading x then Some (''LOADING'', False)
     else if lua_timedout l then Some (''BUSY'', True)
     else None)"

text \<open>The rest of \<open>processCommand\<close>, up to the \<open>call\<close>.\<close>

definition dispatch :: "nat \<Rightarrow> limits \<Rightarrow> bool \<Rightarrow> cmd \<Rightarrow> server \<Rightarrow> server option" where
  "dispatch c l freed x s =
    (case refusal l (\<not> freed) s x of
       Some (e, flag) \<Rightarrow> Some (addReply c (RError e) (if flag then flagTransaction c s else s))
     | None \<Rightarrow>
         (case x of
            Key kc \<Rightarrow>
              if c_multi (client_of s c) then Some (addReply c RQueued (queueMultiCommand c kc s))
              else call c x s
          | _ \<Rightarrow> call c x s))"

definition processCommand :: "nat \<Rightarrow> limits \<Rightarrow> cmd \<Rightarrow> server \<Rightarrow> server option" where
  "processCommand c l x s = (let (freed, s) = make_room l s in dispatch c l freed x s)"

end
