(* ===== verification/KeyspaceSpec.thy ===== *)
theory KeyspaceSpec
  imports Multi
begin

text \<open>
  What the key space commands do, on the maps \<open>kv\<close> (key to value) and \<open>ex\<close> (key to expire
  time) of all databases, and which clients they touch.  \<open>tframe T s s'\<close> says that the
  databases, the watch index and the clock are those of before, and that exactly the
  watchers of the keys in \<open>T\<close> have been marked dirty.
\<close>

section \<open>Views of the state\<close>

definition kv :: "server \<Rightarrow> nat \<Rightarrow> bytes \<Rightarrow> nat option" where
  "kv s i k = Mapping.lookup (db_dict (db_of s i)) k"

definition ex :: "server \<Rightarrow> nat \<Rightarrow> bytes \<Rightarrow> int option" where
  "ex s i k = Mapping.lookup (db_expires (db_of s i)) k"

definition watchers :: "server \<Rightarrow> nat \<Rightarrow> bytes \<Rightarrow> nat list" where
  "watchers s i k = (case Mapping.lookup (watched_keys (db_of s i)) k of None \<Rightarrow> [] | Some cs \<Rightarrow> cs)"

definition clock :: "server \<Rightarrow> int" where
  "clock s = (case lua_time_start s of Some t \<Rightarrow> t | None \<Rightarrow> now s)"

text \<open>\<open>put\<close> and \<open>del\<close> on a view.\<close>

definition put :: "nat \<Rightarrow> bytes \<Rightarrow> 'v \<Rightarrow> (nat \<Rightarrow> bytes \<Rightarrow> 'v option) \<Rightarrow> nat \<Rightarrow> bytes \<Rightarrow> 'v option" where
  "put i k v m = m(i := (m i)(k \<mapsto> v))"

definition del :: "nat \<Rightarrow> bytes \<Rightarrow> (nat \<Rightarrow> bytes \<Rightarrow> 'v option) \<Rightarrow> nat \<Rightarrow> bytes \<Rightarrow> 'v option" where
  "del i k m = m(i := (m i)(k := None))"

lemma put_apply: "put i k v m j l = (if j = i \<and> l = k then Some v else m j l)"
  by (simp add: put_def)

lemma del_apply: "del i k m j l = (if j = i \<and> l = k then None else m j l)"
  by (simp add: del_def)

lemma del_absent: "m i k = None \<Longrightarrow> del i k m = m"
  by (auto simp: del_def fun_eq_iff)

named_theorems view

lemma db_of_set_db [view]: "i < length (dbs s) \<Longrightarrow> db_of (set_db i f s) j = (if j = i then f (db_of s i) else db_of s j)"
  by (simp add: db_of_def set_db_def)

lemma set_db_fields [view]:
  "length (dbs (set_db i f s)) = length (dbs s)" "clients (set_db i f s) = clients s" "now (set_db i f s) = now s"
  "loading (set_db i f s) = loading s" "masterhost (set_db i f s) = masterhost s"
  "lua_time_start (set_db i f s) = lua_time_start s" "objs (set_db i f s) = objs s" "aof_on (set_db i f s) = aof_on s"
  "dirty (set_db i f s) = dirty s"
  by (simp_all add: set_db_def)

lemma set_client_fields [view]:
  "dbs (set_client i g s) = dbs s" "length (clients (set_client i g s)) = length (clients s)" "now (set_client i g s) = now s"
  "loading (set_client i g s) = loading s" "masterhost (set_client i g s) = masterhost s"
  "lua_time_start (set_client i g s) = lua_time_start s" "objs (set_client i g s) = objs s"
  "aof_on (set_client i g s) = aof_on s" "dirty (set_client i g s) = dirty s"
  by (simp_all add: set_client_def)

lemma client_of_set_client [view]:
  "c < length (clients s) \<Longrightarrow> client_of (set_client c f s) w = (if w = c then f (client_of s c) else client_of s w)"
  by (simp add: client_of_def set_client_def)

text \<open>Two states that differ in fields the views do not look at.\<close>

definition veq :: "server \<Rightarrow> server \<Rightarrow> bool" where
  "veq s s' \<longleftrightarrow> dbs s' = dbs s \<and> clients s' = clients s \<and> now s' = now s \<and> loading s' = loading s
    \<and> masterhost s' = masterhost s \<and> lua_time_start s' = lua_time_start s
    \<and> (\<forall>v. otype (objs s' v) = otype (objs s v))"

lemma veq_simps [view]:
  "veq s s" "veq s (emit e t) = veq s t" "veq s (addReply c r t) = veq s t" "veq s (notifyKeyspaceEvent ev k i t) = veq s t"
  "veq s (add_dirty n t) = veq s t" "veq s (t\<lparr>stat_expired := x\<rparr>) = veq s t" "veq s (t\<lparr>stat_evicted := x\<rparr>) = veq s t"
  "veq s (t\<lparr>dirty := n\<rparr>) = veq s t" "veq s (t\<lparr>stat_misses := x\<rparr>) = veq s t"
  "veq s (t\<lparr>stat_hits := x\<rparr>) = veq s t" "veq s (t\<lparr>objs := (objs t)(v := (objs t v)\<lparr>lru := x\<rparr>)\<rparr>) = veq s t" "veq s (t\<lparr>srv_ready := rd\<rparr>) = veq s t"
  "veq s (propagateExpire i k t) = veq s t" "veq s (propagate c' i t) = veq s t"
  by (simp_all add: veq_def emit_def addReply_def notifyKeyspaceEvent_def add_dirty_def propagateExpire_def propagate_def)
    metis

section \<open>Frames\<close>

definition touched_by :: "server \<Rightarrow> (nat \<times> bytes) set \<Rightarrow> nat \<Rightarrow> bool" where
  "touched_by s T w \<longleftrightarrow> (\<exists>i k. (i, k) \<in> T \<and> w \<in> set (watchers s i k))"

definition mark :: "bool \<Rightarrow> client \<Rightarrow> client" where
  "mark b cl = cl\<lparr>c_dirty_cas := (c_dirty_cas cl \<or> b)\<rparr>"

lemma mark_simps [simp]: "mark False cl = cl" "mark b (mark a cl) = mark (a \<or> b) cl"
  "c_db (mark b cl) = c_db cl" "c_multi (mark b cl) = c_multi cl" "c_watched (mark b cl) = c_watched cl"
  "c_mstate (mark b cl) = c_mstate cl" "c_dirty_exec (mark b cl) = c_dirty_exec cl"
  "c_dirty_cas (mark b cl) = (c_dirty_cas cl \<or> b)"
  by (simp_all add: mark_def)

lemma touched_by_simps [simp]: "touched_by s {} w = False" "touched_by s (T \<union> T') w = (touched_by s T w \<or> touched_by s T' w)"
  by (auto simp: touched_by_def)

definition same_index :: "server \<Rightarrow> server \<Rightarrow> bool" where
  "same_index s s' \<longleftrightarrow> length (dbs s') = length (dbs s) \<and> length (clients s') = length (clients s)
    \<and> (\<forall>i. watched_keys (db_of s' i) = watched_keys (db_of s i))
    \<and> now s' = now s \<and> loading s' = loading s \<and> masterhost s' = masterhost s \<and> lua_time_start s' = lua_time_start s
    \<and> (\<forall>v. otype (objs s' v) = otype (objs s v))"

definition tframe :: "(nat \<times> bytes) set \<Rightarrow> server \<Rightarrow> server \<Rightarrow> bool" where
  "tframe T s s' \<longleftrightarrow> same_index s s' \<and> (\<forall>w < length (clients s). client_of s' w = mark (touched_by s T w) (client_of s w))"

lemma same_index_simps:
  assumes "same_index s s'"
  shows "length (dbs s') = length (dbs s)" "length (clients s') = length (clients s)" "watchers s' = watchers s"
    "now s' = now s" "loading s' = loading s" "masterhost s' = masterhost s" "clock s' = clock s"
    "touched_by s' = touched_by s" "otype (objs s' v) = otype (objs s v)"
proof -
  show "watchers s' = watchers s" using assms by (simp add: same_index_def watchers_def fun_eq_iff)
  then show "touched_by s' = touched_by s" by (simp add: touched_by_def fun_eq_iff)
  show "clock s' = clock s" using assms unfolding same_index_def clock_def by (elim conjE) (simp only:)
qed (use assms in \<open>auto simp: same_index_def\<close>)

text \<open>The outcome of a step that does not touch the databases.\<close>

definition quiet :: "server \<Rightarrow> server \<Rightarrow> bool" where
  "quiet s s' \<longleftrightarrow> tframe {} s s' \<and> kv s' = kv s \<and> ex s' = ex s"

lemma veq_quiet: "veq s s' \<Longrightarrow> quiet s s'"
  by (auto simp: veq_def quiet_def tframe_def same_index_def kv_def ex_def db_of_def client_of_def fun_eq_iff)

lemma tframe_refl: "tframe {} s s"
  by (simp add: tframe_def same_index_def)

lemma tframe_trans:
  assumes "tframe T s s1" "tframe T' s1 s2"
  shows "tframe (T \<union> T') s s2"
proof -
  have i: "same_index s s1" "same_index s1 s2" using assms by (simp_all add: tframe_def)
  then have "same_index s s2" by (simp add: same_index_def)
  then show ?thesis using assms same_index_simps [OF i(1)] by (simp add: tframe_def)
qed

lemmas tframe_step = tframe_trans [where T = "{}", unfolded Un_empty_left] tframe_trans [where T' = "{}", unfolded Un_empty_right]

lemma tframe_simps:
  assumes "tframe T s s'"
  shows "length (dbs s') = length (dbs s)" "length (clients s') = length (clients s)" "watchers s' = watchers s"
    "now s' = now s" "loading s' = loading s" "masterhost s' = masterhost s" "clock s' = clock s"
    "touched_by s' = touched_by s" "otype (objs s' v) = otype (objs s v)"
  using assms same_index_simps [of s s'] by (simp_all add: tframe_def)

lemma tframe_client: "tframe T s s' \<Longrightarrow> w < length (clients s) \<Longrightarrow> client_of s' w = mark (touched_by s T w) (client_of s w)"
  by (simp add: tframe_def)

section \<open>The operations on one key\<close>

text \<open>Every key with an expire time is in the key space.\<close>

definition ks_ok :: "server \<Rightarrow> bool" where
  "ks_ok s \<longleftrightarrow> (\<forall>i < length (dbs s). \<forall>k. kv s i k = None \<longrightarrow> ex s i k = None)"

definition expired :: "server \<Rightarrow> nat \<Rightarrow> bytes \<Rightarrow> bool" where
  "expired s i k \<longleftrightarrow> (\<exists>w. ex s i k = Some w \<and> 0 \<le> w \<and> w < clock s) \<and> \<not> loading s"

text \<open>A master deletes an expired key when it is looked up.\<close>

definition gone :: "server \<Rightarrow> nat \<Rightarrow> bytes \<Rightarrow> bool" where
  "gone s i k \<longleftrightarrow> expired s i k \<and> \<not> masterhost s"

definition visible :: "server \<Rightarrow> nat \<Rightarrow> bytes \<Rightarrow> nat option" where
  "visible s i k = (if gone s i k then None else kv s i k)"

lemma is_empty_iff: "Mapping.is_empty m \<longleftrightarrow> (\<forall>k. Mapping.lookup m k = None)"
  by (auto simp: Mapping.is_empty_def keys_dom_lookup)

lemma lookup_delete': "Mapping.lookup (Mapping.delete k m) l = (if k = l then None else Mapping.lookup m l)"
  by simp

lemma set_db_frame:
  assumes "i < length (dbs s)" "\<And>db. watched_keys (f db) = watched_keys db"
  shows "tframe {} s (set_db i f s)"
  using assms by (auto simp: tframe_def same_index_def view client_of_def)

lemma kv_set_db:
  assumes "i < length (dbs s)"
  shows "kv (set_db i f s) = (\<lambda>j k. if j = i then Mapping.lookup (db_dict (f (db_of s i))) k else kv s j k)"
    "ex (set_db i f s) = (\<lambda>j k. if j = i then Mapping.lookup (db_expires (f (db_of s i))) k else ex s j k)"
  using assms by (auto simp: kv_def ex_def view fun_eq_iff)

lemma getExpire_spec:
  assumes "ks_ok s" "i < length (dbs s)"
  shows "getExpire s i k = Some (case ex s i k of None \<Rightarrow> - 1 | Some w \<Rightarrow> w)"
proof (cases "ex s i k")
  case None
  then show ?thesis by (simp add: getExpire_def flip: ex_def)
next
  case (Some w)
  then have "kv s i k \<noteq> None" using assms unfolding ks_ok_def by fastforce
  moreover have "\<not> Mapping.is_empty (db_expires (db_of s i))" using Some by (auto simp: is_empty_iff ex_def)
  ultimately show ?thesis using Some by (simp add: getExpire_def flip: ex_def kv_def)
qed

lemma dbDelete_spec:
  assumes "i < length (dbs s)"
  shows "\<exists>s'. dbDelete i k s = (kv s i k \<noteq> None, s') \<and> tframe {} s s' \<and> kv s' = del i k (kv s) \<and> ex s' = del i k (ex s)"
proof -
  define s1 where "s1 = (if Mapping.is_empty (db_expires (db_of s i)) then s
      else set_db i (\<lambda>db. db\<lparr>db_expires := Mapping.delete k (db_expires db)\<rparr>) s)"
  have f1: "tframe {} s s1" using assms set_db_frame [OF assms] by (simp add: s1_def tframe_refl)
  have v1: "kv s1 = kv s" "ex s1 = del i k (ex s)"
    using assms
    by (auto simp: s1_def kv_set_db fun_eq_iff del_apply kv_def [symmetric] ex_def [symmetric] is_empty_iff lookup_delete' simp flip: ex_def kv_def)
  have i: "i < length (dbs s1)" using assms tframe_simps [OF f1] by simp
  define s2 where "s2 = set_db i (\<lambda>db. db\<lparr>db_dict := Mapping.delete k (db_dict db)\<rparr>) s1"
  have "tframe {} s1 s2" unfolding s2_def by (rule set_db_frame [OF i]) simp
  then have "tframe {} s s2" by (rule tframe_step [OF f1])
  moreover have "kv s2 = del i k (kv s)" "ex s2 = del i k (ex s)"
    using v1 i by (auto simp: s2_def kv_set_db fun_eq_iff del_apply lookup_delete' simp flip: ex_def kv_def)
  moreover have "dbDelete i k s = (kv s i k \<noteq> None, s2)"
    unfolding dbDelete_def s1_def [symmetric] Let_def s2_def [symmetric] using v1 by (simp flip: kv_def)
  ultimately show ?thesis by blast
qed

text \<open>A step that leaves the given maps behind and touches the watchers of \<open>T\<close>.\<close>

definition post ::
    "(nat \<times> bytes) set \<Rightarrow> server \<Rightarrow> (nat \<Rightarrow> bytes \<Rightarrow> nat option) \<Rightarrow> (nat \<Rightarrow> bytes \<Rightarrow> int option) \<Rightarrow> server \<Rightarrow> bool" where
  "post T s m e s' \<longleftrightarrow> tframe T s s' \<and> kv s' = m \<and> ex s' = e"

lemma post_veq: "veq s s' \<Longrightarrow> post {} s (kv s) (ex s) s'"
  using veq_quiet [of s s'] by (simp add: quiet_def post_def)

lemma post_trans: "post T s m e s1 \<Longrightarrow> post T' s1 m' e' s2 \<Longrightarrow> post (T \<union> T') s m' e' s2"
  using tframe_trans by (auto simp: post_def)

lemma post_then_veq: "post T s m e s1 \<Longrightarrow> veq s1 s2 \<Longrightarrow> post T s m e s2"
  using post_trans [OF _ post_veq, of T s m e s1 s2] by (simp add: post_def)

lemma post_len: "post T s m e s' \<Longrightarrow> length (dbs s') = length (dbs s) \<and> length (clients s') = length (clients s)"
  by (auto simp: post_def dest: tframe_simps(1,2))

lemma post_views: "post T s m e s' \<Longrightarrow> kv s' = m" "post T s m e s' \<Longrightarrow> ex s' = e"
  by (simp_all add: post_def)

lemma post_dbDelete: "i < length (dbs s) \<Longrightarrow> \<exists>s'. dbDelete i k s = (kv s i k \<noteq> None, s') \<and> post {} s (del i k (kv s)) (del i k (ex s)) s'"
  using dbDelete_spec by (simp add: post_def)

definition kv_live :: "server \<Rightarrow> nat \<Rightarrow> bytes \<Rightarrow> nat \<Rightarrow> bytes \<Rightarrow> nat option" where
  "kv_live s i k = (if gone s i k then del i k (kv s) else kv s)"

definition ex_live :: "server \<Rightarrow> nat \<Rightarrow> bytes \<Rightarrow> nat \<Rightarrow> bytes \<Rightarrow> int option" where
  "ex_live s i k = (if gone s i k then del i k (ex s) else ex s)"

lemma expireIfNeeded_spec:
  assumes "ks_ok s" "i < length (dbs s)"
  shows "\<exists>s'. expireIfNeeded i k s = Some (expired s i k, s') \<and> post {} s (kv_live s i k) (ex_live s i k) s'"
proof (cases "gone s i k")
  case False
  have "expireIfNeeded i k s = Some (expired s i k, s)"
    using False getExpire_spec [OF assms, of k]
    by (auto simp: expireIfNeeded_def gone_def expired_def clock_def Let_def split: option.splits)
  then show ?thesis using False post_veq [of s s] by (simp add: view kv_live_def ex_live_def)
next
  case True
  then obtain w where w: "ex s i k = Some w" "0 \<le> w" "w < clock s" "\<not> loading s" "\<not> masterhost s"
    by (auto simp: gone_def expired_def)
  have "kv s i k \<noteq> None" using w(1) assms unfolding ks_ok_def by fastforce
  define s1 where "s1 = notifyKeyspaceEvent ''expired'' k i (propagateExpire i k (s\<lparr>stat_expired := stat_expired s + 1\<rparr>))"
  have s1: "post {} s (kv s) (ex s) s1" by (rule post_veq) (simp add: s1_def view)
  then obtain s2 where s2: "dbDelete i k s1 = (kv s1 i k \<noteq> None, s2)" "post {} s1 (del i k (kv s1)) (del i k (ex s1)) s2"
    using post_dbDelete [of i s1 k] assms(2) post_len [OF s1] by auto
  have "expireIfNeeded i k s = Some (dbDelete i k s1)"
    using getExpire_spec [OF assms, of k] w
    by (auto simp: expireIfNeeded_def s1_def clock_def Let_def)
  moreover have "expired s i k" using True by (simp add: gone_def)
  ultimately show ?thesis
    using True post_trans [OF s1 s2(2)] s2(1) post_views [OF s1] \<open>kv s i k \<noteq> None\<close> by (simp add: kv_live_def ex_live_def)
qed

lemma lookupKey_spec: "\<exists>s'. lookupKey i k s = (kv s i k, s') \<and> veq s s'"
  by (cases "kv s i k") (simp_all add: lookupKey_def view flip: kv_def)

lemma kv_live_self [simp]: "kv_live s i k i k = visible s i k" "ex_live s i k i k = (if gone s i k then None else ex s i k)"
  by (simp_all add: kv_live_def ex_live_def visible_def del_apply)

lemma lookupKeyWrite_spec:
  assumes "ks_ok s" "i < length (dbs s)"
  shows "\<exists>s'. lookupKeyWrite i k s = Some (visible s i k, s') \<and> post {} s (kv_live s i k) (ex_live s i k) s'"
proof -
  obtain s1 where s1: "expireIfNeeded i k s = Some (expired s i k, s1)" "post {} s (kv_live s i k) (ex_live s i k) s1"
    using expireIfNeeded_spec [OF assms] by blast
  obtain s2 where "lookupKey i k s1 = (kv s1 i k, s2)" "veq s1 s2" using lookupKey_spec by blast
  then show ?thesis using s1 post_then_veq [OF s1(2)] post_views [OF s1(2)] by (simp add: lookupKeyWrite_def)
qed

lemma lookupKeyRead_spec:
  assumes "ks_ok s" "i < length (dbs s)"
  shows "\<exists>s'. lookupKeyRead i k s = Some (visible s i k, s') \<and> post {} s (kv_live s i k) (ex_live s i k) s'"
proof -
  obtain s1 where s1: "expireIfNeeded i k s = Some (expired s i k, s1)" "post {} s (kv_live s i k) (ex_live s i k) s1"
    using expireIfNeeded_spec [OF assms] by blast
  obtain s2 where s2: "lookupKey i k s1 = (kv s1 i k, s2)" "veq s1 s2" using lookupKey_spec by blast
  define s3 where "s3 = (if kv s1 i k = None then s2\<lparr>stat_misses := stat_misses s2 + 1\<rparr> else s2\<lparr>stat_hits := stat_hits s2 + 1\<rparr>)"
  have "veq s1 s3" using s2(2) by (simp add: s3_def view)
  then have "post {} s (kv_live s i k) (ex_live s i k) s3" by (rule post_then_veq [OF s1(2)])
  moreover have "lookupKeyRead i k s = Some (visible s i k, s3)"
    using s1 s2(1) post_views [OF s1(2)] by (simp add: lookupKeyRead_def s3_def)
  ultimately show ?thesis by blast
qed

lemma put_del [simp]: "put i k v (del i k m) = put i k v m" "del i k (del i k m) = del i k m" "del i k (put i k v m) = del i k m"
  by (simp_all add: put_def del_def)

lemma live_simps [simp]: "put i k v (kv_live s i k) = put i k v (kv s)" "del i k (ex_live s i k) = del i k (ex s)"
  "del i k (kv_live s i k) = del i k (kv s)" "put i k w (ex_live s i k) = put i k w (ex s)"
  by (simp_all add: kv_live_def ex_live_def)

lemma ks_ok_post:
  assumes "post T s m e s'" "\<And>i k. i < length (dbs s) \<Longrightarrow> m i k = None \<Longrightarrow> e i k = None"
  shows "ks_ok s'"
  using assms post_len [OF assms(1)] by (auto simp: ks_ok_def post_def)

lemma ks_ok_live:
  assumes "ks_ok s" "post T s (kv_live s i k) (ex_live s i k) s'"
  shows "ks_ok s'"
  using assms(1) by (intro ks_ok_post [OF assms(2)]) (auto simp: kv_live_def ex_live_def del_apply ks_ok_def split: if_splits)

lemma post_set_db:
  assumes "i < length (dbs s)" "\<And>db. watched_keys (f db) = watched_keys db"
    and "\<And>j k. m j k = (if j = i then Mapping.lookup (db_dict (f (db_of s i))) k else kv s j k)"
    and "\<And>j k. e j k = (if j = i then Mapping.lookup (db_expires (f (db_of s i))) k else ex s j k)"
  shows "post {} s m e (set_db i f s)"
  using set_db_frame [OF assms(1,2)] assms(3,4) by (auto simp: post_def kv_set_db [OF assms(1)] fun_eq_iff)

lemma signalListAsReady_spec:
  assumes "i < length (dbs s)"
  shows "post {} s (kv s) (ex s) (signalListAsReady i k s)"
proof -
  define t where "t = s\<lparr>srv_ready := srv_ready s @ [(i, k)]\<rparr>"
  have v: "veq s t" by (simp add: t_def view)
  then have t: "post {} s (kv s) (ex s) t" by (rule post_veq)
  have "post {} t (kv t) (ex t) (set_db i (\<lambda>db. db\<lparr>ready_keys := Mapping.update k () (ready_keys db)\<rparr>) t)"
    using assms post_len [OF t] by (intro post_set_db) (auto simp: kv_def ex_def)
  from post_trans [OF t this] have "post {} s (kv s) (ex s) (set_db i (\<lambda>db. db\<lparr>ready_keys := Mapping.update k () (ready_keys db)\<rparr>) t)"
    using post_views [OF t] by simp
  then show ?thesis using post_veq [of s s] by (simp add: signalListAsReady_def view flip: t_def)
qed

lemma dbAdd_spec:
  assumes "i < length (dbs s)" "kv s i k = None"
  shows "\<exists>s'. dbAdd i k v s = Some s' \<and> post {} s (put i k v (kv s)) (ex s) s'"
proof -
  define t where "t = set_db i (\<lambda>db. db\<lparr>db_dict := Mapping.update k v (db_dict db)\<rparr>) s"
  have t: "post {} s (put i k v (kv s)) (ex s) t"
    unfolding t_def by (rule post_set_db) (use assms(1) in \<open>auto simp: put_apply kv_def ex_def lookup_update'\<close>)
  have "i < length (dbs t)" using assms(1) post_len [OF t] by simp
  then have "post {} s (put i k v (kv s)) (ex s) (signalListAsReady i k t)"
    using post_trans [OF t signalListAsReady_spec [of i t k]] post_views [OF t] by simp
  then show ?thesis using t assms(2) by (simp add: dbAdd_def Let_def flip: t_def kv_def)
qed

lemma dbOverwrite_spec:
  assumes "i < length (dbs s)" "kv s i k \<noteq> None"
  shows "\<exists>s'. dbOverwrite i k v s = Some s' \<and> post {} s (put i k v (kv s)) (ex s) s'"
proof -
  have "post {} s (put i k v (kv s)) (ex s) (set_db i (\<lambda>db. db\<lparr>db_dict := Mapping.update k v (db_dict db)\<rparr>) s)"
    by (rule post_set_db) (use assms(1) in \<open>auto simp: put_apply kv_def ex_def lookup_update'\<close>)
  then show ?thesis using assms(2) by (simp add: dbOverwrite_def flip: kv_def)
qed

lemma removeExpire_spec:
  assumes "i < length (dbs s)" "kv s i k \<noteq> None"
  shows "\<exists>s'. removeExpire i k s = Some (ex s i k \<noteq> None, s') \<and> post {} s (kv s) (del i k (ex s)) s'"
proof -
  have "post {} s (kv s) (del i k (ex s)) (set_db i (\<lambda>db. db\<lparr>db_expires := Mapping.delete k (db_expires db)\<rparr>) s)"
    by (rule post_set_db) (use assms(1) in \<open>auto simp: del_apply kv_def ex_def lookup_delete'\<close>)
  then show ?thesis using assms(2) by (simp add: removeExpire_def flip: kv_def ex_def)
qed

lemma setExpire_spec:
  assumes "i < length (dbs s)" "kv s i k \<noteq> None"
  shows "\<exists>s'. setExpire i k w s = Some s' \<and> post {} s (kv s) (put i k w (ex s)) s'"
proof -
  have "post {} s (kv s) (put i k w (ex s)) (set_db i (\<lambda>db. db\<lparr>db_expires := Mapping.update k w (db_expires db)\<rparr>) s)"
    by (rule post_set_db) (use assms(1) in \<open>auto simp: put_apply kv_def ex_def lookup_update'\<close>)
  then show ?thesis using assms(2) by (simp add: setExpire_def flip: kv_def)
qed

lemma touch_fold:
  "length (clients (fold (\<lambda>c. set_client c (\<lambda>cl. cl\<lparr>c_dirty_cas := True\<rparr>)) cs s)) = length (clients s) \<and>
   dbs (fold (\<lambda>c. set_client c (\<lambda>cl. cl\<lparr>c_dirty_cas := True\<rparr>)) cs s) = dbs s \<and>
   now (fold (\<lambda>c. set_client c (\<lambda>cl. cl\<lparr>c_dirty_cas := True\<rparr>)) cs s) = now s \<and>
   loading (fold (\<lambda>c. set_client c (\<lambda>cl. cl\<lparr>c_dirty_cas := True\<rparr>)) cs s) = loading s \<and>
   masterhost (fold (\<lambda>c. set_client c (\<lambda>cl. cl\<lparr>c_dirty_cas := True\<rparr>)) cs s) = masterhost s \<and>
   lua_time_start (fold (\<lambda>c. set_client c (\<lambda>cl. cl\<lparr>c_dirty_cas := True\<rparr>)) cs s) = lua_time_start s \<and>
   objs (fold (\<lambda>c. set_client c (\<lambda>cl. cl\<lparr>c_dirty_cas := True\<rparr>)) cs s) = objs s \<and>
   (\<forall>w < length (clients s). client_of (fold (\<lambda>c. set_client c (\<lambda>cl. cl\<lparr>c_dirty_cas := True\<rparr>)) cs s) w =
     mark (w \<in> set cs) (client_of s w))"
proof (induction cs arbitrary: s)
  case (Cons c cs)
  have "client_of (set_client c (\<lambda>cl. cl\<lparr>c_dirty_cas := True\<rparr>) s) w = mark (w = c) (client_of s w)"
    if "w < length (clients s)" for w
    using that by (cases "w = c") (simp_all add: client_of_def set_client_def mark_def)
  then show ?case using Cons [of "set_client c (\<lambda>cl. cl\<lparr>c_dirty_cas := True\<rparr>) s"] by (auto simp: view)
qed simp

lemma signalModifiedKey_spec: "post {(i, k)} s (kv s) (ex s) (signalModifiedKey i k s)"
proof -
  define t where "t = signalModifiedKey i k s"
  have t: "t = fold (\<lambda>c. set_client c (\<lambda>cl. cl\<lparr>c_dirty_cas := True\<rparr>)) (watchers s i k) s"
    by (auto simp: t_def signalModifiedKey_def touchWatchedKey_def watchers_def is_empty_iff split: option.split)
  have "touched_by s {(i, k)} w = (w \<in> set (watchers s i k))" for w by (simp add: touched_by_def)
  then have "tframe {(i, k)} s t"
    using touch_fold [of "watchers s i k" s] by (auto simp: t tframe_def same_index_def db_of_def)
  moreover have "kv t = kv s" "ex t = ex s"
    using touch_fold [of "watchers s i k" s] by (auto simp: t kv_def ex_def db_of_def fun_eq_iff)
  ultimately show ?thesis by (simp add: post_def t_def)
qed

lemma setKey_spec:
  assumes "ks_ok s" "i < length (dbs s)"
  shows "\<exists>s'. setKey i k v s = Some s' \<and> post {(i, k)} s (put i k v (kv s)) (del i k (ex s)) s'"
proof -
  obtain s1 where s1: "lookupKeyWrite i k s = Some (visible s i k, s1)" "post {} s (kv_live s i k) (ex_live s i k) s1"
    using lookupKeyWrite_spec [OF assms] by blast
  have i1: "i < length (dbs s1)" using assms(2) post_len [OF s1(2)] by simp
  have vis: "kv s1 i k = visible s i k" using post_views [OF s1(2)] by simp
  obtain s2 where s2: "(if visible s i k = None then dbAdd i k v s1 else dbOverwrite i k v s1) = Some s2"
    "post {} s1 (put i k v (kv s1)) (ex s1) s2"
    using dbAdd_spec [OF i1, of k v] dbOverwrite_spec [OF i1, of k v] vis by (cases "visible s i k = None") auto
  have p2: "post {} s (put i k v (kv s)) (ex_live s i k) s2"
    using post_trans [OF s1(2) s2(2)] post_views [OF s1(2)] by simp
  have i2: "i < length (dbs s2)" using assms(2) post_len [OF p2] by simp
  have "kv s2 i k \<noteq> None" using post_views [OF p2] by (simp add: put_apply)
  then obtain s3 where s3: "removeExpire i k s2 = Some (ex s2 i k \<noteq> None, s3)" "post {} s2 (kv s2) (del i k (ex s2)) s3"
    using removeExpire_spec [OF i2] by blast
  have p3: "post {} s (put i k v (kv s)) (del i k (ex s)) s3"
    using post_trans [OF p2 s3(2)] post_views [OF p2] by simp
  have "post {(i, k)} s (put i k v (kv s)) (del i k (ex s)) (signalModifiedKey i k s3)"
    using post_trans [OF p3 signalModifiedKey_spec [of i k s3]] post_views [OF p3] by simp
  then show ?thesis using s1(1) s2(1) s3(1) by (auto simp: setKey_def)
qed

end
