(* ===== verification/KeyspaceOps.thy ===== *)
theory KeyspaceOps
  imports KeyspaceSpec
begin

text \<open>
  The key space commands: each succeeds (no assertion fails), leaves the stated maps behind
  and touches the stated keys.
\<close>

section \<open>States and clients\<close>

text \<open>The key space is consistent and the client exists and has selected a database.\<close>

definition client_ok :: "server \<Rightarrow> nat \<Rightarrow> bool" where
  "client_ok s c \<longleftrightarrow> c < length (clients s) \<and> c_db (client_of s c) < length (dbs s)"

lemma client_okD:
  assumes "client_ok s c"
  shows "c < length (clients s)" "c_db (client_of s c) < length (dbs s)"
  using assms by (simp_all add: client_ok_def)

lemma c_db_post: "post T s m e s' \<Longrightarrow> c < length (clients s) \<Longrightarrow> c_db (client_of s' c) = c_db (client_of s c)"
  using tframe_client [of T s s' c] by (simp add: post_def)

lemma client_ok_post: "post T s m e s' \<Longrightarrow> client_ok s c \<Longrightarrow> client_ok s' c"
  using post_len [of T s m e s'] c_db_post [of T s m e s' c] by (simp add: client_ok_def)

lemma post_reply: "post T s m e s1 \<Longrightarrow> post T s m e (addReply c r s1)"
  by (erule post_then_veq) (simp add: view)

lemma out_addReply [simp]: "out (addReply c r s) = out s @ [Reply c r]"
  by (simp add: addReply_def emit_def)

text \<open>A second lookup of the same key finds it as the first one left it.\<close>

lemma live_again:
  assumes "post {} s (kv_live s i k) (ex_live s i k) s1"
  shows "\<not> gone s1 i k" "kv_live s1 i k = kv_live s i k" "ex_live s1 i k = ex_live s i k" "visible s1 i k = visible s i k"
proof -
  have f: "clock s1 = clock s" "loading s1 = loading s" "masterhost s1 = masterhost s"
    using assms tframe_simps [of "{}" s s1] by (simp_all add: post_def)
  have v: "kv s1 = kv_live s i k" "ex s1 = ex_live s i k" using post_views [OF assms] by simp_all
  show g: "\<not> gone s1 i k" using f v by (auto simp: gone_def expired_def split: if_splits)
  show "kv_live s1 i k = kv_live s i k" "ex_live s1 i k = ex_live s i k" "visible s1 i k = visible s i k"
    using g v by (simp_all add: kv_live_def [of s1] ex_live_def [of s1] visible_def [of s1])
qed

section \<open>SET\<close>

definition set_refused :: "server \<Rightarrow> nat \<Rightarrow> bool \<Rightarrow> bool \<Rightarrow> bytes \<Rightarrow> bool" where
  "set_refused s i nx xx k \<longleftrightarrow> nx \<and> visible s i k \<noteq> None \<or> xx \<and> visible s i k = None"

lemma lookup_twice:
  assumes "ks_ok s" "i < length (dbs s)"
  shows "\<exists>s'. set_stops i nx xx k s = Some (set_refused s i nx xx k, s') \<and>
    (if nx \<or> xx then post {} s (kv_live s i k) (ex_live s i k) s' else s' = s)"
proof (cases nx)
  case True
  obtain s1 where s1: "lookupKeyWrite i k s = Some (visible s i k, s1)" "post {} s (kv_live s i k) (ex_live s i k) s1"
    using lookupKeyWrite_spec [OF assms] by blast
  show ?thesis
  proof (cases "visible s i k \<noteq> None \<or> \<not> xx")
    case t: True
    then show ?thesis using s1 True by (auto simp: set_stops_def set_refused_def)
  next
    case False
    have "i < length (dbs s1)" using assms(2) post_len [OF s1(2)] by simp
    then obtain s2 where "lookupKeyWrite i k s1 = Some (visible s1 i k, s2)" "post {} s1 (kv_live s1 i k) (ex_live s1 i k) s2"
      using lookupKeyWrite_spec [OF ks_ok_live [OF assms(1) s1(2)]] by blast
    then show ?thesis
      using False True s1 live_again [OF s1(2)] post_trans [OF s1(2)] by (auto simp: set_stops_def set_refused_def)
  qed
next
  case False
  obtain s1 where s1: "lookupKeyWrite i k s = Some (visible s i k, s1)" "post {} s (kv_live s i k) (ex_live s i k) s1"
    using lookupKeyWrite_spec [OF assms] by blast
  then show ?thesis using False by (auto simp: set_stops_def set_refused_def)
qed

lemma set_apply_spec:
  assumes "ks_ok s" "i < length (dbs s)"
  shows "\<exists>s'. set_apply i k v ms s = Some s' \<and> post {(i, k)} s (put i k v (kv s))
    (case ms of None \<Rightarrow> del i k (ex s) | Some m \<Rightarrow> put i k (wrap64 (now s + m)) (ex s)) s'"
proof -
  obtain s1 where s1: "setKey i k v s = Some s1" "post {(i, k)} s (put i k v (kv s)) (del i k (ex s)) s1"
    using setKey_spec [OF assms] by blast
  define s2 where "s2 = add_dirty 1 s1"
  have s2: "post {(i, k)} s (put i k v (kv s)) (del i k (ex s)) s2"
    using post_then_veq [OF s1(2), of s2] by (simp add: s2_def view)
  show ?thesis
  proof (cases ms)
    case None
    have "post {(i, k)} s (put i k v (kv s)) (del i k (ex s)) (notifyKeyspaceEvent ''set'' k i s2)"
      by (rule post_then_veq [OF s2]) (simp add: view)
    then show ?thesis using s1(1) None by (simp add: set_apply_def s2_def)
  next
    case (Some m)
    have i2: "i < length (dbs s2)" using assms(2) post_len [OF s2] by simp
    have "kv s2 i k \<noteq> None" using post_views [OF s2] by (simp add: put_apply)
    then obtain s3 where s3: "setExpire i k (wrap64 (now s2 + m)) s2 = Some s3"
      "post {} s2 (kv s2) (put i k (wrap64 (now s2 + m)) (ex s2)) s3"
      using setExpire_spec [OF i2] by blast
    have "now s2 = now s" using s2 tframe_simps(4) by (auto simp: post_def)
    then have "post {(i, k)} s (put i k v (kv s)) (put i k (wrap64 (now s + m)) (ex s)) s3"
      using post_trans [OF s2 s3(2)] post_views [OF s2] by (simp add: put_def del_def)
    then have "post {(i, k)} s (put i k v (kv s)) (put i k (wrap64 (now s + m)) (ex s))
        (notifyKeyspaceEvent ''expire'' k i (notifyKeyspaceEvent ''set'' k i s3))"
      by (rule post_then_veq) (simp add: view)
    then show ?thesis using s1(1) s3(1) Some by (simp add: set_apply_def s2_def)
  qed
qed

lemma set_command_spec:
  assumes "ks_ok s" "client_ok s c" and i: "i = c_db (client_of s c)"
  shows "\<exists>s'. set_command c nx xx k v ms okr abr s = Some s' \<and>
    (if set_refused s i nx xx k
     then post {} s (kv_live s i k) (ex_live s i k) s' \<and> last (out s') = Reply c abr
     else post {(i, k)} s (put i k v (kv s))
       (case ms of None \<Rightarrow> del i k (ex s) | Some m \<Rightarrow> put i k (wrap64 (now s + m)) (ex s)) s' \<and> last (out s') = Reply c okr)"
proof -
  have il: "i < length (dbs s)" using assms(2) by (simp add: i client_ok_def)
  obtain s1 where s1: "set_stops i nx xx k s = Some (set_refused s i nx xx k, s1)"
    "if nx \<or> xx then post {} s (kv_live s i k) (ex_live s i k) s1 else s1 = s"
    using lookup_twice [OF assms(1) il] by blast
  show ?thesis
  proof (cases "set_refused s i nx xx k")
    case True
    then have "nx \<or> xx" by (auto simp: set_refused_def)
    then show ?thesis using s1 True by (simp add: set_command_def flip: i) (rule post_reply)
  next
    case False
    have p: "\<exists>m e. post {} s m e s1 \<and> ks_ok s1 \<and> put i k v (kv s1) = put i k v (kv s) \<and> del i k (ex s1) = del i k (ex s)"
    proof (cases "nx \<or> xx")
      case True
      then have "post {} s (kv_live s i k) (ex_live s i k) s1" using s1(2) by simp
      then show ?thesis using ks_ok_live [OF assms(1)] post_views live_simps by (metis (no_types))
    next
      case False
      then show ?thesis using s1(2) assms(1) post_veq [of s s] by (auto simp: view)
    qed
    then obtain m e where me: "post {} s m e s1" "ks_ok s1" "put i k v (kv s1) = put i k v (kv s)" "del i k (ex s1) = del i k (ex s)"
      by blast
    have "put i k w (ex s1) = put i k w (ex s)" for w using me(4) put_del(1) by metis
    moreover have "now s1 = now s" using me(1) tframe_simps(4) by (auto simp: post_def)
    moreover have "i < length (dbs s1)" using il post_len [OF me(1)] by simp
    moreover have "c_db (client_of s1 c) = i" using c_db_post [OF me(1)] assms(2) by (simp add: client_ok_def i)
    ultimately obtain s2 where s2: "set_apply (c_db (client_of s1 c)) k v ms s1 = Some s2"
      "post {(i, k)} s1 (put i k v (kv s)) (case ms of None \<Rightarrow> del i k (ex s) | Some m \<Rightarrow> put i k (wrap64 (now s + m)) (ex s)) s2"
      using set_apply_spec [OF me(2), of i k v ms] me(3,4) by (auto split: option.splits)
    have "post {(i, k)} s (put i k v (kv s)) (case ms of None \<Rightarrow> del i k (ex s) | Some m \<Rightarrow> put i k (wrap64 (now s + m)) (ex s)) s2"
      using post_trans [OF me(1) s2(2)] by simp
    then show ?thesis using s1(1) s2(1) False by (simp add: set_command_def flip: i) (rule post_reply)
  qed
qed

section \<open>DEL\<close>

text \<open>An expire time that lies in the past of a master that is not loading.\<close>

definition due :: "server \<Rightarrow> int option \<Rightarrow> bool" where
  "due s x \<longleftrightarrow> (\<exists>w. x = Some w \<and> 0 \<le> w \<and> w < clock s) \<and> \<not> loading s \<and> \<not> masterhost s"

lemma gone_due: "gone s i k = due s (ex s i k)"
  by (auto simp: gone_def expired_def due_def)

lemma due_None [simp]: "\<not> due s None"
  by (simp add: due_def)

lemma post_due: "post T s m e s' \<Longrightarrow> due s' = due s"
  using tframe_simps(5-7) [of T s s'] by (auto simp: post_def due_def fun_eq_iff)

lemma post_visible:
  assumes "post T s m e s'"
  shows "visible s' i k = (if due s (e i k) then None else m i k)" "gone s' i k = due s (e i k)"
  using post_due [OF assms] post_views [OF assms] by (simp_all add: visible_def gone_due)

lemma ks_ok_del: "ks_ok s \<Longrightarrow> post T s (del i k (kv s)) (del i k (ex s)) s' \<Longrightarrow> ks_ok s'"
  by (erule ks_ok_post) (auto simp: ks_ok_def del_apply)

lemma del_loop_spec:
  "ks_ok s \<Longrightarrow> i < length (dbs s) \<Longrightarrow>
    \<exists>s'. del_loop i ks n s = Some (n + int (card {k \<in> set ks. visible s i k \<noteq> None}), s') \<and>
      post ({i} \<times> {k \<in> set ks. visible s i k \<noteq> None}) s
        (\<lambda>j k. if j = i \<and> k \<in> set ks then None else kv s j k) (\<lambda>j k. if j = i \<and> k \<in> set ks then None else ex s j k) s'"
proof (induction ks arbitrary: n s)
  case Nil
  then show ?case using post_veq [of s s] by (simp add: view)
next
  case (Cons k ks)
  obtain s1 where s1: "expireIfNeeded i k s = Some (expired s i k, s1)" "post {} s (kv_live s i k) (ex_live s i k) s1"
    using expireIfNeeded_spec [OF Cons.prems] by blast
  have "i < length (dbs s1)" using Cons.prems(2) post_len [OF s1(2)] by simp
  then obtain s2 where s2: "dbDelete i k s1 = (kv s1 i k \<noteq> None, s2)" "post {} s1 (del i k (kv s1)) (del i k (ex s1)) s2"
    using post_dbDelete by blast
  have d: "kv s1 i k = visible s i k" using post_views [OF s1(2)] by simp
  have p2: "post {} s (del i k (kv s)) (del i k (ex s)) s2"
    using post_trans [OF s1(2) s2(2)] post_views [OF s1(2)] by simp
  define s3 where "s3 = (if visible s i k \<noteq> None then add_dirty 1 (notifyKeyspaceEvent ''del'' k i (signalModifiedKey i k s2)) else s2)"
  define n3 where "n3 = (if visible s i k \<noteq> None then n + 1 else n)"
  define T where "T = (if visible s i k \<noteq> None then {(i, k)} else {})"
  have p3: "post T s (del i k (kv s)) (del i k (ex s)) s3"
  proof (cases "visible s i k \<noteq> None")
    case True
    have "post {(i, k)} s (del i k (kv s)) (del i k (ex s)) (signalModifiedKey i k s2)"
      using post_trans [OF p2 signalModifiedKey_spec [of i k s2]] post_views [OF p2] by simp
    from post_then_veq [OF this, of s3] show ?thesis using True by (simp add: s3_def T_def view)
  next
    case False
    then show ?thesis using p2 by (simp add: s3_def T_def)
  qed
  have ok3: "ks_ok s3" "i < length (dbs s3)"
    using ks_ok_del [OF Cons.prems(1) p3] Cons.prems(2) post_len [OF p3] by simp_all
  have vis: "visible s3 i l = (if l = k then None else visible s i l)" for l
    using post_visible [OF p3, of i l] by (auto simp: del_apply visible_def gone_due)
  obtain s4 where s4: "del_loop i ks n3 s3 = Some (n3 + int (card {l \<in> set ks. visible s3 i l \<noteq> None}), s4)"
    "post ({i} \<times> {l \<in> set ks. visible s3 i l \<noteq> None}) s3
        (\<lambda>j l. if j = i \<and> l \<in> set ks then None else kv s3 j l) (\<lambda>j l. if j = i \<and> l \<in> set ks then None else ex s3 j l) s4"
    using Cons.IH [OF ok3, of n3] by blast
  have ins: "{l \<in> set (k # ks). visible s i l \<noteq> None} =
      (if visible s i k \<noteq> None then insert k {l \<in> set ks. visible s3 i l \<noteq> None} else {l \<in> set ks. visible s3 i l \<noteq> None})"
    by (auto simp: vis)
  then have n: "n3 + int (card {l \<in> set ks. visible s3 i l \<noteq> None}) = n + int (card {l \<in> set (k # ks). visible s i l \<noteq> None})"
    by (auto simp: n3_def vis)
  have T: "T \<union> ({i} \<times> {l \<in> set ks. visible s3 i l \<noteq> None}) = {i} \<times> {l \<in> set (k # ks). visible s i l \<noteq> None}"
    unfolding ins by (auto simp: T_def)
  have m: "(\<lambda>j l. if j = i \<and> l \<in> set ks then None else del i k (kv s) j l) = (\<lambda>j l. if j = i \<and> l \<in> set (k # ks) then None else kv s j l)"
    "(\<lambda>j l. if j = i \<and> l \<in> set ks then None else del i k (ex s) j l) = (\<lambda>j l. if j = i \<and> l \<in> set (k # ks) then None else ex s j l)"
    by (auto simp: del_apply fun_eq_iff)
  have run: "del_loop i (k # ks) n s = del_loop i ks n3 s3"
    using s1(1) s2(1) d by (simp add: n3_def s3_def)
  show ?case
    using post_trans [OF p3 s4(2)] s4(1) unfolding run n T post_views [OF p3] m by blast
qed

lemma delCommand_spec:
  assumes "ks_ok s" "client_ok s c" and i: "i = c_db (client_of s c)"
  shows "\<exists>s'. delCommand c ks s = Some s' \<and> last (out s') = Reply c (RInt (int (card {k \<in> set ks. visible s i k \<noteq> None}))) \<and>
      post ({i} \<times> {k \<in> set ks. visible s i k \<noteq> None}) s
        (\<lambda>j k. if j = i \<and> k \<in> set ks then None else kv s j k) (\<lambda>j k. if j = i \<and> k \<in> set ks then None else ex s j k) s'"
proof -
  have "i < length (dbs s)" using assms(2) by (simp add: i client_ok_def)
  from del_loop_spec [OF assms(1) this, of ks 0] show ?thesis
    by (auto simp: delCommand_def simp flip: i intro: post_reply)
qed

section \<open>RENAME\<close>

lemma rename_apply_spec:
  assumes "ks_ok s" "i < length (dbs s)" "src \<noteq> dst" "kv s i src = Some v" "d = (kv s i dst \<noteq> None)"
  shows "\<exists>s'. rename_apply i src dst v w d s = Some s' \<and>
    post {(i, src), (i, dst)} s (del i src (put i dst v (kv s)))
      (del i src (if w = - 1 then del i dst (ex s) else put i dst w (ex s))) s'"
proof -
  define s1 where "s1 = (if d then snd (dbDelete i dst s) else s)"
  have p1: "post {} s (del i dst (kv s)) (del i dst (ex s)) s1"
  proof (cases d)
    case True
    then show ?thesis using post_dbDelete [OF assms(2), of dst] by (auto simp: s1_def)
  next
    case False
    then have "kv s i dst = None" "ex s i dst = None" using assms(1,2,5) by (auto simp: ks_ok_def)
    then show ?thesis using False post_veq [of s s] by (simp add: s1_def view del_absent)
  qed
  have i1: "i < length (dbs s1)" using assms(2) post_len [OF p1] by simp
  have "kv s1 i dst = None" using post_views [OF p1] by (simp add: del_apply)
  then obtain s2 where s2: "dbAdd i dst v s1 = Some s2" "post {} s1 (put i dst v (kv s1)) (ex s1) s2"
    using dbAdd_spec [OF i1] by blast
  have p2: "post {} s (put i dst v (kv s)) (del i dst (ex s)) s2"
    using post_trans [OF p1 s2(2)] post_views [OF p1] by simp
  have i2: "i < length (dbs s2)" using assms(2) post_len [OF p2] by simp
  define e3 where "e3 = (if w = - 1 then del i dst (ex s) else put i dst w (ex s))"
  have "\<exists>s3. (if w \<noteq> - 1 then setExpire i dst w s2 else Some s2) = Some s3 \<and> post {} s (put i dst v (kv s)) e3 s3"
  proof (cases "w = - 1")
    case True
    then show ?thesis using p2 by (simp add: e3_def)
  next
    case False
    have "kv s2 i dst \<noteq> None" using post_views [OF p2] by (simp add: put_apply)
    then obtain s3 where "setExpire i dst w s2 = Some s3" "post {} s2 (kv s2) (put i dst w (ex s2)) s3"
      using setExpire_spec [OF i2] by blast
    then show ?thesis using False post_trans [OF p2] post_views [OF p2] by (simp add: e3_def)
  qed
  then obtain s3 where s3: "(if w \<noteq> - 1 then setExpire i dst w s2 else Some s2) = Some s3" "post {} s (put i dst v (kv s)) e3 s3"
    by blast
  define s4 where "s4 = snd (dbDelete i src s3)"
  have "i < length (dbs s3)" using assms(2) post_len [OF s3(2)] by simp
  then have "post {} s3 (del i src (kv s3)) (del i src (ex s3)) s4"
    using post_dbDelete [of i s3 src] by (auto simp: s4_def)
  then have p4: "post {} s (del i src (put i dst v (kv s))) (del i src e3) s4"
    using post_trans [OF s3(2)] post_views [OF s3(2)] by simp
  define s5 where "s5 = signalModifiedKey i dst (signalModifiedKey i src s4)"
  have "post {(i, src)} s (del i src (put i dst v (kv s))) (del i src e3) (signalModifiedKey i src s4)"
    using post_trans [OF p4 signalModifiedKey_spec [of i src s4]] post_views [OF p4] by simp
  from post_trans [OF this signalModifiedKey_spec [of i dst]] post_views [OF this]
  have p5: "post ({(i, src)} \<union> {(i, dst)}) s (del i src (put i dst v (kv s))) (del i src e3) s5" by (simp add: s5_def)
  define s6 where "s6 = add_dirty 1 (notifyKeyspaceEvent ''rename_to'' dst i (notifyKeyspaceEvent ''rename_from'' src i s5))"
  have "post ({(i, src)} \<union> {(i, dst)}) s (del i src (put i dst v (kv s))) (del i src e3) s6"
    by (rule post_then_veq [OF p5]) (simp add: s6_def view)
  moreover have "rename_apply i src dst v w d s = Some s6"
    using s2(1) s3(1) by (simp add: rename_apply_def s6_def s5_def s4_def Let_def flip: s1_def)
  ultimately show ?thesis by (simp add: e3_def insert_commute)
qed

lemma live_visible:
  assumes "visible s i k \<noteq> None"
  shows "kv_live s i k = kv s" "ex_live s i k = ex s" "\<not> gone s i k" "kv s i k = visible s i k"
  using assms by (auto simp: visible_def kv_live_def ex_live_def split: if_splits)

definition expiry :: "server \<Rightarrow> nat \<Rightarrow> bytes \<Rightarrow> int" where
  "expiry s i k = (case ex s i k of None \<Rightarrow> - 1 | Some w \<Rightarrow> w)"

text \<open>Two lookups, the first of which has found its key.\<close>

lemma lookup_both:
  assumes "ks_ok s" "i < length (dbs s)" "j < length (dbs s)" "visible s i k = Some v"
  shows "\<exists>s1 s2. lookupKeyWrite i k s = Some (Some v, s1) \<and> getExpire s1 i k = Some (expiry s i k) \<and>
    lookupKeyWrite j l s1 = Some (visible s j l, s2) \<and> post {} s (kv_live s j l) (ex_live s j l) s2 \<and> ks_ok s2"
proof -
  obtain s1 where s1: "lookupKeyWrite i k s = Some (visible s i k, s1)" "post {} s (kv_live s i k) (ex_live s i k) s1"
    using lookupKeyWrite_spec [OF assms(1,2)] by blast
  have p1: "post {} s (kv s) (ex s) s1" using s1(2) live_visible [of s i k] assms(4) by simp
  have ok1: "ks_ok s1" by (rule ks_ok_live [OF assms(1) s1(2)])
  have l1: "i < length (dbs s1)" "j < length (dbs s1)" using assms(2,3) post_len [OF p1] by simp_all
  have e: "getExpire s1 i k = Some (expiry s i k)" using getExpire_spec [OF ok1 l1(1)] post_views [OF p1] by (simp add: expiry_def)
  have same: "visible s1 j l = visible s j l" "kv_live s1 j l = kv_live s j l" "ex_live s1 j l = ex_live s j l"
    using post_views [OF p1] post_due [OF p1] by (simp_all add: visible_def kv_live_def ex_live_def gone_due)
  obtain s2 where s2: "lookupKeyWrite j l s1 = Some (visible s1 j l, s2)" "post {} s1 (kv_live s1 j l) (ex_live s1 j l) s2"
    using lookupKeyWrite_spec [OF ok1 l1(2)] by blast
  show ?thesis
    using s1(1) e s2 same assms(4) post_trans [OF p1 s2(2)] ks_ok_live [OF ok1 s2(2)] by auto
qed

lemma renameGenericCommand_spec:
  assumes "ks_ok s" "client_ok s c" "src \<noteq> dst" and i: "i = c_db (client_of s c)"
  shows "\<exists>s'. renameGenericCommand c src dst nx s = Some s' \<and>
    (case visible s i src of
       None \<Rightarrow> post {} s (kv_live s i src) (ex_live s i src) s' \<and> last (out s') = Reply c (RError ''no such key'')
     | Some v \<Rightarrow>
         if nx \<and> visible s i dst \<noteq> None
         then post {} s (kv_live s i dst) (ex_live s i dst) s' \<and> last (out s') = Reply c (RInt 0)
         else post {(i, src), (i, dst)} s (del i src (put i dst v (kv s)))
             (del i src (if expiry s i src = - 1 then del i dst (ex s) else put i dst (expiry s i src) (ex s))) s'
           \<and> last (out s') = Reply c (if nx then RInt 1 else ROk))"
proof -
  have il: "i < length (dbs s)" using assms(2) by (simp add: i client_ok_def)
  show ?thesis
  proof (cases "visible s i src")
    case None
    then obtain s1 where s1: "lookupKeyWrite i src s = Some (None, s1)" "post {} s (kv_live s i src) (ex_live s i src) s1"
      using lookupKeyWrite_spec [OF assms(1) il, of src] by auto
    then show ?thesis using None assms(3) by (simp add: renameGenericCommand_def flip: i) (rule post_reply)
  next
    case (Some v)
    obtain s1 s2 where s2: "lookupKeyWrite i src s = Some (Some v, s1)" "getExpire s1 i src = Some (expiry s i src)"
      "lookupKeyWrite i dst s1 = Some (visible s i dst, s2)" "post {} s (kv_live s i dst) (ex_live s i dst) s2" "ks_ok s2"
      using lookup_both [OF assms(1) il il Some] by blast
    show ?thesis
    proof (cases "nx \<and> visible s i dst \<noteq> None")
      case True
      then have "renameGenericCommand c src dst nx s = Some (addReply c (RInt 0) s2)"
        using s2(1-3) assms(3) by (simp add: renameGenericCommand_def flip: i)
      then show ?thesis using True Some post_reply [OF s2(4), of c "RInt 0"] by simp
    next
      case False
      have l2: "i < length (dbs s2)" using il post_len [OF s2(4)] by simp
      have w: "kv s2 = kv_live s i dst" "ex s2 = ex_live s i dst" using post_views [OF s2(4)] by simp_all
      have "kv s i src = Some v" using live_visible(4) [of s i src] Some by simp
      then have vs: "kv s2 i src = Some v" "kv s2 i dst = visible s i dst"
        using assms(3) unfolding w by (simp_all add: kv_live_def [of s i dst, THEN fun_cong, THEN fun_cong] del_apply visible_def)
      from vs obtain s3 where s3: "rename_apply i src dst v (expiry s i src) (visible s i dst \<noteq> None) s2 = Some s3"
        "post {(i, src), (i, dst)} s2 (del i src (put i dst v (kv s2)))
          (del i src (if expiry s i src = - 1 then del i dst (ex s2) else put i dst (expiry s i src) (ex s2))) s3"
        using rename_apply_spec [OF s2(5) l2 assms(3), of v "visible s i dst \<noteq> None" "expiry s i src"] by auto
      have "post {(i, src), (i, dst)} s (del i src (put i dst v (kv s)))
          (del i src (if expiry s i src = - 1 then del i dst (ex s) else put i dst (expiry s i src) (ex s))) s3"
        using post_trans [OF s2(4) s3(2)] unfolding w live_simps by simp
      moreover have "renameGenericCommand c src dst nx s = Some (addReply c (if nx then RInt 1 else ROk) s3)"
        unfolding renameGenericCommand_def i [symmetric] using s2(1-3) s3(1) False assms(3)
        by (cases nx) (simp_all del: not_None_eq)
      ultimately show ?thesis using False Some post_reply by (simp del: not_None_eq)
    qed
  qed
qed

section \<open>MOVE\<close>

lemma select_back:
  assumes "c < length (clients s)"
  shows "set_client c (\<lambda>cl. cl\<lparr>c_db := c_db (client_of s c)\<rparr>) (set_client c (\<lambda>cl. cl\<lparr>c_db := n\<rparr>) s) = s"
  using assms by (simp add: set_client_def client_of_def)

lemma move_apply_spec:
  assumes "ks_ok s" "src < length (dbs s)" "dst < length (dbs s)" "src \<noteq> dst"
  shows "\<exists>s'. move_apply c src dst k s = Some s' \<and>
    (case visible s src k of
       None \<Rightarrow> post {} s (kv_live s src k) (ex_live s src k) s' \<and> last (out s') = Reply c (RInt 0)
     | Some v \<Rightarrow>
         if visible s dst k \<noteq> None then post {} s (kv_live s dst k) (ex_live s dst k) s' \<and> last (out s') = Reply c (RInt 0)
         else post {} s (del src k (put dst k v (kv s))) (del src k (del dst k (ex s))) s' \<and> last (out s') = Reply c (RInt 1))"
proof (cases "visible s src k")
  case None
  then obtain s1 where s1: "lookupKeyWrite src k s = Some (None, s1)" "post {} s (kv_live s src k) (ex_live s src k) s1"
    using lookupKeyWrite_spec [OF assms(1,2), of k] by auto
  then show ?thesis using None by (simp add: move_apply_def) (rule post_reply)
next
  case (Some v)
  obtain s1 s2 where s2: "lookupKeyWrite src k s = Some (Some v, s1)"
    "lookupKeyWrite dst k s1 = Some (visible s dst k, s2)" "post {} s (kv_live s dst k) (ex_live s dst k) s2" "ks_ok s2"
    using lookup_both [OF assms(1,2,3) Some, of k] by blast
  show ?thesis
  proof (cases "visible s dst k \<noteq> None")
    case True
    then have "move_apply c src dst k s = Some (addReply c (RInt 0) s2)" using s2(1,2) by (simp add: move_apply_def)
    then show ?thesis using True Some post_reply [OF s2(3), of c "RInt 0"] by simp
  next
    case False
    have l2: "src < length (dbs s2)" "dst < length (dbs s2)" using assms(2,3) post_len [OF s2(3)] by simp_all
    have w: "kv s2 = kv_live s dst k" "ex s2 = ex_live s dst k" using post_views [OF s2(3)] by simp_all
    have "kv s2 dst k = None" using False w by simp
    then obtain s3 where s3: "dbAdd dst k v s2 = Some s3" "post {} s2 (put dst k v (kv s2)) (ex s2) s3"
      using dbAdd_spec [OF l2(2)] by blast
    have p3: "post {} s (put dst k v (kv s)) (ex_live s dst k) s3"
      using post_trans [OF s2(3) s3(2)] w by simp
    define s4 where "s4 = snd (dbDelete src k s3)"
    have "src < length (dbs s3)" using assms(2) post_len [OF p3] by simp
    then have "post {} s3 (del src k (kv s3)) (del src k (ex s3)) s4"
      using post_dbDelete [of src s3 k] by (auto simp: s4_def)
    then have p4: "post {} s (del src k (put dst k v (kv s))) (del src k (ex_live s dst k)) s4"
      using post_trans [OF p3] post_views [OF p3] by simp
    have "ex_live s dst k dst k = None"
      using False assms(1,3) by (auto simp: visible_def ks_ok_def split: if_splits)
    then have "ex_live s dst k = del dst k (ex s)" using del_absent [of "ex_live s dst k" dst k] by simp
    then have "post {} s (del src k (put dst k v (kv s))) (del src k (del dst k (ex s))) (addReply c (RInt 1) (add_dirty 1 s4))"
      using p4 by (intro post_reply) (auto intro: post_then_veq simp: view)
    moreover have "move_apply c src dst k s = Some (addReply c (RInt 1) (add_dirty 1 s4))"
      using s2 s3(1) False by (simp add: move_apply_def s4_def Let_def)
    ultimately show ?thesis using False Some by simp
  qed
qed

lemma moveCommand_selects:
  assumes "client_ok s c" "0 \<le> n" "n < int (length (dbs s))" "n \<le> 2147483647" "nat n \<noteq> c_db (client_of s c)"
  shows "moveCommand c k (Some n) s = move_apply c (c_db (client_of s c)) (nat n) k s"
proof -
  note c = client_okD [OF assms(1)]
  define s1 where "s1 = set_client c (\<lambda>cl. cl\<lparr>c_db := nat n\<rparr>) s"
  have sel: "selectDb c n s = (True, s1)" using assms(2,3) by (simp add: selectDb_def s1_def)
  have d: "c_db (client_of s1 c) = nat n" using c by (simp add: s1_def view)
  have "dbs s1 = dbs s" by (simp add: s1_def view)
  then have "snd (selectDb c (int (c_db (client_of s c))) s1) = s"
    using c select_back [OF c(1)] by (simp add: selectDb_def s1_def)
  then show ?thesis using assms sel d by (simp add: moveCommand_def Let_def)
qed

section \<open>Expire times\<close>

definition expire_at :: "int \<Rightarrow> int \<Rightarrow> time_unit \<Rightarrow> int" where
  "expire_at w0 basetime u = wrap64 ((if u = UNIT_SECONDS then wrap64 (w0 * 1000) else w0) + basetime)"

lemma expireGenericCommand_spec:
  assumes "ks_ok s" "client_ok s c" and i: "i = c_db (client_of s c)"
    and w_def: "w = expire_at w0 b u"
  shows "\<exists>s' kc'. expireGenericCommand c self k (Some w0) b u s = Some (kc', s') \<and>
    (if visible s i k = None
     then post {} s (kv_live s i k) (ex_live s i k) s' \<and> last (out s') = Reply c (RInt 0)
     else if w \<le> now s \<and> \<not> loading s \<and> \<not> masterhost s
     then post {(i, k)} s (del i k (kv s)) (del i k (ex s)) s' \<and> kc' = DEL [k] \<and> last (out s') = Reply c (RInt 1)
     else post {(i, k)} s (kv s) (put i k w (ex s)) s' \<and> Reply c (RInt 1) \<in> set (out s'))"
proof -
  have il: "i < length (dbs s)" using assms(2) by (simp add: i client_ok_def)
  obtain s1 where s1: "lookupKeyRead i k s = Some (visible s i k, s1)" "post {} s (kv_live s i k) (ex_live s i k) s1"
    using lookupKeyRead_spec [OF assms(1) il] by blast
  have f: "now s1 = now s" "loading s1 = loading s" "masterhost s1 = masterhost s"
    using s1(2) tframe_simps(4-6) [of "{}" s s1] by (simp_all add: post_def)
  have start: "expireGenericCommand c self k (Some w0) b u s =
    (if visible s i k = None then Some (self, addReply c (RInt 0) s1)
         else if w \<le> now s \<and> \<not> loading s \<and> \<not> masterhost s then
           (let (d, s) = dbDelete i k s1 in
            if \<not> d then None
            else Some (DEL [k],
              addReply c (RInt 1) (notifyKeyspaceEvent ''del'' k i (signalModifiedKey i k (add_dirty 1 s)))))
         else do {
           s \<leftarrow> setExpire i k w s1;
           let s = addReply c (RInt 1) s;
           let s = notifyKeyspaceEvent ''expire'' k i (signalModifiedKey i k s);
           Some (self, add_dirty 1 s)
         })"
    unfolding expireGenericCommand_def i [symmetric] w_def expire_at_def by (simp add: s1(1) f Let_def)
  show ?thesis
  proof (cases "visible s i k")
    case None
    then show ?thesis using start post_reply [OF s1(2), of c "RInt 0"] by simp
  next
    case (Some v)
    then have vis: "visible s i k \<noteq> None" by simp
    note lv = live_visible [OF vis]
    have p1: "post {} s (kv s) (ex s) s1" using s1(2) lv by simp
    have i1: "i < length (dbs s1)" using il post_len [OF p1] by simp
    have k1: "kv s1 i k \<noteq> None" using post_views [OF p1] lv(4) vis by simp
    show ?thesis
    proof (cases "w \<le> now s \<and> \<not> loading s \<and> \<not> masterhost s")
      case True
      obtain s2 where s2: "dbDelete i k s1 = (kv s1 i k \<noteq> None, s2)" "post {} s1 (del i k (kv s1)) (del i k (ex s1)) s2"
        using post_dbDelete [OF i1] by blast
      have "post {} s (del i k (kv s)) (del i k (ex s)) s2" using post_trans [OF p1 s2(2)] post_views [OF p1] by simp
      then have p3: "post {} s (del i k (kv s)) (del i k (ex s)) (add_dirty 1 s2)" by (rule post_then_veq) (simp add: view)
      have "post {(i, k)} s (del i k (kv s)) (del i k (ex s)) (signalModifiedKey i k (add_dirty 1 s2))"
        using post_trans [OF p3 signalModifiedKey_spec [of i k]] post_views [OF p3] by simp
      then have p4: "post {(i, k)} s (del i k (kv s)) (del i k (ex s))
          (addReply c (RInt 1) (notifyKeyspaceEvent ''del'' k i (signalModifiedKey i k (add_dirty 1 s2))))"
        by (rule post_then_veq) (simp add: view)
      show ?thesis using p4 start True vis k1 s2(1) by simp
    next
      case False
      obtain s2 where s2: "setExpire i k w s1 = Some s2" "post {} s1 (kv s1) (put i k w (ex s1)) s2"
        using setExpire_spec [OF i1 k1] by blast
      have "post {} s (kv s) (put i k w (ex s)) s2" using post_trans [OF p1 s2(2)] post_views [OF p1] by simp
      then have p3: "post {} s (kv s) (put i k w (ex s)) (addReply c (RInt 1) s2)" by (rule post_reply)
      define s4 where "s4 = signalModifiedKey i k (addReply c (RInt 1) s2)"
      have p4: "post {(i, k)} s (kv s) (put i k w (ex s)) s4"
        using post_trans [OF p3 signalModifiedKey_spec [of i k]] post_views [OF p3] by (simp add: s4_def)
      define s5 where "s5 = add_dirty 1 (notifyKeyspaceEvent ''expire'' k i s4)"
      have "post {(i, k)} s (kv s) (put i k w (ex s)) s5"
        by (rule post_then_veq [OF p4]) (simp add: s5_def view)
      moreover have "expireGenericCommand c self k (Some w0) b u s = Some (self, s5)"
        using start False vis s2(1) by (simp add: s5_def s4_def Let_def)
      moreover have "out (fold (\<lambda>c. set_client c (\<lambda>cl. cl\<lparr>c_dirty_cas := True\<rparr>)) cs t) = out t" for cs t
        by (induction cs arbitrary: t) (simp_all add: set_client_def)
      then have "out s4 = out s2 @ [Reply c (RInt 1)]"
        by (simp add: s4_def signalModifiedKey_def touchWatchedKey_def split: option.split)
      then have "Reply c (RInt 1) \<in> set (out s5)" by (simp add: s5_def add_dirty_def notifyKeyspaceEvent_def emit_def)
      ultimately show ?thesis using False vis by auto
    qed
  qed
qed

lemma persistCommand_spec:
  assumes "client_ok s c" and i: "i = c_db (client_of s c)"
  shows "\<exists>s'. persistCommand c k s = Some s' \<and> post {} s (kv s) (if kv s i k = None then ex s else del i k (ex s)) s' \<and>
    last (out s') = Reply c (RInt (if kv s i k \<noteq> None \<and> ex s i k \<noteq> None then 1 else 0))"
proof -
  have il: "i < length (dbs s)" using assms(1) by (simp add: i client_ok_def)
  show ?thesis
  proof (cases "kv s i k = None")
    case True
    have "post {} s (kv s) (ex s) (addReply c (RInt 0) s)" by (rule post_veq) (simp add: view)
    then show ?thesis using True by (simp add: persistCommand_def dbExists_def flip: i kv_def)
  next
    case False
    obtain s1 where s1: "removeExpire i k s = Some (ex s i k \<noteq> None, s1)" "post {} s (kv s) (del i k (ex s)) s1"
      using removeExpire_spec [OF il False] by blast
    define s2 where "s2 = (if ex s i k \<noteq> None then add_dirty 1 (addReply c (RInt 1) s1) else addReply c (RInt 0) s1)"
    have "post {} s (kv s) (del i k (ex s)) s2" by (rule post_then_veq [OF s1(2)]) (simp add: s2_def view)
    moreover have "last (out s2) = Reply c (RInt (if ex s i k \<noteq> None then 1 else 0))" by (simp add: s2_def add_dirty_def)
    moreover have "persistCommand c k s = Some s2"
      using False s1(1) by (auto simp: persistCommand_def dbExists_def s2_def simp flip: i kv_def)
    ultimately show ?thesis using False by auto
  qed
qed

section \<open>Commands that only look a key up\<close>

lemma read_command:
  assumes "ks_ok s" "client_ok s c" and i: "i = c_db (client_of s c)"
    and f: "f s = do { (r, s) \<leftarrow> lookupKeyRead i k s; Some (addReply c (g r s) s) }"
  shows "\<exists>s' t. f s = Some s' \<and> post {} s (kv_live s i k) (ex_live s i k) s' \<and> last (out s') = Reply c (g (visible s i k) t) \<and>
    (\<forall>v. otype (objs t v) = otype (objs s v))"
proof -
  have il: "i < length (dbs s)" using assms(2) by (simp add: i client_ok_def)
  obtain s1 where s1: "lookupKeyRead i k s = Some (visible s i k, s1)" "post {} s (kv_live s i k) (ex_live s i k) s1"
    using lookupKeyRead_spec [OF assms(1) il] by blast
  moreover have "\<forall>v. otype (objs s1 v) = otype (objs s v)" using s1(2) tframe_simps(9) by (auto simp: post_def)
  ultimately show ?thesis unfolding f using post_reply [OF s1(2)] by auto
qed

lemma typeCommand_spec:
  assumes "ks_ok s" "client_ok s c" and i: "i = c_db (client_of s c)"
  shows "\<exists>s'. typeCommand c k s = Some s' \<and> post {} s (kv_live s i k) (ex_live s i k) s' \<and>
    last (out s') = Reply c (RStatus (case visible s i k of None \<Rightarrow> ''none'' | Some v \<Rightarrow> type_name (otype (objs s v))))"
  using read_command [OF assms, of "typeCommand c k" k
      "\<lambda>r s. RStatus (case r of None \<Rightarrow> ''none'' | Some v \<Rightarrow> type_name (otype (objs s v)))"]
  by (auto simp: typeCommand_def split: option.splits simp flip: i)

lemma getGenericCommand_spec:
  assumes "ks_ok s" "client_ok s c" and i: "i = c_db (client_of s c)"
  shows "\<exists>s'. getGenericCommand c k s = Some s' \<and> post {} s (kv_live s i k) (ex_live s i k) s' \<and>
    last (out s') = Reply c (case visible s i k of None \<Rightarrow> RNullBulk
      | Some v \<Rightarrow> if otype (objs s v) \<noteq> REDIS_STRING then RError ''WRONGTYPE'' else RBulk v)"
proof -
  have e: "getGenericCommand c k s = do { (r, s) \<leftarrow> lookupKeyRead i k s; Some (addReply c (case r of None \<Rightarrow> RNullBulk
      | Some v \<Rightarrow> if otype (objs s v) \<noteq> REDIS_STRING then RError ''WRONGTYPE'' else RBulk v) s) }"
    unfolding getGenericCommand_def i [symmetric] by (cases "lookupKeyRead i k s") (auto split: option.splits)
  show ?thesis
    using read_command [OF assms, of "getGenericCommand c k" k "\<lambda>r s. case r of None \<Rightarrow> RNullBulk
      | Some v \<Rightarrow> if otype (objs s v) \<noteq> REDIS_STRING then RError ''WRONGTYPE'' else RBulk v", OF e]
    by (auto split: option.splits)
qed

lemma existsCommand_spec:
  assumes "ks_ok s" "client_ok s c" and i: "i = c_db (client_of s c)"
  shows "\<exists>s'. existsCommand c k s = Some s' \<and> post {} s (kv_live s i k) (ex_live s i k) s' \<and>
    last (out s') = Reply c (RInt (if visible s i k = None then 0 else 1))"
proof -
  have il: "i < length (dbs s)" using assms(2) by (simp add: i client_ok_def)
  obtain s1 where s1: "expireIfNeeded i k s = Some (expired s i k, s1)" "post {} s (kv_live s i k) (ex_live s i k) s1"
    using expireIfNeeded_spec [OF assms(1) il] by blast
  have "dbExists s1 i k \<longleftrightarrow> visible s i k \<noteq> None" using post_views [OF s1(2)] by (simp add: dbExists_def flip: kv_def)
  then show ?thesis using s1 post_reply [OF s1(2)] by (simp add: existsCommand_def flip: i)
qed

lemma ttlGenericCommand_spec:
  assumes "ks_ok s" "client_ok s c" and i: "i = c_db (client_of s c)"
  shows "\<exists>s'. ttlGenericCommand c k ms s = Some s' \<and> post {} s (kv_live s i k) (ex_live s i k) s' \<and>
    last (out s') = Reply c (RInt (if visible s i k = None then - 2 else if expiry s i k = - 1 then - 1
      else let ttl = max 0 (wrap64 (expiry s i k - now s)) in if ms then ttl else wrap64 (ttl + 500) sdiv 1000))"
proof -
  have il: "i < length (dbs s)" using assms(2) by (simp add: i client_ok_def)
  obtain s1 where s1: "lookupKeyRead i k s = Some (visible s i k, s1)" "post {} s (kv_live s i k) (ex_live s i k) s1"
    using lookupKeyRead_spec [OF assms(1) il] by blast
  show ?thesis
  proof (cases "visible s i k")
    case None
    then show ?thesis using s1 post_reply [OF s1(2)] by (simp add: ttlGenericCommand_def flip: i)
  next
    case (Some v)
    have "i < length (dbs s1)" using il post_len [OF s1(2)] by simp
    then have "getExpire s1 i k = Some (expiry s i k)"
      using getExpire_spec [OF ks_ok_live [OF assms(1) s1(2)]] post_views [OF s1(2)] live_visible [of s i k] Some
      by (simp add: expiry_def)
    moreover have "now s1 = now s" using s1(2) tframe_simps(4) by (auto simp: post_def)
    ultimately show ?thesis using s1 Some post_reply [OF s1(2)] by (auto simp: ttlGenericCommand_def Let_def simp flip: i)
  qed
qed

end
