(* ===== verification/Transactions.thy ===== *)
theory Transactions
  imports KeyspaceOps
begin

text \<open>
  The invariant of the server (\<open>server_ok\<close>: no expire time without a key, the watch index
  and the clients' lists say the same), that every command keeps it without failing an
  assertion, and what \<open>WATCH\<close> guarantees.
\<close>

section \<open>The invariant\<close>

definition watch_ok :: "server \<Rightarrow> bool" where
  "watch_ok s \<longleftrightarrow>
    (\<forall>i < length (dbs s). \<forall>k. Mapping.lookup (watched_keys (db_of s i)) k \<noteq> Some [] \<and> distinct (watchers s i k)
      \<and> (\<forall>w. w \<in> set (watchers s i k) \<longleftrightarrow> w < length (clients s) \<and> (k, i) \<in> set (c_watched (client_of s w))))
    \<and> (\<forall>w < length (clients s). distinct (c_watched (client_of s w))
      \<and> (\<forall>k i. (k, i) \<in> set (c_watched (client_of s w)) \<longrightarrow> i < length (dbs s)))"

definition server_ok :: "server \<Rightarrow> bool" where
  "server_ok s \<longleftrightarrow> ks_ok s \<and> watch_ok s \<and> (\<forall>c < length (clients s). c_db (client_of s c) < length (dbs s))"

lemma server_okD:
  assumes "server_ok s"
  shows "ks_ok s" "watch_ok s" "c < length (clients s) \<Longrightarrow> client_ok s c"
  using assms by (simp_all add: server_ok_def client_ok_def)

lemma watch_iff:
  assumes "watch_ok s" "i < length (dbs s)"
  shows "w \<in> set (watchers s i k) \<longleftrightarrow> w < length (clients s) \<and> (k, i) \<in> set (c_watched (client_of s w))"
  using assms by (auto simp: watch_ok_def)

lemma watched_db: "watch_ok s \<Longrightarrow> w < length (clients s) \<Longrightarrow> (k, i) \<in> set (c_watched (client_of s w)) \<Longrightarrow> i < length (dbs s)"
  unfolding watch_ok_def by blast

lemma watch_ok_cong:
  assumes "watch_ok s" "length (dbs s') = length (dbs s)" "length (clients s') = length (clients s)"
    and "\<And>i. watched_keys (db_of s' i) = watched_keys (db_of s i)"
    and "\<And>w. w < length (clients s) \<Longrightarrow> c_watched (client_of s' w) = c_watched (client_of s w)"
  shows "watch_ok s'"
proof -
  have "watchers s' i k = watchers s i k" for i k by (simp add: watchers_def assms(4))
  then show ?thesis using assms(1) unfolding watch_ok_def by (simp add: assms(2-5) cong: conj_cong)
qed

section \<open>What a step of a client may do\<close>

text \<open>\<open>eff b own c s s'\<close>: a step of client \<open>c\<close> keeps the invariant and only marks the other
  clients.  A client other than \<open>c\<close>, and with \<open>own\<close> also \<open>c\<close>, keeps its watched keys and its
  mark, and with \<open>b\<close> it is marked when a key without expire time it watches is changed.\<close>

definition watch_kept :: "bool \<Rightarrow> nat \<Rightarrow> server \<Rightarrow> server \<Rightarrow> bool" where
  "watch_kept b u s s' \<longleftrightarrow> set (c_watched (client_of s u)) \<subseteq> set (c_watched (client_of s' u))
    \<and> (c_dirty_cas (client_of s u) \<longrightarrow> c_dirty_cas (client_of s' u))
    \<and> (b \<longrightarrow> (\<forall>k i. (k, i) \<in> set (c_watched (client_of s u)) \<and> ex s i k = None \<and>
          (kv s' i k \<noteq> kv s i k \<or> ex s' i k \<noteq> None) \<longrightarrow> c_dirty_cas (client_of s' u)))"

definition eff :: "bool \<Rightarrow> bool \<Rightarrow> nat \<Rightarrow> server \<Rightarrow> server \<Rightarrow> bool" where
  "eff b own c s s' \<longleftrightarrow> server_ok s' \<and> length (dbs s') = length (dbs s) \<and> length (clients s') = length (clients s)
    \<and> now s' = now s
    \<and> (\<forall>u < length (clients s). (u \<noteq> c \<longrightarrow> (\<exists>d. client_of s' u = mark d (client_of s u))) \<and>
        (u \<noteq> c \<or> own \<longrightarrow> watch_kept b u s s'))"

lemma effD:
  assumes "eff b own c s s'"
  shows "server_ok s'" "length (dbs s') = length (dbs s)" "length (clients s') = length (clients s)" "now s' = now s"
  using assms by (simp_all add: eff_def)

lemma watch_kept_trans:
  assumes "watch_kept b u s s1" "watch_kept b u s1 s2"
  shows "watch_kept b u s s2"
  unfolding watch_kept_def
proof (intro conjI impI allI)
  fix k i
  assume b: "b" and w: "(k, i) \<in> set (c_watched (client_of s u)) \<and> ex s i k = None \<and> (kv s2 i k \<noteq> kv s i k \<or> ex s2 i k \<noteq> None)"
  show "c_dirty_cas (client_of s2 u)"
  proof (cases "kv s1 i k \<noteq> kv s i k \<or> ex s1 i k \<noteq> None")
    case True
    then have "c_dirty_cas (client_of s1 u)" using assms(1) b w unfolding watch_kept_def by blast
    then show ?thesis using assms(2) by (simp add: watch_kept_def)
  next
    case False
    then have "(k, i) \<in> set (c_watched (client_of s1 u))" "ex s1 i k = None" "kv s2 i k \<noteq> kv s1 i k \<or> ex s2 i k \<noteq> None"
      using w assms(1) unfolding watch_kept_def by auto
    then show ?thesis using assms(2) b unfolding watch_kept_def by blast
  qed
qed (use assms in \<open>auto simp: watch_kept_def\<close>)

lemma watch_kept_refl [simp]: "watch_kept b u s s"
  by (auto simp: watch_kept_def)

lemma eff_refl: "server_ok s \<Longrightarrow> eff b own c s s"
  by (auto simp: eff_def intro: exI [of _ False])

lemma eff_weaken:
  assumes "eff b own c s s'" "b' \<longrightarrow> b" "own' \<longrightarrow> own"
  shows "eff b' own' c s s'"
proof -
  have "watch_kept b u s s' \<Longrightarrow> watch_kept b' u s s'" for u using assms(2) by (simp add: watch_kept_def)
  then show ?thesis using assms(1,3) by (simp add: eff_def)
qed

lemma eff_trans:
  assumes "eff b own c s s1" "eff b own c s1 s2"
  shows "eff b own c s s2"
proof -
  have "\<exists>d. client_of s2 u = mark d (client_of s u)" if u: "u < length (clients s)" "u \<noteq> c" for u
  proof -
    obtain d1 d2 where "client_of s1 u = mark d1 (client_of s u)" "client_of s2 u = mark d2 (client_of s1 u)"
      using assms u unfolding eff_def by metis
    then show ?thesis by auto
  qed
  moreover have "watch_kept b u s s2" if "u < length (clients s)" "u \<noteq> c \<or> own" for u
    using assms that unfolding eff_def by (metis watch_kept_trans)
  ultimately show ?thesis using assms by (simp add: eff_def)
qed

lemma server_ok_post:
  assumes "server_ok s" "post T s m e s'" "\<And>i k. i < length (dbs s) \<Longrightarrow> m i k = None \<Longrightarrow> e i k = None"
  shows "server_ok s'"
proof -
  have f: "tframe T s s'" using assms(2) by (simp add: post_def)
  have "watch_ok s'"
    by (rule watch_ok_cong [OF server_okD(2) [OF assms(1)]])
      (use f in \<open>auto simp: tframe_def same_index_def\<close>)
  moreover have "ks_ok s'" by (rule ks_ok_post [OF assms(2,3)])
  ultimately show ?thesis
    using assms(1) post_len [OF assms(2)] c_db_post [OF assms(2)] by (simp add: server_ok_def)
qed

lemma post_eff:
  assumes "server_ok s" "post T s m e s'" "\<And>i k. i < length (dbs s) \<Longrightarrow> m i k = None \<Longrightarrow> e i k = None"
    and ch: "\<And>i k. b \<Longrightarrow> i < length (dbs s) \<Longrightarrow> ex s i k = None \<Longrightarrow> m i k \<noteq> kv s i k \<or> e i k \<noteq> None \<Longrightarrow> (i, k) \<in> T"
  shows "eff b own c s s'"
proof -
  have f: "tframe T s s'" and v: "kv s' = m" "ex s' = e" using assms(2) by (simp_all add: post_def)
  have cl: "client_of s' u = mark (touched_by s T u) (client_of s u)" if "u < length (clients s)" for u
    using tframe_client [OF f that] .
  have "c_dirty_cas (client_of s' u)"
    if b: "b" and u: "u < length (clients s)" and w: "(k, i) \<in> set (c_watched (client_of s u))" "ex s i k = None"
      "m i k \<noteq> kv s i k \<or> e i k \<noteq> None" for u k i
  proof -
    have wk: "watch_ok s" using assms(1) by (rule server_okD)
    have i: "i < length (dbs s)" by (rule watched_db [OF wk u w(1)])
    have "(i, k) \<in> T" using ch [OF b i w(2,3)] .
    moreover have "u \<in> set (watchers s i k)" using watch_iff [OF wk i] u w(1) by simp
    ultimately show ?thesis using cl [OF u] by (auto simp: touched_by_def)
  qed
  then have "watch_kept b u s s'" if "u < length (clients s)" for u
    using cl that by (auto simp: watch_kept_def v)
  then show ?thesis
    using server_ok_post [OF assms(1-3)] tframe_simps(1,2,4) [OF f] cl by (auto simp: eff_def)
qed

lemma ks_okD: "server_ok s \<Longrightarrow> i < length (dbs s) \<Longrightarrow> kv s i k = None \<Longrightarrow> ex s i k = None"
  by (simp add: server_ok_def ks_ok_def)

lemma live_eff:
  assumes "server_ok s" "post {} s (kv_live s i k) (ex_live s i k) s'"
  shows "eff b own c s s'"
proof (rule post_eff [OF assms])
  show "ex_live s i k j l = None" if "j < length (dbs s)" "kv_live s i k j l = None" for j l
    using that ks_okD [OF assms(1)] by (auto simp: kv_live_def ex_live_def del_apply split: if_splits)
  show "(j, l) \<in> {}" if "ex s j l = None" "kv_live s i k j l \<noteq> kv s j l \<or> ex_live s i k j l \<noteq> None" for j l
    using that by (auto simp: kv_live_def ex_live_def del_apply gone_due split: if_splits)
qed

lemma veq_eff:
  assumes "server_ok s" "veq s s'"
  shows "eff b own c s s'"
  by (rule post_eff [OF assms(1) post_veq [OF assms(2)]]) (use ks_okD [OF assms(1)] in auto)

section \<open>The commands\<close>

lemma eff_of_post:
  assumes "server_ok s" "post T s m e s'"
    and "\<And>j l. j < length (dbs s) \<Longrightarrow> m j l = None \<Longrightarrow> e j l = None"
    and "\<And>j l. (j, l) \<notin> T \<Longrightarrow> ex s j l = None \<Longrightarrow> m j l = kv s j l \<and> e j l = None"
  shows "eff b own c s s'"
proof (rule post_eff [OF assms(1,2,3)])
  show "(j, l) \<in> T" if "ex s j l = None" "m j l \<noteq> kv s j l \<or> e j l \<noteq> None" for j l
    using assms(4) [of j l] that by (cases "(j, l) \<in> T") auto
qed

lemma set_eff:
  assumes "server_ok s" "c < length (clients s)"
  shows "\<exists>s'. set_command c nx xx k v ms okr abr s = Some s' \<and> eff b own c s s'"
proof -
  define i where "i = c_db (client_of s c)"
  obtain s' where s': "set_command c nx xx k v ms okr abr s = Some s'"
    "if set_refused s i nx xx k then post {} s (kv_live s i k) (ex_live s i k) s'
     else post {(i, k)} s (put i k v (kv s))
       (case ms of None \<Rightarrow> del i k (ex s) | Some m \<Rightarrow> put i k (wrap64 (now s + m)) (ex s)) s'"
    using set_command_spec [OF server_okD(1) [OF assms(1)] server_okD(3) [OF assms] i_def, of nx xx k v ms okr abr] by (auto split: if_splits)
  have "eff b own c s s'"
  proof (cases "set_refused s i nx xx k")
    case True
    then show ?thesis using s'(2) live_eff [OF assms(1)] by simp
  next
    case False
    then have "post {(i, k)} s (put i k v (kv s))
       (case ms of None \<Rightarrow> del i k (ex s) | Some m \<Rightarrow> put i k (wrap64 (now s + m)) (ex s)) s'" using s'(2) by simp
    then show ?thesis
      by (rule eff_of_post [OF assms(1)]) (use ks_okD [OF assms(1)] in \<open>auto simp: put_apply del_apply split: option.splits if_splits\<close>)
  qed
  then show ?thesis using s'(1) by blast
qed

lemma setGeneric_eff:
  assumes "server_ok s" "c < length (clients s)"
  shows "\<exists>s'. setGenericCommand c nx xx k v x okr abr s = Some s' \<and> eff b own c s s'"
  using set_eff [OF assms, of nx xx k v _ okr abr b own] veq_eff [OF assms(1)]
  by (auto simp: setGenericCommand_def view split: option.split)

lemma visible_or_due: "visible s i k = None \<Longrightarrow> ex s i k = None \<Longrightarrow> kv s i k = None"
  by (simp add: visible_def gone_due split: if_splits)

lemma del_eff:
  assumes "server_ok s" "c < length (clients s)"
  shows "\<exists>s'. delCommand c ks s = Some s' \<and> eff b own c s s'"
proof -
  define i where "i = c_db (client_of s c)"
  obtain s' where s': "delCommand c ks s = Some s'"
    "post ({i} \<times> {k \<in> set ks. visible s i k \<noteq> None}) s
        (\<lambda>j k. if j = i \<and> k \<in> set ks then None else kv s j k) (\<lambda>j k. if j = i \<and> k \<in> set ks then None else ex s j k) s'"
    using delCommand_spec [OF server_okD(1) [OF assms(1)] server_okD(3) [OF assms] i_def] by blast
  have "eff b own c s s'"
    by (rule eff_of_post [OF assms(1) s'(2)]) (use ks_okD [OF assms(1)] visible_or_due in \<open>auto split: if_splits\<close>)
  then show ?thesis using s'(1) by blast
qed

lemma rename_eff:
  assumes "server_ok s" "c < length (clients s)"
  shows "\<exists>s'. renameGenericCommand c src dst nx s = Some s' \<and> eff b own c s s'"
proof (cases "src = dst")
  case True
  then show ?thesis using veq_eff [OF assms(1)] by (simp add: renameGenericCommand_def view)
next
  case False
  define i where "i = c_db (client_of s c)"
  obtain s' where s': "renameGenericCommand c src dst nx s = Some s'"
    "case visible s i src of
       None \<Rightarrow> post {} s (kv_live s i src) (ex_live s i src) s' \<and> last (out s') = Reply c (RError ''no such key'')
     | Some v \<Rightarrow>
         if nx \<and> visible s i dst \<noteq> None
         then post {} s (kv_live s i dst) (ex_live s i dst) s' \<and> last (out s') = Reply c (RInt 0)
         else post {(i, src), (i, dst)} s (del i src (put i dst v (kv s)))
             (del i src (if expiry s i src = - 1 then del i dst (ex s) else put i dst (expiry s i src) (ex s))) s'
           \<and> last (out s') = Reply c (if nx then RInt 1 else ROk)"
    using renameGenericCommand_spec [OF server_okD(1) [OF assms(1)] server_okD(3) [OF assms] False i_def] by blast
  have "eff b own c s s'"
  proof (cases "visible s i src")
    case None
    then show ?thesis using s'(2) by (auto intro: live_eff [OF assms(1)])
  next
    case (Some v)
    show ?thesis
    proof (cases "nx \<and> visible s i dst \<noteq> None")
      case True
      then show ?thesis using s'(2) Some by (auto intro: live_eff [OF assms(1)])
    next
      case F: False
      then have "post {(i, src), (i, dst)} s (del i src (put i dst v (kv s)))
             (del i src (if expiry s i src = - 1 then del i dst (ex s) else put i dst (expiry s i src) (ex s))) s'"
        using s'(2) Some by (simp del: not_None_eq)
      then show ?thesis
        by (rule eff_of_post [OF assms(1)]) (use ks_okD [OF assms(1)] in \<open>auto simp: put_apply del_apply split: if_splits\<close>)
    qed
  qed
  then show ?thesis using s'(1) by blast
qed

lemma move_eff:
  assumes "server_ok s" "c < length (clients s)"
  shows "\<exists>s'. moveCommand c k n s = Some s' \<and> eff False own c s s'"
proof (cases "\<exists>m. n = Some m \<and> 0 \<le> m \<and> m < int (length (dbs s)) \<and> m \<le> 2147483647 \<and> nat m \<noteq> c_db (client_of s c)")
  case True
  then obtain m where m: "n = Some m" "0 \<le> m" "m < int (length (dbs s))" "m \<le> 2147483647" "nat m \<noteq> c_db (client_of s c)" by blast
  define i where "i = c_db (client_of s c)"
  have il: "i < length (dbs s)" "nat m < length (dbs s)" using client_okD(2) [OF server_okD(3) [OF assms]] m by (simp_all add: i_def)
  obtain s' where s': "move_apply c i (nat m) k s = Some s'"
    "case visible s i k of
       None \<Rightarrow> post {} s (kv_live s i k) (ex_live s i k) s' \<and> last (out s') = Reply c (RInt 0)
     | Some v \<Rightarrow>
         if visible s (nat m) k \<noteq> None then post {} s (kv_live s (nat m) k) (ex_live s (nat m) k) s' \<and> last (out s') = Reply c (RInt 0)
         else post {} s (del i k (put (nat m) k v (kv s))) (del i k (del (nat m) k (ex s))) s' \<and> last (out s') = Reply c (RInt 1)"
    using move_apply_spec [OF server_okD(1) [OF assms(1)] il, of c k] m(5) by (auto simp: i_def)
  have "eff False own c s s'"
  proof (cases "visible s i k")
    case None
    then show ?thesis using s'(2) by (auto intro: live_eff [OF assms(1)])
  next
    case (Some v)
    show ?thesis
    proof (cases "visible s (nat m) k \<noteq> None")
      case True
      then show ?thesis using s'(2) Some by (auto intro: live_eff [OF assms(1)])
    next
      case F: False
      then have "post {} s (del i k (put (nat m) k v (kv s))) (del i k (del (nat m) k (ex s))) s'"
        using s'(2) Some by (simp del: not_None_eq)
      then show ?thesis
        by (rule post_eff [OF assms(1)]) (use ks_okD [OF assms(1)] in \<open>auto simp: put_apply del_apply split: if_splits\<close>)
    qed
  qed
  then show ?thesis
    using s'(1) moveCommand_selects [OF server_okD(3) [OF assms] m(2-5)] by (simp add: m(1) i_def)
next
  case False
  have s: "eff False own c s (addReply c r s)" for r by (rule veq_eff [OF assms(1)]) (simp add: view)
  show ?thesis
  proof (cases "\<exists>m. n = Some m \<and> 0 \<le> m \<and> m < int (length (dbs s)) \<and> m \<le> 2147483647")
    case True
    then obtain m where m: "n = Some m" "0 \<le> m" "m < int (length (dbs s))" "m \<le> 2147483647" by blast
    then have e: "nat m = c_db (client_of s c)" using False by blast
    then have "selectDb c m s = (True, s)" "int (c_db (client_of s c)) = m"
      using m select_back [OF assms(2), of "nat m"]
      by (auto simp: selectDb_def set_client_def client_of_def)
    then show ?thesis using m s by (simp add: moveCommand_def Let_def)
  next
    case F: False
    show ?thesis
    proof (cases n)
      case None
      then show ?thesis using s by (simp add: moveCommand_def)
    next
      case (Some m)
      then have "m < - 2147483648 \<or> m > 2147483647 \<or> \<not> fst (selectDb c m s)" using F by (auto simp: selectDb_def)
      then show ?thesis using s Some by (simp add: moveCommand_def)
    qed
  qed
qed

lemma expire_eff:
  assumes "server_ok s" "c < length (clients s)"
  shows "\<exists>s' kc'. expireGenericCommand c self k n bt u s = Some (kc', s') \<and> eff b own c s s'"
proof (cases n)
  case None
  then show ?thesis using veq_eff [OF assms(1)] by (simp add: expireGenericCommand_def view)
next
  case (Some w0)
  define i where "i = c_db (client_of s c)"
  define w where "w = expire_at w0 bt u"
  obtain s' kc' where s': "expireGenericCommand c self k (Some w0) bt u s = Some (kc', s')"
    "if visible s i k = None
     then post {} s (kv_live s i k) (ex_live s i k) s' \<and> last (out s') = Reply c (RInt 0)
     else if w \<le> now s \<and> \<not> loading s \<and> \<not> masterhost s
     then post {(i, k)} s (del i k (kv s)) (del i k (ex s)) s' \<and> kc' = DEL [k] \<and> last (out s') = Reply c (RInt 1)
     else post {(i, k)} s (kv s) (put i k w (ex s)) s' \<and> Reply c (RInt 1) \<in> set (out s')"
    using expireGenericCommand_spec [OF server_okD(1) [OF assms(1)] server_okD(3) [OF assms] i_def w_def, of self k] by blast
  have "eff b own c s s'"
  proof (cases "visible s i k = None")
    case True
    then show ?thesis using s'(2) by (auto intro: live_eff [OF assms(1)])
  next
    case vis: False
    show ?thesis
    proof (cases "w \<le> now s \<and> \<not> loading s \<and> \<not> masterhost s")
      case True
      then have "post {(i, k)} s (del i k (kv s)) (del i k (ex s)) s'" using s'(2) vis by simp
      then show ?thesis
        by (rule eff_of_post [OF assms(1)]) (use ks_okD [OF assms(1)] in \<open>auto simp: del_apply split: if_splits\<close>)
    next
      case False
      then have "post {(i, k)} s (kv s) (put i k w (ex s)) s'" using s'(2) vis by (simp del: not_None_eq)
      then show ?thesis
        by (rule eff_of_post [OF assms(1)])
          (use ks_okD [OF assms(1)] live_visible(4) [OF vis] vis in \<open>auto simp: put_apply split: if_splits\<close>)
    qed
  qed
  then show ?thesis using s'(1) Some by blast
qed

lemma persist_eff:
  assumes "server_ok s" "c < length (clients s)"
  shows "\<exists>s'. persistCommand c k s = Some s' \<and> eff b own c s s'"
proof -
  define i where "i = c_db (client_of s c)"
  obtain s' where s': "persistCommand c k s = Some s'" "post {} s (kv s) (if kv s i k = None then ex s else del i k (ex s)) s'"
    using persistCommand_spec [OF server_okD(3) [OF assms] i_def] by blast
  have "eff b own c s s'"
    by (rule eff_of_post [OF assms(1) s'(2)]) (use ks_okD [OF assms(1)] in \<open>auto simp: del_apply split: if_splits\<close>)
  then show ?thesis using s'(1) by blast
qed

lemma read_eff:
  assumes "server_ok s" "c < length (clients s)"
  shows "\<exists>s'. getGenericCommand c k s = Some s' \<and> eff b own c s s'" "\<exists>s'. typeCommand c k s = Some s' \<and> eff b own c s s'"
    "\<exists>s'. existsCommand c k s = Some s' \<and> eff b own c s s'" "\<exists>s'. ttlGenericCommand c k ms s = Some s' \<and> eff b own c s s'"
  using getGenericCommand_spec [OF server_okD(1) [OF assms(1)] server_okD(3) [OF assms] refl, of k]
    typeCommand_spec [OF server_okD(1) [OF assms(1)] server_okD(3) [OF assms] refl, of k]
    existsCommand_spec [OF server_okD(1) [OF assms(1)] server_okD(3) [OF assms] refl, of k]
    ttlGenericCommand_spec [OF server_okD(1) [OF assms(1)] server_okD(3) [OF assms] refl, of k ms]
    live_eff [OF assms(1)] by blast+

section \<open>Flushing\<close>

lemma nth_map_same: "map f xs ! i = (if i < length xs then f (xs ! i) else xs ! i)" for xs :: "'a list" and f :: "'a \<Rightarrow> 'a"
  by (induction xs arbitrary: i) (auto simp: nth_Cons' split: if_splits)

lemma signalFlushedDb_post:
  assumes "server_ok s"
  shows "post {(i, k). i < length (dbs s) \<and> (d = None \<or> d = Some i) \<and> kv s i k \<noteq> None} s (kv s) (ex s) (signalFlushedDb d s)"
    (is "post ?T _ _ _ ?s'")
proof -
  have c: "client_of ?s' w = mark (flush_touches s d (client_of s w)) (client_of s w)" if "w < length (clients s)" for w
    using that by (simp add: client_of_def signalFlushedDb_def touchWatchedKeysOnFlush_def mark_def)
  have "flush_touches s d (client_of s w) = touched_by s ?T w" if w: "w < length (clients s)" for w
  proof -
    have "touched_by s ?T w \<longleftrightarrow> (\<exists>i k. i < length (dbs s) \<and> (d = None \<or> d = Some i) \<and> kv s i k \<noteq> None \<and>
        (k, i) \<in> set (c_watched (client_of s w)))"
      by (simp add: touched_by_def watch_iff [OF server_okD(2) [OF assms]] w cong: conj_cong)
    also have "\<dots> \<longleftrightarrow> flush_touches s d (client_of s w)"
      using watched_db [OF server_okD(2) [OF assms] w] by (auto simp: flush_touches_def list_ex_iff kv_def)
    finally show ?thesis by simp
  qed
  then have "tframe ?T s ?s'"
    using c by (auto simp: tframe_def same_index_def signalFlushedDb_def touchWatchedKeysOnFlush_def db_of_def)
  then show ?thesis
    by (auto simp: post_def kv_def ex_def db_of_def signalFlushedDb_def touchWatchedKeysOnFlush_def fun_eq_iff)
qed

lemma flushdb_eff:
  assumes "server_ok s" "c < length (clients s)"
  shows "eff b own c s (flushdbCommand c s)"
proof -
  define i where "i = c_db (client_of s c)"
  have il: "i < length (dbs s)" using client_okD(2) [OF server_okD(3) [OF assms]] by (simp add: i_def)
  define s1 where "s1 = add_dirty (int (Mapping.size (db_dict (db_of s i)))) s"
  have e1: "eff b own c s s1" by (rule veq_eff [OF assms(1)]) (simp add: s1_def view)
  note ok1 = effD(1) [OF e1]
  have l1: "i < length (dbs s1)" using il effD(2) [OF e1] by simp
  define s2 where "s2 = signalFlushedDb (Some i) s1"
  define T where "T = {(j, k). j < length (dbs s1) \<and> (Some i = None \<or> Some i = Some j) \<and> kv s1 j k \<noteq> None}"
  have p2: "post T s1 (kv s1) (ex s1) s2" unfolding s2_def T_def by (rule signalFlushedDb_post [OF ok1])
  have l2: "i < length (dbs s2)" using l1 post_len [OF p2] by simp
  have p3: "post {} s2 (\<lambda>j k. if j = i then None else kv s2 j k) (\<lambda>j k. if j = i then None else ex s2 j k) (set_db i empty_one s2)"
    by (rule post_set_db [OF l2]) (auto simp: empty_one_def)
  have p: "post T s1 (\<lambda>j k. if j = i then None else kv s1 j k) (\<lambda>j k. if j = i then None else ex s1 j k) (addReply c ROk (set_db i empty_one s2))"
    using post_reply [OF post_trans [OF p2 p3]] unfolding post_views [OF p2] by simp
  have "eff b own c s1 (addReply c ROk (set_db i empty_one s2))"
    by (rule eff_of_post [OF ok1 p]) (use ks_okD [OF ok1] l1 in \<open>auto simp: T_def split: if_splits\<close>)
  then show ?thesis
    using eff_trans [OF e1] by (simp add: flushdbCommand_def Let_def s2_def s1_def i_def)
qed

lemma flushall_eff:
  assumes "server_ok s" "c < length (clients s)"
  shows "eff b own c s (flushallCommand c s)"
proof -
  define s2 where "s2 = signalFlushedDb None s"
  define T where "T = {(j, k). j < length (dbs s) \<and> (None = (None :: nat option) \<or> None = Some j) \<and> kv s j k \<noteq> None}"
  have p2: "post T s (kv s) (ex s) s2" unfolding s2_def T_def by (rule signalFlushedDb_post [OF assms(1)])
  define s3 where "s3 = snd (emptyDb s2)"
  have v: "db_of s3 j = (if j < length (dbs s2) then empty_one (db_of s2 j) else db_of s2 j)" for j
    by (simp add: s3_def emptyDb_def db_of_def nth_map_same)
  have "tframe {} s2 s3"
    by (simp add: tframe_def same_index_def v) (simp add: s3_def emptyDb_def client_of_def empty_one_def)
  then have p3: "post {} s2 (\<lambda>j k. if j < length (dbs s2) then None else kv s2 j k) (\<lambda>j k. if j < length (dbs s2) then None else ex s2 j k) s3"
    by (auto simp: post_def kv_def ex_def v empty_one_def fun_eq_iff)
  have l2: "length (dbs s2) = length (dbs s)" using post_len [OF p2] by simp
  have p: "post T s (\<lambda>j k. if j < length (dbs s) then None else kv s j k) (\<lambda>j k. if j < length (dbs s) then None else ex s j k) s3"
    using post_trans [OF p2 p3] unfolding l2 post_views [OF p2] by simp
  have "eff b own c s s3"
    by (rule eff_of_post [OF assms(1) p]) (use ks_okD [OF assms(1)] in \<open>auto simp: T_def split: if_splits\<close>)
  moreover have "eff b own c s3 (flushallCommand c s)" if "server_ok s3"
    by (rule veq_eff [OF that]) (simp add: flushallCommand_def s3_def s2_def emptyDb_def Let_def view)
  ultimately show ?thesis using eff_trans effD(1) by blast
qed

section \<open>Steps on a client alone\<close>

text \<open>A change of the stepping client; its watched keys stay.\<close>

lemma set_client_eff:
  assumes "server_ok s" "c < length (clients s)"
    and f: "c_watched (f (client_of s c)) = c_watched (client_of s c)" "c_db (f (client_of s c)) < length (dbs s)"
    and own: "own \<Longrightarrow> c_dirty_cas (client_of s c) \<Longrightarrow> c_dirty_cas (f (client_of s c))"
  shows "eff b own c s (set_client c f s)"
proof -
  define t where "t = set_client c f s"
  have db: "db_of t = db_of s" "kv t = kv s" "ex t = ex s" "length (dbs t) = length (dbs s)" "length (clients t) = length (clients s)"
    by (simp_all add: t_def db_of_def kv_def ex_def view fun_eq_iff)
  have cl: "client_of t w = (if w = c then f (client_of s c) else client_of s w)" for w
    using assms(2) by (simp add: t_def view)
  have "watch_ok t" by (rule watch_ok_cong [OF server_okD(2) [OF assms(1)]]) (simp_all add: db cl f)
  then have "server_ok t" using assms(1) f(2) by (simp add: server_ok_def ks_ok_def db cl)
  moreover have "now t = now s" by (simp add: t_def view)
  ultimately have "eff b own c s t"
    using own f(1) by (auto simp: eff_def watch_kept_def db cl intro: exI [of _ False])
  then show ?thesis by (simp add: t_def)
qed

lemma eff_veq:
  assumes "eff b own c s s1" "veq s1 s2"
  shows "eff b own c s s2"
  by (rule eff_trans [OF assms(1) veq_eff [OF effD(1) [OF assms(1)] assms(2)]])

lemma eff_reply: "eff b own c s s1 \<Longrightarrow> eff b own c s (addReply c' r s1)"
  by (erule eff_veq) (simp add: view)

lemma select_eff:
  assumes "server_ok s" "c < length (clients s)"
  shows "eff b own c s (selectCommand c n s)"
proof (cases "n < 0 \<or> n \<ge> int (length (dbs s))")
  case True
  then show ?thesis using eff_reply [OF eff_refl [OF assms(1)]] by (simp add: selectCommand_def selectDb_def)
next
  case False
  then have "eff b own c s (set_client c (\<lambda>cl. cl\<lparr>c_db := nat n\<rparr>) s)"
    by (intro set_client_eff [OF assms]) auto
  then show ?thesis using False eff_reply by (simp add: selectCommand_def selectDb_def)
qed

section \<open>The watch index\<close>

text \<open>A step that changes the index and the list of client \<open>c\<close> only.\<close>

definition index_step :: "nat \<Rightarrow> server \<Rightarrow> server \<Rightarrow> bool" where
  "index_step c s s' \<longleftrightarrow> length (dbs s') = length (dbs s) \<and> length (clients s') = length (clients s)
    \<and> kv s' = kv s \<and> ex s' = ex s \<and> now s' = now s \<and> out s' = out s \<and> dirty s' = dirty s
    \<and> (\<forall>u < length (clients s). u \<noteq> c \<longrightarrow> client_of s' u = client_of s u)
    \<and> (\<exists>w. client_of s' c = (client_of s c)\<lparr>c_watched := w\<rparr>)"

lemma index_step_refl: "index_step c s s"
  by (auto simp: index_step_def intro: exI [of _ "c_watched (client_of s c)"])

lemma index_step_trans: "index_step c s s1 \<Longrightarrow> index_step c s1 s2 \<Longrightarrow> index_step c s s2"
  by (auto simp: index_step_def)

lemma index_step_eff:
  assumes "server_ok s" "index_step c s s'" "watch_ok s'" "c < length (clients s)"
    and "own \<Longrightarrow> set (c_watched (client_of s c)) \<subseteq> set (c_watched (client_of s' c))"
  shows "eff b own c s s'"
proof -
  have "ks_ok s'" using assms(1,2) by (simp add: ks_ok_def server_ok_def index_step_def)
  moreover have "c_db (client_of s' u) < length (dbs s')" if "u < length (clients s')" for u
    using assms(1,2) that by (cases "u = c") (auto simp: server_ok_def index_step_def)
  ultimately have "server_ok s'" using assms(3) by (simp add: server_ok_def)
  moreover have "\<exists>d. client_of s' u = mark d (client_of s u)" if "u < length (clients s)" "u \<noteq> c" for u
    using assms(2) that by (intro exI [of _ False]) (simp add: index_step_def)
  moreover have "watch_kept b u s s'" if "u < length (clients s)" "u \<noteq> c \<or> own" for u
    using assms(2,5) that by (cases "u = c") (auto simp: watch_kept_def index_step_def)
  ultimately show ?thesis using assms(2) unfolding eff_def by (simp add: index_step_def)
qed

text \<open>The state after the watchers of \<open>(k, i)\<close> and the list of \<open>c\<close> have been replaced.\<close>

lemma index_update:
  assumes "watch_ok s" "i < length (dbs s)" "c < length (clients s)"
    and s': "s' = set_client c (\<lambda>cl. cl\<lparr>c_watched := g (c_watched cl)\<rparr>) (set_db i (\<lambda>db. db\<lparr>watched_keys := f (watched_keys db)\<rparr>) s)"
    and f: "\<And>m l. Mapping.lookup (f m) l = (if l = k then (if cs = [] then None else Some cs) else Mapping.lookup m l)"
    and cs: "distinct cs" "\<And>w. w \<in> set cs \<longleftrightarrow> (if w = c then (k, i) \<in> set (g (c_watched (client_of s c))) else w \<in> set (watchers s i k))"
    and g: "distinct (g (c_watched (client_of s c)))"
      "\<And>wk. wk \<noteq> (k, i) \<Longrightarrow> wk \<in> set (g (c_watched (client_of s c))) \<longleftrightarrow> wk \<in> set (c_watched (client_of s c))"
  shows "watch_ok s'" "index_step c s s'" "c_watched (client_of s' c) = g (c_watched (client_of s c))"
proof -
  have db: "db_of s' j = (if j = i then (db_of s i)\<lparr>watched_keys := f (watched_keys (db_of s i))\<rparr> else db_of s j)" for j
    using assms(2) by (simp add: s' db_of_def set_client_def set_db_def)
  have cl: "client_of s' w = (if w = c then (client_of s c)\<lparr>c_watched := g (c_watched (client_of s c))\<rparr> else client_of s w)" for w
    using assms(3) by (simp add: s' client_of_def set_client_def set_db_def)
  have n: "length (dbs s') = length (dbs s)" "length (clients s') = length (clients s)"
    by (simp_all add: s' set_client_def set_db_def)
  show "c_watched (client_of s' c) = g (c_watched (client_of s c))" by (simp add: cl)
  show "index_step c s s'"
    unfolding index_step_def
    by (intro conjI exI [of _ "g (c_watched (client_of s c))"])
      (simp_all add: n cl kv_def ex_def db fun_eq_iff, simp_all add: s' set_client_def set_db_def)
  have w: "watchers s' j l = (if (l, j) = (k, i) then cs else watchers s j l)" for j l
    by (simp add: watchers_def db f)
  note ok = assms(1) [unfolded watch_ok_def]
  show "watch_ok s'" unfolding watch_ok_def n
  proof (intro conjI allI impI)
    fix j l assume j: "j < length (dbs s)"
    show "Mapping.lookup (watched_keys (db_of s' j)) l \<noteq> Some []"
      using ok j by (auto simp: db f)
    show "distinct (watchers s' j l)" using ok j cs(1) by (simp add: w)
    fix u
    show "u \<in> set (watchers s' j l) \<longleftrightarrow> u < length (clients s) \<and> (l, j) \<in> set (c_watched (client_of s' u))"
      using watch_iff [OF assms(1) j, of u l] cs(2) [of u] g(2) [of "(l, j)"] assms(3) by (auto simp: w cl)
  next
    fix u assume u: "u < length (clients s)"
    show "distinct (c_watched (client_of s' u))" using ok u g(1) by (simp add: cl)
    show "j < length (dbs s)" if "(l, j) \<in> set (c_watched (client_of s' u))" for l j
      using that watched_db [OF assms(1) u, of l j] g(2) [of "(l, j)"] assms(2) by (cases "(l, j) = (k, i)") (auto simp: cl split: if_splits)
  qed
qed

lemma watchForKey_eff:
  assumes "server_ok s" "c < length (clients s)"
  shows "eff b own c s (watchForKey c k s)"
    and "(k, c_db (client_of s c)) \<in> set (c_watched (client_of (watchForKey c k s) c))"
    and "c_db (client_of (watchForKey c k s) c) = c_db (client_of s c)"
proof -
  define i where "i = c_db (client_of s c)"
  have il: "i < length (dbs s)" using client_okD(2) [OF server_okD(3) [OF assms]] by (simp add: i_def)
  have wk: "watch_ok s" by (rule server_okD(2) [OF assms(1)])
  have "eff b own c s (watchForKey c k s) \<and> (k, i) \<in> set (c_watched (client_of (watchForKey c k s) c))
    \<and> c_db (client_of (watchForKey c k s) c) = i"
  proof (cases "(k, i) \<in> set (c_watched (client_of s c))")
    case True
    then show ?thesis using eff_refl [OF assms(1)] by (simp add: watchForKey_def i_def)
  next
    case False
    have w: "c \<notin> set (watchers s i k)" using False watch_iff [OF wk il] by simp
    define cs where "cs = watchers s i k @ [c]"
    define s' where "s' = set_client c (\<lambda>cl. cl\<lparr>c_watched := c_watched cl @ [(k, i)]\<rparr>)
      (set_db i (\<lambda>db. db\<lparr>watched_keys := Mapping.update k cs (watched_keys db)\<rparr>) s)"
    have d: "distinct cs" using wk il w by (simp add: cs_def watch_ok_def)
    have g: "distinct (c_watched (client_of s c) @ [(k, i)])" using wk assms(2) False by (simp add: watch_ok_def)
    note u = index_update [OF wk il assms(2) s'_def, of k cs, OF _ d _ g]
    have "watch_ok s'" "index_step c s s'" "c_watched (client_of s' c) = c_watched (client_of s c) @ [(k, i)]"
      by (rule u; (simp add: cs_def lookup_update')?; auto)+
    moreover have "watchForKey c k s = s'"
      using False by (simp add: watchForKey_def s'_def cs_def watchers_def Let_def flip: i_def)
    ultimately show ?thesis
      using index_step_eff [OF assms(1) _ _ assms(2), of s' own b] by (auto simp: index_step_def i_def)
  qed
  then show "eff b own c s (watchForKey c k s)"
    "(k, c_db (client_of s c)) \<in> set (c_watched (client_of (watchForKey c k s) c))"
    "c_db (client_of (watchForKey c k s) c) = c_db (client_of s c)" by (simp_all add: i_def)
qed

lemma unwatch_one_ok:
  assumes "watch_ok s" "c < length (clients s)" "(k, i) \<in> set (c_watched (client_of s c))"
  shows "\<exists>s'. unwatch_one c (k, i) s = Some s' \<and> watch_ok s' \<and> index_step c s s' \<and>
    c_watched (client_of s' c) = remove1 (k, i) (c_watched (client_of s c))"
proof -
  have il: "i < length (dbs s)" by (rule watched_db [OF assms])
  have w: "c \<in> set (watchers s i k)" using watch_iff [OF assms(1) il] assms(2,3) by simp
  then have l: "Mapping.lookup (watched_keys (db_of s i)) k = Some (watchers s i k)"
    by (cases "Mapping.lookup (watched_keys (db_of s i)) k") (simp_all add: watchers_def)
  define cs where "cs = remove1 c (watchers s i k)"
  define s' where "s' = set_client c (\<lambda>cl. cl\<lparr>c_watched := remove1 (k, i) (c_watched cl)\<rparr>)
      (set_db i (\<lambda>db. db\<lparr>watched_keys := (if cs = [] then Mapping.delete k (watched_keys db) else Mapping.update k cs (watched_keys db))\<rparr>) s)"
  have dw: "distinct (watchers s i k)" "distinct (c_watched (client_of s c))"
    using assms(1,2) il by (simp_all add: watch_ok_def)
  note u = index_update [OF assms(1) il assms(2) s'_def, of k cs]
  have "watch_ok s'" "index_step c s s'" "c_watched (client_of s' c) = remove1 (k, i) (c_watched (client_of s c))"
    by (rule u; (use dw in \<open>simp add: cs_def lookup_update' lookup_delete'\<close>)?; auto)+
  moreover have "unwatch_one c (k, i) s = Some s'" 
    using l w unfolding unwatch_one_def s'_def cs_def by (simp add: Let_def)
  ultimately show ?thesis by blast
qed

lemma unwatch_loop_ok:
  "watch_ok s \<Longrightarrow> c < length (clients s) \<Longrightarrow> c_watched (client_of s c) = wks \<Longrightarrow>
    \<exists>s'. unwatch_loop c wks s = Some s' \<and> watch_ok s' \<and> index_step c s s' \<and> c_watched (client_of s' c) = []"
proof (induction wks arbitrary: s)
  case Nil
  then show ?case using index_step_refl by auto
next
  case (Cons wk wks)
  obtain k i where wk: "wk = (k, i)" by (cases wk)
  obtain s1 where s1: "unwatch_one c wk s = Some s1" "watch_ok s1" "index_step c s s1" "c_watched (client_of s1 c) = wks"
    using unwatch_one_ok [OF Cons.prems(1,2), of k i] Cons.prems(3) by (auto simp: wk)
  have "c < length (clients s1)" using Cons.prems(2) s1(3) by (simp add: index_step_def)
  from Cons.IH [OF s1(2) this s1(4)] show ?case using s1(1) index_step_trans [OF s1(3)] by auto
qed

lemma unwatchAllKeys_ok:
  assumes "server_ok s" "c < length (clients s)"
  shows "\<exists>s'. unwatchAllKeys c s = Some s' \<and> eff b False c s s' \<and> index_step c s s' \<and> c_watched (client_of s' c) = []"
  using unwatch_loop_ok [OF server_okD(2) [OF assms(1)] assms(2) refl] index_step_eff [OF assms(1) _ _ assms(2), of _ False b]
  by (auto simp: unwatchAllKeys_def)

section \<open>Every command keeps the invariant\<close>

fun is_move :: "kcmd \<Rightarrow> bool" where
  "is_move (MOVE k n) = True"
| "is_move _ = False"

text \<open>Whether the command runs a \<open>MOVE\<close>, and whether it ends the watching of its client.\<close>

fun moves :: "server \<Rightarrow> nat \<Rightarrow> cmd \<Rightarrow> bool" where
  "moves s c (Key kc) = is_move kc"
| "moves s c EXEC = list_ex is_move (c_mstate (client_of s c))"
| "moves s c _ = False"

fun ends_watch :: "cmd \<Rightarrow> bool" where
  "ends_watch (Key UNWATCH) = True"
| "ends_watch EXEC = True"
| "ends_watch DISCARD = True"
| "ends_watch _ = False"

lemma unwatch_eff:
  assumes "server_ok s" "c < length (clients s)"
  shows "\<exists>s'. unwatchCommand c s = Some s' \<and> eff b False c s s'"
proof -
  obtain s1 where s1: "unwatchAllKeys c s = Some s1" "eff b False c s s1" using unwatchAllKeys_ok [OF assms] by blast
  have c1: "c < length (clients s1)" using assms(2) effD(3) [OF s1(2)] by simp
  have "eff b False c s1 (set_client c (\<lambda>cl. cl\<lparr>c_dirty_cas := False\<rparr>) s1)"
    by (rule set_client_eff [OF effD(1) [OF s1(2)] c1])
      (use client_okD(2) [OF server_okD(3) [OF effD(1) [OF s1(2)] c1]] in simp_all)
  from eff_reply [OF eff_trans [OF s1(2) this]] show ?thesis using s1(1) by (simp add: unwatchCommand_def)
qed

lemma proc_eff:
  assumes "server_ok s" "c < length (clients s)"
  shows "\<exists>kc' s'. proc c kc s = Some (kc', s') \<and> eff (\<not> is_move kc) (kc \<noteq> UNWATCH) c s s'"
proof (cases kc)
  case (MOVE k n)
  then show ?thesis using move_eff [OF assms, of k n True] by auto
next
  case UNWATCH
  then show ?thesis using unwatch_eff [OF assms, of True] by auto
next
  case (SET nx xx k v x)
  then show ?thesis using setGeneric_eff [OF assms, of nx xx k v x ROk RNullBulk True True] by auto
next
  case (SETNX k v)
  then show ?thesis using setGeneric_eff [OF assms, of True False k v None "RInt 1" "RInt 0" True True] by auto
next
  case (RENAME k d)
  then show ?thesis using rename_eff [OF assms, of k d False True True] by auto
next
  case (RENAMENX k d)
  then show ?thesis using rename_eff [OF assms, of k d True True True] by auto
next
  case (GET k)
  then show ?thesis using read_eff(1) [OF assms, of k True True] by auto
next
  case (TYPEOF k)
  then show ?thesis using read_eff(2) [OF assms, of k True True] by auto
next
  case (EXISTS k)
  then show ?thesis using read_eff(3) [OF assms, of k True True] by auto
next
  case (TTL k)
  then show ?thesis using read_eff(4) [OF assms, of k False True True] by auto
next
  case (PTTL k)
  then show ?thesis using read_eff(4) [OF assms, of k True True True] by auto
next
  case (DEL ks)
  then show ?thesis using del_eff [OF assms, of ks True True] by auto
next
  case (PERSIST k)
  then show ?thesis using persist_eff [OF assms, of k True True] by auto
next
  case (EXPIRE k n)
  then show ?thesis using expire_eff [OF assms, of kc k n "now s" UNIT_SECONDS True True] by auto
next
  case (EXPIREAT k n)
  then show ?thesis using expire_eff [OF assms, of kc k n 0 UNIT_SECONDS True True] by auto
next
  case (PEXPIRE k n)
  then show ?thesis using expire_eff [OF assms, of kc k n "now s" UNIT_MILLISECONDS True True] by auto
next
  case (PEXPIREAT k n)
  then show ?thesis using expire_eff [OF assms, of kc k n 0 UNIT_MILLISECONDS True True] by auto
qed (use select_eff [OF assms] flushdb_eff [OF assms] flushall_eff [OF assms] in auto)

lemma propagate_eff: "eff b own c s s1 \<Longrightarrow> eff b own c s (propagate x i s1)"
  by (erule eff_veq) (simp add: view)

lemma call_propagate_eff: "eff b own c s s1 \<Longrightarrow> eff b own c s (call_propagate c' x d0 s1)"
  by (simp add: call_propagate_def propagate_eff)

lemma call_key_eff:
  assumes "server_ok s" "c < length (clients s)"
  shows "\<exists>s'. call_key c kc s = Some s' \<and> eff (\<not> is_move kc) (kc \<noteq> UNWATCH) c s s'"
  using proc_eff [OF assms, of kc] call_propagate_eff by (auto simp: call_key_def)

lemma exec_loop_eff:
  "server_ok s \<Longrightarrow> c < length (clients s) \<Longrightarrow>
    \<exists>mp' s'. exec_loop c kcs mp s = Some (mp', s') \<and> eff (\<not> list_ex is_move kcs) False c s s'"
proof (induction kcs arbitrary: mp s)
  case Nil
  then show ?case by (simp add: eff_refl)
next
  case (Cons kc kcs)
  let ?b = "\<not> list_ex is_move (kc # kcs)"
  define s1 where "s1 = (if \<not> mp \<and> \<not> cmd_readonly kc then propagate MULTI (c_db (client_of s c)) s else s)"
  have e1: "eff ?b False c s s1"
    unfolding s1_def using eff_refl [OF Cons.prems(1)] by (simp add: propagate_eff)
  have c1: "c < length (clients s1)" using Cons.prems(2) effD(3) [OF e1] by simp
  obtain s2 where s2: "call_key c kc s1 = Some s2" "eff (\<not> is_move kc) (kc \<noteq> UNWATCH) c s1 s2"
    using call_key_eff [OF effD(1) [OF e1] c1] by blast
  have e2: "eff ?b False c s s2" by (rule eff_trans [OF e1 eff_weaken [OF s2(2)]]) simp_all
  have c2: "c < length (clients s2)" using Cons.prems(2) effD(3) [OF e2] by simp
  obtain mp' s3 where s3: "exec_loop c kcs (mp \<or> \<not> mp \<and> \<not> cmd_readonly kc) s2 = Some (mp', s3)" "eff (\<not> list_ex is_move kcs) False c s2 s3"
    using Cons.IH [OF effD(1) [OF e2] c2] by blast
  have "eff ?b False c s s3" by (rule eff_trans [OF e2 eff_weaken [OF s3(2)]]) simp_all
  moreover have "exec_loop c (kc # kcs) mp s = Some (mp', s3)" using s2(1) s3(1) by (simp add: Let_def s1_def)
  ultimately show ?case by blast
qed

lemma discardTransaction_eff:
  assumes "server_ok s" "c < length (clients s)"
  shows "\<exists>s'. discardTransaction c s = Some s' \<and> eff b False c s s' \<and> kv s' = kv s \<and> ex s' = ex s \<and> out s' = out s
    \<and> dirty s' = dirty s \<and> client_of s' c = (client_of s c)\<lparr>c_multi := False, c_dirty_cas := False, c_dirty_exec := False, c_watched := [], c_mstate := []\<rparr>"
proof -
  define s1 where "s1 = set_client c (\<lambda>cl. cl\<lparr>c_mstate := [], c_multi := False, c_dirty_cas := False, c_dirty_exec := False\<rparr>) s"
  have e1: "eff b False c s s1"
    unfolding s1_def by (rule set_client_eff [OF assms]) (use client_okD(2) [OF server_okD(3) [OF assms]] in simp_all)
  have c1: "c < length (clients s1)" using assms(2) effD(3) [OF e1] by simp
  obtain s2 where s2: "unwatchAllKeys c s1 = Some s2" "eff b False c s1 s2" "index_step c s1 s2" "c_watched (client_of s2 c) = []"
    using unwatchAllKeys_ok [OF effD(1) [OF e1] c1] by blast
  have "kv s1 = kv s" "ex s1 = ex s" "out s1 = out s" "dirty s1 = dirty s"
    by (simp_all add: s1_def kv_def ex_def db_of_def set_client_def fun_eq_iff)
  moreover have "client_of s2 c = (client_of s1 c)\<lparr>c_watched := []\<rparr>" using s2(3,4) by (auto simp: index_step_def)
  moreover have "client_of s1 c = (client_of s c)\<lparr>c_mstate := [], c_multi := False, c_dirty_cas := False, c_dirty_exec := False\<rparr>"
    using assms(2) by (simp add: s1_def view)
  ultimately show ?thesis
    using s2(1,3) eff_trans [OF e1 s2(2)] by (simp add: discardTransaction_def index_step_def flip: s1_def)
qed

lemma flag_eff:
  assumes "server_ok s" "c < length (clients s)"
  shows "eff b own c s (flagTransaction c s)"
proof (cases "c_multi (client_of s c)")
  case True
  have "eff b own c s (set_client c (\<lambda>cl. cl\<lparr>c_dirty_exec := True\<rparr>) s)"
    by (rule set_client_eff [OF assms]) (use client_okD(2) [OF server_okD(3) [OF assms]] in simp_all)
  then show ?thesis using True by (simp add: flagTransaction_def)
next
  case False
  then show ?thesis using eff_refl [OF assms(1)] by (simp add: flagTransaction_def)
qed

lemma execCommand_eff:
  assumes "server_ok s" "c < length (clients s)"
  shows "\<exists>s'. execCommand c s = Some s' \<and> eff (\<not> moves s c EXEC) False c s s'"
proof -
  let ?b = "\<not> list_ex is_move (c_mstate (client_of s c))"
  consider "\<not> c_multi (client_of s c)"
    | "c_multi (client_of s c)" "c_dirty_cas (client_of s c) \<or> c_dirty_exec (client_of s c)"
    | "c_multi (client_of s c)" "\<not> c_dirty_cas (client_of s c)" "\<not> c_dirty_exec (client_of s c)" by blast
  then show ?thesis
  proof cases
    case 1
    then show ?thesis using eff_reply [OF eff_refl [OF assms(1)]] by (simp add: execCommand_def)
  next
    case 2
    define s1 where "s1 = addReply c (if c_dirty_exec (client_of s c) then RExecAbort else RNullMultiBulk) s"
    have e1: "eff ?b False c s s1" unfolding s1_def by (rule eff_reply [OF eff_refl [OF assms(1)]])
    have c1: "c < length (clients s1)" using assms(2) effD(3) [OF e1] by simp
    obtain s2 where "discardTransaction c s1 = Some s2" "eff ?b False c s1 s2"
      using discardTransaction_eff [OF effD(1) [OF e1] c1] by blast
    then show ?thesis using 2 eff_trans [OF e1] by (simp add: execCommand_def flip: s1_def)
  next
    case 3
    obtain s1 where s1: "unwatchAllKeys c s = Some s1" "eff ?b False c s s1" using unwatchAllKeys_ok [OF assms] by blast
    define s2 where "s2 = addReply c (RMultiBulkLen (length (c_mstate (client_of s c)))) s1"
    have e2: "eff ?b False c s s2" unfolding s2_def by (rule eff_reply [OF s1(2)])
    have c2: "c < length (clients s2)" using assms(2) effD(3) [OF e2] by simp
    obtain mp s3 where s3: "exec_loop c (c_mstate (client_of s c)) False s2 = Some (mp, s3)" "eff ?b False c s2 s3"
      using exec_loop_eff [OF effD(1) [OF e2] c2] by blast
    have e3: "eff ?b False c s s3" by (rule eff_trans [OF e2 s3(2)])
    have c3: "c < length (clients s3)" using assms(2) effD(3) [OF e3] by simp
    obtain s4 where s4: "discardTransaction c s3 = Some s4" "eff ?b False c s3 s4"
      using discardTransaction_eff [OF effD(1) [OF e3] c3] by blast
    have "eff ?b False c s (if mp then add_dirty 1 s4 else s4)"
      by (rule eff_veq [OF eff_trans [OF e3 s4(2)]]) (simp add: view)
    then show ?thesis using 3 s1(1) s3(1) s4(1) by (simp add: execCommand_def Let_def flip: s2_def)
  qed
qed

lemma watchCommand_eff:
  assumes "server_ok s" "c < length (clients s)"
  shows "eff b own c s (watchCommand c ks s)"
proof -
  have "eff b own c s (fold (watchForKey c) ks s)"
    using assms
  proof (induction ks arbitrary: s)
    case (Cons k ks)
    have e: "eff b own c s (watchForKey c k s)" by (rule watchForKey_eff(1) [OF Cons.prems])
    from eff_trans [OF e Cons.IH] effD(1,3) [OF e] Cons.prems(2) show ?case by simp
  qed (simp add: eff_refl)
  then show ?thesis using eff_reply eff_refl [OF assms(1)] by (simp add: watchCommand_def)
qed

lemma multi_eff:
  assumes "server_ok s" "c < length (clients s)"
  shows "eff b own c s (multiCommand c s)"
proof -
  have "eff b own c s (set_client c (\<lambda>cl. cl\<lparr>c_multi := True\<rparr>) s)"
    by (rule set_client_eff [OF assms]) (use client_okD(2) [OF server_okD(3) [OF assms]] in simp_all)
  then show ?thesis using eff_reply eff_refl [OF assms(1)] by (simp add: multiCommand_def)
qed

lemma discard_eff:
  assumes "server_ok s" "c < length (clients s)"
  shows "\<exists>s'. discardCommand c s = Some s' \<and> eff b False c s s'"
proof (cases "c_multi (client_of s c)")
  case True
  then show ?thesis using discardTransaction_eff [OF assms] eff_reply by (fastforce simp: discardCommand_def)
next
  case False
  then show ?thesis using eff_reply [OF eff_refl [OF assms(1)]] by (simp add: discardCommand_def)
qed

lemma call_eff:
  assumes "server_ok s" "c < length (clients s)"
  shows "\<exists>s'. call c x s = Some s' \<and> eff (\<not> moves s c x) (\<not> ends_watch x) c s s'"
proof (cases x)
  case (Key kc)
  obtain s' where "call_key c kc s = Some s'" "eff (\<not> is_move kc) (kc \<noteq> UNWATCH) c s s'" using call_key_eff [OF assms] by blast
  then show ?thesis using Key by (cases kc) auto
next
  case EXEC
  then show ?thesis using execCommand_eff [OF assms] call_propagate_eff by auto
next
  case DISCARD
  then show ?thesis using discard_eff [OF assms, of True] call_propagate_eff by auto
qed (use watchCommand_eff [OF assms] multi_eff [OF assms] call_propagate_eff in auto)

text \<open>Eviction keeps the invariant and the clients, but not what is watched.\<close>

definition evicts :: "limits \<Rightarrow> bool" where
  "evicts l \<longleftrightarrow> \<not> noauth l \<and>
    (case maxmemory l of None \<Rightarrow> False | Some ev \<Rightarrow> ev_over ev \<and> ev_policy ev \<noteq> MAXMEMORY_NO_EVICTION)"

definition evicted :: "nat \<Rightarrow> server \<Rightarrow> server \<Rightarrow> bool" where
  "evicted c s s' \<longleftrightarrow> eff False True c s s' \<and> (\<forall>w < length (clients s). client_of s' w = client_of s w)"

lemma evicted_refl: "server_ok s \<Longrightarrow> evicted c s s"
  by (simp add: evicted_def eff_refl)

lemma evicted_trans: "evicted c s s1 \<Longrightarrow> evicted c s1 s2 \<Longrightarrow> evicted c s s2"
  using eff_trans by (auto simp: evicted_def dest: effD(3))

lemma evict_key_post: "i < length (dbs s) \<Longrightarrow> post {} s (del i k (kv s)) (del i k (ex s)) (evict_key i k s)"
proof -
  assume i: "i < length (dbs s)"
  have p1: "post {} s (kv s) (ex s) (propagateExpire i k s)" by (rule post_veq) (simp add: view)
  have "i < length (dbs (propagateExpire i k s))" using i post_len [OF p1] by simp
  then have "post {} (propagateExpire i k s) (del i k (kv s)) (del i k (ex s)) (snd (dbDelete i k (propagateExpire i k s)))"
    using post_dbDelete [of i "propagateExpire i k s" k] post_views [OF p1] by auto
  from post_trans [OF p1 this]
  have p2: "post {} s (del i k (kv s)) (del i k (ex s)) (snd (dbDelete i k (propagateExpire i k s)))" by simp
  show ?thesis by (rule post_then_veq [OF p2]) (simp add: evict_key_def Let_def view)
qed

lemma evict_key_evicted:
  assumes "server_ok s" "i < length (dbs s)"
  shows "evicted c s (evict_key i k s)"
proof -
  note p = evict_key_post [OF assms(2), of k]
  have "eff False True c s (evict_key i k s)"
    by (rule post_eff [OF assms(1) p]) (use ks_okD [OF assms(1)] in \<open>auto simp: del_apply split: if_splits\<close>)
  then show ?thesis using p tframe_client [of "{}" s] by (simp add: evicted_def post_def)
qed

lemma evict_db_evicted:
  assumes "server_ok s" "j < length (dbs s)"
  shows "evicted c s (snd (evict_db ev r j s))"
  using evict_key_evicted [OF assms] evicted_refl [OF assms(1)] by (simp add: evict_db_def Let_def)

lemma evict_dbs_evicted:
  assumes "server_ok s" "\<forall>j \<in> set js. j < length (dbs s)"
  shows "evicted c s (snd (evict_dbs ev r js freed s))"
  using assms
proof (induction js arbitrary: freed s)
  case (Cons j js)
  obtain f s1 where f: "evict_db ev r j s = (f, s1)" by fastforce
  then have e: "evicted c s s1" using evict_db_evicted [of s j c ev r] Cons.prems by simp
  then have "eff False True c s s1" by (simp add: evicted_def)
  then have "evicted c s1 (snd (evict_dbs ev r js (freed \<or> f) s1))"
    using Cons.prems(2) by (intro Cons.IH) (simp_all add: effD)
  then show ?case using evicted_trans [OF e] f by simp
qed (simp add: evicted_refl)

lemma evict_rounds_evicted: "server_ok s \<Longrightarrow> evicted c s (snd (evict_rounds ev n s))"
proof (induction n arbitrary: s)
  case (Suc n)
  obtain f s1 where f: "evict_dbs ev n [0..<length (dbs s)] False s = (f, s1)" by fastforce
  then have e: "evicted c s s1" using evict_dbs_evicted [OF Suc.prems, of "[0..<length (dbs s)]" c ev n False] by simp
  then have "server_ok s1" by (auto simp: evicted_def dest: effD(1))
  then show ?case using Suc.IH [of s1] evicted_trans [OF e] e f by simp
qed (simp add: evicted_refl)

lemma make_room_evicted: "server_ok s \<Longrightarrow> evicted c s (snd (make_room l s))"
  by (simp add: make_room_def freeMemoryIfNeeded_def evicted_refl evict_rounds_evicted split: option.split)

lemma make_room_same: "\<not> evicts l \<Longrightarrow> snd (make_room l s) = s"
  by (auto simp: make_room_def freeMemoryIfNeeded_def evicts_def split: option.splits)

lemma make_room_eff:
  assumes "server_ok s"
  shows "eff (\<not> evicts l) True c s (snd (make_room l s))"
  using make_room_evicted [OF assms, of c l] make_room_same [of l s] eff_refl [OF assms]
  by (cases "evicts l") (simp_all add: evicted_def)

lemma processCommand_dispatch: "processCommand c l x s = dispatch c l (fst (make_room l s)) x (snd (make_room l s))"
  by (simp add: processCommand_def case_prod_beta)

lemma dispatch_eff:
  assumes "server_ok s" "c < length (clients s)"
  shows "\<exists>s'. dispatch c l freed x s = Some s' \<and> eff (\<not> moves s c x) (\<not> ends_watch x) c s s'"
proof (cases "refusal l (\<not> freed) s x")
  case (Some r)
  then obtain e flag where r: "refusal l (\<not> freed) s x = Some (e, flag)" by (cases r) simp
  have "eff (\<not> moves s c x) (\<not> ends_watch x) c s (if flag then flagTransaction c s else s)"
    using flag_eff [OF assms] eff_refl [OF assms(1)] by simp
  then show ?thesis using r eff_reply by (simp add: dispatch_def)
next
  case None
  have "eff b own c s (set_client c (\<lambda>cl. cl\<lparr>c_mstate := c_mstate cl @ [kc]\<rparr>) s)" for b own kc
    by (rule set_client_eff [OF assms]) (use client_okD(2) [OF server_okD(3) [OF assms]] in simp_all)
  then have "eff b own c s (addReply c RQueued (queueMultiCommand c kc s))" for b own kc
    by (simp add: queueMultiCommand_def eff_reply)
  then show ?thesis using None call_eff [OF assms, of x] by (auto simp: dispatch_def split: cmd.split)
qed

lemma processCommand_eff:
  assumes "server_ok s" "c < length (clients s)"
  shows "\<exists>s'. processCommand c l x s = Some s' \<and> eff (\<not> moves s c x \<and> \<not> evicts l) (\<not> ends_watch x) c s s'"
proof -
  define s1 where "s1 = snd (make_room l s)"
  have e: "eff (\<not> evicts l) True c s s1" unfolding s1_def by (rule make_room_eff [OF assms(1)])
  have "client_of s1 c = client_of s c"
    using make_room_evicted [OF assms(1), of c l] assms(2) by (simp add: evicted_def s1_def)
  then have m: "moves s1 c x = moves s c x" by (cases x) simp_all
  obtain s2 where s2: "dispatch c l (fst (make_room l s)) x s1 = Some s2" "eff (\<not> moves s c x) (\<not> ends_watch x) c s1 s2"
    using dispatch_eff [OF effD(1) [OF e], of c l "fst (make_room l s)" x] assms(2) effD(3) [OF e] m by auto
  have "eff (\<not> moves s c x \<and> \<not> evicts l) (\<not> ends_watch x) c s s2"
    by (rule eff_trans [OF eff_weaken [OF e] eff_weaken [OF s2(2)]]) simp_all
  then show ?thesis using s2(1) by (simp add: processCommand_dispatch s1_def)
qed

end
