(* ===== verification/WatchSafety.thy ===== *)
theory WatchSafety
  imports Transactions
begin

text \<open>
  What the key space and the transactions promise: no command fails an assertion, a watched
  key is unchanged when \<open>EXEC\<close> runs the queue, and what \<open>DEL\<close>, \<open>RENAME\<close>, \<open>MOVE\<close>, \<open>PERSIST\<close> and the
  expire commands do to the visible keys.
\<close>

section \<open>The world around a watching client\<close>

text \<open>
  The steps between \<open>WATCH\<close> and \<open>EXEC\<close> of client \<open>c\<close>: commands of any client without a \<open>MOVE\<close>
  and without an eviction, where \<open>c\<close> does not end the watching itself, the active expire cycle
  of a master, and whatever leaves the databases and the clients alone, such as the clock.
\<close>

inductive env :: "nat \<Rightarrow> server \<Rightarrow> server \<Rightarrow> bool" for c where
  command: "env c s s'" if "u < length (clients s)" "\<not> moves s u x" "\<not> evicts l" "u \<noteq> c \<or> \<not> ends_watch x" "processCommand u l x s = Some s'"
| cycle: "env c s (snd (activeExpireCycleTryExpire i k t (now s) s))" if "\<not> masterhost s" "i < length (dbs s)" "ex s i k = Some t"
| others: "env c s s'" if "dbs s' = dbs s" "clients s' = clients s"

lemma cycle_eff:
  assumes "server_ok s" "i < length (dbs s)" "ex s i k = Some t"
  shows "eff b own c s (snd (activeExpireCycleTryExpire i k t nw s))"
proof (cases "nw > t")
  case True
  define s1 where "s1 = propagateExpire i k s"
  have p1: "post {} s (kv s) (ex s) s1" by (rule post_veq) (simp add: s1_def view)
  have "i < length (dbs s1)" using assms(2) post_len [OF p1] by simp
  then have "post {} s1 (del i k (kv s1)) (del i k (ex s1)) (snd (dbDelete i k s1))" using post_dbDelete [of i s1 k] by auto
  from post_trans [OF p1 this] have p2: "post {} s (del i k (kv s)) (del i k (ex s)) (snd (dbDelete i k s1))"
    using post_views [OF p1] by simp
  have "post {} s (del i k (kv s)) (del i k (ex s)) (snd (activeExpireCycleTryExpire i k t nw s))"
    by (rule post_then_veq [OF p2]) (use True in \<open>simp add: activeExpireCycleTryExpire_def Let_def s1_def view\<close>)
  then show ?thesis
    by (rule eff_of_post [OF assms(1)]) (use assms(3) ks_okD [OF assms(1)] in \<open>auto simp: del_apply split: if_splits\<close>)
next
  case False
  then show ?thesis using eff_refl [OF assms(1)] by (simp add: activeExpireCycleTryExpire_def)
qed

text \<open>A step keeps the invariant and what \<open>c\<close> watches.\<close>

lemma env_step:
  assumes "env c s s'" "server_ok s" "c < length (clients s)"
  shows "server_ok s' \<and> length (clients s') = length (clients s) \<and> watch_kept True c s s'"
  using assms(1)
proof cases
  case (command u x l)
  obtain s2 where "processCommand u l x s = Some s2" "eff (\<not> moves s u x \<and> \<not> evicts l) (\<not> ends_watch x) u s s2"
    using processCommand_eff [OF assms(2) command(1)] by blast
  then show ?thesis using command assms(3) by (auto simp: eff_def)
next
  case (cycle i k t)
  then have "eff True True c s s'" using cycle_eff [OF assms(2)] by simp
  then show ?thesis using assms(3) by (auto simp: eff_def)
next
  case others
  then have v: "db_of s' = db_of s" "client_of s' = client_of s" "kv s' = kv s" "ex s' = ex s"
    by (simp_all add: db_of_def client_of_def kv_def ex_def fun_eq_iff)
  then have "watchers s' = watchers s" by (simp add: watchers_def fun_eq_iff)
  then have "server_ok s'" using assms(2) others by (simp add: server_ok_def ks_ok_def watch_ok_def v)
  then show ?thesis using others by (auto simp: watch_kept_def v)
qed

lemma env_steps:
  assumes "(env c)\<^sup>*\<^sup>* s s'" "server_ok s" "c < length (clients s)"
  shows "server_ok s' \<and> length (clients s') = length (clients s) \<and> watch_kept True c s s'"
  using assms(1)
proof induction
  case (step s1 s2)
  then show ?case using env_step [OF step(2)] watch_kept_trans assms(3) by metis
qed (use assms in simp)

lemma refusal_EXEC: "refusal l oom s EXEC = refusal l False s EXEC"
  by (simp add: refusal_def)

lemma exec_aborts:
  assumes "server_ok s" "c < length (clients s)" "c_multi (client_of s c)" "c_dirty_cas (client_of s c) \<or> c_dirty_exec (client_of s c)"
    and "refusal l False s EXEC = None" "\<not> evicts l"
  shows "\<exists>s'. processCommand c l EXEC s = Some s' \<and> kv s' = kv s \<and> ex s' = ex s \<and>
    out s' = out s @ [Reply c (if c_dirty_exec (client_of s c) then RExecAbort else RNullMultiBulk)]"
proof -
  let ?r = "if c_dirty_exec (client_of s c) then RExecAbort else RNullMultiBulk"
  have e: "eff True True c s (addReply c ?r s)" by (rule eff_reply [OF eff_refl [OF assms(1)]])
  have c: "c < length (clients (addReply c ?r s))" using assms(2) effD(3) [OF e] by simp
  obtain s1 where s1: "discardTransaction c (addReply c ?r s) = Some s1" "kv s1 = kv (addReply c ?r s)" "ex s1 = ex (addReply c ?r s)"
    "out s1 = out (addReply c ?r s)" "dirty s1 = dirty (addReply c ?r s)"
    using discardTransaction_eff [OF effD(1) [OF e] c] by blast
  have "kv (addReply c ?r s) = kv s" "ex (addReply c ?r s) = ex s" "dirty (addReply c ?r s) = dirty s"
    by (simp_all add: kv_def ex_def db_of_def addReply_def emit_def fun_eq_iff)
  moreover have "execCommand c s = Some s1" using assms(3,4) s1(1) by (simp add: execCommand_def)
  moreover have "refusal l (\<not> fst (make_room l s)) s EXEC = None" by (rule trans [OF refusal_EXEC assms(5)])
  ultimately show ?thesis using s1 make_room_same [OF assms(6)]
    by (simp add: processCommand_dispatch dispatch_def call_propagate_def)
qed

text \<open>Eviction deletes a key, watched or not, with or without an expire time, and marks no
  client; a transaction that watches the key goes through.\<close>

lemma evict_silent:
  assumes "i < length (dbs s)" "ev_policy ev = MAXMEMORY_ALLKEYS_RANDOM" "ev_pick ev r i = k" "kv s i k \<noteq> None"
  shows "\<exists>s'. evict_db ev r i s = (True, s') \<and> kv s' i k = None \<and> (\<forall>w < length (clients s). client_of s' w = client_of s w)"
proof -
  note p = evict_key_post [OF assms(1), of k]
  have "evict_db ev r i s = (True, evict_key i k s)" using assms(2-4) by (simp add: evict_db_def flip: kv_def)
  moreover have "kv (evict_key i k s) i k = None" using post_views(1) [OF p] by (simp add: del_apply)
  ultimately show ?thesis using p tframe_client [of "{}" s] by (simp add: post_def)
qed

text \<open>\<open>FLUSHALL\<close> on a server with save points keeps its count of changes in an \<open>int\<close>: when the
  count has reached \<open>2 ^ 31\<close> it comes back negative, and \<open>call\<close> does not propagate the command.\<close>

lemma flushall_not_propagated:
  assumes "saveparams s" "0 \<le> dirty s" "2 ^ 31 \<le> dirty s + fst (emptyDb s)" "dirty s + fst (emptyDb s) < 2 ^ 32"
  shows "call c (Key FLUSHALL) s = Some (flushallCommand c s)"
proof -
  let ?n = "dirty s + fst (emptyDb s)"
  have "dirty (flushallCommand c s) = wrap32 ?n + 1"
    using assms(1)
    by (simp add: flushallCommand_def signalFlushedDb_def touchWatchedKeysOnFlush_def emptyDb_def addReply_def emit_def add_dirty_def Let_def)
  moreover have "wrap32 ?n = ?n - 2 ^ 32" using assms(3,4) by (simp add: wrap32_def to_signed_def)
  ultimately have "\<not> dirty (flushallCommand c s) - dirty s > 0" using assms(2,4) by simp
  then show ?thesis by (simp add: call_key_def call_propagate_def)
qed

section \<open>A small server\<close>

definition client0 :: client where
  "client0 = \<lparr>c_db = 0, c_multi = False, c_dirty_cas = False, c_dirty_exec = False, c_watched = [], c_mstate = []\<rparr>"

definition server0 :: server where
  "server0 = \<lparr>dbs = [emptyDb_rec, emptyDb_rec], clients = [client0, client0],
    objs = (\<lambda>v. \<lparr>otype = REDIS_STRING, lru = 0\<rparr>), srv_ready = [], now = 1000, lruclock = 0, loading = False,
    masterhost = False, lua_time_start = None, rdb_child = False, aof_child = False, saveparams = False, aof_on = False,
    dirty = 0, stat_hits = 0, stat_misses = 0, stat_expired = 0, stat_evicted = 0, out = []\<rparr>"

text \<open>Two keys, the second with an expire time.\<close>

definition server1 :: server where
  "server1 = server0\<lparr>dbs := [emptyDb_rec\<lparr>db_dict := Mapping.update [97] 5 (Mapping.update [98] 6 Mapping.empty),
    db_expires := Mapping.update [98] 900 Mapping.empty\<rparr>, emptyDb_rec]\<rparr>"

text \<open>Client \<open>0\<close> watches a key and has opened a transaction.\<close>

definition server2 :: server where
  "server2 = server1\<lparr>dbs := [(db_of server1 0)\<lparr>watched_keys := Mapping.update [97] [0] Mapping.empty\<rparr>, emptyDb_rec],
    clients := [client0\<lparr>c_multi := True, c_watched := [([97], 0)], c_mstate := [DEL [[97]]]\<rparr>, client0]\<rparr>"

definition limits0 :: limits where
  "limits0 = \<lparr>noauth = False, maxmemory = None, disk_error = False, few_slaves = False, slave_ro = False, from_master = False,
    in_pubsub = False, link_down = False, serve_stale = True, lua_timedout = False\<rparr>"

lemmas demo = server0_def server1_def server2_def client0_def emptyDb_rec_def limits0_def

lemma all_less_2: "(\<forall>i < Suc (Suc 0). P i) \<longleftrightarrow> P 0 \<and> P (Suc 0)"
  by (auto simp: less_Suc_eq)

lemma demo_ok: "server_ok server0" "server_ok server1" "server_ok server2"
proof -
  show "server_ok server0" "server_ok server1"
    by (simp_all add: server_ok_def ks_ok_def watch_ok_def kv_def ex_def db_of_def client_of_def watchers_def demo
      all_less_2 lookup_update')
  have "w = 0 \<longleftrightarrow> w < Suc (Suc 0) \<and> ([97], 0) \<in> set (c_watched (clients server2 ! w))" for w
    by (cases w; cases "w - 1") (simp_all add: demo)
  then show "server_ok server2"
    by (simp add: server_ok_def ks_ok_def watch_ok_def kv_def ex_def db_of_def client_of_def watchers_def demo
      all_less_2 lookup_update')
qed

lemma demo_views:
  "length (clients server2) = 2" "client_of server2 (Suc 0) = client0" "kv server2 0 [97] = Some 5" "ex server2 0 [97] = None"
  "client_of server2 0 = client0\<lparr>c_multi := True, c_watched := [([97], 0)], c_mstate := [DEL [[97]]]\<rparr>"
  "loading server2 = False" "masterhost server2 = False"
  by (simp_all add: demo client_of_def ex_def kv_def db_of_def lookup_update')

section \<open>Commands and transactions\<close>

text \<open>C4: no command of any client fails an assertion of the key space or of the watch index;
  the invariant of the server is kept, and the other clients are changed at most by marking
  them dirty: their selected database, queue and watched keys stay.\<close>
theorem command_safe:
  assumes "server_ok s" "c < length (clients s)"
  shows "\<exists>s'. processCommand c l x s = Some s' \<and> server_ok s' \<and> length (clients s') = length (clients s) \<and>
    (\<forall>u < length (clients s). u \<noteq> c \<longrightarrow> (\<exists>d. client_of s' u = mark d (client_of s u)))"
proof -
  obtain s' where "processCommand c l x s = Some s'" "eff (\<not> moves s c x \<and> \<not> evicts l) (\<not> ends_watch x) c s s'"
    using processCommand_eff [OF assms] by blast
  then show ?thesis by (auto simp: eff_def)
qed

lemma command_safe_witness:
  "\<exists>s'. processCommand 0 limits0 EXEC server2 = Some s' \<and> server_ok s' \<and> length (clients s') = 2"
  using command_safe [of server2 0 limits0 EXEC] demo_ok(3) by (auto simp: server2_def)

text \<open>C3: a client watches a key without expire time and later runs \<open>EXEC\<close>.  In between the
  clients, itself included, have run any commands of the model but \<open>MOVE\<close> and those that end the
  watching, expired keys have been deleted, the clock has gone on, and no key has been evicted,
  neither before these commands nor before the \<open>EXEC\<close> (\<open>move_silent\<close> and \<open>evict_silent\<close> show that
  these two change a key behind its watchers).  Then the key still has the value it had, or
  \<open>EXEC\<close> runs nothing, answers with one null or abort reply and leaves every key as it is.\<close>
theorem watch_exec:
  assumes "server_ok s" "c < length (clients s)" "(k, i) \<in> set (c_watched (client_of s c))" "ex s i k = None"
    and "(env c)\<^sup>*\<^sup>* s s1" "c_multi (client_of s1 c)" "refusal l False s1 EXEC = None" "\<not> evicts l"
  shows "\<exists>s2. processCommand c l EXEC s1 = Some s2 \<and>
    (kv s1 i k = kv s i k \<and> ex s1 i k = None \<or>
     kv s2 = kv s1 \<and> ex s2 = ex s1 \<and> (\<exists>r \<in> {RExecAbort, RNullMultiBulk}. out s2 = out s1 @ [Reply c r]))"
proof -
  have s1: "server_ok s1" "c < length (clients s1)" "watch_kept True c s s1"
    using env_steps [OF assms(5,1,2)] assms(2) by simp_all
  show ?thesis
  proof (cases "c_dirty_cas (client_of s1 c)")
    case True
    then show ?thesis using exec_aborts [OF s1(1,2) assms(6) _ assms(7,8)] by (auto split: if_splits)
  next
    case False
    then have "kv s1 i k = kv s i k \<and> ex s1 i k = None" using s1(3) assms(3,4) unfolding watch_kept_def by blast
    then show ?thesis using processCommand_eff [OF s1(1,2)] by blast
  qed
qed

lemma watch_exec_witness:
  "\<exists>s1. processCommand 1 limits0 (Key (SET False False [97] 7 None)) server2 = Some s1 \<and> kv s1 0 [97] = Some 7 \<and>
    (\<exists>s2. processCommand 0 limits0 EXEC s1 = Some s2 \<and> kv s2 0 [97] = Some 7)"
proof -
  let ?x = "Key (SET False False [97] 7 None)"
  have c: "1 < length (clients server2)" "0 < length (clients server2)" by (simp_all add: demo_views)
  obtain s' where s': "set_command 1 False False [97] 7 None ROk RNullBulk server2 = Some s'"
    "post {(0, [97])} server2 (put 0 [97] 7 (kv server2)) (del 0 [97] (ex server2)) s'"
    using set_command_spec [OF server_okD(1) [OF demo_ok(3)] server_okD(3) [OF demo_ok(3) c(1)] refl, of False False "[97]" 7 None ROk RNullBulk]
    by (auto simp: set_refused_def demo_views client0_def)
  define s1 where "s1 = call_propagate 1 ?x (dirty server2) s'"
  have x: "processCommand 1 limits0 ?x server2 = Some s1"
    using s'(1) by (simp add: processCommand_def make_room_def dispatch_def refusal_def limits0_def demo_views client0_def call_key_def setGenericCommand_def s1_def)
  have p: "post {(0, [97])} server2 (put 0 [97] 7 (kv server2)) (del 0 [97] (ex server2)) s1"
    by (rule post_then_veq [OF s'(2)]) (simp add: s1_def call_propagate_def view)
  then have f: "tframe {(0, [97])} server2 s1" by (simp add: post_def)
  have k: "kv s1 0 [97] = Some 7" using post_views [OF p] by (simp add: put_apply)
  have m: "c_multi (client_of s1 0)" using tframe_client [OF f c(2)] by (simp add: demo_views)
  have r: "refusal limits0 False s1 EXEC = None"
    using tframe_simps(5,6) [OF f] by (simp add: refusal_def limits0_def cmd_write_def demo_views)
  have n: "\<not> evicts limits0" by (simp add: evicts_def limits0_def)
  have "env 0 server2 s1" by (rule env.command [OF c(1) _ n _ x]) simp_all
  then have e: "(env 0)\<^sup>*\<^sup>* server2 s1" by blast
  have w: "([97], 0) \<in> set (c_watched (client_of server2 0))" by (simp add: demo_views)
  from watch_exec [OF demo_ok(3) c(2) w demo_views(4) e m r n] show ?thesis using x k by (auto simp: demo_views)
qed

section \<open>What the commands do to the visible keys\<close>

lemma wrap64_simps:
  "- 9223372036854775808 \<le> v \<Longrightarrow> v < 9223372036854775808 \<Longrightarrow> wrap64 v = v"
  "9223372036854775808 \<le> v \<Longrightarrow> v < 18446744073709551616 \<Longrightarrow> wrap64 v = v - 18446744073709551616"
proof -
  show "wrap64 v = v" if "- 9223372036854775808 \<le> v" "v < 9223372036854775808"
    using that to_signed_mod [of 8 v] by (simp add: wrap64_def in_signed_def)
  show "wrap64 v = v - 18446744073709551616" if "9223372036854775808 \<le> v" "v < 18446744073709551616"
    using that by (simp add: wrap64_def to_signed_def)
qed

lemma dirty_post:
  assumes "server_ok s" "post T s m e s'" "w < length (clients s)" "T \<subseteq> {(i, k). i < length (dbs s)}"
  shows "c_dirty_cas (client_of s' w) \<longleftrightarrow> c_dirty_cas (client_of s w) \<or> (\<exists>(i, k) \<in> T. (k, i) \<in> set (c_watched (client_of s w)))"
proof -
  have "touched_by s T w \<longleftrightarrow> (\<exists>(i, k) \<in> T. (k, i) \<in> set (c_watched (client_of s w)))"
    using watch_iff [OF server_okD(2) [OF assms(1)]] assms(3,4) unfolding touched_by_def by blast
  then show ?thesis using tframe_client [of T s s' w] assms(2,3) by (simp add: post_def)
qed

text \<open>C8: \<open>DEL\<close> removes exactly the given keys of the selected database, answers with how many
  of them were visible (once each, expired keys not counted), and marks exactly the clients
  that watch one of those.\<close>
theorem del_correct:
  assumes "server_ok s" "c < length (clients s)" and i: "i = c_db (client_of s c)"
  shows "\<exists>s'. delCommand c ks s = Some s' \<and>
    visible s' = (\<lambda>j k. if j = i \<and> k \<in> set ks then None else visible s j k) \<and>
    last (out s') = Reply c (RInt (int (card {k \<in> set ks. visible s i k \<noteq> None}))) \<and>
    (\<forall>w < length (clients s). c_dirty_cas (client_of s' w) \<longleftrightarrow> c_dirty_cas (client_of s w) \<or>
      (\<exists>k \<in> set ks. visible s i k \<noteq> None \<and> (k, i) \<in> set (c_watched (client_of s w))))"
proof -
  have ok: "client_ok s c" by (rule server_okD(3) [OF assms(1,2)])
  define T where "T = {i} \<times> {k \<in> set ks. visible s i k \<noteq> None}"
  obtain s' where s': "delCommand c ks s = Some s'"
    "last (out s') = Reply c (RInt (int (card {k \<in> set ks. visible s i k \<noteq> None})))"
    "post T s (\<lambda>j k. if j = i \<and> k \<in> set ks then None else kv s j k) (\<lambda>j k. if j = i \<and> k \<in> set ks then None else ex s j k) s'"
    using delCommand_spec [OF server_okD(1) [OF assms(1)] ok i] unfolding T_def by blast
  have "visible s' j k = (if j = i \<and> k \<in> set ks then None else visible s j k)" for j k
    using post_visible(1) [OF s'(3)] by (simp add: visible_def gone_due)
  moreover have "T \<subseteq> {(i, k). i < length (dbs s)}" using client_okD(2) [OF ok] by (auto simp: T_def i)
  then have "c_dirty_cas (client_of s' w) \<longleftrightarrow> c_dirty_cas (client_of s w) \<or>
      (\<exists>k \<in> set ks. visible s i k \<noteq> None \<and> (k, i) \<in> set (c_watched (client_of s w)))" if "w < length (clients s)" for w
    using dirty_post [OF assms(1) s'(3) that] by (auto simp: T_def)
  ultimately show ?thesis using s'(1,2) by (auto simp: fun_eq_iff)
qed

lemma del_correct_witness:
  "\<exists>s'. delCommand 0 [[97], [98], [97]] server1 = Some s' \<and> last (out s') = Reply 0 (RInt 1)"
proof -
  have v: "visible server1 0 [97] = Some 5" "visible server1 0 [98] = None"
    by (simp_all add: visible_def gone_due due_def clock_def demo kv_def ex_def db_of_def lookup_update')
  then have "{k \<in> set [[97], [98], [97]]. visible server1 0 k \<noteq> None} = {[97]}" by auto
  then show ?thesis
    using del_correct [OF demo_ok(2) _ refl, of 0 "[[97], [98], [97]]"] by (auto simp: demo client_of_def)
qed

text \<open>C9: \<open>RENAME\<close> of a visible key moves its value and its expire time onto the target,
  whatever was there, leaves all other keys, and marks exactly the clients that watch the
  source or the target.\<close>
theorem rename_correct:
  assumes "server_ok s" "c < length (clients s)" and i: "i = c_db (client_of s c)"
    and "src \<noteq> dst" "visible s i src = Some v"
  shows "\<exists>s'. renameGenericCommand c src dst False s = Some s' \<and>
    visible s' = del i src (put i dst v (visible s)) \<and> expiry s' i dst = expiry s i src \<and> last (out s') = Reply c ROk \<and>
    (\<forall>w < length (clients s). c_dirty_cas (client_of s' w) \<longleftrightarrow> c_dirty_cas (client_of s w) \<or>
      (src, i) \<in> set (c_watched (client_of s w)) \<or> (dst, i) \<in> set (c_watched (client_of s w)))"
proof -
  have ok: "client_ok s c" by (rule server_okD(3) [OF assms(1,2)])
  define e where "e = del i src (if expiry s i src = - 1 then del i dst (ex s) else put i dst (expiry s i src) (ex s))"
  obtain s' where s': "renameGenericCommand c src dst False s = Some s'" "last (out s') = Reply c ROk"
    "post {(i, src), (i, dst)} s (del i src (put i dst v (kv s))) e s'"
    using renameGenericCommand_spec [OF server_okD(1) [OF assms(1)] ok assms(4) i, of False] assms(5) by (auto simp: e_def)
  have "\<not> due s (ex s i src)" using assms(5) by (auto simp: visible_def gone_due split: if_splits)
  then have "\<not> due s (e i dst)" using assms(4) by (auto simp: e_def del_apply put_apply expiry_def split: option.splits)
  moreover have "j \<noteq> i \<or> k \<noteq> dst \<Longrightarrow> j \<noteq> i \<or> k \<noteq> src \<Longrightarrow> e j k = ex s j k" for j k by (auto simp: e_def del_apply put_apply)
  ultimately have "visible s' j k = del i src (put i dst v (visible s)) j k" for j k
    using post_visible(1) [OF s'(3), of j k] by (auto simp: del_apply put_apply visible_def [of s] gone_due)
  then have "visible s' = del i src (put i dst v (visible s))" by (simp add: fun_eq_iff)
  moreover have "expiry s' i dst = expiry s i src"
    using post_views(2) [OF s'(3)] assms(4) by (simp add: expiry_def [of s'] e_def del_apply put_apply)
  moreover have "c_dirty_cas (client_of s' w) \<longleftrightarrow> c_dirty_cas (client_of s w) \<or>
      (src, i) \<in> set (c_watched (client_of s w)) \<or> (dst, i) \<in> set (c_watched (client_of s w))" if "w < length (clients s)" for w
    using dirty_post [OF assms(1) s'(3) that] client_okD(2) [OF ok] by (auto simp: i)
  ultimately show ?thesis using s'(1,2) by blast
qed

lemma rename_correct_witness:
  "\<exists>s'. renameGenericCommand 0 [97] [98] False server1 = Some s' \<and> visible s' 0 [98] = Some 5 \<and> visible s' 0 [97] = None"
proof -
  have "visible server1 (c_db (client_of server1 0)) [97] = Some 5"
    by (simp add: visible_def gone_due due_def clock_def demo kv_def ex_def db_of_def client_of_def lookup_update')
  from rename_correct [OF demo_ok(2) _ refl _ this, of "[98]"] show ?thesis
    by (auto simp: demo client_of_def del_apply put_apply)
qed

text \<open>C10: after \<open>PEXPIRE k n\<close> on a visible key of a master, \<open>PTTL\<close> answers what is left of the
  \<open>n\<close> milliseconds, and once they are over that there is no such key.\<close>
theorem pexpire_pttl:
  assumes "server_ok s" "c < length (clients s)" and i: "i = c_db (client_of s c)"
    and "visible s i k \<noteq> None" "0 < n" "0 \<le> now s" "now s + n < 2 ^ 62" "0 \<le> elapsed" "now s + elapsed < 2 ^ 62"
    and "lua_time_start s = None" "\<not> loading s" "\<not> masterhost s"
  shows "\<exists>kc s1 s2. proc c (PEXPIRE k (Some n)) s = Some (kc, s1) \<and>
    ttlGenericCommand c k True (s1\<lparr>now := now s + elapsed\<rparr>) = Some s2 \<and>
    last (out s2) = Reply c (RInt (if elapsed \<le> n then n - elapsed else - 2))"
proof -
  have ok: "client_ok s c" by (rule server_okD(3) [OF assms(1,2)])
  have w: "expire_at n (now s) UNIT_MILLISECONDS = now s + n"
    using assms(5-7) by (simp add: expire_at_def wrap64_simps)
  have gt: "\<not> now s + n \<le> now s" using assms(5) by simp
  obtain kc s1 where s1: "proc c (PEXPIRE k (Some n)) s = Some (kc, s1)" "post {(i, k)} s (kv s) (put i k (now s + n) (ex s)) s1"
    using expireGenericCommand_spec [OF server_okD(1) [OF assms(1)] ok i refl, of "PEXPIRE k (Some n)" k n "now s" UNIT_MILLISECONDS]
      assms(4) gt unfolding w by auto
  define t where "t = s1\<lparr>now := now s + elapsed\<rparr>"
  have f: "tframe {(i, k)} s s1" using s1(2) by (simp add: post_def)
  have v: "kv t = kv s" "ex t = put i k (now s + n) (ex s)" "client_of t c = client_of s1 c" "length (dbs t) = length (dbs s1)"
    "length (clients t) = length (clients s1)"
    using post_views [OF s1(2)] by (simp_all add: t_def kv_def ex_def db_of_def client_of_def fun_eq_iff)
  have gone: "gone t i k \<longleftrightarrow> n < elapsed"
    using tframe_simps(5,6) [OF f] assms(5,6,10-12) f
    by (simp add: gone_due due_def v put_apply clock_def) (auto simp: t_def tframe_def same_index_def)
  have kv: "kv s i k \<noteq> None" using live_visible(4) [OF assms(4)] assms(4) by simp
  have "ks_ok t" using assms(1) kv v by (auto simp: ks_ok_def server_ok_def put_apply tframe_simps(1) [OF f])
  moreover have it: "i = c_db (client_of t c)" using c_db_post [OF s1(2)] assms(2) i v by simp
  moreover have "client_ok t c" using client_ok_post [OF s1(2) ok] v by (simp add: client_ok_def)
  ultimately obtain s2 where s2: "ttlGenericCommand c k True t = Some s2"
    "last (out s2) = Reply c (RInt (if visible t i k = None then - 2 else if expiry t i k = - 1 then - 1
      else let ttl = max 0 (wrap64 (expiry t i k - now t)) in if True then ttl else wrap64 (ttl + 500) sdiv 1000))"
    using ttlGenericCommand_spec [of t c i k True] by blast
  have "expiry t i k = now s + n" by (simp add: expiry_def v put_apply)
  moreover have "visible t i k = None \<longleftrightarrow> n < elapsed" using gone kv by (simp add: visible_def v)
  moreover have "wrap64 (now s + n - now t) = n - elapsed"
    using assms(5-9) by (simp add: t_def wrap64_simps)
  ultimately have "last (out s2) = Reply c (RInt (if elapsed \<le> n then n - elapsed else - 2))"
    using s2(2) assms(5,6) by simp
  then show ?thesis using s1(1) s2(1) by (simp add: t_def)
qed

lemma pexpire_pttl_witness:
  "\<exists>kc s1 s2. proc 0 (PEXPIRE [97] (Some 50)) server1 = Some (kc, s1) \<and>
    ttlGenericCommand 0 [97] True (s1\<lparr>now := 1020\<rparr>) = Some s2 \<and> last (out s2) = Reply 0 (RInt 30)"
proof -
  have "visible server1 (c_db (client_of server1 0)) [97] \<noteq> None"
    by (simp add: visible_def gone_due due_def clock_def demo kv_def ex_def db_of_def client_of_def lookup_update')
  from pexpire_pttl [OF demo_ok(2) _ refl this, of 50 20] show ?thesis by (simp add: demo)
qed

text \<open>\<open>MOVE\<close> carries the value of a visible key to the other database, but the key loses
  its expire time there, and no client is marked dirty: a client that watches the key in one
  of the two databases will run its transaction although the key has changed.\<close>
theorem move_silent:
  assumes "server_ok s" "c < length (clients s)" and i: "i = c_db (client_of s c)"
    and "j < length (dbs s)" "j \<noteq> i" "length (dbs s) \<le> 2147483647" "visible s i k = Some v" "visible s j k = None"
  shows "\<exists>s'. moveCommand c k (Some (int j)) s = Some s' \<and> visible s' = del i k (put j k v (visible s)) \<and>
    ex s' j k = None \<and> last (out s') = Reply c (RInt 1) \<and> (\<forall>w < length (clients s). client_of s' w = client_of s w)"
proof -
  have ok: "client_ok s c" by (rule server_okD(3) [OF assms(1,2)])
  have il: "i < length (dbs s)" using client_okD(2) [OF ok] by (simp add: i)
  obtain s' where s': "move_apply c i j k s = Some s'" "last (out s') = Reply c (RInt 1)"
    "post {} s (del i k (put j k v (kv s))) (del i k (del j k (ex s))) s'"
    using move_apply_spec [OF server_okD(1) [OF assms(1)] il assms(4) assms(5) [symmetric], of c k] assms(7,8) by auto
  have "moveCommand c k (Some (int j)) s = Some s'"
    using moveCommand_selects [OF ok, of "int j" k] s'(1) assms(4-6) by (simp add: i)
  moreover have "visible s' l m = del i k (put j k v (visible s)) l m" for l m
    using post_visible(1) [OF s'(3), of l m] by (auto simp: del_apply put_apply visible_def [of s] gone_due)
  then have "visible s' = del i k (put j k v (visible s))" by (simp add: fun_eq_iff)
  moreover have "ex s' j k = None" using post_views(2) [OF s'(3)] by (simp add: del_apply)
  moreover have "client_of s' w = client_of s w" if "w < length (clients s)" for w
    using s'(3) tframe_client [OF _ that, of "{}" s'] by (simp add: post_def)
  ultimately show ?thesis using s'(2) by blast
qed

lemma move_silent_witness:
  "\<exists>s'. moveCommand 1 [97] (Some 1) server2 = Some s' \<and> visible s' 1 [97] = Some 5 \<and> \<not> c_dirty_cas (client_of s' 0)"
proof -
  have v: "visible server2 0 [97] = Some 5" "visible server2 1 [97] = None"
    by (simp_all add: visible_def gone_due due_def clock_def demo kv_def ex_def db_of_def lookup_update')
  have l: "1 < length (clients server2)" "1 < length (dbs server2)" "length (dbs server2) \<le> 2147483647" "0 = c_db (client_of server2 1)"
    by (simp_all add: demo client_of_def)
  obtain s' where "moveCommand 1 [97] (Some (int 1)) server2 = Some s'" "visible s' = del 0 [97] (put 1 [97] 5 (visible server2))"
    "\<forall>w < length (clients server2). client_of s' w = client_of server2 w"
    using move_silent [OF demo_ok(3) l(1,4,2) _ l(3) v] by auto
  then show ?thesis by (simp add: demo_views client0_def del_apply put_apply)
qed

text \<open>\<open>PERSIST\<close> on a key whose time is over, but which no lookup has deleted yet, brings
  the key back for good, and marks no client: the command does not look at the clock.\<close>
theorem persist_revives:
  assumes "server_ok s" "c < length (clients s)" and i: "i = c_db (client_of s c)"
    and "kv s i k = Some v" "due s (ex s i k)"
  shows "visible s i k = None \<and> (\<exists>s'. persistCommand c k s = Some s' \<and> visible s' i k = Some v \<and> ex s' i k = None \<and>
    last (out s') = Reply c (RInt 1) \<and> (\<forall>w < length (clients s). client_of s' w = client_of s w))"
proof -
  have "ex s i k \<noteq> None" using assms(5) by (auto simp: due_def)
  then obtain s' where s': "persistCommand c k s = Some s'" "post {} s (kv s) (del i k (ex s)) s'" "last (out s') = Reply c (RInt 1)"
    using persistCommand_spec [OF server_okD(3) [OF assms(1,2)] i, of k] assms(4) by auto
  have "visible s' i k = Some v" using post_visible(1) [OF s'(2), of i k] assms(4) by (simp add: del_apply)
  moreover have "ex s' i k = None" using post_views(2) [OF s'(2)] by (simp add: del_apply)
  moreover have "client_of s' w = client_of s w" if "w < length (clients s)" for w
    using s'(2) tframe_client [OF _ that, of "{}" s'] by (simp add: post_def)
  moreover have "visible s i k = None" using assms(5) by (simp add: visible_def gone_due)
  ultimately show ?thesis using s'(1,3) by blast
qed

lemma persist_revives_witness:
  "visible server1 0 [98] = None \<and> (\<exists>s'. persistCommand 0 [98] server1 = Some s' \<and> visible s' 0 [98] = Some 6)"
proof -
  have "kv server1 (c_db (client_of server1 0)) [98] = Some 6" "due server1 (ex server1 (c_db (client_of server1 0)) [98])"
    by (simp_all add: due_def clock_def demo kv_def ex_def db_of_def client_of_def lookup_update')
  from persist_revives [OF demo_ok(2) _ refl this] show ?thesis by (auto simp: demo client_of_def)
qed

text \<open>C39: an expire time of \<open>SET\<close> that overflows 64 bits becomes negative.  The lookups take
  the key as one that never expires, while the active expire cycle of the master deletes it
  at once when it comes across it.\<close>
theorem set_huge_ttl:
  assumes "server_ok s" "c < length (clients s)" and i: "i = c_db (client_of s c)"
    and "0 \<le> now s" "now s < 2 ^ 62" "ms < 2 ^ 63" "2 ^ 63 \<le> now s + ms"
  shows "\<exists>s1 t s2. setGenericCommand c False False k v (Some (Some ms, UNIT_MILLISECONDS)) ROk RNullBulk s = Some s1 \<and>
    ex s1 i k = Some t \<and> t < 0 \<and> visible s1 i k = Some v \<and>
    activeExpireCycleTryExpire i k t (now s1) s1 = (True, s2) \<and> visible s2 i k = None"
proof -
  have ok: "client_ok s c" by (rule server_okD(3) [OF assms(1,2)])
  define t where "t = wrap64 (now s + ms)"
  have t: "t < 0" using assms(4-7) by (simp add: t_def wrap64_simps)
  obtain s1 where s1: "set_command c False False k v (Some ms) ROk RNullBulk s = Some s1"
    "post {(i, k)} s (put i k v (kv s)) (put i k t (ex s)) s1"
    using set_command_spec [OF server_okD(1) [OF assms(1)] ok i, of False False k v "Some ms" ROk RNullBulk]
    by (auto simp: set_refused_def t_def)
  have e: "eff True True c s s1"
    by (rule eff_of_post [OF assms(1) s1(2)]) (use ks_okD [OF assms(1)] in \<open>auto simp: put_apply split: if_splits\<close>)
  have ex1: "ex s1 i k = Some t" using post_views(2) [OF s1(2)] by (simp add: put_apply)
  have il: "i < length (dbs s1)" using client_okD(2) [OF ok] effD(2) [OF e] by (simp add: i)
  define s2 where "s2 = snd (activeExpireCycleTryExpire i k t (now s1) s1)"
  have "now s1 > t" using t assms(4) effD(4) [OF e] by simp
  then have c: "activeExpireCycleTryExpire i k t (now s1) s1 = (True, s2)"
    by (simp add: s2_def activeExpireCycleTryExpire_def Let_def)
  have p: "post {} s1 (kv s1) (ex s1) (propagateExpire i k s1)" by (rule post_veq) (simp add: view)
  have "i < length (dbs (propagateExpire i k s1))" using il post_len [OF p] by simp
  then have "kv s2 i k = None"
    using post_dbDelete [of i "propagateExpire i k s1" k] \<open>now s1 > t\<close>
    by (auto simp: s2_def activeExpireCycleTryExpire_def Let_def notifyKeyspaceEvent_def emit_def post_def kv_def db_of_def del_apply fun_eq_iff)
  then have "visible s2 i k = None" by (simp add: visible_def)
  moreover have "ms > 0" using assms(4-7) by simp
  then have "setGenericCommand c False False k v (Some (Some ms, UNIT_MILLISECONDS)) ROk RNullBulk s = Some s1"
    using s1(1) by (simp add: setGenericCommand_def)
  moreover have "visible s1 i k = Some v"
    using post_visible(1) [OF s1(2), of i k] t by (simp add: put_apply due_def)
  ultimately show ?thesis using ex1 t c by blast
qed

lemma set_huge_ttl_witness:
  "\<exists>s1 t. setGenericCommand 0 False False [99] 7 (Some (Some 9223372036854775807, UNIT_MILLISECONDS)) ROk RNullBulk server1 = Some s1 \<and>
    ex s1 0 [99] = Some t \<and> t < 0 \<and> visible s1 0 [99] = Some 7"
  using set_huge_ttl [OF demo_ok(2) _ refl, of 0 9223372036854775807 "[99]" 7] by (auto simp: demo client_of_def)

end
