(* ===== verification/Zskiplist.thy ===== *)
theory Zskiplist
  imports Sds "HOL-Library.Monad_Syntax" "HOL-Library.AList_Mapping"
begin

text \<open>
  \<open>t_zset.c\<close>, the skip list of a sorted set.  The heap is the map \<open>znodes\<close> from addresses to
  nodes; reading a node that does not exist, a level a node does not have or the object of
  the header is \<open>None\<close>.  The type \<open>'s\<close> of scores stands for the doubles without NaN
  and with one zero, of which the code uses the order and the zero.  What the code gets from outside is an
  argument: the address \<open>malloc\<close> returns and the numbers \<open>random\<close> draws.  Spans and
  ranks are unsigned numbers with the wrap-around written out.
\<close>

section \<open>Nodes and lists\<close>

definition ZSKIPLIST_MAXLEVEL :: nat where
  "ZSKIPLIST_MAXLEVEL = 32"

record 's zslNode =
  zobj :: "bytes option"
  zscore :: 's
  backward :: "nat option"
  level :: "(nat option \<times> nat) list"

record 's zskiplist =
  znodes :: "nat \<Rightarrow> 's zslNode option"
  header :: nat
  tail :: "nat option"
  zlength :: nat
  zlevel :: nat

text \<open>Unsigned arithmetic modulo \<open>M\<close>.\<close>

abbreviation U32 :: nat where "U32 \<equiv> 4294967296"

abbreviation U64 :: nat where "U64 \<equiv> 18446744073709551616"

definition uadd :: "nat \<Rightarrow> nat \<Rightarrow> nat \<Rightarrow> nat" where
  "uadd M a b = (a + b) mod M"

definition usub :: "nat \<Rightarrow> nat \<Rightarrow> nat \<Rightarrow> nat" where
  "usub M a b = (a + M - b) mod M"

text \<open>Both kinds of string objects, raw and integer encoded, are compared by their bytes; the
  \<open>int\<close> result does not overflow for strings below \<open>2 ^ 31\<close> bytes, which all objects are.\<close>

definition compareStringObjects :: "bytes \<Rightarrow> bytes \<Rightarrow> int" where
  "compareStringObjects a b =
    (let alen = length a;
         blen = length b;
         minlen = (if alen < blen then alen else blen);
         cmp = memcmp a b minlen
     in if cmp = 0 then int alen - int blen else cmp)"

definition equalStringObjects :: "bytes \<Rightarrow> bytes \<Rightarrow> bool" where
  "equalStringObjects a b \<longleftrightarrow> compareStringObjects a b = 0"

text \<open>The levels and the backward pointer of a new node are uninitialised memory.\<close>

definition zslCreateNode :: "nat \<Rightarrow> 's \<Rightarrow> bytes option \<Rightarrow> 's zslNode" where
  "zslCreateNode lvl score ob = \<lparr>zobj = ob, zscore = score, backward = None, level = replicate lvl (None, 0)\<rparr>"

definition zslCreate :: "nat \<Rightarrow> 's::zero zskiplist" where
  "zslCreate a =
    \<lparr>znodes = [a \<mapsto> zslCreateNode ZSKIPLIST_MAXLEVEL 0 None], header = a, tail = None, zlength = 0, zlevel = 1\<rparr>"

text \<open>
  The draws are the values of the calls of \<open>random\<close>; \<open>None\<close> if there are not enough of them.
  The bound \<open>ZSKIPLIST_P * 0xFFFF\<close> of the code is 16383.75.
\<close>

primrec zsl_draw :: "nat list \<Rightarrow> nat \<Rightarrow> nat option" where
  "zsl_draw [] lvl = None"
| "zsl_draw (r # rs) lvl = (if r mod 65536 \<le> 16383 then zsl_draw rs (lvl + 1) else Some lvl)"

definition zslRandomLevel :: "nat list \<Rightarrow> nat option" where
  "zslRandomLevel rs =
    do { lvl \<leftarrow> zsl_draw rs 1; Some (if lvl < ZSKIPLIST_MAXLEVEL then lvl else ZSKIPLIST_MAXLEVEL) }"

section \<open>Access to the heap\<close>

definition slot :: "'s zskiplist \<Rightarrow> nat \<Rightarrow> nat \<Rightarrow> (nat option \<times> nat) option" where
  "slot z a i =
    (case znodes z a of None \<Rightarrow> None | Some n \<Rightarrow> if i < length (level n) then Some (level n ! i) else None)"

definition set_slot :: "'s zskiplist \<Rightarrow> nat \<Rightarrow> nat \<Rightarrow> nat option \<times> nat \<Rightarrow> 's zskiplist option" where
  "set_slot z a i v =
    (case znodes z a of
       None \<Rightarrow> None
     | Some n \<Rightarrow>
         if i < length (level n) then Some (z\<lparr>znodes := (znodes z)(a \<mapsto> n\<lparr>level := (level n)[i := v]\<rparr>)\<rparr>) else None)"

definition set_backward :: "'s zskiplist \<Rightarrow> nat \<Rightarrow> nat option \<Rightarrow> 's zskiplist option" where
  "set_backward z a b =
    (case znodes z a of None \<Rightarrow> None | Some n \<Rightarrow> Some (z\<lparr>znodes := (znodes z)(a \<mapsto> n\<lparr>backward := b\<rparr>)\<rparr>))"

section \<open>Walking\<close>

text \<open>
  The inner loop of every search: go forward on level \<open>i\<close> while the next node satisfies the
  condition, which may look at the rank crossed so far and the next span; \<open>M\<close> is the modulus
  of the rank.
\<close>

partial_function (option) zsl_walk ::
    "nat \<Rightarrow> (nat \<Rightarrow> nat \<Rightarrow> 's zslNode \<Rightarrow> bool option) \<Rightarrow> 's zskiplist \<Rightarrow> nat \<Rightarrow> nat \<Rightarrow> nat \<Rightarrow> (nat \<times> nat) option" where
  "zsl_walk M cnd z i x rank =
    do {
      (forward, span) \<leftarrow> slot z x i;
      (case forward of
         None \<Rightarrow> Some (x, rank)
       | Some y \<Rightarrow> do {
           n \<leftarrow> znodes z y;
           go \<leftarrow> cnd rank span n;
           if go then zsl_walk M cnd z i y (uadd M rank span) else Some (x, rank)
         })
    }"

text \<open>The outer loop, from level \<open>i - 1\<close> down to \<open>0\<close>; the entries of \<open>update\<close> and \<open>rank\<close> are
  collected, the one of level \<open>0\<close> first.\<close>

primrec zsl_search ::
    "nat \<Rightarrow> (nat \<Rightarrow> nat \<Rightarrow> 's zslNode \<Rightarrow> bool option) \<Rightarrow> 's zskiplist \<Rightarrow> nat \<Rightarrow> nat \<Rightarrow> nat \<Rightarrow> (nat \<times> nat) list
      \<Rightarrow> (nat \<times> nat \<times> (nat \<times> nat) list) option" where
  "zsl_search M cnd z 0 x rank us = Some (x, rank, us)"
| "zsl_search M cnd z (Suc i) x rank us =
    do { (x, rank) \<leftarrow> zsl_walk M cnd z i x rank; zsl_search M cnd z i x rank ((x, rank) # us) }"

text \<open>The next node precedes, or does not follow, the element.\<close>

definition zsl_before :: "'s::linorder \<Rightarrow> bytes \<Rightarrow> nat \<Rightarrow> nat \<Rightarrow> 's zslNode \<Rightarrow> bool option" where
  "zsl_before score ob rank span n =
    (if zscore n < score then Some True
     else if zscore n = score then do { x \<leftarrow> zobj n; Some (compareStringObjects x ob < 0) }
     else Some False)"

definition zsl_upto :: "'s::linorder \<Rightarrow> bytes \<Rightarrow> nat \<Rightarrow> nat \<Rightarrow> 's zslNode \<Rightarrow> bool option" where
  "zsl_upto score ob rank span n =
    (if zscore n < score then Some True
     else if zscore n = score then do { x \<leftarrow> zobj n; Some (compareStringObjects x ob \<le> 0) }
     else Some False)"

section \<open>Insertion\<close>

text \<open>The levels above those in use, of which the header is the predecessor.\<close>

primrec zsl_raise :: "nat list \<Rightarrow> 's zskiplist \<Rightarrow> 's zskiplist option" where
  "zsl_raise [] z = Some z"
| "zsl_raise (i # is) z =
    do { (f, sp) \<leftarrow> slot z (header z) i; z \<leftarrow> set_slot z (header z) i (f, zlength z mod U32); zsl_raise is z }"

primrec zsl_link :: "nat \<Rightarrow> (nat \<times> nat) list \<Rightarrow> nat list \<Rightarrow> 's zskiplist \<Rightarrow> 's zskiplist option" where
  "zsl_link x us [] z = Some z"
| "zsl_link x us (i # is) z =
    do {
      let (u, r) = us ! i;
      (f, sp) \<leftarrow> slot z u i;
      let crossed = usub U32 (snd (us ! 0)) r;
      z \<leftarrow> set_slot z x i (f, usub U32 sp crossed);
      z \<leftarrow> set_slot z u i (Some x, uadd U32 crossed 1);
      zsl_link x us is z
    }"

primrec zsl_widen :: "(nat \<times> nat) list \<Rightarrow> nat list \<Rightarrow> 's zskiplist \<Rightarrow> 's zskiplist option" where
  "zsl_widen us [] z = Some z"
| "zsl_widen us (i # is) z =
    do { (f, sp) \<leftarrow> slot z (fst (us ! i)) i; z \<leftarrow> set_slot z (fst (us ! i)) i (f, uadd U32 sp 1); zsl_widen us is z }"

definition zslInsert :: "nat \<Rightarrow> nat \<Rightarrow> 's::linorder \<Rightarrow> bytes \<Rightarrow> 's zskiplist \<Rightarrow> 's zskiplist option" where
  "zslInsert x lvl score ob z =
    do {
      (y, r, us) \<leftarrow> zsl_search U32 (zsl_before score ob) z (zlevel z) (header z) 0 [];
      z \<leftarrow> zsl_raise [zlevel z..<lvl] z;
      let us = us @ replicate (lvl - zlevel z) (header z, 0);
      let z = z\<lparr>zlevel := max (zlevel z) lvl\<rparr>;
      let z = z\<lparr>znodes := (znodes z)(x \<mapsto> zslCreateNode lvl score (Some ob))\<rparr>;
      z \<leftarrow> zsl_link x us [0..<lvl] z;
      z \<leftarrow> zsl_widen us [lvl..<zlevel z] z;
      z \<leftarrow> set_backward z x (if fst (us ! 0) = header z then None else Some (fst (us ! 0)));
      (f, sp) \<leftarrow> slot z x 0;
      z \<leftarrow> (case f of Some y \<Rightarrow> set_backward z y (Some x) | None \<Rightarrow> Some (z\<lparr>tail := Some x\<rparr>));
      Some (z\<lparr>zlength := uadd U64 (zlength z) 1\<rparr>)
    }"

section \<open>Deletion\<close>

primrec zsl_unlink :: "nat \<Rightarrow> (nat \<times> nat) list \<Rightarrow> nat list \<Rightarrow> 's zskiplist \<Rightarrow> 's zskiplist option" where
  "zsl_unlink x us [] z = Some z"
| "zsl_unlink x us (i # is) z =
    do {
      (f, sp) \<leftarrow> slot z (fst (us ! i)) i;
      z \<leftarrow>
        (if f = Some x
         then do { (fx, sx) \<leftarrow> slot z x i; set_slot z (fst (us ! i)) i (fx, uadd U32 sp (usub U32 sx 1)) }
         else set_slot z (fst (us ! i)) i (f, usub U32 sp 1));
      zsl_unlink x us is z
    }"

function zsl_lower :: "'s zskiplist \<Rightarrow> 's zskiplist option" where
  "zsl_lower z =
    (if zlevel z > 1 then
       (case slot z (header z) (zlevel z - 1) of
          None \<Rightarrow> None
        | Some (f, sp) \<Rightarrow> if f = None then zsl_lower (z\<lparr>zlevel := zlevel z - 1\<rparr>) else Some z)
     else Some z)"
  by auto
termination by (relation "measure zlevel") auto

declare zsl_lower.simps [simp del]

definition zslDeleteNode :: "nat \<Rightarrow> (nat \<times> nat) list \<Rightarrow> 's zskiplist \<Rightarrow> 's zskiplist option" where
  "zslDeleteNode x us z =
    do {
      z \<leftarrow> zsl_unlink x us [0..<zlevel z] z;
      (f, sp) \<leftarrow> slot z x 0;
      n \<leftarrow> znodes z x;
      z \<leftarrow> (case f of Some y \<Rightarrow> set_backward z y (backward n) | None \<Rightarrow> Some (z\<lparr>tail := backward n\<rparr>));
      z \<leftarrow> zsl_lower z;
      Some (z\<lparr>zlength := usub U64 (zlength z) 1\<rparr>)
    }"

definition zslFreeNode :: "nat \<Rightarrow> 's zskiplist \<Rightarrow> 's zskiplist" where
  "zslFreeNode x z = z\<lparr>znodes := (znodes z)(x := None)\<rparr>"

definition zslDelete :: "'s::linorder \<Rightarrow> bytes \<Rightarrow> 's zskiplist \<Rightarrow> (bool \<times> 's zskiplist) option" where
  "zslDelete score ob z =
    do {
      (y, r, us) \<leftarrow> zsl_search U32 (zsl_before score ob) z (zlevel z) (header z) 0 [];
      (f, sp) \<leftarrow> slot z y 0;
      (case f of
         None \<Rightarrow> Some (False, z)
       | Some x \<Rightarrow> do {
           n \<leftarrow> znodes z x;
           same \<leftarrow> (if zscore n = score then do { o' \<leftarrow> zobj n; Some (equalStringObjects o' ob) } else Some False);
           if same then do { z \<leftarrow> zslDeleteNode x us z; Some (True, zslFreeNode x z) }
           else Some (False, z)
         })
    }"

section \<open>Ranks\<close>

primrec zsl_rank_search :: "'s::linorder \<Rightarrow> bytes \<Rightarrow> 's zskiplist \<Rightarrow> nat \<Rightarrow> nat \<Rightarrow> nat \<Rightarrow> nat option" where
  "zsl_rank_search score ob z 0 x rank = Some 0"
| "zsl_rank_search score ob z (Suc i) x rank =
    do {
      (x, rank) \<leftarrow> zsl_walk U64 (zsl_upto score ob) z i x rank;
      n \<leftarrow> znodes z x;
      if (case zobj n of None \<Rightarrow> False | Some o' \<Rightarrow> equalStringObjects o' ob) then Some rank
      else zsl_rank_search score ob z i x rank
    }"

definition zslGetRank :: "'s::linorder \<Rightarrow> bytes \<Rightarrow> 's zskiplist \<Rightarrow> nat option" where
  "zslGetRank score ob z = zsl_rank_search score ob z (zlevel z) (header z) 0"

primrec zsl_nth_search :: "nat \<Rightarrow> 's zskiplist \<Rightarrow> nat \<Rightarrow> nat \<Rightarrow> nat \<Rightarrow> nat option option" where
  "zsl_nth_search rank z 0 x traversed = Some None"
| "zsl_nth_search rank z (Suc i) x traversed =
    do {
      (x, traversed) \<leftarrow> zsl_walk U64 (\<lambda>t sp n. Some (uadd U64 t sp \<le> rank)) z i x traversed;
      if traversed = rank then Some (Some x) else zsl_nth_search rank z i x traversed
    }"

definition zslGetElementByRank :: "nat \<Rightarrow> 's zskiplist \<Rightarrow> nat option option" where
  "zslGetElementByRank rank z = zsl_nth_search rank z (zlevel z) (header z) 0"

section \<open>Ranges of scores\<close>

record 's zrangespec =
  rmin :: 's
  rmax :: 's
  minex :: bool
  maxex :: bool

definition zslValueGteMin :: "'s::linorder \<Rightarrow> 's zrangespec \<Rightarrow> bool" where
  "zslValueGteMin v r = (if minex r then v > rmin r else v \<ge> rmin r)"

definition zslValueLteMax :: "'s::linorder \<Rightarrow> 's zrangespec \<Rightarrow> bool" where
  "zslValueLteMax v r = (if maxex r then v < rmax r else v \<le> rmax r)"

definition zslIsInRange :: "'s::linorder zrangespec \<Rightarrow> 's zskiplist \<Rightarrow> bool option" where
  "zslIsInRange r z =
    (if rmin r > rmax r \<or> rmin r = rmax r \<and> (minex r \<or> maxex r) then Some False
     else
       (case tail z of
          None \<Rightarrow> Some False
        | Some t \<Rightarrow> do {
            n \<leftarrow> znodes z t;
            if \<not> zslValueGteMin (zscore n) r then Some False
            else do {
              (f, sp) \<leftarrow> slot z (header z) 0;
              (case f of
                 None \<Rightarrow> Some False
               | Some x \<Rightarrow> do { n \<leftarrow> znodes z x; Some (zslValueLteMax (zscore n) r) })
            }
          }))"

definition zslFirstInRange :: "'s::linorder zrangespec \<Rightarrow> 's zskiplist \<Rightarrow> nat option option" where
  "zslFirstInRange r z =
    do {
      inr \<leftarrow> zslIsInRange r z;
      if \<not> inr then Some None
      else do {
        (y, rk, us) \<leftarrow> zsl_search U64 (\<lambda>t sp n. Some (\<not> zslValueGteMin (zscore n) r)) z (zlevel z) (header z) 0 [];
        (f, sp) \<leftarrow> slot z y 0;
        x \<leftarrow> f;
        n \<leftarrow> znodes z x;
        Some (if zslValueLteMax (zscore n) r then Some x else None)
      }
    }"

definition zslLastInRange :: "'s::linorder zrangespec \<Rightarrow> 's zskiplist \<Rightarrow> nat option option" where
  "zslLastInRange r z =
    do {
      inr \<leftarrow> zslIsInRange r z;
      if \<not> inr then Some None
      else do {
        (x, rk, us) \<leftarrow> zsl_search U64 (\<lambda>t sp n. Some (zslValueLteMax (zscore n) r)) z (zlevel z) (header z) 0 [];
        n \<leftarrow> znodes z x;
        Some (if zslValueGteMin (zscore n) r then Some x else None)
      }
    }"

section \<open>Deletion of ranges\<close>

text \<open>The loop of the three functions: delete while the condition on the rank and the node
  holds.  The dictionary of the sorted set has the elements as its keys.\<close>

partial_function (option) zsl_delete_while ::
    "(nat \<Rightarrow> 's zslNode \<Rightarrow> bool option) \<Rightarrow> (nat \<times> nat) list \<Rightarrow> nat option \<Rightarrow> nat \<Rightarrow> nat \<Rightarrow> 's zskiplist \<Rightarrow> (bytes, 'v) mapping
      \<Rightarrow> (nat \<times> 's zskiplist \<times> (bytes, 'v) mapping) option" where
  "zsl_delete_while cnd us x traversed removed z d =
    (case x of
       None \<Rightarrow> Some (removed, z, d)
     | Some a \<Rightarrow> do {
         n \<leftarrow> znodes z a;
         go \<leftarrow> cnd traversed n;
         if \<not> go then Some (removed, z, d)
         else do {
           (nxt, sp) \<leftarrow> slot z a 0;
           z \<leftarrow> zslDeleteNode a us z;
           ob \<leftarrow> zobj n;
           zsl_delete_while cnd us nxt (uadd U64 traversed 1) (uadd U64 removed 1) (zslFreeNode a z) (Mapping.delete ob d)
         }
       })"

definition zslDeleteRangeByScore ::
    "'s::linorder zrangespec \<Rightarrow> 's zskiplist \<Rightarrow> (bytes, 'v) mapping \<Rightarrow> (nat \<times> 's zskiplist \<times> (bytes, 'v) mapping) option" where
  "zslDeleteRangeByScore r z d =
    do {
      (y, rk, us) \<leftarrow> zsl_search U64 (\<lambda>t sp n. Some (if minex r then zscore n \<le> rmin r else zscore n < rmin r)) z
        (zlevel z) (header z) 0 [];
      (f, sp) \<leftarrow> slot z y 0;
      zsl_delete_while (\<lambda>t n. Some (if maxex r then zscore n < rmax r else zscore n \<le> rmax r)) us f 0 0 z d
    }"

text \<open>\<open>start\<close> and \<open>end'\<close> are unsigned and 1-based.\<close>

definition zslDeleteRangeByRank ::
    "nat \<Rightarrow> nat \<Rightarrow> 's zskiplist \<Rightarrow> (bytes, 'v) mapping \<Rightarrow> (nat \<times> 's zskiplist \<times> (bytes, 'v) mapping) option" where
  "zslDeleteRangeByRank start end' z d =
    do {
      (y, traversed, us) \<leftarrow> zsl_search U64 (\<lambda>t sp n. Some (uadd U64 t sp < start)) z (zlevel z) (header z) 0 [];
      (f, sp) \<leftarrow> slot z y 0;
      zsl_delete_while (\<lambda>t n. Some (t \<le> end')) us f (uadd U64 traversed 1) 0 z d
    }"

section \<open>Ranges of strings\<close>

text \<open>
  A bound is one of the two shared objects, which the code compares by address, or an object
  of its own.  Where \<open>compareStringObjects\<close> reads the shared objects it sees the strings they
  were created with.
\<close>

datatype lexbound = MinString | MaxString | LexObj bytes

record zlexrangespec =
  lmin :: lexbound
  lmax :: lexbound
  lminex :: bool
  lmaxex :: bool

definition lex_contents :: "lexbound \<Rightarrow> bytes" where
  "lex_contents b =
    (case b of MinString \<Rightarrow> map (of_nat \<circ> of_char) ''minstring'' | MaxString \<Rightarrow> map (of_nat \<circ> of_char) ''maxstring'' | LexObj ob \<Rightarrow> ob)"

text \<open>The switch reads the terminating zero byte of an empty string; \<open>c[1]\<close> is the zero byte
  behind a string of length one, or a zero byte in the string.\<close>

definition zslParseLexRangeItem :: "bytes \<Rightarrow> (lexbound \<times> bool) option" where
  "zslParseLexRangeItem c =
    (case c of
       [] \<Rightarrow> None
     | c0 # cs \<Rightarrow>
         if c0 = 43 then (if cs = [] \<or> hd cs = 0 then Some (MaxString, False) else None)
         else if c0 = 45 then (if cs = [] \<or> hd cs = 0 then Some (MinString, False) else None)
         else if c0 = 40 then Some (LexObj cs, True)
         else if c0 = 91 then Some (LexObj cs, False)
         else None)"

definition zslParseLexRange :: "bytes \<Rightarrow> bytes \<Rightarrow> zlexrangespec option" where
  "zslParseLexRange mn mx =
    do {
      (lo, lox) \<leftarrow> zslParseLexRangeItem mn;
      (hi, hix) \<leftarrow> zslParseLexRangeItem mx;
      Some \<lparr>lmin = lo, lmax = hi, lminex = lox, lmaxex = hix\<rparr>
    }"

definition compareStringObjectsForLexRange :: "lexbound \<Rightarrow> lexbound \<Rightarrow> int" where
  "compareStringObjectsForLexRange a b =
    (if a = b then 0
     else if a = MinString \<or> b = MaxString then -1
     else if a = MaxString \<or> b = MinString then 1
     else compareStringObjects (lex_contents a) (lex_contents b))"

definition zslLexValueGteMin :: "bytes \<Rightarrow> zlexrangespec \<Rightarrow> bool" where
  "zslLexValueGteMin v r =
    (if lminex r then compareStringObjectsForLexRange (LexObj v) (lmin r) > 0
     else compareStringObjectsForLexRange (LexObj v) (lmin r) \<ge> 0)"

definition zslLexValueLteMax :: "bytes \<Rightarrow> zlexrangespec \<Rightarrow> bool" where
  "zslLexValueLteMax v r =
    (if lmaxex r then compareStringObjectsForLexRange (LexObj v) (lmax r) < 0
     else compareStringObjectsForLexRange (LexObj v) (lmax r) \<le> 0)"

text \<open>The test for empty ranges, with its comparison \<open>> 1\<close> as the code has it.\<close>

definition zsl_lex_empty :: "zlexrangespec \<Rightarrow> bool" where
  "zsl_lex_empty r \<longleftrightarrow>
    compareStringObjectsForLexRange (lmin r) (lmax r) > 1 \<or>
    compareStringObjects (lex_contents (lmin r)) (lex_contents (lmax r)) = 0 \<and> (lminex r \<or> lmaxex r)"

definition zslIsInLexRange :: "zlexrangespec \<Rightarrow> 's zskiplist \<Rightarrow> bool option" where
  "zslIsInLexRange r z =
    (if zsl_lex_empty r then Some False
     else
       (case tail z of
          None \<Rightarrow> Some False
        | Some t \<Rightarrow> do {
            n \<leftarrow> znodes z t;
            v \<leftarrow> zobj n;
            if \<not> zslLexValueGteMin v r then Some False
            else do {
              (f, sp) \<leftarrow> slot z (header z) 0;
              (case f of
                 None \<Rightarrow> Some False
               | Some x \<Rightarrow> do { n \<leftarrow> znodes z x; v \<leftarrow> zobj n; Some (zslLexValueLteMax v r) })
            }
          }))"

definition zslFirstInLexRange :: "zlexrangespec \<Rightarrow> 's zskiplist \<Rightarrow> nat option option" where
  "zslFirstInLexRange r z =
    do {
      inr \<leftarrow> zslIsInLexRange r z;
      if \<not> inr then Some None
      else do {
        (y, rk, us) \<leftarrow> zsl_search U64 (\<lambda>t sp n. do { v \<leftarrow> zobj n; Some (\<not> zslLexValueGteMin v r) }) z
          (zlevel z) (header z) 0 [];
        (f, sp) \<leftarrow> slot z y 0;
        x \<leftarrow> f;
        n \<leftarrow> znodes z x;
        v \<leftarrow> zobj n;
        Some (if zslLexValueLteMax v r then Some x else None)
      }
    }"

definition zslLastInLexRange :: "zlexrangespec \<Rightarrow> 's zskiplist \<Rightarrow> nat option option" where
  "zslLastInLexRange r z =
    do {
      inr \<leftarrow> zslIsInLexRange r z;
      if \<not> inr then Some None
      else do {
        (x, rk, us) \<leftarrow> zsl_search U64 (\<lambda>t sp n. do { v \<leftarrow> zobj n; Some (zslLexValueLteMax v r) }) z
          (zlevel z) (header z) 0 [];
        n \<leftarrow> znodes z x;
        v \<leftarrow> zobj n;
        Some (if zslLexValueGteMin v r then Some x else None)
      }
    }"

definition zslDeleteRangeByLex ::
    "zlexrangespec \<Rightarrow> 's zskiplist \<Rightarrow> (bytes, 'v) mapping \<Rightarrow> (nat \<times> 's zskiplist \<times> (bytes, 'v) mapping) option" where
  "zslDeleteRangeByLex r z d =
    do {
      (y, rk, us) \<leftarrow> zsl_search U64 (\<lambda>t sp n. do { v \<leftarrow> zobj n; Some (\<not> zslLexValueGteMin v r) }) z
        (zlevel z) (header z) 0 [];
      (f, sp) \<leftarrow> slot z y 0;
      zsl_delete_while (\<lambda>t n. do { v \<leftarrow> zobj n; Some (zslLexValueLteMax v r) }) us f 0 0 z d
    }"

text \<open>The partial functions are executable.\<close>

declare
  zsl_walk.simps [code]
  zsl_delete_while.simps [code]

end
