(* ===== verification/ZslSpec.thy ===== *)
theory ZslSpec
  imports Zskiplist
begin

text \<open>
  The representation of a skip list: a list of elements in order, their heights and
  addresses.  The position of the header is \<open>0\<close>, the element with index \<open>j\<close> has position
  \<open>j + 1\<close>; the link of a position on a level leads to the next position that is high enough,
  and its span is the distance.
\<close>

section \<open>The order of elements\<close>

lemma compareStringObjects_spec:
  shows "compareStringObjects a b < 0 \<longleftrightarrow> a < b" "compareStringObjects a b = 0 \<longleftrightarrow> a = b"
    "compareStringObjects a b \<le> 0 \<longleftrightarrow> a \<le> b"
proof -
  define m where "m = min (length a) (length b)"
  have m: "(if length a < length b then length a else length b) = m" by (auto simp: m_def)
  have len: "m \<le> length a" "m \<le> length b" by (simp_all add: m_def)
  note cmp = memcmp_spec [OF len]
  show lt: "compareStringObjects a b < 0 \<longleftrightarrow> a < b"
    using cmp less_by_prefix [of a b, folded m_def] unfolding compareStringObjects_def Let_def m by simp
  show eq: "compareStringObjects a b = 0 \<longleftrightarrow> a = b"
    using cmp(1) eq_by_prefix [of a b, folded m_def] unfolding compareStringObjects_def Let_def m by simp
  show "compareStringObjects a b \<le> 0 \<longleftrightarrow> a \<le> b" using lt eq by (auto simp: le_less)
qed

lemma equalStringObjects_iff [simp]: "equalStringObjects a b \<longleftrightarrow> a = b"
  by (simp add: equalStringObjects_def compareStringObjects_spec)

record 's zelem =
  e_addr :: nat
  e_height :: nat
  e_score :: 's
  e_obj :: bytes

text \<open>An element before a score and an object.\<close>

definition zlt :: "'s::linorder \<Rightarrow> bytes \<Rightarrow> 's \<Rightarrow> bytes \<Rightarrow> bool" where
  "zlt s ob s' ob' \<longleftrightarrow> s < s' \<or> s = s' \<and> ob < ob'"

lemma zlt_trans: "zlt s a t b \<Longrightarrow> zlt t b u c \<Longrightarrow> zlt s a u c"
  by (auto simp: zlt_def)

lemma zlt_total: "zlt s a t b \<or> s = t \<and> a = b \<or> zlt t b s a"
  by (auto simp: zlt_def)

lemma zlt_irrefl [simp]: "\<not> zlt s a s a"
  by (simp add: zlt_def)

section \<open>Positions\<close>

definition paddr :: "nat \<Rightarrow> 's zelem list \<Rightarrow> nat \<Rightarrow> nat" where
  "paddr h es p = (if p = 0 then h else e_addr (es ! (p - 1)))"

definition phgt :: "'s zelem list \<Rightarrow> nat \<Rightarrow> nat" where
  "phgt es p = (if p = 0 then ZSKIPLIST_MAXLEVEL else e_height (es ! (p - 1)))"

text \<open>The next position above level \<open>i\<close>, and the last one up to \<open>D\<close>, for heights \<open>H\<close>.\<close>

definition nextp :: "(nat \<Rightarrow> nat) \<Rightarrow> nat \<Rightarrow> nat \<Rightarrow> nat \<Rightarrow> nat option" where
  "nextp H n i p = find (\<lambda>q. i < H q) [Suc p..<Suc n]"

definition lastp :: "(nat \<Rightarrow> nat) \<Rightarrow> nat \<Rightarrow> nat \<Rightarrow> nat" where
  "lastp H i D = Max {q. q \<le> D \<and> i < H q}"

lemma nextp_None: "nextp H n i p = None \<longleftrightarrow> (\<forall>r. p < r \<and> r \<le> n \<longrightarrow> H r \<le> i)"
  unfolding nextp_def find_None_iff by (simp add: Suc_le_eq less_Suc_eq_le not_less del: upt_Suc) (meson not_less)

lemma nextp_SomeI:
  assumes "p < q" "q \<le> n" "i < H q" "\<And>r. p < r \<Longrightarrow> r < q \<Longrightarrow> H r \<le> i"
  shows "nextp H n i p = Some q"
proof -
  have "q - Suc p < length [Suc p..<Suc n]" "[Suc p..<Suc n] ! (q - Suc p) = q"
    using assms(1,2) by (auto simp: nth_upt simp del: upt_Suc)
  moreover have "\<forall>j < q - Suc p. \<not> i < H ([Suc p..<Suc n] ! j)"
    using assms(1,2,4) by (auto simp: nth_upt not_less simp del: upt_Suc)
  ultimately show ?thesis
    using assms(3) unfolding nextp_def find_Some_iff by (intro exI [of _ "q - Suc p"] conjI) (simp_all del: upt_Suc)
qed

lemma nextp_SomeD:
  assumes "nextp H n i p = Some q"
  shows "p < q" "q \<le> n" "i < H q" "p < r \<Longrightarrow> r < q \<Longrightarrow> H r \<le> i"
proof -
  obtain j where j: "j < length [Suc p..<Suc n]" "i < H ([Suc p..<Suc n] ! j)" "q = [Suc p..<Suc n] ! j"
    "\<forall>l < j. \<not> i < H ([Suc p..<Suc n] ! l)"
    using assms unfolding nextp_def find_Some_iff by blast
  have q: "q = Suc p + j" using j(1,3) by (simp add: nth_upt del: upt_Suc)
  show "p < q" "q \<le> n" "i < H q" using j q by (auto simp: nth_upt simp del: upt_Suc)
  show "H r \<le> i" if "p < r" "r < q"
    using j(1) j(4) [rule_format, of "r - Suc p"] that q by (simp add: nth_upt not_less del: upt_Suc)
qed

lemma nextp_cong: "(\<And>r. p < r \<Longrightarrow> r \<le> n \<Longrightarrow> H r = H' r) \<Longrightarrow> nextp H n i p = nextp H' n i p"
  unfolding nextp_def by (rule find_cong) auto

lemma lastpI:
  assumes "p \<le> D" "i < H p" "\<And>q. p < q \<Longrightarrow> q \<le> D \<Longrightarrow> H q \<le> i"
  shows "lastp H i D = p"
  unfolding lastp_def
proof (rule Max_eqI)
  show "q \<le> p" if "q \<in> {q. q \<le> D \<and> i < H q}" for q
    using that assms(3) [of q] by (auto simp: not_le [symmetric])
qed (use assms in auto)

lemma lastpD:
  assumes "i < H 0"
  shows "lastp H i D \<le> D" "i < H (lastp H i D)" "lastp H i D < q \<Longrightarrow> q \<le> D \<Longrightarrow> H q \<le> i"
proof -
  have "lastp H i D \<in> {q. q \<le> D \<and> i < H q}" unfolding lastp_def by (rule Max_in) (use assms in auto)
  then show "lastp H i D \<le> D" "i < H (lastp H i D)" by simp_all
  show "H q \<le> i" if "lastp H i D < q" "q \<le> D"
  proof (rule ccontr)
    assume "\<not> H q \<le> i"
    then have "q \<le> lastp H i D" unfolding lastp_def by (intro Max_ge) (use that in auto)
    then show False using that by simp
  qed
qed

lemma lastp_self: "i < H D \<Longrightarrow> lastp H i D = D"
  by (rule lastpI) auto

section \<open>Views of the heap\<close>

definition meta :: "'s zskiplist \<Rightarrow> nat \<Rightarrow> (bytes option \<times> 's \<times> nat) option" where
  "meta z a = map_option (\<lambda>n. (zobj n, zscore n, length (level n))) (znodes z a)"

definition bwd :: "'s zskiplist \<Rightarrow> nat \<Rightarrow> nat option option" where
  "bwd z a = map_option backward (znodes z a)"

definition rest :: "'s zskiplist \<Rightarrow> nat \<times> nat option \<times> nat \<times> nat" where
  "rest z = (header z, tail z, zlength z, zlevel z)"

lemma slot_meta: "slot z a i \<noteq> None \<longleftrightarrow> (\<exists>ob s n. meta z a = Some (ob, s, n) \<and> i < n)"
  by (auto simp: slot_def meta_def split: option.splits)

lemma set_slot_spec:
  assumes "slot z a i \<noteq> None"
  shows "\<exists>z'. set_slot z a i v = Some z' \<and> slot z' = (slot z)(a := (slot z a)(i := Some v)) \<and> meta z' = meta z \<and>
    bwd z' = bwd z \<and> rest z' = rest z"
  using assms
  by (auto simp: set_slot_def slot_def meta_def bwd_def rest_def fun_eq_iff nth_list_update split: option.splits if_splits)

lemma set_backward_spec:
  assumes "meta z a \<noteq> None"
  shows "\<exists>z'. set_backward z a b = Some z' \<and> slot z' = slot z \<and> meta z' = meta z \<and>
    bwd z' = (bwd z)(a := Some b) \<and> rest z' = rest z"
  using assms
  by (auto simp: set_backward_def slot_def meta_def bwd_def rest_def fun_eq_iff split: option.splits)

section \<open>Representation\<close>

definition link :: "nat \<Rightarrow> 's zelem list \<Rightarrow> nat \<Rightarrow> nat \<Rightarrow> nat option \<times> nat" where
  "link h es i p =
    (case nextp (phgt es) (length es) i p of
       None \<Rightarrow> (None, length es - p)
     | Some q \<Rightarrow> (Some (paddr h es q), q - p))"

text \<open>The elements are in order, their addresses differ, and their heights are at most \<open>L\<close>,
  which is the largest one (or 1).\<close>

definition elems_ok :: "nat \<Rightarrow> nat \<Rightarrow> 's::linorder zelem list \<Rightarrow> bool" where
  "elems_ok h L es \<longleftrightarrow> sorted_wrt (\<lambda>e f. zlt (e_score e) (e_obj e) (e_score f) (e_obj f)) es
    \<and> distinct (h # map e_addr es) \<and> (\<forall>e \<in> set es. 1 \<le> e_height e \<and> e_height e \<le> L)
    \<and> 1 \<le> L \<and> L \<le> ZSKIPLIST_MAXLEVEL \<and> (1 < L \<longrightarrow> (\<exists>e \<in> set es. e_height e = L))"

definition zsl_rep :: "'s::linorder zskiplist \<Rightarrow> 's zelem list \<Rightarrow> bool" where
  "zsl_rep z es \<longleftrightarrow> elems_ok (header z) (zlevel z) es
    \<and> (\<exists>s. meta z (header z) = Some (None, s, ZSKIPLIST_MAXLEVEL))
    \<and> (\<forall>e \<in> set es. meta z (e_addr e) = Some (Some (e_obj e), e_score e, e_height e))
    \<and> (\<forall>a. a \<noteq> header z \<and> a \<notin> e_addr ` set es \<longrightarrow> meta z a = None)
    \<and> (\<forall>p \<le> length es. \<forall>i < min (phgt es p) (zlevel z). slot z (paddr (header z) es p) i = Some (link (header z) es i p))
    \<and> (\<forall>i. zlevel z \<le> i \<and> i < ZSKIPLIST_MAXLEVEL \<longrightarrow> (\<exists>sp. slot z (header z) i = Some (None, sp)))
    \<and> (\<forall>p. 1 \<le> p \<and> p \<le> length es \<longrightarrow>
        bwd z (paddr (header z) es p) = Some (if p = 1 then None else Some (paddr (header z) es (p - 1))))
    \<and> tail z = (if es = [] then None else Some (paddr (header z) es (length es))) \<and> zlength z = length es"

lemma zsl_repD:
  assumes "zsl_rep z es"
  shows "elems_ok (header z) (zlevel z) es" "zlength z = length es"
    "tail z = (if es = [] then None else Some (paddr (header z) es (length es)))"
    "p \<le> length es \<Longrightarrow> i < phgt es p \<Longrightarrow> i < zlevel z \<Longrightarrow> slot z (paddr (header z) es p) i = Some (link (header z) es i p)"
    "zlevel z \<le> i \<Longrightarrow> i < ZSKIPLIST_MAXLEVEL \<Longrightarrow> \<exists>sp. slot z (header z) i = Some (None, sp)"
    "1 \<le> p \<Longrightarrow> p \<le> length es \<Longrightarrow>
      bwd z (paddr (header z) es p) = Some (if p = 1 then None else Some (paddr (header z) es (p - 1)))"
  using assms unfolding zsl_rep_def by auto

lemma elems_okD:
  assumes "elems_ok h L es"
  shows "phgt es p \<le> ZSKIPLIST_MAXLEVEL \<or> length es < p" "1 \<le> p \<Longrightarrow> p \<le> length es \<Longrightarrow> phgt es p \<le> L"
    "p \<le> length es \<Longrightarrow> 1 \<le> phgt es p" "1 \<le> L" "L \<le> ZSKIPLIST_MAXLEVEL"
proof -
  have "es ! (p - 1) \<in> set es" if "1 \<le> p" "p \<le> length es" using that by simp
  then show "phgt es p \<le> ZSKIPLIST_MAXLEVEL \<or> length es < p" "1 \<le> p \<Longrightarrow> p \<le> length es \<Longrightarrow> phgt es p \<le> L"
    "p \<le> length es \<Longrightarrow> 1 \<le> phgt es p" "1 \<le> L" "L \<le> ZSKIPLIST_MAXLEVEL"
    using assms by (fastforce simp: elems_ok_def phgt_def ZSKIPLIST_MAXLEVEL_def)+
qed

text \<open>Different positions have different addresses.\<close>

lemma paddr_inj:
  assumes "elems_ok h L es" "p \<le> length es" "q \<le> length es"
  shows "paddr h es p = paddr h es q \<longleftrightarrow> p = q"
proof -
  have "distinct (h # map e_addr es)" using assms(1) by (simp add: elems_ok_def)
  moreover have "paddr h es r = (h # map e_addr es) ! r" if "r \<le> length es" for r
    using that by (cases r) (simp_all add: paddr_def)
  ultimately show ?thesis using assms(2,3) by (simp add: nth_eq_iff_index_eq del: distinct.simps)
qed

lemma node_at:
  assumes "zsl_rep z es" "1 \<le> p" "p \<le> length es"
  shows "\<exists>n. znodes z (paddr (header z) es p) = Some n \<and> zobj n = Some (e_obj (es ! (p - 1))) \<and>
    zscore n = e_score (es ! (p - 1)) \<and> length (level n) = e_height (es ! (p - 1))"
proof -
  have "meta z (e_addr (es ! (p - 1))) = Some (Some (e_obj (es ! (p - 1))), e_score (es ! (p - 1)), e_height (es ! (p - 1)))"
    using assms unfolding zsl_rep_def by auto
  then show ?thesis using assms(2) by (auto simp: meta_def paddr_def)
qed

section \<open>Searching\<close>

text \<open>The condition of a walk holds exactly for the positions up to \<open>D\<close>.\<close>

definition goes_to :: "(nat \<Rightarrow> nat \<Rightarrow> 's zslNode \<Rightarrow> bool option) \<Rightarrow> 's::linorder zskiplist \<Rightarrow> 's zelem list \<Rightarrow> nat \<Rightarrow> bool" where
  "goes_to cnd z es D \<longleftrightarrow> D \<le> length es \<and> (\<forall>p q n. p < q \<and> q \<le> length es \<and> znodes z (paddr (header z) es q) = Some n \<longrightarrow>
    cnd p (q - p) n = Some (q \<le> D))"

lemma walk_spec:
  assumes rep: "zsl_rep z es" and i: "i < zlevel z" and g: "goes_to cnd z es D" and M: "length es < M"
  shows "p \<le> D \<Longrightarrow> i < phgt es p \<Longrightarrow>
    zsl_walk M cnd z i (paddr (header z) es p) p = Some (paddr (header z) es (lastp (phgt es) i D), lastp (phgt es) i D)"
proof (induction "D - p" arbitrary: p rule: less_induct)
  case less
  have D: "D \<le> length es" using g by (simp add: goes_to_def)
  have p: "p \<le> length es" using less.prems D by simp
  have s: "slot z (paddr (header z) es p) i = Some (link (header z) es i p)"
    by (rule zsl_repD(4) [OF rep p less.prems(2) i])
  show ?case
  proof (cases "nextp (phgt es) (length es) i p")
    case None
    then have "lastp (phgt es) i D = p" using less.prems D by (intro lastpI) (auto simp: nextp_None)
    then show ?thesis using s None by (simp add: zsl_walk.simps [of M cnd z i] link_def)
  next
    case (Some q)
    note q = nextp_SomeD [OF Some]
    obtain n where n: "znodes z (paddr (header z) es q) = Some n" using node_at [OF rep, of q] q by auto
    have c: "cnd p (q - p) n = Some (q \<le> D)" using g q(1,2) n by (simp add: goes_to_def)
    have l: "slot z (paddr (header z) es p) i = Some (Some (paddr (header z) es q), q - p)" using s Some by (simp add: link_def)
    show ?thesis
    proof (cases "q \<le> D")
      case True
      have "uadd M p (q - p) = q" using q(1,2) M by (simp add: uadd_def)
      moreover have "D - q < D - p" using True q(1) by simp
      ultimately show ?thesis
        using less.hyps [of q] True q(3) l n c by (simp add: zsl_walk.simps [of M cnd z i "paddr (header z) es p"])
    next
      case False
      have "lastp (phgt es) i D = p"
        using less.prems False q(4) by (intro lastpI) auto
      then show ?thesis using l n c False by (simp add: zsl_walk.simps [of M cnd z i "paddr (header z) es p"])
    qed
  qed
qed

definition preds :: "nat \<Rightarrow> 's zelem list \<Rightarrow> nat \<Rightarrow> nat \<Rightarrow> (nat \<times> nat) list" where
  "preds h es D i = map (\<lambda>j. (paddr h es (lastp (phgt es) j D), lastp (phgt es) j D)) [0..<i]"

lemma search_spec:
  assumes rep: "zsl_rep z es" and g: "goes_to cnd z es D" and M: "length es < M"
  shows "i \<le> zlevel z \<Longrightarrow> p \<le> D \<Longrightarrow> i \<le> phgt es p \<Longrightarrow>
    zsl_search M cnd z i (paddr (header z) es p) p us =
      Some (let q = (if i = 0 then p else lastp (phgt es) 0 D) in (paddr (header z) es q, q, preds (header z) es D i @ us))"
proof (induction i arbitrary: p us)
  case 0
  then show ?case by (simp add: preds_def)
next
  case (Suc i)
  let ?q = "lastp (phgt es) i D"
  have "i < phgt es 0" using Suc.prems(1) elems_okD(5) [OF zsl_repD(1) [OF rep]] by (simp add: phgt_def)
  note q = lastpD [where H = "phgt es", OF this, of D]
  have w: "zsl_walk M cnd z i (paddr (header z) es p) p = Some (paddr (header z) es ?q, ?q)"
    using walk_spec [OF rep _ g M] Suc.prems by simp
  have "i \<le> zlevel z" "i \<le> phgt es ?q" using Suc.prems(1) q(2) by simp_all
  from Suc.IH [OF this(1) q(1) this(2)] show ?case by (simp add: w preds_def Let_def)
qed

lemma search_from_header:
  assumes "zsl_rep z es" "goes_to cnd z es D" "length es < M"
  shows "zsl_search M cnd z (zlevel z) (header z) 0 [] = Some (paddr (header z) es D, D, preds (header z) es D (zlevel z))"
proof -
  have ok: "elems_ok (header z) (zlevel z) es" by (rule zsl_repD(1) [OF assms(1)])
  have "D \<le> length es" using assms(2) by (simp add: goes_to_def)
  then have "lastp (phgt es) 0 D = D" using elems_okD(3) [OF ok, of D] by (intro lastp_self) simp
  then show ?thesis
    using search_spec [OF assms, of "zlevel z" 0 "[]"] elems_okD(4,5) [OF ok] by (simp add: paddr_def phgt_def Let_def)
qed

lemma takeWhile_prefix:
  assumes "\<And>i j. i < j \<Longrightarrow> j < length xs \<Longrightarrow> P (xs ! j) \<Longrightarrow> P (xs ! i)" "i < length xs"
  shows "i < length (takeWhile P xs) \<longleftrightarrow> P (xs ! i)"
proof (cases "length (takeWhile P xs) \<le> i")
  case True
  define t where "t = length (takeWhile P xs)"
  have "\<not> P (xs ! t)" unfolding t_def by (rule nth_length_takeWhile) (use True assms(2) in simp)
  then have "\<not> P (xs ! i)" using assms(1) [of t i] True assms(2) unfolding t_def [symmetric] by (cases "t = i") auto
  then show ?thesis using True by simp
next
  case False
  then have "P (takeWhile P xs ! i)" using set_takeWhileD nth_mem not_le by metis
  then show ?thesis using False by (simp add: takeWhile_nth)
qed

lemma goes_to_elems:
  assumes rep: "zsl_rep z es"
    and P: "\<And>t sp n e. zobj n = Some (e_obj e) \<Longrightarrow> zscore n = e_score e \<Longrightarrow> cnd t sp n = Some (P e)"
    and down: "\<And>i j. i < j \<Longrightarrow> j < length es \<Longrightarrow> P (es ! j) \<Longrightarrow> P (es ! i)"
  shows "goes_to cnd z es (length (takeWhile P es))"
  unfolding goes_to_def
proof (intro conjI allI impI)
  show "length (takeWhile P es) \<le> length es" by (rule length_takeWhile_le)
  fix p q n
  assume a: "p < q \<and> q \<le> length es \<and> znodes z (paddr (header z) es q) = Some n"
  then have q: "q - 1 < length es" "1 \<le> q" by (cases q; simp)+
  obtain n' where "znodes z (paddr (header z) es q) = Some n'" "zobj n' = Some (e_obj (es ! (q - 1)))" "zscore n' = e_score (es ! (q - 1))"
    using node_at [OF rep q(2)] a by blast
  then have "cnd p (q - p) n = Some (P (es ! (q - 1)))" using P a by simp
  moreover have "q \<le> length (takeWhile P es) \<longleftrightarrow> q - 1 < length (takeWhile P es)" using q(2) by auto
  ultimately show "cnd p (q - p) n = Some (q \<le> length (takeWhile P es))"
    using takeWhile_prefix [of es P, OF down q(1)] by simp
qed

definition before :: "'s::linorder \<Rightarrow> bytes \<Rightarrow> 's zelem \<Rightarrow> bool" where
  "before s ob e \<longleftrightarrow> zlt (e_score e) (e_obj e) s ob"

lemma elems_sorted:
  "elems_ok h L es \<Longrightarrow> i < j \<Longrightarrow> j < length es \<Longrightarrow> zlt (e_score (es ! i)) (e_obj (es ! i)) (e_score (es ! j)) (e_obj (es ! j))"
  by (auto simp: elems_ok_def sorted_wrt_iff_nth_less)

lemma goes_before:
  assumes "zsl_rep z es"
  shows "goes_to (zsl_before s ob) z es (length (takeWhile (before s ob) es))"
proof (rule goes_to_elems [OF assms])
  show "before s ob (es ! i)" if "i < j" "j < length es" "before s ob (es ! j)" for i j
    using elems_sorted [OF zsl_repD(1) [OF assms] that(1,2)] that(3) zlt_trans by (simp add: before_def) blast
qed (auto simp: zsl_before_def before_def zlt_def compareStringObjects_spec)

section \<open>Links of a list with one more element\<close>

definition ins_at :: "nat \<Rightarrow> 'a \<Rightarrow> 'a list \<Rightarrow> 'a list" where
  "ins_at D e es = take D es @ e # drop D es"

lemma ins_at_simps [simp]: "D \<le> length es \<Longrightarrow> length (ins_at D e es) = Suc (length es)" "set (ins_at D e es) = insert e (set es)"
  by (simp_all add: ins_at_def) (metis append_take_drop_id insert_is_Un set_append sup_left_commute)

lemma ins_at_Nil [simp]: "ins_at D e es \<noteq> []"
  by (simp add: ins_at_def)

lemma nth_ins_at: "D \<le> length es \<Longrightarrow> j \<le> length es \<Longrightarrow> ins_at D e es ! j = (if j < D then es ! j else if j = D then e else es ! (j - 1))"
  by (auto simp: ins_at_def nth_append nth_Cons' min_def)

lemma pos_ins_at:
  assumes "D \<le> length es" "p \<le> Suc (length es)"
  shows "phgt (ins_at D e es) p = (if p \<le> D then phgt es p else if p = Suc D then e_height e else phgt es (p - 1))"
    "paddr h (ins_at D e es) p = (if p \<le> D then paddr h es p else if p = Suc D then e_addr e else paddr h es (p - 1))"
proof -
  have "ins_at D e es ! (p - 1) = (if p - 1 < D then es ! (p - 1) else if p - 1 = D then e else es ! (p - 1 - 1))" if "p \<noteq> 0"
    using nth_ins_at [OF assms(1), of "p - 1" e] assms(2) that by simp
  then show "phgt (ins_at D e es) p = (if p \<le> D then phgt es p else if p = Suc D then e_height e else phgt es (p - 1))"
    "paddr h (ins_at D e es) p = (if p \<le> D then paddr h es p else if p = Suc D then e_addr e else paddr h es (p - 1))"
    using assms by (auto simp: phgt_def paddr_def)
qed

text \<open>Heights \<open>H'\<close> that are those of \<open>H\<close> with one more at position \<open>D + 1\<close>.\<close>

definition shift :: "nat \<Rightarrow> nat \<Rightarrow> nat" where
  "shift D q = (if q \<le> D then q else Suc q)"

lemma nextp_shift:
  assumes H': "\<And>r. r \<le> Suc n \<Longrightarrow> H' r = (if r \<le> D then H r else if r = Suc D then l else H (r - 1))" and "D \<le> n"
    and "p' = shift D p \<and> (D < p \<or> l \<le> i) \<or> p' = Suc D \<and> p = lastp H i D \<and> i < H 0"
  shows "nextp H' (Suc n) i p' = map_option (shift D) (nextp H n i p)"
proof (cases "nextp H n i p")
  case None
  have "H' r \<le> i" if r: "p' < r" "r \<le> Suc n" for r
  proof -
    consider "r \<le> D" | "r = Suc D" | "Suc D < r" by linarith
    then show ?thesis
    proof cases
      case 1
      then have "p < r" using r assms(3) by (auto simp: shift_def split: if_splits)
      then show ?thesis using 1 H' [OF r(2)] None \<open>D \<le> n\<close> by (simp add: nextp_None)
    next
      case 2
      then show ?thesis using r H' [OF r(2)] assms(3) by (auto simp: shift_def split: if_splits)
    next
      case 3
      then have "p < r - 1" using r assms(3) lastpD(1) [of i H D] by (auto simp: shift_def split: if_splits)
      then show ?thesis using 3 r H' [OF r(2)] None by (simp add: nextp_None)
    qed
  qed
  then have "nextp H' (Suc n) i p' = None" by (simp add: nextp_None)
  then show ?thesis using None by simp
next
  case (Some q)
  note q = nextp_SomeD [OF Some]
  have "nextp H' (Suc n) i p' = Some (shift D q)"
  proof (rule nextp_SomeI)
    have lq: "D < q" if "p = lastp H i D" "i < H 0"
      using lastpD(3) [where H = H and i = i, OF that(2), of D q] that(1) q(1,3) by (meson not_le)
    show "p' < shift D q" using assms(3) q(1) lq by (auto simp: shift_def split: if_splits)
    show "shift D q \<le> Suc n" using q(2) by (simp add: shift_def)
    then show "i < H' (shift D q)" using q(3) H' [of "shift D q"] by (simp add: shift_def split: if_splits)
    show "H' r \<le> i" if r: "p' < r" "r < shift D q" for r
    proof -
      have "r \<le> Suc n" using r \<open>shift D q \<le> Suc n\<close> by simp
      note H' = H' [OF this]
      consider "r \<le> D" | "r = Suc D" | "Suc D < r" by linarith
      then show ?thesis
      proof cases
        case 1
        then have "p < r" "r < q" using r assms(3) by (auto simp: shift_def split: if_splits)
        then show ?thesis using 1 H' q(4) by simp
      next
        case 2
        then show ?thesis using r H' assms(3) by (auto simp: shift_def split: if_splits)
      next
        case 3
        then have "p < r - 1" "r - 1 < q" using r assms(3) lastpD(1) [of i H D] by (auto simp: shift_def split: if_splits)
        then show ?thesis using 3 H' q(4) by simp
      qed
    qed
  qed
  then show ?thesis using Some by simp
qed

lemma link_ins_at:
  assumes D: "D \<le> length es" and i: "i < phgt es 0" and p: "p \<le> Suc (length es)" "i < phgt (ins_at D e es) p"
  shows "link h (ins_at D e es) i p =
    (let q = lastp (phgt es) i D in
     if p \<le> D then
       (if p \<noteq> q then link h es i p
        else if i < e_height e then (Some (e_addr e), Suc D - q)
        else (fst (link h es i q), Suc (snd (link h es i q))))
     else if p = Suc D then (fst (link h es i q), snd (link h es i q) - (D - q))
     else link h es i (p - 1))"
proof -
  define q where "q = lastp (phgt es) i D"
  note lq = lastpD [where H = "phgt es", OF i, of D, folded q_def]
  have H': "r \<le> Suc (length es) \<Longrightarrow>
      phgt (ins_at D e es) r = (if r \<le> D then phgt es r else if r = Suc D then e_height e else phgt es (r - 1))" for r
    by (rule pos_ins_at(1) [OF D])
  have addr: "paddr h (ins_at D e es) (shift D r) = paddr h es r" if "r \<le> length es" for r
    using pos_ins_at(2) [OF D, of "shift D r" h e] that D by (auto simp: shift_def)
  have beyond: "D < r" if "nextp (phgt es) (length es) i q = Some r" for r
    using nextp_SomeD [OF that] lq(3) [of r] by (meson not_le)
  consider "p \<le> D" "p \<noteq> q" | "p = q" "i < e_height e" | "p = q" "e_height e \<le> i" | "p = Suc D" | "Suc D < p" by linarith
  then show ?thesis
  proof cases
    case 1
    then have "p < q" using p(2) H' [OF p(1)] lq(3) [of p] lq(1) by (cases "p < q") auto
    define r where "r = (LEAST r. p < r \<and> i < phgt es r)"
    have r: "p < r" "i < phgt es r" "r \<le> q" "\<And>t. p < t \<Longrightarrow> t < r \<Longrightarrow> phgt es t \<le> i"
    proof -
      show "p < r" "i < phgt es r" using LeastI [of "\<lambda>r. p < r \<and> i < phgt es r" q] \<open>p < q\<close> lq(2) by (simp_all add: r_def)
      show "r \<le> q" unfolding r_def by (rule Least_le) (use \<open>p < q\<close> lq(2) in simp)
      show "phgt es t \<le> i" if "p < t" "t < r" for t
        using not_less_Least [of t "\<lambda>r. p < r \<and> i < phgt es r"] that by (simp add: r_def)
    qed
    have "nextp (phgt es) (length es) i p = Some r" using r lq(1) D by (intro nextp_SomeI) auto
    moreover have "nextp (phgt (ins_at D e es)) (Suc (length es)) i p = Some r"
      using r lq(1) D by (intro nextp_SomeI) (auto simp: H')
    moreover have "paddr h (ins_at D e es) r = paddr h es r" using pos_ins_at(2) [OF D, of r h e] r(3) lq(1) D by simp
    ultimately show ?thesis using 1 D by (simp add: link_def flip: q_def)
  next
    case 2
    have "nextp (phgt (ins_at D e es)) (Suc (length es)) i p = Some (Suc D)"
      using 2 lq D by (intro nextp_SomeI) (auto simp: H')
    then show ?thesis using 2 lq(1) D pos_ins_at(2) [OF D, of "Suc D" h e] by (simp add: link_def flip: q_def)
  next
    case 3
    have "nextp (phgt (ins_at D e es)) (Suc (length es)) i p = map_option (shift D) (nextp (phgt es) (length es) i p)"
      by (rule nextp_shift [where l = "e_height e", OF H' D]) (use 3 lq(1) in \<open>simp_all add: shift_def\<close>)
    then show ?thesis
      using 3 lq(1) D addr beyond nextp_SomeD(2) [of "phgt es" "length es" i p]
      by (auto simp: link_def shift_def Suc_diff_le simp flip: q_def split: option.splits)
  next
    case 4
    have "nextp (phgt (ins_at D e es)) (Suc (length es)) i p = map_option (shift D) (nextp (phgt es) (length es) i q)"
      by (rule nextp_shift [where l = "e_height e", OF H' D]) (use 4 i in \<open>simp_all add: q_def\<close>)
    then show ?thesis
      using 4 lq(1) D addr beyond nextp_SomeD(2) [of "phgt es" "length es" i q]
      by (auto simp: link_def shift_def simp flip: q_def split: option.splits)
  next
    case 5
    have "nextp (phgt (ins_at D e es)) (Suc (length es)) i p = map_option (shift D) (nextp (phgt es) (length es) i (p - 1))"
      by (rule nextp_shift [where l = "e_height e", OF H' D]) (use 5 in \<open>auto simp: shift_def\<close>)
    then show ?thesis
      using 5 D addr nextp_SomeD(1,2) [of "phgt es" "length es" i "p - 1"]
      by (auto simp: link_def shift_def simp flip: q_def split: option.splits)
  qed
qed

section \<open>The loops over the levels\<close>

text \<open>\<open>alike z z'\<close>: the states differ in slots only.\<close>

definition alike :: "'s zskiplist \<Rightarrow> 's zskiplist \<Rightarrow> bool" where
  "alike z z' \<longleftrightarrow> meta z' = meta z \<and> bwd z' = bwd z \<and> rest z' = rest z"

lemma alikeD:
  assumes "alike z z'"
  shows "meta z' = meta z" "bwd z' = bwd z" "header z' = header z" "tail z' = tail z" "zlength z' = zlength z" "zlevel z' = zlevel z"
    "slot z' a i \<noteq> None \<longleftrightarrow> slot z a i \<noteq> None"
  using assms slot_meta [of z' a i] slot_meta [of z a i] by (simp_all add: alike_def rest_def del: not_None_eq)

lemma alike_trans: "alike z z1 \<Longrightarrow> alike z1 z2 \<Longrightarrow> alike z z2"
  by (simp add: alike_def)

lemma alike_refl [simp]: "alike z z"
  by (simp add: alike_def)

lemma set_slot_alike:
  assumes "slot z a i \<noteq> None"
  shows "\<exists>z'. set_slot z a i v = Some z' \<and> alike z z' \<and> (\<forall>b j. slot z' b j = (if b = a \<and> j = i then Some v else slot z b j))"
  using set_slot_spec [OF assms, of v] by (auto simp: alike_def)

lemma zsl_raise_spec:
  "(\<And>i. i \<in> set is \<Longrightarrow> slot z (header z) i \<noteq> None) \<Longrightarrow> distinct is \<Longrightarrow>
    \<exists>z'. zsl_raise is z = Some z' \<and> alike z z' \<and>
      (\<forall>a i. slot z' a i = (if a = header z \<and> i \<in> set is then Some (fst (the (slot z a i)), zlength z mod U32) else slot z a i))"
proof (induction "is" arbitrary: z)
  case (Cons i js)
  obtain f sp where s: "slot z (header z) i = Some (f, sp)" using Cons.prems(1) [of i] by auto
  then obtain z1 where z1: "set_slot z (header z) i (f, zlength z mod U32) = Some z1" "alike z z1"
    "\<And>b j. slot z1 b j = (if b = header z \<and> j = i then Some (f, zlength z mod U32) else slot z b j)"
    using set_slot_alike [of z "header z" i "(f, zlength z mod U32)"] by auto
  have h: "header z1 = header z" "zlength z1 = zlength z" using alikeD [OF z1(2)] by simp_all
  have "slot z1 (header z1) j \<noteq> None" if "j \<in> set js" for j
    using Cons.prems(1) [of j] alikeD(7) [OF z1(2)] that h by simp
  then obtain z2 where z2: "zsl_raise js z1 = Some z2" "alike z1 z2"
    "\<And>a j. slot z2 a j = (if a = header z1 \<and> j \<in> set js then Some (fst (the (slot z1 a j)), zlength z1 mod U32) else slot z1 a j)"
    using Cons.IH [of z1] Cons.prems(2) by auto
  have "slot z2 a j = (if a = header z \<and> j \<in> set (i # js) then Some (fst (the (slot z a j)), zlength z mod U32) else slot z a j)" for a j
    using Cons.prems(2) s by (auto simp: z2(3) z1(3) h)
  then show ?case using s z1(1) z2(1) alike_trans [OF z1(2) z2(2)] by simp
qed simp

text \<open>A loop whose step on level \<open>i\<close> writes the slot \<open>i\<close> of the predecessor only.\<close>

lemma zsl_widen_spec:
  "(\<And>i. i \<in> set is \<Longrightarrow> slot z (fst (us ! i)) i \<noteq> None) \<Longrightarrow> distinct is \<Longrightarrow>
    \<exists>z'. zsl_widen us is z = Some z' \<and> alike z z' \<and>
      (\<forall>a i. slot z' a i = (if i \<in> set is \<and> a = fst (us ! i)
        then (let (f, sp) = the (slot z a i) in Some (f, uadd U32 sp 1)) else slot z a i))"
proof (induction "is" arbitrary: z)
  case (Cons i js)
  obtain f sp where s: "slot z (fst (us ! i)) i = Some (f, sp)" using Cons.prems(1) [of i] by auto
  then obtain z1 where z1: "set_slot z (fst (us ! i)) i (f, uadd U32 sp 1) = Some z1" "alike z z1"
    "\<And>b j. slot z1 b j = (if b = fst (us ! i) \<and> j = i then Some (f, uadd U32 sp 1) else slot z b j)"
    using set_slot_alike [of z "fst (us ! i)" i "(f, uadd U32 sp 1)"] by auto
  have "slot z1 (fst (us ! j)) j \<noteq> None" if "j \<in> set js" for j
    using Cons.prems(1) [of j] alikeD(7) [OF z1(2)] that by simp
  then obtain z2 where z2: "zsl_widen us js z1 = Some z2" "alike z1 z2"
    "\<And>a j. slot z2 a j = (if j \<in> set js \<and> a = fst (us ! j)
        then (let (f, sp) = the (slot z1 a j) in Some (f, uadd U32 sp 1)) else slot z1 a j)"
    using Cons.IH [of z1] Cons.prems(2) by auto
  have "slot z2 a j = (if j \<in> set (i # js) \<and> a = fst (us ! j)
        then (let (f, sp) = the (slot z a j) in Some (f, uadd U32 sp 1)) else slot z a j)" for a j
    using Cons.prems(2) s by (auto simp: z2(3) z1(3))
  then show ?case using s z1(1) z2(1) alike_trans [OF z1(2) z2(2)] by simp
qed simp

lemma zsl_link_spec:
  "(\<And>i. i \<in> set is \<Longrightarrow> slot z (fst (us ! i)) i \<noteq> None \<and> slot z x i \<noteq> None \<and> fst (us ! i) \<noteq> x) \<Longrightarrow> distinct is \<Longrightarrow>
    \<exists>z'. zsl_link x us is z = Some z' \<and> alike z z' \<and>
      (\<forall>a i. slot z' a i =
        (let crossed = usub U32 (snd (us ! 0)) (snd (us ! i)); (f, sp) = the (slot z (fst (us ! i)) i) in
         if i \<in> set is \<and> a = x then Some (f, usub U32 sp crossed)
         else if i \<in> set is \<and> a = fst (us ! i) then Some (Some x, uadd U32 crossed 1)
         else slot z a i))"
proof (induction "is" arbitrary: z)
  case Nil
  then show ?case by (auto simp: Let_def split: prod.split)
next
  case (Cons i js)
  obtain u r where u: "us ! i = (u, r)" by (cases "us ! i")
  let ?c = "usub U32 (snd (us ! 0)) r"
  obtain f sp where s: "slot z u i = Some (f, sp)" using Cons.prems(1) [of i] by (auto simp: u)
  have ux: "u \<noteq> x" "slot z x i \<noteq> None" using Cons.prems(1) [of i] by (simp_all add: u)
  obtain z1 where z1: "set_slot z x i (f, usub U32 sp ?c) = Some z1" "alike z z1"
    "\<And>b j. slot z1 b j = (if b = x \<and> j = i then Some (f, usub U32 sp ?c) else slot z b j)"
    using set_slot_alike [OF ux(2)] by blast
  have "slot z1 u i \<noteq> None" using s by (simp add: z1(3))
  then obtain z2 where z2: "set_slot z1 u i (Some x, uadd U32 ?c 1) = Some z2" "alike z1 z2"
    "\<And>b j. slot z2 b j = (if b = u \<and> j = i then Some (Some x, uadd U32 ?c 1) else slot z1 b j)"
    using set_slot_alike by blast
  have "slot z2 (fst (us ! j)) j \<noteq> None \<and> slot z2 x j \<noteq> None \<and> fst (us ! j) \<noteq> x" if "j \<in> set js" for j
    using Cons.prems(1) [of j] alikeD(7) [OF z1(2)] alikeD(7) [OF z2(2)] that by simp
  then obtain z3 where z3: "zsl_link x us js z2 = Some z3" "alike z2 z3"
    "\<And>a j. slot z3 a j =
        (let crossed = usub U32 (snd (us ! 0)) (snd (us ! j)); (f, sp) = the (slot z2 (fst (us ! j)) j) in
         if j \<in> set js \<and> a = x then Some (f, usub U32 sp crossed)
         else if j \<in> set js \<and> a = fst (us ! j) then Some (Some x, uadd U32 crossed 1)
         else slot z2 a j)"
    using Cons.IH [of z2] Cons.prems(2) by auto
  have "slot z3 a j =
        (let crossed = usub U32 (snd (us ! 0)) (snd (us ! j)); (f, sp) = the (slot z (fst (us ! j)) j) in
         if j \<in> set (i # js) \<and> a = x then Some (f, usub U32 sp crossed)
         else if j \<in> set (i # js) \<and> a = fst (us ! j) then Some (Some x, uadd U32 crossed 1)
         else slot z a j)" for a j
  proof (cases "j = i")
    case True
    then show ?thesis using Cons.prems(2) s ux by (auto simp: z3(3) z2(3) z1(3) u Let_def split: prod.split)
  next
    case False
    have e: "slot z2 b j = slot z b j" for b using False by (simp add: z2(3) z1(3))
    have m: "j \<in> set (i # js) \<longleftrightarrow> j \<in> set js" using False by simp
    show ?thesis unfolding z3(3) e m ..
  qed
  then show ?case using s z1(1) z2(1) z3(1) alike_trans [OF alike_trans [OF z1(2) z2(2)] z3(2)] by (auto simp: u Let_def)
qed

lemma zsl_unlink_spec:
  "(\<And>i. i \<in> set is \<Longrightarrow> slot z (fst (us ! i)) i \<noteq> None \<and> fst (us ! i) \<noteq> x \<and>
      (fst (the (slot z (fst (us ! i)) i)) = Some x \<longrightarrow> slot z x i \<noteq> None)) \<Longrightarrow> distinct is \<Longrightarrow>
    \<exists>z'. zsl_unlink x us is z = Some z' \<and> alike z z' \<and>
      (\<forall>a i. slot z' a i = (if i \<in> set is \<and> a = fst (us ! i) then
          (let (f, sp) = the (slot z a i); (fx, sx) = the (slot z x i) in
           Some (if f = Some x then (fx, uadd U32 sp (usub U32 sx 1)) else (f, usub U32 sp 1)))
         else slot z a i))"
proof (induction "is" arbitrary: z)
  case (Cons i js)
  define u where "u = fst (us ! i)"
  obtain f sp where s: "slot z u i = Some (f, sp)" using Cons.prems(1) [of i] by (auto simp: u_def)
  have ux: "u \<noteq> x" "f = Some x \<Longrightarrow> slot z x i \<noteq> None" using Cons.prems(1) [of i] s by (simp_all add: u_def)
  define v where "v = (let (fx, sx) = the (slot z x i) in if f = Some x then (fx, uadd U32 sp (usub U32 sx 1)) else (f, usub U32 sp 1))"
  obtain z1 where z1: "set_slot z u i v = Some z1" "alike z z1"
    "\<And>b j. slot z1 b j = (if b = u \<and> j = i then Some v else slot z b j)"
    using set_slot_alike [of z u i v] s by auto
  have "slot z1 (fst (us ! j)) j \<noteq> None \<and> fst (us ! j) \<noteq> x \<and>
      (fst (the (slot z1 (fst (us ! j)) j)) = Some x \<longrightarrow> slot z1 x j \<noteq> None)" if j: "j \<in> set js" for j
  proof -
    have "j \<noteq> i" using Cons.prems(2) j by auto
    then show ?thesis using Cons.prems(1) [of j] j by (simp add: z1(3))
  qed
  then obtain z2 where z2: "zsl_unlink x us js z1 = Some z2" "alike z1 z2"
    "\<And>a j. slot z2 a j = (if j \<in> set js \<and> a = fst (us ! j) then
          (let (f, sp) = the (slot z1 a j); (fx, sx) = the (slot z1 x j) in
           Some (if f = Some x then (fx, uadd U32 sp (usub U32 sx 1)) else (f, usub U32 sp 1)))
         else slot z1 a j)"
    using Cons.IH [of z1] Cons.prems(2) by auto
  have "slot z2 a j = (if j \<in> set (i # js) \<and> a = fst (us ! j) then
          (let (f, sp) = the (slot z a j); (fx, sx) = the (slot z x j) in
           Some (if f = Some x then (fx, uadd U32 sp (usub U32 sx 1)) else (f, usub U32 sp 1)))
         else slot z a j)" for a j
  proof (cases "j = i")
    case True
    then show ?thesis using Cons.prems(2) s ux(1) by (auto simp: z2(3) z1(3) u_def [symmetric] v_def Let_def split: prod.split)
  next
    case False
    then show ?thesis by (simp add: z2(3) z1(3))
  qed
  moreover have "zsl_unlink x us (i # js) z = zsl_unlink x us js z1"
    using s ux(2) z1(1) by (auto simp: v_def Let_def simp flip: u_def split: prod.splits)
  ultimately show ?case using z2(1) alike_trans [OF z1(2) z2(2)] by simp
qed simp

section \<open>Insertion\<close>

lemma distinct_mid:
  "distinct (h # map f (xs @ ys)) \<Longrightarrow> f x \<noteq> h \<Longrightarrow> f x \<notin> f ` set (xs @ ys) \<Longrightarrow> distinct (h # map f (xs @ x # ys))"
  by auto

lemma distinct_rest: "distinct (h # map f (xs @ x # ys)) \<Longrightarrow> distinct (h # map f (xs @ ys))"
  by auto

lemma elems_ok_ins:
  assumes "elems_ok h L es" "x \<noteq> h" "x \<notin> e_addr ` set es" "1 \<le> lvl" "lvl \<le> ZSKIPLIST_MAXLEVEL"
    and new: "\<And>e. e \<in> set es \<Longrightarrow> \<not> (e_score e = s \<and> e_obj e = ob)"
    and D: "D = length (takeWhile (before s ob) es)"
  shows "elems_ok h (max L lvl) (ins_at D \<lparr>e_addr = x, e_height = lvl, e_score = s, e_obj = ob\<rparr> es)"
proof -
  let ?e = "\<lparr>e_addr = x, e_height = lvl, e_score = s, e_obj = ob\<rparr>"
  let ?R = "\<lambda>e f. zlt (e_score e) (e_obj e) (e_score f) (e_obj f)"
  have sorted: "sorted_wrt ?R es" using assms(1) by (simp add: elems_ok_def)
  have Dn: "D \<le> length es" unfolding D by (rule length_takeWhile_le)
  have take: "take D es = takeWhile (before s ob) es" unfolding D by (rule takeWhile_eq_take [symmetric])
  have lo: "?R f ?e" if "f \<in> set (take D es)" for f
    using set_takeWhileD [of f "before s ob" es] that by (simp add: take before_def)
  have hi: "?R ?e f" if f: "f \<in> set (drop D es)" for f
  proof -
    obtain j where "j < length (drop D es)" "drop D es ! j = f" using f unfolding in_set_conv_nth by blast
    then have j: "D + j < length es" "f = es ! (D + j)" by auto
    have "\<not> before s ob f"
    proof
      assume "before s ob f"
      moreover have "D + j < length (takeWhile (before s ob) es) \<longleftrightarrow> before s ob (es ! (D + j))"
      proof (rule takeWhile_prefix [OF _ j(1)])
        show "before s ob (es ! a)" if "a < b" "b < length es" "before s ob (es ! b)" for a b
          using elems_sorted [OF assms(1) that(1,2)] that(3) zlt_trans by (simp add: before_def) blast
      qed
      ultimately show False using j(2) D by simp
    qed
    moreover have "f \<in> set es" using f by (meson in_set_dropD)
    ultimately show ?thesis using zlt_total [of "e_score f" "e_obj f" s ob] new by (auto simp: before_def)
  qed
  have "sorted_wrt ?R (take D es @ ?e # drop D es)"
    unfolding sorted_wrt_append sorted_wrt.simps using sorted lo hi zlt_trans
    by (auto simp: sorted_wrt_take sorted_wrt_drop intro: zlt_trans)
  moreover have "distinct (h # map e_addr (take D es @ ?e # drop D es))"
    using distinct_mid [of h e_addr "take D es" "drop D es" ?e] assms(1,2,3) by (simp add: elems_ok_def)
  moreover have "\<exists>f \<in> insert ?e (set es). e_height f = max L lvl" if "1 < max L lvl"
    using assms(1) that by (cases "lvl \<le> L") (auto simp: elems_ok_def max_def)
  ultimately show ?thesis using assms(1,4,5) Dn by (auto simp: elems_ok_def ins_at_def [symmetric] max_def)
qed

lemma nextp_0:
  assumes "elems_ok h L es" "p \<le> length es"
  shows "nextp (phgt es) (length es) 0 p = (if p < length es then Some (Suc p) else None)"
  using elems_okD(3) [OF assms(1), of "Suc p"] by (auto simp: nextp_None intro: nextp_SomeI)

lemma lastp_0: "elems_ok h L es \<Longrightarrow> D \<le> length es \<Longrightarrow> lastp (phgt es) 0 D = D"
  using elems_okD(3) [of h L es D] by (intro lastp_self) simp

lemma high_level:
  assumes "elems_ok h L es" "L \<le> i" "i < ZSKIPLIST_MAXLEVEL" "D \<le> length es"
  shows "lastp (phgt es) i D = 0" "link h es i 0 = (None, length es)" "1 \<le> p \<Longrightarrow> p \<le> length es \<Longrightarrow> \<not> i < phgt es p"
proof -
  have le: "phgt es p \<le> i" if "1 \<le> p" "p \<le> length es" for p
    using elems_okD(2) [OF assms(1) that] assms(2) by simp
  show "lastp (phgt es) i D = 0" by (rule lastpI) (use assms le in \<open>auto simp: phgt_def\<close>)
  have "nextp (phgt es) (length es) i 0 = None" using le by (auto simp: nextp_None)
  then show "link h es i 0 = (None, length es)" by (simp add: link_def)
  show "\<not> i < phgt es p" if "1 \<le> p" "p \<le> length es" using le [OF that] by simp
qed

lemma preds_extend:
  assumes "elems_ok h L es" "D \<le> length es" "lvl \<le> ZSKIPLIST_MAXLEVEL"
  shows "preds h es D L @ replicate (lvl - L) (h, 0) = preds h es D (max L lvl)"
proof (rule nth_equalityI)
  fix i assume "i < length (preds h es D L @ replicate (lvl - L) (h, 0))"
  then have i: "i < max L lvl" by (simp add: preds_def)
  show "(preds h es D L @ replicate (lvl - L) (h, 0)) ! i = preds h es D (max L lvl) ! i"
  proof (cases "i < L")
    case True
    then show ?thesis using i by (simp add: preds_def nth_append nth_upt)
  next
    case False
    then have "lastp (phgt es) i D = 0" using i assms by (intro high_level(1) [OF assms(1)]) auto
    then show ?thesis using False i by (simp add: preds_def nth_append paddr_def)
  qed
qed (simp add: preds_def)

lemma nth_preds: "i < L \<Longrightarrow> preds h es D L ! i = (paddr h es (lastp (phgt es) i D), lastp (phgt es) i D)"
  by (simp add: preds_def)

lemma uarith:
  "b \<le> a \<Longrightarrow> a < M \<Longrightarrow> usub M a b = a - b" "a + b < M \<Longrightarrow> uadd M a b = a + b"
proof -
  show "usub M a b = a - b" if "b \<le> a" "a < M"
  proof -
    have "a + M - b = (a - b) + M" using that by simp
    then show ?thesis using that unfolding usub_def by (simp only: mod_add_self2) simp
  qed
qed (simp add: uadd_def)

lemma uadd_usub:
  assumes "1 \<le> a" "a + b - 1 < M"
  shows "uadd M a (usub M b 1) = a + b - 1"
proof -
  have "uadd M a (usub M b 1) = (a + (b + M - 1)) mod M" by (simp add: uadd_def usub_def mod_add_right_eq)
  also have "a + (b + M - 1) = (a + b - 1) + M" using assms by simp
  finally show ?thesis using assms(2) by simp
qed

text \<open>The distance to the next position beyond \<open>D\<close> covers the distance to \<open>D\<close>.\<close>

lemma link_last:
  assumes "i < phgt es 0" "D \<le> length es"
  shows "D - lastp (phgt es) i D \<le> snd (link h es i (lastp (phgt es) i D))" "snd (link h es i p) \<le> length es"
proof -
  let ?q = "lastp (phgt es) i D"
  show "D - ?q \<le> snd (link h es i ?q)"
  proof (cases "nextp (phgt es) (length es) i ?q")
    case (Some r)
    note r = nextp_SomeD [OF Some]
    have "D < r" using lastpD(3) [where H = "phgt es" and i = i, OF assms(1), of D r] r(1,3) by (meson not_le)
    then show ?thesis using Some by (simp add: link_def)
  qed (use assms in \<open>simp add: link_def\<close>)
  show "snd (link h es i p) \<le> length es"
    using nextp_SomeD(2) [of "phgt es" "length es" i p] by (auto simp: link_def split: option.splits)
qed

text \<open>The state behind \<open>zsl_link\<close> and \<open>zsl_widen\<close> has the links of the longer list.\<close>

lemma insert_links:
  assumes ok: "elems_ok h L es" and D: "D \<le> length es" and lvl: "1 \<le> lvl" "lvl \<le> ZSKIPLIST_MAXLEVEL" and len: "Suc (length es) < U32"
    and x: "x \<noteq> h" "x \<notin> e_addr ` set es" and L': "L' = max L lvl" and e: "e_addr e = x" "e_height e = lvl"
    and old: "\<And>p i. p \<le> length es \<Longrightarrow> i < phgt es p \<Longrightarrow> i < L' \<Longrightarrow> slot z (paddr h es p) i = Some (link h es i p)"
    and new: "\<And>i. i < lvl \<Longrightarrow> slot z x i \<noteq> None"
  shows "\<exists>z1 z2. zsl_link x (preds h es D L') [0..<lvl] z = Some z1 \<and> zsl_widen (preds h es D L') [lvl..<L'] z1 = Some z2 \<and>
    alike z z1 \<and> alike z z2 \<and> (\<forall>p \<le> Suc (length es). \<forall>i < min (phgt (ins_at D e es) p) L'.
      slot z2 (paddr h (ins_at D e es) p) i = Some (link h (ins_at D e es) i p)) \<and> (\<forall>i \<ge> L'. slot z2 h i = slot z h i)"
proof -
  let ?us = "preds h es D L'" and ?q = "\<lambda>i. lastp (phgt es) i D"
  have L32: "L' \<le> ZSKIPLIST_MAXLEVEL" using elems_okD(5) [OF ok] lvl by (simp add: L')
  have i0: "i < phgt es 0" if "i < L'" for i using that L32 by (simp add: phgt_def)
  have q: "?q i \<le> D" "i < phgt es (?q i)" if "i < L'" for i using lastpD(1,2) [where H = "phgt es", OF i0 [OF that], of D] by simp_all
  have u: "fst (?us ! i) = paddr h es (?q i)" "snd (?us ! i) = ?q i" if "i < L'" for i using that by (simp_all add: nth_preds)
  have us: "slot z (paddr h es (?q i)) i = Some (link h es i (?q i))" if "i < L'" for i
    using old [of "?q i" i] q [OF that] D that by simp
  have px: "paddr h es p \<noteq> x" if "p \<le> length es" for p using x that by (auto simp: paddr_def)
  have r0: "snd (?us ! 0) = D" using u(2) [of 0] lastp_0 [OF ok D] lvl by (simp add: L')
  have "slot z (fst (?us ! i)) i \<noteq> None \<and> slot z x i \<noteq> None \<and> fst (?us ! i) \<noteq> x" if "i \<in> set [0..<lvl]" for i
  proof -
    have i: "i < L'" using that by (simp add: L')
    show ?thesis using us [OF i] new [of i] px [OF le_trans [OF q(1) [OF i] D]] u(1) [OF i] that by simp
  qed
  then obtain z1 where z1: "zsl_link x ?us [0..<lvl] z = Some z1" "alike z z1"
    "\<And>a i. slot z1 a i =
        (let crossed = usub U32 (snd (?us ! 0)) (snd (?us ! i)); (f, sp) = the (slot z (fst (?us ! i)) i) in
         if i \<in> set [0..<lvl] \<and> a = x then Some (f, usub U32 sp crossed)
         else if i \<in> set [0..<lvl] \<and> a = fst (?us ! i) then Some (Some x, uadd U32 crossed 1)
         else slot z a i)"
    using zsl_link_spec [of "[0..<lvl]" z ?us x] distinct_upt [of 0 lvl] by blast
  have ar: "usub U32 D (?q i) = D - ?q i" "uadd U32 (D - ?q i) (Suc 0) = Suc D - ?q i"
    "usub U32 (snd (link h es i (?q i))) (D - ?q i) = snd (link h es i (?q i)) - (D - ?q i)"
    "uadd U32 (snd (link h es i p)) (Suc 0) = Suc (snd (link h es i p))" if "i < L'" for i p
    using q(1) [OF that] D len link_last(1) [OF i0 [OF that] D, of h] link_last(2) [OF i0 [OF that] D, of h "?q i"]
      link_last(2) [OF i0 [OF that] D, of h p]
    by (simp_all add: uarith Suc_diff_le)
  have s1: "slot z1 a i = (if i < lvl \<and> a = x then Some (fst (link h es i (?q i)), snd (link h es i (?q i)) - (D - ?q i))
      else if i < lvl \<and> a = paddr h es (?q i) then Some (Some x, Suc D - ?q i) else slot z a i)" if i: "i < L'" for a i
    by (simp add: z1(3) u [OF i] us [OF i] r0 ar [OF i] Let_def split_beta)
  have "slot z1 (fst (?us ! i)) i \<noteq> None" if "i \<in> set [lvl..<L']" for i
    using us [of i] u [of i] that alikeD(7) [OF z1(2), of "fst (?us ! i)" i] by simp
  then obtain z2 where z2: "zsl_widen ?us [lvl..<L'] z1 = Some z2" "alike z1 z2"
    "\<And>a i. slot z2 a i = (if i \<in> set [lvl..<L'] \<and> a = fst (?us ! i)
        then (let (f, sp) = the (slot z1 a i) in Some (f, uadd U32 sp 1)) else slot z1 a i)"
    using zsl_widen_spec [of "[lvl..<L']" z1 ?us] distinct_upt [of lvl L'] by blast
  have s2: "slot z2 a i = (if i < lvl \<and> a = x then Some (fst (link h es i (?q i)), snd (link h es i (?q i)) - (D - ?q i))
      else if a = paddr h es (?q i) then
        (if i < lvl then Some (Some x, Suc D - ?q i) else Some (fst (link h es i (?q i)), Suc (snd (link h es i (?q i)))))
      else slot z a i)" if i: "i < L'" for a i
    using i by (auto simp: z2(3) u s1 us ar split_beta)
  have "slot z2 (paddr h (ins_at D e es) p) i = Some (link h (ins_at D e es) i p)"
    if p: "p \<le> Suc (length es)" and i: "i < phgt (ins_at D e es) p" "i < L'" for p i
  proof -
    note l = link_ins_at [OF D i0 [OF i(2)] p i(1), of h]
    consider "p \<le> D" | "p = Suc D" | "Suc D < p" by linarith
    then show ?thesis
    proof cases
      case 1
      then have "paddr h (ins_at D e es) p = paddr h es p" "i < phgt es p" using pos_ins_at [OF D p] i(1) by simp_all
      moreover have "paddr h es p = paddr h es (?q i) \<longleftrightarrow> p = ?q i" using paddr_inj [OF ok] 1 D q(1) [OF i(2)] by simp
      ultimately show ?thesis
        using 1 D px [of p] l old [of p i] i(2) by (auto simp: s2 [OF i(2)] e Let_def)
    next
      case 2
      then have "paddr h (ins_at D e es) p = x" "i < lvl" using pos_ins_at [OF D p] i(1) e by simp_all
      then show ?thesis using 2 l by (simp add: s2 [OF i(2)] Let_def)
    next
      case 3
      then have "paddr h (ins_at D e es) p = paddr h es (p - 1)" "i < phgt es (p - 1)" using pos_ins_at [OF D p] i(1) by simp_all
      moreover have "paddr h es (p - 1) \<noteq> paddr h es (?q i)" using paddr_inj [OF ok] 3 D p q(1) [OF i(2)] by simp
      ultimately show ?thesis using 3 p px [of "p - 1"] l old [of "p - 1" i] i(2) by (simp add: s2 [OF i(2)] Let_def)
    qed
  qed
  moreover have "slot z2 h i = slot z h i" if "L' \<le> i" for i
  proof -
    have "\<not> i < L'" "\<not> i < lvl" using that by (auto simp: L')
    then show ?thesis by (simp add: z2(3) z1(3) Let_def split_beta)
  qed
  ultimately show ?thesis using z1(1,2) z2(1) alike_trans [OF z1(2) z2(2)] by auto
qed

lemma rep_addr:
  assumes "zsl_rep z es" "znodes z x = None"
  shows "x \<noteq> header z" "x \<notin> e_addr ` set es"
proof -
  have n: "meta z x = None" using assms(2) by (simp add: meta_def)
  show "x \<noteq> header z" using assms(1) n by (auto simp: zsl_rep_def)
  show "x \<notin> e_addr ` set es" using assms(1) n by (auto simp: zsl_rep_def)
qed

lemma zslInsert_spec:
  assumes rep: "zsl_rep z es" and free: "znodes z x = None" and lvl: "1 \<le> lvl" "lvl \<le> ZSKIPLIST_MAXLEVEL"
    and len: "Suc (length es) < U32" and fresh: "\<And>e. e \<in> set es \<Longrightarrow> \<not> (e_score e = s \<and> e_obj e = ob)"
    and D: "D = length (takeWhile (before s ob) es)"
    and e: "e = \<lparr>e_addr = x, e_height = lvl, e_score = s, e_obj = ob\<rparr>"
  shows "\<exists>z'. zslInsert x lvl s ob z = Some z' \<and> zsl_rep z' (ins_at D e es) \<and> header z' = header z"
proof -
  define h L L' where "h = header z" and "L = zlevel z" and "L' = max L lvl"
  have ok: "elems_ok h L es" unfolding h_def L_def by (rule zsl_repD(1) [OF rep])
  note xh = rep_addr [OF rep free, folded h_def]
  have Dn: "D \<le> length es" unfolding D by (rule length_takeWhile_le)
  have L32: "L' \<le> ZSKIPLIST_MAXLEVEL" using elems_okD(5) [OF ok] lvl by (simp add: L'_def)
  have search: "zsl_search U32 (zsl_before s ob) z L h 0 [] = Some (paddr h es D, D, preds h es D L)"
    unfolding h_def L_def D by (rule search_from_header [OF rep goes_before [OF rep]]) (use len in simp)
  \<comment> \<open>the levels above those in use\<close>
  have up: "\<exists>sp. slot z h i = Some (None, sp)" if "L \<le> i" "i < ZSKIPLIST_MAXLEVEL" for i
    using zsl_repD(5) [OF rep] that by (simp add: h_def L_def)
  have "slot z (header z) i \<noteq> None" if "i \<in> set [L..<lvl]" for i using up [of i] that lvl by (auto simp: h_def)
  then obtain z1 where z1: "zsl_raise [L..<lvl] z = Some z1" "alike z z1"
    "\<And>a i. slot z1 a i = (if a = header z \<and> i \<in> set [L..<lvl] then Some (fst (the (slot z a i)), zlength z mod U32) else slot z a i)"
    using zsl_raise_spec [of "[L..<lvl]" z] distinct_upt [of L lvl] by blast
  note a1 = alikeD [OF z1(2)]
  have n32: "zlength z mod U32 = length es" using zsl_repD(2) [OF rep] len by simp
  define z2 where "z2 = z1\<lparr>zlevel := L', znodes := (znodes z1)(x \<mapsto> zslCreateNode lvl s (Some ob))\<rparr>"
  have slot2: "slot z2 a i = (if a = x then (if i < lvl then Some (None, 0) else None) else slot z1 a i)" for a i
    by (simp add: slot_def z2_def zslCreateNode_def)
  have meta2: "meta z2 = (meta z)(x := Some (Some ob, s, lvl))"
    using a1(1) by (auto simp: meta_def z2_def zslCreateNode_def fun_eq_iff)
  have bwd2: "bwd z2 = (bwd z)(x := Some None)"
    using a1(2) by (auto simp: bwd_def z2_def zslCreateNode_def fun_eq_iff)
  have px: "paddr h es p \<noteq> x" if "p \<le> length es" for p using xh that by (auto simp: paddr_def)
  have old: "slot z2 (paddr h es p) i = Some (link h es i p)" if p: "p \<le> length es" and i: "i < phgt es p" "i < L'" for p i
  proof (cases "i < L")
    case True
    then show ?thesis using zsl_repD(4) [OF rep p i(1)] px [OF p] by (simp add: slot2 z1(3) h_def L_def)
  next
    case False
    have i32: "i < ZSKIPLIST_MAXLEVEL" using i L32 by simp
    have "p = 0" using high_level(3) [OF ok _ i32 Dn] False p i(1) by (cases p) auto
    moreover have "i < lvl" using False i(2) by (simp add: L'_def)
    moreover obtain sp where "slot z h i = Some (None, sp)" using up [of i] False i32 by auto
    ultimately show ?thesis
      using False high_level(2) [OF ok _ i32 Dn] xh(1) by (simp add: slot2 z1(3) paddr_def n32 h_def)
  qed
  have "slot z2 x i \<noteq> None" if "i < lvl" for i using that by (simp add: slot2)
  then obtain z3 z4 where
    z3: "zsl_link x (preds h es D L') [0..<lvl] z2 = Some z3" and z4: "zsl_widen (preds h es D L') [lvl..<L'] z3 = Some z4"
    and a3: "alike z2 z3" and a4: "alike z2 z4" and links: "\<And>p i. p \<le> Suc (length es) \<Longrightarrow> i < phgt (ins_at D e es) p \<Longrightarrow> i < L' \<Longrightarrow>
      slot z4 (paddr h (ins_at D e es) p) i = Some (link h (ins_at D e es) i p)"
    and upper: "\<And>i. L' \<le> i \<Longrightarrow> slot z4 h i = slot z2 h i"
    using insert_links [OF ok Dn lvl len xh L'_def, where e = e and z = z2] old by (auto simp: e)
  note v4 = alikeD [OF a4]
  have rest4: "header z4 = h" "tail z4 = tail z" "zlength z4 = zlength z" "zlevel z4 = L'"
    using v4 a1 by (simp_all add: z2_def h_def)
  \<comment> \<open>the backward pointers\<close>
  have us0: "fst (preds h es D L' ! 0) = paddr h es D" using lastp_0 [OF ok Dn] lvl by (simp add: nth_preds L'_def)
  define b where "b = (if D = 0 then None else Some (paddr h es D))"
  have b: "(if paddr h es D = h then None else Some (paddr h es D)) = b"
    using paddr_inj [OF ok Dn, of 0] by (simp add: b_def paddr_def [of h es 0])
  have "meta z4 x \<noteq> None" by (simp add: v4 meta2)
  then obtain z5 where z5: "set_backward z4 x b = Some z5" "slot z5 = slot z4" "meta z5 = meta z4"
    "bwd z5 = (bwd z4)(x := Some b)" "rest z5 = rest z4"
    using set_backward_spec by blast
  define y where "y = (if D < length es then Some (paddr h es (Suc D)) else None)"
  have "slot z4 x 0 = Some (link h (ins_at D e es) 0 (Suc D))"
    using links [of "Suc D" 0] pos_ins_at [OF Dn, where p = "Suc D" and e = e] Dn lvl by (simp add: e L'_def)
  moreover have "nextp (phgt es) (length es) 0 D = (if D < length es then Some (Suc D) else None)" by (rule nextp_0 [OF ok Dn])
  then have "fst (link h (ins_at D e es) 0 (Suc D)) = y"
    using link_ins_at [OF Dn, of 0 "Suc D" e h] pos_ins_at [OF Dn, where p = "Suc D" and e = e] Dn lvl lastp_0 [OF ok Dn]
    by (simp add: e link_def y_def phgt_def [of es 0] ZSKIPLIST_MAXLEVEL_def)
  ultimately obtain sp where s0: "slot z5 x 0 = Some (y, sp)" by (cases "link h (ins_at D e es) 0 (Suc D)") (simp add: z5(2))
  define z6 where "z6 = (case y of Some y \<Rightarrow> set_backward z5 y (Some x) | None \<Rightarrow> Some (z5\<lparr>tail := Some x\<rparr>))"
  obtain z7 where z7: "z6 = Some z7" "slot z7 = slot z4" "meta z7 = meta z4"
    "bwd z7 = (if D < length es then (bwd z5)(paddr h es (Suc D) := Some (Some x)) else bwd z5)"
    "header z7 = h" "zlength z7 = zlength z" "zlevel z7 = L'" "tail z7 = (if D < length es then tail z else Some x)"
  proof (cases "D < length es")
    case True
    have "meta z5 (paddr h es (Suc D)) \<noteq> None"
      using node_at [OF rep, of "Suc D"] True by (auto simp: z5(3) v4 meta2 meta_def h_def)
    then obtain z7 where "set_backward z5 (paddr h es (Suc D)) (Some x) = Some z7" "slot z7 = slot z5" "meta z7 = meta z5"
      "bwd z7 = (bwd z5)(paddr h es (Suc D) := Some (Some x))" "rest z7 = rest z5"
      using set_backward_spec by blast
    then show ?thesis using that [of z7] True z5 rest4 by (simp add: z6_def y_def rest_def)
  next
    case False
    define z7 where "z7 = z5\<lparr>tail := Some x\<rparr>"
    have "slot z7 = slot z5" "meta z7 = meta z5" "bwd z7 = bwd z5" by (simp_all add: z7_def slot_def meta_def bwd_def fun_eq_iff)
    then show ?thesis using that [of z7] False z5 rest4 by (simp add: z6_def y_def rest_def z7_def)
  qed
  define z8 where "z8 = z7\<lparr>zlength := uadd U64 (zlength z7) 1\<rparr>"
  have run: "zslInsert x lvl s ob z = Some z8"
  proof -
    have z1': "zlevel z1 = L" "header z1 = h" using a1 by (simp_all add: L_def h_def)
    have "z1\<lparr>zlevel := L', znodes := (znodes z1)(x \<mapsto> zslCreateNode lvl s (Some ob))\<rparr> = z2" by (simp add: z2_def)
    moreover have "zlevel z3 = L'" using alikeD(6) [OF a3] by (simp add: z2_def)
    ultimately show ?thesis
      using search z1(1) z3 z4 z5(1) s0 z7(1) us0 b rest4(1) preds_extend [OF ok Dn lvl(2)]
      unfolding zslInsert_def h_def [symmetric] L_def [symmetric]
      by (simp add: z1' Let_def z8_def z6_def L'_def [symmetric] cong: if_cong split del: if_split)
  qed
  have v8: "slot z8 = slot z4" "meta z8 = meta z4" "bwd z8 = bwd z7" "header z8 = h" "tail z8 = tail z7" "zlevel z8 = L'"
    using z7 by (simp_all add: z8_def slot_def meta_def bwd_def fun_eq_iff)
  have "zsl_rep z8 (ins_at D e es)"
    unfolding zsl_rep_def v8
  proof (intro conjI ballI allI impI)
    show "elems_ok h L' (ins_at D e es)"
      unfolding e L'_def by (rule elems_ok_ins [OF ok xh lvl fresh D])
    show "\<exists>s. meta z4 h = Some (None, s, ZSKIPLIST_MAXLEVEL)"
      using rep xh(1) by (auto simp: v4 meta2 zsl_rep_def h_def)
    show "meta z4 (e_addr f) = Some (Some (e_obj f), e_score f, e_height f)" if "f \<in> set (ins_at D e es)" for f
      using that Dn rep xh(2) by (auto simp: v4 meta2 zsl_rep_def e)
    show "meta z4 a = None" if "a \<noteq> h \<and> a \<notin> e_addr ` set (ins_at D e es)" for a
      using that Dn rep by (auto simp: v4 meta2 zsl_rep_def h_def e)
    show "slot z4 (paddr h (ins_at D e es) p) i = Some (link h (ins_at D e es) i p)"
      if "p \<le> length (ins_at D e es)" "i < min (phgt (ins_at D e es) p) L'" for p i
      using links [of p i] that Dn by simp
    show "\<exists>sp. slot z4 h i = Some (None, sp)" if "L' \<le> i \<and> i < ZSKIPLIST_MAXLEVEL" for i
    proof -
      have "L \<le> i" "\<not> i < lvl" using that by (auto simp: L'_def)
      then show ?thesis using upper [of i] up [of i] that xh(1) by (auto simp: slot2 z1(3))
    qed
    show "tail z7 = (if ins_at D e es = [] then None else Some (paddr h (ins_at D e es) (length (ins_at D e es))))"
      using z7(8) zsl_repD(3) [OF rep] Dn pos_ins_at(2) [OF Dn, where p = "Suc (length es)" and e = e]
      by (auto simp: e h_def [symmetric])
    show "zlength z8 = length (ins_at D e es)"
      using z7(6) zsl_repD(2) [OF rep] len Dn by (simp add: z8_def uarith)
    fix p assume p: "1 \<le> p \<and> p \<le> length (ins_at D e es)"
    then have p': "p \<le> Suc (length es)" using Dn by simp
    note pp = pos_ins_at(2) [OF Dn p', of h e] pos_ins_at(2) [OF Dn, of "p - 1" h e]
    have old: "bwd z (paddr h es q) = Some (if q = 1 then None else Some (paddr h es (q - 1)))" if "1 \<le> q" "q \<le> length es" for q
      using zsl_repD(6) [OF rep that] by (simp add: h_def)
    consider "p \<le> D" | "p = Suc D" | "p = Suc (Suc D)" | "Suc (Suc D) < p" by linarith
    then show "bwd z7 (paddr h (ins_at D e es) p) =
        Some (if p = 1 then None else Some (paddr h (ins_at D e es) (p - 1)))"
    proof cases
      case 1
      then have "paddr h (ins_at D e es) (p - 1) = paddr h es (p - 1)"
        using pos_ins_at(2) [OF Dn, of "p - 1" h e] Dn by simp
      then show ?thesis
        using 1 p pp(1) old [of p] Dn px [of p] paddr_inj [OF ok, of p "Suc D"]
        by (cases "D < length es") (simp_all add: z7(4) z5(4) v4 bwd2)
    next
      case 2
      then show ?thesis
        using pp Dn px [of "Suc D"] e by (cases "D < length es") (simp_all add: z7(4) z5(4) b_def)
    next
      case 3
      then show ?thesis using p' pp Dn by (simp add: z7(4) e)
    next
      case 4
      define r where "r = p - 1"
      have r: "p = Suc r" "Suc D < r" "r \<le> length es" using 4 p' by (simp_all add: r_def)
      then have "paddr h (ins_at D e es) p = paddr h es r" "paddr h (ins_at D e es) r = paddr h es (r - 1)"
        using pos_ins_at(2) [OF Dn, of p h e] pos_ins_at(2) [OF Dn, of r h e] by simp_all
      then show ?thesis
        using r old [of r] px [of r] paddr_inj [OF ok, of r "Suc D"] by (simp add: z7(4) z5(4) v4 bwd2)
    qed
  qed
  then show ?thesis using run v8(4) by (auto simp: h_def)
qed

section \<open>Deletion\<close>

lemma zsl_lower_spec:
  assumes "1 \<le> zlevel z" "\<And>i. i < zlevel z \<Longrightarrow> slot z (header z) i = Some (f i, sp i)"
  shows "\<exists>L. zsl_lower z = Some (z\<lparr>zlevel := L\<rparr>) \<and> 1 \<le> L \<and> L \<le> zlevel z \<and>
    (\<forall>i. L \<le> i \<and> i < zlevel z \<longrightarrow> f i = None) \<and> (1 < L \<longrightarrow> f (L - 1) \<noteq> None)"
  using assms
proof (induction "zlevel z" arbitrary: z)
  case (Suc l)
  show ?case
  proof (cases "1 < zlevel z \<and> f (zlevel z - 1) = None")
    case True
    define z1 where "z1 = z\<lparr>zlevel := zlevel z - 1\<rparr>"
    have "zlevel z1 = l" "slot z1 = slot z" "header z1 = header z" using Suc.hyps(2) by (simp_all add: z1_def slot_def fun_eq_iff)
    moreover have "zsl_lower z = zsl_lower z1"
      using True Suc.prems(2) [of "zlevel z - 1"] by (subst zsl_lower.simps) (simp add: z1_def)
    moreover have "z1\<lparr>zlevel := L\<rparr> = z\<lparr>zlevel := L\<rparr>" for L by (simp add: z1_def)
    ultimately obtain L where L: "zsl_lower z = Some (z\<lparr>zlevel := L\<rparr>)" "1 \<le> L" "L \<le> l"
      "\<forall>i. L \<le> i \<and> i < l \<longrightarrow> f i = None" "1 < L \<longrightarrow> f (L - 1) \<noteq> None"
      using Suc.hyps(1) [of z1] Suc.hyps(2) Suc.prems(2) True by auto
    have "f i = None" if "L \<le> i" "i < zlevel z" for i
    proof (cases "i = l")
      case t: True
      then have "zlevel z - 1 = i" using Suc.hyps(2) by simp
      then show ?thesis using True by simp
    next
      case False
      then show ?thesis using L(4) Suc.hyps(2) that by simp
    qed
    then show ?thesis using L Suc.hyps(2) by (intro exI [of _ L]) auto
  next
    case False
    then have "zsl_lower z = Some z"
      using Suc.prems by (subst zsl_lower.simps) auto
    then show ?thesis using False Suc.prems(1) by (intro exI [of _ "zlevel z"]) auto
  qed
qed simp

lemma lastp_cong:
  assumes "\<And>r. r \<le> D \<Longrightarrow> H r = H' r"
  shows "lastp H i D = lastp H' i D"
proof -
  have "{q. q \<le> D \<and> i < H q} = {q. q \<le> D \<and> i < H' q}" using assms by auto
  then show ?thesis by (simp add: lastp_def)
qed

lemma lastp_ins_at: "D \<le> length es \<Longrightarrow> lastp (phgt (ins_at D e es)) i D = lastp (phgt es) i D"
  by (rule lastp_cong) (simp add: pos_ins_at)

text \<open>The state behind \<open>zsl_unlink\<close> has the links of the shorter list.\<close>

lemma delete_links:
  assumes rep: "zsl_rep z (ins_at D e es)" and D: "D \<le> length es" and len: "Suc (length es) < U32"
    and h: "h = header z" and L: "L = zlevel z"
    and us: "\<And>i. i < L \<Longrightarrow> fst (us ! i) = paddr h es (lastp (phgt es) i D)"
  shows "\<exists>z1. zsl_unlink (e_addr e) us [0..<L] z = Some z1 \<and> alike z z1 \<and>
    (\<forall>p \<le> length es. \<forall>i < min (phgt es p) L. slot z1 (paddr h es p) i = Some (link h es i p)) \<and>
    (\<forall>i \<ge> L. slot z1 h i = slot z h i) \<and> (\<forall>i. slot z1 (e_addr e) i = slot z (e_addr e) i)"
proof -
  let ?x = "e_addr e" and ?es = "ins_at D e es" and ?q = "\<lambda>i. lastp (phgt es) i D"
  have ok: "elems_ok h L ?es" unfolding h L by (rule zsl_repD(1) [OF rep])
  have L32: "L \<le> ZSKIPLIST_MAXLEVEL" by (rule elems_okD(5) [OF ok])
  have i0: "i < phgt es 0" if "i < L" for i using that L32 by (simp add: phgt_def)
  have q: "?q i \<le> D" "i < phgt es (?q i)" if "i < L" for i using lastpD(1,2) [where H = "phgt es", OF i0 [OF that], of D] by simp_all
  have sh: "paddr h ?es (shift D p) = paddr h es p" "phgt ?es (shift D p) = phgt es p" if "p \<le> length es" for p
    using pos_ins_at [OF D, where p = "shift D p" and e = e] that D by (auto simp: shift_def)
  have xD: "paddr h ?es (Suc D) = ?x" "phgt ?es (Suc D) = e_height e" using pos_ins_at [OF D, where p = "Suc D" and e = e] D by simp_all
  have px: "paddr h es p \<noteq> ?x" if "p \<le> length es" for p
    using paddr_inj [OF ok, of "shift D p" "Suc D"] sh [OF that] xD D that by (auto simp: shift_def split: if_splits)
  have inj: "paddr h es p = paddr h es r \<longleftrightarrow> p = r" if "p \<le> length es" "r \<le> length es" for p r
    using paddr_inj [OF ok, of "shift D p" "shift D r"] sh that D by (auto simp: shift_def split: if_splits)
  have old: "slot z (paddr h es p) i = Some (link h ?es i (shift D p))" if "p \<le> length es" "i < phgt es p" "i < L" for p i
    using zsl_repD(4) [OF rep, of "shift D p" i] sh [OF that(1)] that D by (simp add: h L shift_def)
  have oldx: "slot z ?x i = Some (link h ?es i (Suc D))" if "i < e_height e" "i < L" for i
    using zsl_repD(4) [OF rep, of "Suc D" i] xD that D by (simp add: h L)
  have lq: "link h ?es i (?q i) = (if i < e_height e then (Some ?x, Suc D - ?q i) else (fst (link h es i (?q i)), Suc (snd (link h es i (?q i)))))"
    if "i < L" for i
    using link_ins_at [OF D i0 [OF that], of "?q i" e h] q [OF that] D pos_ins_at(1) [OF D, of "?q i" e] by (simp add: Let_def)
  have lx: "link h ?es i (Suc D) = (fst (link h es i (?q i)), snd (link h es i (?q i)) - (D - ?q i))" if "i < e_height e" "i < L" for i
    using link_ins_at [OF D i0 [OF that(2)], of "Suc D" e h] that xD D by (simp add: Let_def)
  have us1: "slot z (fst (us ! i)) i = Some (link h ?es i (?q i))" if "i < L" for i
    using old [of "?q i" i] q [OF that] D that us [OF that] by (simp add: shift_def)
  have fx: "fst (link h ?es i (?q i)) = Some ?x \<longleftrightarrow> i < e_height e" if "i < L" for i
  proof -
    have "fst (link h es i (?q i)) \<noteq> Some ?x"
      using px nextp_SomeD(2) [of "phgt es" "length es" i "?q i"] by (auto simp: link_def split: option.splits)
    then show ?thesis by (simp add: lq [OF that])
  qed
  have "slot z (fst (us ! i)) i \<noteq> None \<and> fst (us ! i) \<noteq> ?x \<and> (fst (the (slot z (fst (us ! i)) i)) = Some ?x \<longrightarrow> slot z ?x i \<noteq> None)"
    if "i \<in> set [0..<L]" for i
  proof -
    have i: "i < L" using that by simp
    show ?thesis using us1 [OF i] us [OF i] px [OF le_trans [OF q(1) [OF i] D]] fx [OF i] oldx [of i] i by simp
  qed
  then obtain z1 where z1: "zsl_unlink ?x us [0..<L] z = Some z1" "alike z z1"
    "\<And>a i. slot z1 a i = (if i \<in> set [0..<L] \<and> a = fst (us ! i) then
          (let (f, sp) = the (slot z a i); (fx, sx) = the (slot z ?x i) in
           Some (if f = Some ?x then (fx, uadd U32 sp (usub U32 sx 1)) else (f, usub U32 sp 1)))
         else slot z a i)"
    using zsl_unlink_spec [of "[0..<L]" z us ?x] distinct_upt [of 0 L] by blast
  have "slot z1 (paddr h es p) i = Some (link h es i p)" if p: "p \<le> length es" and i: "i < phgt es p" "i < L" for p i
  proof (cases "p = ?q i")
    case True
    note ll = link_last [OF i0 [OF i(2)] D, of h]
    have "slot z1 (paddr h es p) i = (let (f, sp) = link h ?es i p; (fx, sx) = the (slot z ?x i) in
           Some (if f = Some ?x then (fx, uadd U32 sp (usub U32 sx 1)) else (f, usub U32 sp 1)))"
      using i us [OF i(2)] us1 [OF i(2)] True by (simp add: z1(3))
    also have "\<dots> = Some (link h es i p)"
    proof (cases "i < e_height e")
      case T: True
      have "uadd U32 (Suc D - p) (usub U32 (snd (link h es i p) - (D - p)) 1) = snd (link h es i p)"
        using ll(1) ll(2) [of p] q(1) [OF i(2)] len True by (subst uadd_usub) auto
      then show ?thesis using T True lq [OF i(2)] lx [OF T i(2)] oldx [OF T i(2)] by (simp add: split_beta)
    next
      case False
      have "usub U32 (Suc (snd (link h es i p))) 1 = snd (link h es i p)" using ll(2) [of p] len by (simp add: uarith)
      then show ?thesis using False True fx [OF i(2)] lq [OF i(2)] by (auto simp: split_beta)
    qed
    finally show ?thesis .
  next
    case False
    then have "paddr h es p \<noteq> fst (us ! i)" using us [OF i(2)] inj [OF p, of "?q i"] q(1) [OF i(2)] D by simp
    then have "slot z1 (paddr h es p) i = Some (link h ?es i (shift D p))" using old [OF p i] by (simp add: z1(3))
    then show ?thesis
      using link_ins_at [OF D i0 [OF i(2)], of "shift D p" e h] False p i sh [OF p] by (auto simp: shift_def Let_def split: if_splits)
  qed
  moreover have "slot z1 h i = slot z h i" if "L \<le> i" for i using that by (simp add: z1(3))
  moreover have "slot z1 ?x i = slot z ?x i" for i
    using us px q(1) D by (auto simp: z1(3)) (metis le_trans)
  ultimately show ?thesis using z1(1,2) by auto
qed

lemma elems_ok_del:
  assumes "elems_ok h L (ins_at D e es)" "D \<le> length es" "1 \<le> L'" "L' \<le> L"
    and "\<And>i. L' \<le> i \<Longrightarrow> i < L \<Longrightarrow> fst (link h es i 0) = None" "1 < L' \<Longrightarrow> fst (link h es (L' - 1) 0) \<noteq> None"
  shows "elems_ok h L' es"
proof -
  have up: "e_height f \<le> L'" if f: "f \<in> set es" for f
  proof (rule ccontr)
    assume c: "\<not> e_height f \<le> L'"
    have "e_height f \<le> L" using assms(1,2) f by (simp add: elems_ok_def)
    then have "nextp (phgt es) (length es) L' 0 = None"
      using assms(5) [of L'] c by (auto simp: link_def split: option.splits)
    moreover obtain j where "j < length es" "f = es ! j" using f by (auto simp: in_set_conv_nth)
    ultimately show False using c by (auto simp: nextp_None phgt_def dest: spec [of _ "Suc j"])
  qed
  have tight: "\<exists>f \<in> set es. e_height f = L'" if l: "1 < L'"
  proof -
    obtain q where "nextp (phgt es) (length es) (L' - 1) 0 = Some q"
      using assms(6) [OF l] by (auto simp: link_def split: option.splits)
    note q = nextp_SomeD [OF this]
    then have "es ! (q - 1) \<in> set es" "L' - 1 < e_height (es ! (q - 1))" by (simp_all add: phgt_def)
    then show ?thesis using up [of "es ! (q - 1)"] by (intro bexI [of _ "es ! (q - 1)"]) auto
  qed
  have "sorted_wrt (\<lambda>e f. zlt (e_score e) (e_obj e) (e_score f) (e_obj f)) (take D es @ drop D es)"
    using assms(1) unfolding elems_ok_def ins_at_def sorted_wrt_append by simp
  moreover have "distinct (h # map e_addr (take D es @ drop D es))"
    using assms(1) distinct_rest [of h e_addr "take D es" e "drop D es"] by (simp only: elems_ok_def ins_at_def)
  moreover have "1 \<le> e_height f" if "f \<in> set es" for f using assms(1,2) that by (simp add: elems_ok_def)
  ultimately show ?thesis using assms(1,3,4) up tight by (simp add: elems_ok_def)
qed

lemma zslDeleteNode_spec:
  assumes rep: "zsl_rep z (ins_at D e es)" and D: "D \<le> length es" and len: "Suc (length es) < U32"
    and us: "\<And>i. i < zlevel z \<Longrightarrow> fst (us ! i) = paddr (header z) es (lastp (phgt es) i D)"
  shows "\<exists>z'. zslDeleteNode (e_addr e) us z = Some z' \<and> zsl_rep (zslFreeNode (e_addr e) z') es \<and>
    header z' = header z \<and> zlevel z' \<le> zlevel z"
proof -
  let ?x = "e_addr e" and ?es = "ins_at D e es"
  define h L where "h = header z" and "L = zlevel z"
  have ok: "elems_ok h L ?es" unfolding h_def L_def by (rule zsl_repD(1) [OF rep])
  obtain z1 where z1: "zsl_unlink ?x us [0..<L] z = Some z1" "alike z z1"
    "\<And>p i. p \<le> length es \<Longrightarrow> i < phgt es p \<Longrightarrow> i < L \<Longrightarrow> slot z1 (paddr h es p) i = Some (link h es i p)"
    "\<And>i. L \<le> i \<Longrightarrow> slot z1 h i = slot z h i" "\<And>i. slot z1 ?x i = slot z ?x i"
    using delete_links [OF rep D len h_def L_def, of us] us unfolding h_def L_def by auto
  note v1 = alikeD [OF z1(2), folded h_def L_def]
  have n': "length ?es = Suc (length es)" using D by simp
  have xD: "paddr h ?es (Suc D) = ?x" "phgt ?es (Suc D) = e_height e" using pos_ins_at [OF D, where p = "Suc D" and e = e] D by simp_all
  have sh: "paddr h ?es (shift D p) = paddr h es p" if "p \<le> length es" for p
    using pos_ins_at(2) [OF D, of "shift D p" h e] that D by (auto simp: shift_def)
  have px: "paddr h es p \<noteq> ?x" if "p \<le> length es" for p
    using paddr_inj [OF ok, of "shift D p" "Suc D"] sh [OF that] xD D that by (auto simp: shift_def split: if_splits)
  have inj: "paddr h es p = paddr h es r \<longleftrightarrow> p = r" if "p \<le> length es" "r \<le> length es" for p r
    using paddr_inj [OF ok, of "shift D p" "shift D r"] sh that D by (auto simp: shift_def split: if_splits)
  have hx: "h \<noteq> ?x" using px [of 0] by (simp add: paddr_def)
  define y where "y = (if D < length es then Some (paddr h es (Suc D)) else None)"
  have s0: "\<exists>sp. slot z1 ?x 0 = Some (y, sp)"
  proof -
    have "slot z ?x 0 = Some (link h ?es 0 (Suc D))"
      using zsl_repD(4) [OF rep, of "Suc D" 0] xD elems_okD(3) [OF ok, of "Suc D"] elems_okD(4) [OF ok] n' D by (simp add: h_def L_def)
    moreover have "nextp (phgt ?es) (length ?es) 0 (Suc D) = (if D < length es then Some (Suc (Suc D)) else None)"
      using nextp_0 [OF ok, of "Suc D"] n' D by simp
    moreover have "paddr h ?es (Suc (Suc D)) = paddr h es (Suc D)" if "D < length es" using sh [of "Suc D"] that by (simp add: shift_def)
    ultimately show ?thesis by (simp add: z1(5) link_def y_def)
  qed
  define b where "b = (if D = 0 then None else Some (paddr h es D))"
  have "bwd z ?x = Some b"
    using zsl_repD(6) [OF rep, of "Suc D"] n' D xD sh [of D] by (simp add: h_def [symmetric] b_def shift_def)
  then have "bwd z1 ?x = Some b" by (simp add: v1)
  then obtain n where n: "znodes z1 ?x = Some n" "backward n = b" by (auto simp: bwd_def)
  have metas: "meta z (e_addr f) = Some (Some (e_obj f), e_score f, e_height f)" if "f \<in> set es" for f
    using rep that D by (simp add: zsl_rep_def)
  obtain z2 where z2: "(case y of Some y \<Rightarrow> set_backward z1 y (backward n) | None \<Rightarrow> Some (z1\<lparr>tail := backward n\<rparr>)) = Some z2"
    "slot z2 = slot z1" "meta z2 = meta z1" "header z2 = h" "zlength z2 = zlength z" "zlevel z2 = L"
    "bwd z2 = (if D < length es then (bwd z)(paddr h es (Suc D) := Some b) else bwd z)"
    "tail z2 = (if D < length es then tail z else b)"
  proof (cases "D < length es")
    case True
    have "meta z1 (paddr h es (Suc D)) \<noteq> None" using metas [of "es ! D"] True by (simp add: v1 paddr_def)
    then obtain z2 where "set_backward z1 (paddr h es (Suc D)) b = Some z2" "slot z2 = slot z1" "meta z2 = meta z1"
      "bwd z2 = (bwd z1)(paddr h es (Suc D) := Some b)" "rest z2 = rest z1"
      using set_backward_spec by blast
    then show ?thesis using that [of z2] True v1 n(2) by (simp add: y_def rest_def)
  next
    case False
    define z2 where "z2 = z1\<lparr>tail := b\<rparr>"
    have "slot z2 = slot z1" "meta z2 = meta z1" "bwd z2 = bwd z1" by (simp_all add: z2_def slot_def meta_def bwd_def fun_eq_iff)
    then show ?thesis using that [of z2] False v1 n(2) by (simp add: y_def z2_def)
  qed
  have "slot z2 (header z2) i = Some (fst (link h es i 0), snd (link h es i 0))" if "i < zlevel z2" for i
    using z1(3) [of 0 i] that elems_okD(5) [OF ok] by (simp add: z2(2,4,6) paddr_def phgt_def)
  from zsl_lower_spec [OF _ this] obtain L' where L': "zsl_lower z2 = Some (z2\<lparr>zlevel := L'\<rparr>)" "1 \<le> L'" "L' \<le> L"
    "\<And>i. L' \<le> i \<Longrightarrow> i < L \<Longrightarrow> fst (link h es i 0) = None" "1 < L' \<Longrightarrow> fst (link h es (L' - 1) 0) \<noteq> None"
    using elems_okD(4) [OF ok] by (auto simp: z2(6))
  define z3 where "z3 = z2\<lparr>zlevel := L', zlength := usub U64 (zlength z2) 1\<rparr>"
  have run: "zslDeleteNode ?x us z = Some z3"
    using z1(1) s0 n(1) z2(1) L'(1) unfolding zslDeleteNode_def L_def [symmetric] by (auto simp: z3_def)
  define z4 where "z4 = zslFreeNode ?x z3"
  have v4: "header z4 = h" "zlevel z4 = L'" "tail z4 = tail z2" "zlength z4 = length es"
    "\<And>a i. slot z4 a i = (if a = ?x then None else slot z1 a i)" "meta z4 = (meta z)(?x := None)" "bwd z4 = (bwd z2)(?x := None)"
    using z2(2-6) v1(1) zsl_repD(2) [OF rep] n' len
    by (auto simp: z4_def z3_def zslFreeNode_def slot_def meta_def bwd_def uarith fun_eq_iff)
  have "zsl_rep z4 es"
    unfolding zsl_rep_def v4
  proof (intro conjI ballI allI impI)
    show "elems_ok h L' es" by (rule elems_ok_del [OF ok D L'(2-5)])
    show "\<exists>s. ((meta z)(?x := None)) h = Some (None, s, ZSKIPLIST_MAXLEVEL)" using rep hx by (simp add: zsl_rep_def h_def)
    show "((meta z)(?x := None)) (e_addr f) = Some (Some (e_obj f), e_score f, e_height f)" if f: "f \<in> set es" for f
    proof -
      obtain j where "j < length es" "f = es ! j" using f by (auto simp: in_set_conv_nth)
      then have "e_addr f \<noteq> ?x" using px [of "Suc j"] by (simp add: paddr_def)
      then show ?thesis using metas [OF f] by simp
    qed
    show "((meta z)(?x := None)) a = None" if "a \<noteq> h \<and> a \<notin> e_addr ` set es" for a
      using rep that D by (auto simp: zsl_rep_def h_def)
    show "(if paddr h es p = ?x then None else slot z1 (paddr h es p) i) = Some (link h es i p)"
      if "p \<le> length es" "i < min (phgt es p) L'" for p i
      using z1(3) [of p i] px [of p] that L'(3) by simp
    show "\<exists>sp. (if h = ?x then None else slot z1 h i) = Some (None, sp)" if "L' \<le> i \<and> i < ZSKIPLIST_MAXLEVEL" for i
    proof (cases "i < L")
      case True
      then show ?thesis
        using z1(3) [of 0 i] L'(4) [of i] that hx by (cases "link h es i 0") (simp add: paddr_def phgt_def)
    next
      case False
      then show ?thesis using zsl_repD(5) [OF rep, of i] z1(4) [of i] that hx by (simp add: h_def L_def)
    qed
    show "tail z2 = (if es = [] then None else Some (paddr h es (length es)))"
    proof (cases "D < length es")
      case True
      then have "es \<noteq> []" "tail z = Some (paddr h ?es (Suc (length es)))" using zsl_repD(3) [OF rep] n' by (auto simp: h_def)
      then show ?thesis using True sh [of "length es"] by (simp add: z2(8) shift_def)
    next
      case False
      then show ?thesis using D by (auto simp: z2(8) b_def)
    qed
    show "length es = length es" ..
    fix p assume p: "1 \<le> p \<and> p \<le> length es"
    have old: "bwd z (paddr h ?es q) = Some (if q = 1 then None else Some (paddr h ?es (q - 1)))" if "1 \<le> q" "q \<le> Suc (length es)" for q
      using zsl_repD(6) [OF rep, of q] that n' by (simp add: h_def)
    have pxp: "paddr h es p \<noteq> ?x" using px p by simp
    consider "p \<le> D" | "p = Suc D" | "Suc D < p" by linarith
    then show "((bwd z2)(?x := None)) (paddr h es p) = Some (if p = 1 then None else Some (paddr h es (p - 1)))"
    proof cases
      case 1
      then have "shift D p = p" "shift D (p - 1) = p - 1" by (simp_all add: shift_def)
      moreover have "p - 1 \<le> length es" using p by linarith
      ultimately have "paddr h ?es p = paddr h es p" "paddr h ?es (p - 1) = paddr h es (p - 1)"
        using sh [of p] sh [of "p - 1"] p by simp_all
      then show ?thesis using 1 p pxp old [of p] inj [of p "Suc D"] by (cases "D < length es") (simp_all add: z2(7))
    next
      case 2
      then show ?thesis using p pxp by (simp add: z2(7) b_def)
    next
      case 3
      then have "shift D p = Suc p" "shift D (p - 1) = p" by (simp_all add: shift_def)
      moreover have "p - 1 \<le> length es" using p by linarith
      ultimately have "paddr h ?es (Suc p) = paddr h es p" "paddr h ?es p = paddr h es (p - 1)"
        using sh [of p] sh [of "p - 1"] p by simp_all
      then show ?thesis using 3 p pxp old [of "Suc p"] inj [of p "Suc D"] by (simp add: z2(7))
    qed
  qed
  then show ?thesis using run z2(4) L'(3) by (auto simp: z4_def z3_def h_def L_def)
qed

end
