(* ===== verification/ZslOps.thy ===== *)
theory ZslOps
  imports ZslSpec
begin

text \<open>
  The operations of the skip list, as operations on the ordered list of its elements: the
  two searches by rank, the ends of a range of scores, and the deletions.
\<close>

section \<open>Creation and deletion\<close>

definition zkeys :: "'s zelem list \<Rightarrow> ('s \<times> bytes) list" where
  "zkeys es = map (\<lambda>e. (e_score e, e_obj e)) es"

lemma zslCreate_rep: "zsl_rep (zslCreate a :: 's::{linorder,zero} zskiplist) []"
  by (auto simp: zsl_rep_def zslCreate_def elems_ok_def meta_def slot_def bwd_def zslCreateNode_def
      ZSKIPLIST_MAXLEVEL_def link_def nextp_def paddr_def phgt_def)

lemma before_prefix:
  assumes "elems_ok h L es" "i < length es"
  shows "i < length (takeWhile (before s ob) es) \<longleftrightarrow> before s ob (es ! i)"
proof (rule takeWhile_prefix [OF _ assms(2)])
  show "before s ob (es ! a)" if "a < b" "b < length es" "before s ob (es ! b)" for a b
    using elems_sorted [OF assms(1) that(1,2)] that(3) zlt_trans by (simp add: before_def) blast
qed

text \<open>An element of a sorted list stands behind those before it.\<close>

lemma position_of:
  assumes "elems_ok h L es" "j < length es" "e_score (es ! j) = s" "e_obj (es ! j) = ob"
  shows "length (takeWhile (before s ob) es) = j"
proof -
  have "\<not> j < length (takeWhile (before s ob) es)"
    using before_prefix [OF assms(1,2)] assms(3,4) by (simp add: before_def)
  moreover have "i < length (takeWhile (before s ob) es)" if "i < j" for i
    using before_prefix [OF assms(1), of i] elems_sorted [OF assms(1) that assms(2)] that assms by (simp add: before_def)
  ultimately show ?thesis by (metis less_irrefl linorder_neqE_nat)
qed

lemma split_at: "j < length es \<Longrightarrow> es = ins_at j (es ! j) (take j es @ drop (Suc j) es)"
  by (simp add: ins_at_def min_def Cons_nth_drop_Suc)

lemma preds_take:
  assumes "D \<le> length es" "D \<le> length es'" "take D es = take D es'" "i < L" "i < ZSKIPLIST_MAXLEVEL"
  shows "fst (preds h es D L ! i) = paddr h es' (lastp (phgt es') i D)"
proof -
  have nth: "es ! j = es' ! j" if "j < D" for j using assms(3) that by (metis nth_take)
  have p: "paddr h es p = paddr h es' p" "phgt es p = phgt es' p" if "p \<le> D" for p
    using nth [of "p - 1"] that by (auto simp: paddr_def phgt_def)
  have "lastp (phgt es) i D = lastp (phgt es') i D" by (rule lastp_cong) (rule p(2))
  moreover have "lastp (phgt es') i D \<le> D" by (rule lastpD(1)) (use assms(5) in \<open>simp add: phgt_def\<close>)
  ultimately show ?thesis using assms(4) p(1) by (simp add: nth_preds)
qed

lemma zsl_rep_slot0:
  assumes "zsl_rep z es" "p \<le> length es"
  shows "\<exists>sp. slot z (paddr (header z) es p) 0 = Some (if p < length es then Some (e_addr (es ! p)) else None, sp)"
  using zsl_repD(4) [OF assms, of 0] elems_okD(3) [OF zsl_repD(1) [OF assms(1)] assms(2)]
    elems_okD(4) [OF zsl_repD(1) [OF assms(1)]] assms(2)
    nextp_0 [OF zsl_repD(1) [OF assms(1)] assms(2)]
  by (auto simp: link_def paddr_def [of "header z" es "Suc p"])

lemma node_of:
  assumes "zsl_rep z es" "j < length es"
  shows "\<exists>n. znodes z (e_addr (es ! j)) = Some n \<and> zobj n = Some (e_obj (es ! j)) \<and> zscore n = e_score (es ! j)"
  using node_at [OF assms(1), of "Suc j"] assms(2) by (auto simp: paddr_def)

text \<open>Deletion of the element behind the first \<open>D\<close>, with the predecessors of a list that starts the same.\<close>

lemma zsl_delete_at:
  assumes rep: "zsl_rep z (pre @ e # r)" and len: "length (pre @ e # r) < U32"
    and us: "us = preds (header z) (pre @ es') (length pre) L" "zlevel z \<le> L"
  shows "\<exists>z'. zslDeleteNode (e_addr e) us z = Some z' \<and> zsl_rep (zslFreeNode (e_addr e) z') (pre @ r) \<and>
    header z' = header z \<and> zlevel z' \<le> zlevel z"
proof (rule zslDeleteNode_spec [where D = "length pre"])
  show "zsl_rep z (ins_at (length pre) e (pre @ r))" using rep by (simp add: ins_at_def)
  show "fst (us ! i) = paddr (header z) (pre @ r) (lastp (phgt (pre @ r)) i (length pre))" if "i < zlevel z" for i
    unfolding us(1) by (rule preds_take)
      (use that us(2) elems_okD(5) [OF zsl_repD(1) [OF rep]] in simp_all)
qed (use len in simp_all)

lemma remove_key:
  assumes ok: "elems_ok h L es" and d: "D < length es" "e_score (es ! D) = s" "e_obj (es ! D) = ob"
  shows "filter (\<lambda>e. (e_score e, e_obj e) \<noteq> (s, ob)) es = take D es @ drop (Suc D) es"
proof -
  have other: "(e_score (es ! j), e_obj (es ! j)) \<noteq> (s, ob)" if "j < length es" "j \<noteq> D" for j
    using position_of [OF ok that(1)] position_of [OF ok d] that(2) by auto
  have "filter (\<lambda>e. (e_score e, e_obj e) \<noteq> (s, ob)) (take D es) = take D es"
    unfolding filter_id_conv
  proof
    fix e
    assume "e \<in> set (take D es)"
    then obtain j where "j < D" "e = es ! j" using d(1) by (auto simp: in_set_conv_nth)
    then show "(e_score e, e_obj e) \<noteq> (s, ob)" using other [of j] d(1) by simp
  qed
  moreover have "filter (\<lambda>e. (e_score e, e_obj e) \<noteq> (s, ob)) (drop (Suc D) es) = drop (Suc D) es"
  proof (unfold filter_id_conv, rule ballI)
    fix e
    assume "e \<in> set (drop (Suc D) es)"
    then obtain j where "j < length (drop (Suc D) es)" "e = drop (Suc D) es ! j" by (auto simp: in_set_conv_nth)
    then show "(e_score e, e_obj e) \<noteq> (s, ob)" using other [of "Suc D + j"] d(1) by simp
  qed
  ultimately have "filter (\<lambda>e. (e_score e, e_obj e) \<noteq> (s, ob)) (take D es @ es ! D # drop (Suc D) es) = take D es @ drop (Suc D) es"
    using d by simp
  then show ?thesis using id_take_nth_drop [OF d(1)] by simp
qed

lemma zslDelete_spec:
  assumes rep: "zsl_rep z es" and len: "length es < U32"
  shows "\<exists>z'. zslDelete s ob z = Some ((s, ob) \<in> set (zkeys es), z') \<and> header z' = header z \<and>
    zsl_rep z' (filter (\<lambda>e. (e_score e, e_obj e) \<noteq> (s, ob)) es)"
proof -
  define D where "D = length (takeWhile (before s ob) es)"
  have ok: "elems_ok (header z) (zlevel z) es" by (rule zsl_repD(1) [OF rep])
  have Dn: "D \<le> length es" unfolding D_def by (rule length_takeWhile_le)
  have search: "zsl_search U32 (zsl_before s ob) z (zlevel z) (header z) 0 [] =
      Some (paddr (header z) es D, D, preds (header z) es D (zlevel z))"
    unfolding D_def by (rule search_from_header [OF rep goes_before [OF rep] len])
  obtain sp where s0: "slot z (paddr (header z) es D) 0 = Some (if D < length es then Some (e_addr (es ! D)) else None, sp)"
    using zsl_rep_slot0 [OF rep Dn] by blast
  have mem: "(s, ob) \<in> set (zkeys es) \<longleftrightarrow> D < length es \<and> e_score (es ! D) = s \<and> e_obj (es ! D) = ob"
  proof
    assume "(s, ob) \<in> set (zkeys es)"
    then obtain j where "j < length es" "e_score (es ! j) = s" "e_obj (es ! j) = ob"
      by (auto simp: zkeys_def in_set_conv_nth)
    then show "D < length es \<and> e_score (es ! D) = s \<and> e_obj (es ! D) = ob" using position_of [OF ok] by (simp add: D_def)
  qed (auto simp: zkeys_def)
  show ?thesis
  proof (cases "(s, ob) \<in> set (zkeys es)")
    case True
    then have d: "D < length es" "e_score (es ! D) = s" "e_obj (es ! D) = ob" using mem by simp_all
    have es: "es = take D es @ es ! D # drop (Suc D) es" using d(1) by (simp add: id_take_nth_drop [symmetric])
    note rep' = back_subst [of "zsl_rep z", OF rep es] and len' = back_subst [of "\<lambda>xs. length xs < U32", OF len es]
    have us: "preds (header z) es D (zlevel z) = preds (header z) (take D es @ drop D es) (length (take D es)) (zlevel z)"
      using Dn by simp
    obtain z' where z': "zslDeleteNode (e_addr (es ! D)) (preds (header z) es D (zlevel z)) z = Some z'"
      "zsl_rep (zslFreeNode (e_addr (es ! D)) z') (take D es @ drop (Suc D) es)" "header z' = header z"
      using zsl_delete_at [OF rep' len' us order_refl] by blast
    obtain n where n: "znodes z (e_addr (es ! D)) = Some n" "zobj n = Some ob" "zscore n = s" using node_of [OF rep d(1)] d by auto
    have "zslDelete s ob z = Some (True, zslFreeNode (e_addr (es ! D)) z')"
      using search s0 d(1) n z'(1) by (simp add: zslDelete_def)
    then show ?thesis unfolding remove_key [OF ok d] using z' True by (auto simp: zslFreeNode_def)
  next
    case False
    have k: "filter (\<lambda>e. (e_score e, e_obj e) \<noteq> (s, ob)) es = es" using False by (auto simp: filter_id_conv zkeys_def)
    have "zslDelete s ob z = Some (False, z)"
    proof (cases "D < length es")
      case True
      obtain n where n: "znodes z (e_addr (es ! D)) = Some n" "zobj n = Some (e_obj (es ! D))" "zscore n = e_score (es ! D)"
        using node_of [OF rep True] by blast
      have ne: "\<not> (e_score (es ! D) = s \<and> e_obj (es ! D) = ob)" using mem False True by blast
      show ?thesis using search s0 n True ne by (cases "e_score (es ! D) = s") (simp_all add: zslDelete_def)
    next
      case F: False
      show ?thesis using search s0 F by (simp add: zslDelete_def)
    qed
    then show ?thesis unfolding k using rep False by simp
  qed
qed

section \<open>Ranks\<close>

lemma goes_upto:
  assumes "zsl_rep z es"
  shows "goes_to (zsl_upto s ob) z es (length (takeWhile (\<lambda>e. \<not> zlt s ob (e_score e) (e_obj e)) es))"
proof (rule goes_to_elems [OF assms])
  show "\<not> zlt s ob (e_score (es ! i)) (e_obj (es ! i))"
    if "i < j" "j < length es" "\<not> zlt s ob (e_score (es ! j)) (e_obj (es ! j))" for i j
    using elems_sorted [OF zsl_repD(1) [OF assms] that(1,2)] that(3) zlt_trans by blast
qed (auto simp: zsl_upto_def zlt_def compareStringObjects_spec)

lemma goes_rank:
  assumes "zsl_rep z es" "length es < U64"
    and c: "\<And>t sp n. cnd t sp n = Some (P (uadd U64 t sp))" and P: "\<And>q. q \<le> length es \<Longrightarrow> 1 \<le> q \<Longrightarrow> P q \<longleftrightarrow> q \<le> D" and D: "D \<le> length es"
  shows "goes_to cnd z es D"
  unfolding goes_to_def
proof (intro conjI allI impI D)
  fix p q n
  assume a: "p < q \<and> q \<le> length es \<and> znodes z (paddr (header z) es q) = Some n"
  then have "uadd U64 p (q - p) = q" using assms(2) by (simp add: uadd_def)
  then show "cnd p (q - p) n = Some (q \<le> D)" using a P [of q] by (simp add: c)
qed

lemma high_header: "zsl_rep z es \<Longrightarrow> i < zlevel z \<Longrightarrow> i < phgt es 0"
  using elems_okD(5) [OF zsl_repD(1), of z es] by (simp add: phgt_def)

lemma rank_search:
  assumes rep: "zsl_rep z es" and len: "length es < U64" and dist: "distinct (map e_obj es)"
    and g: "goes_to (zsl_upto s ob) z es D"
    and D: "\<And>p. 1 \<le> p \<Longrightarrow> p \<le> D \<Longrightarrow> e_obj (es ! (p - 1)) = ob \<longleftrightarrow> p = r" and r: "1 \<le> r \<Longrightarrow> r = D"
  shows "i \<le> zlevel z \<Longrightarrow> p \<le> D \<Longrightarrow> i \<le> phgt es p \<Longrightarrow>
    zsl_rank_search s ob z i (paddr (header z) es p) p = Some (if i = 0 then 0 else r)"
proof (induction i arbitrary: p)
  case (Suc i)
  let ?q = "lastp (phgt es) i D"
  have Dn: "D \<le> length es" using g by (simp add: goes_to_def)
  have i: "i < zlevel z" using Suc.prems(1) by simp
  note q = lastpD [where H = "phgt es", OF high_header [OF rep i], of D]
  have w: "zsl_walk U64 (zsl_upto s ob) z i (paddr (header z) es p) p = Some (paddr (header z) es ?q, ?q)"
    using walk_spec [OF rep i g len] Suc.prems by simp
  have hit: "\<exists>n. znodes z (paddr (header z) es ?q) = Some n \<and>
      (case zobj n of None \<Rightarrow> False | Some o' \<Rightarrow> equalStringObjects o' ob) = (?q = r \<and> r \<noteq> 0)"
  proof (cases "?q = 0")
    case True
    obtain c where "meta z (header z) = Some (None, c, ZSKIPLIST_MAXLEVEL)" using rep by (auto simp: zsl_rep_def)
    then show ?thesis using True by (auto simp: meta_def paddr_def)
  next
    case False
    then show ?thesis using node_at [OF rep, of ?q] D [of ?q] q(1) Dn by auto
  qed
  show ?case
  proof (cases "?q = r \<and> r \<noteq> 0")
    case True
    then show ?thesis using w hit by auto
  next
    case False
    have "zsl_rank_search s ob z (Suc i) (paddr (header z) es p) p = zsl_rank_search s ob z i (paddr (header z) es ?q) ?q"
      using w hit False by auto
    also have "\<dots> = Some (if i = 0 then 0 else r)" using Suc.IH [of ?q] Suc.prems(1) q(1,2) by simp
    also have "\<dots> = Some r"
    proof (cases "i = 0")
      case True
      then have "?q = D" using lastp_0 [OF zsl_repD(1) [OF rep] Dn] by simp
      then show ?thesis using True False r by (cases r) auto
    qed simp
    finally show ?thesis by simp
  qed
qed simp

lemma zslGetRank_spec:
  assumes rep: "zsl_rep z es" and len: "length es < U64" and dist: "distinct (map e_obj es)"
  shows "j < length es \<Longrightarrow> zslGetRank (e_score (es ! j)) (e_obj (es ! j)) z = Some (Suc j)"
    and "ob \<notin> e_obj ` set es \<Longrightarrow> zslGetRank s ob z = Some 0"
proof -
  have ok: "elems_ok (header z) (zlevel z) es" by (rule zsl_repD(1) [OF rep])
  have start: "zslGetRank s ob z = Some r"
    if "goes_to (zsl_upto s ob) z es D" "\<And>p. 1 \<le> p \<Longrightarrow> p \<le> D \<Longrightarrow> e_obj (es ! (p - 1)) = ob \<longleftrightarrow> p = r" "1 \<le> r \<Longrightarrow> r = D" for s ob D r
    using rank_search [OF rep len dist that, of "zlevel z" 0] elems_okD(4,5) [OF ok]
    by (simp add: zslGetRank_def paddr_def phgt_def)
  show "zslGetRank (e_score (es ! j)) (e_obj (es ! j)) z = Some (Suc j)" if j: "j < length es"
  proof (rule start)
    let ?P = "\<lambda>e. \<not> zlt (e_score (es ! j)) (e_obj (es ! j)) (e_score e) (e_obj e)"
    have down: "?P (es ! a)" if "a < b" "b < length es" "?P (es ! b)" for a b
      using elems_sorted [OF ok that(1,2)] that(3) zlt_trans by blast
    have t: "i < length (takeWhile ?P es) \<longleftrightarrow> ?P (es ! i)" if "i < length es" for i
      using takeWhile_prefix [where P = ?P and xs = es, OF _ that] down by blast
    have "j < length (takeWhile ?P es)" using t [OF j] by simp
    moreover have "\<not> Suc j < length (takeWhile ?P es)" if "Suc j < length es"
      using t [OF that] elems_sorted [OF ok _ that, of j] by simp
    moreover have "length (takeWhile ?P es) \<le> length es" by (rule length_takeWhile_le)
    ultimately have D: "length (takeWhile ?P es) = Suc j" by (cases "Suc j < length es") auto
    show "goes_to (zsl_upto (e_score (es ! j)) (e_obj (es ! j))) z es (Suc j)"
      using goes_upto [OF rep] by (simp only: D [symmetric])
    show "e_obj (es ! (p - 1)) = e_obj (es ! j) \<longleftrightarrow> p = Suc j" if "1 \<le> p" "p \<le> Suc j" for p
      using nth_eq_iff_index_eq [OF dist, of "p - 1" j] j that by auto
  qed simp
  show "zslGetRank s ob z = Some 0" if "ob \<notin> e_obj ` set es"
  proof (rule start [OF goes_upto [OF rep]])
    show "e_obj (es ! (p - 1)) = ob \<longleftrightarrow> p = 0"
      if p: "1 \<le> p" "p \<le> length (takeWhile (\<lambda>e. \<not> zlt s ob (e_score e) (e_obj e)) es)" for p
    proof -
      have "p - 1 < length es" using p length_takeWhile_le [of "\<lambda>e. \<not> zlt s ob (e_score e) (e_obj e)" es] by simp
      then show ?thesis using \<open>ob \<notin> e_obj ` set es\<close> p(1) nth_mem by fastforce
    qed
  qed simp
qed

lemma nth_search:
  assumes rep: "zsl_rep z es" and len: "length es < U64" and rank: "1 \<le> rank"
    and D: "D = min rank (length es)"
  shows "i \<le> zlevel z \<Longrightarrow> p \<le> D \<Longrightarrow> i \<le> phgt es p \<Longrightarrow>
    zsl_nth_search rank z i (paddr (header z) es p) p =
      Some (if i = 0 \<or> length es < rank then None else Some (paddr (header z) es rank))"
proof (induction i arbitrary: p)
  case (Suc i)
  let ?q = "lastp (phgt es) i D" and ?c = "\<lambda>t sp n. Some (uadd U64 t sp \<le> rank)"
  have i: "i < zlevel z" using Suc.prems(1) by simp
  note q = lastpD [where H = "phgt es", OF high_header [OF rep i], of D]
  have g: "goes_to ?c z es D" by (rule goes_rank [OF rep len]) (auto simp: D)
  have w: "zsl_walk U64 ?c z i (paddr (header z) es p) p = Some (paddr (header z) es ?q, ?q)"
    using walk_spec [OF rep i g len] Suc.prems by simp
  show ?case
  proof (cases "?q = rank")
    case True
    then show ?thesis using w q(1) by (simp add: D)
  next
    case False
    have "zsl_nth_search rank z (Suc i) (paddr (header z) es p) p = zsl_nth_search rank z i (paddr (header z) es ?q) ?q"
      using w False by simp
    also have "\<dots> = Some (if i = 0 \<or> length es < rank then None else Some (paddr (header z) es rank))"
      using Suc.IH [of ?q] Suc.prems(1) q(1,2) by simp
    finally have e: "zsl_nth_search rank z (Suc i) (paddr (header z) es p) p =
      Some (if i = 0 \<or> length es < rank then None else Some (paddr (header z) es rank))" .
    have "length es < rank" if "i = 0"
      using False lastp_0 [OF zsl_repD(1) [OF rep], of D] that by (auto simp: D min_def split: if_splits)
    then show ?thesis unfolding e by auto
  qed
qed simp

lemma zslGetElementByRank_spec:
  assumes "zsl_rep z es" "length es < U64" "1 \<le> rank"
  shows "zslGetElementByRank rank z = Some (if rank \<le> length es then Some (e_addr (es ! (rank - 1))) else None)"
proof -
  have ok: "elems_ok (header z) (zlevel z) es" by (rule zsl_repD(1) [OF assms(1)])
  show ?thesis
    using nth_search [OF assms refl, of "zlevel z" 0] elems_okD(4,5) [OF ok] assms(3)
    by (auto simp: zslGetElementByRank_def paddr_def phgt_def)
qed

end
