(* ===== verification/ZslRange.thy ===== *)
theory ZslRange
  imports ZslOps
begin

text \<open>
  Ranges of scores, of strings and of ranks in a skip list: the first and the last element
  of a range, and the deletion of a range.
\<close>

section \<open>Ranges of scores\<close>

definition in_range :: "'s::linorder zrangespec \<Rightarrow> 's zelem \<Rightarrow> bool" where
  "in_range r e \<longleftrightarrow> zslValueGteMin (e_score e) r \<and> zslValueLteMax (e_score e) r"

lemma scores_mono: "elems_ok h L es \<Longrightarrow> i \<le> j \<Longrightarrow> j < length es \<Longrightarrow> e_score (es ! i) \<le> e_score (es ! j)"
  using elems_sorted [of h L es i j] by (cases "i = j") (auto simp: zlt_def)

lemma range_mono:
  "zslValueGteMin v r \<Longrightarrow> v \<le> w \<Longrightarrow> zslValueGteMin w r" "zslValueLteMax w r \<Longrightarrow> v \<le> w \<Longrightarrow> zslValueLteMax v r"
  by (auto simp: zslValueGteMin_def zslValueLteMax_def split: if_splits)

lemma zslIsInRange_spec:
  assumes rep: "zsl_rep z es"
  shows "\<exists>b. zslIsInRange r z = Some b \<and>
    (b \<longrightarrow> es \<noteq> [] \<and> zslValueGteMin (e_score (last es)) r \<and> zslValueLteMax (e_score (hd es)) r) \<and> (\<not> b \<longrightarrow> (\<forall>e \<in> set es. \<not> in_range r e))"
proof (cases "rmin r > rmax r \<or> rmin r = rmax r \<and> (minex r \<or> maxex r)")
  case True
  then have "\<not> in_range r e" for e :: "'a zelem"
    by (auto simp: in_range_def zslValueGteMin_def zslValueLteMax_def split: if_splits)
  then show ?thesis using True by (intro exI [of _ False]) (simp add: zslIsInRange_def)
next
  case F: False
  show ?thesis
  proof (cases "es = []")
    case True
    then show ?thesis using zsl_repD(3) [OF rep] F by (intro exI [of _ False]) (simp add: zslIsInRange_def)
  next
    case False
    have ok: "elems_ok (header z) (zlevel z) es" by (rule zsl_repD(1) [OF rep])
    have n: "length es - 1 < length es" "0 < length es" using False by simp_all
    have t: "tail z = Some (e_addr (es ! (length es - 1)))" using zsl_repD(3) [OF rep] False by (simp add: paddr_def)
    obtain l where l: "znodes z (e_addr (es ! (length es - 1))) = Some l" "zscore l = e_score (es ! (length es - 1))"
      using node_of [OF rep n(1)] by blast
    obtain f where f: "znodes z (e_addr (es ! 0)) = Some f" "zscore f = e_score (es ! 0)" using node_of [OF rep n(2)] by blast
    obtain sp where "slot z (header z) 0 = Some (Some (e_addr (es ! 0)), sp)"
      using zsl_rep_slot0 [OF rep, of 0] n by (auto simp: paddr_def)
    then have run: "zslIsInRange r z = Some (zslValueGteMin (e_score (last es)) r \<and> zslValueLteMax (e_score (hd es)) r)"
      using t l f False unfolding zslIsInRange_def if_not_P [OF F] by (simp add: last_conv_nth hd_conv_nth)
    have "\<not> in_range r e" if e: "e \<in> set es" and "\<not> (zslValueGteMin (e_score (last es)) r \<and> zslValueLteMax (e_score (hd es)) r)" for e
    proof -
      obtain j where "j < length es" "e = es ! j" using e by (auto simp: in_set_conv_nth)
      then have "e_score e \<le> e_score (last es)" "e_score (hd es) \<le> e_score e"
        using scores_mono [OF ok, of j "length es - 1"] scores_mono [OF ok, of 0 j] False by (simp_all add: last_conv_nth hd_conv_nth)
      then show ?thesis
        using that(2) range_mono(1) [of "e_score e" r "e_score (last es)"] range_mono(2) [of "e_score e" r "e_score (hd es)"]
        by (auto simp: in_range_def)
    qed
    then show ?thesis using run False by auto
  qed
qed

lemma find_first:
  assumes up: "\<And>i j. i < j \<Longrightarrow> j < length xs \<Longrightarrow> P (xs ! i) \<Longrightarrow> P (xs ! j)"
    and down: "\<And>i j. i < j \<Longrightarrow> j < length xs \<Longrightarrow> Q (xs ! j) \<Longrightarrow> Q (xs ! i)"
    and D: "D = length (takeWhile (\<lambda>x. \<not> P x) xs)"
  shows "find (\<lambda>x. P x \<and> Q x) xs = (if D < length xs \<and> Q (xs ! D) then Some (xs ! D) else None)"
proof -
  have t: "i < D \<longleftrightarrow> \<not> P (xs ! i)" if "i < length xs" for i
    unfolding D by (rule takeWhile_prefix [OF _ that]) (use up in blast)
  show ?thesis
  proof (cases "D < length xs \<and> Q (xs ! D)")
    case True
    have "\<not> P (xs ! j)" if "j < D" for j using t [of j] that True by simp
    then show ?thesis using t True by (auto simp: find_Some_iff intro!: exI [of _ D])
  next
    case False
    have "\<not> (P (xs ! i) \<and> Q (xs ! i))" if i: "i < length xs" for i
    proof
      assume pq: "P (xs ! i) \<and> Q (xs ! i)"
      then have "D \<le> i" using t [OF i] by simp
      then show False using pq False i down [of D i] by (cases "D = i") auto
    qed
    then show ?thesis using False by (auto simp: find_None_iff in_set_conv_nth)
  qed
qed

lemma goes_score:
  assumes "zsl_rep z es" and "\<And>v w. P w \<Longrightarrow> v \<le> w \<Longrightarrow> P v"
  shows "goes_to (\<lambda>t sp n. Some (P (zscore n))) z es (length (takeWhile (\<lambda>e. P (e_score e)) es))"
  by (rule goes_to_elems [OF assms(1)])
    (use assms(2) scores_mono [OF zsl_repD(1) [OF assms(1)]] in \<open>auto dest: less_imp_le\<close>)

text \<open>What the searches for the ends of a range come to, for any two conditions of which the one,
  once it holds, keeps holding and the other, once it fails, keeps failing along the list.\<close>

lemma first_search:
  assumes rep: "zsl_rep z es" and len: "length es < U64"
    and G: "\<And>t sp n e. zobj n = Some (e_obj e) \<Longrightarrow> zscore n = e_score e \<Longrightarrow> cnd t sp n = Some (\<not> G e)"
    and up: "\<And>i j. i < j \<Longrightarrow> j < length es \<Longrightarrow> G (es ! i) \<Longrightarrow> G (es ! j)"
    and down: "\<And>i j. i < j \<Longrightarrow> j < length es \<Longrightarrow> L (es ! j) \<Longrightarrow> L (es ! i)"
    and ex: "es \<noteq> []" "G (last es)"
  obtains D us sp n where "D < length es"
    "zsl_search U64 cnd z (zlevel z) (header z) 0 [] = Some (paddr (header z) es D, D, us)"
    "slot z (paddr (header z) es D) 0 = Some (Some (e_addr (es ! D)), sp)"
    "znodes z (e_addr (es ! D)) = Some n" "zobj n = Some (e_obj (es ! D))" "zscore n = e_score (es ! D)"
    "find (\<lambda>e. G e \<and> L e) es = (if L (es ! D) then Some (es ! D) else None)"
proof -
  define D where "D = length (takeWhile (\<lambda>e. \<not> G e) es)"
  have t: "i < D \<longleftrightarrow> \<not> G (es ! i)" if "i < length es" for i
    unfolding D_def by (rule takeWhile_prefix [OF _ that]) (use up in blast)
  have "D \<le> length es" unfolding D_def by (rule length_takeWhile_le)
  then have D: "D < length es" using t [of "length es - 1"] ex by (cases "D = length es") (auto simp: last_conv_nth)
  have g: "goes_to cnd z es D"
    unfolding D_def by (rule goes_to_elems [OF rep, where P = "\<lambda>e. \<not> G e"]) (use G up in blast)+
  obtain sp where s: "slot z (paddr (header z) es D) 0 = Some (Some (e_addr (es ! D)), sp)"
    using zsl_rep_slot0 [OF rep, of D] D by auto
  obtain n where n: "znodes z (e_addr (es ! D)) = Some n" "zobj n = Some (e_obj (es ! D))" "zscore n = e_score (es ! D)"
    using node_of [OF rep D] by blast
  have "find (\<lambda>e. G e \<and> L e) es = (if D < length es \<and> L (es ! D) then Some (es ! D) else None)"
    by (rule find_first [OF _ _ D_def]) (use up down in blast)+
  then show ?thesis using that [OF D search_from_header [OF rep g len] s n] D by simp
qed

lemma find_last:
  assumes up: "\<And>i j. i < j \<Longrightarrow> j < length xs \<Longrightarrow> G (xs ! i) \<Longrightarrow> G (xs ! j)"
    and t: "\<And>i. i < length xs \<Longrightarrow> i < D \<longleftrightarrow> L (xs ! i)" and D: "1 \<le> D" "D \<le> length xs"
  shows "find (\<lambda>e. G e \<and> L e) (rev xs) = (if G (xs ! (D - 1)) then Some (xs ! (D - 1)) else None)"
proof (cases "G (xs ! (D - 1))")
  case True
  have "rev xs ! (length xs - D) = xs ! (D - 1)" using D by (simp add: rev_nth)
  moreover have "\<not> L (rev xs ! j)" if "j < length xs - D" for j
  proof -
    have "length xs - Suc j < length xs" "\<not> length xs - Suc j < D" using that by linarith+
    then show ?thesis using t [of "length xs - Suc j"] that by (simp add: rev_nth)
  qed
  moreover have "L (xs ! (D - 1))" using t [of "D - 1"] D by simp
  ultimately have "find (\<lambda>e. G e \<and> L e) (rev xs) = Some (xs ! (D - 1))"
    unfolding find_Some_iff using D True by (intro exI [of _ "length xs - D"]) simp
  then show ?thesis using True by simp
next
  case False
  have "\<not> (G e \<and> L e)" if e: "e \<in> set xs" for e
  proof
    assume r: "G e \<and> L e"
    obtain j where j: "j < length xs" "e = xs ! j" using e by (auto simp: in_set_conv_nth)
    then have "j < D" using t [OF j(1)] r by simp
    then have "j < D - 1 \<or> j = D - 1" "D - 1 < length xs" using D by linarith+
    then show False using False r j(2) up [of j "D - 1"] D by auto
  qed
  then have "find (\<lambda>e. G e \<and> L e) (rev xs) = None" by (auto simp: find_None_iff)
  then show ?thesis using False by simp
qed

lemma last_search:
  assumes rep: "zsl_rep z es" and len: "length es < U64"
    and L: "\<And>t sp n e. zobj n = Some (e_obj e) \<Longrightarrow> zscore n = e_score e \<Longrightarrow> cnd t sp n = Some (L e)"
    and up: "\<And>i j. i < j \<Longrightarrow> j < length es \<Longrightarrow> G (es ! i) \<Longrightarrow> G (es ! j)"
    and down: "\<And>i j. i < j \<Longrightarrow> j < length es \<Longrightarrow> L (es ! j) \<Longrightarrow> L (es ! i)"
    and ex: "es \<noteq> []" "L (hd es)"
  obtains D us n where "D < length es"
    "zsl_search U64 cnd z (zlevel z) (header z) 0 [] = Some (e_addr (es ! D), Suc D, us)"
    "znodes z (e_addr (es ! D)) = Some n" "zobj n = Some (e_obj (es ! D))" "zscore n = e_score (es ! D)"
    "find (\<lambda>e. G e \<and> L e) (rev es) = (if G (es ! D) then Some (es ! D) else None)"
proof -
  define D where "D = length (takeWhile L es)"
  have t: "i < D \<longleftrightarrow> L (es ! i)" if "i < length es" for i
    unfolding D_def by (rule takeWhile_prefix [OF _ that]) (use down in blast)
  have "D \<le> length es" unfolding D_def by (rule length_takeWhile_le)
  then have D: "1 \<le> D" "D \<le> length es" "D - 1 < length es" using t [of 0] ex by (auto simp: hd_conv_nth)
  have g: "goes_to cnd z es D"
    unfolding D_def by (rule goes_to_elems [OF rep, where P = L]) (use L down in blast)+
  obtain n where n: "znodes z (e_addr (es ! (D - 1))) = Some n" "zobj n = Some (e_obj (es ! (D - 1)))" "zscore n = e_score (es ! (D - 1))"
    using node_of [OF rep D(3)] by blast
  have "paddr (header z) es D = e_addr (es ! (D - 1))" "Suc (D - 1) = D" using D(1) by (simp_all add: paddr_def)
  moreover have "find (\<lambda>e. G e \<and> L e) (rev es) = (if G (es ! (D - 1)) then Some (es ! (D - 1)) else None)"
    by (rule find_last [OF _ t D(1,2)]) (rule up)
  ultimately show ?thesis using that [OF D(3) _ n] search_from_header [OF rep g len] by simp
qed

lemma in_range_nth:
  assumes "elems_ok h lv es" "i < j" "j < length es"
  shows "zslValueGteMin (e_score (es ! i)) r \<Longrightarrow> zslValueGteMin (e_score (es ! j)) r"
    "zslValueLteMax (e_score (es ! j)) r \<Longrightarrow> zslValueLteMax (e_score (es ! i)) r"
  using range_mono scores_mono [OF assms(1) less_imp_le [OF assms(2)] assms(3)] by blast+

lemma zslFirstInRange_spec:
  assumes rep: "zsl_rep z es" and len: "length es < U64"
  shows "zslFirstInRange r z = Some (map_option e_addr (find (in_range r) es))"
proof -
  have ok: "elems_ok (header z) (zlevel z) es" by (rule zsl_repD(1) [OF rep])
  obtain b where b: "zslIsInRange r z = Some b"
    "b \<Longrightarrow> es \<noteq> [] \<and> zslValueGteMin (e_score (last es)) r \<and> zslValueLteMax (e_score (hd es)) r"
    "\<not> b \<Longrightarrow> \<forall>e \<in> set es. \<not> in_range r e"
    using zslIsInRange_spec [OF rep] by blast
  show ?thesis
  proof (cases b)
    case False
    then have "find (in_range r) es = None" using b(3) by (auto simp: find_None_iff)
    then show ?thesis using b(1) False by (simp add: zslFirstInRange_def)
  next
    case True
    show ?thesis
      by (rule first_search [OF rep len, where G = "\<lambda>e. zslValueGteMin (e_score e) r" and L = "\<lambda>e. zslValueLteMax (e_score e) r"
            and cnd = "\<lambda>t sp n. Some (\<not> zslValueGteMin (zscore n) r)"])
        (use b True in_range_nth [OF ok] in \<open>auto simp: zslFirstInRange_def in_range_def [abs_def]\<close>)
  qed
qed

lemma zslLastInRange_spec:
  assumes rep: "zsl_rep z es" and len: "length es < U64"
  shows "zslLastInRange r z = Some (map_option e_addr (find (in_range r) (rev es)))"
proof -
  have ok: "elems_ok (header z) (zlevel z) es" by (rule zsl_repD(1) [OF rep])
  obtain b where b: "zslIsInRange r z = Some b"
    "b \<Longrightarrow> es \<noteq> [] \<and> zslValueGteMin (e_score (last es)) r \<and> zslValueLteMax (e_score (hd es)) r"
    "\<not> b \<Longrightarrow> \<forall>e \<in> set es. \<not> in_range r e"
    using zslIsInRange_spec [OF rep] by blast
  show ?thesis
  proof (cases b)
    case False
    then have "find (in_range r) (rev es) = None" using b(3) by (auto simp: find_None_iff)
    then show ?thesis using b(1) False by (simp add: zslLastInRange_def)
  next
    case True
    show ?thesis
      by (rule last_search [OF rep len, where G = "\<lambda>e. zslValueGteMin (e_score e) r" and L = "\<lambda>e. zslValueLteMax (e_score e) r"
            and cnd = "\<lambda>t sp n. Some (zslValueLteMax (zscore n) r)"])
        (use b True in_range_nth [OF ok] in \<open>auto simp: zslLastInRange_def in_range_def [abs_def]\<close>)
  qed
qed

section \<open>Deletion of ranges\<close>

text \<open>The elements that stay: from the first one on that does not satisfy the condition.\<close>

primrec cut :: "(nat \<Rightarrow> 'a \<Rightarrow> bool) \<Rightarrow> nat \<Rightarrow> 'a list \<Rightarrow> 'a list" where
  "cut P t [] = []"
| "cut P t (x # xs) = (if P t x then cut P (Suc t) xs else x # xs)"

lemma cut_suffix: "\<exists>ys. xs = ys @ cut P t xs"
proof (induction xs arbitrary: t)
  case (Cons x xs)
  obtain ys where "xs = ys @ cut P (Suc t) xs" using Cons by blast
  then show ?case by (auto intro: exI [of _ "x # ys"] exI [of _ "[]"])
qed simp

lemma cut_const: "cut (\<lambda>t. P) t xs = dropWhile P xs"
  by (induction xs arbitrary: t) auto

lemma cut_upto: "cut (\<lambda>t x. t \<le> m) t xs = drop (Suc m - t) xs"
proof (induction xs arbitrary: t)
  case (Cons x xs)
  then show ?case by (cases "t \<le> m") (auto simp: Suc_diff_le)
qed simp

definition forget :: "(bytes, 'v) mapping \<Rightarrow> 's zelem list \<Rightarrow> (bytes, 'v) mapping" where
  "forget d es = Mapping.filter (\<lambda>ob v. ob \<notin> e_obj ` set es) d"

lemma lookup_forget [simp]: "Mapping.lookup (forget d es) ob = (if ob \<in> e_obj ` set es then None else Mapping.lookup d ob)"
  by (auto simp: forget_def lookup_filter split: option.splits)

lemma forget_Nil [simp]: "forget d [] = d"
  by (rule mapping_eqI) simp

lemma forget_Cons: "forget d (e # es) = forget (Mapping.delete (e_obj e) d) es"
  by (rule mapping_eqI) (auto simp: lookup_delete)

lemma delete_while_spec:
  assumes us: "us = preds h (pre @ es') (length pre) L"
  shows "zsl_rep z (pre @ r) \<Longrightarrow> header z = h \<Longrightarrow> zlevel z \<le> L \<Longrightarrow> length (pre @ r) < U32 \<Longrightarrow> t + length r < U64 \<Longrightarrow>
    (\<And>t e n. e \<in> set r \<Longrightarrow> zobj n = Some (e_obj e) \<Longrightarrow> zscore n = e_score e \<Longrightarrow> cnd t n = Some (P t e)) \<Longrightarrow>
    m + length r < U64 \<Longrightarrow>
    \<exists>z' ys. zsl_delete_while cnd us (if r = [] then None else Some (e_addr (r ! 0))) t m z d =
      Some (m + length ys, z', forget d ys) \<and> r = ys @ cut P t r \<and> zsl_rep z' (pre @ cut P t r) \<and> header z' = h"
proof (induction r arbitrary: z t m d)
  case Nil
  then show ?case by (simp add: zsl_delete_while.simps [of cnd us None])
next
  case (Cons e r)
  obtain n where n: "znodes z (e_addr e) = Some n" "zobj n = Some (e_obj e)" "zscore n = e_score e"
    using node_of [OF Cons.prems(1), of "length pre"] by (auto simp: nth_append)
  have c: "cnd t n = Some (P t e)" using Cons.prems(6) [of e n t] n by simp
  show ?case
  proof (cases "P t e")
    case False
    then have "zsl_delete_while cnd us (Some (e_addr e)) t m z d = Some (m, z, d)"
      using n c by (simp add: zsl_delete_while.simps [of cnd us "Some (e_addr e)"])
    then show ?thesis using False Cons.prems(1,2) by (auto intro!: exI [of _ "[]"])
  next
    case True
    obtain sp where s0: "slot z (e_addr e) 0 = Some (if r = [] then None else Some (e_addr (r ! 0)), sp)"
      using zsl_rep_slot0 [OF Cons.prems(1), of "Suc (length pre)"] by (auto simp: paddr_def nth_append split: if_splits)
    obtain z1 where z1: "zslDeleteNode (e_addr e) us z = Some z1" "zsl_rep (zslFreeNode (e_addr e) z1) (pre @ r)"
      "header z1 = header z" "zlevel z1 \<le> zlevel z"
      using zsl_delete_at [OF Cons.prems(1,4), of us es' L] us Cons.prems(2,3) by auto
    define z2 where "z2 = zslFreeNode (e_addr e) z1"
    have h2: "zsl_rep z2 (pre @ r)" "header z2 = h" "zlevel z2 \<le> L"
      using z1 Cons.prems(2,3) by (simp_all add: z2_def zslFreeNode_def)
    have inc: "uadd U64 t 1 = Suc t" "uadd U64 m 1 = Suc m" using Cons.prems(5,7) by (simp_all add: uadd_def)
    have run: "zsl_delete_while cnd us (Some (e_addr e)) t m z d =
        zsl_delete_while cnd us (if r = [] then None else Some (e_addr (r ! 0))) (Suc t) (Suc m) z2 (Mapping.delete (e_obj e) d)"
      using n c True s0 z1(1) inc by (simp add: zsl_delete_while.simps [of cnd us "Some (e_addr e)"] flip: z2_def)
    have c1: "cnd t n = Some (P t f)" if "f \<in> set r" "zobj n = Some (e_obj f)" "zscore n = e_score f" for t f n
      using Cons.prems(6) that by simp
    obtain z' ys where z': "zsl_delete_while cnd us (if r = [] then None else Some (e_addr (r ! 0))) (Suc t) (Suc m) z2 (Mapping.delete (e_obj e) d) =
        Some (Suc m + length ys, z', forget (Mapping.delete (e_obj e) d) ys)" "r = ys @ cut P (Suc t) r"
      "zsl_rep z' (pre @ cut P (Suc t) r)" "header z' = h"
      using Cons.IH [OF h2 _ _ c1, of "Suc t" "Suc m" "Mapping.delete (e_obj e) d"] Cons.prems(4,5,7) by fastforce
    have "forget (Mapping.delete (e_obj e) d) ys = forget d (e # ys)" by (rule forget_Cons [symmetric])
    then show ?thesis using run z' True by (intro exI [of _ z'] exI [of _ "e # ys"]) simp
  qed
qed

lemma filter_split:
  assumes up: "\<And>i j. i < j \<Longrightarrow> j < length xs \<Longrightarrow> G (xs ! i) \<Longrightarrow> G (xs ! j)"
    and down: "\<And>i j. i < j \<Longrightarrow> j < length xs \<Longrightarrow> L (xs ! j) \<Longrightarrow> L (xs ! i)"
    and xs: "xs = takeWhile (\<lambda>e. \<not> G e) xs @ t"
  shows "filter (\<lambda>e. G e \<and> L e) xs = takeWhile L t"
    "filter (\<lambda>e. \<not> (G e \<and> L e)) xs = takeWhile (\<lambda>e. \<not> G e) xs @ dropWhile L t"
proof -
  let ?pre = "takeWhile (\<lambda>e. \<not> G e) xs"
  have t: "t = dropWhile (\<lambda>e. \<not> G e) xs" using xs takeWhile_dropWhile_id [of "\<lambda>e. \<not> G e" xs] by (metis same_append_eq)
  have g: "G e" if "e \<in> set t" for e
  proof -
    have "sorted_wrt (\<lambda>x y. G x \<longrightarrow> G y) xs" using up by (auto simp: sorted_wrt_iff_nth_less)
    then show ?thesis using that unfolding t by (induction xs) (auto split: if_splits)
  qed
  have "sorted_wrt (\<lambda>x y. L y \<longrightarrow> L x) xs" using down by (auto simp: sorted_wrt_iff_nth_less)
  then have "sorted_wrt (\<lambda>x y. L y \<longrightarrow> L x) t" by (subst (asm) xs) (simp add: sorted_wrt_append)
  then have l: "\<not> L e" if "e \<in> set (dropWhile L t)" for e using that by (induction t) (auto split: if_splits)
  have p: "filter (\<lambda>e. G e \<and> L e) ?pre = []" "filter (\<lambda>e. \<not> (G e \<and> L e)) ?pre = ?pre"
    unfolding filter_id_conv filter_empty_conv using set_takeWhileD [of _ "\<lambda>e. \<not> G e" xs] by blast+
  have m: "filter (\<lambda>e. G e \<and> L e) (takeWhile L t) = takeWhile L t" "filter (\<lambda>e. \<not> (G e \<and> L e)) (takeWhile L t) = []"
    unfolding filter_id_conv filter_empty_conv using set_takeWhileD [of _ L t] g by blast+
  have d: "filter (\<lambda>e. G e \<and> L e) (dropWhile L t) = []" "filter (\<lambda>e. \<not> (G e \<and> L e)) (dropWhile L t) = dropWhile L t"
    unfolding filter_id_conv filter_empty_conv using l by blast+
  have "xs = ?pre @ takeWhile L t @ dropWhile L t" using xs by simp
  from arg_cong [OF this, of "filter (\<lambda>e. G e \<and> L e)"] arg_cong [OF this, of "filter (\<lambda>e. \<not> (G e \<and> L e))"]
  show "filter (\<lambda>e. G e \<and> L e) xs = takeWhile L t" "filter (\<lambda>e. \<not> (G e \<and> L e)) xs = ?pre @ dropWhile L t"
    unfolding filter_append p m d by simp_all
qed

lemma delete_search:
  assumes rep: "zsl_rep z es" and len: "length es < U32"
    and G: "\<And>t sp n e. zobj n = Some (e_obj e) \<Longrightarrow> zscore n = e_score e \<Longrightarrow> cnd t sp n = Some (\<not> G e)"
    and L: "\<And>t n e. zobj n = Some (e_obj e) \<Longrightarrow> zscore n = e_score e \<Longrightarrow> cnd' t n = Some (L e)"
    and up: "\<And>i j. i < j \<Longrightarrow> j < length es \<Longrightarrow> G (es ! i) \<Longrightarrow> G (es ! j)"
    and down: "\<And>i j. i < j \<Longrightarrow> j < length es \<Longrightarrow> L (es ! j) \<Longrightarrow> L (es ! i)"
    and gl: "gl = (\<lambda>e. G e \<and> L e)"
  obtains D us f sp z' where
    "zsl_search U64 cnd z (zlevel z) (header z) 0 [] = Some (paddr (header z) es D, D, us)"
    "slot z (paddr (header z) es D) 0 = Some (f, sp)"
    "zsl_delete_while cnd' us f 0 0 z d = Some (length (filter gl es), z', forget d (filter gl es))"
    "zsl_rep z' (filter (\<lambda>e. \<not> gl e) es)" "header z' = header z"
proof -
  define D where "D = length (takeWhile (\<lambda>e. \<not> G e) es)"
  define t where "t = drop D es"
  let ?pre = "takeWhile (\<lambda>e. \<not> G e) es"
  have Dn: "D \<le> length es" unfolding D_def by (rule length_takeWhile_le)
  have es: "es = ?pre @ t" unfolding t_def D_def by (metis append_take_drop_id takeWhile_eq_take)
  have g: "goes_to cnd z es D"
    unfolding D_def by (rule goes_to_elems [OF rep, where P = "\<lambda>e. \<not> G e"]) (use G up in blast)+
  obtain sp where s0: "slot z (paddr (header z) es D) 0 = Some (if t = [] then None else Some (e_addr (t ! 0)), sp)"
    using zsl_rep_slot0 [OF rep Dn] Dn by (auto simp: t_def split: if_splits)
  have us: "preds (header z) es D (zlevel z) = preds (header z) (?pre @ t) (length ?pre) (zlevel z)"
    unfolding D_def by (subst es) (rule refl)
  obtain z' ys where z': "zsl_delete_while cnd' (preds (header z) es D (zlevel z)) (if t = [] then None else Some (e_addr (t ! 0))) 0 0 z d =
      Some (0 + length ys, z', forget d ys)" "t = ys @ cut (\<lambda>t. L) 0 t" "zsl_rep z' (?pre @ cut (\<lambda>t. L) 0 t)" "header z' = header z"
  proof -
    have "zsl_rep z (?pre @ t)" "length (?pre @ t) < U32" using rep len es by argo+
    moreover from this(2) have "0 + length t < U64" by simp
    ultimately have "\<exists>z' ys. zsl_delete_while cnd' (preds (header z) es D (zlevel z)) (if t = [] then None else Some (e_addr (t ! 0))) 0 0 z d =
      Some (0 + length ys, z', forget d ys) \<and> t = ys @ cut (\<lambda>t. L) 0 t \<and> zsl_rep z' (?pre @ cut (\<lambda>t. L) 0 t) \<and> header z' = header z"
      by (intro delete_while_spec [OF us] L refl order_refl)
    then show ?thesis using that by blast
  qed
  have c: "cut (\<lambda>t. L) 0 t = dropWhile L t" by (rule cut_const)
  have ys: "ys = takeWhile L t"
    by (rule append_same_eq [THEN iffD1]) (rule trans [OF z'(2) [unfolded c, symmetric] takeWhile_dropWhile_id [symmetric]])
  have f: "filter gl es = ys" "filter (\<lambda>e. \<not> gl e) es = ?pre @ cut (\<lambda>t. L) 0 t"
    unfolding gl c ys by (rule filter_split [OF _ _ es]; (rule up | rule down); assumption)+
  show ?thesis by (rule that [OF search_from_header [OF rep g] s0, of z']) (use z' f len in simp_all)
qed

lemma zslDeleteRangeByScore_spec:
  assumes rep: "zsl_rep z es" and len: "length es < U32"
  shows "\<exists>z'. zslDeleteRangeByScore r z d = Some (length (filter (in_range r) es), z', forget d (filter (in_range r) es)) \<and>
    zsl_rep z' (filter (\<lambda>e. \<not> in_range r e) es) \<and> header z' = header z"
proof -
  have ok: "elems_ok (header z) (zlevel z) es" by (rule zsl_repD(1) [OF rep])
  have c: "(\<lambda>t sp n. Some (if minex r then zscore n \<le> rmin r else zscore n < rmin r)) = (\<lambda>t sp n. Some (\<not> zslValueGteMin (zscore n) r))"
    "(\<lambda>t n. Some (if maxex r then zscore n < rmax r else zscore n \<le> rmax r)) = (\<lambda>t n. Some (zslValueLteMax (zscore n) r))"
    by (auto simp: zslValueGteMin_def zslValueLteMax_def fun_eq_iff)
  show ?thesis
    unfolding zslDeleteRangeByScore_def c
    by (rule delete_search [OF rep len, where G = "\<lambda>e. zslValueGteMin (e_score e) r" and L = "\<lambda>e. zslValueLteMax (e_score e) r"
          and cnd = "\<lambda>t sp n. Some (\<not> zslValueGteMin (zscore n) r)" and cnd' = "\<lambda>t n. Some (zslValueLteMax (zscore n) r)"
          and gl = "in_range r" and d = d])
      (use in_range_nth [OF ok] in \<open>auto simp: in_range_def [abs_def]\<close>)
qed

lemma zslDeleteRangeByRank_spec:
  assumes rep: "zsl_rep z es" and len: "length es < U32"
  shows "\<exists>z'. zslDeleteRangeByRank start end' z d =
      Some (length (take (end' - (start - 1)) (drop (start - 1) es)), z', forget d (take (end' - (start - 1)) (drop (start - 1) es))) \<and>
    zsl_rep z' (take (start - 1) es @ drop (end' - (start - 1)) (drop (start - 1) es)) \<and> header z' = header z"
proof -
  define D where "D = min (start - 1) (length es)"
  define pre t where "pre = take D es" and "t = drop D es"
  have es: "es = pre @ t" by (simp add: pre_def t_def)
  have Dn: "D \<le> length es" by (simp add: D_def)
  have lpre: "length pre = D" using Dn by (simp add: pre_def)
  have pt: "pre = take (start - 1) es" "t = drop (start - 1) es" by (auto simp: pre_def t_def D_def min_def)
  have m: "end' - D = end' - (start - 1) \<or> t = []" by (auto simp: D_def t_def min_def)
  have "goes_to (\<lambda>t sp n. Some (uadd U64 t sp < start)) z es D"
    by (rule goes_rank [OF rep, where P = "\<lambda>q. q < start"]) (use len in \<open>auto simp: D_def\<close>)
  then have search: "zsl_search U64 (\<lambda>t sp n. Some (uadd U64 t sp < start)) z (zlevel z) (header z) 0 [] =
      Some (paddr (header z) es D, D, preds (header z) es D (zlevel z))"
    by (rule search_from_header [OF rep]) (use len in simp)
  obtain sp where s0: "slot z (paddr (header z) es D) 0 = Some (if t = [] then None else Some (e_addr (t ! 0)), sp)"
    using zsl_rep_slot0 [OF rep Dn] Dn by (auto simp: t_def split: if_splits)
  have us: "preds (header z) es D (zlevel z) = preds (header z) (pre @ t) (length pre) (zlevel z)" using lpre es by simp
  obtain z' ys where z': "zsl_delete_while (\<lambda>t n. Some (t \<le> end')) (preds (header z) es D (zlevel z))
      (if t = [] then None else Some (e_addr (t ! 0))) (Suc D) 0 z d = Some (0 + length ys, z', forget d ys)"
    "t = ys @ cut (\<lambda>t e. t \<le> end') (Suc D) t" "zsl_rep z' (pre @ cut (\<lambda>t e. t \<le> end') (Suc D) t)" "header z' = header z"
  proof -
    have "zsl_rep z (pre @ t)" "length (pre @ t) < U32" "Suc D + length t < U64" "0 + length t < U64"
      using rep len Dn unfolding es [symmetric] by (auto simp: t_def)
    have "\<exists>z' ys. zsl_delete_while (\<lambda>t n. Some (t \<le> end')) (preds (header z) es D (zlevel z))
      (if t = [] then None else Some (e_addr (t ! 0))) (Suc D) 0 z d = Some (0 + length ys, z', forget d ys) \<and>
      t = ys @ cut (\<lambda>t e. t \<le> end') (Suc D) t \<and> zsl_rep z' (pre @ cut (\<lambda>t e. t \<le> end') (Suc D) t) \<and> header z' = header z"
    proof (rule delete_while_spec [where h = "header z" and L = "zlevel z" and t = "Suc D" and m = 0 and r = t and z = z and pre = pre])
      show "zsl_rep z (pre @ t)" "length (pre @ t) < U32" "Suc D + length t < U64" "0 + length t < U64" by fact+
      show "preds (header z) es D (zlevel z) = preds (header z) (pre @ t) (length pre) (zlevel z)" by (rule us)
    qed (rule refl order_refl)+
    then show ?thesis using that by blast
  qed
  have c: "cut (\<lambda>t e. t \<le> end') (Suc D) t = drop (end' - (start - 1)) t" using m by (auto simp: cut_upto)
  have ys: "ys = take (end' - (start - 1)) t"
    by (rule append_same_eq [THEN iffD1]) (rule trans [OF z'(2) [unfolded c, symmetric] append_take_drop_id [symmetric]])
  have "D + 1 < U64" using Dn len by linarith
  then have "uadd U64 D 1 = Suc D" unfolding uadd_def by (simp only: mod_less add_Suc_right add_0_right One_nat_def)
  then have "zslDeleteRangeByRank start end' z d = Some (length ys, z', forget d ys)"
    unfolding zslDeleteRangeByRank_def search by (simp only: bind.bind_lunit prod.case s0 z'(1) add_0)
  moreover have "ys = take (end' - (start - 1)) (drop (start - 1) es)" unfolding ys pt(2) ..
  moreover have "pre @ cut (\<lambda>t e. t \<le> end') (Suc D) t = take (start - 1) es @ drop (end' - (start - 1)) (drop (start - 1) es)"
    by (subst c) (simp only: pt)
  ultimately show ?thesis using z'(3,4) by (intro exI [of _ z'] conjI) (simp_all only:)
qed

end
