(* ===== verification/ZslLex.thy ===== *)
theory ZslLex
  imports ZslRange
begin

text \<open>
  Ranges of strings.  The bounds are ordered with the two shared objects as the least and the
  greatest one; the functions assume, as the commands do, that all scores are the same.
\<close>

section \<open>The order of bounds\<close>

instantiation lexbound :: linorder
begin

definition less_lexbound :: "lexbound \<Rightarrow> lexbound \<Rightarrow> bool" where
  "less_lexbound a b \<longleftrightarrow>
    (case (a, b) of
       (MinString, b) \<Rightarrow> b \<noteq> MinString
     | (LexObj x, LexObj y) \<Rightarrow> x < y
     | (LexObj x, b) \<Rightarrow> b = MaxString
     | (MaxString, b) \<Rightarrow> False)"

definition less_eq_lexbound :: "lexbound \<Rightarrow> lexbound \<Rightarrow> bool" where
  "less_eq_lexbound a b \<longleftrightarrow> a < b \<or> a = (b::lexbound)"

instance
  by standard (auto simp: less_lexbound_def less_eq_lexbound_def split: lexbound.splits)

end

lemma less_lexbound_simps [simp]:
  "LexObj x < LexObj y \<longleftrightarrow> x < y" "LexObj x \<le> LexObj y \<longleftrightarrow> x \<le> y"
  "MinString \<le> b" "b \<le> MaxString" "\<not> b < MinString" "\<not> MaxString < b"
  by (auto simp: less_lexbound_def less_eq_lexbound_def le_less split: lexbound.splits)

lemma compareStringObjectsForLexRange_spec:
  shows "compareStringObjectsForLexRange a b < 0 \<longleftrightarrow> a < b" "compareStringObjectsForLexRange a b > 0 \<longleftrightarrow> b < a"
proof -
  have c: "compareStringObjects x y > 0 \<longleftrightarrow> y < x" for x y
    using compareStringObjects_spec [of x y] by (metis not_le not_less)
  show "compareStringObjectsForLexRange a b < 0 \<longleftrightarrow> a < b" "compareStringObjectsForLexRange a b > 0 \<longleftrightarrow> b < a"
    using compareStringObjects_spec c
    by (cases a; cases b; auto simp: compareStringObjectsForLexRange_def less_lexbound_def lex_contents_def)+
qed

definition in_lex :: "zlexrangespec \<Rightarrow> 's zelem \<Rightarrow> bool" where
  "in_lex r e \<longleftrightarrow> (if lminex r then lmin r < LexObj (e_obj e) else lmin r \<le> LexObj (e_obj e))
    \<and> (if lmaxex r then LexObj (e_obj e) < lmax r else LexObj (e_obj e) \<le> lmax r)"

lemma lex_bounds:
  "zslLexValueGteMin v r \<longleftrightarrow> (if lminex r then lmin r < LexObj v else lmin r \<le> LexObj v)"
  "zslLexValueLteMax v r \<longleftrightarrow> (if lmaxex r then LexObj v < lmax r else LexObj v \<le> lmax r)"
  unfolding zslLexValueGteMin_def zslLexValueLteMax_def
  using compareStringObjectsForLexRange_spec [of "LexObj v"] by (simp_all add: not_less [symmetric])

lemma in_lex_eq: "in_lex r = (\<lambda>e. zslLexValueGteMin (e_obj e) r \<and> zslLexValueLteMax (e_obj e) r)"
  by (auto simp: in_lex_def lex_bounds fun_eq_iff)

definition same_score :: "'s zelem list \<Rightarrow> bool" where
  "same_score es \<longleftrightarrow> (\<forall>e \<in> set es. \<forall>f \<in> set es. e_score e = e_score f)"

lemma in_lex_nth:
  assumes "elems_ok h lv es" "same_score es" "i < j" "j < length es"
  shows "zslLexValueGteMin (e_obj (es ! i)) r \<Longrightarrow> zslLexValueGteMin (e_obj (es ! j)) r"
    "zslLexValueLteMax (e_obj (es ! j)) r \<Longrightarrow> zslLexValueLteMax (e_obj (es ! i)) r"
proof -
  have "e_score (es ! i) = e_score (es ! j)" using assms(2-4) by (simp add: same_score_def)
  then have "LexObj (e_obj (es ! i)) < LexObj (e_obj (es ! j))"
    using elems_sorted [OF assms(1,3,4)] by (simp add: zlt_def)
  then show "zslLexValueGteMin (e_obj (es ! i)) r \<Longrightarrow> zslLexValueGteMin (e_obj (es ! j)) r"
    "zslLexValueLteMax (e_obj (es ! j)) r \<Longrightarrow> zslLexValueLteMax (e_obj (es ! i)) r"
    unfolding lex_bounds by (metis order.strict_trans order.strict_trans1 order.strict_trans2 order.strict_implies_order)+
qed

section \<open>The ends of a range\<close>

text \<open>Different bounds with the same contents: one of the shared objects and the string it was created with.\<close>

definition mixed_up :: "zlexrangespec \<Rightarrow> bool" where
  "mixed_up r \<longleftrightarrow> lmin r \<noteq> lmax r \<and> lex_contents (lmin r) = lex_contents (lmax r) \<and> (lminex r \<or> lmaxex r)"

lemma zsl_lex_empty_spec: "zsl_lex_empty r \<Longrightarrow> \<not> mixed_up r \<Longrightarrow> \<not> in_lex r e"
  unfolding zsl_lex_empty_def mixed_up_def in_lex_def
  using compareStringObjectsForLexRange_spec(2) [of "lmin r" "lmax r"] compareStringObjects_spec(2)
  by (auto split: if_splits)

lemma zslIsInLexRange_spec:
  assumes rep: "zsl_rep z es" and same: "same_score es"
  shows "\<exists>b. zslIsInLexRange r z = Some b \<and>
    (b \<longrightarrow> \<not> mixed_up r \<and> es \<noteq> [] \<and> zslLexValueGteMin (e_obj (last es)) r \<and> zslLexValueLteMax (e_obj (hd es)) r) \<and>
    (\<not> b \<longrightarrow> mixed_up r \<or> (\<forall>e \<in> set es. \<not> in_lex r e))"
proof (cases "zsl_lex_empty r \<or> es = []")
  case True
  then have "zslIsInLexRange r z = Some False" using zsl_repD(3) [OF rep] by (auto simp: zslIsInLexRange_def)
  then show ?thesis using zsl_lex_empty_spec [of r] True by (intro exI [of _ False]) auto
next
  case False
  have ok: "elems_ok (header z) (zlevel z) es" by (rule zsl_repD(1) [OF rep])
  have n: "length es - 1 < length es" "0 < length es" using False by simp_all
  have t: "tail z = Some (e_addr (es ! (length es - 1)))" using zsl_repD(3) [OF rep] False by (simp add: paddr_def)
  obtain l where l: "znodes z (e_addr (es ! (length es - 1))) = Some l" "zobj l = Some (e_obj (es ! (length es - 1)))"
    using node_of [OF rep n(1)] by blast
  obtain f where f: "znodes z (e_addr (es ! 0)) = Some f" "zobj f = Some (e_obj (es ! 0))" using node_of [OF rep n(2)] by blast
  obtain sp where "slot z (header z) 0 = Some (Some (e_addr (es ! 0)), sp)"
    using zsl_rep_slot0 [OF rep, of 0] n by (auto simp: paddr_def)
  then have run: "zslIsInLexRange r z = Some (zslLexValueGteMin (e_obj (last es)) r \<and> zslLexValueLteMax (e_obj (hd es)) r)"
    using t l f False by (simp add: zslIsInLexRange_def last_conv_nth hd_conv_nth)
  have "\<not> mixed_up r" using False compareStringObjects_spec(2) by (auto simp: zsl_lex_empty_def mixed_up_def)
  moreover have "\<not> in_lex r e" if e: "e \<in> set es" and "\<not> (zslLexValueGteMin (e_obj (last es)) r \<and> zslLexValueLteMax (e_obj (hd es)) r)" for e
  proof -
    obtain j where j: "j < length es" "e = es ! j" using e by (auto simp: in_set_conv_nth)
    have "zslLexValueGteMin (e_obj e) r \<Longrightarrow> zslLexValueGteMin (e_obj (last es)) r"
      using in_lex_nth(1) [OF ok same, of j "length es - 1" r] j False
      by (cases "j = length es - 1") (auto simp: last_conv_nth)
    moreover have "zslLexValueLteMax (e_obj e) r \<Longrightarrow> zslLexValueLteMax (e_obj (hd es)) r"
      using in_lex_nth(2) [OF ok same, of 0 j r] j False by (cases "j = 0") (auto simp: hd_conv_nth)
    ultimately show ?thesis using that(2) by (auto simp: in_lex_eq)
  qed
  ultimately show ?thesis using run False by auto
qed

lemma zslFirstInLexRange_spec:
  assumes rep: "zsl_rep z es" and same: "same_score es" and len: "length es < U64"
  shows "zslFirstInLexRange r z = Some (if mixed_up r then None else map_option e_addr (find (in_lex r) es))"
proof -
  have ok: "elems_ok (header z) (zlevel z) es" by (rule zsl_repD(1) [OF rep])
  obtain b where b: "zslIsInLexRange r z = Some b"
    "b \<Longrightarrow> \<not> mixed_up r \<and> es \<noteq> [] \<and> zslLexValueGteMin (e_obj (last es)) r \<and> zslLexValueLteMax (e_obj (hd es)) r"
    "\<not> b \<Longrightarrow> mixed_up r \<or> (\<forall>e \<in> set es. \<not> in_lex r e)"
    using zslIsInLexRange_spec [OF rep same] by blast
  show ?thesis
  proof (cases b)
    case False
    then have "mixed_up r \<or> find (in_lex r) es = None" using b(3) by (auto simp: find_None_iff)
    then show ?thesis using b(1) False by (auto simp: zslFirstInLexRange_def)
  next
    case True
    show ?thesis
      by (rule first_search [OF rep len, where G = "\<lambda>e. zslLexValueGteMin (e_obj e) r" and L = "\<lambda>e. zslLexValueLteMax (e_obj e) r"
            and cnd = "\<lambda>t sp n. do { v \<leftarrow> zobj n; Some (\<not> zslLexValueGteMin v r) }"])
        (use b True in_lex_nth [OF ok same] in \<open>auto simp: zslFirstInLexRange_def in_lex_eq\<close>)
  qed
qed

lemma zslLastInLexRange_spec:
  assumes rep: "zsl_rep z es" and same: "same_score es" and len: "length es < U64"
  shows "zslLastInLexRange r z = Some (if mixed_up r then None else map_option e_addr (find (in_lex r) (rev es)))"
proof -
  have ok: "elems_ok (header z) (zlevel z) es" by (rule zsl_repD(1) [OF rep])
  obtain b where b: "zslIsInLexRange r z = Some b"
    "b \<Longrightarrow> \<not> mixed_up r \<and> es \<noteq> [] \<and> zslLexValueGteMin (e_obj (last es)) r \<and> zslLexValueLteMax (e_obj (hd es)) r"
    "\<not> b \<Longrightarrow> mixed_up r \<or> (\<forall>e \<in> set es. \<not> in_lex r e)"
    using zslIsInLexRange_spec [OF rep same] by blast
  show ?thesis
  proof (cases b)
    case False
    then have "mixed_up r \<or> find (in_lex r) (rev es) = None" using b(3) by (auto simp: find_None_iff)
    then show ?thesis using b(1) False by (auto simp: zslLastInLexRange_def)
  next
    case True
    show ?thesis
      by (rule last_search [OF rep len, where G = "\<lambda>e. zslLexValueGteMin (e_obj e) r" and L = "\<lambda>e. zslLexValueLteMax (e_obj e) r"
            and cnd = "\<lambda>t sp n. do { v \<leftarrow> zobj n; Some (zslLexValueLteMax v r) }"])
        (use b True in_lex_nth [OF ok same] in \<open>auto simp: zslLastInLexRange_def in_lex_eq\<close>)
  qed
qed

lemma zslDeleteRangeByLex_spec:
  assumes rep: "zsl_rep z es" and same: "same_score es" and len: "length es < U32"
  shows "\<exists>z'. zslDeleteRangeByLex r z d = Some (length (filter (in_lex r) es), z', forget d (filter (in_lex r) es)) \<and>
    zsl_rep z' (filter (\<lambda>e. \<not> in_lex r e) es) \<and> header z' = header z"
proof -
  have ok: "elems_ok (header z) (zlevel z) es" by (rule zsl_repD(1) [OF rep])
  show ?thesis
    unfolding zslDeleteRangeByLex_def
    by (rule delete_search [OF rep len, where G = "\<lambda>e. zslLexValueGteMin (e_obj e) r" and L = "\<lambda>e. zslLexValueLteMax (e_obj e) r"
          and cnd = "\<lambda>t sp n. do { v \<leftarrow> zobj n; Some (\<not> zslLexValueGteMin v r) }"
          and cnd' = "\<lambda>t n. do { v \<leftarrow> zobj n; Some (zslLexValueLteMax v r) }" and gl = "in_lex r" and d = d])
      (use in_lex_nth [OF ok same] in \<open>auto simp: in_lex_eq\<close>)
qed

end
