(* ===== verification/SkipList.thy ===== *)
theory SkipList
  imports ZslLex
begin

text \<open>
  The properties of the skip list, stated on the ordered list of elements it represents.
\<close>

section \<open>A list to evaluate on\<close>

lemma zsl_insert_keys:
  assumes "zsl_rep z es" "znodes z x = None" "1 \<le> lvl" "lvl \<le> ZSKIPLIST_MAXLEVEL" "Suc (length es) < U32"
    and "(s, ob) \<notin> set (zkeys es)"
  shows "\<exists>z'. zslInsert x lvl s ob z = Some z' \<and> header z' = header z \<and>
    zsl_rep z' (takeWhile (before s ob) es @ \<lparr>e_addr = x, e_height = lvl, e_score = s, e_obj = ob\<rparr> # dropWhile (before s ob) es)"
proof -
  have "\<not> (e_score e = s \<and> e_obj e = ob)" if "e \<in> set es" for e using assms(6) that by (auto simp: zkeys_def)
  moreover have "ins_at (length (takeWhile (before s ob) es)) e es = takeWhile (before s ob) es @ e # dropWhile (before s ob) es" for e
    by (simp add: ins_at_def takeWhile_eq_take [symmetric] dropWhile_eq_drop [symmetric])
  ultimately show ?thesis using zslInsert_spec [OF assms(1-5) _ refl refl, of s ob] by auto
qed

abbreviation el :: "nat \<Rightarrow> nat \<Rightarrow> 's \<Rightarrow> bytes \<Rightarrow> 's zelem" where
  "el a n s ob \<equiv> \<lparr>e_addr = a, e_height = n, e_score = s, e_obj = ob\<rparr>"

lemma zsl_ab:
  fixes s t :: "'s::{linorder,zero}"
  assumes "s \<le> t"
  shows "\<exists>z. zsl_rep z [el 1 1 s [97], el 2 3 t [98]]"
proof -
  obtain z1 where z1: "zsl_rep z1 [el 1 1 s [97]]" "header z1 = 0"
    using zsl_insert_keys [OF zslCreate_rep [of 0], of 1 1 s "[97]"]
    by (auto simp: zslCreate_def ZSKIPLIST_MAXLEVEL_def zkeys_def)
  have "meta z1 2 = None" using z1 unfolding zsl_rep_def by auto
  then have free: "znodes z1 2 = None" by (simp add: meta_def split: option.splits)
  have "before t [98] (el 1 1 s [97])" using assms by (auto simp: before_def zlt_def le_less)
  then show ?thesis using zsl_insert_keys [OF z1(1) free, of 3 t "[98]"] by (auto simp: ZSKIPLIST_MAXLEVEL_def zkeys_def)
qed

section \<open>Insertion and deletion\<close>

lemma zsl_draw_ge: "zsl_draw rs n = Some lvl \<Longrightarrow> n \<le> lvl"
proof (induction rs arbitrary: n)
  case (Cons r rs)
  then show ?case by (fastforce split: if_splits)
qed simp

lemma zslRandomLevel_range: "zslRandomLevel rs = Some lvl \<Longrightarrow> 1 \<le> lvl \<and> lvl \<le> ZSKIPLIST_MAXLEVEL"
  using zsl_draw_ge [of rs 1] by (auto simp: zslRandomLevel_def ZSKIPLIST_MAXLEVEL_def bind_eq_Some_conv)

text \<open>C21: Inserting a score and an object that are not there together, into a node at any free
  address and with any height the random draw can give, succeeds: every link, span, backward
  pointer, the level, the tail and the length are again those of the ordered list, in which the
  new element stands behind exactly the elements with a smaller score, or the same score and a
  smaller object.\<close>

theorem zslInsert_correct:
  assumes "zsl_rep z es" "znodes z x = None" "zslRandomLevel rs = Some lvl" "Suc (length es) < U32"
    and "(s, ob) \<notin> set (zkeys es)"
  shows "\<exists>z'. zslInsert x lvl s ob z = Some z' \<and> header z' = header z \<and>
    zsl_rep z' (takeWhile (before s ob) es @ \<lparr>e_addr = x, e_height = lvl, e_score = s, e_obj = ob\<rparr> # dropWhile (before s ob) es)"
  using zsl_insert_keys [OF assms(1,2) _ _ assms(4,5)] zslRandomLevel_range [OF assms(3)] by blast

theorem zslInsert_correct_witness:
  "\<exists>z. zslInsert 1 4 (5::nat) [97] (zslCreate 0) = Some z \<and> zsl_rep z [el 1 4 5 [97]]"
  using zslInsert_correct [OF zslCreate_rep [of 0], of 1 "[3, 65536, 7, 20000]" 4 "5::nat" "[97]"]
  by (auto simp: zslCreate_def ZSKIPLIST_MAXLEVEL_def zkeys_def zslRandomLevel_def)

text \<open>C22: Deleting a score and an object reports whether they are there together and removes
  exactly that element; the rest keeps its order and its links, spans and levels are mended.\<close>

theorem zslDelete_correct:
  assumes "zsl_rep z es" "length es < U32"
  shows "\<exists>z'. zslDelete s ob z = Some ((s, ob) \<in> set (zkeys es), z') \<and> header z' = header z \<and>
    zsl_rep z' (filter (\<lambda>e. (e_score e, e_obj e) \<noteq> (s, ob)) es)"
  by (rule zslDelete_spec [OF assms])

theorem zslDelete_correct_witness:
  "\<exists>z z'. zsl_rep z [el 1 1 (5::nat) [97], el 2 3 7 [98]] \<and> zslDelete 5 [97] z = Some (True, z') \<and> zsl_rep z' [el 2 3 7 [98]]"
proof -
  obtain z where z: "zsl_rep z [el 1 1 (5::nat) [97], el 2 3 7 [98]]" using zsl_ab [of "5::nat" 7] by auto
  from zslDelete_correct [OF z, of 5 "[97]"] z show ?thesis by (auto simp: zkeys_def)
qed

section \<open>Ranks\<close>

text \<open>C23: Rank and element by rank are inverse to each other: when no object occurs twice, the
  rank of an element is its position counted from one, \<open>0\<close> for an object that is not there, and
  the element found at a rank is the one with that rank, none beyond the length.  So the spans on
  all levels add up.\<close>

theorem zsl_rank_inverse:
  assumes "zsl_rep z es" "length es < U64" "distinct (map e_obj es)"
  shows "(\<forall>j < length es. zslGetRank (e_score (es ! j)) (e_obj (es ! j)) z = Some (Suc j) \<and>
      zslGetElementByRank (Suc j) z = Some (Some (e_addr (es ! j))))
    \<and> (\<forall>s ob. ob \<notin> e_obj ` set es \<longrightarrow> zslGetRank s ob z = Some 0)
    \<and> (\<forall>rank > length es. zslGetElementByRank rank z = Some None)"
  using zslGetRank_spec [OF assms] zslGetElementByRank_spec [OF assms(1,2)] by simp

theorem zsl_rank_inverse_witness:
  "\<exists>z. zsl_rep z [el 1 1 (5::nat) [97], el 2 3 7 [98]] \<and> zslGetRank 7 [98] z = Some 2 \<and>
    zslGetElementByRank 2 z = Some (Some 2) \<and> zslGetElementByRank 3 z = Some None"
proof -
  obtain z where z: "zsl_rep z [el 1 1 (5::nat) [97], el 2 3 7 [98]]" using zsl_ab [of "5::nat" 7] by auto
  from zsl_rank_inverse [OF z] z show ?thesis by (auto simp: less_Suc_eq numeral_2_eq_2)
qed

section \<open>Ranges\<close>

text \<open>The first and the last element in a range of scores, with inclusive and exclusive bounds,
  are those of the ordered list; none for an empty range, whatever the early tests decide.\<close>

theorem zsl_range_ends:
  assumes "zsl_rep z es" "length es < U64"
  shows "zslFirstInRange r z = Some (map_option e_addr (find (in_range r) es)) \<and>
    zslLastInRange r z = Some (map_option e_addr (find (in_range r) (rev es)))"
  using zslFirstInRange_spec [OF assms] zslLastInRange_spec [OF assms] by simp

theorem zsl_range_ends_witness:
  "\<exists>z. zsl_rep z [el 1 1 (5::nat) [97], el 2 3 7 [98]] \<and>
    zslFirstInRange \<lparr>rmin = 5, rmax = 9, minex = True, maxex = False\<rparr> z = Some (Some 2)"
proof -
  obtain z where z: "zsl_rep z [el 1 1 (5::nat) [97], el 2 3 7 [98]]" using zsl_ab [of "5::nat" 7] by auto
  from zsl_range_ends [OF z, of "\<lparr>rmin = 5, rmax = 9, minex = True, maxex = False\<rparr>"] z show ?thesis
    by (auto simp: in_range_def zslValueGteMin_def zslValueLteMax_def)
qed

text \<open>The deletions of a range of scores and of a range of ranks remove exactly the elements of
  the range from the list and their objects from the dictionary, and report their number.\<close>

theorem zsl_delete_ranges:
  assumes "zsl_rep z es" "length es < U32"
  shows "(\<exists>z'. zslDeleteRangeByScore r z d = Some (length (filter (in_range r) es), z', forget d (filter (in_range r) es)) \<and>
      zsl_rep z' (filter (\<lambda>e. \<not> in_range r e) es))
    \<and> (\<exists>z'. zslDeleteRangeByRank start end' z d = Some (length (take (end' - (start - 1)) (drop (start - 1) es)), z',
          forget d (take (end' - (start - 1)) (drop (start - 1) es))) \<and>
      zsl_rep z' (take (start - 1) es @ drop (end' - (start - 1)) (drop (start - 1) es)))"
  using zslDeleteRangeByScore_spec [OF assms, of r d] zslDeleteRangeByRank_spec [OF assms, of start end' d] by blast

theorem zsl_delete_ranges_witness:
  "\<exists>z z' d. zsl_rep z [el 1 1 (5::nat) [97], el 2 3 7 [98]] \<and>
    zslDeleteRangeByRank 1 1 z d = Some (1, z', forget (d :: (bytes, nat) mapping) [el 1 1 (5::nat) [97]]) \<and> zsl_rep z' [el 2 3 7 [98]]"
proof -
  obtain z where z: "zsl_rep z [el 1 1 (5::nat) [97], el 2 3 7 [98]]" using zsl_ab [of "5::nat" 7] by auto
  from zsl_delete_ranges [OF z, of undefined "Mapping.empty :: (bytes, nat) mapping" 1 1] z show ?thesis by auto
qed

text \<open>C24: Among elements of one score the ends of a range of strings are right, except for a range
  whose bounds are one of the shared objects for \<open>-\<close> and \<open>+\<close> and the very string that object was
  created with: then the early test compares contents and finds the range empty.  The deletion
  has no such test and is right for every range.\<close>

theorem zsl_lex_ranges:
  assumes "zsl_rep z es" "length es < U32" "same_score es"
  shows "zslFirstInLexRange r z = Some (if mixed_up r then None else map_option e_addr (find (in_lex r) es)) \<and>
    zslLastInLexRange r z = Some (if mixed_up r then None else map_option e_addr (find (in_lex r) (rev es))) \<and>
    (\<exists>z'. zslDeleteRangeByLex r z d = Some (length (filter (in_lex r) es), z', forget d (filter (in_lex r) es)) \<and>
      zsl_rep z' (filter (\<lambda>e. \<not> in_lex r e) es))"
proof -
  have "length es < U64" using assms(2) by simp
  then show ?thesis
    using zslFirstInLexRange_spec [OF assms(1,3)] zslLastInLexRange_spec [OF assms(1,3)]
      zslDeleteRangeByLex_spec [OF assms(1,3,2), of r d] by blast
qed

theorem zsl_lex_ranges_witness:
  "\<exists>z z' r d. zsl_rep z [el 1 1 (5::nat) [97], el 2 3 5 [98]] \<and>
    zslParseLexRange [45] (40 # lex_contents MinString) = Some r \<and>
    zslFirstInLexRange r z = Some None \<and> zslDeleteRangeByLex r z (Mapping.empty :: (bytes, nat) mapping) = Some (2, z', d)"
proof -
  obtain z where z: "zsl_rep z [el 1 1 (5::nat) [97], el 2 3 5 [98]]" using zsl_ab [of "5::nat" 5] by auto
  define r where "r = \<lparr>lmin = MinString, lmax = LexObj (lex_contents MinString), lminex = False, lmaxex = True\<rparr>"
  have p: "zslParseLexRange [45] (40 # lex_contents MinString) = Some r"
    by (simp add: zslParseLexRange_def zslParseLexRangeItem_def r_def)
  have m: "mixed_up r" by (simp add: mixed_up_def r_def lex_contents_def)
  have i: "in_lex r (el a n (5::nat) [97])" "in_lex r (el a n (5::nat) [98])" for a n
    by (simp_all add: in_lex_def r_def lex_contents_def)
  have "same_score [el 1 1 (5::nat) [97], el 2 3 5 [98]]" by (simp add: same_score_def)
  from zsl_lex_ranges [OF z _ this, of r "Mapping.empty :: (bytes, nat) mapping"] m i obtain z' d where
    "zslFirstInLexRange r z = Some None" "zslDeleteRangeByLex r z (Mapping.empty :: (bytes, nat) mapping) = Some (2, z', d)"
    by (auto simp: numeral_2_eq_2)
  with z p show ?thesis by blast
qed

end
