(* ===== verification/Zset.thy ===== *)
theory Zset
  imports Zskiplist Ziplist
begin

text \<open>
  \<open>t_zset.c\<close>, sorted sets: the ziplist of elements and scores, the pair of a dictionary and a
  skip list, the conversions between them, and the commands that change or read one of them.
  What is outside the code is the argument \<open>E\<close>: the operations of C and its library on doubles
  (the conversions to and from text and \<open>long long\<close>, the classification and the sum), the
  addresses and the random numbers, by the number of the call, and the configuration.  Scores
  are doubles up to \<open>==\<close>, an arbitrary linear order; \<open>neg_zero\<close> is the test \<open>1.0/value < 0\<close> on a
  zero, the one place where the code tells two equal scores apart, and nothing is assumed of
  its answer.  \<open>None\<close> is a failed assertion or a bad access.
\<close>

section \<open>Types\<close>

record 's zenv =
  strtod :: "bytes \<Rightarrow> 's"
  of_longlong :: "int \<Rightarrow> 's"
  to_longlong :: "'s \<Rightarrow> int"
  isnan :: "'s \<Rightarrow> bool"
  isinf :: "'s \<Rightarrow> bool"
  neg_zero :: "'s \<Rightarrow> bool"
  snprintf_17g :: "'s \<Rightarrow> bytes"
  dadd :: "'s \<Rightarrow> 's \<Rightarrow> 's option"
  malloc :: "nat \<Rightarrow> (nat \<Rightarrow> bool) \<Rightarrow> nat"
  draws :: "nat \<Rightarrow> nat list"
  zset_max_ziplist_entries :: nat
  zset_max_ziplist_value :: nat

text \<open>The values of the dictionary are the addresses of the nodes whose scores they point to.\<close>

record 's zset =
  zdict :: "(bytes, nat) mapping"
  zsl :: "'s zskiplist"

datatype 's zsetobj = ZsetZiplist bytes | ZsetSkiplist "'s zset"

datatype zencoding = ENCODING_ZIPLIST | ENCODING_SKIPLIST

section \<open>The text of a score\<close>

text \<open>\<open>d2string\<close> of \<open>util.c\<close>, with a buffer of 128 bytes as in \<open>zzlInsertAt\<close>: the constants are
  \<open>nan\<close>, \<open>-inf\<close>, \<open>inf\<close>, \<open>-0\<close> and \<open>0\<close>, and a value that two casts leave as it is is printed as
  an integer.\<close>

definition d2string :: "'s::linorder zenv \<Rightarrow> 's \<Rightarrow> bytes" where
  "d2string E value =
    (if isnan E value then [110, 97, 110]
     else if isinf E value then
       (if value < of_longlong E 0 then [45, 105, 110, 102] else [105, 110, 102])
     else if value = of_longlong E 0 then
       (if neg_zero E value then [45, 48] else [48])
     else
       (let min = of_longlong E (- 4503599627370495); max = of_longlong E 4503599627370496
        in if value > min \<and> value < max \<and> value = of_longlong E (to_longlong E value)
           then (let (n, buf) = ll2string (replicate 128 0) 128 (to_longlong E value) in take n buf)
           else snprintf_17g E value))"

section \<open>Sorted sets in a ziplist\<close>

text \<open>The text of a \<open>long long\<close>, from a buffer of 32 bytes.\<close>

definition zvalue_text :: "zvalue \<Rightarrow> bytes" where
  "zvalue_text x =
    (case x of ZStr s \<Rightarrow> s | ZInt v \<Rightarrow> (let (n, buf) = ll2string (replicate 32 0) 32 v in take n buf))"

definition zzlGetScore :: "'s zenv \<Rightarrow> bytes \<Rightarrow> nat \<Rightarrow> 's option" where
  "zzlGetScore E zl sptr =
    do {
      v \<leftarrow> ziplistGet zl sptr;
      x \<leftarrow> v;
      (case x of
         ZStr s \<Rightarrow> if length s < 128 then Some (strtod E s) else None
       | ZInt n \<Rightarrow> Some (of_longlong E n))
    }"

definition ziplistGetObject :: "bytes \<Rightarrow> nat \<Rightarrow> bytes option" where
  "ziplistGetObject zl sptr = do { v \<leftarrow> ziplistGet zl sptr; x \<leftarrow> v; Some (zvalue_text x) }"

definition zzlCompareElements :: "bytes \<Rightarrow> nat \<Rightarrow> bytes \<Rightarrow> int option" where
  "zzlCompareElements zl eptr cstr =
    do {
      v \<leftarrow> ziplistGet zl eptr;
      x \<leftarrow> v;
      let vstr = zvalue_text x;
      let minlen = (if length vstr < length cstr then length vstr else length cstr);
      let cmp = memcmp vstr cstr minlen;
      Some (if cmp = 0 then int (length vstr) - int (length cstr) else cmp)
    }"

definition zzlLength :: "bytes \<Rightarrow> (nat \<times> bytes) option" where
  "zzlLength zl = do { (n, zl) \<leftarrow> ziplistLen zl; Some (n div 2, zl) }"

definition zzlNext :: "bytes \<Rightarrow> nat \<Rightarrow> (nat option \<times> nat option) option" where
  "zzlNext zl sptr =
    do {
      e \<leftarrow> ziplistNext zl sptr;
      (case e of
         None \<Rightarrow> Some (None, None)
       | Some e \<Rightarrow> do { s \<leftarrow> ziplistNext zl e; s \<leftarrow> s; Some (Some e, Some s) })
    }"

definition zzlPrev :: "bytes \<Rightarrow> nat \<Rightarrow> (nat option \<times> nat option) option" where
  "zzlPrev zl eptr =
    do {
      s \<leftarrow> ziplistPrev zl eptr;
      (case s of
         None \<Rightarrow> Some (None, None)
       | Some s \<Rightarrow> do { e \<leftarrow> ziplistPrev zl s; e \<leftarrow> e; Some (Some e, Some s) })
    }"

definition zzlIsInRange :: "'s::linorder zenv \<Rightarrow> 's zrangespec \<Rightarrow> bytes \<Rightarrow> bool option" where
  "zzlIsInRange E r zl =
    (if rmin r > rmax r \<or> rmin r = rmax r \<and> (minex r \<or> maxex r) then Some False
     else do {
       p \<leftarrow> ziplistIndex zl (- 1);
       (case p of
          None \<Rightarrow> Some False
        | Some p \<Rightarrow> do {
            score \<leftarrow> zzlGetScore E zl p;
            if \<not> zslValueGteMin score r then Some False
            else do {
              p \<leftarrow> ziplistIndex zl 1;
              p \<leftarrow> p;
              score \<leftarrow> zzlGetScore E zl p;
              Some (zslValueLteMax score r)
            }
          })
     })"

partial_function (option) zzl_first_loop ::
    "'s::linorder zenv \<Rightarrow> 's zrangespec \<Rightarrow> bytes \<Rightarrow> nat option \<Rightarrow> nat option option" where
  "zzl_first_loop E r zl eptr =
    (case eptr of
       None \<Rightarrow> Some None
     | Some e \<Rightarrow> do {
         s \<leftarrow> ziplistNext zl e;
         s \<leftarrow> s;
         score \<leftarrow> zzlGetScore E zl s;
         if zslValueGteMin score r then Some (if zslValueLteMax score r then Some e else None)
         else do { e \<leftarrow> ziplistNext zl s; zzl_first_loop E r zl e }
       })"

definition zzlFirstInRange :: "'s::linorder zenv \<Rightarrow> 's zrangespec \<Rightarrow> bytes \<Rightarrow> nat option option" where
  "zzlFirstInRange E r zl =
    do {
      eptr \<leftarrow> ziplistIndex zl 0;
      inr \<leftarrow> zzlIsInRange E r zl;
      if \<not> inr then Some None else zzl_first_loop E r zl eptr
    }"

partial_function (option) zzl_last_loop ::
    "'s::linorder zenv \<Rightarrow> 's zrangespec \<Rightarrow> bytes \<Rightarrow> nat option \<Rightarrow> nat option option" where
  "zzl_last_loop E r zl eptr =
    (case eptr of
       None \<Rightarrow> Some None
     | Some e \<Rightarrow> do {
         s \<leftarrow> ziplistNext zl e;
         s \<leftarrow> s;
         score \<leftarrow> zzlGetScore E zl s;
         if zslValueLteMax score r then Some (if zslValueGteMin score r then Some e else None)
         else do {
           s \<leftarrow> ziplistPrev zl e;
           (case s of
              None \<Rightarrow> zzl_last_loop E r zl None
            | Some s \<Rightarrow> do { e \<leftarrow> ziplistPrev zl s; e \<leftarrow> e; zzl_last_loop E r zl (Some e) })
         }
       })"

definition zzlLastInRange :: "'s::linorder zenv \<Rightarrow> 's zrangespec \<Rightarrow> bytes \<Rightarrow> nat option option" where
  "zzlLastInRange E r zl =
    do {
      eptr \<leftarrow> ziplistIndex zl (- 2);
      inr \<leftarrow> zzlIsInRange E r zl;
      if \<not> inr then Some None else zzl_last_loop E r zl eptr
    }"

definition zzlLexValueGteMin :: "bytes \<Rightarrow> nat \<Rightarrow> zlexrangespec \<Rightarrow> bool option" where
  "zzlLexValueGteMin zl p r = do { v \<leftarrow> ziplistGetObject zl p; Some (zslLexValueGteMin v r) }"

definition zzlLexValueLteMax :: "bytes \<Rightarrow> nat \<Rightarrow> zlexrangespec \<Rightarrow> bool option" where
  "zzlLexValueLteMax zl p r = do { v \<leftarrow> ziplistGetObject zl p; Some (zslLexValueLteMax v r) }"

definition zzlIsInLexRange :: "zlexrangespec \<Rightarrow> bytes \<Rightarrow> bool option" where
  "zzlIsInLexRange r zl =
    (if zsl_lex_empty r then Some False
     else do {
       p \<leftarrow> ziplistIndex zl (- 2);
       (case p of
          None \<Rightarrow> Some False
        | Some p \<Rightarrow> do {
            ge \<leftarrow> zzlLexValueGteMin zl p r;
            if \<not> ge then Some False
            else do { p \<leftarrow> ziplistIndex zl 0; p \<leftarrow> p; zzlLexValueLteMax zl p r }
          })
     })"

partial_function (option) zzl_first_lex_loop :: "zlexrangespec \<Rightarrow> bytes \<Rightarrow> nat option \<Rightarrow> nat option option" where
  "zzl_first_lex_loop r zl eptr =
    (case eptr of
       None \<Rightarrow> Some None
     | Some e \<Rightarrow> do {
         ge \<leftarrow> zzlLexValueGteMin zl e r;
         if ge then do { le \<leftarrow> zzlLexValueLteMax zl e r; Some (if le then Some e else None) }
         else do { s \<leftarrow> ziplistNext zl e; s \<leftarrow> s; e \<leftarrow> ziplistNext zl s; zzl_first_lex_loop r zl e }
       })"

definition zzlFirstInLexRange :: "zlexrangespec \<Rightarrow> bytes \<Rightarrow> nat option option" where
  "zzlFirstInLexRange r zl =
    do {
      eptr \<leftarrow> ziplistIndex zl 0;
      inr \<leftarrow> zzlIsInLexRange r zl;
      if \<not> inr then Some None else zzl_first_lex_loop r zl eptr
    }"

partial_function (option) zzl_last_lex_loop :: "zlexrangespec \<Rightarrow> bytes \<Rightarrow> nat option \<Rightarrow> nat option option" where
  "zzl_last_lex_loop r zl eptr =
    (case eptr of
       None \<Rightarrow> Some None
     | Some e \<Rightarrow> do {
         le \<leftarrow> zzlLexValueLteMax zl e r;
         if le then do { ge \<leftarrow> zzlLexValueGteMin zl e r; Some (if ge then Some e else None) }
         else do {
           s \<leftarrow> ziplistPrev zl e;
           (case s of
              None \<Rightarrow> zzl_last_lex_loop r zl None
            | Some s \<Rightarrow> do { e \<leftarrow> ziplistPrev zl s; e \<leftarrow> e; zzl_last_lex_loop r zl (Some e) })
         }
       })"

definition zzlLastInLexRange :: "zlexrangespec \<Rightarrow> bytes \<Rightarrow> nat option option" where
  "zzlLastInLexRange r zl =
    do {
      eptr \<leftarrow> ziplistIndex zl (- 2);
      inr \<leftarrow> zzlIsInLexRange r zl;
      if \<not> inr then Some None else zzl_last_lex_loop r zl eptr
    }"

text \<open>The result is the pointer with the score, which is read if the caller wants it.\<close>

partial_function (option) zzl_find_loop ::
    "'s zenv \<Rightarrow> bool \<Rightarrow> bytes \<Rightarrow> bytes \<Rightarrow> nat option \<Rightarrow> (nat \<times> 's option) option option" where
  "zzl_find_loop E want zl ele eptr =
    (case eptr of
       None \<Rightarrow> Some None
     | Some e \<Rightarrow> do {
         s \<leftarrow> ziplistNext zl e;
         s \<leftarrow> s;
         eq \<leftarrow> ziplistCompare zl e ele;
         if eq then
           (if want then do { score \<leftarrow> zzlGetScore E zl s; Some (Some (e, Some score)) } else Some (Some (e, None)))
         else do { e \<leftarrow> ziplistNext zl s; zzl_find_loop E want zl ele e }
       })"

definition zzlFind :: "'s zenv \<Rightarrow> bool \<Rightarrow> bytes \<Rightarrow> bytes \<Rightarrow> (nat \<times> 's option) option option" where
  "zzlFind E want zl ele = do { eptr \<leftarrow> ziplistIndex zl 0; zzl_find_loop E want zl ele eptr }"

definition zzlDelete :: "bytes \<Rightarrow> nat \<Rightarrow> bytes option" where
  "zzlDelete zl eptr = do { (zl, p) \<leftarrow> ziplistDelete zl eptr; (zl, p) \<leftarrow> ziplistDelete zl p; Some zl }"

definition zzlInsertAt :: "'s::linorder zenv \<Rightarrow> bytes \<Rightarrow> nat option \<Rightarrow> bytes \<Rightarrow> 's \<Rightarrow> bytes option" where
  "zzlInsertAt E zl eptr ele score =
    (case eptr of
       None \<Rightarrow> do { zl \<leftarrow> ziplistPush zl ele 1; ziplistPush zl (d2string E score) 1 }
     | Some p \<Rightarrow> do {
         zl \<leftarrow> ziplistInsert zl p ele;
         s \<leftarrow> ziplistNext zl p;
         s \<leftarrow> s;
         ziplistInsert zl s (d2string E score)
       })"

partial_function (option) zzl_insert_loop ::
    "'s::linorder zenv \<Rightarrow> bytes \<Rightarrow> bytes \<Rightarrow> 's \<Rightarrow> nat option \<Rightarrow> bytes option" where
  "zzl_insert_loop E zl ele score eptr =
    (case eptr of
       None \<Rightarrow> zzlInsertAt E zl None ele score
     | Some e \<Rightarrow> do {
         sptr \<leftarrow> ziplistNext zl e;
         sptr \<leftarrow> sptr;
         s \<leftarrow> zzlGetScore E zl sptr;
         here \<leftarrow>
           (if s > score then Some True
            else if s = score then do { c \<leftarrow> zzlCompareElements zl e ele; Some (c > 0) }
            else Some False);
         if here then zzlInsertAt E zl (Some e) ele score
         else do { e \<leftarrow> ziplistNext zl sptr; zzl_insert_loop E zl ele score e }
       })"

definition zzlInsert :: "'s::linorder zenv \<Rightarrow> bytes \<Rightarrow> bytes \<Rightarrow> 's \<Rightarrow> bytes option" where
  "zzlInsert E zl ele score = do { eptr \<leftarrow> ziplistIndex zl 0; zzl_insert_loop E zl ele score eptr }"

text \<open>Deletion from a pointer on, while the element and its score satisfy the condition.\<close>

partial_function (option) zzl_delete_while ::
    "(bytes \<Rightarrow> nat \<Rightarrow> nat \<Rightarrow> bool option) \<Rightarrow> bytes \<Rightarrow> nat \<Rightarrow> nat \<Rightarrow> (nat \<times> bytes) option" where
  "zzl_delete_while cnd zl eptr num =
    do {
      sptr \<leftarrow> ziplistNext zl eptr;
      (case sptr of
         None \<Rightarrow> Some (num, zl)
       | Some s \<Rightarrow> do {
           go \<leftarrow> cnd zl eptr s;
           if go then do {
             (zl, eptr) \<leftarrow> ziplistDelete zl eptr;
             (zl, eptr) \<leftarrow> ziplistDelete zl eptr;
             zzl_delete_while cnd zl eptr (num + 1)
           }
           else Some (num, zl)
         })
    }"

definition zzlDeleteRangeByScore :: "'s::linorder zenv \<Rightarrow> 's zrangespec \<Rightarrow> bytes \<Rightarrow> (nat \<times> bytes) option" where
  "zzlDeleteRangeByScore E r zl =
    do {
      eptr \<leftarrow> zzlFirstInRange E r zl;
      (case eptr of
         None \<Rightarrow> Some (0, zl)
       | Some e \<Rightarrow> zzl_delete_while (\<lambda>zl e s. do { score \<leftarrow> zzlGetScore E zl s; Some (zslValueLteMax score r) }) zl e 0)
    }"

definition zzlDeleteRangeByLex :: "zlexrangespec \<Rightarrow> bytes \<Rightarrow> (nat \<times> bytes) option" where
  "zzlDeleteRangeByLex r zl =
    do {
      eptr \<leftarrow> zzlFirstInLexRange r zl;
      (case eptr of
         None \<Rightarrow> Some (0, zl)
       | Some e \<Rightarrow> zzl_delete_while (\<lambda>zl e s. zzlLexValueLteMax zl e r) zl e 0)
    }"

definition zzlDeleteRangeByRank :: "nat \<Rightarrow> nat \<Rightarrow> bytes \<Rightarrow> (nat \<times> bytes) option" where
  "zzlDeleteRangeByRank start end' zl =
    do {
      let num = uadd U32 (usub U32 end' start) 1;
      zl \<leftarrow> ziplistDeleteRange zl (2 * usub U32 start 1 mod U32) (2 * num mod U32);
      Some (num, zl)
    }"

text \<open>The partial functions are executable.\<close>

declare
  zzl_first_loop.simps [code]
  zzl_last_loop.simps [code]
  zzl_first_lex_loop.simps [code]
  zzl_last_lex_loop.simps [code]
  zzl_find_loop.simps [code]
  zzl_insert_loop.simps [code]
  zzl_delete_while.simps [code]

end
