(* ===== verification/ZsetCommands.thy ===== *)
theory ZsetCommands
  imports Zset
begin

text \<open>
  \<open>t_zset.c\<close>, both encodings of a sorted set behind one object, the conversions and the
  commands.  Numbers of allocations are threaded as \<open>t\<close>.
\<close>

section \<open>Objects\<close>

definition zsl_free :: "'s zskiplist \<Rightarrow> nat \<Rightarrow> bool" where
  "zsl_free z a \<longleftrightarrow> znodes z a \<noteq> None"

text \<open>\<open>zslInsert\<close> with its calls of \<open>malloc\<close> and \<open>random\<close>: the list, the new node and the next call.\<close>

definition zsl_insert_new ::
    "'s::linorder zenv \<Rightarrow> 's \<Rightarrow> bytes \<Rightarrow> 's zskiplist \<Rightarrow> nat \<Rightarrow> ('s zskiplist \<times> nat \<times> nat) option" where
  "zsl_insert_new E score ob z t =
    do {
      lvl \<leftarrow> zslRandomLevel (draws E t);
      let x = malloc E t (zsl_free z);
      z \<leftarrow> zslInsert x lvl score ob z;
      Some (z, x, t + 1)
    }"

definition createZset :: "'s::zero zenv \<Rightarrow> nat \<Rightarrow> 's zset \<times> nat" where
  "createZset E t = (\<lparr>zdict = Mapping.empty, zsl = zslCreate (malloc E t (\<lambda>a. False))\<rparr>, t + 1)"

definition createZsetObject :: "'s::zero zenv \<Rightarrow> nat \<Rightarrow> 's zsetobj \<times> nat" where
  "createZsetObject E t = (let (zs, t) = createZset E t in (ZsetSkiplist zs, t))"

definition createZsetZiplistObject :: "'s zsetobj" where
  "createZsetZiplistObject = ZsetZiplist ziplistNew"

definition zsetLength :: "'s zsetobj \<Rightarrow> (nat \<times> 's zsetobj) option" where
  "zsetLength o' =
    (case o' of
       ZsetZiplist zl \<Rightarrow> do { (n, zl) \<leftarrow> zzlLength zl; Some (n mod U32, ZsetZiplist zl) }
     | ZsetSkiplist zs \<Rightarrow> Some (zlength (zsl zs) mod U32, ZsetSkiplist zs))"

text \<open>A pair that is in the dictionary must not be added again.\<close>

definition zset_insert_new ::
    "'s::linorder zenv \<Rightarrow> 's \<Rightarrow> bytes \<Rightarrow> 's zset \<Rightarrow> nat \<Rightarrow> ('s zset \<times> nat) option" where
  "zset_insert_new E score ele zs t =
    do {
      (z, x, t) \<leftarrow> zsl_insert_new E score ele (zsl zs) t;
      if Mapping.lookup (zdict zs) ele \<noteq> None then None
      else Some (zs\<lparr>zdict := Mapping.update ele x (zdict zs), zsl := z\<rparr>, t)
    }"

partial_function (option) convert_loop ::
    "'s::linorder zenv \<Rightarrow> bytes \<Rightarrow> nat option \<Rightarrow> nat option \<Rightarrow> 's zset \<Rightarrow> nat \<Rightarrow> ('s zset \<times> nat) option" where
  "convert_loop E zl eptr sptr zs t =
    (case eptr of
       None \<Rightarrow> Some (zs, t)
     | Some e \<Rightarrow> do {
         s \<leftarrow> sptr;
         score \<leftarrow> zzlGetScore E zl s;
         ele \<leftarrow> ziplistGetObject zl e;
         (zs, t) \<leftarrow> zset_insert_new E score ele zs t;
         (eptr, sptr) \<leftarrow> zzlNext zl s;
         convert_loop E zl eptr sptr zs t
       })"

text \<open>The walk along level 0, which frees every node when it has left it.\<close>

partial_function (option) convert_back_loop ::
    "'s::linorder zenv \<Rightarrow> 's zskiplist \<Rightarrow> nat option \<Rightarrow> bytes \<Rightarrow> bytes option" where
  "convert_back_loop E z node zl =
    (case node of
       None \<Rightarrow> Some zl
     | Some a \<Rightarrow> do {
         n \<leftarrow> znodes z a;
         ele \<leftarrow> zobj n;
         zl \<leftarrow> zzlInsertAt E zl None ele (zscore n);
         (next, sp) \<leftarrow> slot z a 0;
         convert_back_loop E (zslFreeNode a z) next zl
       })"

definition zsetConvert ::
    "'s::{linorder,zero} zenv \<Rightarrow> zencoding \<Rightarrow> 's zsetobj \<Rightarrow> nat \<Rightarrow> ('s zsetobj \<times> nat) option" where
  "zsetConvert E encoding o' t =
    (case o' of
       ZsetZiplist zl \<Rightarrow>
         (if encoding = ENCODING_ZIPLIST then Some (o', t)
          else do {
            let (zs, t) = createZset E t;
            eptr \<leftarrow> ziplistIndex zl 0;
            eptr \<leftarrow> eptr;
            sptr \<leftarrow> ziplistNext zl eptr;
            sptr \<leftarrow> sptr;
            (zs, t) \<leftarrow> convert_loop E zl (Some eptr) (Some sptr) zs t;
            Some (ZsetSkiplist zs, t)
          })
     | ZsetSkiplist zs \<Rightarrow>
         (if encoding = ENCODING_SKIPLIST then Some (o', t)
          else do {
            (node, sp) \<leftarrow> slot (zsl zs) (header (zsl zs)) 0;
            zl \<leftarrow> convert_back_loop E (zslFreeNode (header (zsl zs)) (zsl zs)) node ziplistNew;
            Some (ZsetZiplist zl, t)
          }))"

section \<open>ZADD and ZINCRBY\<close>

datatype zadd_result = ZNan | ZSame | ZUpdated | ZAdded

text \<open>One element: what happened, the final score, the object and the next call.\<close>

definition zadd_ziplist ::
    "'s::{linorder,zero} zenv \<Rightarrow> bool \<Rightarrow> 's \<Rightarrow> bytes \<Rightarrow> bytes \<Rightarrow> nat \<Rightarrow> (zadd_result \<times> 's \<times> 's zsetobj \<times> nat) option" where
  "zadd_ziplist E incr score ele zl t =
    do {
      found \<leftarrow> zzlFind E True zl ele;
      (case found of
         Some (eptr, cur) \<Rightarrow> do {
           curscore \<leftarrow> cur;
           (case (if incr then dadd E score curscore else Some score) of
              None \<Rightarrow> Some (ZNan, score, ZsetZiplist zl, t)
            | Some score \<Rightarrow>
                if score \<noteq> curscore then do {
                  zl \<leftarrow> zzlDelete zl eptr;
                  zl \<leftarrow> zzlInsert E zl ele score;
                  Some (ZUpdated, score, ZsetZiplist zl, t)
                }
                else Some (ZSame, score, ZsetZiplist zl, t))
         }
       | None \<Rightarrow> do {
           zl \<leftarrow> zzlInsert E zl ele score;
           (n, zl) \<leftarrow> zzlLength zl;
           (o', t) \<leftarrow>
             (if n > zset_max_ziplist_entries E then zsetConvert E ENCODING_SKIPLIST (ZsetZiplist zl) t
              else Some (ZsetZiplist zl, t));
           (o', t) \<leftarrow>
             (if length ele > zset_max_ziplist_value E then zsetConvert E ENCODING_SKIPLIST o' t else Some (o', t));
           Some (ZAdded, score, o', t)
         })
    }"

definition zadd_skiplist ::
    "'s::linorder zenv \<Rightarrow> bool \<Rightarrow> 's \<Rightarrow> bytes \<Rightarrow> 's zset \<Rightarrow> nat \<Rightarrow> (zadd_result \<times> 's \<times> 's zsetobj \<times> nat) option" where
  "zadd_skiplist E incr score ele zs t =
    (case Mapping.lookup (zdict zs) ele of
       Some a \<Rightarrow> do {
         n \<leftarrow> znodes (zsl zs) a;
         let curscore = zscore n;
         (case (if incr then dadd E score curscore else Some score) of
            None \<Rightarrow> Some (ZNan, score, ZsetSkiplist zs, t)
          | Some score \<Rightarrow>
              if score \<noteq> curscore then do {
                (deleted, z) \<leftarrow> zslDelete curscore ele (zsl zs);
                if \<not> deleted then None
                else do {
                  (z, x, t) \<leftarrow> zsl_insert_new E score ele z t;
                  Some (ZUpdated, score, ZsetSkiplist (zs\<lparr>zdict := Mapping.update ele x (zdict zs), zsl := z\<rparr>), t)
                }
              }
              else Some (ZSame, score, ZsetSkiplist zs, t))
       }
     | None \<Rightarrow> do {
         (zs, t) \<leftarrow> zset_insert_new E score ele zs t;
         Some (ZAdded, score, ZsetSkiplist zs, t)
       })"

definition zadd_one ::
    "'s::{linorder,zero} zenv \<Rightarrow> bool \<Rightarrow> 's \<Rightarrow> bytes \<Rightarrow> 's zsetobj \<Rightarrow> nat \<Rightarrow> (zadd_result \<times> 's \<times> 's zsetobj \<times> nat) option" where
  "zadd_one E incr score ele o' t =
    (case o' of
       ZsetZiplist zl \<Rightarrow> zadd_ziplist E incr score ele zl t
     | ZsetSkiplist zs \<Rightarrow> zadd_skiplist E incr score ele zs t)"

text \<open>The loop over the elements ends early at a sum that is not a number.\<close>

primrec zadd_loop ::
    "'s::{linorder,zero} zenv \<Rightarrow> bool \<Rightarrow> ('s \<times> bytes) list \<Rightarrow> 's \<Rightarrow> nat \<Rightarrow> nat \<Rightarrow> 's zsetobj \<Rightarrow> nat
      \<Rightarrow> (bool \<times> 's \<times> nat \<times> nat \<times> 's zsetobj \<times> nat) option" where
  "zadd_loop E incr [] fin added updated o' t = Some (True, fin, added, updated, o', t)"
| "zadd_loop E incr (se # ses) fin added updated o' t =
    do {
      (res, score, o', t) \<leftarrow> zadd_one E incr (fst se) (snd se) o' t;
      (case res of
         ZNan \<Rightarrow> Some (False, score, added, updated, o', t)
       | ZSame \<Rightarrow> zadd_loop E incr ses score added updated o' t
       | ZUpdated \<Rightarrow> zadd_loop E incr ses score added (updated + 1) o' t
       | ZAdded \<Rightarrow> zadd_loop E incr ses score (added + 1) updated o' t)
    }"

datatype 's zreply = RepDouble 's | RepCount int | RepNan | RepNil

text \<open>The arguments are parsed; \<open>None\<close> for the object is a missing key.  The result is the
  reply, the number of changes and the object.\<close>

definition zaddGenericCommand ::
    "'s::{linorder,zero} zenv \<Rightarrow> bool \<Rightarrow> ('s \<times> bytes) list \<Rightarrow> 's zsetobj option \<Rightarrow> nat
      \<Rightarrow> ('s zreply \<times> nat \<times> 's zsetobj \<times> nat) option" where
  "zaddGenericCommand E incr args o' t =
    do {
      let (o', t) =
        (case o' of
           None \<Rightarrow>
             (if zset_max_ziplist_entries E = 0 \<or> zset_max_ziplist_value E < length (snd (hd args))
              then createZsetObject E t else (createZsetZiplistObject, t))
         | Some o' \<Rightarrow> (o', t));
      (ok, score, added, updated, o', t) \<leftarrow> zadd_loop E incr args 0 0 0 o' t;
      Some (if \<not> ok then RepNan else if incr then RepDouble score else RepCount (int added), added + updated, o', t)
    }"

section \<open>ZREM and ZREMRANGEBY*\<close>

text \<open>The number of deleted elements and the object, \<open>None\<close> when the key is removed.\<close>

primrec zrem_ziplist :: "'s zenv \<Rightarrow> bytes list \<Rightarrow> nat \<Rightarrow> bytes \<Rightarrow> (nat \<times> 's zsetobj option) option" where
  "zrem_ziplist E [] deleted zl = Some (deleted, Some (ZsetZiplist zl))"
| "zrem_ziplist E (ele # eles) deleted zl =
    do {
      found \<leftarrow> zzlFind E False zl ele;
      (case found of
         None \<Rightarrow> zrem_ziplist E eles deleted zl
       | Some (eptr, cur) \<Rightarrow> do {
           zl \<leftarrow> zzlDelete zl eptr;
           (n, zl) \<leftarrow> zzlLength zl;
           if n = 0 then Some (deleted + 1, None) else zrem_ziplist E eles (deleted + 1) zl
         })
    }"

primrec zrem_skiplist :: "bytes list \<Rightarrow> nat \<Rightarrow> 's::linorder zset \<Rightarrow> (nat \<times> 's zsetobj option) option" where
  "zrem_skiplist [] deleted zs = Some (deleted, Some (ZsetSkiplist zs))"
| "zrem_skiplist (ele # eles) deleted zs =
    (case Mapping.lookup (zdict zs) ele of
       None \<Rightarrow> zrem_skiplist eles deleted zs
     | Some a \<Rightarrow> do {
         n \<leftarrow> znodes (zsl zs) a;
         (ok, z) \<leftarrow> zslDelete (zscore n) ele (zsl zs);
         if \<not> ok then None
         else do {
           let zs = zs\<lparr>zdict := Mapping.delete ele (zdict zs), zsl := z\<rparr>;
           if Mapping.size (zdict zs) = 0 then Some (deleted + 1, None) else zrem_skiplist eles (deleted + 1) zs
         }
       })"

definition zremCommand :: "'s::linorder zenv \<Rightarrow> bytes list \<Rightarrow> 's zsetobj \<Rightarrow> (nat \<times> 's zsetobj option) option" where
  "zremCommand E eles o' =
    (case o' of ZsetZiplist zl \<Rightarrow> zrem_ziplist E eles 0 zl | ZsetSkiplist zs \<Rightarrow> zrem_skiplist eles 0 zs)"

datatype 's zremrange = ZrangeRank int int | ZrangeScore "'s zrangespec" | ZrangeLex zlexrangespec

text \<open>The indexes of a range of ranks; \<open>None\<close> if it is empty.\<close>

definition sanitize_ranks :: "int \<Rightarrow> int \<Rightarrow> int \<Rightarrow> (int \<times> int) option" where
  "sanitize_ranks llen start end' =
    (let start = (if start < 0 then llen + start else start);
         end' = (if end' < 0 then llen + end' else end');
         start = (if start < 0 then 0 else start)
     in if start > end' \<or> start \<ge> llen then None
        else Some (start, if end' \<ge> llen then llen - 1 else end'))"

definition zremrange_ziplist :: "'s::linorder zenv \<Rightarrow> 's zremrange \<Rightarrow> bytes \<Rightarrow> (nat \<times> 's zsetobj option) option" where
  "zremrange_ziplist E rg zl =
    do {
      (deleted, zl) \<leftarrow>
        (case rg of
           ZrangeRank start end' \<Rightarrow> zzlDeleteRangeByRank (nat (start + 1) mod U32) (nat (end' + 1) mod U32) zl
         | ZrangeScore r \<Rightarrow> zzlDeleteRangeByScore E r zl
         | ZrangeLex r \<Rightarrow> zzlDeleteRangeByLex r zl);
      (n, zl) \<leftarrow> zzlLength zl;
      Some (deleted, if n = 0 then None else Some (ZsetZiplist zl))
    }"

definition zremrange_skiplist :: "'s::linorder zremrange \<Rightarrow> 's zset \<Rightarrow> (nat \<times> 's zsetobj option) option" where
  "zremrange_skiplist rg zs =
    do {
      (deleted, z, d) \<leftarrow>
        (case rg of
           ZrangeRank start end' \<Rightarrow> zslDeleteRangeByRank (nat (start + 1) mod U32) (nat (end' + 1) mod U32) (zsl zs) (zdict zs)
         | ZrangeScore r \<Rightarrow> zslDeleteRangeByScore r (zsl zs) (zdict zs)
         | ZrangeLex r \<Rightarrow> zslDeleteRangeByLex r (zsl zs) (zdict zs));
      Some (deleted, if Mapping.size d = 0 then None else Some (ZsetSkiplist (zs\<lparr>zdict := d, zsl := z\<rparr>)))
    }"

definition zremrangeGenericCommand ::
    "'s::linorder zenv \<Rightarrow> 's zremrange \<Rightarrow> 's zsetobj \<Rightarrow> (nat \<times> 's zsetobj option) option" where
  "zremrangeGenericCommand E rg o' =
    do {
      (rg, o') \<leftarrow>
        (case rg of
           ZrangeRank start end' \<Rightarrow> do {
             (n, o') \<leftarrow> zsetLength o';
             Some (case sanitize_ranks (int n) start end' of
                     None \<Rightarrow> None
                   | Some (start, end') \<Rightarrow> Some (ZrangeRank start end'), o')
           }
         | _ \<Rightarrow> Some (Some rg, o'));
      (case rg of
         None \<Rightarrow> Some (0, Some o')
       | Some rg \<Rightarrow>
           (case o' of
              ZsetZiplist zl \<Rightarrow> zremrange_ziplist E rg zl
            | ZsetSkiplist zs \<Rightarrow> zremrange_skiplist rg zs))
    }"

section \<open>ZSCORE and ZRANK\<close>

definition zscoreCommand :: "'s zenv \<Rightarrow> bytes \<Rightarrow> 's zsetobj \<Rightarrow> 's zreply option" where
  "zscoreCommand E ele o' =
    (case o' of
       ZsetZiplist zl \<Rightarrow> do {
         found \<leftarrow> zzlFind E True zl ele;
         (case found of
            None \<Rightarrow> Some RepNil
          | Some (eptr, score) \<Rightarrow> do { score \<leftarrow> score; Some (RepDouble score) })
       }
     | ZsetSkiplist zs \<Rightarrow>
         (case Mapping.lookup (zdict zs) ele of
            None \<Rightarrow> Some RepNil
          | Some a \<Rightarrow> do { n \<leftarrow> znodes (zsl zs) a; Some (RepDouble (zscore n)) }))"

partial_function (option) rank_loop :: "bytes \<Rightarrow> bytes \<Rightarrow> nat option \<Rightarrow> nat option \<Rightarrow> nat \<Rightarrow> nat option option" where
  "rank_loop zl ele eptr sptr rank =
    (case eptr of
       None \<Rightarrow> Some None
     | Some e \<Rightarrow> do {
         eq \<leftarrow> ziplistCompare zl e ele;
         if eq then Some (Some rank)
         else do { s \<leftarrow> sptr; (eptr, sptr) \<leftarrow> zzlNext zl s; rank_loop zl ele eptr sptr (rank + 1) }
       })"

text \<open>The reply subtracts unsigned numbers.\<close>

definition rank_reply :: "bool \<Rightarrow> nat \<Rightarrow> nat \<Rightarrow> 's zreply" where
  "rank_reply reverse llen rank = RepCount (int (if reverse then usub U64 llen rank else usub U64 rank 1))"

definition zrankGenericCommand :: "bool \<Rightarrow> bytes \<Rightarrow> 's::linorder zsetobj \<Rightarrow> ('s zreply \<times> 's zsetobj) option" where
  "zrankGenericCommand reverse ele o' =
    do {
      (llen, o') \<leftarrow> zsetLength o';
      (case o' of
         ZsetZiplist zl \<Rightarrow> do {
           eptr \<leftarrow> ziplistIndex zl 0;
           eptr \<leftarrow> eptr;
           sptr \<leftarrow> ziplistNext zl eptr;
           sptr \<leftarrow> sptr;
           r \<leftarrow> rank_loop zl ele (Some eptr) (Some sptr) 1;
           Some (case r of None \<Rightarrow> RepNil | Some rank \<Rightarrow> rank_reply reverse llen rank, o')
         }
       | ZsetSkiplist zs \<Rightarrow>
           (case Mapping.lookup (zdict zs) ele of
              None \<Rightarrow> Some (RepNil, o')
            | Some a \<Rightarrow> do {
                n \<leftarrow> znodes (zsl zs) a;
                rank \<leftarrow> zslGetRank (zscore n) ele (zsl zs);
                if rank = 0 then None else Some (rank_reply reverse llen rank, o')
              }))
    }"

text \<open>The partial functions are executable.\<close>

declare
  convert_loop.simps [code]
  convert_back_loop.simps [code]
  rank_loop.simps [code]

end
