(* ===== verification/ZsetZl.thy ===== *)
theory ZsetZl
  imports Zset ZiplistOps ZslLex
begin

text \<open>
  Sorted sets in a ziplist: the block of a list of pairs of score and element holds, for each
  pair, the element and the text of its score.  Reading needs the block only; changing it also
  that no length field is wide, which holds as long as all strings are short.
\<close>

section \<open>Neighbours\<close>

lemma next_at:
  assumes "zl_rep zl es" "i \<le> length es"
  shows "ziplistNext zl (pos_of es i) = Some (if Suc i < length es then Some (pos_of es (Suc i)) else None)"
proof (cases "i = length es")
  case True
  then show ?thesis using first_byte [OF assms] by (auto simp: ziplistNext_def)
next
  case False
  then have i: "i < length es" using assms(2) by simp
  obtain c where c: "rd1 zl (pos_of es i) = Some c" "c \<noteq> ZIP_END" using first_byte [OF assms(1), of i] i by auto
  obtain d where d: "rd1 zl (pos_of es (Suc i)) = Some d" "d = ZIP_END \<longleftrightarrow> Suc i = length es"
    using first_byte [OF assms(1), of "Suc i"] i by auto
  show ?thesis using c d i raw_length [OF assms(1) i] pos_Suc [OF i] by (auto simp: ziplistNext_def)
qed

lemma prev_at:
  assumes "zl_rep zl es" "i < length es"
  shows "ziplistPrev zl (pos_of es i) = Some (if i = 0 then None else Some (pos_of es (i - 1)))"
proof -
  obtain c where c: "rd1 zl (pos_of es i) = Some c" "c \<noteq> ZIP_END" using first_byte [OF assms(1), of i] assms(2) by auto
  show ?thesis
  proof (cases i)
    case 0
    then show ?thesis using c by (simp add: ziplistPrev_def pos_of_def)
  next
    case (Suc k)
    then have k: "k < length es" using assms(2) by simp
    obtain ps where "ZIP_DECODE_PREVLEN zl (pos_of es i) = Some (ps, ent_len (es ! k))"
      using prevlen_at [OF assms] prev_len_take(1) [OF k] Suc by auto
    then show ?thesis using c Suc pos_Suc [OF k] ent_len_ge [of "es ! k"]
      by (simp add: ziplistPrev_def) (simp add: pos_of_def)
  qed
qed

section \<open>Pairs in a block\<close>

definition flat :: "'s::linorder zenv \<Rightarrow> ('s \<times> bytes) list \<Rightarrow> bytes list" where
  "flat E ps = concat (map (\<lambda>p. [snd p, d2string E (fst p)]) ps)"

lemma flat_simps [simp]:
  "flat E [] = []" "flat E (p # ps) = snd p # d2string E (fst p) # flat E ps" "flat E (ps @ qs) = flat E ps @ flat E qs"
  "length (flat E ps) = 2 * length ps"
  by (induction ps) (simp_all add: flat_def)

lemma take_flat: "take (2 * j) (flat E ps) = flat E (take j ps)"
proof (induction ps arbitrary: j)
  case (Cons p ps)
  then show ?case by (cases j) simp_all
qed simp

lemma drop_flat: "drop (2 * j) (flat E ps) = flat E (drop j ps)"
proof (induction ps arbitrary: j)
  case (Cons p ps)
  then show ?case by (cases j) simp_all
qed simp

lemma nth_flat:
  "j < length ps \<Longrightarrow> flat E ps ! (2 * j) = snd (ps ! j)" "j < length ps \<Longrightarrow> flat E ps ! Suc (2 * j) = d2string E (fst (ps ! j))"
proof (induction ps arbitrary: j)
  case (Cons p ps)
  { case 1 then show ?case using Cons(1) by (cases j) simp_all }
  { case 2 then show ?case using Cons(2) by (cases j) simp_all }
qed simp_all

text \<open>The text of a score fits its buffer and reads back as the score, be it kept as a string or
  as an integer.\<close>

definition text_ok :: "'s::linorder zenv \<Rightarrow> bool" where
  "text_ok E \<longleftrightarrow> (\<forall>v. length (d2string E v) < 128 \<and>
    (case zipTryEncoding (d2string E v) of None \<Rightarrow> strtod E (d2string E v) = v | Some (n, e) \<Rightarrow> of_longlong E n = v))"

text \<open>That it does so follows from what the C standard and the library document: no score is a
  \<open>NaN\<close> (the commands refuse them); \<open>strtod\<close> reads the names of the infinities and the negative
  zero; \<open>%.17g\<close> is short, and reading it gives the value back; the text of an integer reads as
  the conversion of the integer; a cast to \<open>long long\<close> is one.\<close>

definition libc_ok :: "'s::linorder zenv \<Rightarrow> bool" where
  "libc_ok E \<longleftrightarrow>
    (\<forall>v. \<not> isnan E v)
    \<and> (\<forall>v. isinf E v \<longrightarrow> strtod E (if v < of_longlong E 0 then [45, 105, 110, 102] else [105, 110, 102]) = v)
    \<and> strtod E [45, 48] = of_longlong E 0
    \<and> (\<forall>v. \<not> isinf E v \<longrightarrow> length (snprintf_17g E v) < 128 \<and> strtod E (snprintf_17g E v) = v)
    \<and> (\<forall>n. is_int64 n \<longrightarrow> strtod E (ll_repr n) = of_longlong E n)
    \<and> (\<forall>v. is_int64 (to_longlong E v))"

lemma no_number: "string2ll [45, 105, 110, 102] = None" "string2ll [105, 110, 102] = None" "string2ll [45, 48] = None"
  by (simp_all add: string2ll_def Let_def)

lemma zipTryEncoding_number: "zipTryEncoding s = Some (n, e) \<Longrightarrow> is_int64 n \<and> s = ll_repr n"
  using string2ll_iff [of s n] by (auto simp: zipTryEncoding_def split: if_splits option.splits)

lemma ll_repr_length:
  assumes "is_int64 n"
  shows "length (ll_repr n) < 32"
proof -
  have "length (dec m) \<le> 20" if "m < 10 ^ 20" for m
  proof (rule ccontr)
    assume l: "\<not> length (dec m) \<le> 20"
    then have "20 \<le> length (dec m) - 1" by simp
    then have "(10 :: nat) ^ 20 \<le> 10 ^ (length (dec m) - 1)" by (intro power_increasing) simp_all
    moreover have "m \<noteq> 0" using l by (cases "m = 0") (simp_all add: dec.simps [of 0])
    ultimately show False using length_dec_bounds [of m] that by simp
  qed
  moreover have "nat n < 10 ^ 20" "nat (- n) < 10 ^ 20" using assms by (auto simp: int_range)
  ultimately have "length (dec (nat n)) \<le> 20" "length (dec (nat (- n))) \<le> 20" by blast+
  then show ?thesis by (simp add: ll_repr_def)
qed

lemma zipTryEncoding_ll_repr:
  assumes "is_int64 n"
  shows "\<exists>e. zipTryEncoding (ll_repr n) = Some (n, e)"
proof -
  have "string2ll (ll_repr n) = Some n" using assms by (simp add: string2ll_iff)
  moreover have "length (ll_repr n) < 32" "ll_repr n \<noteq> []"
    using ll_repr_length [OF assms] length_dec_pos by (auto simp: ll_repr_def)
  ultimately show ?thesis by (simp add: zipTryEncoding_def)
qed

text \<open>A text that reads back as the value, as a string and as an integer.\<close>

lemma libc_reads:
  assumes "libc_ok E" "length s < 128" "strtod E s = v"
  shows "length s < 128 \<and> (case zipTryEncoding s of None \<Rightarrow> strtod E s = v | Some (n, e) \<Rightarrow> of_longlong E n = v)"
proof (cases "zipTryEncoding s")
  case (Some ne)
  obtain n e where ne: "ne = (n, e)" by (cases ne)
  then have "is_int64 n" "s = ll_repr n" using zipTryEncoding_number [of s n e] Some by simp_all
  then have "strtod E s = of_longlong E n" using assms(1) by (simp add: libc_ok_def)
  then show ?thesis using Some ne assms(2,3) by simp
qed (use assms in simp)

lemma libc_text_ok:
  assumes "libc_ok E"
  shows "text_ok E"
  unfolding text_ok_def
proof
  fix v
  note L = assms [unfolded libc_ok_def]
  have zero: "strtod E [48] = of_longlong E 0"
  proof -
    have "ll_repr 0 = [48]" by (simp add: ll_repr_def dec.simps)
    moreover have "is_int64 0" by (simp add: int_range)
    ultimately show ?thesis using L by metis
  qed
  have "length (d2string E v) < 128 \<and> strtod E (d2string E v) = v"
  proof -
    consider (inf) "isinf E v" | (zero) "\<not> isinf E v" "v = of_longlong E 0"
      | (int) "\<not> isinf E v" "v \<noteq> of_longlong E 0" "v = of_longlong E (to_longlong E v)"
          "of_longlong E (- 4503599627370495) < v" "v < of_longlong E 4503599627370496"
      | (other) "\<not> isinf E v" "d2string E v = snprintf_17g E v"
      unfolding d2string_def Let_def using L
      by (cases "isinf E v"; cases "v = of_longlong E 0";
          cases "v = of_longlong E (to_longlong E v) \<and> of_longlong E (- 4503599627370495) < v \<and> v < of_longlong E 4503599627370496")
        auto
    then show ?thesis
    proof cases
      case inf
      then show ?thesis using L by (auto simp: d2string_def)
    next
      case zero
      then show ?thesis using L \<open>strtod E [48] = of_longlong E 0\<close> by (auto simp: d2string_def)
    next
      case int
      have i: "is_int64 (to_longlong E v)" using L by blast
      have n: "length (ll_repr (to_longlong E v)) < 128" using ll_repr_length [OF i] by simp
      have "d2string E v = ll_repr (to_longlong E v)"
        using L int n by (simp add: d2string_def Let_def ll2string_eq [OF i] buf_put_def)
      moreover have "strtod E (ll_repr (to_longlong E v)) = v" using L i int(3) by metis
      ultimately show ?thesis using n by simp
    next
      case other
      then show ?thesis using L by simp
    qed
  qed
  then show "length (d2string E v) < 128 \<and>
      (case zipTryEncoding (d2string E v) of None \<Rightarrow> strtod E (d2string E v) = v | Some (n, e) \<Rightarrow> of_longlong E n = v)"
    using libc_reads [OF assms, of "d2string E v" v] by blast
qed

definition zz_block :: "'s::linorder zenv \<Rightarrow> bytes \<Rightarrow> zraw list \<Rightarrow> ('s \<times> bytes) list \<Rightarrow> bool" where
  "zz_block E zl es ps \<longleftrightarrow> zl_rep zl es \<and> map zstr es = flat E ps"

definition eptr :: "zraw list \<Rightarrow> nat \<Rightarrow> nat" where
  "eptr es j = pos_of es (2 * j)"

definition sptr :: "zraw list \<Rightarrow> nat \<Rightarrow> nat" where
  "sptr es j = pos_of es (Suc (2 * j))"

lemma zz_blockD:
  assumes "zz_block E zl es ps"
  shows "zl_rep zl es" "length es = 2 * length ps" "j < length ps \<Longrightarrow> zstr (es ! (2 * j)) = snd (ps ! j)"
    "j < length ps \<Longrightarrow> zstr (es ! Suc (2 * j)) = d2string E (fst (ps ! j))"
proof -
  show "zl_rep zl es" using assms by (simp add: zz_block_def)
  have m: "map zstr es = flat E ps" using assms by (simp add: zz_block_def)
  show l: "length es = 2 * length ps" using arg_cong [OF m, of length] by simp
  show "j < length ps \<Longrightarrow> zstr (es ! (2 * j)) = snd (ps ! j)"
    using arg_cong [OF m, of "\<lambda>x. x ! (2 * j)"] l nth_flat(1) [of j ps E] by simp
  show "j < length ps \<Longrightarrow> zstr (es ! Suc (2 * j)) = d2string E (fst (ps ! j))"
    using arg_cong [OF m, of "\<lambda>x. x ! Suc (2 * j)"] l nth_flat(2) [of j ps E] by simp
qed

lemma zz_next:
  assumes "zz_block E zl es ps" "j < length ps"
  shows "ziplistNext zl (eptr es j) = Some (Some (sptr es j))"
    "ziplistNext zl (sptr es j) = Some (if Suc j < length ps then Some (eptr es (Suc j)) else None)"
  using next_at [OF zz_blockD(1) [OF assms(1)], of "2 * j"] next_at [OF zz_blockD(1) [OF assms(1)], of "Suc (2 * j)"]
    zz_blockD(2) [OF assms(1)] assms(2) by (auto simp: eptr_def sptr_def)

lemma zz_prev:
  assumes "zz_block E zl es ps" "j < length ps"
  shows "ziplistPrev zl (eptr es j) = Some (if j = 0 then None else Some (sptr es (j - 1)))"
    "ziplistPrev zl (sptr es j) = Some (Some (eptr es j))"
proof -
  have "Suc (2 * (j - 1)) = 2 * j - 1" if "j \<noteq> 0" using that by simp
  then show "ziplistPrev zl (eptr es j) = Some (if j = 0 then None else Some (sptr es (j - 1)))"
    "ziplistPrev zl (sptr es j) = Some (Some (eptr es j))"
    using prev_at [OF zz_blockD(1) [OF assms(1)], of "2 * j"] prev_at [OF zz_blockD(1) [OF assms(1)], of "Suc (2 * j)"]
      zz_blockD(2) [OF assms(1)] assms(2) by (auto simp: eptr_def sptr_def)
qed

lemma zvalue_text_zval: "zvalue_text (zval s) = s"
proof (cases "zipTryEncoding s")
  case (Some ve)
  obtain v e where ve: "ve = (v, e)" by (cases ve)
  have v: "is_int64 v" "s = ll_repr v" using int_encodings(5,6) [of s v e] Some ve by simp_all
  have "length s < 32" using Some by (simp add: zipTryEncoding_def split: if_splits)
  then show ?thesis using Some ve by (simp add: zval_def zvalue_text_def ll2string_eq [OF v(1)] v(2) [symmetric] buf_put_def)
qed (simp add: zval_def zvalue_text_def)


lemma zz_read:
  assumes "zz_block E zl es ps" "j < length ps"
  shows "ziplistGetObject zl (eptr es j) = Some (snd (ps ! j))" "ziplistCompare zl (eptr es j) x = Some (snd (ps ! j) = x)"
    "zzlCompareElements zl (eptr es j) x = Some (compareStringObjects (snd (ps ! j)) x)"
    "text_ok E \<Longrightarrow> zzlGetScore E zl (sptr es j) = Some (fst (ps ! j))"
proof -
  have l: "2 * j < length es" "Suc (2 * j) < length es" using zz_blockD(2) [OF assms(1)] assms(2) by simp_all
  note z = zz_blockD(1) [OF assms(1)] zz_blockD(3,4) [OF assms]
  note g = ziplistGet_at [OF z(1) l(1), unfolded z(2), folded eptr_def]
  show "ziplistGetObject zl (eptr es j) = Some (snd (ps ! j))" by (simp add: ziplistGetObject_def g zvalue_text_zval)
  show "ziplistCompare zl (eptr es j) x = Some (snd (ps ! j) = x)"
    using ziplistCompare_at [OF z(1) l(1), of x] z(2) by (simp add: eptr_def)
  show "zzlCompareElements zl (eptr es j) x = Some (compareStringObjects (snd (ps ! j)) x)"
    by (simp add: zzlCompareElements_def g zvalue_text_zval compareStringObjects_def Let_def)
  show "zzlGetScore E zl (sptr es j) = Some (fst (ps ! j))" if "text_ok E"
    using ziplistGet_at [OF z(1) l(2), unfolded z(3), folded sptr_def] that [unfolded text_ok_def, rule_format, of "fst (ps ! j)"]
    by (auto simp: zzlGetScore_def zval_def split: option.splits)
qed

lemma zz_index:
  assumes "zz_block E zl es ps"
  shows "ziplistIndex zl 0 = Some (if ps = [] then None else Some (eptr es 0))"
    "ziplistIndex zl 1 = Some (if ps = [] then None else Some (sptr es 0))"
    "length zl < 4294967296 \<Longrightarrow> ziplistIndex zl (- 1) = Some (if ps = [] then None else Some (sptr es (length ps - 1)))"
    "length zl < 4294967296 \<Longrightarrow> ziplistIndex zl (- 2) = Some (if ps = [] then None else Some (eptr es (length ps - 1)))"
proof -
  note z = zz_blockD(1,2) [OF assms]
  have l: "2 * length ps - Suc 0 = Suc (2 * (length ps - 1))" "2 * length ps - Suc (Suc 0) = 2 * (length ps - 1)" if "ps \<noteq> []"
    using that by (cases ps; simp)+
  show "ziplistIndex zl 0 = Some (if ps = [] then None else Some (eptr es 0))"
    "ziplistIndex zl 1 = Some (if ps = [] then None else Some (sptr es 0))"
    using ziplistIndex_forward [OF z(1), of 0] ziplistIndex_forward [OF z(1), of 1] z(2)
    by (auto simp: eptr_def sptr_def) (cases ps; simp)+
  show "length zl < 4294967296 \<Longrightarrow> ziplistIndex zl (- 1) = Some (if ps = [] then None else Some (sptr es (length ps - 1)))"
    "length zl < 4294967296 \<Longrightarrow> ziplistIndex zl (- 2) = Some (if ps = [] then None else Some (eptr es (length ps - 1)))"
    using ziplistIndex_backward [OF z(1), of 0] ziplistIndex_backward [OF z(1), of 1] z(2) l
    by (auto simp: eptr_def sptr_def) (cases ps; simp)+
qed

section \<open>Loops\<close>

text \<open>A pointer to the pair \<open>j\<close>, or \<open>NULL\<close> behind the last one.\<close>

definition at_pair :: "zraw list \<Rightarrow> 'a list \<Rightarrow> nat \<Rightarrow> nat option" where
  "at_pair es ps j = (if j < length ps then Some (eptr es j) else None)"

lemma at_pair_end [simp]: "length ps \<le> j \<Longrightarrow> at_pair es ps j = None"
  by (simp add: at_pair_def)

lemma at_pair_some: "j < length ps \<Longrightarrow> at_pair es ps j = Some (eptr es j)"
  by (simp add: at_pair_def)

lemma zz_next_pair: "zz_block E zl es ps \<Longrightarrow> j < length ps \<Longrightarrow> ziplistNext zl (sptr es j) = Some (at_pair es ps (Suc j))"
  by (simp add: zz_next(2) at_pair_def)

text \<open>The pair where a forward walk from \<open>j\<close> stops.\<close>

definition stop_at :: "('a \<Rightarrow> bool) \<Rightarrow> 'a list \<Rightarrow> nat \<Rightarrow> nat option" where
  "stop_at Q ps j = find (\<lambda>k. Q (ps ! k)) [j..<length ps]"

lemma stop_at_end [simp]: "length ps \<le> j \<Longrightarrow> stop_at Q ps j = None"
  by (simp add: stop_at_def)

lemma stop_at_step: "j < length ps \<Longrightarrow> stop_at Q ps j = (if Q (ps ! j) then Some j else stop_at Q ps (Suc j))"
  by (simp add: stop_at_def upt_conv_Cons)

text \<open>Induction along the pairs still ahead.\<close>

lemma ahead_induct [case_names beyond step]:
  assumes "\<And>j. n \<le> j \<Longrightarrow> P j" "\<And>j. j < n \<Longrightarrow> P (Suc j) \<Longrightarrow> P j"
  shows "P (j :: nat)"
proof (induction "n - j" arbitrary: j)
  case 0
  then show ?case by (intro assms(1)) simp
next
  case (Suc k)
  then show ?case using assms(2) [of j] by simp
qed

lemma find_loop_at:
  assumes "zz_block E zl es ps" "text_ok E"
  shows "zzl_find_loop E want zl ele (at_pair es ps j) =
    Some (map_option (\<lambda>k. (eptr es k, if want then Some (fst (ps ! k)) else None)) (stop_at (\<lambda>p. snd p = ele) ps j))"
proof (induction j rule: ahead_induct [where n = "length ps"])
  case (beyond j)
  then show ?case by (subst zzl_find_loop.simps) simp
next
  case (step j)
  show ?case
    using step(2) zz_next(1) [OF assms(1) step(1)] zz_next_pair [OF assms(1) step(1)] zz_read [OF assms(1) step(1)] assms(2)
    by (subst zzl_find_loop.simps) (simp add: at_pair_some [OF step(1)] stop_at_step [OF step(1)])
qed

lemma first_loop_at:
  assumes "zz_block E zl es ps" "text_ok E"
  shows "zzl_first_loop E r zl (at_pair es ps j) =
    Some (case stop_at (\<lambda>p. zslValueGteMin (fst p) r) ps j of
       None \<Rightarrow> None | Some k \<Rightarrow> if zslValueLteMax (fst (ps ! k)) r then Some (eptr es k) else None)"
proof (induction j rule: ahead_induct [where n = "length ps"])
  case (beyond j)
  then show ?case by (subst zzl_first_loop.simps) simp
next
  case (step j)
  show ?case
    using step(2) zz_next(1) [OF assms(1) step(1)] zz_next_pair [OF assms(1) step(1)] zz_read(4) [OF assms(1) step(1) assms(2)]
    by (subst zzl_first_loop.simps) (simp add: at_pair_some [OF step(1)] stop_at_step [OF step(1)])
qed

lemma first_lex_loop_at:
  assumes "zz_block E zl es ps"
  shows "zzl_first_lex_loop r zl (at_pair es ps j) =
    Some (case stop_at (\<lambda>p. zslLexValueGteMin (snd p) r) ps j of
       None \<Rightarrow> None | Some k \<Rightarrow> if zslLexValueLteMax (snd (ps ! k)) r then Some (eptr es k) else None)"
proof (induction j rule: ahead_induct [where n = "length ps"])
  case (beyond j)
  then show ?case by (subst zzl_first_lex_loop.simps) simp
next
  case (step j)
  show ?case
    using step(2) zz_next(1) [OF assms(1) step(1)] zz_next_pair [OF assms(1) step(1)] zz_read(1) [OF assms(1) step(1)]
    by (subst zzl_first_lex_loop.simps)
      (simp add: at_pair_some [OF step(1)] stop_at_step [OF step(1)] zzlLexValueGteMin_def zzlLexValueLteMax_def)
qed

lemma insert_loop_at:
  assumes "zz_block E zl es ps" "text_ok E"
  shows "zzl_insert_loop E zl ele score (at_pair es ps j) =
    zzlInsertAt E zl (map_option (eptr es) (stop_at (\<lambda>p. zlt score ele (fst p) (snd p)) ps j)) ele score"
proof (induction j rule: ahead_induct [where n = "length ps"])
  case (beyond j)
  then show ?case by (subst zzl_insert_loop.simps) simp
next
  case (step j)
  have c: "compareStringObjects (snd (ps ! j)) ele > 0 \<longleftrightarrow> ele < snd (ps ! j)"
    using compareStringObjects_spec [of "snd (ps ! j)" ele] by (metis not_le not_less)
  show ?case
    using step(2) zz_next(1) [OF assms(1) step(1)] zz_next_pair [OF assms(1) step(1)] zz_read [OF assms(1) step(1)] assms(2)
    by (subst zzl_insert_loop.simps)
      (auto simp: at_pair_some [OF step(1)] stop_at_step [OF step(1)] zlt_def c)
qed

end
