(* ===== verification/ZsetEdit.thy ===== *)
theory ZsetEdit
  imports ZsetZl
begin

text \<open>
  Changing a sorted set in a ziplist.  A block without wide length fields and with strings of
  at most 250 bytes keeps both under insertion and deletion; the theorem on
  \<open>ziplistInsert\<close> that needs a narrow field, or enough room, applies in every state.
\<close>

section \<open>Narrow entries\<close>

definition narrow :: "zraw \<Rightarrow> bool" where
  "narrow e \<longleftrightarrow> \<not> fst e \<and> length (zstr e) \<le> 250"

lemma narrow_len: "narrow e \<Longrightarrow> ent_len e < 254"
proof -
  assume n: "narrow e"
  let ?s = "zstr e"
  have "length x \<le> 8" if "zipSaveInteger v c = Some x" for v c x
    using that by (auto simp: zipSaveInteger_def split: if_splits)
  then have "length (payload ?s) \<le> 250"
    using n int_encodings(3) [of ?s] by (cases "zipTryEncoding ?s") (fastforce simp: payload_def narrow_def)+
  moreover have "ls_of ?s \<le> 2" using n by (simp add: ls_of_def zipEncodeLength_def narrow_def)
  ultimately show ?thesis using n by (simp add: ent_len_eq narrow_def)
qed

lemma new_entry_narrow: "m < 254 \<Longrightarrow> length s \<le> 250 \<Longrightarrow> narrow (new_entry m s)"
  by (simp add: narrow_def new_entry_def)

lemma prev_len_narrow: "\<forall>e \<in> set as. narrow e \<Longrightarrow> prev_len as < 254"
  by (simp add: prev_len_def narrow_len)

lemma casc_narrow: "ent_len c < 254 \<Longrightarrow> \<forall>e \<in> set ns. narrow e \<Longrightarrow> \<forall>e \<in> set (casc c ns). narrow e"
  by (cases ns) (auto simp: Let_def narrow_def)

lemma ins_entries_narrow:
  assumes "\<forall>e \<in> set as. narrow e" "\<forall>e \<in> set bs. narrow e" "length s \<le> 250"
  shows "\<forall>e \<in> set (ins_entries as s bs). narrow e"
proof -
  have n: "narrow (new_entry (prev_len as) s)" by (rule new_entry_narrow [OF prev_len_narrow [OF assms(1)] assms(3)])
  show ?thesis
  proof (cases bs)
    case Nil
    then show ?thesis using assms(1) n by (simp add: ins_entries_def)
  next
    case (Cons b bs')
    have b: "narrow (new_entry (ent_len (new_entry (prev_len as) s)) (zstr b))"
      using assms(2) Cons by (intro new_entry_narrow narrow_len n) (simp add: narrow_def)
    then show ?thesis using assms(1,2) n casc_narrow [OF narrow_len [OF b]] Cons by (auto simp: ins_entries_def)
  qed
qed

lemma del_entries_narrow:
  assumes "\<forall>e \<in> set as. narrow e" "\<forall>e \<in> set bs. narrow e"
  shows "\<forall>e \<in> set (del_entries as bs). narrow e"
proof (cases bs)
  case Nil
  then show ?thesis using assms(1) by (simp add: del_entries_def)
next
  case (Cons b bs')
  have b: "narrow (new_entry (prev_len as) (zstr b))"
    using assms Cons by (intro new_entry_narrow prev_len_narrow) (simp_all add: narrow_def)
  then show ?thesis using assms Cons casc_narrow [OF narrow_len [OF b]] by (auto simp: del_entries_def)
qed


section \<open>Blocks that can be changed\<close>

definition zz_ok :: "'s::linorder zenv \<Rightarrow> bytes \<Rightarrow> zraw list \<Rightarrow> ('s \<times> bytes) list \<Rightarrow> bool" where
  "zz_ok E zl es ps \<longleftrightarrow> zz_block E zl es ps \<and> (\<forall>e \<in> set es. narrow e)"

lemma zz_okD: "zz_ok E zl es ps \<Longrightarrow> zz_block E zl es ps" "zz_ok E zl es ps \<Longrightarrow> e \<in> set es \<Longrightarrow> narrow e"
  by (simp_all add: zz_ok_def)

lemma entries_narrow: "\<forall>e \<in> set es. narrow e \<Longrightarrow> length (entries es) \<le> 253 * length es"
  by (induction es) (auto dest!: narrow_len)

lemma zz_ok_length:
  assumes "zz_ok E zl es ps"
  shows "length zl \<le> 11 + 506 * length ps"
proof -
  have b: "zz_block E zl es ps" using assms by (simp add: zz_ok_def)
  have "length zl = 11 + length (entries es)" by (rule zl_repE [OF zz_blockD(1) [OF b]])
  then show ?thesis using entries_narrow [of es] zz_blockD(2) [OF b] zz_okD(2) [OF assms] by simp
qed

lemma zz_ok_new: "zz_ok E ziplistNew [] []"
  by (simp add: zz_ok_def zz_block_def ziplistNew_rep)

text \<open>Insertion at an entry: \<open>es1\<close> is the block after the first of the two insertions.\<close>

lemma insert_at_index:
  assumes "zl_rep zl es" "i < length es" "length zl + length s < 1073741824"
    and "fst (es ! i) \<Longrightarrow> 4 \<le> ent_len (new_entry (prev_len (take i es)) s)"
  shows "\<exists>zl'. ziplistInsert zl (pos_of es i) s = Some zl' \<and> zl_rep zl' (ins_entries (take i es) s (drop i es))"
proof -
  have split: "es = take i es @ es ! i # drop (Suc i) es" by (rule id_take_nth_drop [OF assms(2)])
  have rep: "zl_rep zl (take i es @ es ! i # drop (Suc i) es)" using assms(1) split by argo
  have p: "pos_of es i = 10 + length (entries (take i es))" by (simp add: pos_of_def)
  show ?thesis using insert_before [OF rep p assms(3,4)] unfolding Cons_nth_drop_Suc [OF assms(2)] .
qed

lemma wide_room: "254 \<le> m \<Longrightarrow> 4 \<le> ent_len (new_entry m s)"
  by (simp add: ent_len_eq new_entry_def)

lemma ins_entries_take: "take (length as) (ins_entries as s bs) = as"
  "ins_entries as s bs ! length as = new_entry (prev_len as) s" "length (ins_entries as s bs) = Suc (length as + length bs)"
  by (cases bs; simp add: ins_entries_def)+

text \<open>The entry behind a new one has a wide field only if the new one is long.\<close>

lemma ins_entries_next:
  assumes "bs \<noteq> []"
  shows "fst (ins_entries as s bs ! Suc (length as)) \<longleftrightarrow> 254 \<le> ent_len (new_entry (prev_len as) s)"
  using assms by (cases bs) (simp_all add: ins_entries_def nth_append new_entry_def)

lemma casc_head_size: "length (entries (casc_head c bs)) \<le> length (entries bs) + 4 * length bs"
proof (cases bs)
  case (Cons b bs')
  have "ent_len (new_entry (ent_len c) (zstr b)) \<le> ent_len b + 4" by (cases b) (simp add: new_entry_def ent_len_prev)
  moreover have "length (entries (casc_head c bs)) =
      ent_len (new_entry (ent_len c) (zstr b)) + length (entries (casc (new_entry (ent_len c) (zstr b)) bs'))"
    "length (entries bs) = ent_len b + length (entries bs')" "length bs = Suc (length bs')" using Cons by simp_all
  ultimately show ?thesis using casc_size [of "new_entry (ent_len c) (zstr b)" bs'] by linarith
qed simp

lemma ins_entries_length:
  assumes "zl_rep zl' (ins_entries as s bs)" "zl_rep zl (as @ bs)"
  shows "length zl' \<le> length zl + length s + 18 + 4 * length bs"
proof -
  have "length zl' = 11 + length (entries (ins_entries as s bs))" by (rule zl_repE [OF assms(1)])
  moreover have "length zl = 11 + length (entries (as @ bs))" by (rule zl_repE [OF assms(2)])
  ultimately show ?thesis
    using new_entry_size [of "prev_len as" s] casc_head_size [of "new_entry (prev_len as) s" bs] by (simp add: ins_entries_def)
qed

text \<open>Putting a pair in front of the pair \<open>j\<close>, or at the end.\<close>

lemma flat_insert: "take (2 * j) (flat E ps) @ ob # d2string E v # drop (2 * j) (flat E ps) = flat E (take j ps @ (v, ob) # drop j ps)"
  by (simp add: take_flat drop_flat)

definition room :: "('s \<times> bytes) list \<Rightarrow> bytes \<Rightarrow> bool" where
  "room ps ob \<longleftrightarrow> length ps \<le> 1000000 \<and> length ob \<le> 536870912"

lemma insert_pair_at:
  assumes ok: "zz_ok E zl es ps" and j: "j < length ps" and r: "room ps ob" and tx: "text_ok E"
  shows "\<exists>zl' es'. zzlInsertAt E zl (Some (eptr es j)) ob v = Some zl' \<and> zz_block E zl' es' (take j ps @ (v, ob) # drop j ps) \<and>
    (length ob \<le> 250 \<longrightarrow> zz_ok E zl' es' (take j ps @ (v, ob) # drop j ps))"
proof -
  note b = zz_okD(1) [OF ok] and nar = zz_okD(2) [OF ok]
  note rep = zz_blockD(1) [OF b]
  let ?as = "take (2 * j) es" and ?bs = "drop (2 * j) es" and ?s = "d2string E v"
  have i: "2 * j < length es" "length es = 2 * length ps" using zz_blockD(2) [OF b] j by simp_all
  have sz: "length zl \<le> 506000011" using zz_ok_length [OF ok] r by (simp add: room_def)
  have s: "length ?s < 128" using tx by (simp add: text_ok_def)
  have as: "length ?as = 2 * j" "?bs \<noteq> []" using i by simp_all
  obtain zl1 where z1: "ziplistInsert zl (eptr es j) ob = Some zl1" "zl_rep zl1 (ins_entries ?as ob ?bs)"
    using insert_at_index [OF rep i(1), of ob] nar [of "es ! (2 * j)"] i sz r by (auto simp: eptr_def narrow_def room_def)
  define es1 where "es1 = ins_entries ?as ob ?bs"
  have l1: "length es1 = Suc (length es)" using ins_entries_take(3) [of ?as ob ?bs] i by (simp add: es1_def)
  have t1: "take (2 * j) es1 = ?as" using ins_entries_take(1) [of ?as ob ?bs] as by (simp add: es1_def)
  have n1: "es1 ! (2 * j) = new_entry (prev_len ?as) ob" using ins_entries_take(2) [of ?as ob ?bs] as by (simp add: es1_def)
  have p1: "eptr es j = pos_of es1 (2 * j)" using t1 by (simp add: eptr_def pos_of_def)
  have nx: "ziplistNext zl1 (eptr es j) = Some (Some (pos_of es1 (Suc (2 * j))))"
    using next_at [of zl1 es1 "2 * j"] z1(2) l1 i p1 by (simp add: es1_def)
  have t2: "prev_len (take (Suc (2 * j)) es1) = ent_len (new_entry (prev_len ?as) ob)"
    using prev_len_take(1) [of "2 * j" es1] l1 i n1 by simp
  have "length zl1 \<le> length zl + length ob + 18 + 4 * length ?bs"
    using ins_entries_length [OF z1(2)] rep by simp
  moreover have "length ps \<le> 1000000" "length ob \<le> 536870912" "length ?bs \<le> 2 * length ps" using r i by (simp_all add: room_def)
  ultimately have "length zl1 + length ?s < 1073741824" using sz s by linarith
  then obtain zl2 where z2: "ziplistInsert zl1 (pos_of es1 (Suc (2 * j))) ?s = Some zl2"
    "zl_rep zl2 (ins_entries (take (Suc (2 * j)) es1) ?s (drop (Suc (2 * j)) es1))"
    using insert_at_index [of zl1 es1 "Suc (2 * j)" ?s] z1(2) l1 i t2 ins_entries_next [OF as(2), of ?as ob] as(1) wide_room
    by (auto simp: es1_def)
  define es2 where "es2 = ins_entries (take (Suc (2 * j)) es1) ?s (drop (Suc (2 * j)) es1)"
  have run: "zzlInsertAt E zl (Some (eptr es j)) ob v = Some zl2"
    using z1(1) z2(1) nx by (simp add: zzlInsertAt_def)
  have m: "map zstr es = flat E ps" using b by (simp add: zz_block_def)
  have m1: "map zstr es1 = take (2 * j) (flat E ps) @ ob # drop (2 * j) (flat E ps)"
    by (simp add: es1_def ins_entries_strs m flip: take_map drop_map)
  have "map zstr es2 = take (Suc (2 * j)) (map zstr es1) @ ?s # drop (Suc (2 * j)) (map zstr es1)"
    by (simp add: es2_def ins_entries_strs take_map drop_map)
  also have "\<dots> = take (2 * j) (flat E ps) @ ob # ?s # drop (2 * j) (flat E ps)"
    unfolding m1 using i by simp
  finally have blk: "zz_block E zl2 es2 (take j ps @ (v, ob) # drop j ps)"
    using z2(2) flat_insert [of j E ps ob v] by (simp add: zz_block_def es2_def)
  have "\<forall>e \<in> set es2. narrow e" if "length ob \<le> 250"
  proof -
    have "\<forall>e \<in> set es1. narrow e"
      unfolding es1_def by (rule ins_entries_narrow) (use nar that in \<open>auto dest: in_set_takeD in_set_dropD\<close>)
    then show ?thesis
      unfolding es2_def by (intro ins_entries_narrow) (use s in \<open>auto dest: in_set_takeD in_set_dropD\<close>)
  qed
  then show ?thesis using run blk by (auto simp: zz_ok_def)
qed

lemma push_pair:
  assumes ok: "zz_ok E zl es ps" and r: "room ps ob" and tx: "text_ok E"
  shows "\<exists>zl' es'. zzlInsertAt E zl None ob v = Some zl' \<and> zz_block E zl' es' (ps @ [(v, ob)]) \<and>
    (length ob \<le> 250 \<longrightarrow> zz_ok E zl' es' (ps @ [(v, ob)]))"
proof -
  note b = zz_okD(1) [OF ok] and nar = zz_okD(2) [OF ok]
  note rep = zz_blockD(1) [OF b]
  let ?s = "d2string E v"
  have sz: "length zl \<le> 506000011" using zz_ok_length [OF ok] r by (simp add: room_def)
  have s: "length ?s < 128" using tx by (simp add: text_ok_def)
  obtain zl1 where z1: "ziplistPush zl ob 1 = Some zl1" "zl_rep zl1 (ins_entries es ob [])"
    using push_at [OF rep, of ob 1] sz r by (auto simp: room_def)
  have "length zl1 \<le> length zl + length ob + 18" using ins_entries_length [OF z1(2)] rep by simp
  then have "length zl1 + length ?s < 1073741824" using sz s r by (simp add: room_def)
  from push_at [OF z1(2) this, of 1] obtain zl2 where
    z2: "ziplistPush zl1 ?s 1 = Some zl2" "zl_rep zl2 (ins_entries (ins_entries es ob []) ?s [])" by auto
  have "map zstr es = flat E ps" using b by (simp add: zz_block_def)
  then have blk: "zz_block E zl2 (ins_entries (ins_entries es ob []) ?s []) (ps @ [(v, ob)])"
    using z2(2) by (simp add: zz_block_def ins_entries_strs)
  have "\<forall>e \<in> set (ins_entries (ins_entries es ob []) ?s []). narrow e" if "length ob \<le> 250"
    by (intro ins_entries_narrow) (use nar that s in auto)
  then show ?thesis using z1(1) z2(1) blk by (auto simp: zzlInsertAt_def zz_ok_def)
qed

section \<open>Deleting a pair\<close>

lemma delete_narrow:
  assumes rep: "zl_rep zl es" and nar: "\<forall>e \<in> set es. narrow e" and i: "i < length es" and sz: "length es \<le> 2000002"
  obtains zl' es' where "ziplistDelete zl (pos_of es i) = Some (zl', pos_of es i)" "zl_rep zl' es'"
    "\<forall>e \<in> set es'. narrow e" "map zstr es' = take i (map zstr es) @ drop (Suc i) (map zstr es)" "take i es' = take i es"
proof -
  have "length zl = 11 + length (entries es)" by (rule zl_repE [OF rep])
  then have zl: "length zl < 1073741824" using entries_narrow [OF nar] sz by linarith
  define es' where "es' = del_entries (take i es) (drop (i + 1) es)"
  obtain zl' where z: "ziplistDelete_num zl (pos_of es i) 1 = Some zl'" "zl_rep zl' es'"
    using delete_at_index [OF rep zl i, of 1] by (auto simp: es'_def)
  have n: "\<forall>e \<in> set es'. narrow e"
    unfolding es'_def by (rule del_entries_narrow) (use nar in \<open>auto dest: in_set_takeD in_set_dropD\<close>)
  have m: "map zstr es' = take i (map zstr es) @ drop (Suc i) (map zstr es)"
    by (simp add: es'_def del_entries_strs take_map drop_map)
  have t: "take i es' = take i es"
    using i by (cases "drop (i + 1) es") (auto simp: es'_def del_entries_def)
  have "ziplistDelete zl (pos_of es i) = Some (zl', pos_of es i)" using z(1) by (simp add: ziplistDelete_def)
  then show thesis by (rule that [OF _ z(2) n m t])
qed

lemma delete_pair:
  assumes ok: "zz_ok E zl es ps" and j: "j < length ps" and sz: "length ps \<le> 1000001"
  obtains zl1 zl2 es2 where "ziplistDelete zl (eptr es j) = Some (zl1, eptr es j)"
    "ziplistDelete zl1 (eptr es j) = Some (zl2, eptr es j)" "zz_ok E zl2 es2 (take j ps @ drop (Suc j) ps)" "eptr es2 j = eptr es j"
proof -
  note b = zz_okD(1) [OF ok]
  have i: "2 * j < length es" "length es = 2 * length ps" using zz_blockD(2) [OF b] j by simp_all
  have nar: "\<forall>e \<in> set es. narrow e" "length es \<le> 2000002" using zz_okD(2) [OF ok] i sz by auto
  obtain zl1 es1 where 1: "ziplistDelete zl (pos_of es (2 * j)) = Some (zl1, pos_of es (2 * j))" "zl_rep zl1 es1" "\<forall>e \<in> set es1. narrow e"
    "map zstr es1 = take (2 * j) (map zstr es) @ drop (Suc (2 * j)) (map zstr es)" "take (2 * j) es1 = take (2 * j) es"
    by (rule delete_narrow [OF zz_blockD(1) [OF b] nar(1) i(1) nar(2)])
  have l1: "length es1 = length es - 1" using arg_cong [OF 1(4), of length] i by simp
  have i1: "2 * j < length es1" "length es1 \<le> 2000002" using l1 i j nar(2) by linarith+
  have p1: "pos_of es1 (2 * j) = pos_of es (2 * j)" using 1(5) by (simp add: pos_of_def)
  obtain zl2 es2 where 2: "ziplistDelete zl1 (pos_of es1 (2 * j)) = Some (zl2, pos_of es1 (2 * j))" "zl_rep zl2 es2" "\<forall>e \<in> set es2. narrow e"
    "map zstr es2 = take (2 * j) (map zstr es1) @ drop (Suc (2 * j)) (map zstr es1)" "take (2 * j) es2 = take (2 * j) es1"
    by (rule delete_narrow [OF 1(2,3) i1])
  have m: "map zstr es = flat E ps" using b by (simp add: zz_block_def)
  have "map zstr es2 = take (2 * j) (flat E ps) @ drop (2 * Suc j) (flat E ps)"
    using 2(4) 1(4) i by (simp add: m)
  then have "zz_ok E zl2 es2 (take j ps @ drop (Suc j) ps)"
    unfolding take_flat drop_flat using 2(2,3) by (simp add: zz_ok_def zz_block_def)
  moreover have "eptr es2 j = eptr es j" using 1(5) 2(5) by (simp add: eptr_def pos_of_def)
  ultimately show thesis using that 1(1) 2(1) unfolding p1 eptr_def by blast
qed

section \<open>The operations\<close>

lemma stop_at_takeWhile: "stop_at Q ps 0 = (let k = length (takeWhile (\<lambda>p. \<not> Q p) ps) in if k < length ps then Some k else None)"
proof -
  let ?k = "length (takeWhile (\<lambda>p. \<not> Q p) ps)"
  have nth: "\<not> Q (ps ! i)" if "i < ?k" for i using that by (metis nth_mem set_takeWhileD takeWhile_nth)
  show ?thesis
  proof (cases "?k < length ps")
    case True
    then have "Q (ps ! ?k)" using nth_length_takeWhile by fastforce
    then have "find (\<lambda>k. Q (ps ! k)) [0..<length ps] = Some ?k"
      unfolding find_Some_iff using True nth by (intro exI [of _ ?k]) simp
    then show ?thesis using True by (simp add: stop_at_def Let_def)
  next
    case False
    then have "?k = length ps" using length_takeWhile_le [of "\<lambda>p. \<not> Q p" ps] by simp
    then have "find (\<lambda>k. Q (ps ! k)) [0..<length ps] = None" using nth by (simp add: find_None_iff)
    then show ?thesis using False by (simp add: stop_at_def Let_def)
  qed
qed

definition zins :: "'s::linorder \<Rightarrow> bytes \<Rightarrow> ('s \<times> bytes) list \<Rightarrow> ('s \<times> bytes) list" where
  "zins v ob ps = takeWhile (\<lambda>p. zlt (fst p) (snd p) v ob) ps @ (v, ob) # dropWhile (\<lambda>p. zlt (fst p) (snd p) v ob) ps"

lemma zzlInsert_spec:
  assumes ok: "zz_ok E zl es ps" and r: "room ps ob" and tx: "text_ok E" and new: "(v, ob) \<notin> set ps"
  shows "\<exists>zl' es'. zzlInsert E zl ob v = Some zl' \<and> zz_block E zl' es' (zins v ob ps) \<and>
    (length ob \<le> 250 \<longrightarrow> zz_ok E zl' es' (zins v ob ps))"
proof -
  note b = zz_okD(1) [OF ok]
  let ?k = "length (takeWhile (\<lambda>p. zlt (fst p) (snd p) v ob) ps)"
  have "takeWhile (\<lambda>p. \<not> zlt v ob (fst p) (snd p)) ps = takeWhile (\<lambda>p. zlt (fst p) (snd p) v ob) ps"
  proof (rule takeWhile_cong [OF refl])
    fix p
    assume "p \<in> set ps"
    then have "(fst p, snd p) \<noteq> (v, ob)" using new by auto
    then show "\<not> zlt v ob (fst p) (snd p) \<longleftrightarrow> zlt (fst p) (snd p) v ob"
      using zlt_total [of v ob "fst p" "snd p"] zlt_trans [of v ob "fst p" "snd p" v ob] by auto
  qed
  then have "stop_at (\<lambda>p. zlt v ob (fst p) (snd p)) ps 0 = (if ?k < length ps then Some ?k else None)"
    by (simp add: stop_at_takeWhile)
  moreover have "zzlInsert E zl ob v = zzl_insert_loop E zl ob v (at_pair es ps 0)"
    using zz_index(1) [OF b] by (auto simp: zzlInsert_def at_pair_def)
  ultimately have run: "zzlInsert E zl ob v = zzlInsertAt E zl (if ?k < length ps then Some (eptr es ?k) else None) ob v"
    using insert_loop_at [OF b tx, of ob v 0] by simp
  have z: "zins v ob ps = take ?k ps @ (v, ob) # drop ?k ps"
    by (simp add: zins_def takeWhile_eq_take [symmetric] dropWhile_eq_drop [symmetric])
  show ?thesis
  proof (cases "?k < length ps")
    case True
    then show ?thesis using insert_pair_at [OF ok True r tx, of v] run z by simp
  next
    case False
    then have "take ?k ps = ps" "drop ?k ps = []" by simp_all
    then show ?thesis using push_pair [OF ok r tx, of v] run z False by simp
  qed
qed

lemma zzlFind_spec:
  assumes "zz_block E zl es ps" "text_ok E"
  shows "zzlFind E want zl ob =
    Some (map_option (\<lambda>k. (eptr es k, if want then Some (fst (ps ! k)) else None)) (stop_at (\<lambda>p. snd p = ob) ps 0))"
proof -
  have "zzlFind E want zl ob = zzl_find_loop E want zl ob (at_pair es ps 0)"
    using zz_index(1) [OF assms(1)] by (auto simp: zzlFind_def at_pair_def)
  then show ?thesis using find_loop_at [OF assms, of want ob 0] by simp
qed

lemma zzlDelete_spec:
  assumes "zz_ok E zl es ps" "j < length ps" "length ps \<le> 1000001"
  shows "\<exists>zl' es'. zzlDelete zl (eptr es j) = Some zl' \<and> zz_ok E zl' es' (take j ps @ drop (Suc j) ps)"
  by (rule delete_pair [OF assms]) (auto simp: zzlDelete_def)

lemma zzlLength_spec:
  assumes "zz_block E zl es ps"
  obtains zl' where "zzlLength zl = Some (length ps, zl')" "zz_block E zl' es ps"
  using ziplistLen_at [OF zz_blockD(1) [OF assms]] zz_blockD(2) [OF assms] assms that
  by (fastforce simp: zzlLength_def zz_block_def)

end
