(* ===== verification/ZsetRange.thy ===== *)
theory ZsetRange
  imports ZsetEdit
begin

text \<open>
  Ranges of a sorted set in a ziplist: the first pair of a range, and the deletion of a range.
\<close>

section \<open>The first pair\<close>

definition zsorted :: "('s::linorder \<times> bytes) list \<Rightarrow> bool" where
  "zsorted ps \<longleftrightarrow> sorted_wrt (\<lambda>p q. zlt (fst p) (snd p) (fst q) (snd q)) ps"

definition in_scores :: "'s::linorder zrangespec \<Rightarrow> 's \<times> bytes \<Rightarrow> bool" where
  "in_scores r p \<longleftrightarrow> zslValueGteMin (fst p) r \<and> zslValueLteMax (fst p) r"

definition in_strings :: "zlexrangespec \<Rightarrow> 's \<times> bytes \<Rightarrow> bool" where
  "in_strings r p \<longleftrightarrow> zslLexValueGteMin (snd p) r \<and> zslLexValueLteMax (snd p) r"

definition one_score :: "('s \<times> bytes) list \<Rightarrow> bool" where
  "one_score ps \<longleftrightarrow> (\<forall>p \<in> set ps. \<forall>q \<in> set ps. fst p = fst q)"

text \<open>The conditions on a range are monotone along a sorted list.\<close>

lemma scores_nth:
  assumes "zsorted ps" "i < j" "j < length ps"
  shows "zslValueGteMin (fst (ps ! i)) r \<Longrightarrow> zslValueGteMin (fst (ps ! j)) r"
    "zslValueLteMax (fst (ps ! j)) r \<Longrightarrow> zslValueLteMax (fst (ps ! i)) r"
proof -
  have "fst (ps ! i) \<le> fst (ps ! j)" using assms sorted_wrt_nth_less [OF assms(1) [unfolded zsorted_def] assms(2,3)] by (auto simp: zlt_def)
  then show "zslValueGteMin (fst (ps ! i)) r \<Longrightarrow> zslValueGteMin (fst (ps ! j)) r"
    "zslValueLteMax (fst (ps ! j)) r \<Longrightarrow> zslValueLteMax (fst (ps ! i)) r" using range_mono by blast+
qed

lemma lex_mono:
  assumes "LexObj v < LexObj w"
  shows "zslLexValueGteMin v r \<Longrightarrow> zslLexValueGteMin w r" "zslLexValueLteMax w r \<Longrightarrow> zslLexValueLteMax v r"
  using assms less_trans [of "lmin r" "LexObj v" "LexObj w"] order.strict_trans1 [of "lmin r" "LexObj v" "LexObj w"]
    less_trans [of "LexObj v" "LexObj w" "lmax r"] order.strict_trans2 [of "LexObj v" "LexObj w" "lmax r"]
  unfolding lex_bounds by (auto simp del: less_lexbound_simps split: if_splits intro: less_imp_le)

lemma strings_nth:
  assumes "zsorted ps" "one_score ps" "i < j" "j < length ps"
  shows "zslLexValueGteMin (snd (ps ! i)) r \<Longrightarrow> zslLexValueGteMin (snd (ps ! j)) r"
    "zslLexValueLteMax (snd (ps ! j)) r \<Longrightarrow> zslLexValueLteMax (snd (ps ! i)) r"
proof -
  have "fst (ps ! i) = fst (ps ! j)" using assms(2-4) by (simp add: one_score_def)
  then have "LexObj (snd (ps ! i)) < LexObj (snd (ps ! j))"
    using sorted_wrt_nth_less [OF assms(1) [unfolded zsorted_def] assms(3,4)] by (simp add: zlt_def)
  then show "zslLexValueGteMin (snd (ps ! i)) r \<Longrightarrow> zslLexValueGteMin (snd (ps ! j)) r"
    "zslLexValueLteMax (snd (ps ! j)) r \<Longrightarrow> zslLexValueLteMax (snd (ps ! i)) r"
    using lex_mono by blast+
qed

lemma stop_at_Some: "stop_at Q ps 0 = Some k \<longleftrightarrow> k < length ps \<and> Q (ps ! k) \<and> (\<forall>i<k. \<not> Q (ps ! i))"
  by (auto simp: stop_at_def find_Some_iff)

lemma stop_at_None: "stop_at Q ps 0 = None \<longleftrightarrow> (\<forall>p \<in> set ps. \<not> Q p)"
  unfolding stop_at_def find_None_iff all_set_conv_all_nth by simp

lemma stop_both:
  assumes "\<And>i j. i < j \<Longrightarrow> j < length ps \<Longrightarrow> L (ps ! j) \<Longrightarrow> L (ps ! i)"
  shows "stop_at (\<lambda>p. G p \<and> L p) ps 0 = (case stop_at G ps 0 of None \<Rightarrow> None | Some k \<Rightarrow> if L (ps ! k) then Some k else None)"
proof (cases "stop_at G ps 0")
  case None
  then have "stop_at (\<lambda>p. G p \<and> L p) ps 0 = None" unfolding stop_at_None by blast
  then show ?thesis using None by simp
next
  case (Some k)
  then have k: "k < length ps" "G (ps ! k)" "\<And>i. i < k \<Longrightarrow> \<not> G (ps ! i)" by (auto simp: stop_at_Some)
  show ?thesis
  proof (cases "L (ps ! k)")
    case True
    then have "stop_at (\<lambda>p. G p \<and> L p) ps 0 = Some k" unfolding stop_at_Some using k by blast
    then show ?thesis using Some True by simp
  next
    case False
    have "\<not> (G (ps ! i) \<and> L (ps ! i))" if "i < length ps" for i
      using k(3) [of i] False assms [of k i] that by (metis linorder_neqE_nat)
    then show ?thesis using Some False by (auto simp: stop_at_None in_set_conv_nth)
  qed
qed

lemma zzlIsInRange_spec:
  assumes b: "zz_block E zl es ps" and tx: "text_ok E" and srt: "zsorted ps" and len: "length zl < 4294967296"
  shows "\<exists>b. zzlIsInRange E r zl = Some b \<and> (\<not> b \<longrightarrow> (\<forall>p \<in> set ps. \<not> in_scores r p))"
proof (cases "rmin r > rmax r \<or> rmin r = rmax r \<and> (minex r \<or> maxex r)")
  case True
  then have "\<not> in_scores r p" for p :: "'a \<times> bytes"
    by (auto simp: in_scores_def zslValueGteMin_def zslValueLteMax_def split: if_splits)
  then show ?thesis using True by (intro exI [of _ False]) (simp add: zzlIsInRange_def)
next
  case F: False
  show ?thesis
  proof (cases "ps = []")
    case True
    then show ?thesis using zz_index(3) [OF b len] F by (intro exI [of _ False]) (simp add: zzlIsInRange_def)
  next
    case False
    then have n: "length ps - 1 < length ps" "0 < length ps" by simp_all
    have run: "zzlIsInRange E r zl = Some (zslValueGteMin (fst (ps ! (length ps - 1))) r \<and> zslValueLteMax (fst (ps ! 0)) r)"
      using zz_index(2,3) [OF b] len False F zz_read(4) [OF b n(1) tx] zz_read(4) [OF b n(2) tx]
      unfolding zzlIsInRange_def if_not_P [OF F] by simp
    have "in_scores r p \<Longrightarrow> zslValueGteMin (fst (ps ! (length ps - 1))) r \<and> zslValueLteMax (fst (ps ! 0)) r" if e: "p \<in> set ps" for p
    proof -
      obtain i where "i < length ps" "p = ps ! i" using e by (auto simp: in_set_conv_nth)
      then show "in_scores r p \<Longrightarrow> zslValueGteMin (fst (ps ! (length ps - 1))) r \<and> zslValueLteMax (fst (ps ! 0)) r"
        using scores_nth(1) [OF srt _ n(1), of i r] scores_nth(2) [OF srt, of 0 i r]
        by (cases "i = 0"; cases "i = length ps - 1") (auto simp: in_scores_def)
    qed
    then show ?thesis using run by blast
  qed
qed

lemma zzlFirstInRange_spec:
  assumes b: "zz_block E zl es ps" and tx: "text_ok E" and srt: "zsorted ps" and len: "length zl < 4294967296"
  shows "zzlFirstInRange E r zl = Some (map_option (eptr es) (stop_at (in_scores r) ps 0))"
proof -
  obtain inr where i: "zzlIsInRange E r zl = Some inr" "\<not> inr \<Longrightarrow> stop_at (in_scores r) ps 0 = None"
    using zzlIsInRange_spec [OF b tx srt len] by (auto simp: stop_at_None)
  have "stop_at (in_scores r) ps 0 =
      (case stop_at (\<lambda>p. zslValueGteMin (fst p) r) ps 0 of None \<Rightarrow> None | Some k \<Rightarrow> if zslValueLteMax (fst (ps ! k)) r then Some k else None)"
    unfolding in_scores_def [abs_def] by (rule stop_both) (rule scores_nth(2) [OF srt])
  moreover have "ziplistIndex zl 0 = Some (at_pair es ps 0)" using zz_index(1) [OF b] by (simp add: at_pair_def)
  ultimately show ?thesis
    using i first_loop_at [OF b tx, of r 0] by (auto simp: zzlFirstInRange_def split: option.splits)
qed

lemma zzlIsInLexRange_spec:
  assumes b: "zz_block E zl es ps" and srt: "zsorted ps" "one_score ps" and len: "length zl < 4294967296"
  shows "\<exists>b. zzlIsInLexRange r zl = Some b \<and> (mixed_up r \<longrightarrow> \<not> b) \<and> (\<not> b \<longrightarrow> mixed_up r \<or> (\<forall>p \<in> set ps. \<not> in_strings r p))"
proof (cases "zsl_lex_empty r")
  case True
  have "\<not> mixed_up r \<Longrightarrow> \<not> in_strings r p" for p :: "'a \<times> bytes"
    using zsl_lex_empty_spec [OF True, of "\<lparr>e_addr = 0, e_height = 0, e_score = fst p, e_obj = snd p\<rparr>"]
    by (simp add: in_strings_def in_lex_eq)
  then show ?thesis using True by (intro exI [of _ False]) (auto simp: zzlIsInLexRange_def)
next
  case F: False
  have nm: "\<not> mixed_up r" using F compareStringObjects_spec(2) by (auto simp: zsl_lex_empty_def mixed_up_def)
  show ?thesis
  proof (cases "ps = []")
    case True
    then show ?thesis using zz_index(4) [OF b len] F nm by (intro exI [of _ False]) (simp add: zzlIsInLexRange_def)
  next
    case False
    then have n: "length ps - 1 < length ps" "0 < length ps" by simp_all
    have run: "zzlIsInLexRange r zl = Some (zslLexValueGteMin (snd (ps ! (length ps - 1))) r \<and> zslLexValueLteMax (snd (ps ! 0)) r)"
      using zz_index(1,4) [OF b] len False F zz_read(1) [OF b n(1)] zz_read(1) [OF b n(2)]
      by (simp add: zzlIsInLexRange_def zzlLexValueGteMin_def zzlLexValueLteMax_def)
    have "in_strings r p \<Longrightarrow> zslLexValueGteMin (snd (ps ! (length ps - 1))) r \<and> zslLexValueLteMax (snd (ps ! 0)) r" if e: "p \<in> set ps" for p
    proof -
      obtain i where "i < length ps" "p = ps ! i" using e by (auto simp: in_set_conv_nth)
      then show "in_strings r p \<Longrightarrow> zslLexValueGteMin (snd (ps ! (length ps - 1))) r \<and> zslLexValueLteMax (snd (ps ! 0)) r"
        using strings_nth(1) [OF srt _ n(1), of i r] strings_nth(2) [OF srt, of 0 i r]
        by (cases "i = 0"; cases "i = length ps - 1") (auto simp: in_strings_def)
    qed
    then show ?thesis using run nm by blast
  qed
qed

lemma zzlFirstInLexRange_spec:
  assumes b: "zz_block E zl es ps" and srt: "zsorted ps" "one_score ps" and len: "length zl < 4294967296"
  shows "zzlFirstInLexRange r zl = Some (if mixed_up r then None else map_option (eptr es) (stop_at (in_strings r) ps 0))"
proof -
  obtain inr where i: "zzlIsInLexRange r zl = Some inr" "mixed_up r \<Longrightarrow> \<not> inr" "\<not> inr \<Longrightarrow> \<not> mixed_up r \<Longrightarrow> stop_at (in_strings r) ps 0 = None"
    using zzlIsInLexRange_spec [OF b srt len] by (auto simp: stop_at_None)
  have "stop_at (in_strings r) ps 0 =
      (case stop_at (\<lambda>p. zslLexValueGteMin (snd p) r) ps 0 of None \<Rightarrow> None | Some k \<Rightarrow> if zslLexValueLteMax (snd (ps ! k)) r then Some k else None)"
    unfolding in_strings_def [abs_def] by (rule stop_both) (rule strings_nth(2) [OF srt])
  moreover have "ziplistIndex zl 0 = Some (at_pair es ps 0)" using zz_index(1) [OF b] by (simp add: at_pair_def)
  ultimately show ?thesis
    using i first_lex_loop_at [OF b, of r 0] by (auto simp: zzlFirstInLexRange_def split: option.splits)
qed

section \<open>Deletion of a range\<close>

lemma delete_loop_at:
  assumes c: "\<And>zl es ps k. zz_block E zl es ps \<Longrightarrow> k < length ps \<Longrightarrow> cnd zl (eptr es k) (sptr es k) = Some (Q (ps ! k))"
  shows "zz_ok E zl es (xs @ ys) \<Longrightarrow> length (xs @ ys) \<le> 1000001 \<Longrightarrow>
    \<exists>zl' es'. zzl_delete_while cnd zl (eptr es (length xs)) num = Some (num + length (takeWhile Q ys), zl') \<and>
      zz_ok E zl' es' (xs @ dropWhile Q ys)"
proof (induction ys arbitrary: zl es num)
  case Nil
  have b: "zz_block E zl es xs" using Nil.prems(1) by (simp add: zz_ok_def)
  have "ziplistNext zl (eptr es (length xs)) = Some None"
    using next_at [OF zz_blockD(1) [OF b], of "2 * length xs"] zz_blockD(2) [OF b] by (simp add: eptr_def)
  then show ?case using Nil.prems(1) by (subst zzl_delete_while.simps) auto
next
  case (Cons p ys)
  note b = zz_okD(1) [OF Cons.prems(1)]
  have j: "length xs < length (xs @ p # ys)" by simp
  have nx: "ziplistNext zl (eptr es (length xs)) = Some (Some (sptr es (length xs)))" by (rule zz_next(1) [OF b j])
  have cq: "cnd zl (eptr es (length xs)) (sptr es (length xs)) = Some (Q p)" using c [OF b j] by simp
  show ?case
  proof (cases "Q p")
    case False
    then show ?thesis using nx cq Cons.prems(1) by (subst zzl_delete_while.simps) auto
  next
    case True
    obtain zl1 zl2 es2 where d: "ziplistDelete zl (eptr es (length xs)) = Some (zl1, eptr es (length xs))"
      "ziplistDelete zl1 (eptr es (length xs)) = Some (zl2, eptr es (length xs))"
      "zz_ok E zl2 es2 (xs @ ys)" "eptr es2 (length xs) = eptr es (length xs)"
      using delete_pair [OF Cons.prems(1) j Cons.prems(2)] by auto
    have "length (xs @ ys) \<le> 1000001" using Cons.prems(2) by simp
    from Cons.IH [OF d(3) this, of "num + 1"] show ?thesis
      using True nx cq d by (subst zzl_delete_while.simps) auto
  qed
qed

text \<open>From the first pair of a range on, the pairs that satisfy the upper condition are the range.\<close>

lemma range_filter:
  assumes up: "\<And>i j. i < j \<Longrightarrow> j < length ps \<Longrightarrow> G (ps ! i) \<Longrightarrow> G (ps ! j)"
    and down: "\<And>i j. i < j \<Longrightarrow> j < length ps \<Longrightarrow> L (ps ! j) \<Longrightarrow> L (ps ! i)"
    and k: "stop_at (\<lambda>p. G p \<and> L p) ps 0 = Some k"
  shows "k < length ps" "filter (\<lambda>p. G p \<and> L p) ps = takeWhile L (drop k ps)"
    "filter (\<lambda>p. \<not> (G p \<and> L p)) ps = take k ps @ dropWhile L (drop k ps)"
proof -
  have "stop_at G ps 0 = Some k" using k stop_both [of ps L G, OF down] by (auto split: option.splits if_splits)
  then have n: "k = length (takeWhile (\<lambda>p. \<not> G p) ps)" by (simp add: stop_at_takeWhile Let_def split: if_splits)
  have t: "takeWhile (\<lambda>p. \<not> G p) ps = take k ps" unfolding n by (rule takeWhile_eq_take)
  have ps: "ps = takeWhile (\<lambda>p. \<not> G p) ps @ drop k ps" unfolding t by (rule append_take_drop_id [symmetric])
  show "filter (\<lambda>p. G p \<and> L p) ps = takeWhile L (drop k ps)"
    by (rule filter_split(1) [OF _ _ ps]) (rule up down; assumption)+
  have "filter (\<lambda>p. \<not> (G p \<and> L p)) ps = takeWhile (\<lambda>p. \<not> G p) ps @ dropWhile L (drop k ps)"
    by (rule filter_split(2) [OF _ _ ps]) (rule up down; assumption)+
  then show "filter (\<lambda>p. \<not> (G p \<and> L p)) ps = take k ps @ dropWhile L (drop k ps)" unfolding t .
  show "k < length ps" using k by (simp add: stop_at_Some)
qed

lemma delete_from_first:
  assumes ok: "zz_ok E zl es ps" and len: "length ps \<le> 1000001"
    and c: "\<And>zl es ps k. zz_block E zl es ps \<Longrightarrow> k < length ps \<Longrightarrow> cnd zl (eptr es k) (sptr es k) = Some (L (ps ! k))"
    and up: "\<And>i j. i < j \<Longrightarrow> j < length ps \<Longrightarrow> G (ps ! i) \<Longrightarrow> G (ps ! j)"
    and down: "\<And>i j. i < j \<Longrightarrow> j < length ps \<Longrightarrow> L (ps ! j) \<Longrightarrow> L (ps ! i)"
  shows "\<exists>zl' es'. (case map_option (eptr es) (stop_at (\<lambda>p. G p \<and> L p) ps 0) of
        None \<Rightarrow> Some (0, zl) | Some e \<Rightarrow> zzl_delete_while cnd zl e 0) =
      Some (length (filter (\<lambda>p. G p \<and> L p) ps), zl') \<and> zz_ok E zl' es' (filter (\<lambda>p. \<not> (G p \<and> L p)) ps)"
proof (cases "stop_at (\<lambda>p. G p \<and> L p) ps 0")
  case None
  then have "filter (\<lambda>p. G p \<and> L p) ps = []" "filter (\<lambda>p. \<not> (G p \<and> L p)) ps = ps"
    unfolding stop_at_None filter_empty_conv filter_id_conv by blast+
  then show ?thesis using None ok by auto
next
  case (Some k)
  have f: "filter (\<lambda>p. G p \<and> L p) ps = takeWhile L (drop k ps)"
    "filter (\<lambda>p. \<not> (G p \<and> L p)) ps = take k ps @ dropWhile L (drop k ps)"
    by (rule range_filter(2,3) [OF _ _ Some]; (rule up | rule down); assumption)+
  have k: "length (take k ps) = k" using Some by (simp add: stop_at_Some)
  have "zz_ok E zl es (take k ps @ drop k ps)" "length (take k ps @ drop k ps) \<le> 1000001" using ok len by simp_all
  from delete_loop_at [where cnd = cnd and Q = L, OF c this, of 0] show ?thesis
    unfolding f k Some option.map option.case add_0 by blast
qed

lemma zzlDeleteRangeByScore_spec:
  assumes ok: "zz_ok E zl es ps" and tx: "text_ok E" and srt: "zsorted ps" and len: "length ps \<le> 1000001"
  shows "\<exists>zl' es'. zzlDeleteRangeByScore E r zl = Some (length (filter (in_scores r) ps), zl') \<and>
    zz_ok E zl' es' (filter (\<lambda>p. \<not> in_scores r p) ps)"
proof -
  have "length zl < 4294967296" using zz_ok_length [OF ok] len by simp
  note f = zzlFirstInRange_spec [OF zz_okD(1) [OF ok] tx srt this, of r]
  have "\<exists>zl' es'. (case map_option (eptr es) (stop_at (in_scores r) ps 0) of None \<Rightarrow> Some (0, zl)
      | Some e \<Rightarrow> zzl_delete_while (\<lambda>zl e s. do { score \<leftarrow> zzlGetScore E zl s; Some (zslValueLteMax score r) }) zl e 0) =
    Some (length (filter (in_scores r) ps), zl') \<and> zz_ok E zl' es' (filter (\<lambda>p. \<not> in_scores r p) ps)"
    unfolding in_scores_def [abs_def]
    by (rule delete_from_first [OF ok len, where L = "\<lambda>p. zslValueLteMax (fst p) r"])
      (use scores_nth [OF srt] in \<open>auto simp: zz_read(4) [OF _ _ tx]\<close>)
  then show ?thesis by (simp add: zzlDeleteRangeByScore_def f)
qed

lemma zzlDeleteRangeByLex_spec:
  assumes ok: "zz_ok E zl es ps" and srt: "zsorted ps" "one_score ps" and len: "length ps \<le> 1000001" and nm: "\<not> mixed_up r"
  shows "\<exists>zl' es'. zzlDeleteRangeByLex r zl = Some (length (filter (in_strings r) ps), zl') \<and>
    zz_ok E zl' es' (filter (\<lambda>p. \<not> in_strings r p) ps)"
proof -
  have "length zl < 4294967296" using zz_ok_length [OF ok] len by simp
  note f = zzlFirstInLexRange_spec [OF zz_okD(1) [OF ok] srt this, of r]
  have "\<exists>zl' es'. (case map_option (eptr es) (stop_at (in_strings r) ps 0) of None \<Rightarrow> Some (0, zl)
      | Some e \<Rightarrow> zzl_delete_while (\<lambda>zl e s. zzlLexValueLteMax zl e r) zl e 0) =
    Some (length (filter (in_strings r) ps), zl') \<and> zz_ok E zl' es' (filter (\<lambda>p. \<not> in_strings r p) ps)"
    unfolding in_strings_def [abs_def]
    by (rule delete_from_first [OF ok len, where L = "\<lambda>p. zslLexValueLteMax (snd p) r"])
      (use strings_nth [OF srt] in \<open>auto simp: zzlLexValueLteMax_def zz_read(1)\<close>)
  then show ?thesis using nm by (simp add: zzlDeleteRangeByLex_def f)
qed

lemma zzlDeleteRangeByRank_spec:
  assumes ok: "zz_ok E zl es ps" and len: "length ps \<le> 1000001" and r: "1 \<le> start" "start \<le> end'" "end' \<le> length ps"
  shows "\<exists>zl' es'. zzlDeleteRangeByRank start end' zl = Some (Suc end' - start, zl') \<and>
    zz_ok E zl' es' (take (start - 1) ps @ drop end' ps)"
proof -
  note b = zz_okD(1) [OF ok]
  let ?i = "2 * (start - 1)" and ?n = "2 * (Suc end' - start)"
  have i: "?i < length es" "?i + ?n = 2 * end'" using zz_blockD(2) [OF b] r by simp_all
  have zl: "length zl < 1073741824" using zz_ok_length [OF ok] len by simp
  have u: "uadd U32 (usub U32 end' start) 1 = Suc end' - start" "usub U32 start 1 = start - 1" "?i mod U32 = ?i" "?n mod U32 = ?n"
    using r len by (simp_all add: uadd_def uarith(1) Suc_diff_le)
  obtain zl' where z: "ziplistDelete_num zl (pos_of es ?i) ?n = Some zl'" "zl_rep zl' (del_entries (take ?i es) (drop (?i + ?n) es))"
    using delete_at_index [OF zz_blockD(1) [OF b] zl i(1), of ?n] r by auto
  have m: "map zstr es = flat E ps" using b by (simp add: zz_block_def)
  have "map zstr (del_entries (take ?i es) (drop (?i + ?n) es)) = flat E (take (start - 1) ps @ drop end' ps)"
    unfolding i(2) del_entries_strs take_map [symmetric] drop_map [symmetric] m take_flat drop_flat by simp
  moreover have "\<forall>e \<in> set (del_entries (take ?i es) (drop (?i + ?n) es)). narrow e"
    by (rule del_entries_narrow) (use zz_okD(2) [OF ok] in \<open>auto dest: in_set_takeD in_set_dropD\<close>)
  ultimately have "zz_ok E zl' (del_entries (take ?i es) (drop (?i + ?n) es)) (take (start - 1) ps @ drop end' ps)"
    using z(2) by (simp add: zz_ok_def zz_block_def)
  moreover have "zzlDeleteRangeByRank start end' zl = Some (Suc end' - start, zl')"
    using ziplistIndex_forward [OF zz_blockD(1) [OF b], of ?i] i(1) z(1) to_int32_small [of ?i] r len
    unfolding zzlDeleteRangeByRank_def Let_def u ziplistDeleteRange_def by simp
  ultimately show ?thesis by blast
qed

end
