(* ===== verification/ZsetSpec.thy ===== *)
theory ZsetSpec
  imports ZsetCommands ZsetRange SkipList
begin

text \<open>
  What a sorted set object represents, in either encoding: a list of pairs of score and
  element in order, no element twice.  The operations on one object, as operations on it.
\<close>

section \<open>The list of pairs\<close>

definition score_of :: "('s \<times> bytes) list \<Rightarrow> bytes \<Rightarrow> 's option" where
  "score_of ps ob = map_of (map (\<lambda>p. (snd p, fst p)) ps) ob"

definition zdel :: "bytes \<Rightarrow> ('s \<times> bytes) list \<Rightarrow> ('s \<times> bytes) list" where
  "zdel ob ps = filter (\<lambda>p. snd p \<noteq> ob) ps"

definition sset :: "('s::linorder \<times> bytes) list \<Rightarrow> bool" where
  "sset ps \<longleftrightarrow> zsorted ps \<and> distinct (map snd ps)"

lemma score_of_None: "score_of ps ob = None \<longleftrightarrow> ob \<notin> snd ` set ps"
  by (induction ps) (auto simp: score_of_def)

lemma score_of_Some: "distinct (map snd ps) \<Longrightarrow> score_of ps ob = Some v \<longleftrightarrow> (v, ob) \<in> set ps"
  by (induction ps) (force simp: score_of_def)+

lemma score_of_nth: "distinct (map snd ps) \<Longrightarrow> j < length ps \<Longrightarrow> score_of ps (snd (ps ! j)) = Some (fst (ps ! j))"
  by (simp add: score_of_Some)

lemma zdel_absent: "ob \<notin> snd ` set ps \<Longrightarrow> zdel ob ps = ps"
  by (auto simp: zdel_def filter_id_conv)

lemma zdel_nth:
  assumes "distinct (map snd ps)" "j < length ps"
  shows "zdel (snd (ps ! j)) ps = take j ps @ drop (Suc j) ps"
proof -
  have ps: "ps = take j ps @ ps ! j # drop (Suc j) ps" by (rule id_take_nth_drop [OF assms(2)])
  have "snd (ps ! j) \<notin> snd ` set (take j ps)" "snd (ps ! j) \<notin> snd ` set (drop (Suc j) ps)"
    using assms(1) by (subst (asm) ps, simp)+
  then have "zdel (snd (ps ! j)) (take j ps @ ps ! j # drop (Suc j) ps) = take j ps @ drop (Suc j) ps"
    using zdel_absent [of "snd (ps ! j)" "take j ps"] zdel_absent [of "snd (ps ! j)" "drop (Suc j) ps"] by (simp add: zdel_def)
  then show ?thesis using ps by simp
qed

lemma set_zins [simp]: "set (zins v ob ps) = insert (v, ob) (set ps)" "length (zins v ob ps) = Suc (length ps)"
proof -
  let ?P = "\<lambda>p. zlt (fst p) (snd p) v ob"
  have "set ps = set (takeWhile ?P ps) \<union> set (dropWhile ?P ps)" "length ps = length (takeWhile ?P ps) + length (dropWhile ?P ps)"
    by (metis set_append takeWhile_dropWhile_id, metis length_append takeWhile_dropWhile_id)
  then show "set (zins v ob ps) = insert (v, ob) (set ps)" "length (zins v ob ps) = Suc (length ps)"
    by (auto simp: zins_def)
qed

lemma set_zdel: "set (zdel ob ps) = {p \<in> set ps. snd p \<noteq> ob}"
  by (auto simp: zdel_def)

lemma sset_filter: "sset ps \<Longrightarrow> sset (filter P ps)"
  by (simp add: sset_def zsorted_def sorted_wrt_filter distinct_map_filter)

lemma sset_zdel: "sset ps \<Longrightarrow> sset (zdel ob ps)"
  by (simp add: zdel_def sset_filter)

lemma behind_place:
  "zsorted ps \<Longrightarrow> q \<in> set (dropWhile (\<lambda>p. zlt (fst p) (snd p) v ob) ps) \<Longrightarrow> \<not> zlt (fst q) (snd q) v ob"
proof (induction ps)
  case (Cons p ps)
  show ?case
  proof (cases "zlt (fst p) (snd p) v ob")
    case True
    then show ?thesis using Cons by (simp add: zsorted_def)
  next
    case False
    then have "q = p \<or> zlt (fst p) (snd p) (fst q) (snd q)" using Cons.prems by (auto simp: zsorted_def)
    then show ?thesis using False zlt_trans [of "fst p" "snd p" "fst q" "snd q" v ob] by auto
  qed
qed simp

lemma sset_zins:
  assumes s: "sset ps" and new: "ob \<notin> snd ` set ps"
  shows "sset (zins v ob ps)"
proof -
  define xs ys where "xs = takeWhile (\<lambda>p. zlt (fst p) (snd p) v ob) ps" and "ys = dropWhile (\<lambda>p. zlt (fst p) (snd p) v ob) ps"
  have ps: "ps = xs @ ys" by (simp add: xs_def ys_def)
  have z: "zins v ob ps = xs @ (v, ob) # ys" by (simp add: zins_def xs_def ys_def)
  have srt: "zsorted (xs @ ys)" and dst: "distinct (map snd (xs @ ys))" and new': "ob \<notin> snd ` set xs" "ob \<notin> snd ` set ys"
    using s new ps by (auto simp: sset_def)
  have d: "zlt v ob (fst q) (snd q)" if q: "q \<in> set ys" for q
  proof -
    have "\<not> zlt (fst q) (snd q) v ob" using behind_place [of ps q v ob] s q by (simp add: sset_def ys_def)
    moreover have "snd q \<noteq> ob" using new'(2) q by auto
    ultimately show ?thesis using zlt_total [of v ob "fst q" "snd q"] by auto
  qed
  have t: "zlt (fst p) (snd p) v ob" if "p \<in> set xs" for p using that by (auto simp: xs_def dest: set_takeWhileD)
  have "zsorted (xs @ (v, ob) # ys)" using srt d t by (auto simp: zsorted_def sorted_wrt_append)
  moreover have "distinct (map snd (xs @ (v, ob) # ys))" using dst new' by auto
  ultimately show ?thesis unfolding z sset_def by blast
qed

section \<open>Objects\<close>

definition env_ok :: "'s::linorder zenv \<Rightarrow> bool" where
  "env_ok E \<longleftrightarrow> libc_ok E \<and> (\<forall>t used. finite (Collect used) \<longrightarrow> \<not> used (malloc E t used))
    \<and> (\<forall>t. zslRandomLevel (draws E t) \<noteq> None)
    \<and> zset_max_ziplist_value E \<le> 250 \<and> zset_max_ziplist_entries E \<le> 1000000"

lemma env_text_ok: "env_ok E \<Longrightarrow> text_ok E"
  by (simp add: env_ok_def libc_text_ok)

definition addr_of :: "'s zelem list \<Rightarrow> bytes \<Rightarrow> nat option" where
  "addr_of es = map_of (map (\<lambda>e. (e_obj e, e_addr e)) es)"

lemma addr_of_simps [simp]:
  "addr_of [] ob = None" "addr_of (e # es) ob = (if ob = e_obj e then Some (e_addr e) else addr_of es ob)"
  by (simp_all add: addr_of_def)

lemma addr_of_None: "addr_of es ob = None \<longleftrightarrow> ob \<notin> e_obj ` set es"
  by (induction es) auto

lemma addr_of_SomeD: "addr_of es ob = Some a \<Longrightarrow> \<exists>e \<in> set es. e_obj e = ob \<and> e_addr e = a"
  by (induction es) (auto split: if_splits)

lemma addr_of_insert:
  "e_obj e \<notin> e_obj ` set as \<Longrightarrow> addr_of (as @ e # bs) ob = (if ob = e_obj e then Some (e_addr e) else addr_of (as @ bs) ob)"
  by (induction as) auto

lemma addr_of_filter:
  "distinct (map e_obj es) \<Longrightarrow> addr_of (filter P es) ob = (if ob \<in> e_obj ` set (filter P es) then addr_of es ob else None)"
  by (induction es) (auto simp: addr_of_None)

text \<open>Every score pointer of the dictionary points to the node of its element.\<close>

definition zs_ok :: "'s::linorder zset \<Rightarrow> 's zelem list \<Rightarrow> bool" where
  "zs_ok zs es \<longleftrightarrow> zsl_rep (zsl zs) es \<and> distinct (map e_obj es) \<and>
    Mapping.lookup (zdict zs) = addr_of es"

definition zset_rep :: "'s::linorder zenv \<Rightarrow> 's zsetobj \<Rightarrow> ('s \<times> bytes) list \<Rightarrow> bool" where
  "zset_rep E o' ps \<longleftrightarrow>
    (case o' of
       ZsetZiplist zl \<Rightarrow> sset ps \<and> length ps \<le> 1000000 \<and> (\<exists>es. zz_ok E zl es ps)
     | ZsetSkiplist zs \<Rightarrow> \<exists>es. zs_ok zs es \<and> ps = zkeys es)"

lemma zkeys_simps [simp]:
  "zkeys [] = []" "zkeys (e # es) = (e_score e, e_obj e) # zkeys es" "zkeys (es @ fs) = zkeys es @ zkeys fs"
  "length (zkeys es) = length es" "map snd (zkeys es) = map e_obj es" "snd ` set (zkeys es) = e_obj ` set es"
  by (force simp: zkeys_def)+

lemma zkeys_filter: "zkeys (filter (\<lambda>e. P (e_score e, e_obj e)) es) = filter P (zkeys es)"
  by (induction es) simp_all

lemma zs_ok_sset: "zs_ok zs es \<Longrightarrow> sset (zkeys es)"
  using zsl_repD(1) [of "zsl zs" es]
  by (auto simp: zs_ok_def sset_def zsorted_def elems_ok_def zkeys_def [of es] sorted_wrt_map o_def)

lemma zset_rep_sset: "zset_rep E o' ps \<Longrightarrow> sset ps"
  by (auto simp: zset_rep_def zs_ok_sset split: zsetobj.splits)

section \<open>The skip list encoding\<close>

lemma lookup_node:
  assumes "zs_ok zs es" "Mapping.lookup (zdict zs) ob = Some a"
  obtains e n where "e \<in> set es" "e_obj e = ob" "e_addr e = a" "znodes (zsl zs) a = Some n" "zscore n = e_score e"
    "score_of (zkeys es) ob = Some (e_score e)"
proof -
  have "addr_of es ob = Some a" using assms by (simp add: zs_ok_def)
  then obtain e where e: "e \<in> set es" "e_obj e = ob" "e_addr e = a" by (blast dest: addr_of_SomeD)
  then obtain j where j: "j < length es" "e = es ! j" by (auto simp: in_set_conv_nth)
  obtain n where n: "znodes (zsl zs) a = Some n" "zscore n = e_score e"
    using node_of [of "zsl zs" es j] assms(1) j e(3) by (auto simp: zs_ok_def)
  have "distinct (map snd (zkeys es))" using assms(1) by (simp add: zs_ok_def)
  then have "score_of (zkeys es) ob = Some (e_score e)"
    using e(1,2) by (simp add: score_of_Some) (auto simp: zkeys_def)
  then show thesis using that e n by blast
qed

lemma lookup_None_iff: "zs_ok zs es \<Longrightarrow> Mapping.lookup (zdict zs) ob = None \<longleftrightarrow> ob \<notin> e_obj ` set es"
  by (simp add: zs_ok_def addr_of_None)

lemma finite_nodes:
  assumes "zsl_rep z es"
  shows "finite (Collect (zsl_free z))"
proof (rule finite_subset)
  show "Collect (zsl_free z) \<subseteq> insert (header z) (e_addr ` set es)"
  proof
    fix a
    assume "a \<in> Collect (zsl_free z)"
    then have "meta z a \<noteq> None" by (auto simp: zsl_free_def meta_def)
    then show "a \<in> insert (header z) (e_addr ` set es)" using assms unfolding zsl_rep_def by auto
  qed
qed simp

lemma zsl_insert_new_spec:
  assumes env: "env_ok E" and rep: "zsl_rep z es" and len: "Suc (length es) < U32" and new: "ob \<notin> e_obj ` set es"
  obtains z' e where "zsl_insert_new E v ob z t = Some (z', e_addr e, t + 1)" "e_obj e = ob" "e_score e = v"
    "zsl_rep z' (takeWhile (before v ob) es @ e # dropWhile (before v ob) es)" "e_addr e \<notin> e_addr ` set es"
proof -
  let ?x = "malloc E t (zsl_free z)"
  obtain lvl where l: "zslRandomLevel (draws E t) = Some lvl"
    using env unfolding env_ok_def by (meson not_None_eq)
  have "\<not> zsl_free z ?x" using env finite_nodes [OF rep] by (auto simp: env_ok_def)
  then have free: "znodes z ?x = None" by (simp add: zsl_free_def)
  have "(v, ob) \<notin> set (zkeys es)" using new by (auto simp: zkeys_def)
  then obtain z' where z': "zslInsert ?x lvl v ob z = Some z'"
    "zsl_rep z' (takeWhile (before v ob) es @ \<lparr>e_addr = ?x, e_height = lvl, e_score = v, e_obj = ob\<rparr> # dropWhile (before v ob) es)"
    using zsl_insert_keys [OF rep free _ _ len] zslRandomLevel_range [OF l] by blast
  have run: "zsl_insert_new E v ob z t = Some (z', ?x, t + 1)" using l z'(1) by (simp add: zsl_insert_new_def Let_def)
  show thesis
    by (rule that [of z' "\<lparr>e_addr = ?x, e_height = lvl, e_score = v, e_obj = ob\<rparr>"])
      (use run z'(2) rep_addr(2) [OF rep free] in simp_all)
qed

lemma zkeys_insert:
  assumes "e_obj e = ob" "e_score e = v"
  shows "zkeys (takeWhile (before v ob) es @ e # dropWhile (before v ob) es) = zins v ob (zkeys es)"
proof -
  have "before v ob = (\<lambda>p. zlt (fst p) (snd p) v ob) \<circ> (\<lambda>e. (e_score e, e_obj e))" by (auto simp: before_def)
  then show ?thesis using assms by (simp add: zins_def zkeys_def takeWhile_map dropWhile_map)
qed

text \<open>The dictionary after the element has been put in: old or new, its pointer is the new node.\<close>

lemma zs_ok_insert:
  assumes rep: "zsl_rep z' (as @ e # bs)" and dist: "distinct (map e_obj (as @ bs))" "e_obj e \<notin> e_obj ` set (as @ bs)"
    and d: "\<And>ob. ob \<noteq> e_obj e \<Longrightarrow> Mapping.lookup d ob = addr_of (as @ bs) ob"
  shows "zs_ok \<lparr>zdict = Mapping.update (e_obj e) (e_addr e) d, zsl = z'\<rparr> (as @ e # bs)"
proof -
  have "addr_of (as @ e # bs) ob = (if ob = e_obj e then Some (e_addr e) else addr_of (as @ bs) ob)" for ob
    by (rule addr_of_insert) (use dist(2) in auto)
  then show ?thesis using rep dist d by (auto simp: zs_ok_def lookup_update' fun_eq_iff)
qed

lemma zset_insert_new_spec:
  assumes env: "env_ok E" and ok: "zs_ok zs es" and len: "Suc (length es) < U32" and new: "ob \<notin> e_obj ` set es"
  obtains zs' es' where "zset_insert_new E v ob zs t = Some (zs', t + 1)" "zs_ok zs' es'" "zkeys es' = zins v ob (zkeys es)"
proof -
  have rep: "zsl_rep (zsl zs) es" using ok by (simp add: zs_ok_def)
  obtain z' e where e: "zsl_insert_new E v ob (zsl zs) t = Some (z', e_addr e, t + 1)" "e_obj e = ob" "e_score e = v"
    "zsl_rep z' (takeWhile (before v ob) es @ e # dropWhile (before v ob) es)"
    by (rule zsl_insert_new_spec [OF env rep len new])
  let ?zs = "\<lparr>zdict = Mapping.update (e_obj e) (e_addr e) (zdict zs), zsl = z'\<rparr>"
  have "zset_insert_new E v ob zs t = Some (?zs, t + 1)"
    using e(1,2) lookup_None_iff [OF ok, of ob] new by (cases zs) (simp add: zset_insert_new_def)
  moreover have "zs_ok ?zs (takeWhile (before v ob) es @ e # dropWhile (before v ob) es)"
    by (rule zs_ok_insert [OF e(4)]) (use ok new e(2) in \<open>simp_all add: zs_ok_def\<close>)
  ultimately show thesis using that zkeys_insert [OF e(2,3), of es] by blast
qed

lemma zs_ok_delete:
  assumes ok: "zs_ok zs es" and rep: "zsl_rep z' (filter P es)"
    and d: "Mapping.lookup d = (\<lambda>ob. if ob \<in> e_obj ` set (filter P es) then Mapping.lookup (zdict zs) ob else None)"
  shows "zs_ok \<lparr>zdict = d, zsl = z'\<rparr> (filter P es)"
proof -
  have "distinct (map e_obj es)" "Mapping.lookup (zdict zs) = addr_of es" using ok by (simp_all add: zs_ok_def)
  then show ?thesis using rep addr_of_filter [of es P] by (simp add: zs_ok_def d distinct_map_filter fun_eq_iff)
qed

end
