(* ===== verification/ZsetAdd.thy ===== *)
theory ZsetAdd
  imports ZsetSpec
begin

text \<open>
  The conversions between the encodings, and adding one element, as operations on the list of
  pairs.
\<close>

section \<open>From a ziplist to a skip list\<close>

lemma createZset_spec: "env_ok E \<Longrightarrow> \<exists>zs. createZset E t = (zs, t + 1) \<and> zs_ok zs []"
  by (auto simp: createZset_def zs_ok_def zslCreate_rep addr_of_def lookup_empty)

lemma zins_end: "\<forall>p \<in> set ps. zlt (fst p) (snd p) v ob \<Longrightarrow> zins v ob ps = ps @ [(v, ob)]"
proof -
  assume "\<forall>p \<in> set ps. zlt (fst p) (snd p) v ob"
  then have "takeWhile (\<lambda>p. zlt (fst p) (snd p) v ob) ps = ps" "dropWhile (\<lambda>p. zlt (fst p) (snd p) v ob) ps = []" by auto
  then show ?thesis by (simp add: zins_def)
qed

definition at_score :: "zraw list \<Rightarrow> 'a list \<Rightarrow> nat \<Rightarrow> nat option" where
  "at_score es ps j = (if j < length ps then Some (sptr es j) else None)"

lemma zzlNext_at:
  "zz_block E zl es ps \<Longrightarrow> j < length ps \<Longrightarrow> zzlNext zl (sptr es j) = Some (at_pair es ps (Suc j), at_score es ps (Suc j))"
  using zz_next(1) [of E zl es ps "Suc j"] by (auto simp: zzlNext_def zz_next_pair at_pair_def at_score_def)

lemma convert_loop_at:
  assumes env: "env_ok E" and b: "zz_block E zl es ps" and s: "sset ps" and len: "Suc (length ps) < U32"
  shows "j \<le> length ps \<Longrightarrow> zs_ok zs es0 \<Longrightarrow> zkeys es0 = take j ps \<Longrightarrow>
    \<exists>zs' t' es'. convert_loop E zl (at_pair es ps j) (at_score es ps j) zs t = Some (zs', t') \<and> zs_ok zs' es' \<and> zkeys es' = ps"
proof (induction j arbitrary: zs es0 t rule: ahead_induct [where n = "length ps"])
  case (beyond j)
  then show ?case by (subst convert_loop.simps) auto
next
  case (step j)
  let ?v = "fst (ps ! j)" and ?ob = "snd (ps ! j)"
  have tx: "text_ok E" by (rule env_text_ok [OF env])
  have o0: "e_obj ` set es0 = snd ` set (take j ps)" "length es0 = j"
    using step.prems(3) step(1) zkeys_simps(4,6) by (metis, metis length_take min.absorb2 less_imp_le)
  have "distinct (map snd (take j ps @ ps ! j # drop (Suc j) ps))"
    using s id_take_nth_drop [OF step(1)] by (simp add: sset_def)
  then have new: "?ob \<notin> e_obj ` set es0" by (auto simp: o0(1))
  have "zlt (fst p) (snd p) ?v ?ob" if p: "p \<in> set (take j ps)" for p
  proof -
    obtain i where "i < j" "p = ps ! i" using p step(1) by (auto simp: in_set_conv_nth)
    then show ?thesis using s sorted_wrt_nth_less [of _ ps i j] step(1) by (auto simp: sset_def zsorted_def)
  qed
  then have z: "zins ?v ?ob (zkeys es0) = take (Suc j) ps"
    unfolding step.prems(3) using step(1) by (subst zins_end) (simp_all add: take_Suc_conv_app_nth)
  obtain zs1 es1 where 1: "zset_insert_new E ?v ?ob zs t = Some (zs1, t + 1)" "zs_ok zs1 es1" "zkeys es1 = take (Suc j) ps"
    using zset_insert_new_spec [OF env step.prems(2) _ new, of ?v t] len step(1) z by (auto simp: o0(2))
  from step.IH [OF _ 1(2,3), of "t + 1"] show ?case
    using 1(1) step(1) zz_read(1) [OF b step(1)] zz_read(4) [OF b step(1) tx] zzlNext_at [OF b step(1)]
    by (subst convert_loop.simps) (simp add: at_pair_some at_score_def)
qed

lemma zsetConvert_spec:
  assumes env: "env_ok E" and b: "zz_block E zl es ps" and s: "sset ps" and len: "Suc (length ps) < U32" and ne: "ps \<noteq> []"
  shows "\<exists>zs t' es'. zsetConvert E ENCODING_SKIPLIST (ZsetZiplist zl) t = Some (ZsetSkiplist zs, t') \<and> zs_ok zs es' \<and> zkeys es' = ps"
proof -
  obtain zs where zs: "createZset E t = (zs, t + 1)" "zs_ok zs []" using createZset_spec [OF env] by blast
  have n: "0 < length ps" using ne by simp
  obtain zs' t' es' where "convert_loop E zl (at_pair es ps 0) (at_score es ps 0) zs (t + 1) = Some (zs', t')" "zs_ok zs' es'" "zkeys es' = ps"
    using convert_loop_at [OF env b s len _ zs(2), of 0 "t + 1"] by auto
  then show ?thesis
    using zs(1) zz_index(1) [OF b] zz_next(1) [OF b n] ne
    by (auto simp: zsetConvert_def at_pair_def at_score_def)
qed

section \<open>Adding an element\<close>

definition zadd_spec :: "'s::linorder zenv \<Rightarrow> bool \<Rightarrow> 's \<Rightarrow> bytes \<Rightarrow> ('s \<times> bytes) list \<Rightarrow> zadd_result \<times> 's \<times> ('s \<times> bytes) list" where
  "zadd_spec E incr v ob ps =
    (case score_of ps ob of
       None \<Rightarrow> (ZAdded, v, zins v ob ps)
     | Some cur \<Rightarrow>
         (case (if incr then dadd E v cur else Some v) of
            None \<Rightarrow> (ZNan, v, ps)
          | Some w \<Rightarrow> if w \<noteq> cur then (ZUpdated, w, zins w ob (zdel ob ps)) else (ZSame, w, ps)))"

lemma found_score:
  assumes "sset ps"
  shows "stop_at (\<lambda>p. snd p = ob) ps 0 = None \<Longrightarrow> score_of ps ob = None"
    "stop_at (\<lambda>p. snd p = ob) ps 0 = Some k \<Longrightarrow> k < length ps \<and> snd (ps ! k) = ob \<and> score_of ps ob = Some (fst (ps ! k)) \<and>
      zdel ob ps = take k ps @ drop (Suc k) ps"
proof -
  have d: "distinct (map snd ps)" using assms by (simp add: sset_def)
  show "stop_at (\<lambda>p. snd p = ob) ps 0 = None \<Longrightarrow> score_of ps ob = None"
    by (auto simp: stop_at_None score_of_None)
  show "stop_at (\<lambda>p. snd p = ob) ps 0 = Some k \<Longrightarrow> k < length ps \<and> snd (ps ! k) = ob \<and> score_of ps ob = Some (fst (ps ! k)) \<and>
      zdel ob ps = take k ps @ drop (Suc k) ps"
    using score_of_nth [OF d, of k] zdel_nth [OF d, of k] by (auto simp: stop_at_Some)
qed

lemma zz_ok_short: "zz_ok E zl es ps \<Longrightarrow> p \<in> set ps \<Longrightarrow> length (snd p) \<le> 250"
proof -
  assume ok: "zz_ok E zl es ps" and p: "p \<in> set ps"
  obtain k where k: "k < length ps" "p = ps ! k" using p by (auto simp: in_set_conv_nth)
  have b: "zz_block E zl es ps" using ok by (simp add: zz_ok_def)
  have "narrow (es ! (2 * k))" using zz_okD(2) [OF ok] zz_blockD(2) [OF b] k(1) by simp
  then show "length (snd p) \<le> 250" using zz_blockD(3) [OF b k(1)] k(2) by (simp add: narrow_def)
qed

lemma zadd_ziplist_known:
  assumes env: "env_ok E" and ok: "zz_ok E zl es ps" and s: "sset ps" and len: "length ps \<le> 1000000"
    and k: "stop_at (\<lambda>p. snd p = ob) ps 0 = Some k" and r: "zadd_spec E incr v ob ps = (res, w, qs)"
  shows "\<exists>o'. zadd_ziplist E incr v ob zl t = Some (res, w, o', t) \<and> zset_rep E o' qs"
proof -
  have tx: "text_ok E" by (rule env_text_ok [OF env])
  have kk: "k < length ps" "snd (ps ! k) = ob" "score_of ps ob = Some (fst (ps ! k))" "zdel ob ps = take k ps @ drop (Suc k) ps"
    using found_score(2) [OF s k] by simp_all
  have f: "zzlFind E True zl ob = Some (Some (eptr es k, Some (fst (ps ! k))))"
    using zzlFind_spec [OF zz_okD(1) [OF ok] tx, of True ob] k by simp
  have same: "zset_rep E (ZsetZiplist zl) ps" using ok s len by (auto simp: zset_rep_def)
  have ob: "length ob \<le> 250" using zz_ok_short [OF ok, of "ps ! k"] kk by simp
  have upd: "\<exists>zl1 zl2. zzlDelete zl (eptr es k) = Some zl1 \<and> zzlInsert E zl1 ob x = Some zl2 \<and>
      zset_rep E (ZsetZiplist zl2) (zins x ob (zdel ob ps))" for x
  proof -
    obtain zl1 es1 where 1: "zzlDelete zl (eptr es k) = Some zl1" "zz_ok E zl1 es1 (zdel ob ps)"
      using zzlDelete_spec [OF ok kk(1)] len kk(4) by auto
    have z: "ob \<notin> snd ` set (zdel ob ps)" "length (zdel ob ps) < length ps"
      using kk(1) by (auto simp: set_zdel) (simp add: kk(4))
    have "room (zdel ob ps) ob" using z(2) len ob by (simp add: room_def)
    moreover have "(x, ob) \<notin> set (zdel ob ps)" using z(1) by force
    ultimately obtain zl2 es2 where 2: "zzlInsert E zl1 ob x = Some zl2" "zz_ok E zl2 es2 (zins x ob (zdel ob ps))"
      using zzlInsert_spec [OF 1(2) _ tx] ob by blast
    have "sset (zins x ob (zdel ob ps))" by (rule sset_zins [OF sset_zdel [OF s] z(1)])
    then show ?thesis using 1(1) 2 z(2) len by (auto simp: zset_rep_def)
  qed
  show ?thesis
  proof (cases "if incr then dadd E v (fst (ps ! k)) else Some v")
    case None
    then show ?thesis using r f kk(3) same by (auto simp: zadd_ziplist_def zadd_spec_def split: if_splits)
  next
    case (Some x)
    then show ?thesis
      using r f kk(3) same upd [of x] by (cases "x = fst (ps ! k)") (auto simp: zadd_ziplist_def zadd_spec_def)
  qed
qed

lemma zadd_ziplist_new:
  assumes env: "env_ok E" and ok: "zz_ok E zl es ps" and s: "sset ps" and len: "length ps \<le> 1000000" "length ob \<le> 536870912"
    and k: "stop_at (\<lambda>p. snd p = ob) ps 0 = None"
  shows "\<exists>o' t'. zadd_ziplist E incr v ob zl t = Some (ZAdded, v, o', t') \<and> zset_rep E o' (zins v ob ps)"
proof -
  have tx: "text_ok E" by (rule env_text_ok [OF env])
  have f: "zzlFind E True zl ob = Some None"
    using zzlFind_spec [OF zz_okD(1) [OF ok] tx, of True ob] k by simp
  have new: "ob \<notin> snd ` set ps" using found_score(1) [OF s k] by (simp add: score_of_None)
  have "(v, ob) \<notin> set ps" using new by force
  moreover have "room ps ob" using len by (simp add: room_def)
  ultimately obtain zl1 es1 where 1: "zzlInsert E zl ob v = Some zl1" "zz_block E zl1 es1 (zins v ob ps)"
    "length ob \<le> 250 \<Longrightarrow> zz_ok E zl1 es1 (zins v ob ps)"
    using zzlInsert_spec [OF ok _ tx] by blast
  obtain zl2 where 2: "zzlLength zl1 = Some (Suc (length ps), zl2)" "zz_block E zl2 es1 (zins v ob ps)"
    by (rule zzlLength_spec [OF 1(2)]) simp
  have srt: "sset (zins v ob ps)" by (rule sset_zins [OF s new])
  obtain zs t' es' where c: "zsetConvert E ENCODING_SKIPLIST (ZsetZiplist zl2) t = Some (ZsetSkiplist zs, t')" "zs_ok zs es'" "zkeys es' = zins v ob ps"
    using zsetConvert_spec [OF env 2(2) srt, of t] len by (auto simp flip: length_greater_0_conv)
  have big: "zset_rep E (ZsetSkiplist zs) (zins v ob ps)" using c(2,3) by (auto simp: zset_rep_def)
  have stay: "zsetConvert E ENCODING_SKIPLIST (ZsetSkiplist zs) t' = Some (ZsetSkiplist zs, t')" by (simp add: zsetConvert_def)
  have small: "zset_rep E (ZsetZiplist zl2) (zins v ob ps)"
    if "\<not> Suc (length ps) > zset_max_ziplist_entries E" "\<not> length ob > zset_max_ziplist_value E"
  proof -
    have "length ob \<le> 250" "Suc (length ps) \<le> 1000000" using that env by (simp_all add: env_ok_def)
    then show ?thesis using 1(3) 2(2) srt by (auto simp: zset_rep_def zz_ok_def)
  qed
  show ?thesis
    using f 1(1) 2(1) c(1) stay big small
    by (cases "Suc (length ps) > zset_max_ziplist_entries E"; cases "length ob > zset_max_ziplist_value E")
      (simp_all add: zadd_ziplist_def)
qed

lemma key_gone:
  assumes "sset (zkeys es)" "score_of (zkeys es) ob = Some cur"
  shows "(cur, ob) \<in> set (zkeys es)" "filter (\<lambda>e. (e_score e, e_obj e) \<noteq> (cur, ob)) es = filter (\<lambda>e. e_obj e \<noteq> ob) es"
    "zkeys (filter (\<lambda>e. e_obj e \<noteq> ob) es) = zdel ob (zkeys es)"
proof -
  have d: "distinct (map snd (zkeys es))" using assms(1) by (simp add: sset_def)
  show m: "(cur, ob) \<in> set (zkeys es)" using assms(2) by (simp add: score_of_Some [OF d])
  have "e_score e = cur" if "e \<in> set es" "e_obj e = ob" for e
  proof -
    have "(e_score e, ob) \<in> set (zkeys es)" using that by (auto simp: zkeys_def)
    then have "score_of (zkeys es) ob = Some (e_score e)" by (simp add: score_of_Some [OF d])
    then show ?thesis using assms(2) by simp
  qed
  then show "filter (\<lambda>e. (e_score e, e_obj e) \<noteq> (cur, ob)) es = filter (\<lambda>e. e_obj e \<noteq> ob) es"
    by (intro filter_cong) auto
  show "zkeys (filter (\<lambda>e. e_obj e \<noteq> ob) es) = zdel ob (zkeys es)"
    using zkeys_filter [of "\<lambda>p. snd p \<noteq> ob" es] by (simp add: zdel_def)
qed

lemma zset_update:
  assumes env: "env_ok E" and ok: "zs_ok zs es" and len: "Suc (length es) < U32" and cur: "score_of (zkeys es) ob = Some cur"
  shows "\<exists>z1 z2 x. zslDelete cur ob (zsl zs) = Some (True, z1) \<and> zsl_insert_new E w ob z1 t = Some (z2, x, t + 1) \<and>
    zset_rep E (ZsetSkiplist (zs\<lparr>zdict := Mapping.update ob x (zdict zs), zsl := z2\<rparr>)) (zins w ob (zdel ob (zkeys es)))"
proof -
  have rep: "zsl_rep (zsl zs) es" and dist: "distinct (map e_obj es)" and dict: "Mapping.lookup (zdict zs) = addr_of es"
    using ok by (simp_all add: zs_ok_def)
  note kg = key_gone [OF zs_ok_sset [OF ok] cur]
  define fs where "fs = filter (\<lambda>e. e_obj e \<noteq> ob) es"
  obtain z1 where 1: "zslDelete cur ob (zsl zs) = Some (True, z1)" "zsl_rep z1 fs"
    using zslDelete_spec [OF rep, of cur ob] len kg(1,2) by (auto simp: fs_def)
  have fl: "Suc (length fs) < U32" using len length_filter_le [of "\<lambda>e. e_obj e \<noteq> ob" es] unfolding fs_def by linarith
  have new: "ob \<notin> e_obj ` set fs" by (auto simp: fs_def)
  obtain z2 e where 2: "zsl_insert_new E w ob z1 t = Some (z2, e_addr e, t + 1)" "e_obj e = ob" "e_score e = w"
    "zsl_rep z2 (takeWhile (before w ob) fs @ e # dropWhile (before w ob) fs)"
    by (rule zsl_insert_new_spec [OF env 1(2) fl new])
  have "zs_ok \<lparr>zdict = Mapping.update (e_obj e) (e_addr e) (zdict zs), zsl = z2\<rparr>
      (takeWhile (before w ob) fs @ e # dropWhile (before w ob) fs)"
  proof (rule zs_ok_insert [OF 2(4)])
    show "distinct (map e_obj (takeWhile (before w ob) fs @ dropWhile (before w ob) fs))"
      using dist by (simp add: fs_def distinct_map_filter)
    show "e_obj e \<notin> e_obj ` set (takeWhile (before w ob) fs @ dropWhile (before w ob) fs)" using new 2(2) by simp
    show "Mapping.lookup (zdict zs) x = addr_of (takeWhile (before w ob) fs @ dropWhile (before w ob) fs) x" if "x \<noteq> e_obj e" for x
      using that 2(2) addr_of_filter [OF dist, of "\<lambda>e. e_obj e \<noteq> ob" x] by (auto simp: dict fs_def addr_of_None)
  qed
  moreover have "zkeys (takeWhile (before w ob) fs @ e # dropWhile (before w ob) fs) = zins w ob (zdel ob (zkeys es))"
    using zkeys_insert [OF 2(2,3), of fs] kg(3) by (simp add: fs_def)
  ultimately show ?thesis using 1(1) 2(1,2) by (cases zs) (auto simp: zset_rep_def)
qed

lemma zadd_skiplist_spec:
  assumes env: "env_ok E" and ok: "zs_ok zs es" and len: "Suc (length es) < U32" and r: "zadd_spec E incr v ob (zkeys es) = (res, w, qs)"
  shows "\<exists>o' t'. zadd_skiplist E incr v ob zs t = Some (res, w, o', t') \<and> zset_rep E o' qs"
proof (cases "Mapping.lookup (zdict zs) ob")
  case None
  then have new: "ob \<notin> e_obj ` set es" using lookup_None_iff [OF ok] by simp
  then have "score_of (zkeys es) ob = None" by (simp add: score_of_None)
  moreover obtain zs' es' where "zset_insert_new E v ob zs t = Some (zs', t + 1)" "zs_ok zs' es'" "zkeys es' = zins v ob (zkeys es)"
    by (rule zset_insert_new_spec [OF env ok len new])
  moreover from this(2,3) have "zset_rep E (ZsetSkiplist zs') (zins v ob (zkeys es))" by (auto simp: zset_rep_def)
  ultimately show ?thesis using r None by (auto simp: zadd_spec_def zadd_skiplist_def)
next
  case (Some a)
  obtain n cur where e: "znodes (zsl zs) a = Some n" "zscore n = cur" "score_of (zkeys es) ob = Some cur"
    by (rule lookup_node [OF ok Some]) (rule that)
  have same: "zset_rep E (ZsetSkiplist zs) (zkeys es)" using ok by (auto simp: zset_rep_def)
  show ?thesis
  proof (cases "if incr then dadd E v (cur) else Some v")
    case None
    then show ?thesis using r e Some same by (auto simp: zadd_skiplist_def zadd_spec_def split: if_splits)
  next
    case x: (Some x)
    obtain z1 z2 y where "zslDelete (cur) ob (zsl zs) = Some (True, z1)" "zsl_insert_new E x ob z1 t = Some (z2, y, t + 1)"
      "zset_rep E (ZsetSkiplist (zs\<lparr>zdict := Mapping.update ob y (zdict zs), zsl := z2\<rparr>)) (zins x ob (zdel ob (zkeys es)))"
      using zset_update [OF env ok len e(3), of x t] by blast
    then show ?thesis
      using r e Some same x by (cases "x = cur") (auto simp: zadd_skiplist_def zadd_spec_def)
  qed
qed

text \<open>In either encoding.\<close>

lemma zadd_one_spec:
  assumes env: "env_ok E" and rep: "zset_rep E o' ps" and len: "Suc (length ps) < U32" "length ob \<le> 536870912"
    and r: "zadd_spec E incr v ob ps = (res, w, qs)"
  shows "\<exists>o2 t'. zadd_one E incr v ob o' t = Some (res, w, o2, t') \<and> zset_rep E o2 qs"
proof (cases o')
  case (ZsetZiplist zl)
  then obtain es where z: "sset ps" "length ps \<le> 1000000" "zz_ok E zl es ps" using rep by (auto simp: zset_rep_def)
  show ?thesis
  proof (cases "stop_at (\<lambda>p. snd p = ob) ps 0")
    case None
    then have "res = ZAdded" "w = v" "qs = zins v ob ps" using r found_score(1) [OF z(1)] by (auto simp: zadd_spec_def)
    then show ?thesis using zadd_ziplist_new [OF env z(3,1,2) len(2) None] ZsetZiplist by (auto simp: zadd_one_def)
  next
    case (Some k)
    show ?thesis using zadd_ziplist_known [OF env z(3,1,2) Some r, of t] ZsetZiplist by (auto simp: zadd_one_def)
  qed
next
  case (ZsetSkiplist zs)
  then obtain es where "zs_ok zs es" "ps = zkeys es" using rep by (auto simp: zset_rep_def)
  then show ?thesis using zadd_skiplist_spec [OF env, of zs es] len(1) r ZsetSkiplist by (auto simp: zadd_one_def)
qed

end
