(* ===== verification/ZsetRem.thy ===== *)
theory ZsetRem
  imports ZsetAdd
begin

text \<open>
  The loops of the commands on a sorted set: adding several elements, removing elements and
  ranges, and reading.
\<close>

section \<open>Adding\<close>

lemma score_of_zins:
  assumes "ob \<notin> snd ` set ps"
  shows "score_of (zins v ob ps) x = (if x = ob then Some v else score_of ps x)"
proof -
  define xs ys where "xs = takeWhile (\<lambda>p. zlt (fst p) (snd p) v ob) ps" and "ys = dropWhile (\<lambda>p. zlt (fst p) (snd p) v ob) ps"
  have ps: "ps = xs @ ys" by (simp add: xs_def ys_def)
  have z: "zins v ob ps = xs @ (v, ob) # ys" by (simp add: zins_def xs_def ys_def)
  have "ob \<notin> snd ` set xs" using assms ps by auto
  then have "score_of (xs @ (v, ob) # ys) x = (if x = ob then Some v else score_of (xs @ ys) x)"
    by (induction xs) (auto simp: score_of_def)
  then show ?thesis using z ps by simp
qed

lemma score_of_zdel: "score_of (zdel ob ps) x = (if x = ob then None else score_of ps x)"
  by (induction ps) (auto simp: score_of_def zdel_def)

lemma zadd_spec_scores:
  assumes r: "zadd_spec E incr v ob ps = (res, w, qs)"
  shows "res \<noteq> ZNan \<Longrightarrow> score_of qs = (score_of ps)(ob \<mapsto> w)" "res = ZNan \<Longrightarrow> qs = ps"
    "res = ZAdded \<longleftrightarrow> score_of ps ob = None" "\<not> incr \<Longrightarrow> res \<noteq> ZNan \<and> w = v"
proof -
  have gone: "ob \<notin> snd ` set (zdel ob ps)" by (auto simp: set_zdel)
  have upd: "score_of (zins x ob (zdel ob ps)) = (score_of ps)(ob \<mapsto> x)" for x
    by (simp add: score_of_zins [OF gone] score_of_zdel fun_eq_iff)
  have new: "score_of (zins x ob ps) = (score_of ps)(ob \<mapsto> x)" if "score_of ps ob = None" for x
    using that by (simp add: score_of_None score_of_zins fun_eq_iff)
  show "res \<noteq> ZNan \<Longrightarrow> score_of qs = (score_of ps)(ob \<mapsto> w)" "res = ZNan \<Longrightarrow> qs = ps"
    "res = ZAdded \<longleftrightarrow> score_of ps ob = None" "\<not> incr \<Longrightarrow> res \<noteq> ZNan \<and> w = v"
    using r new by (auto simp: zadd_spec_def upd fun_eq_iff split: option.splits if_splits)
qed

text \<open>The number of elements is the number of objects with a score.\<close>

lemma dom_score_of: "dom (score_of ps) = snd ` set ps"
proof (rule set_eqI)
  show "x \<in> dom (score_of ps) \<longleftrightarrow> x \<in> snd ` set ps" for x
    using score_of_None [of ps x] by (simp add: domIff)
qed

lemma length_scores: "distinct (map snd ps) \<Longrightarrow> length ps = card (dom (score_of ps))"
  using distinct_card [of "map snd ps"] by (simp add: dom_score_of)

lemma zadd_loop_spec:
  assumes env: "env_ok E"
  shows "zset_rep E o' ps \<Longrightarrow> length ps + length args < 4294967295 \<Longrightarrow> (\<forall>p \<in> set args. length (snd p) \<le> 536870912) \<Longrightarrow>
    \<exists>w n o2 t' qs. zadd_loop E False args fin added updated o' t = Some (True, w, added + (length qs - length ps), n, o2, t') \<and>
      zset_rep E o2 qs \<and> length ps \<le> length qs \<and> score_of qs = fold (\<lambda>p m. m(snd p \<mapsto> fst p)) args (score_of ps)"
proof (induction args arbitrary: o' ps t fin added updated)
  case Nil
  then show ?case by auto
next
  case (Cons p args)
  obtain v ob where p: "p = (v, ob)" by (cases p)
  obtain res w qs where r: "zadd_spec E False v ob ps = (res, w, qs)" by (cases "zadd_spec E False v ob ps")
  have s: "sset ps" by (rule zset_rep_sset [OF Cons.prems(1)])
  obtain o2 t2 where 1: "zadd_one E False v ob o' t = Some (res, w, o2, t2)" "zset_rep E o2 qs"
    using zadd_one_spec [OF env Cons.prems(1) _ _ r, of t] Cons.prems(2,3) p by auto
  have res: "res \<noteq> ZNan" "w = v" "score_of qs = (score_of ps)(ob \<mapsto> v)" "res = ZAdded \<longleftrightarrow> score_of ps ob = None"
    using zadd_spec_scores [OF r] by auto
  have d: "distinct (map snd ps)" "distinct (map snd qs)" using s zset_rep_sset [OF 1(2)] by (simp_all add: sset_def)
  have fin: "finite (dom (score_of ps))" by (simp add: dom_score_of)
  have len: "length qs = (if res = ZAdded then Suc (length ps) else length ps)"
    using res(4) fin by (auto simp: length_scores [OF d(1)] length_scores [OF d(2)] res(3) insert_absorb domIff)
  have "length qs + length args < 4294967295" "\<forall>p \<in> set args. length (snd p) \<le> 536870912" using Cons.prems(2,3) len by auto
  note IH = Cons.IH [OF 1(2) this]
  define added' where "added' = (if res = ZAdded then Suc added else added)"
  define updated' where "updated' = (if res = ZUpdated then Suc updated else updated)"
  have run: "zadd_loop E False (p # args) fin added updated o' t = zadd_loop E False args v added' updated' o2 t2"
    using 1(1) res(1,2) p by (cases res) (simp_all add: added'_def updated'_def)
  obtain w' n' o3 t3 rs where 2: "zadd_loop E False args v added' updated' o2 t2 = Some (True, w', added' + (length rs - length qs), n', o3, t3)"
    "zset_rep E o3 rs" "length qs \<le> length rs" "score_of rs = fold (\<lambda>p m. m(snd p \<mapsto> fst p)) args (score_of qs)"
    using IH [of v added' updated' t2] by blast
  have "added' + (length rs - length qs) = added + (length rs - length ps)" "length ps \<le> length rs"
    using len 2(3) by (simp_all add: added'_def split: if_splits)
  moreover have "fold (\<lambda>p m. m(snd p \<mapsto> fst p)) args (score_of qs) = fold (\<lambda>p m. m(snd p \<mapsto> fst p)) (p # args) (score_of ps)"
    by (simp add: p res(3))
  ultimately show ?case using 2 run by (metis (no_types, lifting))
qed

lemma new_object_spec:
  assumes env: "env_ok E"
  obtains o' t' where "(if zset_max_ziplist_entries E = 0 \<or> zset_max_ziplist_value E < n
      then createZsetObject E t else (createZsetZiplistObject, t)) = (o', t')" "zset_rep E o' []"
proof -
  obtain zs where zs: "createZset E t = (zs, t + 1)" "zs_ok zs []" using createZset_spec [OF env] by blast
  have "zset_rep E (ZsetSkiplist zs) []" using zs(2) by (auto simp: zset_rep_def intro!: exI [of _ "[]"])
  moreover have "zset_rep E createZsetZiplistObject []"
    using zz_ok_new by (auto simp: zset_rep_def createZsetZiplistObject_def sset_def zsorted_def)
  moreover have "createZsetObject E t = (ZsetSkiplist zs, t + 1)" by (simp add: createZsetObject_def zs(1))
  ultimately show thesis
    by (cases "zset_max_ziplist_entries E = 0 \<or> zset_max_ziplist_value E < n")
      (use that [of "ZsetSkiplist zs" "t + 1"] that [of createZsetZiplistObject t] in simp_all)
qed

section \<open>Removing\<close>

definition zkey_rep :: "'s::linorder zenv \<Rightarrow> 's zsetobj option \<Rightarrow> ('s \<times> bytes) list \<Rightarrow> bool" where
  "zkey_rep E r qs \<longleftrightarrow> (case r of None \<Rightarrow> qs = [] | Some o2 \<Rightarrow> qs \<noteq> [] \<and> zset_rep E o2 qs)"

lemma filter_zdel: "filter (\<lambda>p. snd p \<notin> set obs) (zdel ob ps) = filter (\<lambda>p. snd p \<notin> set (ob # obs)) ps"
  by (auto simp: zdel_def intro: filter_cong)

lemma filter_absent: "ob \<notin> snd ` set ps \<Longrightarrow> filter (\<lambda>p. snd p \<notin> set (ob # obs)) ps = filter (\<lambda>p. snd p \<notin> set obs) ps"
  by (auto intro: filter_cong)

lemma length_zdel: "distinct (map snd ps) \<Longrightarrow> ob \<in> snd ` set ps \<Longrightarrow> Suc (length (zdel ob ps)) = length ps"
proof (induction ps)
  case (Cons p ps)
  show ?case
  proof (cases "snd p = ob")
    case True
    then have "zdel ob ps = ps" using Cons.prems(1) by (intro zdel_absent) auto
    then show ?thesis using True by (simp add: zdel_def)
  qed (use Cons in \<open>auto simp: zdel_def\<close>)
qed simp

lemma removed_count:
  assumes "distinct (map snd ps)" "ob \<in> snd ` set ps"
  shows "Suc (length (zdel ob ps) - length (filter P (zdel ob ps))) = length ps - length (filter P (zdel ob ps))"
  using length_zdel [OF assms] length_filter_le [of P "zdel ob ps"] by linarith

lemma zrem_ziplist_spec:
  assumes env: "env_ok E"
  shows "zz_ok E zl es ps \<Longrightarrow> sset ps \<Longrightarrow> length ps \<le> 1000000 \<Longrightarrow> ps \<noteq> [] \<Longrightarrow>
    \<exists>r. zrem_ziplist E obs deleted zl = Some (deleted + (length ps - length (filter (\<lambda>p. snd p \<notin> set obs) ps)), r) \<and>
      zkey_rep E r (filter (\<lambda>p. snd p \<notin> set obs) ps)"
proof (induction obs arbitrary: zl es ps deleted)
  case Nil
  then show ?case by (auto simp: zkey_rep_def zset_rep_def)
next
  case (Cons ob obs)
  have tx: "text_ok E" by (rule env_text_ok [OF env])
  note f = zzlFind_spec [OF zz_okD(1) [OF Cons.prems(1)] tx, of False ob]
  show ?case
  proof (cases "stop_at (\<lambda>p. snd p = ob) ps 0")
    case None
    then have "ob \<notin> snd ` set ps" by (auto simp: stop_at_None)
    then show ?thesis using Cons.IH [OF Cons.prems, of deleted] f None by (simp add: filter_absent del: set_simps)
  next
    case (Some k)
    have k: "k < length ps" "snd (ps ! k) = ob" "zdel ob ps = take k ps @ drop (Suc k) ps"
      using found_score(2) [OF Cons.prems(2) Some] by simp_all
    have mem: "ob \<in> snd ` set ps" using k by force
    have d: "distinct (map snd ps)" using Cons.prems(2) by (simp add: sset_def)
    obtain zl1 es1 where 1: "zzlDelete zl (eptr es k) = Some zl1" "zz_ok E zl1 es1 (zdel ob ps)"
      using zzlDelete_spec [OF Cons.prems(1) k(1)] Cons.prems(3) k(3) by auto
    obtain zl2 where 2: "zzlLength zl1 = Some (length (zdel ob ps), zl2)" "zz_block E zl2 es1 (zdel ob ps)"
      by (rule zzlLength_spec [OF zz_okD(1) [OF 1(2)]])
    have ok2: "zz_ok E zl2 es1 (zdel ob ps)" using 1(2) 2(2) by (simp add: zz_ok_def)
    have run: "zrem_ziplist E (ob # obs) deleted zl =
        (if zdel ob ps = [] then Some (deleted + 1, None) else zrem_ziplist E obs (deleted + 1) zl2)"
      using f Some 1(1) 2(1) by simp
    show ?thesis
    proof (cases "zdel ob ps = []")
      case True
      then have "filter (\<lambda>p. snd p \<notin> set (ob # obs)) ps = []" "length ps = 1"
        using filter_zdel [of obs ob ps] length_zdel [OF d mem] by simp_all
      then show ?thesis using run True by (simp add: zkey_rep_def del: set_simps)
    next
      case False
      have "length (zdel ob ps) \<le> 1000000" using length_zdel [OF d mem] Cons.prems(3) by linarith
      from Cons.IH [OF ok2 sset_zdel [OF Cons.prems(2)] this False, of "deleted + 1"] show ?thesis
        using run False removed_count [OF d mem, of "\<lambda>p. snd p \<notin> set obs"]
        unfolding filter_zdel by (auto simp del: set_simps)
    qed
  qed
qed

text \<open>The dictionary has as many keys as there are elements.\<close>

lemma dict_size:
  assumes "zs_ok zs es"
  shows "Mapping.size (zdict zs) = length es"
proof -
  have "Mapping.keys (zdict zs) = e_obj ` set es"
    using addr_of_None [of es] assms by (auto simp: zs_ok_def keys_dom_lookup domIff set_eq_iff simp del: not_None_eq)
  then show ?thesis using assms distinct_card [of "map e_obj es"] by (simp add: size_def zs_ok_def)
qed

lemma zrem_node:
  assumes ok: "zs_ok zs es" and len: "length es < U32" and a: "Mapping.lookup (zdict zs) ob = Some a"
  obtains n z es1 where "znodes (zsl zs) a = Some n" "zslDelete (zscore n) ob (zsl zs) = Some (True, z)"
    "zs_ok \<lparr>zdict = Mapping.delete ob (zdict zs), zsl = z\<rparr> es1" "zkeys es1 = zdel ob (zkeys es)" "ob \<in> snd ` set (zkeys es)"
proof -
  have rep: "zsl_rep (zsl zs) es" and dist: "distinct (map e_obj es)" using ok by (simp_all add: zs_ok_def)
  obtain n cur where e: "znodes (zsl zs) a = Some n" "zscore n = cur" "score_of (zkeys es) ob = Some cur"
    by (rule lookup_node [OF ok a]) (rule that)
  note kg = key_gone [OF zs_ok_sset [OF ok] e(3)]
  obtain z where z: "zslDelete cur ob (zsl zs) = Some (True, z)" "zsl_rep z (filter (\<lambda>e. e_obj e \<noteq> ob) es)"
    using zslDelete_spec [OF rep, of cur ob] len kg(1,2) by auto
  have "zs_ok \<lparr>zdict = Mapping.delete ob (zdict zs), zsl = z\<rparr> (filter (\<lambda>e. e_obj e \<noteq> ob) es)"
  proof (rule zs_ok_delete [OF ok z(2)], rule ext)
    fix x
    have "Mapping.lookup (zdict zs) x = None" if "x \<notin> e_obj ` set es" using that lookup_None_iff [OF ok] by simp
    then show "Mapping.lookup (Mapping.delete ob (zdict zs)) x =
        (if x \<in> e_obj ` set (filter (\<lambda>e. e_obj e \<noteq> ob) es) then Mapping.lookup (zdict zs) x else None)"
      by (cases "x = ob") (auto simp: lookup_delete)
  qed
  moreover have "ob \<in> snd ` set (zkeys es)" using imageI [OF kg(1), of snd] by simp
  ultimately show thesis using that e(1,2) z(1) kg(3) by blast
qed

lemma zrem_skiplist_spec:
  "zs_ok zs es \<Longrightarrow> length es < U32 \<Longrightarrow> es \<noteq> [] \<Longrightarrow>
    \<exists>r. zrem_skiplist obs deleted zs = Some (deleted + (length es - length (filter (\<lambda>p. snd p \<notin> set obs) (zkeys es))), r) \<and>
      zkey_rep E r (filter (\<lambda>p. snd p \<notin> set obs) (zkeys es))"
proof (induction obs arbitrary: zs es deleted)
  case Nil
  have "zkeys es \<noteq> []" using Nil.prems(3) by (simp add: zkeys_def)
  then show ?case using Nil by (auto simp: zkey_rep_def zset_rep_def)
next
  case (Cons ob obs)
  show ?case
  proof (cases "Mapping.lookup (zdict zs) ob")
    case None
    then have "ob \<notin> snd ` set (zkeys es)" using lookup_None_iff [OF Cons.prems(1)] by simp
    then show ?thesis using Cons.IH [OF Cons.prems, of deleted] None by (simp add: filter_absent del: set_simps)
  next
    case (Some a)
    obtain n z es1 where 1: "znodes (zsl zs) a = Some n" "zslDelete (zscore n) ob (zsl zs) = Some (True, z)"
      "zs_ok \<lparr>zdict = Mapping.delete ob (zdict zs), zsl = z\<rparr> es1" "zkeys es1 = zdel ob (zkeys es)" "ob \<in> snd ` set (zkeys es)"
      by (rule zrem_node [OF Cons.prems(1,2) Some])
    have d: "distinct (map snd (zkeys es))" using zs_ok_sset [OF Cons.prems(1)] by (simp add: sset_def)
    have sz: "Mapping.size (Mapping.delete ob (zdict zs)) = length es1" using dict_size [OF 1(3)] by simp
    have n1: "Suc (length es1) = length es" using length_zdel [OF d 1(5)] 1(4) by (metis zkeys_simps(4))
    have run: "zrem_skiplist (ob # obs) deleted zs =
        (if es1 = [] then Some (deleted + 1, None)
         else zrem_skiplist obs (deleted + 1) \<lparr>zdict = Mapping.delete ob (zdict zs), zsl = z\<rparr>)"
      using Some 1(1,2) sz by (cases zs) (simp add: Let_def)
    show ?thesis
    proof (cases "es1 = []")
      case True
      then have "zdel ob (zkeys es) = []" using 1(4) by simp
      then have "filter (\<lambda>p. snd p \<notin> set (ob # obs)) (zkeys es) = []" using filter_zdel [of obs ob "zkeys es"] by simp
      then show ?thesis using run True n1 by (simp add: zkey_rep_def del: set_simps)
    next
      case False
      have "length es1 < U32" using n1 Cons.prems(2) by linarith
      note IH = Cons.IH [OF 1(3) this False, of "deleted + 1"]
      have "Suc (length es1 - length (filter (\<lambda>p. snd p \<notin> set obs) (zdel ob (zkeys es)))) =
          length es - length (filter (\<lambda>p. snd p \<notin> set obs) (zdel ob (zkeys es)))"
        using removed_count [OF d 1(5), of "\<lambda>p. snd p \<notin> set obs"] 1(4) by (metis zkeys_simps(4))
      then show ?thesis using IH run False 1(4) unfolding filter_zdel [symmetric] by (auto simp del: set_simps)
    qed
  qed
qed

text \<open>Both encodings.\<close>

lemma zset_rep_length: "zset_rep E (ZsetZiplist zl) ps \<Longrightarrow> length ps \<le> 1000000"
  by (simp add: zset_rep_def)

lemma zrem_spec:
  assumes env: "env_ok E" and rep: "zset_rep E o' ps" and len: "length ps < U32" and ne: "ps \<noteq> []"
  shows "\<exists>r. zremCommand E obs o' = Some (length ps - length (filter (\<lambda>p. snd p \<notin> set obs) ps), r) \<and>
      zkey_rep E r (filter (\<lambda>p. snd p \<notin> set obs) ps)"
proof (cases o')
  case (ZsetZiplist zl)
  then obtain es where "sset ps" "length ps \<le> 1000000" "zz_ok E zl es ps" using rep by (auto simp: zset_rep_def)
  then show ?thesis using zrem_ziplist_spec [OF env, of zl es ps obs 0] ne ZsetZiplist by (simp add: zremCommand_def)
next
  case (ZsetSkiplist zs)
  then obtain es where es: "zs_ok zs es" "ps = zkeys es" using rep by (auto simp: zset_rep_def)
  then have "es \<noteq> []" "length es < U32" using ne len by auto
  then show ?thesis using zrem_skiplist_spec [OF es(1), of obs 0 E] ZsetSkiplist es(2) by (simp add: zremCommand_def)
qed

end
