(* ===== verification/ZsetRemRange.thy ===== *)
theory ZsetRemRange
  imports ZsetRem "HOL-Library.Multiset"
begin

text \<open>
  The removal of ranges from a sorted set, and the commands that read one.
\<close>

section \<open>Removing a range\<close>

lemma addr_of_Some: "distinct (map e_obj es) \<Longrightarrow> addr_of es ob = Some a \<longleftrightarrow> (\<exists>e \<in> set es. e_obj e = ob \<and> e_addr e = a)"
proof (induction es)
  case (Cons e es)
  then show ?case by (cases "ob = e_obj e") (auto simp: image_iff)
qed simp

lemma addr_of_set:
  assumes "distinct (map e_obj es)" "distinct (map e_obj fs)" "set es = set fs"
  shows "addr_of es = addr_of fs"
proof (rule ext)
  fix ob
  have "addr_of es ob = Some a \<longleftrightarrow> addr_of fs ob = Some a" for a
    by (simp add: addr_of_Some assms)
  then show "addr_of es ob = addr_of fs ob" by (metis not_None_eq)
qed

lemma addr_of_append: "addr_of (es @ fs) ob = (if ob \<in> e_obj ` set es then addr_of es ob else addr_of fs ob)"
  by (induction es) auto

text \<open>The elements that are gone from the list are gone from the dictionary.\<close>

lemma zs_ok_forget:
  assumes ok: "zs_ok zs es" and rep: "zsl_rep z fs" and m: "mset es = mset (fs @ gone)"
  shows "zs_ok \<lparr>zdict = forget (zdict zs) gone, zsl = z\<rparr> fs"
proof -
  have "mset (map e_obj es) = mset (map e_obj (fs @ gone))" using m by simp
  then have d: "distinct (map e_obj (fs @ gone))" using ok by (metis mset_eq_imp_distinct_iff zs_ok_def)
  have "addr_of es = addr_of (fs @ gone)"
    using ok by (intro addr_of_set d mset_eq_setD [OF m]) (simp add: zs_ok_def)
  then have lk: "Mapping.lookup (zdict zs) = addr_of (fs @ gone)" using ok by (simp add: zs_ok_def)
  have "Mapping.lookup (forget (zdict zs) gone) ob = addr_of fs ob" for ob
    using d addr_of_None [of fs ob] addr_of_None [of gone ob] by (auto simp: lk addr_of_append simp del: not_None_eq)
  then show ?thesis using rep d by (auto simp: zs_ok_def)
qed

lemma zkeys_conv [simp]: "in_range r e \<longleftrightarrow> in_scores r (e_score e, e_obj e)" "in_lex lr e \<longleftrightarrow> in_strings lr (e_score e, e_obj e)"
  by (simp_all add: in_range_def in_scores_def in_lex_def in_strings_def lex_bounds)

text \<open>What is to be removed.  An index counts from the front or, when negative, from the end, \<open>-1\<close>
  being the last place; a range of ranks holds the places from the one index to the other.\<close>

definition rank_pos :: "nat \<Rightarrow> int \<Rightarrow> int" where
  "rank_pos n i = (if i < 0 then int n + i else i)"

definition in_ranks :: "nat \<Rightarrow> int \<Rightarrow> int \<Rightarrow> nat \<Rightarrow> bool" where
  "in_ranks n start end' k \<longleftrightarrow> rank_pos n start \<le> int k \<and> int k \<le> rank_pos n end'"

definition out_of :: "'s::linorder zremrange \<Rightarrow> ('s \<times> bytes) list \<Rightarrow> ('s \<times> bytes) list" where
  "out_of rg ps =
    (case rg of
       ZrangeRank start end' \<Rightarrow> nths ps {k. \<not> in_ranks (length ps) start end' k}
     | ZrangeScore r \<Rightarrow> filter (\<lambda>p. \<not> in_scores r p) ps
     | ZrangeLex r \<Rightarrow> filter (\<lambda>p. \<not> in_strings r p) ps)"

definition range_ok :: "'s::linorder zremrange \<Rightarrow> ('s \<times> bytes) list \<Rightarrow> bool" where
  "range_ok rg ps \<longleftrightarrow> (case rg of ZrangeLex r \<Rightarrow> one_score ps \<and> \<not> mixed_up r | _ \<Rightarrow> True)"

lemma sanitize_ranks_Some:
  assumes "sanitize_ranks (int n) start end' = Some (lo, hi)"
  shows "0 \<le> lo" "lo \<le> hi" "hi < int n"
  using assms by (auto simp: sanitize_ranks_def Let_def split: if_splits)

text \<open>The indexes as the code prepares them select the same places.\<close>

lemma in_ranks_None: "sanitize_ranks (int n) start end' = None \<Longrightarrow> k < n \<Longrightarrow> \<not> in_ranks n start end' k"
  by (auto simp: sanitize_ranks_def in_ranks_def rank_pos_def Let_def split: if_splits)

lemma in_ranks_Some:
  "sanitize_ranks (int n) start end' = Some (lo, hi) \<Longrightarrow> k < n \<Longrightarrow> in_ranks n start end' k \<longleftrightarrow> nat lo \<le> k \<and> k \<le> nat hi"
  by (auto simp: sanitize_ranks_def in_ranks_def rank_pos_def Let_def split: if_splits)

lemma rank_lists:
  assumes "lo \<le> hi" "hi < length ps"
  shows "take (Suc hi - lo) (drop lo ps) @ drop (Suc hi) ps = drop lo ps" "drop (Suc hi - lo) (drop lo ps) = drop (Suc hi) ps"
proof -
  show r: "drop (Suc hi - lo) (drop lo ps) = drop (Suc hi) ps" using assms by simp
  show "take (Suc hi - lo) (drop lo ps) @ drop (Suc hi) ps = drop lo ps" unfolding r [symmetric] by (rule append_take_drop_id)
qed

lemma nths_no: "\<forall>k < length xs. k \<notin> A \<Longrightarrow> nths xs A = []"
proof (induction xs arbitrary: A)
  case (Cons x xs)
  then have "0 \<notin> A" "\<forall>k < length xs. k \<notin> {j. Suc j \<in> A}" by auto
  then show ?case using Cons.IH by (simp add: nths_Cons)
qed simp

lemma nths_between:
  "\<forall>k < length xs. k \<notin> A \<Longrightarrow> \<forall>k < length ys. k + length xs \<in> A \<Longrightarrow>
    \<forall>k < length zs. k + length ys + length xs \<notin> A \<Longrightarrow> nths (xs @ ys @ zs) A = ys"
  by (simp add: nths_append nths_no nths_all)

lemma nths_around:
  "\<forall>k < length xs. k \<in> A \<Longrightarrow> \<forall>k < length ys. k + length xs \<notin> A \<Longrightarrow>
    \<forall>k < length zs. k + length ys + length xs \<in> A \<Longrightarrow> nths (xs @ ys @ zs) A = xs @ zs"
  by (simp add: nths_append nths_no nths_all)

lemma nths_parts:
  assumes "lo \<le> hi" "hi < length ps" "\<And>k. k < length ps \<Longrightarrow> k \<in> A \<longleftrightarrow> lo \<le> k \<and> k \<le> hi"
  shows "nths ps A = take (Suc hi - lo) (drop lo ps)" "nths ps {k. k \<notin> A} = take lo ps @ drop (Suc hi) ps"
proof -
  let ?xs = "take lo ps" and ?ys = "take (Suc hi - lo) (drop lo ps)" and ?zs = "drop (Suc hi) ps"
  have "?ys @ ?zs = drop lo ps" by (rule rank_lists(1) [OF assms(1,2)])
  then have ps: "?xs @ ?ys @ ?zs = ps" by simp
  have n: "length ?xs = lo" "length ?ys = Suc hi - lo" "length ?zs = length ps - Suc hi"
    using assms(1,2) by simp_all
  have "nths (?xs @ ?ys @ ?zs) A = ?ys"
    by (rule nths_between; unfold n) (use assms in auto)
  then show "nths ps A = ?ys" unfolding ps .
  have "nths (?xs @ ?ys @ ?zs) {k. k \<notin> A} = ?xs @ ?zs"
    by (rule nths_around; unfold n) (use assms in auto)
  then show "nths ps {k. k \<notin> A} = ?xs @ ?zs" unfolding ps .
qed

lemma ranks_None:
  assumes "sanitize_ranks (int (length ps)) start end' = None"
  shows "nths ps {k. in_ranks (length ps) start end' k} = []" "nths ps {k. \<not> in_ranks (length ps) start end' k} = ps"
  using in_ranks_None [OF assms] by (auto intro!: nths_no nths_all)

lemma ranks_Some:
  assumes "sanitize_ranks (int (length ps)) start end' = Some (lo, hi)"
  shows "nths ps {k. in_ranks (length ps) start end' k} = take (Suc (nat hi) - nat lo) (drop (nat lo) ps)"
    "nths ps {k. \<not> in_ranks (length ps) start end' k} = take (nat lo) ps @ drop (Suc (nat hi)) ps"
proof -
  have "nat lo \<le> nat hi" "nat hi < length ps" using sanitize_ranks_Some [OF assms] by linarith+
  from nths_parts [OF this, of "{k. in_ranks (length ps) start end' k}"] in_ranks_Some [OF assms]
  show "nths ps {k. in_ranks (length ps) start end' k} = take (Suc (nat hi) - nat lo) (drop (nat lo) ps)"
    "nths ps {k. \<not> in_ranks (length ps) start end' k} = take (nat lo) ps @ drop (Suc (nat hi)) ps"
    by simp_all
qed

lemma zkey_rep_kept:
  "zset_rep E o2 qs \<Longrightarrow> zkey_rep E (if length qs = 0 then None else Some o2) qs"
  by (simp add: zkey_rep_def)

lemma zremrange_ziplist_spec:
  assumes ok: "zz_ok E zl es ps" and s: "sset ps" and len: "length ps \<le> 1000000"
    and d: "(case rg of
           ZrangeRank start end' \<Rightarrow> zzlDeleteRangeByRank (nat (start + 1) mod U32) (nat (end' + 1) mod U32) zl
         | ZrangeScore r \<Rightarrow> zzlDeleteRangeByScore E r zl
         | ZrangeLex r \<Rightarrow> zzlDeleteRangeByLex r zl) = Some (n, zl')"
    and ok': "zz_ok E zl' es' qs" and qs: "sset qs" "length qs \<le> 1000000"
  shows "\<exists>r. zremrange_ziplist E rg zl = Some (n, r) \<and> zkey_rep E r qs"
proof -
  obtain zl2 where 2: "zzlLength zl' = Some (length qs, zl2)" "zz_block E zl2 es' qs"
    by (rule zzlLength_spec [OF zz_okD(1) [OF ok']])
  have "zset_rep E (ZsetZiplist zl2) qs" using 2(2) ok' qs by (auto simp: zset_rep_def zz_ok_def)
  from zkey_rep_kept [OF this] show ?thesis using d 2(1) by (simp add: zremrange_ziplist_def)
qed

lemma zremrange_skiplist_spec:
  assumes ok: "zs_ok zs es" and m: "mset es = mset (fs @ gone)" and rep: "zsl_rep z fs"
    and d: "(case rg of
           ZrangeRank start end' \<Rightarrow> zslDeleteRangeByRank (nat (start + 1) mod U32) (nat (end' + 1) mod U32) (zsl zs) (zdict zs)
         | ZrangeScore r \<Rightarrow> zslDeleteRangeByScore r (zsl zs) (zdict zs)
         | ZrangeLex r \<Rightarrow> zslDeleteRangeByLex r (zsl zs) (zdict zs)) = Some (length gone, z, forget (zdict zs) gone)"
  shows "\<exists>r. zremrange_skiplist rg zs = Some (length es - length fs, r) \<and> zkey_rep E r (zkeys fs)"
proof -
  have ok': "zs_ok \<lparr>zdict = forget (zdict zs) gone, zsl = z\<rparr> fs" by (rule zs_ok_forget [OF ok rep m])
  then have sz: "Mapping.size (forget (zdict zs) gone) = length (zkeys fs)" using dict_size [OF ok'] by simp
  have n: "length gone = length es - length fs" using arg_cong [OF m, of size] by simp
  have "zset_rep E (ZsetSkiplist (zs\<lparr>zdict := forget (zdict zs) gone, zsl := z\<rparr>)) (zkeys fs)"
    using ok' by (cases zs) (auto simp: zset_rep_def)
  from zkey_rep_kept [OF this] show ?thesis using d n sz by (simp add: zremrange_skiplist_def)
qed

lemma zkeys_parts: "zkeys (take n es) = take n (zkeys es)" "zkeys (drop n es) = drop n (zkeys es)"
  by (simp_all add: zkeys_def take_map drop_map)

lemma mset_parts: "mset es = mset (filter (\<lambda>x. \<not> P x) es @ filter P es)"
  using multiset_partition [of "mset es" P] by simp

lemma zsetLength_spec:
  assumes rep: "zset_rep E o' ps" and len: "length ps < U32"
  shows "\<exists>o2. zsetLength o' = Some (length ps, o2) \<and> zset_rep E o2 ps"
proof (cases o')
  case (ZsetZiplist zl)
  then obtain es where es: "sset ps" "length ps \<le> 1000000" "zz_ok E zl es ps" using rep by (auto simp: zset_rep_def)
  obtain zl2 where 2: "zzlLength zl = Some (length ps, zl2)" "zz_block E zl2 es ps"
    by (rule zzlLength_spec [OF zz_okD(1) [OF es(3)]])
  have "zz_ok E zl2 es ps" using 2(2) es(3) by (simp add: zz_ok_def)
  then have "zset_rep E (ZsetZiplist zl2) ps" using es(1,2) by (auto simp: zset_rep_def)
  then show ?thesis using ZsetZiplist 2(1) len by (simp add: zsetLength_def)
next
  case (ZsetSkiplist zs)
  then obtain es where es: "zs_ok zs es" "ps = zkeys es" using rep by (auto simp: zset_rep_def)
  then have "zlength (zsl zs) = length ps" using zsl_repD(2) [of "zsl zs" es] by (simp add: zs_ok_def)
  then show ?thesis using ZsetSkiplist rep len by (simp add: zsetLength_def)
qed

lemma one_up: "nat (int n + 1) = Suc n"
  by linarith

text \<open>The deletion of a range of the skip list, for each kind of range.\<close>

lemma zremrange_skiplist_rank:
  assumes ok: "zs_ok zs es" and len: "length es < U32" and b: "lo \<le> hi" "hi < length es"
  shows "\<exists>r. zremrange_skiplist (ZrangeRank (int lo) (int hi)) zs = Some (Suc hi - lo, r) \<and>
    zkey_rep E r (take lo (zkeys es) @ drop (Suc hi) (zkeys es))"
proof -
  have rep: "zsl_rep (zsl zs) es" using ok by (simp add: zs_ok_def)
  let ?gone = "take (Suc hi - lo) (drop lo es)" and ?fs = "take lo es @ drop (Suc hi) es"
  have u: "nat (int lo + 1) mod U32 = Suc lo" "nat (int hi + 1) mod U32 = Suc hi"
    using b len by (subst one_up, subst mod_less; linarith)+
  obtain z where z: "zslDeleteRangeByRank (Suc lo) (Suc hi) (zsl zs) (zdict zs) = Some (length ?gone, z, forget (zdict zs) ?gone)"
    "zsl_rep z ?fs"
    using zslDeleteRangeByRank_spec [OF rep len, of "Suc lo" "Suc hi" "zdict zs"]
    unfolding diff_Suc_1 rank_lists(2) [OF b] by blast
  have "mset es = mset (take lo es) + mset (drop lo es)" by (simp flip: mset_append)
  then have m: "mset es = mset (?fs @ ?gone)" using arg_cong [OF rank_lists(1) [OF b], of mset] by (simp add: ac_simps)
  have "length es - length ?fs = Suc hi - lo" using b by simp
  moreover have "zkeys ?fs = take lo (zkeys es) @ drop (Suc hi) (zkeys es)" by (simp add: zkeys_parts)
  ultimately show ?thesis
    using zremrange_skiplist_spec [OF ok m z(2), of "ZrangeRank (int lo) (int hi)" E, unfolded zremrange.case u, OF z(1)] by simp
qed

lemma zremrange_skiplist_score:
  assumes ok: "zs_ok zs es" and len: "length es < U32"
  shows "\<exists>r'. zremrange_skiplist (ZrangeScore r) zs = Some (length es - length (out_of (ZrangeScore r) (zkeys es)), r') \<and>
    zkey_rep E r' (out_of (ZrangeScore r) (zkeys es))"
proof -
  have rep: "zsl_rep (zsl zs) es" using ok by (simp add: zs_ok_def)
  let ?fs = "filter (\<lambda>e. \<not> in_range r e) es"
  obtain z where z: "zslDeleteRangeByScore r (zsl zs) (zdict zs) = Some (length (filter (in_range r) es), z, forget (zdict zs) (filter (in_range r) es))"
    "zsl_rep z ?fs"
    using zslDeleteRangeByScore_spec [OF rep len, of r "zdict zs"] by blast
  have k: "zkeys ?fs = out_of (ZrangeScore r) (zkeys es)"
    using zkeys_filter [of "\<lambda>p. \<not> in_scores r p" es] by (simp add: out_of_def)
  then have "length ?fs = length (out_of (ZrangeScore r) (zkeys es))" by (metis zkeys_simps(4))
  then show ?thesis
    using zremrange_skiplist_spec [OF ok mset_parts z(2), of "ZrangeScore r" E, unfolded zremrange.case, OF z(1)] k by simp
qed

lemma zremrange_skiplist_lex:
  assumes ok: "zs_ok zs es" and len: "length es < U32" and one: "one_score (zkeys es)"
  shows "\<exists>r'. zremrange_skiplist (ZrangeLex r) zs = Some (length es - length (out_of (ZrangeLex r) (zkeys es)), r') \<and>
    zkey_rep E r' (out_of (ZrangeLex r) (zkeys es))"
proof -
  have rep: "zsl_rep (zsl zs) es" using ok by (simp add: zs_ok_def)
  have "(e_score e, e_obj e) \<in> set (zkeys es)" if "e \<in> set es" for e using that by (auto simp: zkeys_def)
  then have same: "same_score es" using one unfolding one_score_def same_score_def by (metis fst_conv)
  let ?fs = "filter (\<lambda>e. \<not> in_lex r e) es"
  obtain z where z: "zslDeleteRangeByLex r (zsl zs) (zdict zs) = Some (length (filter (in_lex r) es), z, forget (zdict zs) (filter (in_lex r) es))"
    "zsl_rep z ?fs"
    using zslDeleteRangeByLex_spec [OF rep same len, of r "zdict zs"] by blast
  have k: "zkeys ?fs = out_of (ZrangeLex r) (zkeys es)"
    using zkeys_filter [of "\<lambda>p. \<not> in_strings r p" es] by (simp add: out_of_def)
  then have "length ?fs = length (out_of (ZrangeLex r) (zkeys es))" by (metis zkeys_simps(4))
  then show ?thesis
    using zremrange_skiplist_spec [OF ok mset_parts z(2), of "ZrangeLex r" E, unfolded zremrange.case, OF z(1)] k by simp
qed

text \<open>The same for a ziplist.\<close>

lemma zremrange_ziplist_rank:
  assumes ok: "zz_ok E zl es ps" and s: "sset ps" and len: "length ps \<le> 1000000" and b: "lo \<le> hi" "hi < length ps"
  shows "\<exists>r. zremrange_ziplist E (ZrangeRank (int lo) (int hi)) zl = Some (Suc hi - lo, r) \<and>
    zkey_rep E r (take lo ps @ drop (Suc hi) ps)"
proof -
  have u: "nat (int lo + 1) mod U32 = Suc lo" "nat (int hi + 1) mod U32 = Suc hi"
    using b len by (subst one_up, subst mod_less; linarith)+
  obtain zl' es' where z: "zzlDeleteRangeByRank (Suc lo) (Suc hi) zl = Some (Suc hi - lo, zl')"
    "zz_ok E zl' es' (take lo ps @ drop (Suc hi) ps)"
    using zzlDeleteRangeByRank_spec [OF ok, of "Suc lo" "Suc hi"] b len by auto
  have "sset (take lo ps @ drop (Suc hi) ps)"
  proof -
    have "ps = take lo ps @ take (Suc hi - lo) (drop lo ps) @ drop (Suc hi) ps"
      unfolding rank_lists(1) [OF b] by (rule append_take_drop_id [symmetric])
    from arg_cong [OF this, of sset] s have "sset (take lo ps @ take (Suc hi - lo) (drop lo ps) @ drop (Suc hi) ps)" by argo
    then show ?thesis by (auto simp: sset_def zsorted_def sorted_wrt_append)
  qed
  moreover have "length (take lo ps @ drop (Suc hi) ps) \<le> 1000000" using len b by simp
  ultimately show ?thesis
    using zremrange_ziplist_spec [OF ok s len _ z(2), of "ZrangeRank (int lo) (int hi)", unfolded zremrange.case u, OF z(1)] by simp
qed

lemma zremrange_ziplist_filter:
  assumes env: "env_ok E" and ok: "zz_ok E zl es ps" and s: "sset ps" and len: "length ps \<le> 1000000"
    and rg: "range_ok rg ps" "\<And>lo hi. rg \<noteq> ZrangeRank lo hi"
  shows "\<exists>r. zremrange_ziplist E rg zl = Some (length ps - length (out_of rg ps), r) \<and> zkey_rep E r (out_of rg ps)"
proof -
  have tx: "text_ok E" by (rule env_text_ok [OF env])
  have srt: "zsorted ps" using s by (simp add: sset_def)
  have len': "length ps \<le> 1000001" using len by simp
  have part: "length (filter P ps) = length ps - length (filter (\<lambda>p. \<not> P p) ps)" for P :: "'a \<times> bytes \<Rightarrow> bool"
    using sum_length_filter_compl [of P ps] by linarith
  have keep: "sset (filter P ps)" "length (filter P ps) \<le> 1000000" for P
    using sset_filter [OF s] le_trans [OF length_filter_le len] by blast+
  show ?thesis
  proof (cases rg)
    case (ZrangeScore r)
    obtain zl' es' where z: "zzlDeleteRangeByScore E r zl = Some (length (filter (in_scores r) ps), zl')"
      "zz_ok E zl' es' (filter (\<lambda>p. \<not> in_scores r p) ps)"
      using zzlDeleteRangeByScore_spec [OF ok tx srt len'] by blast
    show ?thesis
      using zremrange_ziplist_spec [OF ok s len _ z(2) keep, of rg, unfolded ZrangeScore zremrange.case, OF z(1)]
      unfolding ZrangeScore by (simp add: out_of_def part [of "in_scores r"])
  next
    case (ZrangeLex r)
    have "one_score ps" "\<not> mixed_up r" using rg(1) by (simp_all add: range_ok_def ZrangeLex)
    then obtain zl' es' where z: "zzlDeleteRangeByLex r zl = Some (length (filter (in_strings r) ps), zl')"
      "zz_ok E zl' es' (filter (\<lambda>p. \<not> in_strings r p) ps)"
      using zzlDeleteRangeByLex_spec [OF ok srt _ len'] by blast
    show ?thesis
      using zremrange_ziplist_spec [OF ok s len _ z(2) keep, of rg, unfolded ZrangeLex zremrange.case, OF z(1)]
      unfolding ZrangeLex by (simp add: out_of_def part [of "in_strings r"])
  qed (use rg(2) in blast)
qed

end
