(* ===== verification/ZsetReads.thy ===== *)
theory ZsetReads
  imports ZsetRemRange
begin

text \<open>
  The commands on a sorted set as operations on its list of pairs, whatever the encoding:
  removal of a range, score and rank of an element.
\<close>

definition remrange_of :: "'s::linorder zenv \<Rightarrow> 's zremrange \<Rightarrow> 's zsetobj \<Rightarrow> (nat \<times> 's zsetobj option) option" where
  "remrange_of E rg o' = (case o' of ZsetZiplist zl \<Rightarrow> zremrange_ziplist E rg zl | ZsetSkiplist zs \<Rightarrow> zremrange_skiplist rg zs)"

lemma remrange_of_rank:
  assumes rep: "zset_rep E o' ps" and len: "length ps < U32" and b: "lo \<le> hi" "hi < length ps"
  shows "\<exists>r. remrange_of E (ZrangeRank (int lo) (int hi)) o' = Some (Suc hi - lo, r) \<and> zkey_rep E r (take lo ps @ drop (Suc hi) ps)"
proof (cases o')
  case (ZsetZiplist zl)
  then obtain es where es: "zz_ok E zl es ps" "sset ps" "length ps \<le> 1000000" using rep by (auto simp: zset_rep_def)
  show ?thesis using zremrange_ziplist_rank [OF es b] ZsetZiplist by (simp add: remrange_of_def)
next
  case (ZsetSkiplist zs)
  then obtain es where es: "zs_ok zs es" "ps = zkeys es" using rep by (auto simp: zset_rep_def)
  have "length es < U32" "hi < length es" using len b(2) by (simp_all add: es(2))
  from zremrange_skiplist_rank [OF es(1) this(1) b(1) this(2), of E] show ?thesis
    using ZsetSkiplist es(2) by (simp add: remrange_of_def)
qed

lemma remrange_of_filter:
  assumes env: "env_ok E" and rep: "zset_rep E o' ps" and len: "length ps < U32" and rg: "range_ok rg ps"
    and nr: "\<And>lo hi. rg \<noteq> ZrangeRank lo hi"
  shows "\<exists>r. remrange_of E rg o' = Some (length ps - length (out_of rg ps), r) \<and> zkey_rep E r (out_of rg ps)"
proof (cases o')
  case (ZsetZiplist zl)
  then obtain es where es: "zz_ok E zl es ps" "sset ps" "length ps \<le> 1000000" using rep by (auto simp: zset_rep_def)
  show ?thesis using zremrange_ziplist_filter [OF env es rg nr] ZsetZiplist by (simp add: remrange_of_def)
next
  case (ZsetSkiplist zs)
  then obtain es where es: "zs_ok zs es" "ps = zkeys es" using rep by (auto simp: zset_rep_def)
  have l: "length es < U32" using len by (simp add: es(2))
  show ?thesis
  proof (cases rg)
    case (ZrangeScore r)
    show ?thesis using zremrange_skiplist_score [OF es(1) l, of r E] ZsetSkiplist es(2) ZrangeScore by (simp add: remrange_of_def)
  next
    case (ZrangeLex r)
    then have "one_score (zkeys es)" using rg es(2) by (simp add: range_ok_def)
    from zremrange_skiplist_lex [OF es(1) l this, of r E] show ?thesis
      using ZsetSkiplist es(2) ZrangeLex by (simp add: remrange_of_def)
  qed (use nr in blast)
qed

lemma zremrange_spec:
  assumes env: "env_ok E" and rep: "zset_rep E o' ps" and len: "length ps < U32" and ne: "ps \<noteq> []" and rg: "range_ok rg ps"
  shows "\<exists>r. zremrangeGenericCommand E rg o' = Some (length ps - length (out_of rg ps), r) \<and> zkey_rep E r (out_of rg ps)"
proof (cases "\<exists>a b. rg = ZrangeRank a b")
  case False
  then have "zremrangeGenericCommand E rg o' = remrange_of E rg o'"
    by (cases rg) (simp_all add: zremrangeGenericCommand_def remrange_of_def)
  then show ?thesis using remrange_of_filter [OF env rep len rg] False by auto
next
  case True
  then obtain a b where ab: "rg = ZrangeRank a b" by blast
  obtain o2 where 2: "zsetLength o' = Some (length ps, o2)" "zset_rep E o2 ps" using zsetLength_spec [OF rep len] by blast
  show ?thesis
  proof (cases "sanitize_ranks (int (length ps)) a b")
    case None
    then have "out_of rg ps = ps" by (simp add: out_of_def ab ranks_None)
    moreover have "zremrangeGenericCommand E rg o' = Some (0, Some o2)"
      using 2(1) None by (simp add: zremrangeGenericCommand_def ab)
    ultimately show ?thesis using 2(2) ne by (simp add: zkey_rep_def)
  next
    case (Some lh)
    obtain lo hi where lh: "lh = (lo, hi)" by (cases lh)
    note sr = sanitize_ranks_Some [OF Some [unfolded lh]]
    have b: "nat lo \<le> nat hi" "nat hi < length ps" using sr by linarith+
    have i: "int (nat lo) = lo" "int (nat hi) = hi" using sr by linarith+
    have out: "out_of rg ps = take (nat lo) ps @ drop (Suc (nat hi)) ps"
      using ranks_Some [OF Some [unfolded lh]] by (simp add: out_of_def ab)
    have n: "length ps - length (out_of rg ps) = Suc (nat hi) - nat lo" unfolding out using b by simp
    have run: "zremrangeGenericCommand E rg o' = remrange_of E (ZrangeRank lo hi) o2"
      using 2(1) Some lh by (simp add: zremrangeGenericCommand_def ab remrange_of_def)
    show ?thesis unfolding run n using remrange_of_rank [OF 2(2) len b] unfolding i out .
  qed
qed

section \<open>Reading\<close>

lemma zscore_spec:
  assumes env: "env_ok E" and rep: "zset_rep E o' ps"
  shows "zscoreCommand E ob o' = Some (case score_of ps ob of None \<Rightarrow> RepNil | Some v \<Rightarrow> RepDouble v)"
proof (cases o')
  case (ZsetZiplist zl)
  then obtain es where es: "zz_ok E zl es ps" "sset ps" using rep by (auto simp: zset_rep_def)
  have tx: "text_ok E" by (rule env_text_ok [OF env])
  show ?thesis
    using zzlFind_spec [OF zz_okD(1) [OF es(1)] tx, of True ob] found_score [OF es(2), of ob] ZsetZiplist
    by (cases "stop_at (\<lambda>p. snd p = ob) ps 0") (simp_all add: zscoreCommand_def)
next
  case (ZsetSkiplist zs)
  then obtain es where es: "zs_ok zs es" "ps = zkeys es" using rep by (auto simp: zset_rep_def)
  show ?thesis
  proof (cases "Mapping.lookup (zdict zs) ob")
    case None
    then have "score_of ps ob = None" using lookup_None_iff [OF es(1)] by (simp add: score_of_None es(2))
    then show ?thesis using None ZsetSkiplist by (simp add: zscoreCommand_def)
  next
    case (Some a)
    obtain n cur where "znodes (zsl zs) a = Some n" "zscore n = cur" "score_of (zkeys es) ob = Some cur"
      by (rule lookup_node [OF es(1) Some]) (rule that)
    then show ?thesis using Some ZsetSkiplist es(2) by (simp add: zscoreCommand_def)
  qed
qed

lemma rank_loop_at:
  assumes "zz_block E zl es ps"
  shows "rank_loop zl ele (at_pair es ps j) (at_score es ps j) (Suc j) = Some (map_option Suc (stop_at (\<lambda>p. snd p = ele) ps j))"
proof (induction j rule: ahead_induct [where n = "length ps"])
  case (beyond j)
  then show ?case by (subst rank_loop.simps) simp
next
  case (step j)
  show ?case
    using step(2) zz_read(2) [OF assms step(1)] zzlNext_at [OF assms step(1)]
    by (subst rank_loop.simps) (simp add: at_pair_some [OF step(1)] stop_at_step [OF step(1)] at_score_def step(1))
qed

text \<open>The place of an element.\<close>

definition place_of :: "('s \<times> bytes) list \<Rightarrow> bytes \<Rightarrow> nat option" where
  "place_of ps ob = stop_at (\<lambda>p. snd p = ob) ps 0"

definition rank_answer :: "bool \<Rightarrow> ('s \<times> bytes) list \<Rightarrow> bytes \<Rightarrow> 's zreply" where
  "rank_answer reverse ps ob =
    (case place_of ps ob of
       None \<Rightarrow> RepNil
     | Some j \<Rightarrow> RepCount (int (if reverse then length ps - Suc j else j)))"

lemma rank_reply_at: "j < n \<Longrightarrow> n < U32 \<Longrightarrow> rank_reply reverse n (Suc j) = RepCount (int (if reverse then n - Suc j else j))"
  using uarith(1) [of "Suc j" n U64] uarith(1) [of 1 "Suc j" U64] by (simp add: rank_reply_def)

lemma zrank_ziplist:
  assumes ok: "zz_ok E zl es ps" and len: "length ps < U32" and ne: "ps \<noteq> []" and l: "zzlLength zl = Some (length ps, zl2)" and b2: "zz_block E zl2 es ps"
  shows "zrankGenericCommand reverse ob (ZsetZiplist zl) = Some (rank_answer reverse ps ob, ZsetZiplist zl2)"
proof -
  have n: "0 < length ps" using ne by simp
  have "rank_loop zl2 ob (Some (eptr es 0)) (Some (sptr es 0)) 1 = Some (map_option Suc (place_of ps ob))"
    using rank_loop_at [OF b2, of ob 0] n by (simp add: at_pair_def at_score_def place_of_def)
  moreover have "ziplistIndex zl2 0 = Some (Some (eptr es 0))" "ziplistNext zl2 (eptr es 0) = Some (Some (sptr es 0))"
    using zz_index(1) [OF b2] zz_next(1) [OF b2 n] ne by simp_all
  moreover have "place_of ps ob = Some j \<Longrightarrow> j < length ps" for j by (simp add: place_of_def stop_at_Some)
  ultimately show ?thesis
    using l len by (auto simp: zrankGenericCommand_def zsetLength_def rank_answer_def rank_reply_at split: option.splits)
qed

lemma zrank_skiplist:
  assumes ok: "zs_ok zs es" and len: "length es < U32"
  shows "zrankGenericCommand reverse ob (ZsetSkiplist zs) = Some (rank_answer reverse (zkeys es) ob, ZsetSkiplist zs)"
proof -
  have rep: "zsl_rep (zsl zs) es" and dist: "distinct (map e_obj es)" using ok by (simp_all add: zs_ok_def)
  have l: "zlength (zsl zs) mod U32 = length es" using zsl_repD(2) [OF rep] len by simp
  have l64: "length es < U64" using len by simp
  have at: "zkeys es ! j = (e_score (es ! j), e_obj (es ! j))" if "j < length es" for j using that by (simp add: zkeys_def)
  show ?thesis
  proof (cases "place_of (zkeys es) ob")
    case None
    then have "ob \<notin> snd ` set (zkeys es)" unfolding place_of_def stop_at_None by blast
    then have "Mapping.lookup (zdict zs) ob = None" using lookup_None_iff [OF ok] by simp
    then show ?thesis using None by (simp add: zrankGenericCommand_def zsetLength_def rank_answer_def)
  next
    case (Some j)
    then have j: "j < length es" "e_obj (es ! j) = ob" using at by (auto simp: place_of_def stop_at_Some)
    then have "ob \<in> e_obj ` set es" by force
    then obtain a where a: "Mapping.lookup (zdict zs) ob = Some a" using lookup_None_iff [OF ok, of ob] by auto
    obtain n cur where n: "znodes (zsl zs) a = Some n" "zscore n = cur" "score_of (zkeys es) ob = Some cur"
      by (rule lookup_node [OF ok a]) (rule that)
    have "score_of (zkeys es) (snd (zkeys es ! j)) = Some (fst (zkeys es ! j))"
      by (rule score_of_nth) (use dist j in simp_all)
    then have "cur = e_score (es ! j)" using n(3) at [OF j(1)] j(2) by simp
    then have "zslGetRank (zscore n) ob (zsl zs) = Some (Suc j)"
      using zslGetRank_spec(1) [OF rep l64 dist j(1)] j(2) n(2) by simp
    then show ?thesis
      using a n(1) l Some rank_reply_at [OF j(1) len, of reverse]
      by (cases reverse) (simp_all add: zrankGenericCommand_def zsetLength_def rank_answer_def)
  qed
qed

lemma zrank_spec:
  assumes rep: "zset_rep E o' ps" and len: "length ps < U32" and ne: "ps \<noteq> []"
  shows "\<exists>o2. zrankGenericCommand reverse ob o' = Some (rank_answer reverse ps ob, o2) \<and> zset_rep E o2 ps"
proof (cases o')
  case (ZsetZiplist zl)
  then obtain es where es: "zz_ok E zl es ps" "sset ps" "length ps \<le> 1000000" using rep by (auto simp: zset_rep_def)
  obtain zl2 where 2: "zzlLength zl = Some (length ps, zl2)" "zz_block E zl2 es ps"
    by (rule zzlLength_spec [OF zz_okD(1) [OF es(1)]])
  have "zz_ok E zl2 es ps" using 2(2) es(1) by (simp add: zz_ok_def)
  then have "zset_rep E (ZsetZiplist zl2) ps" using es(2,3) by (auto simp: zset_rep_def)
  then show ?thesis using zrank_ziplist [OF es(1) len ne 2, of reverse ob] ZsetZiplist by simp
next
  case (ZsetSkiplist zs)
  then obtain es where es: "zs_ok zs es" "ps = zkeys es" using rep by (auto simp: zset_rep_def)
  have "length es < U32" using len es(2) by simp
  from zrank_skiplist [OF es(1) this, of reverse ob] show ?thesis using ZsetSkiplist es(2) rep by simp
qed

end
