(* ===== verification/SortedSet.thy ===== *)
theory SortedSet
  imports ZsetReads
begin

text \<open>
  The properties of the commands on sorted sets.  A key that holds a sorted set stands for a
  list of pairs of score and element in order, whatever the encoding (\<open>zkey_rep\<close>); a missing
  key stands for the empty list.
\<close>

section \<open>A concrete environment\<close>

text \<open>Two scores, 0 and 1; \<open>strtod\<close> reads integers, the only numbers there are.\<close>

definition env1 :: "nat \<Rightarrow> 1 word zenv" where
  "env1 n = \<lparr>strtod = (\<lambda>s. case string2ll s of None \<Rightarrow> 0 | Some v \<Rightarrow> of_int v), of_longlong = of_int, to_longlong = uint,
    isnan = (\<lambda>_. False), isinf = (\<lambda>_. False), neg_zero = (\<lambda>_. False), snprintf_17g = (\<lambda>v. if v = 0 then [48] else [49]),
    dadd = (\<lambda>a b. Some (a + b)), malloc = (\<lambda>t used. LEAST a. \<not> used a), draws = (\<lambda>t. [60000]),
    zset_max_ziplist_entries = n, zset_max_ziplist_value = 64\<rparr>"

lemma bit_cases: "v = 0 \<or> v = (1 :: 1 word)"
proof -
  have "unat v < 2" using unsigned_less [of v] by simp
  then have "unat v = 0 \<or> unat v = 1" by linarith
  then show ?thesis by (auto simp: word_unat_eq_iff)
qed

lemma env1_ok: "n \<le> 1000000 \<Longrightarrow> env_ok (env1 n)"
proof -
  assume n: "n \<le> 1000000"
  have d: "string2ll [48] = Some 0" "string2ll [49] = Some 1" by (simp_all add: string2ll_def Let_def int64_max_def)
  have i: "is_int64 (uint v)" for v :: "1 word" using bit_cases [of v] by (auto simp: int_range)
  have "libc_ok (env1 n)"
    unfolding libc_ok_def
  proof (intro conjI allI impI)
    show "strtod (env1 n) (snprintf_17g (env1 n) v) = v" "length (snprintf_17g (env1 n) v) < 128" for v
      using bit_cases [of v] by (auto simp: env1_def d)
    show "strtod (env1 n) (ll_repr m) = of_longlong (env1 n) m" if "is_int64 m" for m
      using that string2ll_iff [of "ll_repr m" m] by (simp add: env1_def)
  qed (simp_all add: env1_def i no_number)
  moreover have "\<not> used (malloc (env1 n) t used)" if fin: "finite (Collect used)" for t used
  proof -
    obtain a where "\<not> used a" using ex_new_if_finite [OF infinite_UNIV_nat fin] by auto
    then show ?thesis unfolding env1_def by simp (rule LeastI)
  qed
  moreover have "zslRandomLevel (draws (env1 n) t) \<noteq> None" for t
  proof -
    have "zslRandomLevel [60000] \<noteq> None" by (simp add: zslRandomLevel_def)
    then show ?thesis by (simp add: env1_def)
  qed
  moreover have "zset_max_ziplist_value (env1 n) = 64" "zset_max_ziplist_entries (env1 n) = n" by (simp_all add: env1_def)
  ultimately show ?thesis using n unfolding env_ok_def by (intro conjI allI impI) simp_all
qed

text \<open>The list is determined by the scores.\<close>

lemma sorted_wrt_unique:
  assumes asym: "\<And>x y. R x y \<Longrightarrow> \<not> R y x"
  shows "sorted_wrt R xs \<Longrightarrow> sorted_wrt R ys \<Longrightarrow> set xs = set ys \<Longrightarrow> xs = ys"
proof (induction xs arbitrary: ys)
  case (Cons x xs)
  then obtain y ys' where ys: "ys = y # ys'" by (cases ys) auto
  have "x = y"
  proof (rule ccontr)
    assume "x \<noteq> y"
    then have "x \<in> set ys'" "y \<in> set xs" using Cons.prems(3) ys by auto
    then show False using Cons.prems(1,2) ys asym by auto
  qed
  moreover have "x \<notin> set xs" "y \<notin> set ys'" using Cons.prems(1,2) ys asym by auto
  ultimately have "set xs = set ys'" using Cons.prems(3) ys by auto
  then show ?case using Cons.IH [of ys'] Cons.prems(1,2) ys \<open>x = y\<close> by simp
qed simp

lemma sset_unique:
  assumes "sset ps" "sset qs" "score_of ps = score_of qs"
  shows "ps = qs"
proof (rule sorted_wrt_unique [where R = "\<lambda>p q. zlt (fst p) (snd p) (fst q) (snd q)"])
  show "\<And>x y. zlt (fst x) (snd x) (fst y) (snd y) \<Longrightarrow> \<not> zlt (fst y) (snd y) (fst x) (snd x)"
    by (auto simp: zlt_def)
  have d: "distinct (map snd ps)" "distinct (map snd qs)" using assms(1,2) by (simp_all add: sset_def)
  have "(v, ob) \<in> set ps \<longleftrightarrow> (v, ob) \<in> set qs" for v ob
    using score_of_Some [OF d(1), of ob v] score_of_Some [OF d(2), of ob v] assms(3) by simp
  then show "set ps = set qs" by auto
qed (use assms in \<open>simp_all add: sset_def zsorted_def\<close>)

lemma set_exists:
  assumes n: "n \<le> 1000000" and s: "sset ps" and b: "length ps < 1000" "\<forall>p \<in> set ps. length (snd p) \<le> 536870912"
  shows "\<exists>o'. zset_rep (env1 n) o' ps"
proof -
  note env = env1_ok [OF n]
  obtain o1 t1 where "zset_rep (env1 n) o1 []"
    by (rule new_object_spec [OF env])
  from zadd_loop_spec [OF env this, of ps 0 0 0 0] b obtain o2 qs where
    q: "zset_rep (env1 n) o2 qs" "score_of qs = fold (\<lambda>p m. m(snd p \<mapsto> fst p)) ps (score_of [])" by auto
  have "fold (\<lambda>p m. m(snd p \<mapsto> fst p)) ps m x = (case score_of ps x of None \<Rightarrow> m x | Some v \<Rightarrow> Some v)"
    if "distinct (map snd ps)" for m x and ps :: "(1 word \<times> bytes) list"
    using that
  proof (induction ps arbitrary: m)
    case (Cons p ps)
    then have "score_of ps (snd p) = None" by (simp add: score_of_None)
    then show ?case using Cons by (cases "x = snd p") (auto simp: score_of_def split: option.splits)
  qed (simp add: score_of_def)
  then have "score_of qs = score_of ps" using s q(2) by (auto simp: sset_def fun_eq_iff score_of_def split: option.splits)
  then show ?thesis using sset_unique [OF zset_rep_sset [OF q(1)] s] q(1) by auto
qed

lemma score_of_map [simp]: "score_of [] = Map.empty" "score_of (p # ps) = (score_of ps)(snd p \<mapsto> fst p)"
  by (auto simp: score_of_def fun_eq_iff)

lemma fold_defined:
  assumes "p \<in> set args \<or> m (snd p) \<noteq> None"
  shows "fold (\<lambda>p m. m(snd p \<mapsto> fst p)) args m (snd p) \<noteq> None"
  using assms
proof (induction args arbitrary: m)
  case (Cons q args)
  have "p \<in> set args \<or> (m(snd q \<mapsto> fst q)) (snd p) \<noteq> None" using Cons.prems by auto
  then show ?case using Cons.IH [of "m(snd q \<mapsto> fst q)"] by simp
qed simp

text \<open>The object ZADD works on: that of the key or a new one.\<close>

lemma opened:
  assumes "env_ok E" "zkey_rep E o' ps"
  obtains o1 t1 where "(case o' of
           None \<Rightarrow> (if zset_max_ziplist_entries E = 0 \<or> zset_max_ziplist_value E < n
              then createZsetObject E t else (createZsetZiplistObject, t))
         | Some o' \<Rightarrow> (o', t)) = (o1, t1)" "zset_rep E o1 ps"
proof (cases o')
  case None
  then have "ps = []" using assms(2) by (simp add: zkey_rep_def)
  then show thesis using that new_object_spec [OF assms(1), of n t] None by auto
next
  case (Some o1)
  then show thesis using that assms(2) by (simp add: zkey_rep_def)
qed

section \<open>The properties\<close>

text \<open>C11: ZADD on a missing key or on a set in either encoding sets the given scores one after the
  other and nothing else, and answers how many elements are new.  The set stays well formed
  through updates, the conversion to a skip list included, however the nodes are placed and
  drawn.\<close>

theorem zadd_correct:
  assumes "env_ok E" "zkey_rep E o' ps" "args \<noteq> []" "length ps + length args < 4294967295" "\<forall>p \<in> set args. length (snd p) \<le> 536870912"
  shows "\<exists>n o2 t' qs. zaddGenericCommand E False args o' t = Some (RepCount (int (length qs - length ps)), n, o2, t') \<and>
    zkey_rep E (Some o2) qs \<and> score_of qs = fold (\<lambda>p m. m(snd p \<mapsto> fst p)) args (score_of ps)"
proof -
  obtain o1 t1 where o1: "(case o' of
           None \<Rightarrow>
             (if zset_max_ziplist_entries E = 0 \<or> zset_max_ziplist_value E < length (snd (hd args))
              then createZsetObject E t else (createZsetZiplistObject, t))
         | Some o' \<Rightarrow> (o', t)) = (o1, t1)" "zset_rep E o1 ps"
    by (rule opened [OF assms(1,2)])
  obtain w n o2 t' qs where l: "zadd_loop E False args 0 0 0 o1 t1 = Some (True, w, 0 + (length qs - length ps), n, o2, t')"
    "zset_rep E o2 qs" "score_of qs = fold (\<lambda>p m. m(snd p \<mapsto> fst p)) args (score_of ps)"
    using zadd_loop_spec [OF assms(1) o1(2) assms(4,5)] by blast
  have "score_of qs (snd (hd args)) \<noteq> None" unfolding l(3) by (rule fold_defined) (simp add: assms(3))
  then have "zkey_rep E (Some o2) qs" using l(2) by (auto simp: zkey_rep_def)
  moreover have "zaddGenericCommand E False args o' t = Some (RepCount (int (length qs - length ps)), 0 + (length qs - length ps) + n, o2, t')"
    unfolding zaddGenericCommand_def o1(1) using l(1) by simp
  ultimately show ?thesis using l(3) by blast
qed

theorem zadd_correct_witness:
  "\<exists>n o2 t' qs. zaddGenericCommand (env1 1) False [(0, [97]), (1, [98]), (1, [97])] None 0 = Some (RepCount 2, n, o2, t') \<and>
    zkey_rep (env1 1) (Some o2) qs \<and> score_of qs = [[97] \<mapsto> 1, [98] \<mapsto> 1]"
proof -
  have k: "zkey_rep (env1 1) None []" by (simp add: zkey_rep_def)
  obtain n o2 t' qs where q: "zaddGenericCommand (env1 1) False [(0, [97]), (1, [98]), (1, [97])] None 0 = Some (RepCount (int (length qs)), n, o2, t')"
    "zkey_rep (env1 1) (Some o2) qs" "score_of qs = [[97] \<mapsto> 1, [98] \<mapsto> 1]"
    using zadd_correct [OF env1_ok k, where args = "[(0, [97]), (1, [98]), (1, [97])]" and t = 0] by (auto simp: fun_upd_twist)
  have "sset qs" using q(2) zset_rep_sset by (auto simp: zkey_rep_def)
  then have "length qs = 2" using length_scores [of qs] q(3) by (simp add: sset_def)
  then show ?thesis using q by auto
qed

text \<open>C12: ZINCRBY gives a new element the increment as its score and adds it to the score of
  an old one; a sum that is not a number is answered as such and leaves the set as it is.\<close>

theorem zincrby_correct:
  assumes "env_ok E" "zkey_rep E o' ps" "length ps < 4294967294" "length ob \<le> 536870912"
  shows "\<exists>n o2 t'.
    (case (case score_of ps ob of None \<Rightarrow> Some v | Some cur \<Rightarrow> dadd E v cur) of
       None \<Rightarrow> zaddGenericCommand E True [(v, ob)] o' t = Some (RepNan, n, o2, t') \<and> zset_rep E o2 ps
     | Some w \<Rightarrow> \<exists>qs. zaddGenericCommand E True [(v, ob)] o' t = Some (RepDouble w, n, o2, t') \<and>
         zset_rep E o2 qs \<and> score_of qs = (score_of ps)(ob \<mapsto> w))"
proof -
  obtain o1 t1 where o1: "(case o' of
           None \<Rightarrow>
             (if zset_max_ziplist_entries E = 0 \<or> zset_max_ziplist_value E < length (snd (hd [(v, ob)]))
              then createZsetObject E t else (createZsetZiplistObject, t))
         | Some o' \<Rightarrow> (o', t)) = (o1, t1)" "zset_rep E o1 ps"
    by (rule opened [OF assms(1,2)])
  obtain res w qs where r: "zadd_spec E True v ob ps = (res, w, qs)" by (cases "zadd_spec E True v ob ps")
  have "Suc (length ps) < U32" using assms(3) by simp
  then obtain o2 t2 where 1: "zadd_one E True v ob o1 t1 = Some (res, w, o2, t2)" "zset_rep E o2 qs"
    using zadd_one_spec [OF assms(1) o1(2) _ assms(4) r, of t1] by blast
  have run: "zaddGenericCommand E True [(v, ob)] o' t =
      Some (if res = ZNan then RepNan else RepDouble w, (if res = ZAdded \<or> res = ZUpdated then 1 else 0), o2, t2)"
    unfolding zaddGenericCommand_def o1(1) using 1(1) by (cases res) (simp_all add: Let_def)
  note sc = zadd_spec_scores(1,2) [OF r]
  show ?thesis
  proof (cases "case score_of ps ob of None \<Rightarrow> Some v | Some cur \<Rightarrow> dadd E v cur")
    case None
    then have "res = ZNan" using r by (auto simp: zadd_spec_def split: option.splits)
    then show ?thesis using None run 1(2) sc(2) by auto
  next
    case (Some x)
    then have "res \<noteq> ZNan" "w = x" using r by (auto simp: zadd_spec_def split: option.splits if_splits)
    then show ?thesis using Some run 1(2) sc(1) by auto
  qed
qed

theorem zincrby_correct_witness:
  "\<exists>o' n o2 t' qs. zset_rep (env1 0) o' [(1, [97])] \<and>
    zaddGenericCommand (env1 0) True [(1, [97])] (Some o') 0 = Some (RepDouble 0, n, o2, t') \<and>
    zset_rep (env1 0) o2 qs \<and> score_of qs = [[97] \<mapsto> 0]"
proof -
  obtain o' where o': "zset_rep (env1 0) o' [(1, [97])]"
    using set_exists [of 0 "[(1, [97])]"] by (auto simp: sset_def zsorted_def)
  then have k: "zkey_rep (env1 0) (Some o') [(1, [97])]" by (simp add: zkey_rep_def)
  have "dadd (env1 0) 1 1 = Some 0" by (simp add: env1_def)
  then obtain n o2 t' qs where "zaddGenericCommand (env1 0) True [(1, [97])] (Some o') 0 = Some (RepDouble 0, n, o2, t')"
    "zset_rep (env1 0) o2 qs" "score_of qs = [[97] \<mapsto> 0]"
    using zincrby_correct [OF env1_ok k, where ob = "[97]" and v = 1 and t = 0] by auto
  then show ?thesis using o' by blast
qed

text \<open>C13: ZREM removes exactly the given elements, counts those that were there, and the key
  goes with its last element.\<close>

theorem zrem_correct:
  assumes "env_ok E" "zkey_rep E (Some o') ps" "length ps < 4294967296"
  shows "\<exists>r. zremCommand E obs o' = Some (length ps - length (filter (\<lambda>p. snd p \<notin> set obs) ps), r) \<and>
    zkey_rep E r (filter (\<lambda>p. snd p \<notin> set obs) ps)"
  using zrem_spec [OF assms(1) _ assms(3), of o' obs] assms(2) by (simp add: zkey_rep_def)

theorem zrem_correct_witness:
  "\<exists>o' r. zset_rep (env1 0) o' [(0, [97]), (1, [98])] \<and> zremCommand (env1 0) [[98], [99], [98]] o' = Some (1, r) \<and>
    zkey_rep (env1 0) r [(0, [97])]"
proof -
  obtain o' where o': "zset_rep (env1 0) o' [(0, [97]), (1, [98])]"
    using set_exists [of 0 "[(0, [97]), (1, [98])]"] by (auto simp: sset_def zsorted_def zlt_def)
  then have k: "zkey_rep (env1 0) (Some o') [(0, [97]), (1, [98])]" by (simp add: zkey_rep_def)
  show ?thesis using zrem_correct [OF env1_ok k, where obs = "[[98], [99], [98]]"] o' by auto
qed

text \<open>C14: ZREMRANGEBYRANK, ZREMRANGEBYSCORE and ZREMRANGEBYLEX remove exactly the elements of
  the range and answer their number; the key goes with its last element.  A range of ranks
  holds the places from one index to the other, \<open>-k\<close> being the \<open>k\<close>-th from the end.  A range
  of strings is for elements of one score and not one of the bounds the code mistakes for an
  empty range.\<close>

theorem zremrange_correct:
  assumes "env_ok E" "zkey_rep E (Some o') ps" "length ps < 4294967296" "range_ok rg ps"
  shows "\<exists>r. zremrangeGenericCommand E rg o' = Some (length ps - length (out_of rg ps), r) \<and> zkey_rep E r (out_of rg ps)"
  using zremrange_spec [OF assms(1) _ assms(3) _ assms(4), of o'] assms(2) by (simp add: zkey_rep_def)

theorem zremrange_correct_witness:
  "\<exists>o' r. zset_rep (env1 9) o' [(0, [97]), (1, [98]), (1, [99])] \<and>
    zremrangeGenericCommand (env1 9) (ZrangeRank (- 2) 7) o' = Some (2, r) \<and> zkey_rep (env1 9) r [(0, [97])]"
proof -
  let ?ps = "[(0, [97]), (1, [98]), (1 :: 1 word, [99])]"
  obtain o' where o': "zset_rep (env1 9) o' ?ps"
    using set_exists [of 9 ?ps] by (auto simp: sset_def zsorted_def zlt_def)
  then have k: "zkey_rep (env1 9) (Some o') ?ps" by (simp add: zkey_rep_def)
  have "out_of (ZrangeRank (- 2) 7) ?ps = [(0, [97])]"
    by (simp add: out_of_def in_ranks_def rank_pos_def nths_Cons)
  then show ?thesis using zremrange_correct [OF env1_ok k, where rg = "ZrangeRank (- 2) 7"] o' by (auto simp: range_ok_def)
qed

text \<open>C15: ZSCORE and ZRANK answer the same in both encodings: the score of the element, and its
  place from either end of the ordered list.\<close>

theorem zset_reads_agree:
  assumes "env_ok E" "zset_rep E (ZsetZiplist zl) ps" "zset_rep E (ZsetSkiplist zs) ps" "ps \<noteq> []" "length ps < 4294967296"
  shows "zscoreCommand E ob (ZsetZiplist zl) = Some (case score_of ps ob of None \<Rightarrow> RepNil | Some v \<Rightarrow> RepDouble v)
    \<and> zscoreCommand E ob (ZsetSkiplist zs) = zscoreCommand E ob (ZsetZiplist zl)
    \<and> map_option fst (zrankGenericCommand reverse ob (ZsetZiplist zl)) = Some (rank_answer reverse ps ob)
    \<and> map_option fst (zrankGenericCommand reverse ob (ZsetSkiplist zs)) = map_option fst (zrankGenericCommand reverse ob (ZsetZiplist zl))"
  using zscore_spec [OF assms(1,2), of ob] zscore_spec [OF assms(1,3), of ob]
    zrank_spec [OF assms(2,5,4), of reverse ob] zrank_spec [OF assms(3,5,4), of reverse ob] by auto

theorem zset_reads_agree_witness:
  "\<exists>zl zs. zset_rep (env1 9) (ZsetZiplist zl) [(1, [97])] \<and> zset_rep (env1 9) (ZsetSkiplist zs) [(1, [97])] \<and>
    zscoreCommand (env1 9) [97] (ZsetSkiplist zs) = Some (RepDouble 1) \<and>
    map_option fst (zrankGenericCommand True [97] (ZsetZiplist zl :: 1 word zsetobj)) = Some (RepCount 0)"
proof -
  have env: "env_ok (env1 9)" by (rule env1_ok) simp
  then have tx: "text_ok (env1 9)" by (rule env_text_ok)
  have s: "sset [(1 :: 1 word, [97])]" by (simp add: sset_def zsorted_def)
  have i: "zins 1 [97] [] = [(1 :: 1 word, [97])]" by (simp add: zins_def)
  obtain zl es where zl: "zz_ok (env1 9) zl es [(1, [97])]"
    using zzlInsert_spec [OF zz_ok_new _ tx, of "[97]" 1] i by (auto simp: room_def)
  then have z1: "zset_rep (env1 9) (ZsetZiplist zl) [(1, [97])]" using s by (auto simp: zset_rep_def)
  have "Suc (length [(1 :: 1 word, [97 :: u8])]) < U32" by simp
  then obtain zs t' es' where "zs_ok zs es'" "zkeys es' = [(1 :: 1 word, [97])]"
    using zsetConvert_spec [OF env zz_okD(1) [OF zl] s, of 0] by auto
  then have z2: "zset_rep (env1 9) (ZsetSkiplist zs) [(1, [97])]" by (force simp: zset_rep_def)
  have "rank_answer True [(1 :: 1 word, [97])] [97] = (RepCount 0 :: 1 word zreply)"
    by (simp add: rank_answer_def place_of_def stop_at_def)
  then have "zscoreCommand (env1 9) [97] (ZsetSkiplist zs) = Some (RepDouble 1) \<and>
      map_option fst (zrankGenericCommand True [97] (ZsetZiplist zl :: 1 word zsetobj)) = Some (RepCount 0)"
    using zset_reads_agree [OF env z1 z2, where ob = "[97]" and reverse = True] by simp
  then show ?thesis using z1 z2 by blast
qed

end
