(* ===== verification/ZsetQueries.thy ===== *)
theory ZsetQueries
  imports ZsetCommands
begin

text \<open>
  \<open>t_zset.c\<close>, the queries for ranges of a sorted set: by rank, by score and by string, forwards
  and backwards, and the counts of ranges.  A reply of several items is its announced length
  with the items.
\<close>

section \<open>Positions\<close>

text \<open>A position in a ziplist is the pointer to an element with the one to its score, in a skip
  list the address of a node; \<open>None\<close> is a null pointer.\<close>

datatype 's zitem = ItemBulk bytes | ItemDouble 's

definition zz_move :: "bool \<Rightarrow> bytes \<Rightarrow> nat \<times> nat \<Rightarrow> (nat \<times> nat) option option" where
  "zz_move reverse zl pos =
    do {
      (e, s) \<leftarrow> (if reverse then zzlPrev zl (fst pos) else zzlNext zl (snd pos));
      Some (case (e, s) of (Some e, Some s) \<Rightarrow> Some (e, s) | _ \<Rightarrow> None)
    }"

definition zz_item :: "'s zenv \<Rightarrow> bool \<Rightarrow> bytes \<Rightarrow> nat \<times> nat \<Rightarrow> 's zitem list option" where
  "zz_item E withscores zl pos =
    do {
      ele \<leftarrow> ziplistGetObject zl (fst pos);
      if withscores then do { score \<leftarrow> zzlGetScore E zl (snd pos); Some [ItemBulk ele, ItemDouble score] }
      else Some [ItemBulk ele]
    }"

definition zs_move :: "bool \<Rightarrow> 's zskiplist \<Rightarrow> nat \<Rightarrow> nat option option" where
  "zs_move reverse z a =
    (if reverse then do { n \<leftarrow> znodes z a; Some (backward n) } else do { (f, sp) \<leftarrow> slot z a 0; Some f })"

definition zs_item :: "bool \<Rightarrow> 's zskiplist \<Rightarrow> nat \<Rightarrow> 's zitem list option" where
  "zs_item withscores z a =
    do {
      n \<leftarrow> znodes z a;
      ele \<leftarrow> zobj n;
      Some (if withscores then [ItemBulk ele, ItemDouble (zscore n)] else [ItemBulk ele])
    }"

section \<open>Loops\<close>

text \<open>The loops are the same for both kinds of positions and for both directions.\<close>

primrec range_loop :: "('p \<Rightarrow> 'p option option) \<Rightarrow> ('p \<Rightarrow> 's zitem list option) \<Rightarrow> 'p option \<Rightarrow> nat \<Rightarrow> 's zitem list option" where
  "range_loop move item pos 0 = Some []"
| "range_loop move item pos (Suc n) =
    do {
      p \<leftarrow> pos;
      is \<leftarrow> item p;
      q \<leftarrow> move p;
      js \<leftarrow> range_loop move item q n;
      Some (is @ js)
    }"

text \<open>A negative offset or limit is counted down from, so it never gets to 0.\<close>

partial_function (option) skip_loop :: "('p \<Rightarrow> 'p option option) \<Rightarrow> 'p option \<Rightarrow> int \<Rightarrow> 'p option option" where
  "skip_loop move pos offset =
    (case pos of
       None \<Rightarrow> Some None
     | Some p \<Rightarrow>
         if offset = 0 then Some pos
         else do { q \<leftarrow> move p; skip_loop move q (offset - 1) })"

partial_function (option) emit_loop ::
    "('p \<Rightarrow> 'p option option) \<Rightarrow> ('p \<Rightarrow> bool option) \<Rightarrow> ('p \<Rightarrow> 's zitem list option) \<Rightarrow> 'p option \<Rightarrow> int
      \<Rightarrow> (nat \<times> 's zitem list) option" where
  "emit_loop move test item pos limit =
    (case pos of
       None \<Rightarrow> Some (0, [])
     | Some p \<Rightarrow>
         if limit = 0 then Some (0, [])
         else do {
           ok \<leftarrow> test p;
           if \<not> ok then Some (0, [])
           else do {
             is \<leftarrow> item p;
             q \<leftarrow> move p;
             (n, js) \<leftarrow> emit_loop move test item q (limit - 1);
             Some (n + 1, is @ js)
           }
         })"

definition reply_from ::
    "('p \<Rightarrow> 'p option option) \<Rightarrow> ('p \<Rightarrow> bool option) \<Rightarrow> ('p \<Rightarrow> 's zitem list option) \<Rightarrow> int \<Rightarrow> int \<Rightarrow> 'p option
      \<Rightarrow> (nat \<times> 's zitem list) option" where
  "reply_from move test item offset limit first =
    (case first of
       None \<Rightarrow> Some (0, [])
     | Some p \<Rightarrow> do {
         pos \<leftarrow> skip_loop move (Some p) offset;
         emit_loop move test item pos limit
       })"

partial_function (option) count_loop :: "('p \<Rightarrow> 'p option option) \<Rightarrow> ('p \<Rightarrow> bool option) \<Rightarrow> 'p option \<Rightarrow> nat option" where
  "count_loop move test pos =
    (case pos of
       None \<Rightarrow> Some 0
     | Some p \<Rightarrow> do {
         ok \<leftarrow> test p;
         if \<not> ok then Some 0 else do { q \<leftarrow> move p; n \<leftarrow> count_loop move test q; Some (n + 1) }
       })"

section \<open>ZRANGE and ZREVRANGE\<close>

text \<open>Conversion to the 32 bits of an \<open>int\<close>.\<close>

definition s32 :: "int \<Rightarrow> int" where
  "s32 x = (x + 2147483648) mod 4294967296 - 2147483648"

definition zz_start :: "bytes \<Rightarrow> nat option \<Rightarrow> (nat \<times> nat) option option" where
  "zz_start zl eptr =
    (case eptr of None \<Rightarrow> Some None | Some e \<Rightarrow> do { s \<leftarrow> ziplistNext zl e; s \<leftarrow> s; Some (Some (e, s)) })"

definition zrange_walk ::
    "'s::linorder zenv \<Rightarrow> bool \<Rightarrow> int \<Rightarrow> int \<Rightarrow> bool \<Rightarrow> int \<Rightarrow> 's zsetobj \<Rightarrow> 's zitem list option" where
  "zrange_walk E reverse start llen withscores rangelen o' =
    (case o' of
       ZsetZiplist zl \<Rightarrow> do {
         eptr \<leftarrow> ziplistIndex zl (s32 (if reverse then - 2 - 2 * start else 2 * start));
         eptr \<leftarrow> eptr;
         pos \<leftarrow> zz_start zl (Some eptr);
         range_loop (zz_move reverse zl) (zz_item E withscores zl) pos (nat rangelen)
       }
     | ZsetSkiplist zs \<Rightarrow> do {
         ln \<leftarrow>
           (if reverse then
              (if start > 0 then zslGetElementByRank (nat (llen - start)) (zsl zs) else Some (tail (zsl zs)))
            else
              (if start > 0 then zslGetElementByRank (nat (start + 1)) (zsl zs)
               else do { (f, sp) \<leftarrow> slot (zsl zs) (header (zsl zs)) 0; Some f }));
         range_loop (zs_move reverse (zsl zs)) (zs_item withscores (zsl zs)) ln (nat rangelen)
       })"

definition zrangeGenericCommand ::
    "'s::linorder zenv \<Rightarrow> bool \<Rightarrow> int \<Rightarrow> int \<Rightarrow> bool \<Rightarrow> 's zsetobj \<Rightarrow> (int \<times> 's zitem list \<times> 's zsetobj) option" where
  "zrangeGenericCommand E reverse start end' withscores o' =
    do {
      (n, o') \<leftarrow> zsetLength o';
      let llen = s32 (int n);
      (case sanitize_ranks llen start end' of
         None \<Rightarrow> Some (0, [], o')
       | Some (start, end') \<Rightarrow> do {
           let rangelen = s32 (end' - start + 1);
           items \<leftarrow> zrange_walk E reverse start llen withscores rangelen o';
           Some (s32 (if withscores then rangelen * 2 else rangelen), items, o')
         })
    }"

section \<open>ZRANGEBYSCORE, ZRANGEBYLEX and the reverse ones\<close>

definition genericZrangebyscoreCommand ::
    "'s::linorder zenv \<Rightarrow> bool \<Rightarrow> 's zrangespec \<Rightarrow> int \<Rightarrow> int \<Rightarrow> bool \<Rightarrow> 's zsetobj \<Rightarrow> (nat \<times> 's zitem list) option" where
  "genericZrangebyscoreCommand E reverse r offset limit withscores o' =
    do {
      let stay = (\<lambda>score. if reverse then zslValueGteMin score r else zslValueLteMax score r);
      (rangelen, items) \<leftarrow>
        (case o' of
           ZsetZiplist zl \<Rightarrow> do {
             eptr \<leftarrow> (if reverse then zzlLastInRange E r zl else zzlFirstInRange E r zl);
             first \<leftarrow> zz_start zl eptr;
             reply_from (zz_move reverse zl) (\<lambda>p. do { score \<leftarrow> zzlGetScore E zl (snd p); Some (stay score) })
               (zz_item E withscores zl) offset limit first
           }
         | ZsetSkiplist zs \<Rightarrow> do {
             first \<leftarrow> (if reverse then zslLastInRange r (zsl zs) else zslFirstInRange r (zsl zs));
             reply_from (zs_move reverse (zsl zs)) (\<lambda>a. do { n \<leftarrow> znodes (zsl zs) a; Some (stay (zscore n)) })
               (zs_item withscores (zsl zs)) offset limit first
           });
      Some (if withscores then rangelen * 2 else rangelen, items)
    }"

definition genericZrangebylexCommand ::
    "'s::linorder zenv \<Rightarrow> bool \<Rightarrow> zlexrangespec \<Rightarrow> int \<Rightarrow> int \<Rightarrow> 's zsetobj \<Rightarrow> (nat \<times> 's zitem list) option" where
  "genericZrangebylexCommand E reverse r offset limit o' =
    (case o' of
       ZsetZiplist zl \<Rightarrow> do {
         eptr \<leftarrow> (if reverse then zzlLastInLexRange r zl else zzlFirstInLexRange r zl);
         first \<leftarrow> zz_start zl eptr;
         reply_from (zz_move reverse zl) (\<lambda>p. if reverse then zzlLexValueGteMin zl (fst p) r else zzlLexValueLteMax zl (fst p) r)
           (zz_item E False zl) offset limit first
       }
     | ZsetSkiplist zs \<Rightarrow> do {
         first \<leftarrow> (if reverse then zslLastInLexRange r (zsl zs) else zslFirstInLexRange r (zsl zs));
         reply_from (zs_move reverse (zsl zs))
           (\<lambda>a. do { n \<leftarrow> znodes (zsl zs) a; ob \<leftarrow> zobj n; Some (if reverse then zslLexValueGteMin ob r else zslLexValueLteMax ob r) })
           (zs_item False (zsl zs)) offset limit first
       })"

section \<open>ZCOUNT, ZLEXCOUNT and ZCARD\<close>

text \<open>The count of a range of a skip list, from the ranks of its ends, in an \<open>int\<close> and unsigned
  64-bit arithmetic.\<close>

definition zn_rank :: "'s::linorder zskiplist \<Rightarrow> nat \<Rightarrow> nat option" where
  "zn_rank z a = do { n \<leftarrow> znodes z a; ob \<leftarrow> zobj n; zslGetRank (zscore n) ob z }"

definition rank_count :: "'s::linorder zskiplist \<Rightarrow> nat option option \<Rightarrow> nat option option \<Rightarrow> int option" where
  "rank_count z first last' =
    do {
      zn \<leftarrow> first;
      (case zn of
         None \<Rightarrow> Some 0
       | Some a \<Rightarrow> do {
           rank \<leftarrow> zn_rank z a;
           let count = s32 (int (usub U64 (zlength z) (usub U64 rank 1)));
           zn \<leftarrow> last';
           (case zn of
              None \<Rightarrow> Some count
            | Some a \<Rightarrow> do { rank \<leftarrow> zn_rank z a; Some (s32 (count - int (usub U64 (zlength z) rank))) })
         })
    }"

definition zcountCommand :: "'s::linorder zenv \<Rightarrow> 's zrangespec \<Rightarrow> 's zsetobj \<Rightarrow> 's zreply option" where
  "zcountCommand E r o' =
    (case o' of
       ZsetZiplist zl \<Rightarrow> do {
         eptr \<leftarrow> zzlFirstInRange E r zl;
         first \<leftarrow> zz_start zl eptr;
         (case first of
            None \<Rightarrow> Some (RepCount 0)
          | Some p \<Rightarrow> do {
              score \<leftarrow> zzlGetScore E zl (snd p);
              if \<not> zslValueLteMax score r then None
              else do {
                n \<leftarrow> count_loop (zz_move False zl) (\<lambda>p. do { score \<leftarrow> zzlGetScore E zl (snd p); Some (zslValueLteMax score r) }) (Some p);
                Some (RepCount (s32 (int n)))
              }
            })
       }
     | ZsetSkiplist zs \<Rightarrow> do {
         count \<leftarrow> rank_count (zsl zs) (zslFirstInRange r (zsl zs)) (zslLastInRange r (zsl zs));
         Some (RepCount count)
       })"

definition zlexcountCommand :: "zlexrangespec \<Rightarrow> 's::linorder zsetobj \<Rightarrow> 's zreply option" where
  "zlexcountCommand r o' =
    (case o' of
       ZsetZiplist zl \<Rightarrow> do {
         eptr \<leftarrow> zzlFirstInLexRange r zl;
         first \<leftarrow> zz_start zl eptr;
         (case first of
            None \<Rightarrow> Some (RepCount 0)
          | Some p \<Rightarrow> do {
              ok \<leftarrow> zzlLexValueLteMax zl (fst p) r;
              if \<not> ok then None
              else do {
                n \<leftarrow> count_loop (zz_move False zl) (\<lambda>p. zzlLexValueLteMax zl (fst p) r) (Some p);
                Some (RepCount (s32 (int n)))
              }
            })
       }
     | ZsetSkiplist zs \<Rightarrow> do {
         count \<leftarrow> rank_count (zsl zs) (zslFirstInLexRange r (zsl zs)) (zslLastInLexRange r (zsl zs));
         Some (RepCount count)
       })"

definition zcardCommand :: "'s zsetobj \<Rightarrow> ('s zreply \<times> 's zsetobj) option" where
  "zcardCommand o' = do { (n, o') \<leftarrow> zsetLength o'; Some (RepCount (int n), o') }"

text \<open>The partial functions are executable.\<close>

declare
  skip_loop.simps [code]
  emit_loop.simps [code]
  count_loop.simps [code]

end
