(* ===== verification/ZsetTracks.thy ===== *)
theory ZsetTracks
  imports ZsetQueries ZsetReads
begin

text \<open>
  Walks over a sorted set.  The positions of a walk, in either encoding and direction, form a
  track: a list along which \<open>move\<close> goes.  The loops of the queries are stated over tracks.
\<close>

section \<open>Tracks\<close>

definition track :: "('p \<Rightarrow> 'p option option) \<Rightarrow> 'p list \<Rightarrow> bool" where
  "track move P \<longleftrightarrow> (\<forall>i < length P. move (P ! i) = Some (if Suc i < length P then Some (P ! Suc i) else None))"

definition pos_at :: "'p list \<Rightarrow> nat \<Rightarrow> 'p option" where
  "pos_at P i = (if i < length P then Some (P ! i) else None)"

lemma pos_at_simps [simp]: "length P \<le> i \<Longrightarrow> pos_at P i = None" "i < length P \<Longrightarrow> pos_at P i = Some (P ! i)"
  by (simp_all add: pos_at_def)

lemma track_move: "track move P \<Longrightarrow> i < length P \<Longrightarrow> move (P ! i) = Some (pos_at P (Suc i))"
  by (simp add: track_def pos_at_def)

definition limited :: "int \<Rightarrow> 'a list \<Rightarrow> 'a list" where
  "limited limit xs = (if limit < 0 then xs else take (nat limit) xs)"

definition clip :: "int \<Rightarrow> int \<Rightarrow> 'a list \<Rightarrow> 'a list" where
  "clip offset limit xs = (if offset < 0 then [] else limited limit (drop (nat offset) xs))"

lemma limited_simps [simp]: "limited limit [] = []" "limit \<noteq> 0 \<Longrightarrow> limited limit (x # xs) = x # limited (limit - 1) xs" "limited 0 xs = []"
proof -
  assume "limit \<noteq> 0"
  show "limited limit (x # xs) = x # limited (limit - 1) xs"
  proof (cases "limit < 0")
    case False
    then have "nat limit = Suc (nat (limit - 1))" using \<open>limit \<noteq> 0\<close> by linarith
    then show ?thesis using False \<open>limit \<noteq> 0\<close> by (simp add: limited_def)
  qed (simp add: limited_def)
qed (simp_all add: limited_def)

lemma clip_Nil [simp]: "clip offset limit [] = []"
  by (simp add: clip_def)

lemma skip_loop_at:
  assumes t: "track move P"
  shows "skip_loop move (pos_at P i) offset = Some (if offset < 0 then None else pos_at P (i + nat offset))"
proof (induction i arbitrary: offset rule: ahead_induct [where n = "length P"])
  case (beyond i)
  then show ?case by (subst skip_loop.simps) simp
next
  case (step i)
  have "offset \<noteq> 0 \<Longrightarrow> \<not> offset < 0 \<Longrightarrow> nat offset = Suc (nat (offset - 1))" by linarith
  then show ?case using step track_move [OF t step(1)] by (subst skip_loop.simps) auto
qed

lemma emit_loop_at:
  assumes t: "track move P" and len: "length vs = length P"
    and test: "\<And>i. i < length P \<Longrightarrow> test (P ! i) = Some (T (vs ! i))" and item: "\<And>i. i < length P \<Longrightarrow> item (P ! i) = Some (f (vs ! i))"
  shows "emit_loop move test item (pos_at P i) limit =
    (let xs = limited limit (takeWhile T (drop i vs)) in Some (length xs, concat (map f xs)))"
proof (induction i arbitrary: limit rule: ahead_induct [where n = "length P"])
  case (beyond i)
  then show ?case using len by (subst emit_loop.simps) simp
next
  case (step i)
  have d: "drop i vs = vs ! i # drop (Suc i) vs" using step(1) len by (simp add: Cons_nth_drop_Suc)
  show ?case
    using step test [OF step(1)] item [OF step(1)] track_move [OF t step(1)]
    by (cases "limit = 0") (subst emit_loop.simps, simp add: d Let_def)+
qed

lemma count_loop_at:
  assumes t: "track move P" and len: "length vs = length P"
    and test: "\<And>i. i < length P \<Longrightarrow> test (P ! i) = Some (T (vs ! i))"
  shows "count_loop move test (pos_at P i) = Some (length (takeWhile T (drop i vs)))"
proof (induction i rule: ahead_induct [where n = "length P"])
  case (beyond i)
  then show ?case using len by (subst count_loop.simps) simp
next
  case (step i)
  have d: "drop i vs = vs ! i # drop (Suc i) vs" using step(1) len by (simp add: Cons_nth_drop_Suc)
  show ?case using step test [OF step(1)] track_move [OF t step(1)] by (subst count_loop.simps) (simp add: d)
qed

lemma range_loop_at:
  assumes t: "track move P" and len: "length vs = length P"
    and item: "\<And>i. i < length P \<Longrightarrow> item (P ! i) = Some (f (vs ! i))"
  shows "i + n \<le> length P \<Longrightarrow> range_loop move item (pos_at P i) n = Some (concat (map f (take n (drop i vs))))"
proof (induction n arbitrary: i)
  case (Suc n)
  then have i: "i < length P" by simp
  have d: "drop i vs = vs ! i # drop (Suc i) vs" using i len by (simp add: Cons_nth_drop_Suc)
  show ?case using Suc.IH [of "Suc i"] Suc.prems item [OF i] track_move [OF t i] i by (simp add: d)
qed simp

text \<open>A condition that holds up to some place only.\<close>

definition downward :: "('a \<Rightarrow> bool) \<Rightarrow> 'a list \<Rightarrow> bool" where
  "downward T vs \<longleftrightarrow> sorted_wrt (\<lambda>x y. T y \<longrightarrow> T x) vs"

definition upward :: "('a \<Rightarrow> bool) \<Rightarrow> 'a list \<Rightarrow> bool" where
  "upward T vs \<longleftrightarrow> sorted_wrt (\<lambda>x y. T x \<longrightarrow> T y) vs"

lemma upward_rev: "upward T vs \<Longrightarrow> downward T (rev vs)" "downward T vs \<Longrightarrow> upward T (rev vs)"
  by (simp_all add: upward_def downward_def sorted_wrt_rev)

lemma upwardD: "upward T vs \<Longrightarrow> i < j \<Longrightarrow> j < length vs \<Longrightarrow> T (vs ! i) \<Longrightarrow> T (vs ! j)"
  unfolding upward_def using sorted_wrt_nth_less by blast

lemma downwardD: "downward T vs \<Longrightarrow> i < j \<Longrightarrow> j < length vs \<Longrightarrow> T (vs ! j) \<Longrightarrow> T (vs ! i)"
  unfolding downward_def using sorted_wrt_nth_less by blast

lemma takeWhile_drop:
  assumes "downward T vs"
  shows "takeWhile T (drop (k + n) vs) = drop n (takeWhile T (drop k vs))"
proof -
  have tw: "takeWhile T (drop n xs) = drop n (takeWhile T xs)" if "sorted_wrt (\<lambda>x y. T y \<longrightarrow> T x) xs" for n xs
    using that
  proof (induction xs arbitrary: n)
    case (Cons x xs)
    show ?case
    proof (cases n)
      case (Suc m)
      have "takeWhile T (drop m xs) = []" if "\<not> T x"
        using that Cons.prems by (cases "drop m xs") (auto dest!: in_set_dropD [where n = m, OF subst [where P = "\<lambda>zs. _ \<in> set zs", OF sym]])
      then show ?thesis using Suc Cons by auto
    qed simp
  qed simp
  have "sorted_wrt (\<lambda>x y. T y \<longrightarrow> T x) (drop k vs)"
    using assms sorted_wrt_drop unfolding downward_def by blast
  moreover have "takeWhile T (drop (k + n) vs) = takeWhile T (drop n (drop k vs))" by (simp add: add.commute)
  ultimately show ?thesis using tw by metis
qed

lemma range_from:
  assumes up: "upward G vs" and down: "downward L vs" and k: "stop_at (\<lambda>p. G p \<and> L p) vs 0 = Some k"
  shows "filter (\<lambda>p. G p \<and> L p) vs = takeWhile L (drop k vs)" "k < length vs"
  by (rule range_filter(2,1) [OF upwardD [OF up] downwardD [OF down] k]; assumption)+

text \<open>The reply to a query for a range, on any track.\<close>

lemma reply_at:
  assumes t: "track move P" and len: "length vs = length P"
    and test: "\<And>i. i < length P \<Longrightarrow> test (P ! i) = Some (L (vs ! i))" and item: "\<And>i. i < length P \<Longrightarrow> item (P ! i) = Some (f (vs ! i))"
    and up: "upward G vs" and down: "downward L vs"
  shows "reply_from move test item offset limit (map_option ((!) P) (stop_at (\<lambda>p. G p \<and> L p) vs 0)) =
    (let xs = clip offset limit (filter (\<lambda>p. G p \<and> L p) vs) in Some (length xs, concat (map f xs)))"
proof (cases "stop_at (\<lambda>p. G p \<and> L p) vs 0")
  case None
  then have "filter (\<lambda>p. G p \<and> L p) vs = []" by (simp add: stop_at_None filter_empty_conv)
  then show ?thesis using None by (simp add: reply_from_def)
next
  case (Some k)
  note r = range_from [OF up down Some]
  have p: "Some (P ! k) = pos_at P k" using r(2) len by simp
  have s: "skip_loop move (Some (P ! k)) offset = Some (if offset < 0 then None else pos_at P (k + nat offset))"
    unfolding p by (rule skip_loop_at [OF t])
  have e: "emit_loop move test item (pos_at P i) limit =
    (let xs = limited limit (takeWhile L (drop i vs)) in Some (length xs, concat (map f xs)))" for i
    by (rule emit_loop_at [OF t len]) (use test item in simp_all)
  show ?thesis
  proof (cases "offset < 0")
    case True
    then show ?thesis using Some s by (simp add: reply_from_def clip_def) (subst emit_loop.simps, simp)
  next
    case False
    then show ?thesis
      using Some s e [of "k + nat offset"]
      by (simp add: reply_from_def clip_def r(1) takeWhile_drop [OF down])
  qed
qed

end
