(* ===== verification/ZsetQuerySpec.thy ===== *)
theory ZsetQuerySpec
  imports ZsetTracks
begin

text \<open>
  The tracks of the two encodings, the ends of ranges as places on a track, and the queries
  as operations on the list of pairs.
\<close>

section \<open>The tracks of a sorted set\<close>

definition walk :: "bool \<Rightarrow> 'a list \<Rightarrow> 'a list" where
  "walk reverse xs = (if reverse then rev xs else xs)"

definition places :: "zraw list \<Rightarrow> 'a list \<Rightarrow> (nat \<times> nat) list" where
  "places es ps = map (\<lambda>j. (eptr es j, sptr es j)) [0..<length ps]"

lemma places_simps [simp]: "length (places es ps) = length ps" "j < length ps \<Longrightarrow> places es ps ! j = (eptr es j, sptr es j)"
  by (simp_all add: places_def)

lemma walk_simps [simp]: "length (walk reverse xs) = length xs" "walk False xs = xs" "walk True xs = rev xs" "walk reverse [] = []"
  by (simp_all add: walk_def)

definition turn :: "bool \<Rightarrow> nat \<Rightarrow> nat \<Rightarrow> nat" where
  "turn reverse n i = (if reverse then n - Suc i else i)"

lemma walk_nth: "i < length xs \<Longrightarrow> walk reverse xs ! i = xs ! turn reverse (length xs) i"
  by (simp add: walk_def turn_def rev_nth)

lemma turn_less [simp]: "i < n \<Longrightarrow> turn reverse n i < n"
  by (simp add: turn_def)

lemma zz_track:
  assumes b: "zz_block E zl es ps"
  shows "track (zz_move reverse zl) (walk reverse (places es ps))"
  unfolding track_def
proof (intro allI impI)
  fix i
  assume "i < length (walk reverse (places es ps))"
  then have i: "i < length ps" by simp
  let ?j = "turn reverse (length ps) i"
  have j: "?j < length ps" using i by simp
  have e: "walk reverse (places es ps) ! i = (eptr es ?j, sptr es ?j)" using i by (simp add: walk_nth)
  show "zz_move reverse zl (walk reverse (places es ps) ! i) =
      Some (if Suc i < length (walk reverse (places es ps)) then Some (walk reverse (places es ps) ! Suc i) else None)"
  proof (cases reverse)
    case False
    then show ?thesis using i e zzlNext_at [OF b i] by (simp add: zz_move_def turn_def at_pair_def at_score_def)
  next
    case True
    have p: "ziplistPrev zl (eptr es ?j) = Some (if ?j = 0 then None else Some (sptr es (?j - 1)))" by (rule zz_prev(1) [OF b j])
    show ?thesis
    proof (cases "Suc i < length ps")
      case False
      then have "?j = 0" using True i by (simp add: turn_def)
      then show ?thesis using True False e p by (simp add: zz_move_def zzlPrev_def)
    next
      case s: True
      then have "?j \<noteq> 0" "?j - 1 = turn reverse (length ps) (Suc i)" using True by (simp_all add: turn_def)
      moreover have "?j - 1 < length ps" using j by simp
      ultimately show ?thesis using True s e p zz_prev(2) [OF b, of "?j - 1"] by (simp add: zz_move_def zzlPrev_def rev_nth turn_def)
    qed
  qed
qed

lemma zs_track:
  assumes rep: "zsl_rep z es"
  shows "track (zs_move reverse z) (walk reverse (map e_addr es))"
  unfolding track_def
proof (intro allI impI)
  fix i
  assume "i < length (walk reverse (map e_addr es))"
  then have i: "i < length es" by simp
  let ?j = "turn reverse (length es) i"
  have j: "?j < length es" using i by simp
  have e: "walk reverse (map e_addr es) ! i = e_addr (es ! ?j)" using i by (simp add: walk_nth)
  obtain n where n: "znodes z (e_addr (es ! ?j)) = Some n" using node_of [OF rep j] by blast
  have f: "\<exists>sp. slot z (e_addr (es ! ?j)) 0 = Some (if Suc ?j < length es then Some (e_addr (es ! Suc ?j)) else None, sp)"
    using zsl_rep_slot0 [OF rep, of "Suc ?j"] j by (auto simp: paddr_def)
  have "bwd z (e_addr (es ! ?j)) = Some (if ?j = 0 then None else Some (e_addr (es ! (?j - 1))))"
    using zsl_repD(6) [OF rep, of "Suc ?j"] j by (auto simp: paddr_def)
  then have bw: "backward n = (if ?j = 0 then None else Some (e_addr (es ! (?j - 1))))" using n by (simp add: bwd_def)
  show "zs_move reverse z (walk reverse (map e_addr es) ! i) =
      Some (if Suc i < length (walk reverse (map e_addr es)) then Some (walk reverse (map e_addr es) ! Suc i) else None)"
  proof (cases reverse)
    case False
    then show ?thesis using i e f by (auto simp: zs_move_def turn_def)
  next
    case True
    have "?j = 0 \<longleftrightarrow> \<not> Suc i < length es" "Suc i < length es \<Longrightarrow> ?j - 1 = turn reverse (length es) (Suc i)"
      using True i by (auto simp: turn_def)
    then show ?thesis using True e n bw walk_nth [of "Suc i" "map e_addr es" reverse] by (auto simp: zs_move_def)
  qed
qed

text \<open>What is read at a place.\<close>

definition item_of :: "bool \<Rightarrow> 's \<times> bytes \<Rightarrow> 's zitem list" where
  "item_of withscores p = ItemBulk (snd p) # (if withscores then [ItemDouble (fst p)] else [])"

lemma zz_at:
  assumes b: "zz_block E zl es ps" and tx: "text_ok E" and i: "i < length (walk reverse (places es ps))"
  shows "zz_item E withscores zl (walk reverse (places es ps) ! i) = Some (item_of withscores (walk reverse ps ! i))"
    "zzlGetScore E zl (snd (walk reverse (places es ps) ! i)) = Some (fst (walk reverse ps ! i))"
    "ziplistGetObject zl (fst (walk reverse (places es ps) ! i)) = Some (snd (walk reverse ps ! i))"
proof -
  let ?j = "turn reverse (length ps) i"
  have j: "?j < length ps" using i by simp
  have e: "walk reverse (places es ps) ! i = (eptr es ?j, sptr es ?j)" "walk reverse ps ! i = ps ! ?j"
    using i by (simp_all add: walk_nth)
  show "zz_item E withscores zl (walk reverse (places es ps) ! i) = Some (item_of withscores (walk reverse ps ! i))"
    "zzlGetScore E zl (snd (walk reverse (places es ps) ! i)) = Some (fst (walk reverse ps ! i))"
    "ziplistGetObject zl (fst (walk reverse (places es ps) ! i)) = Some (snd (walk reverse ps ! i))"
    using zz_read(1) [OF b j] zz_read(4) [OF b j tx] by (simp_all add: e zz_item_def item_of_def)
qed

lemma zs_at:
  assumes rep: "zsl_rep z es" and i: "i < length (walk reverse (map e_addr es))"
  obtains n where "znodes z (walk reverse (map e_addr es) ! i) = Some n" "zobj n = Some (snd (walk reverse (zkeys es) ! i))"
    "zscore n = fst (walk reverse (zkeys es) ! i)"
proof -
  let ?j = "turn reverse (length es) i"
  have j: "?j < length es" using i by simp
  have e: "walk reverse (map e_addr es) ! i = e_addr (es ! ?j)" "walk reverse (zkeys es) ! i = (e_score (es ! ?j), e_obj (es ! ?j))"
    using i j by (simp_all add: walk_nth zkeys_def)
  show thesis using that node_of [OF rep j] by (auto simp: e)
qed

lemma zs_item_at:
  assumes "zsl_rep z es" "i < length (walk reverse (map e_addr es))"
  shows "zs_item withscores z (walk reverse (map e_addr es) ! i) = Some (item_of withscores (walk reverse (zkeys es) ! i))"
  by (rule zs_at [OF assms]) (simp add: zs_item_def item_of_def)

section \<open>The ends of a range\<close>

text \<open>A walk back from the last pair of a ziplist.\<close>

definition back_at :: "zraw list \<Rightarrow> 'a list \<Rightarrow> nat \<Rightarrow> nat option" where
  "back_at es ps i = (if i < length ps then Some (eptr es (length ps - Suc i)) else None)"

lemma back_step:
  assumes b: "zz_block E zl es ps" and i: "i < length ps"
  shows "ziplistNext zl (eptr es (length ps - Suc i)) = Some (Some (sptr es (length ps - Suc i)))"
    "ziplistPrev zl (eptr es (length ps - Suc i)) = Some (if Suc i < length ps then Some (sptr es (length ps - Suc (Suc i))) else None)"
    "Suc i < length ps \<Longrightarrow> ziplistPrev zl (sptr es (length ps - Suc (Suc i))) = Some (back_at es ps (Suc i))"
proof -
  have j: "length ps - Suc i < length ps" using i by simp
  show "ziplistNext zl (eptr es (length ps - Suc i)) = Some (Some (sptr es (length ps - Suc i)))" by (rule zz_next(1) [OF b j])
  show "ziplistPrev zl (eptr es (length ps - Suc i)) = Some (if Suc i < length ps then Some (sptr es (length ps - Suc (Suc i))) else None)"
    using zz_prev(1) [OF b j] i by auto
  show "Suc i < length ps \<Longrightarrow> ziplistPrev zl (sptr es (length ps - Suc (Suc i))) = Some (back_at es ps (Suc i))"
    using zz_prev(2) [OF b, of "length ps - Suc (Suc i)"] by (simp add: back_at_def)
qed

lemma last_loop_at:
  assumes b: "zz_block E zl es ps" and tx: "text_ok E"
  shows "zzl_last_loop E r zl (back_at es ps i) =
    Some (case stop_at (\<lambda>p. zslValueLteMax (fst p) r) (rev ps) i of
       None \<Rightarrow> None | Some k \<Rightarrow> if zslValueGteMin (fst (rev ps ! k)) r then Some (eptr es (length ps - Suc k)) else None)"
proof (induction i rule: ahead_induct [where n = "length ps"])
  case (beyond i)
  then show ?case by (subst zzl_last_loop.simps) (simp add: back_at_def)
next
  case (step i)
  have j: "length ps - Suc i < length ps" using step(1) by simp
  have l: "i < length (rev ps)" using step(1) by simp
  have none: "\<not> Suc i < length ps \<Longrightarrow> back_at es ps (Suc i) = None" by (simp add: back_at_def)
  show ?case
    using step back_step [OF b step(1)] zz_read(4) [OF b j tx] none
    by (subst zzl_last_loop.simps)
      (cases "Suc i < length ps"; simp add: back_at_def [of es ps i] rev_nth stop_at_step [OF l] back_at_def [of es ps "Suc i"])
qed

lemma last_lex_loop_at:
  assumes b: "zz_block E zl es ps"
  shows "zzl_last_lex_loop r zl (back_at es ps i) =
    Some (case stop_at (\<lambda>p. zslLexValueLteMax (snd p) r) (rev ps) i of
       None \<Rightarrow> None | Some k \<Rightarrow> if zslLexValueGteMin (snd (rev ps ! k)) r then Some (eptr es (length ps - Suc k)) else None)"
proof (induction i rule: ahead_induct [where n = "length ps"])
  case (beyond i)
  then show ?case by (subst zzl_last_lex_loop.simps) (simp add: back_at_def)
next
  case (step i)
  have j: "length ps - Suc i < length ps" using step(1) by simp
  have l: "i < length (rev ps)" using step(1) by simp
  have none: "\<not> Suc i < length ps \<Longrightarrow> back_at es ps (Suc i) = None" by (simp add: back_at_def)
  show ?case
    using step back_step [OF b step(1)] zz_read(1) [OF b j] none
    by (subst zzl_last_lex_loop.simps)
      (cases "Suc i < length ps"; simp add: back_at_def [of es ps i] rev_nth stop_at_step [OF l] back_at_def [of es ps "Suc i"]
        zzlLexValueLteMax_def zzlLexValueGteMin_def)
qed

text \<open>The conditions on ranges along a walk.\<close>

lemma scores_walk:
  assumes "zsorted ps"
  shows "upward (\<lambda>p. zslValueGteMin (fst p) r) ps" "downward (\<lambda>p. zslValueLteMax (fst p) r) ps"
  unfolding upward_def downward_def sorted_wrt_iff_nth_less using scores_nth [OF assms] by blast+

lemma strings_walk:
  assumes "zsorted ps" "one_score ps"
  shows "upward (\<lambda>p. zslLexValueGteMin (snd p) r) ps" "downward (\<lambda>p. zslLexValueLteMax (snd p) r) ps"
  unfolding upward_def downward_def sorted_wrt_iff_nth_less using strings_nth [OF assms] by blast+

definition score_bound :: "bool \<Rightarrow> 's::linorder zrangespec \<Rightarrow> 's \<times> bytes \<Rightarrow> bool" where
  "score_bound low r p = (if low then zslValueGteMin (fst p) r else zslValueLteMax (fst p) r)"

definition string_bound :: "bool \<Rightarrow> zlexrangespec \<Rightarrow> 's \<times> bytes \<Rightarrow> bool" where
  "string_bound low r p = (if low then zslLexValueGteMin (snd p) r else zslLexValueLteMax (snd p) r)"

lemma bounds_split: "in_scores r = (\<lambda>p. score_bound (\<not> reverse) r p \<and> score_bound reverse r p)"
  "in_strings lr = (\<lambda>p. string_bound (\<not> reverse) lr p \<and> string_bound reverse lr p)"
  by (auto simp: fun_eq_iff in_scores_def in_strings_def score_bound_def string_bound_def)

lemma bounds_walk:
  assumes "zsorted ps"
  shows "upward (score_bound (\<not> reverse) r) (walk reverse ps)" "downward (score_bound reverse r) (walk reverse ps)"
    "one_score ps \<Longrightarrow> upward (string_bound (\<not> reverse) lr) (walk reverse ps)"
    "one_score ps \<Longrightarrow> downward (string_bound reverse lr) (walk reverse ps)"
proof -
  note w = scores_walk [OF assms, of r] upward_rev(1) [OF scores_walk(1) [OF assms, of r]] upward_rev(2) [OF scores_walk(2) [OF assms, of r]]
  show "upward (score_bound (\<not> reverse) r) (walk reverse ps)" "downward (score_bound reverse r) (walk reverse ps)"
    using w by (simp_all add: score_bound_def [abs_def] walk_def)
  show "upward (string_bound (\<not> reverse) lr) (walk reverse ps)" "downward (string_bound reverse lr) (walk reverse ps)" if o: "one_score ps"
    using strings_walk [OF assms o, of lr] upward_rev(1) [OF strings_walk(1) [OF assms o, of lr]]
      upward_rev(2) [OF strings_walk(2) [OF assms o, of lr]]
    by (simp_all add: string_bound_def [abs_def] walk_def)
qed

lemma stop_at_both:
  assumes "upward G vs" "downward L vs"
  shows "stop_at (\<lambda>p. G p \<and> L p) vs 0 = (case stop_at G vs 0 of None \<Rightarrow> None | Some k \<Rightarrow> if L (vs ! k) then Some k else None)"
  by (rule stop_both) (rule downwardD [OF assms(2)])

lemma zzlLastInRange_spec:
  assumes b: "zz_block E zl es ps" and tx: "text_ok E" and srt: "zsorted ps" and len: "length zl < 4294967296"
  shows "zzlLastInRange E r zl = Some (map_option (\<lambda>k. eptr es (length ps - Suc k)) (stop_at (in_scores r) (rev ps) 0))"
proof -
  obtain inr where i: "zzlIsInRange E r zl = Some inr" "\<not> inr \<Longrightarrow> stop_at (in_scores r) (rev ps) 0 = None"
    using zzlIsInRange_spec [OF b tx srt len] by (auto simp: stop_at_None)
  have "in_scores r = (\<lambda>p. zslValueLteMax (fst p) r \<and> zslValueGteMin (fst p) r)" by (auto simp: in_scores_def)
  then have "stop_at (in_scores r) (rev ps) 0 =
      (case stop_at (\<lambda>p. zslValueLteMax (fst p) r) (rev ps) 0 of None \<Rightarrow> None | Some k \<Rightarrow> if zslValueGteMin (fst (rev ps ! k)) r then Some k else None)"
    using stop_at_both [OF upward_rev(2) [OF scores_walk(2) [OF srt]] upward_rev(1) [OF scores_walk(1) [OF srt]], of r r] by simp
  moreover have "ziplistIndex zl (- 2) = Some (back_at es ps 0)" using zz_index(4) [OF b len] by (simp add: back_at_def)
  ultimately show ?thesis
    using i last_loop_at [OF b tx, of r 0] by (auto simp: zzlLastInRange_def split: option.splits)
qed

lemma zzlLastInLexRange_spec:
  assumes b: "zz_block E zl es ps" and srt: "zsorted ps" "one_score ps" and len: "length zl < 4294967296"
  shows "zzlLastInLexRange r zl =
    Some (if mixed_up r then None else map_option (\<lambda>k. eptr es (length ps - Suc k)) (stop_at (in_strings r) (rev ps) 0))"
proof -
  obtain inr where i: "zzlIsInLexRange r zl = Some inr" "mixed_up r \<Longrightarrow> \<not> inr"
    "\<not> inr \<Longrightarrow> \<not> mixed_up r \<Longrightarrow> stop_at (in_strings r) (rev ps) 0 = None"
    using zzlIsInLexRange_spec [OF b srt len] by (auto simp: stop_at_None)
  have "in_strings r = (\<lambda>p :: 'a \<times> bytes. zslLexValueLteMax (snd p) r \<and> zslLexValueGteMin (snd p) r)" by (auto simp: in_strings_def)
  then have "stop_at (in_strings r) (rev ps) 0 =
      (case stop_at (\<lambda>p. zslLexValueLteMax (snd p) r) (rev ps) 0 of None \<Rightarrow> None | Some k \<Rightarrow> if zslLexValueGteMin (snd (rev ps ! k)) r then Some k else None)"
    using stop_at_both [OF upward_rev(2) [OF strings_walk(2) [OF srt]] upward_rev(1) [OF strings_walk(1) [OF srt]], of r r] by simp
  moreover have "ziplistIndex zl (- 2) = Some (back_at es ps 0)" using zz_index(4) [OF b len] by (simp add: back_at_def)
  ultimately show ?thesis
    using i last_lex_loop_at [OF b, of r 0] by (auto simp: zzlLastInLexRange_def split: option.splits)
qed

text \<open>The first pair of a range on a walk, as a place on its track.\<close>

lemma zz_start_at:
  assumes b: "zz_block E zl es ps"
  shows "zz_start zl (map_option (\<lambda>k. eptr es (turn reverse (length ps) k)) (stop_at Q (walk reverse ps) 0)) =
    Some (map_option ((!) (walk reverse (places es ps))) (stop_at Q (walk reverse ps) 0))"
proof (cases "stop_at Q (walk reverse ps) 0")
  case (Some k)
  then have k: "k < length ps" by (simp add: stop_at_Some)
  then show ?thesis using Some zz_next(1) [OF b, of "turn reverse (length ps) k"] by (simp add: zz_start_def walk_nth)
qed (simp add: zz_start_def)

lemma zz_first:
  assumes b: "zz_block E zl es ps" and tx: "text_ok E" and srt: "zsorted ps" and len: "length zl < 4294967296"
  shows "do { e \<leftarrow> (if reverse then zzlLastInRange E r zl else zzlFirstInRange E r zl); zz_start zl e } =
    Some (map_option ((!) (walk reverse (places es ps))) (stop_at (in_scores r) (walk reverse ps) 0))"
  using zzlLastInRange_spec [OF assms, of r] zzlFirstInRange_spec [OF assms, of r] zz_start_at [OF b, of reverse "in_scores r"]
  by (cases reverse) (simp_all add: turn_def)

lemma zz_first_lex:
  assumes b: "zz_block E zl es ps" and srt: "zsorted ps" "one_score ps" and len: "length zl < 4294967296"
  shows "do { e \<leftarrow> (if reverse then zzlLastInLexRange r zl else zzlFirstInLexRange r zl); zz_start zl e } =
    Some (if mixed_up r then None else map_option ((!) (walk reverse (places es ps))) (stop_at (in_strings r) (walk reverse ps) 0))"
  using zzlLastInLexRange_spec [OF assms, of r] zzlFirstInLexRange_spec [OF assms, of r] zz_start_at [OF b, of reverse "in_strings r"]
  by (cases reverse) (simp_all add: turn_def zz_start_def)

lemma find_stop: "find Q xs = map_option ((!) xs) (stop_at Q xs 0)"
proof (cases "find Q xs")
  case (Some x)
  then obtain i where "i < length xs" "Q (xs ! i)" "x = xs ! i" "\<forall>j<i. \<not> Q (xs ! j)" by (auto simp: find_Some_iff)
  then have "stop_at Q xs 0 = Some i" by (simp add: stop_at_Some)
  then show ?thesis using Some \<open>x = xs ! i\<close> by simp
next
  case None
  then have "stop_at Q xs 0 = None" by (simp add: stop_at_None find_None_iff)
  then show ?thesis using None by simp
qed

lemma stop_at_map: "stop_at Q (map f xs) 0 = stop_at (\<lambda>x. Q (f x)) xs 0"
  unfolding stop_at_def by (auto intro: find_cong)

lemma find_place:
  "map_option e_addr (find (\<lambda>e. Q (e_score e, e_obj e)) (walk reverse es)) =
    map_option ((!) (walk reverse (map e_addr es))) (stop_at Q (walk reverse (zkeys es)) 0)"
proof -
  have w: "walk reverse (map f es) = map f (walk reverse es)" for f :: "'a zelem \<Rightarrow> 'b" by (simp add: walk_def rev_map)
  show ?thesis
    unfolding w zkeys_def stop_at_map find_stop
  proof (cases "stop_at (\<lambda>e. Q (e_score e, e_obj e)) (walk reverse es) 0")
    case (Some k)
    then have "k < length (walk reverse es)" by (simp add: stop_at_Some)
    then show "map_option e_addr (map_option ((!) (walk reverse es)) (stop_at (\<lambda>e. Q (e_score e, e_obj e)) (walk reverse es) 0)) =
        map_option ((!) (map e_addr (walk reverse es))) (stop_at (\<lambda>e. Q (e_score e, e_obj e)) (walk reverse es) 0)"
      by (simp only: Some option.map nth_map)
  qed simp
qed

lemma zs_first:
  assumes "zsl_rep z es" "length es < U64"
  shows "(if reverse then zslLastInRange r z else zslFirstInRange r z) =
    Some (map_option ((!) (walk reverse (map e_addr es))) (stop_at (in_scores r) (walk reverse (zkeys es)) 0))"
  unfolding find_place [symmetric] zkeys_conv [symmetric]
  using zslFirstInRange_spec [OF assms, of r] zslLastInRange_spec [OF assms, of r] by (cases reverse) (simp_all del: zkeys_conv)

lemma zs_first_lex:
  assumes "zsl_rep z es" "same_score es" "length es < U64"
  shows "(if reverse then zslLastInLexRange r z else zslFirstInLexRange r z) =
    Some (if mixed_up r then None else map_option ((!) (walk reverse (map e_addr es))) (stop_at (in_strings r) (walk reverse (zkeys es)) 0))"
  unfolding find_place [symmetric] zkeys_conv [symmetric]
  using zslFirstInLexRange_spec [OF assms, of r] zslLastInLexRange_spec [OF assms, of r] by (cases reverse) (simp_all del: zkeys_conv)

end
