(* ===== verification/ZsetQueryOps.thy ===== *)
theory ZsetQueryOps
  imports ZsetQuerySpec
begin

text \<open>
  The queries for ranges as operations on the list of pairs, in either encoding.
\<close>

section \<open>Ranges of scores and strings\<close>

lemma length_items: "length (concat (map (item_of ws) xs)) = (if ws then length xs * 2 else length xs)"
  by (induction xs) (auto simp: item_of_def)

definition reply_of :: "bool \<Rightarrow> ('s \<times> bytes) list \<Rightarrow> 's zitem list" where
  "reply_of ws xs = concat (map (item_of ws) xs)"

lemma length_reply: "length (reply_of ws xs) = (if ws then length xs * 2 else length xs)"
  by (simp add: reply_of_def length_items)

lemma no_reply [simp]: "reply_of ws [] = []" "reply_from move test item offset limit None = Some (0, [])"
  by (simp_all add: reply_of_def reply_from_def)

lemma zset_cases [consumes 2]:
  assumes rep: "zset_rep E o' ps" and len: "length ps < U32"
  obtains (block) zl es where "o' = ZsetZiplist zl" "zz_block E zl es ps" "zz_ok E zl es ps" "zsorted ps" "length zl < 4294967296" "length ps \<le> 1000000"
    | (nodes) zs es where "o' = ZsetSkiplist zs" "zs_ok zs es" "zsl_rep (zsl zs) es" "ps = zkeys es" "zsorted ps" "length es < U32" "length es < U64"
proof (cases o')
  case (ZsetZiplist z)
  then obtain es where es: "sset ps" "length ps \<le> 1000000" "zz_ok E z es ps" using rep by (auto simp: zset_rep_def)
  moreover have "length z < 4294967296" using zz_ok_length [OF es(3)] es(2) by simp
  ultimately show thesis using block [OF ZsetZiplist zz_okD(1) [OF es(3)]] by (simp add: sset_def)
next
  case (ZsetSkiplist zs)
  then obtain es where es: "zs_ok zs es" "ps = zkeys es" using rep by (auto simp: zset_rep_def)
  have "zsorted ps" using zs_ok_sset [OF es(1)] es(2) by (simp add: sset_def)
  moreover have "length es < U32" using len es(2) by simp
  moreover from this have "length es < U64" by simp
  ultimately show thesis using nodes [OF ZsetSkiplist es(1) _ es(2)] es(1) by (simp add: zs_ok_def)
qed

lemma one_same: "one_score (zkeys es) \<Longrightarrow> same_score es"
proof -
  assume one: "one_score (zkeys es)"
  have "(e_score e, e_obj e) \<in> set (zkeys es)" if "e \<in> set es" for e using that by (auto simp: zkeys_def)
  then show "same_score es" using one unfolding one_score_def same_score_def by (metis fst_conv)
qed

text \<open>The walk of a range in a ziplist and in a skip list.\<close>

lemma zz_reply:
  assumes b: "zz_block E zl es ps" and tx: "text_ok E" and up: "upward G (walk reverse ps)" and down: "downward L (walk reverse ps)"
    and test: "\<And>i. i < length ps \<Longrightarrow> test (walk reverse (places es ps) ! i) = Some (L (walk reverse ps ! i))"
  shows "reply_from (zz_move reverse zl) test (zz_item E ws zl) offset limit
      (map_option ((!) (walk reverse (places es ps))) (stop_at (\<lambda>p. G p \<and> L p) (walk reverse ps) 0)) =
    (let xs = clip offset limit (filter (\<lambda>p. G p \<and> L p) (walk reverse ps)) in Some (length xs, reply_of ws xs))"
  unfolding reply_of_def by (rule reply_at [OF zz_track [OF b] _ _ _ up down]) (use test zz_at(1) [OF b tx] in simp_all)

lemma zs_reply:
  assumes rep: "zsl_rep z es" and up: "upward G (walk reverse (zkeys es))" and down: "downward L (walk reverse (zkeys es))"
    and test: "\<And>i. i < length es \<Longrightarrow> test (walk reverse (map e_addr es) ! i) = Some (L (walk reverse (zkeys es) ! i))"
  shows "reply_from (zs_move reverse z) test (zs_item ws z) offset limit
      (map_option ((!) (walk reverse (map e_addr es))) (stop_at (\<lambda>p. G p \<and> L p) (walk reverse (zkeys es)) 0)) =
    (let xs = clip offset limit (filter (\<lambda>p. G p \<and> L p) (walk reverse (zkeys es))) in Some (length xs, reply_of ws xs))"
  unfolding reply_of_def by (rule reply_at [OF zs_track [OF rep] _ _ _ up down]) (use test zs_item_at [OF rep] in simp_all)

lemma zrangebyscore_spec:
  assumes env: "env_ok E" and rep: "zset_rep E o' ps" and len: "length ps < U32"
  shows "genericZrangebyscoreCommand E reverse r offset limit ws o' =
    (let items = reply_of ws (clip offset limit (filter (in_scores r) (walk reverse ps))) in Some (length items, items))"
  using rep len
proof (cases rule: zset_cases)
  case (block z es)
  have tx: "text_ok E" by (rule env_text_ok [OF env])
  have t: "do { score \<leftarrow> zzlGetScore E z (snd (walk reverse (places es ps) ! i)); Some (if reverse then zslValueGteMin score r else zslValueLteMax score r) } =
      Some (score_bound reverse r (walk reverse ps ! i))" if "i < length ps" for i
    using zz_at(2) [OF block(2) tx, of i reverse] that by (simp add: score_bound_def)
  note zz_reply [OF block(2) tx bounds_walk(1) [OF block(4), where r = r] bounds_walk(2) [OF block(4), where r = r],
      where ws = ws and offset = offset and limit = limit, OF t, folded bounds_split(1)]
  then show ?thesis
    using zz_first [OF block(2) tx block(4,5), of reverse r] block(1)
    by (simp add: genericZrangebyscoreCommand_def Let_def length_reply flip: bind_assoc)
next
  case (nodes zs es)
  have t: "do { n \<leftarrow> znodes (zsl zs) (walk reverse (map e_addr es) ! i); Some (if reverse then zslValueGteMin (zscore n) r else zslValueLteMax (zscore n) r) } =
      Some (score_bound reverse r (walk reverse (zkeys es) ! i))" if "i < length es" for i
    by (rule zs_at [OF nodes(3), of i reverse]) (use that in \<open>simp_all add: score_bound_def\<close>)
  have srt: "zsorted (zkeys es)" using nodes(4,5) by simp
  note zs_reply [OF nodes(3) bounds_walk(1) [OF srt, where r = r] bounds_walk(2) [OF srt, where r = r],
      where ws = ws and offset = offset and limit = limit, OF t, folded bounds_split(1)]
  then show ?thesis
    using zs_first [OF nodes(3,7), of reverse r] nodes(1,4)
    by (simp add: genericZrangebyscoreCommand_def Let_def length_reply)
qed

definition strings_walked :: "zlexrangespec \<Rightarrow> bool \<Rightarrow> ('s \<times> bytes) list \<Rightarrow> ('s \<times> bytes) list" where
  "strings_walked r reverse ps = (if mixed_up r then [] else filter (in_strings r) (walk reverse ps))"

lemma zrangebylex_spec:
  assumes env: "env_ok E" and rep: "zset_rep E o' ps" and len: "length ps < U32" and one: "one_score ps"
  shows "genericZrangebylexCommand E reverse r offset limit o' =
    (let items = reply_of False (clip offset limit (strings_walked r reverse ps)) in Some (length items, items))"
  using rep len
proof (cases rule: zset_cases)
  case (block z es)
  have tx: "text_ok E" by (rule env_text_ok [OF env])
  have t: "(if reverse then zzlLexValueGteMin z (fst (walk reverse (places es ps) ! i)) r else zzlLexValueLteMax z (fst (walk reverse (places es ps) ! i)) r) =
      Some (string_bound reverse r (walk reverse ps ! i))" if "i < length ps" for i
    using zz_at(3) [OF block(2) tx, of i reverse] that
    by (cases reverse) (simp_all add: string_bound_def zzlLexValueGteMin_def zzlLexValueLteMax_def)
  note zz_reply [OF block(2) tx bounds_walk(3) [OF block(4) one, where lr = r] bounds_walk(4) [OF block(4) one, where lr = r],
      where ws = False and offset = offset and limit = limit, OF t, folded bounds_split(2)]
  then show ?thesis
    using zz_first_lex [OF block(2,4) one block(5), of reverse r] block(1)
    by (cases "mixed_up r") (simp_all add: genericZrangebylexCommand_def Let_def length_reply strings_walked_def flip: bind_assoc)
next
  case (nodes zs es)
  have t: "do { n \<leftarrow> znodes (zsl zs) (walk reverse (map e_addr es) ! i); ob \<leftarrow> zobj n; Some (if reverse then zslLexValueGteMin ob r else zslLexValueLteMax ob r) } =
      Some (string_bound reverse r (walk reverse (zkeys es) ! i))" if "i < length es" for i
    by (rule zs_at [OF nodes(3), of i reverse]) (use that in \<open>simp_all add: string_bound_def\<close>)
  have srt: "zsorted (zkeys es)" "one_score (zkeys es)" using nodes(4,5) one by simp_all
  note zs_reply [OF nodes(3) bounds_walk(3) [OF srt, where lr = r] bounds_walk(4) [OF srt, where lr = r],
      where ws = False and offset = offset and limit = limit, OF t, folded bounds_split(2)]
  then show ?thesis
    using zs_first_lex [OF nodes(3) one_same [OF srt(2)] nodes(7), of reverse r] nodes(1,4)
    by (cases "mixed_up r") (simp_all add: genericZrangebylexCommand_def Let_def length_reply strings_walked_def)
qed

section \<open>Ranges of ranks\<close>

lemma s32_id: "- 2147483648 \<le> x \<Longrightarrow> x < 2147483648 \<Longrightarrow> s32 x = x"
  by (simp add: s32_def)

lemma zz_index_walk:
  assumes b: "zz_block E zl es ps" and len: "length zl < 4294967296" and i: "i < length ps"
  shows "ziplistIndex zl (if reverse then - 2 - 2 * int i else 2 * int i) = Some (Some (eptr es (turn reverse (length ps) i)))"
proof (cases reverse)
  case False
  have "ziplistIndex zl (int (2 * i)) = Some (Some (eptr es i))"
    using ziplistIndex_forward [OF zz_blockD(1) [OF b], of "2 * i"] zz_blockD(2) [OF b] i by (simp add: eptr_def)
  then show ?thesis using False by (simp add: turn_def)
next
  case True
  have j: "length es - 1 - Suc (2 * i) = 2 * (length ps - Suc i)" using zz_blockD(2) [OF b] i by simp
  have "- int (Suc (2 * i)) - 1 = - 2 - 2 * int i" by simp
  then have "ziplistIndex zl (- 2 - 2 * int i) = Some (Some (pos_of es (length es - 1 - Suc (2 * i))))"
    using ziplistIndex_backward [OF zz_blockD(1) [OF b] len, of "Suc (2 * i)"] zz_blockD(2) [OF b] i by simp
  then show ?thesis using True unfolding j by (simp add: turn_def eptr_def)
qed

lemma zs_index_walk:
  assumes rep: "zsl_rep z es" and len: "length es < U64" and i: "i < length es"
  shows "(if reverse then (if 0 < i then zslGetElementByRank (length es - i) z else Some (tail z))
      else (if 0 < i then zslGetElementByRank (Suc i) z else do { (f, sp) \<leftarrow> slot z (header z) 0; Some f })) =
    Some (Some (walk reverse (map e_addr es) ! i))"
proof (cases "0 < i")
  case True
  have "zslGetElementByRank (length es - i) z = Some (Some (e_addr (es ! (length es - Suc i))))"
    using zslGetElementByRank_spec [OF rep len, of "length es - i"] i by simp
  moreover have "zslGetElementByRank (Suc i) z = Some (Some (e_addr (es ! i)))"
    using zslGetElementByRank_spec [OF rep len, of "Suc i"] i by simp
  ultimately show ?thesis using True i by (simp add: walk_nth turn_def)
next
  case False
  have "tail z = Some (e_addr (es ! (length es - Suc 0)))" using zsl_repD(3) [OF rep] i by (auto simp: paddr_def)
  moreover have "es \<noteq> []" using i by auto
  then obtain sp where "slot z (header z) 0 = Some (Some (e_addr (es ! 0)), sp)"
    using zsl_rep_slot0 [OF rep, of 0] by (auto simp: paddr_def)
  ultimately show ?thesis using False i by (simp add: walk_nth turn_def)
qed

text \<open>The pairs at the places between two indexes, in the direction of the walk.\<close>

definition ranks_walked :: "int \<Rightarrow> int \<Rightarrow> bool \<Rightarrow> 'a list \<Rightarrow> 'a list" where
  "ranks_walked start end' reverse ps = nths (walk reverse ps) {k. in_ranks (length ps) start end' k}"

lemma zrange_loop:
  assumes env: "env_ok E" and rep: "zset_rep E o' ps" and len: "length ps < 1073741824" and r: "lo \<le> hi" "hi < length ps"
  shows "zrange_walk E reverse (int lo) (int (length ps)) ws (int (Suc hi - lo)) o' =
    Some (reply_of ws (take (Suc hi - lo) (drop lo (walk reverse ps))))"
proof -
  have u: "length ps < U32" using len by simp
  have lo: "lo < length ps" and fit: "lo + (Suc hi - lo) \<le> length ps" using r by simp_all
  show ?thesis
    using rep u
  proof (cases rule: zset_cases)
    case (block z es)
    have tx: "text_ok E" by (rule env_text_ok [OF env])
    have i: "s32 (if reverse then - 2 - 2 * int lo else 2 * int lo) = (if reverse then - 2 - 2 * int lo else 2 * int lo)"
      using lo len by (intro s32_id) simp_all
    let ?e = "eptr es (turn reverse (length ps) lo)"
    have st: "zz_start z (Some ?e) = Some (Some (walk reverse (places es ps) ! lo))"
      using zz_next(1) [OF block(2), of "turn reverse (length ps) lo"] lo by (simp add: zz_start_def walk_nth)
    have "range_loop (zz_move reverse z) (zz_item E ws z) (pos_at (walk reverse (places es ps)) lo) (Suc hi - lo) =
        Some (reply_of ws (take (Suc hi - lo) (drop lo (walk reverse ps))))"
      unfolding reply_of_def
      by (rule range_loop_at [OF zz_track [OF block(2)]]) (use fit zz_at(1) [OF block(2) tx] in simp_all)
    then show ?thesis
      using st zz_index_walk [OF block(2,5) lo, of reverse] lo by (simp only: zrange_walk_def block(1) zsetobj.case i nat_int) simp
  next
    case (nodes zs es)
    have l: "lo < length es" using lo nodes(4) by simp
    have "range_loop (zs_move reverse (zsl zs)) (zs_item ws (zsl zs)) (pos_at (walk reverse (map e_addr es)) lo) (Suc hi - lo) =
        Some (reply_of ws (take (Suc hi - lo) (drop lo (walk reverse (zkeys es)))))"
      unfolding reply_of_def
      by (rule range_loop_at [OF zs_track [OF nodes(3)]]) (use fit nodes(4) zs_item_at [OF nodes(3)] in simp_all)
    moreover have "nat (int (length es) - int lo) = length es - lo" "nat (int lo + 1) = Suc lo" "(0 < int lo) = (0 < lo)"
      by linarith+
    ultimately show ?thesis
      unfolding zrange_walk_def nodes(1) nodes(4) zsetobj.case zkeys_simps(4) nat_int
      by (simp only: zs_index_walk [OF nodes(3,7) l] bind.bind_lunit) (use l in simp)
  qed
qed

lemma zrange_spec:
  assumes env: "env_ok E" and rep: "zset_rep E o' ps" and len: "length ps < 1073741824"
  shows "\<exists>o2. zrangeGenericCommand E reverse start end' ws o' =
      (let items = reply_of ws (ranks_walked start end' reverse ps) in Some (int (length items), items, o2)) \<and> zset_rep E o2 ps"
proof -
  have u: "length ps < U32" using len by simp
  obtain o2 where 2: "zsetLength o' = Some (length ps, o2)" "zset_rep E o2 ps" using zsetLength_spec [OF rep u] by blast
  have l: "s32 (int (length ps)) = int (length ps)" using len by (intro s32_id) simp_all
  show ?thesis
  proof (cases "sanitize_ranks (int (length ps)) start end'")
    case None
    then have "ranks_walked start end' reverse ps = []"
      using ranks_None(1) [of "walk reverse ps"] by (simp add: ranks_walked_def)
    then show ?thesis using 2 l None by (auto simp: zrangeGenericCommand_def reply_of_def)
  next
    case (Some lh)
    obtain lo hi where lh: "lh = (int lo, int hi)" "lo \<le> hi" "hi < length ps"
    proof -
      obtain a b where ab: "lh = (a, b)" by (cases lh)
      note sr = sanitize_ranks_Some [OF Some [unfolded ab]]
      show thesis by (rule that [of "nat a" "nat b"]) (use sr ab in \<open>auto simp: nat_less_iff\<close>)
    qed
    have w: "ranks_walked start end' reverse ps = take (Suc hi - lo) (drop lo (walk reverse ps))"
      using ranks_Some(1) [of "walk reverse ps" start end' "int lo" "int hi"] Some lh by (simp add: ranks_walked_def)
    have n: "length (take (Suc hi - lo) (drop lo (walk reverse ps))) = Suc hi - lo" using lh(2,3) by simp
    have k: "s32 (int hi - int lo + 1) = int (Suc hi - lo)" "nat (int hi - int lo + 1) = Suc hi - lo"
      "s32 (int (Suc hi - lo) * 2) = int ((Suc hi - lo) * 2)" "s32 (int (Suc hi - lo)) = int (Suc hi - lo)"
      using lh(2,3) len by (simp_all add: s32_def)
    have "zrangeGenericCommand E reverse start end' ws o' =
        Some (s32 (if ws then int (Suc hi - lo) * 2 else int (Suc hi - lo)), reply_of ws (take (Suc hi - lo) (drop lo (walk reverse ps))), o2)"
      by (simp only: zrangeGenericCommand_def 2(1) bind.bind_lunit prod.case Let_def l Some lh(1) option.case k(1)
          zrange_loop [OF env 2(2) len lh(2,3)])
    note run = this
    show ?thesis using run 2(2) k(3,4) n by (auto simp: w length_reply Let_def)
  qed
qed

section \<open>Counts\<close>

lemma count_ends:
  assumes up: "upward G vs" and down: "downward L vs"
    and k: "stop_at (\<lambda>p. G p \<and> L p) vs 0 = Some k" and m: "stop_at (\<lambda>p. G p \<and> L p) (rev vs) 0 = Some m"
  shows "k + m < length vs" "length (filter (\<lambda>p. G p \<and> L p) vs) = length vs - k - m"
proof -
  let ?Q = "\<lambda>p. G p \<and> L p" and ?n = "length vs"
  have K: "k < ?n" "?Q (vs ! k)" "\<And>i. i < k \<Longrightarrow> \<not> ?Q (vs ! i)" using k by (simp_all add: stop_at_Some)
  have M0: "m < ?n" using m by (simp add: stop_at_Some)
  then have M: "m < ?n" "?Q (vs ! (?n - Suc m))" using m by (simp_all add: stop_at_Some rev_nth)
  have M3: "\<not> ?Q (vs ! i)" if "?n - m \<le> i" "i < ?n" for i
  proof -
    have "?n - Suc i < m" using that by linarith
    then have "\<not> ?Q (rev vs ! (?n - Suc i))" using m by (simp add: stop_at_Some)
    then show ?thesis using that by (simp add: rev_nth)
  qed
  have "k \<le> ?n - Suc m" using K(3) [of "?n - Suc m"] M(2) by linarith
  then show lt: "k + m < ?n" using M(1) by linarith
  have "{i. i < ?n \<and> ?Q (vs ! i)} = {k..<?n - m}"
  proof (intro set_eqI iffI)
    fix i assume "i \<in> {i. i < ?n \<and> ?Q (vs ! i)}"
    then have "i < ?n" "?Q (vs ! i)" by simp_all
    then show "i \<in> {k..<?n - m}" using K(3) [of i] M3 [of i] by (cases "i < k"; cases "?n - m \<le> i") simp_all
  next
    fix i assume "i \<in> {k..<?n - m}"
    then have "k \<le> i" "i < ?n - m" by simp_all
    then have i: "k \<le> i" "i \<le> ?n - Suc m" "i < ?n" by linarith+
    have "G (vs ! i)" using upwardD [OF up, of k i] K(2) i by (cases "k = i") simp_all
    moreover have "L (vs ! i)" using downwardD [OF down, of i "?n - Suc m"] M(1,2) i by (cases "i = ?n - Suc m") simp_all
    ultimately show "i \<in> {i. i < ?n \<and> ?Q (vs ! i)}" using i by simp
  qed
  then show "length (filter ?Q vs) = ?n - k - m" by (simp add: length_filter_conv_card)
qed

lemma stop_at_rev: "stop_at Q vs 0 = None \<longleftrightarrow> stop_at Q (rev vs) 0 = None"
  by (simp add: stop_at_None)

lemma zn_rank_at:
  assumes ok: "zs_ok zs es" and len: "length es < U64" and j: "j < length es"
  shows "zn_rank (zsl zs) (e_addr (es ! j)) = Some (Suc j)"
proof -
  have rep: "zsl_rep (zsl zs) es" and dist: "distinct (map e_obj es)" using ok by (simp_all add: zs_ok_def)
  show ?thesis using node_of [OF rep j] zslGetRank_spec(1) [OF rep len dist j] by (auto simp: zn_rank_def)
qed

lemma rank_count_spec:
  assumes ok: "zs_ok zs es" and len: "length es < 2147483648" and up: "upward G (zkeys es)" and down: "downward L (zkeys es)"
    and first: "first = Some (map_option ((!) (map e_addr es)) (stop_at (\<lambda>p. G p \<and> L p) (zkeys es) 0))"
    and last': "last' = Some (map_option ((!) (rev (map e_addr es))) (stop_at (\<lambda>p. G p \<and> L p) (rev (zkeys es)) 0))"
  shows "rank_count (zsl zs) first last' = Some (int (length (filter (\<lambda>p. G p \<and> L p) (zkeys es))))"
proof (cases "stop_at (\<lambda>p. G p \<and> L p) (zkeys es) 0")
  case None
  then have "filter (\<lambda>p. G p \<and> L p) (zkeys es) = []" by (simp add: stop_at_None filter_empty_conv)
  then show ?thesis using None first by (simp add: rank_count_def)
next
  case (Some k)
  then obtain m where m: "stop_at (\<lambda>p. G p \<and> L p) (rev (zkeys es)) 0 = Some m"
    using stop_at_rev [of "\<lambda>p. G p \<and> L p" "zkeys es"] by (cases "stop_at (\<lambda>p. G p \<and> L p) (rev (zkeys es)) 0") simp_all
  note c = count_ends [OF up down Some m]
  have kn: "k < length es" "m < length es" "length es - Suc m < length es" using c(1) by simp_all
  have l: "length es < U64" using len by simp
  have zl: "zlength (zsl zs) = length es" using ok zsl_repD(2) [of "zsl zs" es] by (simp add: zs_ok_def)
  have a: "map e_addr es ! k = e_addr (es ! k)" "rev (map e_addr es) ! m = e_addr (es ! (length es - Suc m))"
    using kn by (simp_all add: rev_nth)
  have u: "usub U64 (Suc k) 1 = k" "usub U64 (length es) k = length es - k" "usub U64 (length es) (Suc (length es - Suc m)) = m"
    using kn l by (simp_all add: uarith(1))
  have s: "s32 (int (length es - k)) = int (length es - k)" "s32 (int (length es - k) - int m) = int (length es - k) - int m"
    using kn c(1) len by (simp_all add: s32_def)
  have n: "int (length es - k) - int m = int (length es - k - m)" "s32 (int (length es - (k + m))) = int (length es - (k + m))"
    using c(1) len by (simp_all add: s32_id)
  show ?thesis
    using first last' Some m zn_rank_at [OF ok l kn(1)] zn_rank_at [OF ok l kn(3)] c(2)
    by (simp add: rank_count_def a u u(1) [unfolded One_nat_def] zl s n Let_def)
qed

text \<open>The count of a range of a ziplist, from its first pair on.\<close>

lemma zz_count:
  assumes b: "zz_block E zl es ps" and len: "length ps < 2147483648" and up: "upward G ps" and down: "downward L ps"
    and test: "\<And>i. i < length ps \<Longrightarrow> test (places es ps ! i) = Some (L (ps ! i))" and k: "stop_at (\<lambda>p. G p \<and> L p) ps 0 = Some k"
  shows "test (places es ps ! k) = Some True"
    "do { n \<leftarrow> count_loop (zz_move False zl) test (Some (places es ps ! k)); Some (RepCount (s32 (int n))) } =
      Some (RepCount (int (length (filter (\<lambda>p. G p \<and> L p) ps))))"
proof -
  note r = range_from [OF up down k]
  show "test (places es ps ! k) = Some True" using test [OF r(2)] k by (simp add: stop_at_Some)
  have "count_loop (zz_move False zl) test (pos_at (places es ps) k) = Some (length (takeWhile L (drop k ps)))"
    by (rule count_loop_at [OF zz_track [OF b, of False, simplified]]) (use test in simp_all)
  moreover have "s32 (int (length (takeWhile L (drop k ps)))) = int (length (takeWhile L (drop k ps)))"
    using length_takeWhile_le [of L "drop k ps"] len by (intro s32_id) (simp_all del: length_takeWhile_le)
  ultimately show "do { n \<leftarrow> count_loop (zz_move False zl) test (Some (places es ps ! k)); Some (RepCount (s32 (int n))) } =
      Some (RepCount (int (length (filter (\<lambda>p. G p \<and> L p) ps))))"
    using r(2) by (simp add: r(1))
qed

lemma zcount_spec:
  assumes env: "env_ok E" and rep: "zset_rep E o' ps" and len: "length ps < 2147483648"
  shows "zcountCommand E r o' = Some (RepCount (int (length (filter (in_scores r) ps))))"
proof -
  have u: "length ps < U32" using len by simp
  have f: "in_scores r = (\<lambda>p. score_bound True r p \<and> score_bound False r p)" using bounds_split(1) [of r False] by simp
  show ?thesis
    using rep u
  proof (cases rule: zset_cases)
    case (block z es)
    have tx: "text_ok E" by (rule env_text_ok [OF env])
    have b: "upward (score_bound True r) ps" "downward (score_bound False r) ps"
      using bounds_walk(1,2) [OF block(4), of False r] by simp_all
    have t: "do { score \<leftarrow> zzlGetScore E z (snd (places es ps ! i)); Some (zslValueLteMax score r) } = Some (score_bound False r (ps ! i))"
      if "i < length ps" for i
      using zz_at(2) [OF block(2) tx, of i False] that by (simp add: score_bound_def)
    note c = zz_count [OF block(2) len b, where test = "\<lambda>p. do { score \<leftarrow> zzlGetScore E z (snd p); Some (zslValueLteMax score r) }", OF t, folded f]
    show ?thesis
    proof (cases "stop_at (in_scores r) ps 0")
      case None
      then have "filter (in_scores r) ps = []" by (simp add: stop_at_None filter_empty_conv)
      then show ?thesis using None block(1) zz_first [OF block(2) tx block(4,5), of False r]
        by (simp add: zcountCommand_def flip: bind_assoc)
    next
      case (Some k)
      obtain score where "zzlGetScore E z (snd (places es ps ! k)) = Some score" "zslValueLteMax score r"
        using c(1) [OF _ Some] by (auto simp: bind_eq_Some_conv)
      then show ?thesis using Some block(1) zz_first [OF block(2) tx block(4,5), of False r] c(2) [OF _ Some]
        by (simp add: zcountCommand_def flip: bind_assoc)
    qed
  next
    case (nodes zs es)
    have srt: "zsorted (zkeys es)" using nodes(4,5) by simp
    have b: "upward (score_bound True r) (zkeys es)" "downward (score_bound False r) (zkeys es)"
      using bounds_walk(1,2) [OF srt, of False r] by simp_all
    have l: "length es < 2147483648" using len nodes(4) by simp
    have "rank_count (zsl zs) (zslFirstInRange r (zsl zs)) (zslLastInRange r (zsl zs)) = Some (int (length (filter (in_scores r) ps)))"
      unfolding nodes(4) f
      by (rule rank_count_spec [OF nodes(2) l b])
        (use zs_first [OF nodes(3,7), of False r] zs_first [OF nodes(3,7), of True r] in \<open>simp_all flip: f\<close>)
    then show ?thesis using nodes(1) by (simp add: zcountCommand_def)
  qed
qed

lemma zlexcount_spec:
  assumes rep: "zset_rep E o' ps" and len: "length ps < 2147483648" and one: "one_score ps" and nm: "\<not> mixed_up r"
  shows "zlexcountCommand r o' = Some (RepCount (int (length (filter (in_strings r) ps))))"
proof -
  have u: "length ps < U32" using len by simp
  have f: "in_strings r = (\<lambda>p :: 'a \<times> bytes. string_bound True r p \<and> string_bound False r p)" using bounds_split(2) [of r False] by simp
  show ?thesis
    using rep u
  proof (cases rule: zset_cases)
    case (block z es)
    have b: "upward (string_bound True r) ps" "downward (string_bound False r) ps"
      using bounds_walk(3,4) [OF block(4) one, of False r] by simp_all
    have t: "zzlLexValueLteMax z (fst (places es ps ! i)) r = Some (string_bound False r (ps ! i))" if "i < length ps" for i
      using zz_read(1) [OF block(2) that] that by (simp add: string_bound_def zzlLexValueLteMax_def)
    note c = zz_count [OF block(2) len b, where test = "\<lambda>p. zzlLexValueLteMax z (fst p) r", OF t, folded f]
    show ?thesis
    proof (cases "stop_at (in_strings r) ps 0")
      case None
      then have "filter (in_strings r) ps = []" by (simp add: stop_at_None filter_empty_conv)
      then show ?thesis using None block(1) nm zz_first_lex [OF block(2,4) one block(5), of False r]
        by (simp add: zlexcountCommand_def flip: bind_assoc)
    next
      case (Some k)
      then show ?thesis using block(1) nm zz_first_lex [OF block(2,4) one block(5), of False r] c(1,2) [OF _ Some]
        by (simp add: zlexcountCommand_def flip: bind_assoc)
    qed
  next
    case (nodes zs es)
    have srt: "zsorted (zkeys es)" "one_score (zkeys es)" using nodes(4,5) one by simp_all
    have b: "upward (string_bound True r) (zkeys es)" "downward (string_bound False r) (zkeys es)"
      using bounds_walk(3,4) [OF srt, of False r] by simp_all
    have l: "length es < 2147483648" using len nodes(4) by simp
    have "rank_count (zsl zs) (zslFirstInLexRange r (zsl zs)) (zslLastInLexRange r (zsl zs)) = Some (int (length (filter (in_strings r) ps)))"
      unfolding nodes(4) f
      by (rule rank_count_spec [OF nodes(2) l b])
        (use nm zs_first_lex [OF nodes(3) one_same [OF srt(2)] nodes(7), of False r]
          zs_first_lex [OF nodes(3) one_same [OF srt(2)] nodes(7), of True r] in \<open>simp_all flip: f\<close>)
    then show ?thesis using nodes(1) by (simp add: zlexcountCommand_def)
  qed
qed

end
