(* ===== verification/ZsetBack.thy ===== *)
theory ZsetBack
  imports ZsetQueryOps
begin

text \<open>
  The conversion of a sorted set from a skip list back to a ziplist.
\<close>

lemma convert_back_loop_at:
  assumes env: "env_ok E" and rep: "zsl_rep z0 es" and short: "length es \<le> 1000000" "\<forall>p \<in> set (zkeys es). length (snd p) \<le> 250"
  shows "\<forall>i. j \<le> i \<longrightarrow> i < length es \<longrightarrow> znodes z (e_addr (es ! i)) = znodes z0 (e_addr (es ! i)) \<Longrightarrow>
    zz_ok E zl bs (take j (zkeys es)) \<Longrightarrow>
    \<exists>zl' bs'. convert_back_loop E z (pos_at (map e_addr es) j) zl = Some zl' \<and> zz_ok E zl' bs' (zkeys es)"
proof (induction j arbitrary: z zl bs rule: ahead_induct [where n = "length es"])
  case (beyond j)
  then show ?case by (subst convert_back_loop.simps) auto
next
  case (step j)
  let ?a = "e_addr (es ! j)"
  obtain n where n: "znodes z ?a = Some n" "zobj n = Some (e_obj (es ! j))" "zscore n = e_score (es ! j)"
    using node_of [OF rep step(1)] step.prems(1) step(1) by auto
  obtain sp where s: "slot z0 ?a 0 = Some (pos_at (map e_addr es) (Suc j), sp)"
    using zsl_rep_slot0 [OF rep, of "Suc j"] step(1) by (auto simp: paddr_def pos_at_def)
  have s': "slot z ?a 0 = Some (pos_at (map e_addr es) (Suc j), sp)" using s step.prems(1) step(1) by (simp add: slot_def)
  have key: "zkeys es ! j = (e_score (es ! j), e_obj (es ! j))" using step(1) by (simp add: zkeys_def)
  have len: "length (e_obj (es ! j)) \<le> 250" using short(2) step(1) key by (metis nth_mem snd_conv zkeys_simps(4))
  have tx: "text_ok E" by (rule env_text_ok [OF env])
  have room: "room (take j (zkeys es)) (e_obj (es ! j))" using short(1) len by (simp add: room_def)
  have tk: "take j (zkeys es) @ [(e_score (es ! j), e_obj (es ! j))] = take (Suc j) (zkeys es)"
    using step(1) key by (simp add: take_Suc_conv_app_nth)
  obtain zl1 bs1 where 1: "zzlInsertAt E zl None (e_obj (es ! j)) (e_score (es ! j)) = Some zl1"
    "zz_ok E zl1 bs1 (take (Suc j) (zkeys es))"
    using push_pair [OF step.prems(2) room tx, of "e_score (es ! j)"] len unfolding tk by blast
  have dist: "distinct (map e_addr es)" using zsl_repD(1) [OF rep] by (simp add: elems_ok_def)
  have "\<forall>i. Suc j \<le> i \<longrightarrow> i < length es \<longrightarrow> znodes (zslFreeNode ?a z) (e_addr (es ! i)) = znodes z0 (e_addr (es ! i))"
  proof (intro allI impI)
    fix i assume i: "Suc j \<le> i" "i < length es"
    then have "e_addr (es ! i) \<noteq> ?a" using dist step(1) by (auto simp: distinct_conv_nth)
    then show "znodes (zslFreeNode ?a z) (e_addr (es ! i)) = znodes z0 (e_addr (es ! i))"
      using step.prems(1) i by (simp add: zslFreeNode_def)
  qed
  from step.IH [OF this 1(2)] obtain zl' bs' where
    "convert_back_loop E (zslFreeNode ?a z) (pos_at (map e_addr es) (Suc j)) zl1 = Some zl'" "zz_ok E zl' bs' (zkeys es)" by blast
  then show ?case using n s' 1(1) step(1) by (intro exI [of _ zl'] exI [of _ bs'] conjI; (subst convert_back_loop.simps)?) simp_all
qed

lemma zsetConvert_back:
  assumes env: "env_ok E" and ok: "zs_ok zs es" and short: "length es \<le> 1000000" "\<forall>p \<in> set (zkeys es). length (snd p) \<le> 250"
  shows "\<exists>zl. zsetConvert E ENCODING_ZIPLIST (ZsetSkiplist zs) t = Some (ZsetZiplist zl, t) \<and> zset_rep E (ZsetZiplist zl) (zkeys es)"
proof -
  have rep: "zsl_rep (zsl zs) es" using ok by (simp add: zs_ok_def)
  let ?h = "header (zsl zs)"
  have "?h \<notin> e_addr ` set es" using zsl_repD(1) [OF rep] by (simp add: elems_ok_def)
  then have "e_addr (es ! i) \<noteq> ?h" if "i < length es" for i using that by (metis image_eqI nth_mem)
  then have agree: "\<forall>i. 0 \<le> i \<longrightarrow> i < length es \<longrightarrow> znodes (zslFreeNode ?h (zsl zs)) (e_addr (es ! i)) = znodes (zsl zs) (e_addr (es ! i))"
    by (simp add: zslFreeNode_def)
  have start: "zz_ok E ziplistNew [] (take 0 (zkeys es))" using zz_ok_new by simp
  obtain zl bs where zl: "convert_back_loop E (zslFreeNode ?h (zsl zs)) (pos_at (map e_addr es) 0) ziplistNew = Some zl"
    "zz_ok E zl bs (zkeys es)"
    using convert_back_loop_at [OF env rep short agree start] by blast
  obtain sp where "slot (zsl zs) ?h 0 = Some (pos_at (map e_addr es) 0, sp)"
    using zsl_rep_slot0 [OF rep, of 0] by (auto simp: paddr_def pos_at_def)
  moreover have "zset_rep E (ZsetZiplist zl) (zkeys es)" using zl(2) zs_ok_sset [OF ok] short(1) by (auto simp: zset_rep_def)
  ultimately show ?thesis using zl(1) by (simp add: zsetConvert_def)
qed

end
