(* ===== verification/SortedQueries.thy ===== *)
theory SortedQueries
  imports SortedSet ZsetBack
begin

text \<open>
  The properties of the queries for ranges of a sorted set and of the conversions.
\<close>

text \<open>C16: ZRANGE and ZREVRANGE answer the elements at the places from one index to the other, an
  index \<open>-k\<close> being the \<open>k\<close>-th place from the end of the walk, in order, with their scores on
  request; the announced length is that of the reply.\<close>

theorem zrange_correct:
  assumes "env_ok E" "zset_rep E o' ps" "length ps < 1073741824"
  shows "\<exists>o2. zrangeGenericCommand E reverse start end' withscores o' =
      Some (int (length (reply_of withscores (ranks_walked start end' reverse ps))), reply_of withscores (ranks_walked start end' reverse ps), o2) \<and>
    zset_rep E o2 ps"
  using zrange_spec [OF assms, of reverse start end' withscores] by (simp add: Let_def)

theorem zrange_correct_witness:
  "\<exists>o' o2 o3. zset_rep (env1 0) o' [(0, [97]), (1, [98]), (1, [99])] \<and>
    zrangeGenericCommand (env1 0) True (- 2) (- 1) True o' = Some (4, [ItemBulk [98], ItemDouble 1, ItemBulk [97], ItemDouble 0], o2) \<and>
    zrangeGenericCommand (env1 0) False (- 7) (- 3) False o' = Some (1, [ItemBulk [97]], o3)"
proof -
  let ?ps = "[(0, [97]), (1, [98]), (1 :: 1 word, [99])]"
  obtain o' where o': "zset_rep (env1 0) o' ?ps"
    using set_exists [of 0 ?ps] by (auto simp: sset_def zsorted_def zlt_def)
  have "reply_of True (ranks_walked (- 2) (- 1) True ?ps) = [ItemBulk [98], ItemDouble 1, ItemBulk [97], ItemDouble 0]"
    "reply_of False (ranks_walked (- 7) (- 3) False ?ps) = [ItemBulk [97]]"
    by (simp_all add: ranks_walked_def in_ranks_def rank_pos_def nths_Cons reply_of_def item_of_def)
  then show ?thesis
    using zrange_correct [OF env1_ok o', where reverse = True and start = "- 2" and end' = "- 1" and withscores = True]
      zrange_correct [OF env1_ok o', where reverse = False and start = "- 7" and end' = "- 3" and withscores = False] o' by auto
qed

text \<open>C17: ZRANGEBYSCORE and ZREVRANGEBYSCORE answer, in order, the elements with a score in the
  range, after the first \<open>offset\<close> of them and at most \<open>limit\<close>, all if that is negative; the announced
  length is that of the reply.\<close>

theorem zrangebyscore_correct:
  assumes "env_ok E" "zset_rep E o' ps" "length ps < 4294967296"
  shows "genericZrangebyscoreCommand E reverse r offset limit withscores o' =
    (let items = reply_of withscores (clip offset limit (filter (in_scores r) (walk reverse ps))) in Some (length items, items))"
  using assms by (rule zrangebyscore_spec)

theorem zrangebyscore_correct_witness:
  "\<exists>o'. zset_rep (env1 5) o' [(0, [97]), (1, [98]), (1, [99])] \<and>
    genericZrangebyscoreCommand (env1 5) True \<lparr>rmin = 0, rmax = 1, minex = True, maxex = False\<rparr> 1 7 False o' = Some (1, [ItemBulk [98]])"
proof -
  obtain o' where o': "zset_rep (env1 5) o' [(0, [97]), (1, [98]), (1, [99])]"
    using set_exists [of 5 "[(0, [97]), (1, [98]), (1, [99])]"] by (auto simp: sset_def zsorted_def zlt_def)
  let ?r = "\<lparr>rmin = 0, rmax = 1 :: 1 word, minex = True, maxex = False\<rparr>"
  have "genericZrangebyscoreCommand (env1 5) True ?r 1 7 False o' =
      (let items = reply_of False (clip 1 7 (filter (in_scores ?r) (walk True [(0, [97]), (1, [98]), (1, [99])]))) in Some (length items, items))"
    by (rule zrangebyscore_correct [OF env1_ok o']) simp_all
  then show ?thesis
    using o' by (auto simp: in_scores_def zslValueGteMin_def zslValueLteMax_def clip_def limited_def reply_of_def item_of_def)
qed

text \<open>C18: Among elements of one score ZRANGEBYLEX and ZREVRANGEBYLEX answer those in the range of
  strings, in order, with offset and limit, in either encoding; nothing for the bounds the code
  mistakes for an empty range.\<close>

theorem zrangebylex_correct:
  assumes "env_ok E" "zset_rep E o' ps" "length ps < 4294967296" "one_score ps"
  shows "genericZrangebylexCommand E reverse r offset limit o' =
    (let items = reply_of False (clip offset limit (if mixed_up r then [] else filter (in_strings r) (walk reverse ps))) in Some (length items, items))"
  using zrangebylex_spec [OF assms, of reverse r offset limit] by (simp add: strings_walked_def)

theorem zrangebylex_correct_witness:
  "\<exists>o'. zset_rep (env1 0) o' [(0, [97]), (0, [98])] \<and>
    genericZrangebylexCommand (env1 0) True \<lparr>lmin = MinString, lmax = LexObj [98], lminex = False, lmaxex = True\<rparr> 0 (- 1) o' = Some (1, [ItemBulk [97]])"
proof -
  obtain o' where o': "zset_rep (env1 0) o' [(0, [97]), (0, [98])]"
    using set_exists [of 0 "[(0, [97]), (0, [98])]"] by (auto simp: sset_def zsorted_def zlt_def)
  let ?r = "\<lparr>lmin = MinString, lmax = LexObj [98], lminex = False, lmaxex = True\<rparr>"
  have m: "\<not> mixed_up ?r" by (simp add: mixed_up_def lex_contents_def)
  have one: "one_score [(0 :: 1 word, [97 :: u8]), (0, [98])]" by (simp add: one_score_def)
  have "filter (in_strings ?r) (walk True [(0 :: 1 word, [97]), (0, [98])]) = [(0, [97])]"
    by (simp add: in_strings_def lex_bounds)
  then show ?thesis
    using zrangebylex_correct [OF env1_ok o' _ one, where reverse = True and r = ?r and offset = 0 and limit = "- 1"] o' m
    by (auto simp: clip_def limited_def reply_of_def item_of_def)
qed

text \<open>C19: ZCOUNT and ZLEXCOUNT answer the number of elements in the range: the count along the
  ziplist and the difference of the ranks in the skip list are both right.\<close>

theorem zcount_correct:
  assumes "env_ok E" "zset_rep E o' ps" "length ps < 2147483648"
  shows "zcountCommand E r o' = Some (RepCount (int (length (filter (in_scores r) ps)))) \<and>
    (one_score ps \<and> \<not> mixed_up lr \<longrightarrow> zlexcountCommand lr o' = Some (RepCount (int (length (filter (in_strings lr) ps)))))"
  using zcount_spec [OF assms, of r] zlexcount_spec [OF assms(2,3), of lr] by blast

theorem zcount_correct_witness:
  "\<exists>o'. zset_rep (env1 0) o' [(0, [97]), (0, [98])] \<and>
    zcountCommand (env1 0) \<lparr>rmin = 0, rmax = 1, minex = True, maxex = False\<rparr> o' = Some (RepCount 0) \<and>
    zlexcountCommand \<lparr>lmin = MinString, lmax = MaxString, lminex = False, lmaxex = False\<rparr> o' = Some (RepCount 2)"
proof -
  obtain o' where o': "zset_rep (env1 0) o' [(0, [97]), (0, [98])]"
    using set_exists [of 0 "[(0, [97]), (0, [98])]"] by (auto simp: sset_def zsorted_def zlt_def)
  let ?r = "\<lparr>rmin = 0, rmax = 1 :: 1 word, minex = True, maxex = False\<rparr>" and ?lr = "\<lparr>lmin = MinString, lmax = MaxString, lminex = False, lmaxex = False\<rparr>"
  have m: "\<not> mixed_up ?lr" by (simp add: mixed_up_def lex_contents_def)
  have one: "one_score [(0 :: 1 word, [97 :: u8]), (0, [98])]" by (simp add: one_score_def)
  have "filter (in_strings ?lr) [(0 :: 1 word, [97]), (0, [98])] = [(0, [97]), (0, [98])]" "filter (in_scores ?r) [(0, [97]), (0, [98])] = []"
    by (simp_all add: in_strings_def lex_bounds in_scores_def zslValueGteMin_def)
  then show ?thesis using zcount_correct [OF env1_ok o', where r = ?r and lr = ?lr] o' m one by auto
qed

text \<open>C20: A set of few short elements can be converted to a ziplist and back to a skip list, and
  both stand for the same list of elements and scores.\<close>

theorem zset_convert_roundtrip:
  assumes "env_ok E" "zset_rep E (ZsetSkiplist zs) ps" "ps \<noteq> []" "length ps \<le> 1000000" "\<forall>p \<in> set ps. length (snd p) \<le> 250"
  shows "\<exists>zl zs' t'. zsetConvert E ENCODING_ZIPLIST (ZsetSkiplist zs) t = Some (ZsetZiplist zl, t) \<and> zset_rep E (ZsetZiplist zl) ps \<and>
    zsetConvert E ENCODING_SKIPLIST (ZsetZiplist zl) t = Some (ZsetSkiplist zs', t') \<and> zset_rep E (ZsetSkiplist zs') ps"
proof -
  obtain es where es: "zs_ok zs es" "ps = zkeys es" using assms(2) by (auto simp: zset_rep_def)
  obtain zl where zl: "zsetConvert E ENCODING_ZIPLIST (ZsetSkiplist zs) t = Some (ZsetZiplist zl, t)" "zset_rep E (ZsetZiplist zl) ps"
    using zsetConvert_back [OF assms(1) es(1), of t] assms(4,5) es(2) by auto
  then obtain bs where b: "zz_ok E zl bs ps" "sset ps" by (auto simp: zset_rep_def)
  have "Suc (length ps) < U32" using assms(4) by simp
  then obtain zs' t' fs where "zsetConvert E ENCODING_SKIPLIST (ZsetZiplist zl) t = Some (ZsetSkiplist zs', t')" "zs_ok zs' fs" "zkeys fs = ps"
    using zsetConvert_spec [OF assms(1) zz_okD(1) [OF b(1)] b(2) _ assms(3), of t] by blast
  moreover from this(2,3) have "zset_rep E (ZsetSkiplist zs') ps" by (auto simp: zset_rep_def)
  ultimately show ?thesis using zl by blast
qed

theorem zset_convert_roundtrip_witness:
  "\<exists>zs zl zs' t'. zset_rep (env1 0) (ZsetSkiplist zs) [(1, [97])] \<and>
    zsetConvert (env1 0) ENCODING_ZIPLIST (ZsetSkiplist zs) 0 = Some (ZsetZiplist zl, 0) \<and>
    zsetConvert (env1 0) ENCODING_SKIPLIST (ZsetZiplist zl) 0 = Some (ZsetSkiplist zs', t')"
proof -
  have env: "env_ok (env1 0)" by (rule env1_ok) simp
  obtain zs where "zs_ok zs ([] :: 1 word zelem list)" using createZset_spec [OF env, of 0] by blast
  then obtain zs1 es1 where "zset_insert_new (env1 0) 1 [97] zs 0 = Some (zs1, 0 + 1)" "zs_ok zs1 es1"
    "zkeys es1 = zins 1 [97] (zkeys ([] :: 1 word zelem list))"
    by (rule zset_insert_new_spec [OF env]) simp_all
  then have "zs_ok zs1 es1" "zkeys es1 = [(1 :: 1 word, [97])]" by (simp_all add: zins_def)
  then have z: "zset_rep (env1 0) (ZsetSkiplist zs1) [(1, [97])]" by (force simp: zset_rep_def)
  show ?thesis using zset_convert_roundtrip [OF env z, of 0] z by auto
qed

end
