(* ===== verification/Spec2Isabelle.thy ===== *)
theory Spec2Isabelle
  imports Intset Rdb DictScan DictHash ZiplistOps WatchSafety SkipList SortedSet SortedQueries
begin

text \<open>
  A verification library for the C code of the store that the game server keeps its state
  in: \<open>src/pack/dependency/redis-2.8.19/src\<close>, called \<open>R\<close> below.  The game itself is
  JavaScript and Lua; it reads and writes players, inventories and rankings through this
  server, so the data structures that hold them, the conversions that encode them and the
  files that persist them are what the library is about, and on top of them the commands
  and transactions by which clients change them.

  \<^bold>\<open>The parts and how they interact.\<close>  A value is kept as dynamic strings (\<open>R/sds.c\<close>), hash
  tables (\<open>R/dict.c\<close>), sorted integer arrays (\<open>R/intset.c\<close>) and packed lists
  (\<open>R/ziplist.c\<close>); a sorted set (\<open>R/t_zset.c\<close>), such as a ranking, is a small ziplist or a
  skip list with a hash table.  Ziplists, intsets and the RDB file store a string that is the canonical
  form of an integer as that integer, so all rest on the conversions of \<open>R/util.c\<close>.  The
  RDB code (\<open>R/rdb.c\<close>) writes through a stream object (\<open>R/rio.c\<close>) that keeps a running
  CRC-64 (\<open>R/crc64.c\<close>) and compresses long strings (\<open>R/lzf_c.c\<close>, \<open>R/lzf_d.c\<close>).  Above the
  containers stands the key space (\<open>R/db.c\<close>): databases of keys with expire times, changed by
  the commands that \<open>R/redis.c\<close> dispatches, and grouped into transactions by \<open>R/multi.c\<close>,
  whose \<open>WATCH\<close> relies on every command signalling the keys it changes.

  \<^bold>\<open>Conventions.\<close>  Bytes are \<open>8 word\<close>, a buffer is the list of its bytes, a pointer into it
  an offset.  A \<open>struct\<close> is a record, a function that changes its argument returns it.
  Unsigned counters are numbers with the wrap-around written out (or words where the code
  computes with bits), signed 64-bit values are integers with \<open>is_int64\<close>; where a value is
  narrowed to \<open>int\<close> (the bucket of a new hash table entry, the index of a range deletion in a
  ziplist, the counter kept over \<open>FLUSHALL\<close>) the model converts it too.  \<open>None\<close> (or an
  error value) stands for a failed assertion or an access out of bounds, so a theorem that
  an operation returns \<open>Some\<close> includes memory safety.  Allocation succeeds, as the server
  aborts when it does not; byte order is little-endian, as in the build.

  \<^bold>\<open>Theories.\<close>

  \<^item> \<open>Prelude\<close>: buffers (\<open>buf_get\<close>, \<open>buf_put\<close>, \<open>memmove\<close>, \<open>buf_resize\<close>), little-endian
    numbers (\<open>le_bytes\<close>, \<open>le_uint\<close>, \<open>to_signed\<close>), the conversion \<open>to_int32\<close>, and their laws; the
    hint collections.
  \<^item> \<open>NumConv\<close>: \<open>ll2string\<close>, \<open>string2ll\<close>, \<open>string2l\<close>, \<open>memtoll\<close>, \<open>digits10\<close>.  The
    lemmas characterise \<open>string2ll\<close> as the partial inverse of the canonical decimal form.
  \<^item> \<open>Sds\<close>, \<open>SdsText\<close>: the buffer operations with their \<open>len\<close>/\<open>free\<close> accounting, and
    printing, splitting, quoting and the argument splitter.
  \<^item> \<open>SetAdt\<close>, \<open>MapAdt\<close>: the contracts of a set and of a dictionary as locales, with the
    lemmas their clients use; \<open>Intset\<close> and \<open>Dict\<close> interpret them.
  \<^item> \<open>Intset\<close>: the sorted array with its encoding upgrade, by refinement to sorted lists.
  \<^item> \<open>Dict\<close>, \<open>DictScan\<close>, \<open>DictHash\<close>: the table pair with incremental rehashing refines
    finite maps, as long as the tables have at most \<open>2 ^ 31\<close> buckets (\<open>dict_inv\<close>), and beyond
    that loses or misplaces entries (\<open>dictAdd_wide\<close>); the cursor of \<open>dictScan\<close>, read as the number of its reversed bits, emits
    every entry of the rank interval it crosses; the hash functions.
  \<^item> \<open>Lzf\<close>: the compressor with every write checked, the decompressor with every read of its
    input and output and every write checked.  The compressor's hash table
    is uninitialised memory: its contents are an argument and the round trip holds for all.
  \<^item> \<open>Crc64\<close>: the literal table, its equality with the bit-serial division, burst errors.
  \<^item> \<open>Rio\<close>: streams with memory, file and socket-set backends; the locale \<open>stream\<close> is what
    a writer relies on.
  \<^item> \<open>Rdb\<close>: lengths, integers, strings, doubles, objects and the whole dump; \<open>saves\<close>,
    \<open>reads\<close> and \<open>emits\<close> say what a function does to any stream that honours the contract.
  \<^item> \<open>Ziplist\<close>: every operation on the bytes of the block, all accesses checked.
    \<open>ZiplistSpec\<close>: the layout of a block (\<open>zl_rep\<close>) and what insertion, deletion and the
    cascade of length updates do to it.  \<open>ZiplistOps\<close>: traversal, reading, searching, and
    the operations as operations on the list of strings a block represents.
  \<^item> \<open>Keyspace\<close>: the server's databases, clients and clock as the record \<open>server\<close>; lookups with
    lazy expiry, one try of the active cycle, and the commands of \<open>R/db.c\<close> with \<open>SET\<close> and \<open>GET\<close> of
    \<open>R/t_string.c\<close>.  \<open>Multi\<close>: watching, queueing and \<open>EXEC\<close>, \<open>call\<close>, the eviction of keys
    (\<open>freeMemoryIfNeeded\<close>) and \<open>processCommand\<close>, up to the \<open>call\<close>, of \<open>R/redis.c\<close>.  \<open>KeyspaceSpec\<close>, \<open>KeyspaceOps\<close>: what each operation and command does to the maps
    \<open>kv\<close> and \<open>ex\<close> of keys to values and expire times, and whose watchers it marks (\<open>post\<close>).
    \<open>Transactions\<close>: the invariant \<open>server_ok\<close> and what a step may do to other clients (\<open>eff\<close>),
    shown for every command.  \<open>WatchSafety\<close>: the steps \<open>env\<close> of the world around a watching
    client, and the properties of commands and transactions.  What \<open>WATCH\<close> guarantees does not
    extend to \<open>MOVE\<close> and to eviction, which change a key without marking its watchers
    (\<open>move_silent\<close>, \<open>evict_silent\<close>).
  \<^item> \<open>Zskiplist\<close>: the skip list of \<open>R/t_zset.c\<close> on a heap of nodes, with spans, backward pointers
    and levels; node addresses and random numbers are arguments.  \<open>ZslSpec\<close>: what it represents,
    an ordered list of elements with their heights (\<open>zsl_rep\<close>), the searches, insertion and the
    deletion of a node.  \<open>ZslOps\<close>, \<open>ZslRange\<close>, \<open>ZslLex\<close>: ranks, ranges of scores, ranks and
    strings.  \<open>SkipList\<close>: the properties.
  \<^item> \<open>Zset\<close>, \<open>ZsetCommands\<close>: sorted sets in both encodings, a ziplist of elements and scores
    (\<open>zzl\<close> functions) or a dictionary with a skip list (\<open>zset\<close>, its values are the addresses of
    the nodes whose scores they point to), the conversions and the commands.  The record
    \<open>zenv\<close> holds what the code takes from outside: the operations of C on doubles, addresses,
    random numbers and the configuration; \<open>d2string\<close> is a definition over it, and that its text
    reads back as the score is proved from \<open>libc_ok\<close>.  \<open>ZsetZl\<close>, \<open>ZsetEdit\<close>, \<open>ZsetRange\<close>:
    the ziplist as a list of pairs.  \<open>ZsetSpec\<close>: what an object of either encoding represents
    (\<open>zset_rep\<close>).  \<open>ZsetAdd\<close>, \<open>ZsetRem\<close>, \<open>ZsetRemRange\<close>, \<open>ZsetReads\<close>: the commands as operations
    on that list.  \<open>SortedSet\<close>: the properties.
  \<^item> \<open>ZsetQueries\<close>: the queries for ranges of ranks, scores and strings in both directions and the
    counts.  \<open>ZsetTracks\<close>: their loops along a track, the list of positions a walk goes through;
    \<open>ZsetQuerySpec\<close>: the tracks of both encodings and where a range begins on them;
    \<open>ZsetQueryOps\<close>, \<open>ZsetBack\<close>: the queries and the conversion to a ziplist on the list of pairs.
    \<open>SortedQueries\<close>: the properties.

  \<^bold>\<open>Loops, fuel and bounds.\<close>  Loops are recursive functions with a termination proof; no
  model uses fuel.  Loops whose end depends on the data being well-formed (the walks over a
  ziplist, the cascade) terminate on arbitrary bytes, because the checked accesses stop them
  at the end of the block.  Ziplist theorems assume blocks below \<open>2 ^ 30\<close> bytes, so that the
  32-bit header fields and the sizes computed from them cannot wrap; dictionaries assume at
  most \<open>2 ^ 30\<close> entries where one is added and expansions to at most \<open>2 ^ 31\<close> buckets, the range
  of the \<open>int\<close> index; skip lists hold
  less than \<open>2 ^ 32\<close> elements, so that spans do not wrap.  The walks over a skip list and over the
  pairs of a sorted set are partial functions, shown to return on everything that represents
  something.  A sorted set stays a ziplist up to configured limits of at most 1000000 elements
  and 250 bytes each, so that every length field of the block is one byte.

  \<^bold>\<open>Parameters.\<close>  Where the code calls the C library for something that has no definition
  here (the conversions between doubles, text and integers, the system calls below a stream)
  the function is an argument, with its documented behaviour as a named hypothesis (\<open>libc_ok\<close>).
  In \<open>freeMemoryIfNeeded\<close> the memory in use and the randomly sampled key are arguments.

  \<^bold>\<open>Not modelled.\<close>  Other components of the server: the event loop, sockets and replication
  (system calls and timers), configuration and process set-up, the command line tools.  The commands on
  lists, sets and hashes; of those on sorted sets, unions and intersections, scans
  and the parsing of arguments.  Of the key space: argument parsing, key listings and
  scans, the clients blocked on lists that \<open>processCommand\<close> serves after the call, monitors and
  statistics; a value there is an address with
  a type, so a command that changes a value in place is outside the transaction theorems.  Of
  the modelled files: \<open>printf\<close>-style formatting, dictionary iterators and random keys,
  loading of whole objects from an RDB file, background saving.  Of the repository: the
  game's scripts, the Lua and node runtimes and the binding between them.
\<close>

end
